(* ===== verification/Prelude.thy ===== *)
theory Prelude
  imports Main "HOL-Library.Word" "HOL-Library.Monad_Syntax" "HOL-Library.Signed_Division"
begin

text \<open>
  Shared by every theory of the development: the machine-integer conversions the C++ code
  performs implicitly, the convention for code that does not return normally, and generic
  lemmas on lists and options with the collections that gather the rewrite rules of the
  components.

  Conventions.
  \<^item> A C++ \<^verbatim>\<open>int\<close> is an \<^typ>\<open>int\<close>; the predicate \<open>is_int32\<close> says that it fits 32 bits, and a
    conversion that wraps (\<^verbatim>\<open>int\<close> to \<^verbatim>\<open>unsigned\<close> or to \<^verbatim>\<open>size_t\<close> and back) is written out.
  \<^item> \<open>None\<close> is "does not return normally": an exception, a failed \<^verbatim>\<open>assert\<close>, or an access out of
    bounds, which C++ leaves undefined. Each definition says in a comment which of them it is.
    Operations compose with the option monad's do-notation.
  \<^item> \<^verbatim>\<open>wxASSERT\<close> only reports and goes on, so it leaves no trace in the model.
\<close>

section \<open>Collections of rewrite rules\<close>

named_theorems layer_num_defs \<open>numeric values of the layer constants\<close>
named_theorems layer_pred_defs \<open>the layer classification predicates\<close>
named_theorems bits_simps \<open>the members of a bit set after an operation\<close>
named_theorems wf_intros \<open>well-formedness is kept by the operations\<close>

section \<open>Machine integers\<close>

definition is_int32 :: "int \<Rightarrow> bool" where
  "is_int32 x \<longleftrightarrow> - (2 ^ 31) \<le> x \<and> x < 2 ^ 31"

definition int32_of :: "int \<Rightarrow> int" where
  "int32_of x = (x + 2 ^ 31) mod 2 ^ 32 - 2 ^ 31"

definition uint32_of :: "int \<Rightarrow> nat" where
  "uint32_of x = nat (x mod 2 ^ 32)"

definition size_t_of :: "int \<Rightarrow> nat" where
  "size_t_of x = nat (x mod 2 ^ 64)"

definition SIZE_T_MAX :: nat where
  "SIZE_T_MAX = 2 ^ 64 - 1"

lemma int32_of_id: "is_int32 x \<Longrightarrow> int32_of x = x"
  by (simp add: is_int32_def int32_of_def)

lemma size_t_of_nonneg: "0 \<le> x \<Longrightarrow> x < 2 ^ 64 \<Longrightarrow> size_t_of x = nat x"
  by (simp add: size_t_of_def)

lemma size_t_of_of_nat: "n < 2 ^ 64 \<Longrightarrow> size_t_of (int n) = n"
  by (simp add: size_t_of_nonneg)

lemma size_t_of_minus_one: "size_t_of (- 1) = SIZE_T_MAX"
  by (simp add: size_t_of_def SIZE_T_MAX_def)

lemma size_t_of_neg:
  assumes "- (2 ^ 63) \<le> x" and "x < 0"
  shows "size_t_of x = nat (x + 2 ^ 64)"
proof -
  have "(x + 2 ^ 64) mod 2 ^ 64 = x + 2 ^ 64"
    by (rule mod_pos_pos_trivial) (use assms in auto)
  then have "x mod 2 ^ 64 = x + 2 ^ 64" by (simp only: mod_add_self2)
  then show ?thesis by (simp only: size_t_of_def)
qed

lemma uint32_of_less_iff:
  assumes "is_int32 x" and "k \<le> 2 ^ 31"
  shows "uint32_of x < k \<longleftrightarrow> 0 \<le> x \<and> x < int k"
proof (cases "0 \<le> x")
  case True
  with assms show ?thesis by (auto simp: uint32_of_def is_int32_def)
next
  case False
  have "(x + 2 ^ 32) mod 2 ^ 32 = x + 2 ^ 32"
    by (rule mod_pos_pos_trivial) (use False assms in \<open>auto simp: is_int32_def\<close>)
  then have "x mod 2 ^ 32 = x + 2 ^ 32" by (simp only: mod_add_self2)
  with False assms show ?thesis by (auto simp: uint32_of_def is_int32_def)
qed

section \<open>Options\<close>

lemma bind_Some_iff: "Option.bind x f = Some z \<longleftrightarrow> (\<exists>y. x = Some y \<and> f y = Some z)"
  by (cases x) auto

text \<open>A loop that stops at the first iteration that does not return.\<close>

primrec fold_opt :: "('a \<Rightarrow> 's \<Rightarrow> 's option) \<Rightarrow> 'a list \<Rightarrow> 's \<Rightarrow> 's option" where
  "fold_opt f [] s = Some s"
| "fold_opt f (x # xs) s = Option.bind (f x s) (fold_opt f xs)"

lemma fold_opt_append: "fold_opt f (xs @ ys) s = Option.bind (fold_opt f xs s) (fold_opt f ys)"
  by (induction xs arbitrary: s) (auto split: bind_split)

lemma fold_opt_map: "fold_opt f (map g xs) s = fold_opt (\<lambda>x. f (g x)) xs s"
  by (induction xs arbitrary: s) (auto split: bind_split)

lemma fold_opt_fold:
  assumes "\<And>x t. x \<in> set xs \<Longrightarrow> P t \<Longrightarrow> f x t = Some (g x t) \<and> P (g x t)" and "P s"
  shows "fold_opt f xs s = Some (fold g xs s) \<and> P (fold g xs s)"
  using assms by (induction xs arbitrary: s) auto

section \<open>Lists\<close>

lemma list_update_all: "\<forall>x \<in> set xs. P x \<Longrightarrow> P y \<Longrightarrow> \<forall>x \<in> set (xs[i := y]). P x"
  using set_update_subset_insert by fastforce

lemma filter_upt_eq_sorted_list_of_set:
  "filter P [0..<n] = sorted_list_of_set {i. i < n \<and> P i}"
proof (rule sorted_distinct_set_unique)
  show "set (filter P [0..<n]) = set (sorted_list_of_set {i. i < n \<and> P i})" by auto
qed (simp_all add: sorted_wrt_filter)

end
