(* ===== verification/LayerEnums.thy ===== *)
theory LayerEnums
  imports Prelude
begin

text \<open>
  The layer enumerations of \<^verbatim>\<open>include/layer_ids.h\<close>. Each enumeration is a datatype with the
  source's enumerators, in the source's order, and a function that gives the numeric value
  the compiler assigns to it. All of them have underlying type \<^verbatim>\<open>int\<close> and are converted to
  \<^verbatim>\<open>int\<close> everywhere, so a layer variable of the code is an \<^typ>\<open>int\<close> in the model and an
  enumerator occurs in it through its numeric value: the code computes with layer numbers
  (\<^verbatim>\<open>ii + In1_Cu\<close>, \<^verbatim>\<open>PCB_LAYER_ID( i )\<close>), and not every value has an enumerator.

  The six enumerations share one number line: each one starts at the end of the one before.
\<close>

section \<open>Board layers\<close>

text \<open>\<open>PCB_LAYER_ID_COUNT\<close> is the number of layers a board can have, not a layer.\<close>

datatype (plugins only: code) PCB_LAYER_ID =
    UNDEFINED_LAYER | UNSELECTED_LAYER | F_Cu | In1_Cu | In2_Cu | In3_Cu | In4_Cu
    | In5_Cu | In6_Cu | In7_Cu | In8_Cu | In9_Cu | In10_Cu | In11_Cu | In12_Cu | In13_Cu
    | In14_Cu | In15_Cu | In16_Cu | In17_Cu | In18_Cu | In19_Cu | In20_Cu | In21_Cu
    | In22_Cu | In23_Cu | In24_Cu | In25_Cu | In26_Cu | In27_Cu | In28_Cu | In29_Cu
    | In30_Cu | B_Cu | B_Adhes | F_Adhes | B_Paste | F_Paste | B_SilkS | F_SilkS
    | B_Mask | F_Mask | Dwgs_User | Cmts_User | Eco1_User | Eco2_User | Edge_Cuts
    | Margin | B_CrtYd | F_CrtYd | B_Fab | F_Fab | User_1 | User_2 | User_3 | User_4
    | User_5 | User_6 | User_7 | User_8 | User_9 | Rescue | PCB_LAYER_ID_COUNT

primrec pcb_num :: "PCB_LAYER_ID \<Rightarrow> int" where
  "pcb_num UNDEFINED_LAYER = - 1"
| "pcb_num UNSELECTED_LAYER = - 2"
| "pcb_num F_Cu = 0"
| "pcb_num In1_Cu = 1"
| "pcb_num In2_Cu = 2"
| "pcb_num In3_Cu = 3"
| "pcb_num In4_Cu = 4"
| "pcb_num In5_Cu = 5"
| "pcb_num In6_Cu = 6"
| "pcb_num In7_Cu = 7"
| "pcb_num In8_Cu = 8"
| "pcb_num In9_Cu = 9"
| "pcb_num In10_Cu = 10"
| "pcb_num In11_Cu = 11"
| "pcb_num In12_Cu = 12"
| "pcb_num In13_Cu = 13"
| "pcb_num In14_Cu = 14"
| "pcb_num In15_Cu = 15"
| "pcb_num In16_Cu = 16"
| "pcb_num In17_Cu = 17"
| "pcb_num In18_Cu = 18"
| "pcb_num In19_Cu = 19"
| "pcb_num In20_Cu = 20"
| "pcb_num In21_Cu = 21"
| "pcb_num In22_Cu = 22"
| "pcb_num In23_Cu = 23"
| "pcb_num In24_Cu = 24"
| "pcb_num In25_Cu = 25"
| "pcb_num In26_Cu = 26"
| "pcb_num In27_Cu = 27"
| "pcb_num In28_Cu = 28"
| "pcb_num In29_Cu = 29"
| "pcb_num In30_Cu = 30"
| "pcb_num B_Cu = 31"
| "pcb_num B_Adhes = 32"
| "pcb_num F_Adhes = 33"
| "pcb_num B_Paste = 34"
| "pcb_num F_Paste = 35"
| "pcb_num B_SilkS = 36"
| "pcb_num F_SilkS = 37"
| "pcb_num B_Mask = 38"
| "pcb_num F_Mask = 39"
| "pcb_num Dwgs_User = 40"
| "pcb_num Cmts_User = 41"
| "pcb_num Eco1_User = 42"
| "pcb_num Eco2_User = 43"
| "pcb_num Edge_Cuts = 44"
| "pcb_num Margin = 45"
| "pcb_num B_CrtYd = 46"
| "pcb_num F_CrtYd = 47"
| "pcb_num B_Fab = 48"
| "pcb_num F_Fab = 49"
| "pcb_num User_1 = 50"
| "pcb_num User_2 = 51"
| "pcb_num User_3 = 52"
| "pcb_num User_4 = 53"
| "pcb_num User_5 = 54"
| "pcb_num User_6 = 55"
| "pcb_num User_7 = 56"
| "pcb_num User_8 = 57"
| "pcb_num User_9 = 58"
| "pcb_num Rescue = 59"
| "pcb_num PCB_LAYER_ID_COUNT = 60"

section \<open>Net name layers\<close>

text \<open>One net name layer for each board layer, then four for pads and vias.\<close>

datatype (plugins only: code) NETNAMES_LAYER_ID =
    NETNAMES_LAYER_ID_START | NETNAMES_LAYER_ID_RESERVED | LAYER_PAD_FR_NETNAMES
    | LAYER_PAD_BK_NETNAMES | LAYER_PAD_NETNAMES | LAYER_VIA_NETNAMES
    | NETNAMES_LAYER_ID_END

primrec netnames_num :: "NETNAMES_LAYER_ID \<Rightarrow> int" where
  "netnames_num NETNAMES_LAYER_ID_START = 60"
| "netnames_num NETNAMES_LAYER_ID_RESERVED = 120"
| "netnames_num LAYER_PAD_FR_NETNAMES = 121"
| "netnames_num LAYER_PAD_BK_NETNAMES = 122"
| "netnames_num LAYER_PAD_NETNAMES = 123"
| "netnames_num LAYER_VIA_NETNAMES = 124"
| "netnames_num NETNAMES_LAYER_ID_END = 125"

section \<open>Virtual (GAL) layers\<close>

text \<open>Layers that are not design data. The values up to \<open>LAYER_SHAPES\<close> are explicit offsets from \<open>GAL_LAYER_ID_START\<close>.\<close>

datatype (plugins only: code) GAL_LAYER_ID =
    GAL_LAYER_ID_START | LAYER_VIAS | LAYER_VIA_MICROVIA | LAYER_VIA_BBLIND
    | LAYER_VIA_THROUGH | LAYER_NON_PLATEDHOLES | LAYER_FP_TEXT | LAYER_HIDDEN_TEXT
    | LAYER_ANCHOR | LAYER_PADS_SMD_FR | LAYER_PADS_SMD_BK | LAYER_RATSNEST | LAYER_GRID
    | LAYER_GRID_AXES | LAYER_FOOTPRINTS_FR | LAYER_FOOTPRINTS_BK | LAYER_FP_VALUES
    | LAYER_FP_REFERENCES | LAYER_TRACKS | LAYER_PADS_TH | LAYER_PAD_PLATEDHOLES
    | LAYER_VIA_HOLES | LAYER_DRC_ERROR | LAYER_DRAWINGSHEET | LAYER_GP_OVERLAY
    | LAYER_SELECT_OVERLAY | LAYER_PCB_BACKGROUND | LAYER_CURSOR | LAYER_AUX_ITEMS
    | LAYER_DRAW_BITMAPS | GAL_LAYER_ID_BITMASK_END | LAYER_PADS | LAYER_ZONES
    | LAYER_PAD_HOLEWALLS | LAYER_VIA_HOLEWALLS | LAYER_DRC_WARNING
    | LAYER_DRC_EXCLUSION | LAYER_MARKER_SHADOWS | LAYER_LOCKED_ITEM_SHADOW
    | LAYER_CONFLICTS_SHADOW | LAYER_SHAPES | LAYER_DRAWINGSHEET_PAGE1
    | LAYER_DRAWINGSHEET_PAGEn | LAYER_PAGE_LIMITS | LAYER_ZONE_START | LAYER_ZONE_END
    | LAYER_BITMAP_START | LAYER_BITMAP_END | LAYER_UI_START | LAYER_UI_END
    | GAL_LAYER_ID_END

primrec gal_num :: "GAL_LAYER_ID \<Rightarrow> int" where
  "gal_num GAL_LAYER_ID_START = 125"
| "gal_num LAYER_VIAS = 125 + 0"
| "gal_num LAYER_VIA_MICROVIA = 125 + 1"
| "gal_num LAYER_VIA_BBLIND = 125 + 2"
| "gal_num LAYER_VIA_THROUGH = 125 + 3"
| "gal_num LAYER_NON_PLATEDHOLES = 125 + 4"
| "gal_num LAYER_FP_TEXT = 125 + 5"
| "gal_num LAYER_HIDDEN_TEXT = 125 + 7"
| "gal_num LAYER_ANCHOR = 125 + 8"
| "gal_num LAYER_PADS_SMD_FR = 125 + 9"
| "gal_num LAYER_PADS_SMD_BK = 125 + 10"
| "gal_num LAYER_RATSNEST = 125 + 11"
| "gal_num LAYER_GRID = 125 + 12"
| "gal_num LAYER_GRID_AXES = 125 + 13"
| "gal_num LAYER_FOOTPRINTS_FR = 125 + 15"
| "gal_num LAYER_FOOTPRINTS_BK = 125 + 16"
| "gal_num LAYER_FP_VALUES = 125 + 17"
| "gal_num LAYER_FP_REFERENCES = 125 + 18"
| "gal_num LAYER_TRACKS = 125 + 19"
| "gal_num LAYER_PADS_TH = 125 + 20"
| "gal_num LAYER_PAD_PLATEDHOLES = 125 + 21"
| "gal_num LAYER_VIA_HOLES = 125 + 22"
| "gal_num LAYER_DRC_ERROR = 125 + 23"
| "gal_num LAYER_DRAWINGSHEET = 125 + 24"
| "gal_num LAYER_GP_OVERLAY = 125 + 25"
| "gal_num LAYER_SELECT_OVERLAY = 125 + 26"
| "gal_num LAYER_PCB_BACKGROUND = 125 + 27"
| "gal_num LAYER_CURSOR = 125 + 28"
| "gal_num LAYER_AUX_ITEMS = 125 + 29"
| "gal_num LAYER_DRAW_BITMAPS = 125 + 30"
| "gal_num GAL_LAYER_ID_BITMASK_END = 125 + 31"
| "gal_num LAYER_PADS = 125 + 32"
| "gal_num LAYER_ZONES = 125 + 33"
| "gal_num LAYER_PAD_HOLEWALLS = 125 + 34"
| "gal_num LAYER_VIA_HOLEWALLS = 125 + 35"
| "gal_num LAYER_DRC_WARNING = 125 + 36"
| "gal_num LAYER_DRC_EXCLUSION = 125 + 37"
| "gal_num LAYER_MARKER_SHADOWS = 125 + 38"
| "gal_num LAYER_LOCKED_ITEM_SHADOW = 125 + 39"
| "gal_num LAYER_CONFLICTS_SHADOW = 125 + 40"
| "gal_num LAYER_SHAPES = 125 + 41"
| "gal_num LAYER_DRAWINGSHEET_PAGE1 = 167"
| "gal_num LAYER_DRAWINGSHEET_PAGEn = 168"
| "gal_num LAYER_PAGE_LIMITS = 169"
| "gal_num LAYER_ZONE_START = 170"
| "gal_num LAYER_ZONE_END = 230"
| "gal_num LAYER_BITMAP_START = 231"
| "gal_num LAYER_BITMAP_END = 291"
| "gal_num LAYER_UI_START = 292"
| "gal_num LAYER_UI_END = 302"
| "gal_num GAL_LAYER_ID_END = 303"

section \<open>Schematic drawing layers\<close>

text \<open>\<open>LAYER_WIRE\<close> has the value of \<open>SCH_LAYER_ID_START\<close>.\<close>

datatype (plugins only: code) SCH_LAYER_ID =
    SCH_LAYER_ID_START | LAYER_WIRE | LAYER_BUS | LAYER_JUNCTION | LAYER_LOCLABEL
    | LAYER_GLOBLABEL | LAYER_HIERLABEL | LAYER_PINNUM | LAYER_PINNAM
    | LAYER_REFERENCEPART | LAYER_VALUEPART | LAYER_FIELDS | LAYER_INTERSHEET_REFS
    | LAYER_NETCLASS_REFS | LAYER_RULE_AREAS | LAYER_DEVICE | LAYER_NOTES
    | LAYER_PRIVATE_NOTES | LAYER_NOTES_BACKGROUND | LAYER_PIN | LAYER_SHEET
    | LAYER_SHEETNAME | LAYER_SHEETFILENAME | LAYER_SHEETFIELDS | LAYER_SHEETLABEL
    | LAYER_NOCONNECT | LAYER_DANGLING | LAYER_DNP_MARKER | LAYER_ERC_WARN
    | LAYER_ERC_ERR | LAYER_ERC_EXCLUSION | LAYER_EXCLUDED_FROM_SIM
    | LAYER_DEVICE_BACKGROUND | LAYER_SHEET_BACKGROUND | LAYER_SCHEMATIC_GRID
    | LAYER_SCHEMATIC_GRID_AXES | LAYER_SCHEMATIC_BACKGROUND | LAYER_SCHEMATIC_CURSOR
    | LAYER_HOVERED | LAYER_BRIGHTENED | LAYER_HIDDEN | LAYER_SELECTION_SHADOWS
    | LAYER_SCHEMATIC_DRAWINGSHEET | LAYER_SCHEMATIC_PAGE_LIMITS | LAYER_BUS_JUNCTION
    | LAYER_SCHEMATIC_AUX_ITEMS | LAYER_SCHEMATIC_ANCHOR | LAYER_OP_VOLTAGES
    | LAYER_OP_CURRENTS | SCH_LAYER_ID_END

primrec sch_num :: "SCH_LAYER_ID \<Rightarrow> int" where
  "sch_num SCH_LAYER_ID_START = 303"
| "sch_num LAYER_WIRE = 303"
| "sch_num LAYER_BUS = 304"
| "sch_num LAYER_JUNCTION = 305"
| "sch_num LAYER_LOCLABEL = 306"
| "sch_num LAYER_GLOBLABEL = 307"
| "sch_num LAYER_HIERLABEL = 308"
| "sch_num LAYER_PINNUM = 309"
| "sch_num LAYER_PINNAM = 310"
| "sch_num LAYER_REFERENCEPART = 311"
| "sch_num LAYER_VALUEPART = 312"
| "sch_num LAYER_FIELDS = 313"
| "sch_num LAYER_INTERSHEET_REFS = 314"
| "sch_num LAYER_NETCLASS_REFS = 315"
| "sch_num LAYER_RULE_AREAS = 316"
| "sch_num LAYER_DEVICE = 317"
| "sch_num LAYER_NOTES = 318"
| "sch_num LAYER_PRIVATE_NOTES = 319"
| "sch_num LAYER_NOTES_BACKGROUND = 320"
| "sch_num LAYER_PIN = 321"
| "sch_num LAYER_SHEET = 322"
| "sch_num LAYER_SHEETNAME = 323"
| "sch_num LAYER_SHEETFILENAME = 324"
| "sch_num LAYER_SHEETFIELDS = 325"
| "sch_num LAYER_SHEETLABEL = 326"
| "sch_num LAYER_NOCONNECT = 327"
| "sch_num LAYER_DANGLING = 328"
| "sch_num LAYER_DNP_MARKER = 329"
| "sch_num LAYER_ERC_WARN = 330"
| "sch_num LAYER_ERC_ERR = 331"
| "sch_num LAYER_ERC_EXCLUSION = 332"
| "sch_num LAYER_EXCLUDED_FROM_SIM = 333"
| "sch_num LAYER_DEVICE_BACKGROUND = 334"
| "sch_num LAYER_SHEET_BACKGROUND = 335"
| "sch_num LAYER_SCHEMATIC_GRID = 336"
| "sch_num LAYER_SCHEMATIC_GRID_AXES = 337"
| "sch_num LAYER_SCHEMATIC_BACKGROUND = 338"
| "sch_num LAYER_SCHEMATIC_CURSOR = 339"
| "sch_num LAYER_HOVERED = 340"
| "sch_num LAYER_BRIGHTENED = 341"
| "sch_num LAYER_HIDDEN = 342"
| "sch_num LAYER_SELECTION_SHADOWS = 343"
| "sch_num LAYER_SCHEMATIC_DRAWINGSHEET = 344"
| "sch_num LAYER_SCHEMATIC_PAGE_LIMITS = 345"
| "sch_num LAYER_BUS_JUNCTION = 346"
| "sch_num LAYER_SCHEMATIC_AUX_ITEMS = 347"
| "sch_num LAYER_SCHEMATIC_ANCHOR = 348"
| "sch_num LAYER_OP_VOLTAGES = 349"
| "sch_num LAYER_OP_CURRENTS = 350"
| "sch_num SCH_LAYER_ID_END = 351"

section \<open>Gerber viewer layers\<close>

text \<open>The first 120 values are the draw layers and the D-code layers.\<close>

datatype (plugins only: code) GERBVIEW_LAYER_ID =
    GERBVIEW_LAYER_ID_START | GERBVIEW_LAYER_ID_RESERVED | LAYER_DCODES
    | LAYER_NEGATIVE_OBJECTS | LAYER_GERBVIEW_GRID | LAYER_GERBVIEW_AXES
    | LAYER_GERBVIEW_BACKGROUND | LAYER_GERBVIEW_DRAWINGSHEET
    | LAYER_GERBVIEW_PAGE_LIMITS | GERBVIEW_LAYER_ID_END

primrec gerbview_num :: "GERBVIEW_LAYER_ID \<Rightarrow> int" where
  "gerbview_num GERBVIEW_LAYER_ID_START = 351"
| "gerbview_num GERBVIEW_LAYER_ID_RESERVED = 471"
| "gerbview_num LAYER_DCODES = 472"
| "gerbview_num LAYER_NEGATIVE_OBJECTS = 473"
| "gerbview_num LAYER_GERBVIEW_GRID = 474"
| "gerbview_num LAYER_GERBVIEW_AXES = 475"
| "gerbview_num LAYER_GERBVIEW_BACKGROUND = 476"
| "gerbview_num LAYER_GERBVIEW_DRAWINGSHEET = 477"
| "gerbview_num LAYER_GERBVIEW_PAGE_LIMITS = 478"
| "gerbview_num GERBVIEW_LAYER_ID_END = 479"

section \<open>3D viewer layers\<close>

text \<open>Colour settings of the 3D viewer.\<close>

datatype (plugins only: code) LAYER_3D_ID =
    LAYER_3D_START | LAYER_3D_BACKGROUND_BOTTOM | LAYER_3D_BACKGROUND_TOP
    | LAYER_3D_BOARD | LAYER_3D_COPPER_TOP | LAYER_3D_COPPER_BOTTOM
    | LAYER_3D_SILKSCREEN_BOTTOM | LAYER_3D_SILKSCREEN_TOP | LAYER_3D_SOLDERMASK_BOTTOM
    | LAYER_3D_SOLDERMASK_TOP | LAYER_3D_SOLDERPASTE | LAYER_3D_ADHESIVE
    | LAYER_3D_USER_COMMENTS | LAYER_3D_USER_DRAWINGS | LAYER_3D_USER_ECO1
    | LAYER_3D_USER_ECO2 | LAYER_3D_TH_MODELS | LAYER_3D_SMD_MODELS
    | LAYER_3D_VIRTUAL_MODELS | LAYER_3D_MODELS_NOT_IN_POS | LAYER_3D_MODELS_MARKED_DNP
    | LAYER_3D_AXES | LAYER_3D_BOUNDING_BOXES | LAYER_3D_OFF_BOARD_SILK | LAYER_3D_END

primrec layer3d_num :: "LAYER_3D_ID \<Rightarrow> int" where
  "layer3d_num LAYER_3D_START = 479"
| "layer3d_num LAYER_3D_BACKGROUND_BOTTOM = 480"
| "layer3d_num LAYER_3D_BACKGROUND_TOP = 481"
| "layer3d_num LAYER_3D_BOARD = 482"
| "layer3d_num LAYER_3D_COPPER_TOP = 483"
| "layer3d_num LAYER_3D_COPPER_BOTTOM = 484"
| "layer3d_num LAYER_3D_SILKSCREEN_BOTTOM = 485"
| "layer3d_num LAYER_3D_SILKSCREEN_TOP = 486"
| "layer3d_num LAYER_3D_SOLDERMASK_BOTTOM = 487"
| "layer3d_num LAYER_3D_SOLDERMASK_TOP = 488"
| "layer3d_num LAYER_3D_SOLDERPASTE = 489"
| "layer3d_num LAYER_3D_ADHESIVE = 490"
| "layer3d_num LAYER_3D_USER_COMMENTS = 491"
| "layer3d_num LAYER_3D_USER_DRAWINGS = 492"
| "layer3d_num LAYER_3D_USER_ECO1 = 493"
| "layer3d_num LAYER_3D_USER_ECO2 = 494"
| "layer3d_num LAYER_3D_TH_MODELS = 495"
| "layer3d_num LAYER_3D_SMD_MODELS = 496"
| "layer3d_num LAYER_3D_VIRTUAL_MODELS = 497"
| "layer3d_num LAYER_3D_MODELS_NOT_IN_POS = 498"
| "layer3d_num LAYER_3D_MODELS_MARKED_DNP = 499"
| "layer3d_num LAYER_3D_AXES = 500"
| "layer3d_num LAYER_3D_BOUNDING_BOXES = 501"
| "layer3d_num LAYER_3D_OFF_BOARD_SILK = 502"
| "layer3d_num LAYER_3D_END = 503"

end
