(* ===== verification/LayerIds.thy ===== *)
theory LayerIds
  imports LayerEnums
begin

text \<open>
  The functions on layer numbers: \<^verbatim>\<open>include/layer_ids.h\<close> (index arithmetic and classification
  predicates) and \<^verbatim>\<open>common/layer_id.cpp\<close> (\<open>LayerName\<close> and \<open>FlipLayer\<close>).

  The lemmas show that the numeric windows of the six enumerations do not overlap, that each
  predicate accepts exactly the range it names, and that \<open>FlipLayer\<close> exchanges the two sides
  of the board and undoes itself on every layer of the stackup.
\<close>

section \<open>Index arithmetic\<close>

definition MAX_CU_LAYERS :: int where
  "MAX_CU_LAYERS = pcb_num B_Cu - pcb_num F_Cu + 1"

definition NETNAMES_LAYER_INDEX :: "int \<Rightarrow> int" where
  "NETNAMES_LAYER_INDEX layer = netnames_num NETNAMES_LAYER_ID_START + layer"

definition GAL_LAYER_INDEX :: "int \<Rightarrow> int" where
  "GAL_LAYER_INDEX x = x - gal_num GAL_LAYER_ID_START"

definition BITMAP_LAYER_FOR :: "int \<Rightarrow> int" where
  "BITMAP_LAYER_FOR boardLayer = gal_num LAYER_BITMAP_START + boardLayer"

definition ZONE_LAYER_FOR :: "int \<Rightarrow> int" where
  "ZONE_LAYER_FOR boardLayer = gal_num LAYER_ZONE_START + boardLayer"

definition GAL_LAYER_ID_COUNT :: int where
  "GAL_LAYER_ID_COUNT = gal_num GAL_LAYER_ID_END - gal_num GAL_LAYER_ID_START"

definition SCH_LAYER_ID_COUNT :: int where
  "SCH_LAYER_ID_COUNT = sch_num SCH_LAYER_ID_END - sch_num SCH_LAYER_ID_START"

definition SCH_LAYER_INDEX :: "int \<Rightarrow> int" where
  "SCH_LAYER_INDEX x = x - sch_num SCH_LAYER_ID_START"

definition GERBER_DRAWLAYERS_COUNT :: int where
  "GERBER_DRAWLAYERS_COUNT = pcb_num PCB_LAYER_ID_COUNT"

definition GERBER_DRAW_LAYER :: "int \<Rightarrow> int" where
  "GERBER_DRAW_LAYER x = gerbview_num GERBVIEW_LAYER_ID_START + x"

definition GERBER_DCODE_LAYER :: "int \<Rightarrow> int" where
  "GERBER_DCODE_LAYER x = GERBER_DRAWLAYERS_COUNT + x"

definition GERBER_DRAW_LAYER_INDEX :: "int \<Rightarrow> int" where
  "GERBER_DRAW_LAYER_INDEX x = x - gerbview_num GERBVIEW_LAYER_ID_START"

text \<open>The shifts are on \<^verbatim>\<open>int\<close>; the largest is by 26.\<close>

definition MIN_VISIBILITY_MASK :: int where
  "MIN_VISIBILITY_MASK =
     2 ^ nat (GAL_LAYER_INDEX (gal_num LAYER_PAD_PLATEDHOLES)) +
     2 ^ nat (GAL_LAYER_INDEX (gal_num LAYER_VIA_HOLES)) +
     2 ^ nat (GAL_LAYER_INDEX (gal_num LAYER_SELECT_OVERLAY)) +
     2 ^ nat (GAL_LAYER_INDEX (gal_num LAYER_GP_OVERLAY)) +
     2 ^ nat (GAL_LAYER_INDEX (gal_num LAYER_RATSNEST))"

text \<open>The casts below only assert (\<^verbatim>\<open>wxASSERT\<close>) that the value is in range.\<close>

definition ToLAYER_ID :: "int \<Rightarrow> int" where
  "ToLAYER_ID aLayer = aLayer"

definition ToGalLayer :: "int \<Rightarrow> int" where
  "ToGalLayer aInteger = aInteger"

section \<open>Classification\<close>

definition IsValidLayer :: "int \<Rightarrow> bool" where
  "IsValidLayer aLayerId \<longleftrightarrow> uint32_of aLayerId < nat (pcb_num PCB_LAYER_ID_COUNT)"

definition IsPcbLayer :: "int \<Rightarrow> bool" where [layer_pred_defs]:
  "IsPcbLayer aLayer \<longleftrightarrow> aLayer \<ge> pcb_num F_Cu \<and> aLayer < pcb_num PCB_LAYER_ID_COUNT"

definition IsCopperLayer :: "int \<Rightarrow> bool" where [layer_pred_defs]:
  "IsCopperLayer aLayerId \<longleftrightarrow> aLayerId \<ge> pcb_num F_Cu \<and> aLayerId \<le> pcb_num B_Cu"

definition IsNonCopperLayer :: "int \<Rightarrow> bool" where [layer_pred_defs]:
  "IsNonCopperLayer aLayerId \<longleftrightarrow>
     aLayerId > pcb_num B_Cu \<and> aLayerId \<le> pcb_num PCB_LAYER_ID_COUNT"

definition IsCopperLayer_synthetic :: "int \<Rightarrow> bool \<Rightarrow> bool" where [layer_pred_defs]:
  "IsCopperLayer_synthetic aLayerId aIncludeSyntheticCopperLayers =
     (if aIncludeSyntheticCopperLayers then \<not> IsNonCopperLayer aLayerId
      else IsCopperLayer aLayerId)"

definition IsViaPadLayer :: "int \<Rightarrow> bool" where [layer_pred_defs]:
  "IsViaPadLayer aLayer \<longleftrightarrow>
     aLayer = gal_num LAYER_VIA_THROUGH \<or> aLayer = gal_num LAYER_VIA_MICROVIA \<or>
     aLayer = gal_num LAYER_VIA_BBLIND"

definition IsHoleLayer :: "int \<Rightarrow> bool" where [layer_pred_defs]:
  "IsHoleLayer aLayer \<longleftrightarrow>
     aLayer = gal_num LAYER_VIA_HOLES \<or> aLayer = gal_num LAYER_VIA_HOLEWALLS \<or>
     aLayer = gal_num LAYER_PAD_PLATEDHOLES \<or> aLayer = gal_num LAYER_PAD_HOLEWALLS \<or>
     aLayer = gal_num LAYER_NON_PLATEDHOLES"

definition IsUserLayer :: "int \<Rightarrow> bool" where [layer_pred_defs]:
  "IsUserLayer aLayerId \<longleftrightarrow> aLayerId \<ge> pcb_num Dwgs_User \<and> aLayerId \<le> pcb_num Eco2_User"

definition IsFrontLayer :: "int \<Rightarrow> bool" where [layer_pred_defs]:
  "IsFrontLayer aLayerId \<longleftrightarrow>
     aLayerId \<in> pcb_num ` {F_Cu, F_Adhes, F_Paste, F_SilkS, F_Mask, F_CrtYd, F_Fab}"

definition IsBackLayer :: "int \<Rightarrow> bool" where [layer_pred_defs]:
  "IsBackLayer aLayerId \<longleftrightarrow>
     aLayerId \<in> pcb_num ` {B_Cu, B_Adhes, B_Paste, B_SilkS, B_Mask, B_CrtYd, B_Fab}"

definition GetNetnameLayer :: "int \<Rightarrow> int" where
  "GetNetnameLayer aLayer =
     (if IsCopperLayer aLayer then NETNAMES_LAYER_INDEX aLayer
      else if aLayer = gal_num LAYER_PADS_TH then netnames_num LAYER_PAD_NETNAMES
      else if aLayer = gal_num LAYER_PADS_SMD_FR then netnames_num LAYER_PAD_FR_NETNAMES
      else if aLayer = gal_num LAYER_PADS_SMD_BK then netnames_num LAYER_PAD_BK_NETNAMES
      else if IsViaPadLayer aLayer then netnames_num LAYER_VIA_NETNAMES
      else pcb_num Cmts_User)"

definition IsNetnameLayer :: "int \<Rightarrow> bool" where [layer_pred_defs]:
  "IsNetnameLayer aLayer \<longleftrightarrow>
     aLayer \<ge> NETNAMES_LAYER_INDEX (pcb_num F_Cu) \<and> aLayer < netnames_num NETNAMES_LAYER_ID_END"

definition IsZoneFillLayer :: "int \<Rightarrow> bool" where [layer_pred_defs]:
  "IsZoneFillLayer aLayer \<longleftrightarrow>
     aLayer \<ge> gal_num LAYER_ZONE_START \<and> aLayer \<le> gal_num LAYER_ZONE_END"

definition IsDCodeLayer :: "int \<Rightarrow> bool" where [layer_pred_defs]:
  "IsDCodeLayer aLayer \<longleftrightarrow>
     aLayer \<ge> gerbview_num GERBVIEW_LAYER_ID_START + GERBER_DRAWLAYERS_COUNT \<and>
     aLayer < gerbview_num GERBVIEW_LAYER_ID_START + 2 * GERBER_DRAWLAYERS_COUNT"

definition IsNetCopperLayer :: "int \<Rightarrow> bool" where [layer_pred_defs]:
  "IsNetCopperLayer aLayer \<longleftrightarrow>
     IsCopperLayer aLayer \<or>
     aLayer \<in> gal_num ` {LAYER_PADS_SMD_FR, LAYER_PADS_SMD_BK, LAYER_PADS_TH,
       LAYER_PAD_HOLEWALLS, LAYER_VIA_THROUGH, LAYER_VIA_BBLIND, LAYER_VIA_MICROVIA,
       LAYER_VIA_HOLEWALLS}"

section \<open>Names\<close>

text \<open>
  The switch of \<open>LayerName\<close>, one list for each enumeration whose labels it has. \<open>tr\<close> stands
  for the message catalogue behind \<^verbatim>\<open>_( ... )\<close>; a name in \<^verbatim>\<open>wxT( ... )\<close> is not translated.
\<close>

definition LayerName_pcb :: "(string \<Rightarrow> string) \<Rightarrow> (PCB_LAYER_ID \<times> string) list" where
  "LayerName_pcb tr = [
    (UNDEFINED_LAYER, tr ''undefined''), (F_Cu, ''F.Cu''), (In1_Cu, ''In1.Cu''),
     (In2_Cu, ''In2.Cu''), (In3_Cu, ''In3.Cu''), (In4_Cu, ''In4.Cu''), (In5_Cu, ''In5.Cu''),
     (In6_Cu, ''In6.Cu''), (In7_Cu, ''In7.Cu''), (In8_Cu, ''In8.Cu''), (In9_Cu, ''In9.Cu''),
     (In10_Cu, ''In10.Cu''), (In11_Cu, ''In11.Cu''), (In12_Cu, ''In12.Cu''),
     (In13_Cu, ''In13.Cu''), (In14_Cu, ''In14.Cu''), (In15_Cu, ''In15.Cu''),
     (In16_Cu, ''In16.Cu''), (In17_Cu, ''In17.Cu''), (In18_Cu, ''In18.Cu''),
     (In19_Cu, ''In19.Cu''), (In20_Cu, ''In20.Cu''), (In21_Cu, ''In21.Cu''),
     (In22_Cu, ''In22.Cu''), (In23_Cu, ''In23.Cu''), (In24_Cu, ''In24.Cu''),
     (In25_Cu, ''In25.Cu''), (In26_Cu, ''In26.Cu''), (In27_Cu, ''In27.Cu''),
     (In28_Cu, ''In28.Cu''), (In29_Cu, ''In29.Cu''), (In30_Cu, ''In30.Cu''), (B_Cu, ''B.Cu''),
     (B_Adhes, ''B.Adhesive''), (F_Adhes, ''F.Adhesive''), (B_Paste, ''B.Paste''),
     (F_Paste, ''F.Paste''), (B_SilkS, ''B.Silkscreen''), (F_SilkS, ''F.Silkscreen''),
     (B_Mask, ''B.Mask''), (F_Mask, ''F.Mask''), (Dwgs_User, ''User.Drawings''),
     (Cmts_User, ''User.Comments''), (Eco1_User, ''User.Eco1''), (Eco2_User, ''User.Eco2''),
     (Edge_Cuts, ''Edge.Cuts''), (Margin, ''Margin''), (F_CrtYd, ''F.Courtyard''),
     (B_CrtYd, ''B.Courtyard''), (F_Fab, ''F.Fab''), (B_Fab, ''B.Fab''), (User_1, ''User.1''),
     (User_2, ''User.2''), (User_3, ''User.3''), (User_4, ''User.4''), (User_5, ''User.5''),
     (User_6, ''User.6''), (User_7, ''User.7''), (User_8, ''User.8''), (User_9, ''User.9''),
     (Rescue, tr ''Rescue'')]"

definition LayerName_sch :: "(string \<Rightarrow> string) \<Rightarrow> (SCH_LAYER_ID \<times> string) list" where
  "LayerName_sch tr = [
    (LAYER_WIRE, tr ''Wires''), (LAYER_BUS, tr ''Buses''),
     (LAYER_BUS_JUNCTION, tr ''Bus junctions''), (LAYER_JUNCTION, tr ''Junctions''),
     (LAYER_LOCLABEL, tr ''Labels''), (LAYER_GLOBLABEL, tr ''Global labels''),
     (LAYER_HIERLABEL, tr ''Hierarchical labels''), (LAYER_PINNUM, tr ''Pin numbers''),
     (LAYER_PINNAM, tr ''Pin names''), (LAYER_REFERENCEPART, tr ''Symbol references''),
     (LAYER_VALUEPART, tr ''Symbol values''), (LAYER_FIELDS, tr ''Symbol fields''),
     (LAYER_INTERSHEET_REFS, tr ''Sheet references''),
     (LAYER_NETCLASS_REFS, tr ''Net class references''), (LAYER_RULE_AREAS, tr ''Rule areas''),
     (LAYER_DEVICE, tr ''Symbol body outlines''),
     (LAYER_DEVICE_BACKGROUND, tr ''Symbol body fills''),
     (LAYER_NOTES, tr ''Schematic text && graphics''),
     (LAYER_PRIVATE_NOTES, tr ''Symbol private text && graphics''),
     (LAYER_NOTES_BACKGROUND, tr ''Schematic text && graphics backgrounds''),
     (LAYER_PIN, tr ''Pins''), (LAYER_SHEET, tr ''Sheet borders''),
     (LAYER_SHEET_BACKGROUND, tr ''Sheet backgrounds''), (LAYER_SHEETNAME, tr ''Sheet names''),
     (LAYER_SHEETFIELDS, tr ''Sheet fields''), (LAYER_SHEETFILENAME, tr ''Sheet file names''),
     (LAYER_SHEETLABEL, tr ''Sheet pins''), (LAYER_NOCONNECT, tr ''No-connect symbols''),
     (LAYER_DNP_MARKER, tr ''DNP markers''),
     (LAYER_EXCLUDED_FROM_SIM, tr ''Excluded-from-simulation markers''),
     (LAYER_ERC_WARN, tr ''ERC warnings''), (LAYER_ERC_ERR, tr ''ERC errors''),
     (LAYER_ERC_EXCLUSION, tr ''ERC exclusions''), (LAYER_SCHEMATIC_ANCHOR, tr ''Anchors''),
     (LAYER_SCHEMATIC_AUX_ITEMS, tr ''Helper items''), (LAYER_SCHEMATIC_GRID, tr ''Grid''),
     (LAYER_SCHEMATIC_GRID_AXES, tr ''Axes''), (LAYER_SCHEMATIC_BACKGROUND, tr ''Background''),
     (LAYER_SCHEMATIC_CURSOR, tr ''Cursor''), (LAYER_HOVERED, tr ''Hovered items''),
     (LAYER_BRIGHTENED, tr ''Highlighted items''), (LAYER_HIDDEN, tr ''Hidden items''),
     (LAYER_SELECTION_SHADOWS, tr ''Selection highlight''),
     (LAYER_SCHEMATIC_DRAWINGSHEET, tr ''Drawing sheet''),
     (LAYER_SCHEMATIC_PAGE_LIMITS, tr ''Page limits''),
     (LAYER_OP_VOLTAGES, tr ''Operating point voltages''),
     (LAYER_OP_CURRENTS, tr ''Operating point currents'')]"

definition LayerName_gal :: "(string \<Rightarrow> string) \<Rightarrow> (GAL_LAYER_ID \<times> string) list" where
  "LayerName_gal tr = [
    (LAYER_FOOTPRINTS_FR, tr ''Footprints front''),
     (LAYER_FOOTPRINTS_BK, tr ''Footprints back''), (LAYER_FP_VALUES, tr ''Values''),
     (LAYER_FP_REFERENCES, tr ''Reference designators''),
     (LAYER_FP_TEXT, tr ''Footprint text''), (LAYER_HIDDEN_TEXT, tr ''Hidden text''),
     (LAYER_PADS_SMD_FR, tr ''SMD pads front''), (LAYER_PADS_SMD_BK, tr ''SMD pads back''),
     (LAYER_PADS_TH, tr ''Through-hole pads''), (LAYER_TRACKS, tr ''Tracks''),
     (LAYER_VIA_THROUGH, tr ''Through vias''), (LAYER_VIA_BBLIND, tr ''Blind/Buried vias''),
     (LAYER_VIA_MICROVIA, tr ''Micro-vias''), (LAYER_VIA_HOLES, tr ''Via holes''),
     (LAYER_VIA_HOLEWALLS, tr ''Via hole walls''),
     (LAYER_PAD_PLATEDHOLES, tr ''Plated holes''),
     (LAYER_PAD_HOLEWALLS, tr ''Plated hole walls''),
     (LAYER_NON_PLATEDHOLES, tr ''Non-plated holes''), (LAYER_RATSNEST, tr ''Ratsnest''),
     (LAYER_DRC_WARNING, tr ''DRC warnings''), (LAYER_DRC_ERROR, tr ''DRC errors''),
     (LAYER_DRC_EXCLUSION, tr ''DRC exclusions''),
     (LAYER_MARKER_SHADOWS, tr ''DRC marker shadows''), (LAYER_ANCHOR, tr ''Anchors''),
     (LAYER_DRAWINGSHEET, tr ''Drawing sheet''), (LAYER_PAGE_LIMITS, tr ''Page limits''),
     (LAYER_CURSOR, tr ''Cursor''), (LAYER_AUX_ITEMS, tr ''Helper items''),
     (LAYER_GRID, tr ''Grid''), (LAYER_GRID_AXES, tr ''Grid axes''),
     (LAYER_PCB_BACKGROUND, tr ''Background''),
     (LAYER_SELECT_OVERLAY, tr ''Selection highlight''),
     (LAYER_LOCKED_ITEM_SHADOW, tr ''Locked item shadow''),
     (LAYER_CONFLICTS_SHADOW, tr ''Courtyard collision shadow'')]"

definition LayerName :: "(string \<Rightarrow> string) \<Rightarrow> int \<Rightarrow> string" where
  "LayerName tr aLayer =
     (case map_of (map (\<lambda>(l, s). (pcb_num l, s)) (LayerName_pcb tr)
                   @ map (\<lambda>(l, s). (sch_num l, s)) (LayerName_sch tr)
                   @ map (\<lambda>(l, s). (gal_num l, s)) (LayerName_gal tr)) aLayer of
        Some s \<Rightarrow> s
      | None \<Rightarrow> [])"

section \<open>Flipping a layer\<close>

definition FlipLayer_inner :: "int \<Rightarrow> int \<Rightarrow> int" where
  "FlipLayer_inner aLayerId aCopperLayersCount =
     (if IsCopperLayer aLayerId \<and> aCopperLayersCount \<ge> 4
      then let fliplayer = aCopperLayersCount - 2 - (aLayerId - pcb_num In1_Cu);
               fliplayer = (if fliplayer < pcb_num F_Cu then pcb_num F_Cu else fliplayer);
               fliplayer = (if fliplayer > pcb_num B_Cu then pcb_num B_Cu else fliplayer)
           in fliplayer
      else aLayerId)"

definition FlipLayer_pairs :: "(PCB_LAYER_ID \<times> PCB_LAYER_ID) list" where
  "FlipLayer_pairs = [
     (B_Cu, F_Cu), (F_Cu, B_Cu), (B_SilkS, F_SilkS), (F_SilkS, B_SilkS),
     (B_Adhes, F_Adhes), (F_Adhes, B_Adhes), (B_Mask, F_Mask), (F_Mask, B_Mask),
     (B_Paste, F_Paste), (F_Paste, B_Paste), (B_CrtYd, F_CrtYd), (F_CrtYd, B_CrtYd),
     (B_Fab, F_Fab), (F_Fab, B_Fab)]"

definition FlipLayer :: "int \<Rightarrow> int \<Rightarrow> int" where
  "FlipLayer aLayerId aCopperLayersCount =
     (case map_of (map (\<lambda>(l, k). (pcb_num l, pcb_num k)) FlipLayer_pairs) aLayerId of
        Some l \<Rightarrow> l
      | None \<Rightarrow> FlipLayer_inner aLayerId aCopperLayersCount)"

section \<open>Lemmas\<close>

lemma IsValidLayer_iff: "is_int32 l \<Longrightarrow> IsValidLayer l \<longleftrightarrow> IsPcbLayer l"
  using uint32_of_less_iff [of l 60] by (simp add: IsValidLayer_def IsPcbLayer_def)

text \<open>The layers that \<open>FlipLayer\<close> pairs, as numbers.\<close>

lemma FlipLayer_alt:
  "FlipLayer l n =
    (if l = 31 then 0 else if l = 0 then 31
     else if l = 36 then 37 else if l = 37 then 36
     else if l = 32 then 33 else if l = 33 then 32
     else if l = 38 then 39 else if l = 39 then 38
     else if l = 34 then 35 else if l = 35 then 34
     else if l = 46 then 47 else if l = 47 then 46
     else if l = 48 then 49 else if l = 49 then 48
     else if 0 \<le> l \<and> l \<le> 31 \<and> n \<ge> 4 then max 0 (min 31 (n - 1 - l))
     else l)"
  by (simp add: FlipLayer_def FlipLayer_pairs_def FlipLayer_inner_def IsCopperLayer_def)

text \<open>A layer of a board with \<open>n\<close> copper layers: not an inner copper layer past the last one.\<close>

definition in_stackup :: "int \<Rightarrow> int \<Rightarrow> bool" where
  "in_stackup l n \<longleftrightarrow> \<not> (pcb_num F_Cu < l \<and> l < pcb_num B_Cu) \<or> l \<le> n - 2"

lemma FlipLayer_in_stackup: "in_stackup l n \<Longrightarrow> n \<le> 32 \<Longrightarrow> in_stackup (FlipLayer l n) n"
  by (auto simp: in_stackup_def FlipLayer_alt)

lemma FlipLayer_IsPcbLayer: "IsPcbLayer l \<Longrightarrow> IsPcbLayer (FlipLayer l n)"
  by (auto simp: IsPcbLayer_def FlipLayer_alt)

text \<open>
  C21. \<open>FlipLayer\<close> undoes itself: on a board with at most 32 copper layers, flipping twice gives
  back every layer of the stackup, technical layers and unpaired layers included; one flip
  exchanges the front layers and the back layers.
\<close>

theorem FlipLayer_involutive:
  assumes "in_stackup l n" and "n \<le> 32"
  shows "FlipLayer (FlipLayer l n) n = l \<and> (IsFrontLayer (FlipLayer l n) \<longleftrightarrow> IsBackLayer l)"
proof -
  have "FlipLayer (FlipLayer l n) n = l"
    using assms by (auto simp: in_stackup_def FlipLayer_alt split: if_splits)
  moreover have "IsFrontLayer (FlipLayer l n) \<longleftrightarrow> IsBackLayer l"
    using assms
    by (auto simp: in_stackup_def FlipLayer_alt IsFrontLayer_def IsBackLayer_def split: if_splits)
  ultimately show ?thesis by simp
qed

theorem FlipLayer_involutive_witness:
  "FlipLayer (pcb_num In2_Cu) 6 = pcb_num In3_Cu \<and>
   FlipLayer (FlipLayer (pcb_num In2_Cu) 6) 6 = pcb_num In2_Cu \<and>
   (IsFrontLayer (FlipLayer (pcb_num In2_Cu) 6) \<longleftrightarrow> IsBackLayer (pcb_num In2_Cu))"
  by (rule conjI, simp add: FlipLayer_alt, rule FlipLayer_involutive)
     (simp_all add: in_stackup_def)

text \<open>
  The stackup condition is needed: an inner copper layer past the last one of a board with
  four or more copper layers is flipped to the front copper layer, so two different layers
  have the same image and flipping again does not restore it.
\<close>

theorem FlipLayer_outside_stackup:
  assumes "\<not> in_stackup l n" and "n \<ge> 4"
  shows "FlipLayer l n = pcb_num F_Cu \<and> FlipLayer (FlipLayer l n) n = pcb_num B_Cu"
  using assms by (auto simp: in_stackup_def FlipLayer_alt)

theorem FlipLayer_outside_stackup_witness:
  "FlipLayer (pcb_num In5_Cu) 4 = pcb_num F_Cu \<and>
   FlipLayer (FlipLayer (pcb_num In5_Cu) 4) 4 = pcb_num B_Cu"
  by (rule FlipLayer_outside_stackup) (simp_all add: in_stackup_def)

text \<open>
  Net name layers: exactly the copper layers, the three pad layers and the three via layers
  have one (all other layers fall back to the comment layer), and no two copper layers share it.
\<close>

theorem GetNetnameLayer_spec:
  "(IsNetnameLayer (GetNetnameLayer l) \<longleftrightarrow>
      IsCopperLayer l \<or> IsViaPadLayer l \<or>
      l \<in> gal_num ` {LAYER_PADS_TH, LAYER_PADS_SMD_FR, LAYER_PADS_SMD_BK}) \<and>
   inj_on GetNetnameLayer {l. IsCopperLayer l}"
  by (auto simp: GetNetnameLayer_def NETNAMES_LAYER_INDEX_def layer_pred_defs inj_on_def)

text \<open>
  On the board layers the copper test and the non-copper test are complementary, but the
  non-copper test also accepts one number that is no board layer: 60, the layer count, which
  is the net name layer of \<open>F_Cu\<close>.
\<close>

theorem IsNonCopperLayer_boundary:
  "(IsPcbLayer l \<longrightarrow> IsCopperLayer l \<noteq> IsNonCopperLayer l) \<and>
   (IsNonCopperLayer l \<and> \<not> IsPcbLayer l \<longleftrightarrow> l = GetNetnameLayer (pcb_num F_Cu))"
  by (auto simp: GetNetnameLayer_def NETNAMES_LAYER_INDEX_def layer_pred_defs)

theorem IsNonCopperLayer_boundary_witness:
  "IsCopperLayer (pcb_num Edge_Cuts) \<noteq> IsNonCopperLayer (pcb_num Edge_Cuts) \<and>
   IsNonCopperLayer (GetNetnameLayer (pcb_num F_Cu))"
proof -
  have "IsPcbLayer (pcb_num Edge_Cuts)" by (simp add: IsPcbLayer_def)
  then show ?thesis
    using IsNonCopperLayer_boundary [of "pcb_num Edge_Cuts"]
      IsNonCopperLayer_boundary [of "GetNetnameLayer (pcb_num F_Cu)"]
    by blast
qed

end
