(* ===== verification/BaseSet.thy ===== *)
theory BaseSet
  imports Prelude
begin

text \<open>
  \<^verbatim>\<open>include/base_set.h\<close>: \<open>BASE_SET\<close>, a growing bit set kept as a \<^verbatim>\<open>std::vector<int>\<close> of zeros and
  ones, with its two iterators over the set bits, and \<^verbatim>\<open>alg::lexicographical_compare_3way\<close> of
  \<^verbatim>\<open>libs/core/include/core/kicad_algo.h\<close>, which orders two sets.

  A position is a \<^verbatim>\<open>size_t\<close>, here a \<^typ>\<open>nat\<close> below \<open>2^64\<close>; the largest one is the sentinel that
  addresses all bits. \<open>bits_of\<close> abstracts a set to the positions that test true, and
  \<open>wf_bits\<close> says that every element is 0 or 1. The lemmas show that the operations keep
  \<open>wf_bits\<close> and act on \<open>bits_of\<close> as the set operations they are named after.
\<close>

unbundle bit_operations_syntax

section \<open>State and single-bit operations\<close>

type_synonym base_set = "int list"

definition BASE_SET :: "nat \<Rightarrow> base_set" where
  "BASE_SET aSize = replicate aSize 0"

definition BASE_SET_test :: "base_set \<Rightarrow> nat \<Rightarrow> bool" where
  "BASE_SET_test m_bits pos = (if pos \<ge> length m_bits then False else m_bits ! pos = 1)"

definition BASE_SET_any :: "base_set \<Rightarrow> bool" where
  "BASE_SET_any m_bits \<longleftrightarrow> list_ex (\<lambda>bit. bit = 1) m_bits"

definition BASE_SET_all :: "base_set \<Rightarrow> bool" where
  "BASE_SET_all m_bits \<longleftrightarrow> list_all (\<lambda>bit. bit = 1) m_bits"

definition BASE_SET_none :: "base_set \<Rightarrow> bool" where
  "BASE_SET_none m_bits \<longleftrightarrow> \<not> list_ex (\<lambda>bit. bit = 1) m_bits"

text \<open>
  \<^verbatim>\<open>std::vector<int>::resize\<close> with fill value 0: \<open>None\<close> is the \<^verbatim>\<open>std::length_error\<close> thrown beyond
  \<^verbatim>\<open>max_size()\<close>, which is \<open>2^63 - 1\<close> bytes over 4 bytes per element.
\<close>

definition VECTOR_INT_MAX_SIZE :: nat where
  "VECTOR_INT_MAX_SIZE = 2 ^ 61 - 1"

definition BASE_SET_resize :: "base_set \<Rightarrow> nat \<Rightarrow> base_set option" where
  "BASE_SET_resize m_bits newSize =
     (if newSize > VECTOR_INT_MAX_SIZE then None
      else Some (take newSize m_bits @ replicate (newSize - length m_bits) 0))"

definition BASE_SET_grow :: "base_set \<Rightarrow> nat \<Rightarrow> base_set option" where
  "BASE_SET_grow m_bits pos =
     (if pos \<ge> length m_bits then BASE_SET_resize m_bits (pos + 1) else Some m_bits)"

definition BASE_SET_set :: "base_set \<Rightarrow> nat \<Rightarrow> bool \<Rightarrow> base_set option" where
  "BASE_SET_set m_bits pos value =
     (if pos = SIZE_T_MAX then Some (map (\<lambda>_. if value then 1 else 0) m_bits)
      else do {
        m_bits \<leftarrow> BASE_SET_grow m_bits pos;
        Some (m_bits[pos := (if value then 1 else 0)])
      })"

definition BASE_SET_reset :: "base_set \<Rightarrow> nat \<Rightarrow> base_set option" where
  "BASE_SET_reset m_bits pos =
     (if pos = SIZE_T_MAX then Some (map (\<lambda>_. 0) m_bits)
      else do {
        m_bits \<leftarrow> BASE_SET_grow m_bits pos;
        Some (m_bits[pos := 0])
      })"

definition BASE_SET_flip :: "base_set \<Rightarrow> nat \<Rightarrow> base_set option" where
  "BASE_SET_flip m_bits pos =
     (if pos = SIZE_T_MAX then Some (map (\<lambda>bit. bit XOR 1) m_bits)
      else do {
        m_bits \<leftarrow> BASE_SET_grow m_bits pos;
        Some (m_bits[pos := (m_bits ! pos) XOR 1])
      })"

definition BASE_SET_count :: "base_set \<Rightarrow> nat" where
  "BASE_SET_count m_bits = length (filter (\<lambda>bit. bit = 1) m_bits)"

text \<open>\<^verbatim>\<open>operator[]\<close> does not check its position: \<open>None\<close> is a read out of bounds.\<close>

definition BASE_SET_at :: "base_set \<Rightarrow> nat \<Rightarrow> int option" where
  "BASE_SET_at m_bits pos = (if pos < length m_bits then Some (m_bits ! pos) else None)"

section \<open>Comparison, printing and hashing\<close>

fun lexicographical_compare_3way :: "int list \<Rightarrow> int list \<Rightarrow> int" where
  "lexicographical_compare_3way (x # xs) (y # ys) =
     (if x < y then - 1 else if x > y then 1 else lexicographical_compare_3way xs ys)"
| "lexicographical_compare_3way xs [] = (if xs = [] then 0 else 1)"
| "lexicographical_compare_3way [] (y # ys) = - 1"

definition BASE_SET_compare :: "base_set \<Rightarrow> base_set \<Rightarrow> int" where
  "BASE_SET_compare m_bits other = lexicographical_compare_3way m_bits other"

definition BASE_SET_eq :: "base_set \<Rightarrow> base_set \<Rightarrow> bool" where
  "BASE_SET_eq m_bits other =
     (let minSize = min (length m_bits) (length other) in
      if take minSize m_bits \<noteq> take minSize other then False
      else if list_ex (\<lambda>bit. bit \<noteq> 0) (drop minSize m_bits) then False
      else if list_ex (\<lambda>bit. bit \<noteq> 0) (drop minSize other) then False
      else True)"

text \<open>\<^verbatim>\<open>operator<\<close> is \<^verbatim>\<open>std::lexicographical_compare\<close>.\<close>

fun BASE_SET_less :: "base_set \<Rightarrow> base_set \<Rightarrow> bool" where
  "BASE_SET_less xs [] = False"
| "BASE_SET_less [] (y # ys) = True"
| "BASE_SET_less (x # xs) (y # ys) =
     (if x < y then True else if y < x then False else BASE_SET_less xs ys)"

definition BASE_SET_to_string :: "base_set \<Rightarrow> char \<Rightarrow> char \<Rightarrow> string" where
  "BASE_SET_to_string m_bits zero one =
     fold (\<lambda>i result. if BASE_SET_test m_bits i then result[length m_bits - 1 - i := one] else result)
       [0..<length m_bits] (replicate (length m_bits) zero)"

text \<open>\<open>hash_int\<close> stands for \<^verbatim>\<open>std::hash<int>\<close>, which each standard library chooses.\<close>

definition BASE_SET_hash :: "(int \<Rightarrow> 64 word) \<Rightarrow> base_set \<Rightarrow> 64 word" where
  "BASE_SET_hash hash_int bs = fold (\<lambda>bit hashVal. hashVal * 31 + hash_int bit) bs 0"

section \<open>Boolean operators\<close>

text \<open>The assignment operators assert equal sizes: \<open>None\<close> is the failed assertion.\<close>

definition BASE_SET_and :: "base_set \<Rightarrow> base_set \<Rightarrow> base_set option" where
  "BASE_SET_and m_bits rhs =
     (if length m_bits = length rhs then Some (map2 (\<lambda>x y. x AND y) m_bits rhs) else None)"

definition BASE_SET_or :: "base_set \<Rightarrow> base_set \<Rightarrow> base_set option" where
  "BASE_SET_or m_bits rhs =
     (if length m_bits = length rhs then Some (map2 (\<lambda>x y. x OR y) m_bits rhs) else None)"

definition BASE_SET_xor :: "base_set \<Rightarrow> base_set \<Rightarrow> base_set option" where
  "BASE_SET_xor m_bits rhs =
     (if length m_bits = length rhs then Some (map2 (\<lambda>x y. x XOR y) m_bits rhs) else None)"

definition BASE_SET_not :: "base_set \<Rightarrow> base_set" where
  "BASE_SET_not m_bits = map (\<lambda>bit. if bit = 0 then 1 else 0) m_bits"

section \<open>Iterators over the set bits\<close>

text \<open>
  An iterator is its index; the set it walks over is an argument. The forward one runs to
  \<open>size()\<close>, the reverse one, on a signed index, to -1.
\<close>

function set_bits_advance :: "base_set \<Rightarrow> nat \<Rightarrow> nat" where
  "set_bits_advance m_baseSet m_index =
     (if m_index < length m_baseSet \<and> \<not> BASE_SET_test m_baseSet m_index
      then set_bits_advance m_baseSet (m_index + 1) else m_index)"
  by pat_completeness auto
termination
  by (relation "measure (\<lambda>(s, i). length s - i)") auto

declare set_bits_advance.simps [simp del]

definition set_bits_begin :: "base_set \<Rightarrow> nat" where
  "set_bits_begin s = set_bits_advance s 0"

definition set_bits_end :: "base_set \<Rightarrow> nat" where
  "set_bits_end s = set_bits_advance s (length s)"

definition set_bits_next :: "base_set \<Rightarrow> nat \<Rightarrow> nat" where
  "set_bits_next s m_index = set_bits_advance s (m_index + 1)"

function set_bits_retreat :: "base_set \<Rightarrow> int \<Rightarrow> int" where
  "set_bits_retreat m_baseSet m_index =
     (if m_index \<ge> 0 \<and> \<not> BASE_SET_test m_baseSet (nat m_index)
      then set_bits_retreat m_baseSet (m_index - 1) else m_index)"
  by pat_completeness auto
termination
  by (relation "measure (\<lambda>(s, i). nat (i + 1))") auto

declare set_bits_retreat.simps [simp del]

definition set_bits_rbegin :: "base_set \<Rightarrow> int" where
  "set_bits_rbegin s = set_bits_retreat s (int (length s) - 1)"

definition set_bits_rend :: "base_set \<Rightarrow> int" where
  "set_bits_rend s = set_bits_retreat s (- 1)"

definition set_bits_rnext :: "base_set \<Rightarrow> int \<Rightarrow> int" where
  "set_bits_rnext s m_index = set_bits_retreat s (m_index - 1)"

text \<open>
  The loops \<^verbatim>\<open>for( it = begin; it != end; ++it )\<close> over the two iterators, with the values they
  visit. The fuel is the number of positions plus one; \<open>None\<close> is a loop still running then.
\<close>

fun set_bits_loop :: "nat \<Rightarrow> base_set \<Rightarrow> nat \<Rightarrow> nat list option" where
  "set_bits_loop 0 s it = None"
| "set_bits_loop (Suc fuel) s it =
     (if it \<noteq> set_bits_end s then map_option ((#) it) (set_bits_loop fuel s (set_bits_next s it))
      else Some [])"

fun set_bits_rloop :: "nat \<Rightarrow> base_set \<Rightarrow> int \<Rightarrow> int list option" where
  "set_bits_rloop 0 s it = None"
| "set_bits_rloop (Suc fuel) s it =
     (if it \<noteq> set_bits_rend s then map_option ((#) it) (set_bits_rloop fuel s (set_bits_rnext s it))
      else Some [])"

section \<open>Abstraction to a set of positions\<close>

definition bits_of :: "base_set \<Rightarrow> nat set" where
  "bits_of s = {i. BASE_SET_test s i}"

definition wf_bits :: "base_set \<Rightarrow> bool" where
  "wf_bits s \<longleftrightarrow> set s \<subseteq> {0, 1}"

lemma bits_of_alt: "bits_of s = {i. i < length s \<and> s ! i = 1}"
  by (auto simp: bits_of_def BASE_SET_test_def split: if_splits)

lemma mem_bits_of [simp]: "i \<in> bits_of s \<longleftrightarrow> i < length s \<and> s ! i = 1"
  by (simp add: bits_of_alt)

lemma BASE_SET_test_iff: "BASE_SET_test s i \<longleftrightarrow> i \<in> bits_of s"
  by (simp add: bits_of_def)

lemma bits_of_bound: "bits_of s \<subseteq> {..<length s}"
  by auto

lemma finite_bits_of [simp]: "finite (bits_of s)"
  by (rule finite_subset [OF bits_of_bound]) simp

lemma wf_bits_nth: "wf_bits s \<Longrightarrow> i < length s \<Longrightarrow> s ! i = 0 \<or> s ! i = 1"
  unfolding wf_bits_def by (meson insertE nth_mem singletonD subsetD)

lemma wf_bits_nth_mem: "wf_bits s \<Longrightarrow> i < length s \<Longrightarrow> s ! i = (if i \<in> bits_of s then 1 else 0)"
  using wf_bits_nth by fastforce

text \<open>A well-formed set of a given size is determined by its members.\<close>

lemma wf_bits_ext:
  "wf_bits s \<Longrightarrow> wf_bits t \<Longrightarrow> length s = length t \<Longrightarrow> bits_of s = bits_of t \<Longrightarrow> s = t"
  by (rule nth_equalityI) (simp_all add: wf_bits_nth_mem)

lemma wf_bits_mapI [wf_intros]: "(\<And>x. x \<in> set s \<Longrightarrow> f x \<in> {0, 1}) \<Longrightarrow> wf_bits (map f s)"
  by (auto simp: wf_bits_def)

lemma wf_bits_update [wf_intros]: "wf_bits s \<Longrightarrow> x \<in> {0, 1} \<Longrightarrow> wf_bits (s[i := x])"
  unfolding wf_bits_def by (meson insert_subset order_trans set_update_subset_insert)

lemma wf_bits_append [simp]: "wf_bits (s @ t) \<longleftrightarrow> wf_bits s \<and> wf_bits t"
  by (auto simp: wf_bits_def)

lemma wf_bits_replicate [simp]: "wf_bits (replicate n 0)" "wf_bits (replicate n 1)"
  by (auto simp: wf_bits_def)

lemma wf_bits_take [wf_intros]: "wf_bits s \<Longrightarrow> wf_bits (take n s)"
  by (auto simp: wf_bits_def dest: in_set_takeD)

lemma wf_bits_BASE_SET [wf_intros, simp]: "wf_bits (BASE_SET n)"
  by (simp add: BASE_SET_def)

lemma bits_of_BASE_SET [bits_simps, simp]: "bits_of (BASE_SET n) = {}"
  by (auto simp: BASE_SET_def)

lemma length_BASE_SET [simp]: "length (BASE_SET n) = n"
  by (simp add: BASE_SET_def)

subsection \<open>Growing\<close>

lemma BASE_SET_grow_Some:
  assumes "BASE_SET_grow s pos = Some t"
  shows "bits_of t = bits_of s" "length t = max (length s) (Suc pos)" "wf_bits s \<Longrightarrow> wf_bits t"
proof -
  have t: "t = s @ replicate (Suc pos - length s) 0"
    using assms by (auto simp: BASE_SET_grow_def BASE_SET_resize_def split: if_splits)
  show "bits_of t = bits_of s" by (auto simp: t nth_append split: if_splits)
  show "length t = max (length s) (Suc pos)" by (simp add: t max_def)
  show "wf_bits s \<Longrightarrow> wf_bits t" by (simp add: t)
qed

lemma BASE_SET_grow_in [simp]: "pos < length s \<Longrightarrow> BASE_SET_grow s pos = Some s"
  by (simp add: BASE_SET_grow_def)

lemma BASE_SET_grow_eq_None: "BASE_SET_grow s pos = None \<longleftrightarrow> length s \<le> pos \<and> VECTOR_INT_MAX_SIZE \<le> pos"
  by (auto simp: BASE_SET_grow_def BASE_SET_resize_def)

subsection \<open>Single-bit operations\<close>

lemma bits_of_update:
  "i < length s \<Longrightarrow> bits_of (s[i := x]) = (if x = 1 then insert i (bits_of s) else bits_of s - {i})"
  by (auto simp: nth_list_update split: if_splits)

lemma BASE_SET_set_in:
  assumes "pos < length s" and "pos \<noteq> SIZE_T_MAX"
  shows "BASE_SET_set s pos v = Some (s[pos := (if v then 1 else 0)])"
  using assms by (simp add: BASE_SET_set_def)

lemma BASE_SET_set_Some:
  assumes "BASE_SET_set s pos v = Some t" and "pos \<noteq> SIZE_T_MAX"
  shows "bits_of t = (if v then insert pos (bits_of s) else bits_of s - {pos})"
    and "length t = max (length s) (Suc pos)" and "wf_bits s \<Longrightarrow> wf_bits t"
proof -
  from assms obtain u where u: "BASE_SET_grow s pos = Some u"
    and t: "t = u[pos := (if v then 1 else 0)]"
    by (auto simp: BASE_SET_set_def bind_Some_iff)
  note g = BASE_SET_grow_Some [OF u]
  show "bits_of t = (if v then insert pos (bits_of s) else bits_of s - {pos})"
    using g(1,2) bits_of_update [of pos u "if v then 1 else 0"] by (simp add: t del: mem_bits_of)
  show "length t = max (length s) (Suc pos)" by (simp add: t g(2))
  show "wf_bits s \<Longrightarrow> wf_bits t" using g(3) by (auto simp: t intro: wf_intros)
qed

lemma BASE_SET_set_all: "BASE_SET_set s SIZE_T_MAX v = Some (replicate (length s) (if v then 1 else 0))"
  by (simp add: BASE_SET_set_def map_replicate_const)

lemma BASE_SET_reset_eq: "BASE_SET_reset s pos = BASE_SET_set s pos False"
  by (simp add: BASE_SET_reset_def BASE_SET_set_def)

lemma xor_one_bit: "x \<in> {0, 1} \<Longrightarrow> x XOR 1 = (1 - x :: int)"
  by auto

lemma BASE_SET_flip_eq:
  assumes "wf_bits s" and "pos \<noteq> SIZE_T_MAX"
  shows "BASE_SET_flip s pos = BASE_SET_set s pos (\<not> BASE_SET_test s pos)"
proof (cases "BASE_SET_grow s pos")
  case None
  with assms show ?thesis by (simp add: BASE_SET_flip_def BASE_SET_set_def)
next
  case (Some u)
  note g = BASE_SET_grow_Some [OF Some]
  have "u ! pos = (if BASE_SET_test s pos then 1 else 0)"
    using wf_bits_nth_mem [OF g(3) [OF assms(1)], of pos] g(1,2)
    by (simp add: BASE_SET_test_iff del: mem_bits_of)
  with Some assms show ?thesis by (simp add: BASE_SET_flip_def BASE_SET_set_def)
qed

subsection \<open>Boolean operators\<close>

lemma and_or_xor_bit:
  assumes "x \<in> {0, 1}" and "y \<in> {0, 1}"
  shows "x AND y = (if x = 1 \<and> y = 1 then 1 else 0 :: int)"
    and "x OR y = (if x = 1 \<or> y = 1 then 1 else 0 :: int)"
    and "x XOR y = (if (x = 1) \<noteq> (y = 1) then 1 else 0 :: int)"
  using assms by auto

lemma bits_of_map2:
  assumes "wf_bits s" and "wf_bits t" and "length s = length t"
    and f: "\<And>x y. x \<in> {0, 1} \<Longrightarrow> y \<in> {0, 1} \<Longrightarrow> f x y = (if P (x = 1) (y = 1) then 1 else 0 :: int)"
  shows "bits_of (map2 f s t) = {i. i < length s \<and> P (i \<in> bits_of s) (i \<in> bits_of t)}"
    and "wf_bits (map2 f s t)"
proof -
  have *: "f (s ! i) (t ! i) = (if P (s ! i = 1) (t ! i = 1) then 1 else 0)" if "i < length s" for i
    using f [of "s ! i" "t ! i"] wf_bits_nth [OF assms(1), of i] wf_bits_nth [OF assms(2), of i]
      assms(3) that by auto
  show "bits_of (map2 f s t) = {i. i < length s \<and> P (i \<in> bits_of s) (i \<in> bits_of t)}"
    using assms(3) by (auto simp: * split: if_splits)
  show "wf_bits (map2 f s t)"
    using assms(3) * by (auto simp: wf_bits_def set_conv_nth split: if_splits)
qed

lemma BASE_SET_and_Some:
  assumes "wf_bits s" and "wf_bits t" and "length s = length t"
  obtains u where "BASE_SET_and s t = Some u" "wf_bits u" "length u = length s"
    "bits_of u = bits_of s \<inter> bits_of t"
proof
  show "BASE_SET_and s t = Some (map2 (AND) s t)" using assms by (simp add: BASE_SET_and_def)
  note m = bits_of_map2 [OF assms, of "(AND)" "(\<and>)"]
  show "wf_bits (map2 (AND) s t)" by (rule m(2)) (rule and_or_xor_bit)
  show "length (map2 (AND) s t) = length s" using assms(3) by simp
  have "bits_of (map2 (AND) s t) = {i. i < length s \<and> i \<in> bits_of s \<and> i \<in> bits_of t}"
    by (rule m(1)) (rule and_or_xor_bit)
  also have "\<dots> = bits_of s \<inter> bits_of t"
    using bits_of_bound [of s] by (auto simp del: mem_bits_of)
  finally show "bits_of (map2 (AND) s t) = bits_of s \<inter> bits_of t" .
qed

lemma BASE_SET_or_Some:
  assumes "wf_bits s" and "wf_bits t" and "length s = length t"
  obtains u where "BASE_SET_or s t = Some u" "wf_bits u" "length u = length s"
    "bits_of u = bits_of s \<union> bits_of t"
proof
  show "BASE_SET_or s t = Some (map2 (OR) s t)" using assms by (simp add: BASE_SET_or_def)
  note m = bits_of_map2 [OF assms, of "(OR)" "(\<or>)"]
  show "wf_bits (map2 (OR) s t)" by (rule m(2)) (rule and_or_xor_bit)
  show "length (map2 (OR) s t) = length s" using assms(3) by simp
  have "bits_of (map2 (OR) s t) = {i. i < length s \<and> (i \<in> bits_of s \<or> i \<in> bits_of t)}"
    by (rule m(1)) (rule and_or_xor_bit)
  also have "\<dots> = bits_of s \<union> bits_of t"
    using bits_of_bound [of s] bits_of_bound [of t] assms(3) by (auto simp del: mem_bits_of)
  finally show "bits_of (map2 (OR) s t) = bits_of s \<union> bits_of t" .
qed

lemma BASE_SET_xor_Some:
  assumes "wf_bits s" and "wf_bits t" and "length s = length t"
  obtains u where "BASE_SET_xor s t = Some u" "wf_bits u" "length u = length s"
    "bits_of u = (bits_of s - bits_of t) \<union> (bits_of t - bits_of s)"
proof
  show "BASE_SET_xor s t = Some (map2 (XOR) s t)" using assms by (simp add: BASE_SET_xor_def)
  note m = bits_of_map2 [OF assms, of "(XOR)" "(\<noteq>)"]
  show "wf_bits (map2 (XOR) s t)" by (rule m(2)) (rule and_or_xor_bit)
  show "length (map2 (XOR) s t) = length s" using assms(3) by simp
  have "bits_of (map2 (XOR) s t) = {i. i < length s \<and> ((i \<in> bits_of s) \<noteq> (i \<in> bits_of t))}"
    by (rule m(1)) (rule and_or_xor_bit)
  also have "\<dots> = (bits_of s - bits_of t) \<union> (bits_of t - bits_of s)"
    using bits_of_bound [of s] bits_of_bound [of t] assms(3) by (auto simp del: mem_bits_of)
  finally show "bits_of (map2 (XOR) s t) = (bits_of s - bits_of t) \<union> (bits_of t - bits_of s)" .
qed

lemma bits_of_not [bits_simps]: "wf_bits s \<Longrightarrow> bits_of (BASE_SET_not s) = {..<length s} - bits_of s"
  by (auto simp: BASE_SET_not_def dest: wf_bits_nth split: if_splits)

lemma wf_bits_not [wf_intros]: "wf_bits (BASE_SET_not s)"
  by (auto simp: BASE_SET_not_def wf_bits_def)

lemma length_not [simp]: "length (BASE_SET_not s) = length s"
  by (simp add: BASE_SET_not_def)

subsection \<open>Comparison and printing\<close>

lemma list_ex_nonzero_drop:
  "wf_bits s \<Longrightarrow> list_ex (\<lambda>bit. bit \<noteq> 0) (drop n s) \<longleftrightarrow> (\<exists>i \<in> bits_of s. n \<le> i)"
proof
  assume "wf_bits s" and "list_ex (\<lambda>bit. bit \<noteq> 0) (drop n s)"
  then obtain j where "j < length s - n" "s ! (n + j) \<noteq> 0"
    by (auto simp: list_ex_length)
  then show "\<exists>i \<in> bits_of s. n \<le> i"
    using wf_bits_nth [OF \<open>wf_bits s\<close>, of "n + j"] by (intro bexI [of _ "n + j"]) auto
next
  assume "\<exists>i \<in> bits_of s. n \<le> i"
  then obtain i where "i < length s" "s ! i = 1" "n \<le> i" by auto
  then show "list_ex (\<lambda>bit. bit \<noteq> 0) (drop n s)"
    by (auto simp: list_ex_length intro!: exI [of _ "i - n"])
qed

lemma take_eq_iff_bits:
  assumes "wf_bits s" and "wf_bits t" and "n \<le> length s" and "n \<le> length t"
  shows "take n s = take n t \<longleftrightarrow> (\<forall>i < n. i \<in> bits_of s \<longleftrightarrow> i \<in> bits_of t)"
proof
  assume eq: "take n s = take n t"
  show "\<forall>i < n. i \<in> bits_of s \<longleftrightarrow> i \<in> bits_of t"
  proof (intro allI impI)
    fix i assume "i < n"
    then have "s ! i = t ! i" using eq by (metis nth_take)
    with \<open>i < n\<close> show "i \<in> bits_of s \<longleftrightarrow> i \<in> bits_of t" using assms(3,4) by simp
  qed
next
  assume *: "\<forall>i < n. i \<in> bits_of s \<longleftrightarrow> i \<in> bits_of t"
  show "take n s = take n t"
  proof (rule nth_equalityI)
    show "length (take n s) = length (take n t)" using assms(3,4) by simp
    fix i assume "i < length (take n s)"
    then have "i < n" by simp
    with * assms show "take n s ! i = take n t ! i"
      by (simp add: wf_bits_nth_mem [OF assms(1)] wf_bits_nth_mem [OF assms(2)] del: mem_bits_of)
  qed
qed

lemma BASE_SET_eq_bits:
  assumes "wf_bits s" and "wf_bits t"
  shows "BASE_SET_eq s t \<longleftrightarrow> bits_of s = bits_of t"
proof -
  define n where "n = min (length s) (length t)"
  have "BASE_SET_eq s t \<longleftrightarrow> (\<forall>i < n. i \<in> bits_of s \<longleftrightarrow> i \<in> bits_of t)
      \<and> \<not> (\<exists>i \<in> bits_of s. n \<le> i) \<and> \<not> (\<exists>i \<in> bits_of t. n \<le> i)"
    using take_eq_iff_bits [OF assms, of n] list_ex_nonzero_drop [OF assms(1), of n]
      list_ex_nonzero_drop [OF assms(2), of n]
    by (simp add: BASE_SET_eq_def Let_def n_def del: mem_bits_of)
  also have "\<dots> \<longleftrightarrow> bits_of s = bits_of t"
  proof
    assume "bits_of s = bits_of t"
    then show "(\<forall>i < n. i \<in> bits_of s \<longleftrightarrow> i \<in> bits_of t)
      \<and> \<not> (\<exists>i \<in> bits_of s. n \<le> i) \<and> \<not> (\<exists>i \<in> bits_of t. n \<le> i)"
      using bits_of_bound [of s] bits_of_bound [of t]
      by (fastforce simp: n_def simp del: mem_bits_of)
  next
    assume *: "(\<forall>i < n. i \<in> bits_of s \<longleftrightarrow> i \<in> bits_of t)
      \<and> \<not> (\<exists>i \<in> bits_of s. n \<le> i) \<and> \<not> (\<exists>i \<in> bits_of t. n \<le> i)"
    show "bits_of s = bits_of t"
    proof (rule set_eqI)
      fix i
      show "i \<in> bits_of s \<longleftrightarrow> i \<in> bits_of t"
        by (cases "i < n") (use * not_less in \<open>blast+\<close>)
    qed
  qed
  finally show ?thesis .
qed

lemma compare_3way_eq_0: "lexicographical_compare_3way xs ys = 0 \<longleftrightarrow> xs = ys"
  by (induction xs ys rule: lexicographical_compare_3way.induct) auto

lemma compare_3way_less: "lexicographical_compare_3way xs ys < 0 \<longleftrightarrow> BASE_SET_less xs ys"
  by (induction xs ys rule: lexicographical_compare_3way.induct) (auto split: list.splits)

lemma fold_update_rev:
  assumes "n \<le> length r"
  shows "fold (\<lambda>i r. if P i then r[length r - 1 - i := c] else r) [0..<n] r
    = take (length r - n) r @ rev (map (\<lambda>i. if P i then c else r ! (length r - 1 - i)) [0..<n])"
  using assms
proof (induction n)
  case 0
  then show ?case by simp
next
  case (Suc n)
  let ?f = "\<lambda>i r. if P i then r[length r - 1 - i := c] else r"
  let ?m = "\<lambda>n. rev (map (\<lambda>i. if P i then c else r ! (length r - 1 - i)) [0..<n])"
  have IH: "fold ?f [0..<n] r = take (length r - n) r @ ?m n" using Suc by simp
  have split: "take (length r - n) r = take (length r - Suc n) r @ [r ! (length r - 1 - n)]"
    using Suc.prems take_Suc_conv_app_nth [of "length r - Suc n" r] by (simp add: Suc_diff_Suc)
  show ?case
    using Suc.prems by (simp add: IH split list_update_append)
qed

lemma BASE_SET_to_string_alt:
  "BASE_SET_to_string s zero one =
    rev (map (\<lambda>i. if BASE_SET_test s i then one else zero) [0..<length s])"
proof -
  let ?r = "replicate (length s) zero"
  have "BASE_SET_to_string s zero one =
      fold (\<lambda>i r. if BASE_SET_test s i then r[length s - 1 - i := one] else r) [0..<length s] ?r"
    by (simp add: BASE_SET_to_string_def)
  also have "\<dots> = fold (\<lambda>i r. if BASE_SET_test s i then r[length r - 1 - i := one] else r)
      [0..<length s] ?r"
  proof -
    have "fold (\<lambda>i r. if BASE_SET_test s i then r[n - 1 - i := one] else r) xs r =
        fold (\<lambda>i r. if BASE_SET_test s i then r[length r - 1 - i := one] else r) xs r"
      if "length r = n" for n xs r
      using that by (induction xs arbitrary: r) auto
    then show ?thesis by simp
  qed
  also have "\<dots> = rev (map (\<lambda>i. if BASE_SET_test s i then one else ?r ! (length s - 1 - i)) [0..<length s])"
    using fold_update_rev [of "length s" ?r "BASE_SET_test s" one] by simp
  also have "\<dots> = rev (map (\<lambda>i. if BASE_SET_test s i then one else zero) [0..<length s])"
    by (simp cong: map_cong)
  finally show ?thesis .
qed

subsection \<open>Iterators\<close>

lemma set_bits_advance_simps:
  "i < length s \<Longrightarrow> BASE_SET_test s i \<Longrightarrow> set_bits_advance s i = i"
  "i < length s \<Longrightarrow> \<not> BASE_SET_test s i \<Longrightarrow> set_bits_advance s i = set_bits_advance s (i + 1)"
  "length s \<le> i \<Longrightarrow> set_bits_advance s i = i"
  by (simp_all add: set_bits_advance.simps [of s i])

lemma set_bits_end_eq [simp]: "set_bits_end s = length s"
  by (simp add: set_bits_end_def set_bits_advance_simps)

lemma set_bits_loop_advance:
  "i \<le> length s \<Longrightarrow> length s - i < fuel \<Longrightarrow>
   set_bits_loop fuel s (set_bits_advance s i) = Some (filter (BASE_SET_test s) [i..<length s])"
proof (induction "length s - i" arbitrary: i fuel)
  case 0
  then show ?case by (cases fuel) (simp_all add: set_bits_advance_simps)
next
  case (Suc k)
  then have i: "i < length s" "k = length s - (i + 1)" by auto
  obtain f where f: "fuel = Suc f" using Suc.prems by (cases fuel) auto
  have IH: "\<And>g. k < g \<Longrightarrow> set_bits_loop g s (set_bits_advance s (i + 1))
      = Some (filter (BASE_SET_test s) [i + 1..<length s])"
    using Suc.hyps(1) [OF i(2)] i by simp
  show ?case
  proof (cases "BASE_SET_test s i")
    case True
    with i IH [of f] Suc.prems Suc.hyps(2) show ?thesis
      by (simp add: f set_bits_advance_simps(1) set_bits_next_def upt_conv_Cons)
  next
    case False
    with i IH [of fuel] Suc.prems Suc.hyps(2) show ?thesis
      by (simp add: set_bits_advance_simps(2) upt_conv_Cons)
  qed
qed

lemma set_bits_retreat_simps:
  "0 \<le> i \<Longrightarrow> BASE_SET_test s (nat i) \<Longrightarrow> set_bits_retreat s i = i"
  "0 \<le> i \<Longrightarrow> \<not> BASE_SET_test s (nat i) \<Longrightarrow> set_bits_retreat s i = set_bits_retreat s (i - 1)"
  "i < 0 \<Longrightarrow> set_bits_retreat s i = i"
  by (simp_all add: set_bits_retreat.simps [of s i])

lemma set_bits_rend_eq [simp]: "set_bits_rend s = - 1"
  by (simp add: set_bits_rend_def set_bits_retreat_simps)

lemma set_bits_rloop_retreat:
  "i < fuel \<Longrightarrow> set_bits_rloop fuel s (set_bits_retreat s (int i - 1))
    = Some (rev (map int (filter (BASE_SET_test s) [0..<i])))"
proof (induction i arbitrary: fuel)
  case 0
  then show ?case by (cases fuel) (simp_all add: set_bits_retreat_simps)
next
  case (Suc i)
  obtain f where f: "fuel = Suc f" using Suc.prems by (cases fuel) auto
  show ?case
  proof (cases "BASE_SET_test s i")
    case True
    with Suc.IH [of f] Suc.prems show ?thesis
      by (simp add: f set_bits_retreat_simps(1) set_bits_rnext_def)
  next
    case False
    with Suc.IH [of fuel] Suc.prems show ?thesis
      by (simp add: set_bits_retreat_simps(2))
  qed
qed

section \<open>The interface of a bit container\<close>

text \<open>
  What the layer sets use of the container below them, \<open>BASE_SET\<close> for board layers and
  \<^verbatim>\<open>std::bitset\<close> for virtual layers: a size, a test and a setter that changes one position.
  The lemmas are about the two loops every client has, the constructor that sets a list of
  positions one after the other and the walk over the positions in ascending order.
\<close>

locale bit_container =
  fixes wf :: "'s \<Rightarrow> bool"
    and sz :: "'s \<Rightarrow> nat"
    and tst :: "'s \<Rightarrow> nat \<Rightarrow> bool"
    and setb :: "nat \<Rightarrow> 's \<Rightarrow> 's option"
  assumes tst_bound: "wf s \<Longrightarrow> tst s i \<Longrightarrow> i < sz s"
    and setb_Some: "wf s \<Longrightarrow> i < sz s \<Longrightarrow> \<exists>t. setb i s = Some t"
    and setb_wf: "wf s \<Longrightarrow> i < sz s \<Longrightarrow> setb i s = Some t \<Longrightarrow> wf t"
    and setb_sz: "wf s \<Longrightarrow> i < sz s \<Longrightarrow> setb i s = Some t \<Longrightarrow> sz t = sz s"
    and setb_tst: "wf s \<Longrightarrow> i < sz s \<Longrightarrow> setb i s = Some t \<Longrightarrow> tst t j \<longleftrightarrow> j = i \<or> tst s j"
begin

lemma set_list:
  assumes "wf s" and "\<forall>p \<in> set ps. p < sz s"
  shows "\<exists>t. fold_opt setb ps s = Some t \<and> wf t \<and> sz t = sz s \<and> (\<forall>j. tst t j \<longleftrightarrow> j \<in> set ps \<or> tst s j)"
  using assms
proof (induction ps arbitrary: s)
  case Nil
  then show ?case by simp
next
  case (Cons p ps)
  from Cons.prems have p: "p < sz s" by simp
  from setb_Some [OF Cons.prems(1) p] obtain t where t: "setb p s = Some t" ..
  note t_wf = setb_wf [OF Cons.prems(1) p t] and t_sz = setb_sz [OF Cons.prems(1) p t]
  from Cons.IH [OF t_wf] Cons.prems(2) t_sz obtain u where
    "fold_opt setb ps t = Some u" "wf u" "sz u = sz t" "\<forall>j. tst u j \<longleftrightarrow> j \<in> set ps \<or> tst t j"
    by auto
  with t t_sz setb_tst [OF Cons.prems(1) p t] show ?case by auto
qed

lemma enumerate: "wf s \<Longrightarrow> filter (tst s) [0..<sz s] = sorted_list_of_set {i. tst s i}"
  by (simp add: filter_upt_eq_sorted_list_of_set) (metis tst_bound)

lemma enumerate_set_list:
  assumes "wf s" and "\<forall>p \<in> set ps. p < sz s" and "\<forall>j. \<not> tst s j"
  shows "\<exists>t. fold_opt setb ps s = Some t \<and> filter (tst t) [0..<sz t] = sorted_list_of_set (set ps)"
proof -
  from set_list [OF assms(1,2)] assms(3) obtain t
    where t: "fold_opt setb ps s = Some t" "wf t" and mem: "\<And>j. tst t j \<longleftrightarrow> j \<in> set ps" by auto
  have "{i. tst t i} = set ps" using mem by blast
  with enumerate [OF t(2)] t(1) show ?thesis by simp
qed

end

interpretation base_set: bit_container "\<lambda>s. wf_bits s \<and> length s < SIZE_T_MAX" length BASE_SET_test
  "\<lambda>i s. BASE_SET_set s i True"
proof unfold_locales
  fix s :: base_set and i j :: nat and t
  assume wf: "wf_bits s \<and> length s < SIZE_T_MAX"
  show "BASE_SET_test s i \<Longrightarrow> i < length s" by (simp add: BASE_SET_test_def split: if_splits)
  assume i: "i < length s"
  then have ne: "i \<noteq> SIZE_T_MAX" using wf by simp
  show "\<exists>t. BASE_SET_set s i True = Some t" using i ne by (simp add: BASE_SET_set_in)
  assume t: "BASE_SET_set s i True = Some t"
  note S = BASE_SET_set_Some [OF t ne]
  show "length t = length s" using S(2) i by simp
  then show "wf_bits t \<and> length t < SIZE_T_MAX" using S(3) wf by simp
  show "BASE_SET_test t j \<longleftrightarrow> j = i \<or> BASE_SET_test s j"
    using S(1) by (simp add: BASE_SET_test_iff del: mem_bits_of)
qed

section \<open>Properties\<close>

text \<open>
  C25. Type invariant: a set whose elements are all 0 or 1 keeps that shape under every operation
  that writes it, whenever the operation returns.
\<close>

theorem BASE_SET_wf_preserved:
  assumes "wf_bits s" and "wf_bits t"
  shows "wf_bits (BASE_SET n) \<and> wf_bits (BASE_SET_not s) \<and>
    pred_option wf_bits (BASE_SET_resize s n) \<and>
    pred_option wf_bits (BASE_SET_set s pos v) \<and>
    pred_option wf_bits (BASE_SET_reset s pos) \<and>
    pred_option wf_bits (BASE_SET_flip s pos) \<and>
    pred_option wf_bits (BASE_SET_and s t) \<and>
    pred_option wf_bits (BASE_SET_or s t) \<and>
    pred_option wf_bits (BASE_SET_xor s t)"
proof -
  have set: "pred_option wf_bits (BASE_SET_set s pos w)" for w
    using BASE_SET_set_Some(3) [of s pos w] assms(1)
    by (cases "pos = SIZE_T_MAX") (auto simp: BASE_SET_set_all pred_option_def)
  have flip: "pred_option wf_bits (BASE_SET_flip s pos)"
  proof (cases "pos = SIZE_T_MAX")
    case True
    then show ?thesis
      using assms(1) by (auto simp: BASE_SET_flip_def wf_bits_def)
  next
    case False
    with set show ?thesis by (simp add: BASE_SET_flip_eq [OF assms(1)])
  qed
  have bin: "pred_option wf_bits (BASE_SET_and s t) \<and> pred_option wf_bits (BASE_SET_or s t) \<and>
    pred_option wf_bits (BASE_SET_xor s t)"
  proof (cases "length s = length t")
    case True
    from BASE_SET_and_Some [OF assms True] BASE_SET_or_Some [OF assms True]
      BASE_SET_xor_Some [OF assms True]
    show ?thesis by (metis option.pred_inject(2))
  next
    case False
    then show ?thesis by (simp add: BASE_SET_and_def BASE_SET_or_def BASE_SET_xor_def)
  qed
  have "pred_option wf_bits (BASE_SET_resize s n)"
    using assms(1) by (auto simp: BASE_SET_resize_def intro: wf_intros)
  with set flip bin show ?thesis by (simp add: BASE_SET_reset_eq wf_bits_not)
qed

theorem BASE_SET_wf_preserved_witness:
  "wf_bits (BASE_SET 4) \<and> wf_bits (BASE_SET_not [1, 0]) \<and>
    pred_option wf_bits (BASE_SET_resize [1, 0] 4) \<and>
    pred_option wf_bits (BASE_SET_set [1, 0] 5 True) \<and>
    pred_option wf_bits (BASE_SET_reset [1, 0] 5) \<and>
    pred_option wf_bits (BASE_SET_flip [1, 0] 5) \<and>
    pred_option wf_bits (BASE_SET_and [1, 0] [1, 1]) \<and>
    pred_option wf_bits (BASE_SET_or [1, 0] [1, 1]) \<and>
    pred_option wf_bits (BASE_SET_xor [1, 0] [1, 1])"
  by (rule BASE_SET_wf_preserved) (simp_all add: wf_bits_def)

text \<open>
  C24. Refinement: on well-formed sets of one size the operators compute intersection, union,
  symmetric difference and complement of the positions; on sets of different sizes the binary
  ones fail their assertion.
\<close>

theorem BASE_SET_refines_sets:
  assumes "wf_bits s" and "wf_bits t"
  shows "map_option bits_of (BASE_SET_and s t)
      = (if length s = length t then Some (bits_of s \<inter> bits_of t) else None) \<and>
    map_option bits_of (BASE_SET_or s t)
      = (if length s = length t then Some (bits_of s \<union> bits_of t) else None) \<and>
    map_option bits_of (BASE_SET_xor s t)
      = (if length s = length t then Some ((bits_of s - bits_of t) \<union> (bits_of t - bits_of s)) else None) \<and>
    bits_of (BASE_SET_not s) = {..<length s} - bits_of s \<and>
    BASE_SET_count s = card (bits_of s)"
proof -
  have count: "BASE_SET_count s = card (bits_of s)"
    by (simp add: BASE_SET_count_def bits_of_alt length_filter_conv_card)
  show ?thesis
  proof (cases "length s = length t")
    case True
    obtain u where "BASE_SET_and s t = Some u" "bits_of u = bits_of s \<inter> bits_of t"
      by (rule BASE_SET_and_Some [OF assms True])
    moreover obtain v where "BASE_SET_or s t = Some v" "bits_of v = bits_of s \<union> bits_of t"
      by (rule BASE_SET_or_Some [OF assms True])
    moreover obtain w where "BASE_SET_xor s t = Some w"
      "bits_of w = (bits_of s - bits_of t) \<union> (bits_of t - bits_of s)"
      by (rule BASE_SET_xor_Some [OF assms True])
    ultimately show ?thesis using True count bits_of_not [OF assms(1)] by (simp del: mem_bits_of)
  next
    case False
    with count bits_of_not [OF assms(1)] show ?thesis
      by (simp add: BASE_SET_and_def BASE_SET_or_def BASE_SET_xor_def)
  qed
qed

theorem BASE_SET_refines_sets_witness:
  "map_option bits_of (BASE_SET_and [1, 0] [1, 1])
      = (if length [1, 0 :: int] = length [1, 1 :: int]
         then Some (bits_of [1, 0] \<inter> bits_of [1, 1]) else None) \<and>
    map_option bits_of (BASE_SET_or [1, 0] [1, 1])
      = (if length [1, 0 :: int] = length [1, 1 :: int]
         then Some (bits_of [1, 0] \<union> bits_of [1, 1]) else None) \<and>
    map_option bits_of (BASE_SET_xor [1, 0] [1, 1])
      = (if length [1, 0 :: int] = length [1, 1 :: int]
         then Some ((bits_of [1, 0] - bits_of [1, 1]) \<union> (bits_of [1, 1] - bits_of [1, 0])) else None) \<and>
    bits_of (BASE_SET_not [1, 0]) = {..<length [1, 0 :: int]} - bits_of [1, 0] \<and>
    BASE_SET_count [1, 0] = card (bits_of [1, 0])"
  by (rule BASE_SET_refines_sets) (simp_all add: wf_bits_def)

text \<open>
  Equality is equality of members, whatever the sizes. The three-way comparison and the hash
  do not follow it: the empty set of size 0 and the empty set of size 1 are equal, and yet the
  comparison orders them; for sets of one size they agree.
\<close>

lemma BASE_SET_eq_members:
  assumes "wf_bits s" and "wf_bits t"
  shows "(BASE_SET_eq s t \<longleftrightarrow> bits_of s = bits_of t) \<and>
    (length s = length t \<and> BASE_SET_eq s t \<longleftrightarrow> BASE_SET_compare s t = 0) \<and>
    BASE_SET_eq (BASE_SET 0) (BASE_SET 1) \<and> BASE_SET_less (BASE_SET 0) (BASE_SET 1)"
proof -
  have "length s = length t \<and> BASE_SET_eq s t \<longleftrightarrow> BASE_SET_compare s t = 0"
    using wf_bits_ext [OF assms]
    by (auto simp: BASE_SET_compare_def compare_3way_eq_0 BASE_SET_eq_bits [OF assms] simp del: mem_bits_of)
  moreover have "BASE_SET_eq (BASE_SET 0) (BASE_SET 1)"
    by (simp add: BASE_SET_eq_bits)
  moreover have "BASE_SET_less (BASE_SET 0) (BASE_SET 1)" by (simp add: BASE_SET_def)
  ultimately show ?thesis using BASE_SET_eq_bits [OF assms] by simp
qed

lemma BASE_SET_eq_members_witness:
  "(BASE_SET_eq [1, 0] [1] \<longleftrightarrow> bits_of [1, 0] = bits_of [1]) \<and>
    (length [1, 0 :: int] = length [1 :: int] \<and> BASE_SET_eq [1, 0] [1] \<longleftrightarrow>
       BASE_SET_compare [1, 0] [1] = 0) \<and>
    BASE_SET_eq (BASE_SET 0) (BASE_SET 1) \<and> BASE_SET_less (BASE_SET 0) (BASE_SET 1)"
  by (rule BASE_SET_eq_members) (simp_all add: wf_bits_def)

text \<open>
  C26. The iterator loops end and visit exactly the members, each once: the forward one in
  ascending order, the reverse one in descending order. The loops take one step more than the
  set has positions at most.
\<close>

theorem set_bits_iterators:
  "set_bits_loop (Suc (length s)) s (set_bits_begin s) = Some (sorted_list_of_set (bits_of s)) \<and>
   set_bits_rloop (Suc (length s)) s (set_bits_rbegin s)
     = Some (rev (map int (sorted_list_of_set (bits_of s))))"
proof -
  have "filter (BASE_SET_test s) [0..<length s] = sorted_list_of_set (bits_of s)"
    by (simp add: filter_upt_eq_sorted_list_of_set bits_of_def)
       (metis (mono_tags) BASE_SET_test_iff mem_bits_of)
  then show ?thesis
    using set_bits_loop_advance [of 0 s "Suc (length s)"]
      set_bits_rloop_retreat [of "length s" "Suc (length s)" s]
    by (simp add: set_bits_begin_def set_bits_rbegin_def)
qed

end
