(* ===== verification/LSet.thy ===== *)
theory LSet
  imports LayerIds BaseSet
begin

text \<open>
  \<^verbatim>\<open>common/lset.cpp\<close>, \<^verbatim>\<open>include/lset.h\<close>, \<^verbatim>\<open>common/lseq.cpp\<close>: \<open>LSET\<close>, the set of board layers, and
  \<open>LSEQ\<close>, a sequence of them.

  An \<open>LSET\<close> is a \<open>BASE_SET\<close> (the class adds no member), and an \<open>LSEQ\<close> is the list of its layer
  numbers. A layer handed to \<open>set\<close>, \<open>reset\<close> or \<open>test\<close> is converted to \<^verbatim>\<open>size_t\<close>. Operations that
  can fail an assertion, or throw from the growing of a set, return an option.

  Every well-formed set of the default size is \<open>layer_mask A\<close> for a set \<open>A\<close> of layer numbers; the lemmas
  give each operation on \<open>layer_mask A\<close> as \<open>layer_mask\<close> of a set operation on \<open>A\<close>, so that facts about the
  masks of the code become facts about intervals of numbers.
\<close>

type_synonym lset = base_set
type_synonym lseq = "int list"

section \<open>Construction\<close>

definition LSET_empty :: lset where
  "LSET_empty = BASE_SET (nat (pcb_num PCB_LAYER_ID_COUNT))"

definition LSET_set :: "lset \<Rightarrow> int \<Rightarrow> bool \<Rightarrow> lset option" where
  "LSET_set s layer value = BASE_SET_set s (size_t_of layer) value"

definition LSET_reset_layer :: "lset \<Rightarrow> int \<Rightarrow> lset option" where
  "LSET_reset_layer s layer = BASE_SET_reset s (size_t_of layer)"

definition LSET_test :: "lset \<Rightarrow> int \<Rightarrow> bool" where
  "LSET_test s layer = BASE_SET_test s (size_t_of layer)"

definition LSET_of_layer :: "int \<Rightarrow> lset option" where
  "LSET_of_layer aLayer = LSET_set LSET_empty aLayer True"

text \<open>The constructors from an initializer list and from an \<open>LSEQ\<close> have the same loop.\<close>

definition LSET_of_list :: "int list \<Rightarrow> lset option" where
  "LSET_of_list aList = fold_opt (\<lambda>layer s. LSET_set s layer True) aList LSET_empty"

definition LSET_of_seq :: "lseq \<Rightarrow> lset option" where
  "LSET_of_seq aSeq = fold_opt (\<lambda>layer s. LSET_set s layer True) aSeq LSET_empty"

text \<open>\<open>test\<close> never throws, so the handler in \<open>Contains\<close> is never entered.\<close>

definition LSET_Contains :: "lset \<Rightarrow> int \<Rightarrow> bool" where
  "LSET_Contains s aLayer = LSET_test s aLayer"

section \<open>Names in the board file\<close>

definition LSET_Name_cases :: "(PCB_LAYER_ID \<times> string) list" where
  "LSET_Name_cases = [
    (F_Cu, ''F.Cu''), (In1_Cu, ''In1.Cu''), (In2_Cu, ''In2.Cu''), (In3_Cu, ''In3.Cu''),
     (In4_Cu, ''In4.Cu''), (In5_Cu, ''In5.Cu''), (In6_Cu, ''In6.Cu''), (In7_Cu, ''In7.Cu''),
     (In8_Cu, ''In8.Cu''), (In9_Cu, ''In9.Cu''), (In10_Cu, ''In10.Cu''),
     (In11_Cu, ''In11.Cu''), (In12_Cu, ''In12.Cu''), (In13_Cu, ''In13.Cu''),
     (In14_Cu, ''In14.Cu''), (In15_Cu, ''In15.Cu''), (In16_Cu, ''In16.Cu''),
     (In17_Cu, ''In17.Cu''), (In18_Cu, ''In18.Cu''), (In19_Cu, ''In19.Cu''),
     (In20_Cu, ''In20.Cu''), (In21_Cu, ''In21.Cu''), (In22_Cu, ''In22.Cu''),
     (In23_Cu, ''In23.Cu''), (In24_Cu, ''In24.Cu''), (In25_Cu, ''In25.Cu''),
     (In26_Cu, ''In26.Cu''), (In27_Cu, ''In27.Cu''), (In28_Cu, ''In28.Cu''),
     (In29_Cu, ''In29.Cu''), (In30_Cu, ''In30.Cu''), (B_Cu, ''B.Cu''), (B_Adhes, ''B.Adhes''),
     (F_Adhes, ''F.Adhes''), (B_Paste, ''B.Paste''), (F_Paste, ''F.Paste''),
     (B_SilkS, ''B.SilkS''), (F_SilkS, ''F.SilkS''), (B_Mask, ''B.Mask''),
     (F_Mask, ''F.Mask''), (Dwgs_User, ''Dwgs.User''), (Cmts_User, ''Cmts.User''),
     (Eco1_User, ''Eco1.User''), (Eco2_User, ''Eco2.User''), (Edge_Cuts, ''Edge.Cuts''),
     (Margin, ''Margin''), (F_CrtYd, ''F.CrtYd''), (B_CrtYd, ''B.CrtYd''), (F_Fab, ''F.Fab''),
     (B_Fab, ''B.Fab''), (User_1, ''User.1''), (User_2, ''User.2''), (User_3, ''User.3''),
     (User_4, ''User.4''), (User_5, ''User.5''), (User_6, ''User.6''), (User_7, ''User.7''),
     (User_8, ''User.8''), (User_9, ''User.9''), (Rescue, ''Rescue'')]"

definition LSET_Name :: "int \<Rightarrow> string" where
  "LSET_Name aLayerId =
     (case map_of (map (\<lambda>(l, s). (pcb_num l, s)) LSET_Name_cases) aLayerId of
        Some txt \<Rightarrow> txt
      | None \<Rightarrow> ''BAD INDEX!'')"

section \<open>Sequences\<close>

text \<open>
  \<open>Seq\<close> with a wish list keeps its order; \<open>Seq()\<close> lists the members in ascending order (a set has
  fewer than \<open>2^31\<close> positions here, so that the casts of its index to \<^verbatim>\<open>unsigned\<close> and to the
  enumeration change no value).
\<close>

definition LSET_Seq_wish :: "lset \<Rightarrow> lseq \<Rightarrow> lseq" where
  "LSET_Seq_wish s aWishListSequence = filter (LSET_test s) aWishListSequence"

definition LSET_Seq :: "lset \<Rightarrow> lseq" where
  "LSET_Seq s = map int (filter (BASE_SET_test s) [0..<length s])"

definition LSET_RunOnLayers :: "lset \<Rightarrow> (int \<Rightarrow> 'w \<Rightarrow> 'w) \<Rightarrow> 'w \<Rightarrow> 'w" where
  "LSET_RunOnLayers s aFunction w =
     fold (\<lambda>ii w. if BASE_SET_test s ii then aFunction (int ii) w else w) [0..<length s] w"

definition CuStack_sequence :: lseq where
  "CuStack_sequence = map pcb_num [
     F_Cu, In1_Cu, In2_Cu, In3_Cu, In4_Cu, In5_Cu, In6_Cu, In7_Cu, In8_Cu, In9_Cu, In10_Cu,
     In11_Cu, In12_Cu, In13_Cu, In14_Cu, In15_Cu, In16_Cu, In17_Cu, In18_Cu, In19_Cu, In20_Cu,
     In21_Cu, In22_Cu, In23_Cu, In24_Cu, In25_Cu, In26_Cu, In27_Cu, In28_Cu, In29_Cu, In30_Cu,
     B_Cu]"

definition LSET_CuStack :: "lset \<Rightarrow> lseq" where
  "LSET_CuStack s = LSET_Seq_wish s CuStack_sequence"

definition Technicals_sequence :: lseq where
  "Technicals_sequence = map pcb_num [
     F_Adhes, B_Adhes, F_Paste, B_Paste, F_SilkS, B_SilkS, F_Mask, B_Mask, F_CrtYd, B_CrtYd,
     F_Fab, B_Fab]"

definition LSET_Technicals :: "lset \<Rightarrow> lset \<Rightarrow> lseq option" where
  "LSET_Technicals s aSetToOmit = do {
     subset \<leftarrow> BASE_SET_and (BASE_SET_not aSetToOmit) s;
     Some (LSET_Seq_wish subset Technicals_sequence)
   }"

definition Users_sequence :: lseq where
  "Users_sequence = map pcb_num [
     Dwgs_User, Cmts_User, Eco1_User, Eco2_User, Edge_Cuts, Margin, User_1, User_2, User_3,
     User_4, User_5, User_6, User_7, User_8, User_9]"

definition LSET_Users :: "lset \<Rightarrow> lseq" where
  "LSET_Users s = LSET_Seq_wish s Users_sequence"

definition TechAndUserUIOrder_sequence :: lseq where
  "TechAndUserUIOrder_sequence = map pcb_num [
     F_Adhes, B_Adhes, F_Paste, B_Paste, F_SilkS, B_SilkS, F_Mask, B_Mask, Dwgs_User, Cmts_User,
     Eco1_User, Eco2_User, Edge_Cuts, Margin, F_CrtYd, B_CrtYd, F_Fab, B_Fab, User_1, User_2,
     User_3, User_4, User_5, User_6, User_7, User_8, User_9]"

definition LSET_TechAndUserUIOrder :: "lset \<Rightarrow> lseq" where
  "LSET_TechAndUserUIOrder s = LSET_Seq_wish s TechAndUserUIOrder_sequence"

definition LSET_UIOrder :: "lset \<Rightarrow> lseq" where
  "LSET_UIOrder s = LSET_CuStack s @ LSET_TechAndUserUIOrder s"

definition SeqStackupTop2Bottom_sequence :: lseq where
  "SeqStackupTop2Bottom_sequence = map pcb_num [
     Edge_Cuts, Margin, Dwgs_User, Cmts_User, Eco1_User, Eco2_User, User_1, User_2, User_3,
     User_4, User_5, User_6, User_7, User_8, User_9, F_Fab, F_SilkS, F_Paste, F_Adhes, F_Mask,
     F_CrtYd, F_Cu, In1_Cu, In2_Cu, In3_Cu, In4_Cu, In5_Cu, In6_Cu, In7_Cu, In8_Cu, In9_Cu,
     In10_Cu, In11_Cu, In12_Cu, In13_Cu, In14_Cu, In15_Cu, In16_Cu, In17_Cu, In18_Cu, In19_Cu,
     In20_Cu, In21_Cu, In22_Cu, In23_Cu, In24_Cu, In25_Cu, In26_Cu, In27_Cu, In28_Cu, In29_Cu,
     In30_Cu, B_Cu, B_CrtYd, B_Mask, B_Adhes, B_Paste, B_SilkS, B_Fab]"

text \<open>\<open>remove1\<close> is the \<^verbatim>\<open>erase\<close> of the position \<^verbatim>\<open>std::find\<close> returns, the first one.\<close>

definition LSET_SeqStackupTop2Bottom :: "lset \<Rightarrow> int \<Rightarrow> lseq" where
  "LSET_SeqStackupTop2Bottom s aSelectedLayer =
     (let seq = LSET_Seq_wish s SeqStackupTop2Bottom_sequence in
      if aSelectedLayer \<noteq> pcb_num UNDEFINED_LAYER then
        if aSelectedLayer \<in> set seq then aSelectedLayer # remove1 aSelectedLayer seq else seq
      else seq)"

definition SeqStackupForPlotting_sequence :: lseq where
  "SeqStackupForPlotting_sequence = map pcb_num [
     B_Cu, B_Mask, B_Paste, B_SilkS, B_Adhes, B_CrtYd, B_Fab, In30_Cu, In29_Cu, In28_Cu, In27_Cu,
     In26_Cu, In25_Cu, In24_Cu, In23_Cu, In22_Cu, In21_Cu, In20_Cu, In19_Cu, In18_Cu, In17_Cu,
     In16_Cu, In15_Cu, In14_Cu, In13_Cu, In12_Cu, In11_Cu, In10_Cu, In9_Cu, In8_Cu, In7_Cu,
     In6_Cu, In5_Cu, In4_Cu, In3_Cu, In2_Cu, In1_Cu, F_Cu, F_Mask, F_Paste, F_SilkS, F_Adhes,
     F_CrtYd, F_Fab, Dwgs_User, Cmts_User, Eco1_User, Eco2_User, User_1, User_2, User_3, User_4,
     User_5, User_6, User_7, User_8, User_9, Margin, Edge_Cuts]"

definition LSET_SeqStackupForPlotting :: "lset \<Rightarrow> lseq" where
  "LSET_SeqStackupForPlotting s = LSET_Seq_wish s SeqStackupForPlotting_sequence"

text \<open>\<open>LSEQ::TestLayers\<close>: the distance from \<open>aRhs\<close> to \<open>aLhs\<close>, an absent layer standing at the end.\<close>

definition std_find :: "lseq \<Rightarrow> int \<Rightarrow> nat" where
  "std_find xs x = length (takeWhile (\<lambda>y. y \<noteq> x) xs)"

definition LSEQ_TestLayers :: "lseq \<Rightarrow> int \<Rightarrow> int \<Rightarrow> int" where
  "LSEQ_TestLayers q aRhs aLhs =
     (if aRhs = aLhs then 0 else int (std_find q aLhs) - int (std_find q aRhs))"

section \<open>Text formats\<close>

definition LSET_FmtBin :: "lset \<Rightarrow> string" where
  "LSET_FmtBin s =
     rev (fold (\<lambda>bit ret.
        ret @ (if bit \<noteq> 0 then if bit mod 8 = 0 then ''|'' else if bit mod 4 = 0 then ''_'' else []
               else [])
            @ (if s ! bit \<noteq> 0 then ''1'' else ''0''))
      [0..<length s] [])"

definition FmtHex_digits :: string where
  "FmtHex_digits = ''0123456789abcdef''"

text \<open>The loop over the four bits of a nibble, with its \<^verbatim>\<open>break\<close> past the end of the set.\<close>

fun FmtHex_nibble :: "lset \<Rightarrow> nat \<Rightarrow> nat list \<Rightarrow> nat \<Rightarrow> nat" where
  "FmtHex_nibble s nibble [] ndx = ndx"
| "FmtHex_nibble s nibble (nibble_bit # rest) ndx =
     (let nibble_pos = nibble_bit + nibble * 4 in
      if nibble_pos \<ge> length s then ndx
      else FmtHex_nibble s nibble rest (if s ! nibble_pos \<noteq> 0 then ndx OR 2 ^ nibble_bit else ndx))"

definition LSET_FmtHex :: "lset \<Rightarrow> string" where
  "LSET_FmtHex s =
     (let nibble_count = (length s + 3) div 4 in
      rev (fold (\<lambda>nibble ret.
          ret @ (if nibble \<noteq> 0 \<and> nibble mod 8 = 0 then ''_'' else [])
              @ [FmtHex_digits ! FmtHex_nibble s nibble [0..<4] 0])
        [0..<nibble_count] []))"

definition ParseHex_digit :: "char \<Rightarrow> int option" where
  "ParseHex_digit c =
     (let cc = of_char c :: int in
      if of_char CHR ''0'' \<le> cc \<and> cc \<le> of_char CHR ''9'' then Some (cc - of_char CHR ''0'')
      else if of_char CHR ''a'' \<le> cc \<and> cc \<le> of_char CHR ''f'' then Some (cc - of_char CHR ''a'' + 10)
      else if of_char CHR ''A'' \<le> cc \<and> cc \<le> of_char CHR ''F'' then Some (cc - of_char CHR ''A'' + 10)
      else None)"

text \<open>
  The inner loop: bits \<open>ndx\<close> to 3 of a nibble, while they are positions of the set. \<open>bitcount\<close> and the
  position \<open>b\<close> are of type \<^verbatim>\<open>int\<close>; as \<open>b\<close> grows only below \<open>bitcount\<close>, neither it nor four times
  \<open>nibble_ndx\<close> overflows. The position is converted to \<^verbatim>\<open>size_t\<close> when it is set.
\<close>

fun ParseHex_bits :: "int \<Rightarrow> int \<Rightarrow> nat list \<Rightarrow> int \<Rightarrow> lset \<Rightarrow> (int \<times> lset) option" where
  "ParseHex_bits bitcount nibble [] b tmp = Some (b, tmp)"
| "ParseHex_bits bitcount nibble (ndx # rest) b tmp =
     (if b < bitcount then do {
        tmp \<leftarrow> (if bit nibble ndx then BASE_SET_set tmp (size_t_of b) True else Some tmp);
        ParseHex_bits bitcount nibble rest (b + 1) tmp
      } else Some (b, tmp))"

text \<open>
  The outer loop over the characters from the last to the first, with the number of characters
  it has consumed: the pointer moves before the character is looked at, so a character that
  stops the loop is counted.
\<close>

fun ParseHex_loop :: "int \<Rightarrow> string \<Rightarrow> int \<Rightarrow> lset \<Rightarrow> nat \<Rightarrow> (lset \<times> nat) option" where
  "ParseHex_loop bitcount [] nibble_ndx tmp consumed = Some (tmp, consumed)"
| "ParseHex_loop bitcount (cc # rest) nibble_ndx tmp consumed =
     (if cc = CHR ''_'' then ParseHex_loop bitcount rest nibble_ndx tmp (consumed + 1)
      else case ParseHex_digit cc of
        None \<Rightarrow> Some (tmp, consumed + 1)
      | Some nibble \<Rightarrow> do {
          (b, tmp) \<leftarrow> ParseHex_bits bitcount nibble [0..<4] (nibble_ndx * 4) tmp;
          if b \<ge> bitcount then Some (tmp, consumed + 1)
          else ParseHex_loop bitcount rest (nibble_ndx + 1) tmp (consumed + 1)
        })"

text \<open>
  \<open>aStart\<close> is the string of the \<open>aCount\<close> characters, a number of type \<^verbatim>\<open>int\<close>; the result is the new set
  and the count. The size of the set is converted to \<^verbatim>\<open>int\<close>, so that of a set of \<open>2 ^ 31\<close> bits is negative.
\<close>

definition LSET_ParseHex :: "lset \<Rightarrow> string \<Rightarrow> (lset \<times> nat) option" where
  "LSET_ParseHex s aStart = do {
     (tmp, byte_count) \<leftarrow> ParseHex_loop (int32_of (int (length s))) (rev aStart) 0 LSET_empty 0;
     Some (if byte_count > 0 then tmp else s, byte_count)
   }"

section \<open>The masks\<close>

text \<open>Each function returns a static copy of one constant set.\<close>

definition LSET_FrontAssembly :: "lset option" where
  "LSET_FrontAssembly = LSET_of_list (map pcb_num [F_SilkS, F_Mask, F_Fab, F_CrtYd])"

definition LSET_BackAssembly :: "lset option" where
  "LSET_BackAssembly = LSET_of_list (map pcb_num [B_SilkS, B_Mask, B_Fab, B_CrtYd])"

definition LSET_InternalCuMask :: "lset option" where
  "LSET_InternalCuMask = LSET_of_list (map pcb_num
     [In1_Cu, In2_Cu, In3_Cu, In4_Cu, In5_Cu, In6_Cu,
      In7_Cu, In8_Cu, In9_Cu, In10_Cu, In11_Cu, In12_Cu,
      In13_Cu, In14_Cu, In15_Cu, In16_Cu, In17_Cu, In18_Cu,
      In19_Cu, In20_Cu, In21_Cu, In22_Cu, In23_Cu, In24_Cu,
      In25_Cu, In26_Cu, In27_Cu, In28_Cu, In29_Cu, In30_Cu])"

text \<open>
  The loop of \<open>AllCuMask\<close> clears \<open>clear_count\<close> layers from \<open>elem\<close> down. The subtraction
  \<^verbatim>\<open>MAX_CU_LAYERS - aCuLayerCount\<close> is on \<^verbatim>\<open>int\<close>, its overflow is \<open>None\<close>.
\<close>

fun AllCuMask_loop :: "int \<Rightarrow> nat \<Rightarrow> lset \<Rightarrow> lset option" where
  "AllCuMask_loop elem 0 ret = Some ret"
| "AllCuMask_loop elem (Suc clear_count) ret = do {
     ret \<leftarrow> LSET_set ret elem False;
     AllCuMask_loop (elem - 1) clear_count ret
   }"

definition LSET_AllCuMask :: "int \<Rightarrow> lset option" where
  "LSET_AllCuMask aCuLayerCount = do {
     internal \<leftarrow> LSET_InternalCuMask;
     front \<leftarrow> LSET_set internal (pcb_num F_Cu) True;
     all \<leftarrow> LSET_set front (pcb_num B_Cu) True;
     if aCuLayerCount = MAX_CU_LAYERS then Some all
     else if \<not> is_int32 (MAX_CU_LAYERS - aCuLayerCount) then None
     else let clear_count = max 0 (min (MAX_CU_LAYERS - 2) (MAX_CU_LAYERS - aCuLayerCount))
          in AllCuMask_loop (pcb_num In30_Cu) (nat clear_count) all
   }"

definition LSET_AllLayersMask :: "lset option" where
  "LSET_AllLayersMask = BASE_SET_set LSET_empty SIZE_T_MAX True"

definition LSET_AllNonCuMask :: "lset option" where
  "LSET_AllNonCuMask = do {
     all \<leftarrow> BASE_SET_set LSET_empty SIZE_T_MAX True;
     cu \<leftarrow> LSET_AllCuMask MAX_CU_LAYERS;
     BASE_SET_and all (BASE_SET_not cu)
   }"

definition LSET_ExternalCuMask :: "lset option" where
  "LSET_ExternalCuMask = LSET_of_list (map pcb_num [F_Cu, B_Cu])"

definition LSET_BackTechMask :: "lset option" where
  "LSET_BackTechMask = LSET_of_list (map pcb_num [B_SilkS, B_Mask, B_Adhes, B_Paste, B_CrtYd, B_Fab])"

definition LSET_BackBoardTechMask :: "lset option" where
  "LSET_BackBoardTechMask = LSET_of_list (map pcb_num [B_SilkS, B_Mask, B_Adhes, B_Paste])"

definition LSET_FrontTechMask :: "lset option" where
  "LSET_FrontTechMask = LSET_of_list (map pcb_num [F_SilkS, F_Mask, F_Adhes, F_Paste, F_CrtYd, F_Fab])"

definition LSET_FrontBoardTechMask :: "lset option" where
  "LSET_FrontBoardTechMask = LSET_of_list (map pcb_num [F_SilkS, F_Mask, F_Adhes, F_Paste])"

definition LSET_AllTechMask :: "lset option" where
  "LSET_AllTechMask = do {
     back \<leftarrow> LSET_BackTechMask; front \<leftarrow> LSET_FrontTechMask; BASE_SET_or back front
   }"

definition LSET_AllBoardTechMask :: "lset option" where
  "LSET_AllBoardTechMask = do {
     back \<leftarrow> LSET_BackBoardTechMask; front \<leftarrow> LSET_FrontBoardTechMask; BASE_SET_or back front
   }"

definition LSET_UserMask :: "lset option" where
  "LSET_UserMask = LSET_of_list (map pcb_num
     [Dwgs_User, Cmts_User, Eco1_User, Eco2_User, Edge_Cuts, Margin])"

definition LSET_PhysicalLayersMask :: "lset option" where
  "LSET_PhysicalLayersMask = do {
     tech \<leftarrow> LSET_AllBoardTechMask; cu \<leftarrow> LSET_AllCuMask MAX_CU_LAYERS; BASE_SET_or tech cu
   }"

definition LSET_UserDefinedLayers :: "lset option" where
  "LSET_UserDefinedLayers = LSET_of_list (map pcb_num
     [User_1, User_2, User_3, User_4, User_5, User_6, User_7, User_8, User_9])"

definition LSET_FrontMask :: "lset option" where
  "LSET_FrontMask = do { tech \<leftarrow> LSET_FrontTechMask; LSET_set tech (pcb_num F_Cu) True }"

definition LSET_BackMask :: "lset option" where
  "LSET_BackMask = do { tech \<leftarrow> LSET_BackTechMask; LSET_set tech (pcb_num B_Cu) True }"

definition LSET_SideSpecificMask :: "lset option" where
  "LSET_SideSpecificMask = do {
     back \<leftarrow> LSET_BackTechMask; front \<leftarrow> LSET_FrontTechMask; tech \<leftarrow> BASE_SET_or back front;
     cu \<leftarrow> LSET_AllCuMask MAX_CU_LAYERS; BASE_SET_or tech cu
   }"

definition LSET_ForbiddenFootprintLayers :: "lset option" where
  "LSET_ForbiddenFootprintLayers = LSET_InternalCuMask"

section \<open>Flipping and extracting\<close>

text \<open>The tests of \<open>Flip\<close> in their order: when the first layer was set, the second one is.\<close>

definition LSET_Flip_tests :: "(PCB_LAYER_ID \<times> PCB_LAYER_ID) list" where
  "LSET_Flip_tests = [
     (B_Cu, F_Cu), (F_Cu, B_Cu), (B_SilkS, F_SilkS), (F_SilkS, B_SilkS),
     (B_Adhes, F_Adhes), (F_Adhes, B_Adhes), (B_Mask, F_Mask), (F_Mask, B_Mask),
     (B_Paste, F_Paste), (F_Paste, B_Paste), (B_Adhes, F_Adhes), (F_Adhes, B_Adhes),
     (B_CrtYd, F_CrtYd), (F_CrtYd, B_CrtYd), (B_Fab, F_Fab), (F_Fab, B_Fab)]"

definition LSET_Flip_test :: "lset \<Rightarrow> PCB_LAYER_ID \<times> PCB_LAYER_ID \<Rightarrow> lset \<Rightarrow> lset option" where
  "LSET_Flip_test oldMask lk s =
     (if LSET_test oldMask (pcb_num (fst lk)) then LSET_set s (pcb_num (snd lk)) True else Some s)"

definition LSET_Flip_inner :: "lset \<Rightarrow> int \<Rightarrow> int \<Rightarrow> lset \<Rightarrow> lset option" where
  "LSET_Flip_inner internalMask innerLayerCnt ii s = do {
     b \<leftarrow> BASE_SET_at internalMask (size_t_of (innerLayerCnt - ii));
     if b \<noteq> 0 then LSET_set s (ii + pcb_num In1_Cu) True
     else LSET_reset_layer s (ii + pcb_num In1_Cu)
   }"

definition LSET_Flip :: "lset \<Rightarrow> int \<Rightarrow> lset option" where
  "LSET_Flip oldMask aCopperLayersCount = do {
     s \<leftarrow> BASE_SET_reset oldMask SIZE_T_MAX;
     s \<leftarrow> fold_opt (LSET_Flip_test oldMask) LSET_Flip_tests s;
     if aCopperLayersCount \<ge> 4 then do {
       internal \<leftarrow> LSET_InternalCuMask;
       internalMask \<leftarrow> BASE_SET_and oldMask internal;
       let innerLayerCnt = aCopperLayersCount - 2;
       fold_opt (LSET_Flip_inner internalMask innerLayerCnt) [0..innerLayerCnt - 1] s
     } else Some s
   }"

text \<open>The loop of \<open>ExtractLayer\<close> returns the first set position; the assertion after it
  (\<^verbatim>\<open>wxASSERT( 0 )\<close>) only reports.\<close>

definition LSET_ExtractLayer :: "lset \<Rightarrow> int" where
  "LSET_ExtractLayer s =
     (let set_count = BASE_SET_count s in
      if set_count = 0 then pcb_num UNSELECTED_LAYER
      else if set_count > 1 then pcb_num UNDEFINED_LAYER
      else case find (BASE_SET_test s) [0..<length s] of
             Some i \<Rightarrow> int i
           | None \<Rightarrow> pcb_num UNDEFINED_LAYER)"

section \<open>The canonical form of a set of board layers\<close>

definition layer_mask :: "int set \<Rightarrow> lset" where
  "layer_mask A = map (\<lambda>i. if int i \<in> A then 1 else 0) [0..<60]"

named_theorems mask_simps \<open>operations on sets in canonical form\<close>
named_theorems mask_defs \<open>the constant sets\<close>

lemma length_mask [simp]: "length (layer_mask A) = 60"
  by (simp add: layer_mask_def)

lemma wf_bits_mask [simp]: "wf_bits (layer_mask A)"
  by (auto simp: layer_mask_def wf_bits_def)

lemma bits_of_mask: "bits_of (layer_mask A) = {i. i < 60 \<and> int i \<in> A}"
  by (auto simp: layer_mask_def split: if_splits)

lemma mask_eqI: "wf_bits s \<Longrightarrow> length s = 60 \<Longrightarrow> bits_of s = {i. i < 60 \<and> int i \<in> A} \<Longrightarrow> s = layer_mask A"
  by (rule wf_bits_ext) (simp_all add: bits_of_mask del: mem_bits_of)

lemma mask_eq_iff: "layer_mask A = layer_mask B \<longleftrightarrow> A \<inter> {0..<60} = B \<inter> {0..<60}"
proof
  assume "layer_mask A = layer_mask B"
  then have "bits_of (layer_mask A) = bits_of (layer_mask B)" by simp
  then have *: "i < 60 \<Longrightarrow> int i \<in> A \<longleftrightarrow> int i \<in> B" for i by (auto simp: bits_of_mask)
  have "x \<in> A \<longleftrightarrow> x \<in> B" if "0 \<le> x" "x < 60" for x
    using * [of "nat x"] that by simp
  then show "A \<inter> {0..<60} = B \<inter> {0..<60}" by auto
next
  assume *: "A \<inter> {0..<60} = B \<inter> {0..<60}"
  have "int i \<in> A \<longleftrightarrow> int i \<in> B" if "i < 60" for i
  proof -
    have "int i \<in> A \<inter> {0..<60} \<longleftrightarrow> int i \<in> B \<inter> {0..<60}" by (simp only: *)
    with that show ?thesis by simp
  qed
  then show "layer_mask A = layer_mask B" by (simp add: layer_mask_def)
qed

lemma mask_surj:
  assumes "wf_bits s" and "length s = 60"
  shows "s = layer_mask (int ` bits_of s)"
  by (rule mask_eqI) (use assms bits_of_bound [of s] in \<open>auto simp del: mem_bits_of\<close>)

lemma size_t_of_layer [simp]: "0 \<le> l \<Longrightarrow> l < 60 \<Longrightarrow> size_t_of l = nat l"
  by (simp add: size_t_of_nonneg)

lemma small_neq_SIZE_T_MAX [simp]: "n < 60 \<Longrightarrow> n \<noteq> SIZE_T_MAX"
  by (simp add: SIZE_T_MAX_def)

lemma LSET_empty_mask [mask_simps]: "LSET_empty = layer_mask {}"
  by (rule mask_eqI) (auto simp: LSET_empty_def bits_simps simp del: mem_bits_of)

lemma LSET_set_mask [mask_simps]:
  assumes "0 \<le> l" and "l < 60"
  shows "LSET_set (layer_mask A) l v = Some (layer_mask (if v then insert l A else A - {l}))"
proof -
  have l: "size_t_of l = nat l" "nat l < 60" "nat l \<noteq> SIZE_T_MAX" using assms by simp_all
  then have t: "LSET_set (layer_mask A) l v = Some ((layer_mask A)[nat l := (if v then 1 else 0)])"
    by (simp add: LSET_set_def BASE_SET_set_in)
  have "(layer_mask A)[nat l := (if v then 1 else 0)] = layer_mask (if v then insert l A else A - {l})"
    by (rule mask_eqI)
       (use assms in \<open>auto simp: bits_of_update bits_of_mask simp del: mem_bits_of intro: wf_intros\<close>)
  with t show ?thesis by simp
qed

lemma LSET_reset_mask [mask_simps]:
  "0 \<le> l \<Longrightarrow> l < 60 \<Longrightarrow> LSET_reset_layer (layer_mask A) l = Some (layer_mask (A - {l}))"
  using LSET_set_mask [of l A False] by (simp add: LSET_reset_layer_def LSET_set_def BASE_SET_reset_eq)

lemma BASE_SET_set_all_mask [mask_simps]: "BASE_SET_set (layer_mask A) SIZE_T_MAX v = Some (layer_mask (if v then UNIV else {}))"
  by (simp add: BASE_SET_set_all layer_mask_def map_replicate_const)

lemma BASE_SET_reset_all_mask [mask_simps]: "BASE_SET_reset (layer_mask A) SIZE_T_MAX = Some (layer_mask {})"
  by (simp add: BASE_SET_reset_eq mask_simps)

lemma LSET_test_mask [mask_simps]:
  assumes "is_int32 l"
  shows "LSET_test (layer_mask A) l \<longleftrightarrow> l \<in> A \<and> 0 \<le> l \<and> l < 60"
proof (cases "0 \<le> l")
  case True
  with assms show ?thesis
    by (auto simp: LSET_test_def BASE_SET_test_iff bits_of_mask size_t_of_nonneg is_int32_def
        simp del: mem_bits_of)
next
  case False
  have "size_t_of l = nat (l + 2 ^ 64)"
    by (rule size_t_of_neg) (use False assms in \<open>auto simp: is_int32_def\<close>)
  then have "\<not> size_t_of l < 60" using assms by (auto simp: is_int32_def nat_less_iff)
  with False show ?thesis
    by (auto simp: LSET_test_def BASE_SET_test_iff bits_of_mask simp del: mem_bits_of)
qed

lemma BASE_SET_test_mask [mask_simps]: "BASE_SET_test (layer_mask A) i \<longleftrightarrow> i < 60 \<and> int i \<in> A"
  by (simp add: BASE_SET_test_iff bits_of_mask del: mem_bits_of)

lemma BASE_SET_at_mask [mask_simps]:
  "i < 60 \<Longrightarrow> BASE_SET_at (layer_mask A) i = Some (if int i \<in> A then 1 else 0)"
  by (simp add: BASE_SET_at_def) (simp add: layer_mask_def)

lemma BASE_SET_and_mask [mask_simps]: "BASE_SET_and (layer_mask A) (layer_mask B) = Some (layer_mask (A \<inter> B))"
  by (rule BASE_SET_and_Some [of "layer_mask A" "layer_mask B"])
     (auto intro!: mask_eqI simp: bits_of_mask simp del: mem_bits_of)

lemma BASE_SET_or_mask [mask_simps]: "BASE_SET_or (layer_mask A) (layer_mask B) = Some (layer_mask (A \<union> B))"
  by (rule BASE_SET_or_Some [of "layer_mask A" "layer_mask B"])
     (auto intro!: mask_eqI simp: bits_of_mask simp del: mem_bits_of)

lemma BASE_SET_not_mask [mask_simps]: "BASE_SET_not (layer_mask A) = layer_mask (- A)"
  by (rule mask_eqI) (auto simp: bits_of_not bits_of_mask wf_bits_not simp del: mem_bits_of)

lemma fold_LSET_set_mask:
  "\<forall>l \<in> set ls. 0 \<le> l \<and> l < 60 \<Longrightarrow>
   fold_opt (\<lambda>layer s. LSET_set s layer True) ls (layer_mask A) = Some (layer_mask (set ls \<union> A))"
  by (induction ls arbitrary: A) (simp_all add: mask_simps Un_assoc)

lemma LSET_of_list_mask [mask_simps]:
  "\<forall>l \<in> set ls. 0 \<le> l \<and> l < 60 \<Longrightarrow> LSET_of_list ls = Some (layer_mask (set ls))"
  by (simp add: LSET_of_list_def LSET_empty_mask fold_LSET_set_mask)

lemma LSET_of_seq_mask [mask_simps]:
  "\<forall>l \<in> set ls. 0 \<le> l \<and> l < 60 \<Longrightarrow> LSET_of_seq ls = Some (layer_mask (set ls))"
  by (simp add: LSET_of_seq_def LSET_empty_mask fold_LSET_set_mask)

subsection \<open>The constant sets\<close>

lemma InternalCuMask_mask [mask_defs]: "LSET_InternalCuMask = Some (layer_mask {1..30})"
proof -
  have "LSET_InternalCuMask = LSET_of_list [1..30]"
    by (simp add: LSET_InternalCuMask_def upto_rec1)
  then show ?thesis by (simp add: mask_simps)
qed

lemma AllCuMask_loop_mask:
  assumes "int n \<le> e + 1" and "e < 60"
  shows "AllCuMask_loop e n (layer_mask A) = Some (layer_mask (A - {e - int n <.. e}))"
  using assms
proof (induction n arbitrary: e A)
  case 0
  then show ?case by simp
next
  case (Suc n)
  have "A - {e} - {e - 1 - int n <.. e - 1} = A - {e - int (Suc n) <.. e}" by auto
  with Suc.IH [of "e - 1" "A - {e}"] Suc.prems show ?case by (simp add: mask_simps)
qed

lemma AllCuMask_mask:
  assumes "is_int32 (32 - n)"
  shows "LSET_AllCuMask n = Some (layer_mask (if n = 32 then {0..31} else {0..max 0 (min 30 (n - 2))} \<union> {31}))"
proof -
  have all: "insert 31 (insert 0 {1..30}) = {0..31 :: int}" by auto
  have "nat (max 0 (min 30 (32 - n))) \<le> 31" by simp
  have "{0..31} - {30 - int (nat (max 0 (min 30 (32 - n)))) <.. 30} =
      {0..max 0 (min 30 (n - 2))} \<union> {31 :: int}" by (auto simp: max_def min_def)
  with assms show ?thesis
    by (simp add: LSET_AllCuMask_def InternalCuMask_mask mask_simps all AllCuMask_loop_mask MAX_CU_LAYERS_def)
qed

lemma AllCuMask_default [mask_defs]: "LSET_AllCuMask MAX_CU_LAYERS = Some (layer_mask {0..31})"
  using AllCuMask_mask [of 32] by (simp add: MAX_CU_LAYERS_def is_int32_def)

lemma tech_masks [mask_defs]:
  "LSET_FrontAssembly = Some (layer_mask {37, 39, 49, 47})"
  "LSET_BackAssembly = Some (layer_mask {36, 38, 48, 46})"
  "LSET_ExternalCuMask = Some (layer_mask {0, 31})"
  "LSET_BackTechMask = Some (layer_mask {36, 38, 32, 34, 46, 48})"
  "LSET_BackBoardTechMask = Some (layer_mask {36, 38, 32, 34})"
  "LSET_FrontTechMask = Some (layer_mask {37, 39, 33, 35, 47, 49})"
  "LSET_FrontBoardTechMask = Some (layer_mask {37, 39, 33, 35})"
  "LSET_UserMask = Some (layer_mask {40..45})"
  "LSET_UserDefinedLayers = Some (layer_mask {50..58})"
proof -
  have u: "{40..45} = {40, 41, 42, 43, 44, 45 :: int}" by auto
  have d: "{50..58} = {50, 51, 52, 53, 54, 55, 56, 57, 58 :: int}" by auto
  show "LSET_FrontAssembly = Some (layer_mask {37, 39, 49, 47})"
    "LSET_BackAssembly = Some (layer_mask {36, 38, 48, 46})"
    "LSET_ExternalCuMask = Some (layer_mask {0, 31})"
    "LSET_BackTechMask = Some (layer_mask {36, 38, 32, 34, 46, 48})"
    "LSET_BackBoardTechMask = Some (layer_mask {36, 38, 32, 34})"
    "LSET_FrontTechMask = Some (layer_mask {37, 39, 33, 35, 47, 49})"
    "LSET_FrontBoardTechMask = Some (layer_mask {37, 39, 33, 35})"
    "LSET_UserMask = Some (layer_mask {40..45})"
    "LSET_UserDefinedLayers = Some (layer_mask {50..58})"
    unfolding u d
    by (simp_all add: LSET_FrontAssembly_def LSET_BackAssembly_def LSET_ExternalCuMask_def
        LSET_BackTechMask_def LSET_BackBoardTechMask_def LSET_FrontTechMask_def
        LSET_FrontBoardTechMask_def LSET_UserMask_def LSET_UserDefinedLayers_def mask_simps)
qed

lemma combined_masks [mask_defs]:
  "LSET_AllLayersMask = Some (layer_mask UNIV)"
  "LSET_AllNonCuMask = Some (layer_mask (- {0..31}))"
  "LSET_AllTechMask = Some (layer_mask ({32..39} \<union> {46..49}))"
  "LSET_AllBoardTechMask = Some (layer_mask {32..39})"
  "LSET_PhysicalLayersMask = Some (layer_mask {0..39})"
  "LSET_FrontMask = Some (layer_mask {0, 37, 39, 33, 35, 47, 49})"
  "LSET_BackMask = Some (layer_mask {31, 36, 38, 32, 34, 46, 48})"
  "LSET_SideSpecificMask = Some (layer_mask ({0..39} \<union> {46..49}))"
  "LSET_ForbiddenFootprintLayers = Some (layer_mask {1..30})"
  by (simp_all add: LSET_AllLayersMask_def LSET_AllNonCuMask_def LSET_AllTechMask_def
      LSET_AllBoardTechMask_def LSET_PhysicalLayersMask_def LSET_FrontMask_def LSET_BackMask_def
      LSET_SideSpecificMask_def LSET_ForbiddenFootprintLayers_def mask_defs mask_simps)
    (rule arg_cong [where f = layer_mask]; auto)+

subsection \<open>Flipping\<close>

lemma involution_image:
  assumes "\<And>x. x \<in> A \<Longrightarrow> f x \<in> A" and "\<And>x. x \<in> A \<Longrightarrow> f (f x) = x"
  shows "f ` A = A"
  using assms by (force simp: image_iff)

text \<open>The layers \<open>Flip\<close> moves: the paired ones, and the inner ones of a board with four or more.\<close>

definition flips :: "int \<Rightarrow> int \<Rightarrow> bool" where
  "flips n l \<longleftrightarrow> IsFrontLayer l \<or> IsBackLayer l \<or> n \<ge> 4 \<and> pcb_num In1_Cu \<le> l \<and> l \<le> n - 2"

lemma flips_alt: "flips n l \<longleftrightarrow> l \<in> {0, 31} \<union> {32..39} \<union> {46..49} \<or> n \<ge> 4 \<and> 1 \<le> l \<and> l \<le> n - 2"
  by (auto simp: flips_def IsFrontLayer_def IsBackLayer_def)

lemma flips_FlipLayer: "n \<le> 32 \<Longrightarrow> flips n l \<Longrightarrow> flips n (FlipLayer l n)"
  by (auto simp: flips_alt FlipLayer_alt)

lemma flips_in_stackup: "flips n l \<Longrightarrow> in_stackup l n"
  by (auto simp: flips_alt in_stackup_def)

lemma flips_range: "n \<le> 32 \<Longrightarrow> flips n l \<Longrightarrow> 0 \<le> l \<and> l < 60"
  by (auto simp: flips_alt)

lemma FlipLayer_twice: "n \<le> 32 \<Longrightarrow> flips n l \<Longrightarrow> FlipLayer (FlipLayer l n) n = l"
  by (auto simp: flips_alt FlipLayer_alt)

lemma fold_Flip_test:
  "\<forall>(l, k) \<in> set ps. 0 \<le> pcb_num l \<and> pcb_num l < 60 \<and> 0 \<le> pcb_num k \<and> pcb_num k < 60 \<Longrightarrow>
   fold_opt (LSET_Flip_test (layer_mask A)) ps (layer_mask B)
    = Some (layer_mask (B \<union> {pcb_num k | l k. (l, k) \<in> set ps \<and> pcb_num l \<in> A}))"
proof (induction ps arbitrary: B)
  case Nil
  then show ?case by simp
next
  case (Cons p ps)
  obtain l k where p: "p = (l, k)" by fastforce
  have "is_int32 (pcb_num l)" using Cons.prems by (auto simp: p is_int32_def)
  then have "LSET_Flip_test (layer_mask A) p (layer_mask B)
      = Some (layer_mask (if pcb_num l \<in> A then insert (pcb_num k) B else B))"
    using Cons.prems by (auto simp: p LSET_Flip_test_def mask_simps)
  moreover have "(if pcb_num l \<in> A then insert (pcb_num k) B else B)
      \<union> {pcb_num k | l k. (l, k) \<in> set ps \<and> pcb_num l \<in> A}
    = B \<union> {pcb_num k | l k. (l, k) \<in> set (p # ps) \<and> pcb_num l \<in> A}"
    by (auto simp: p)
  ultimately show ?case using Cons.IH Cons.prems by simp
qed

lemma Flip_tests_FlipLayer:
  "\<forall>(l, k) \<in> set LSET_Flip_tests.
     pcb_num k = FlipLayer (pcb_num l) n \<and> pcb_num l \<in> {0, 31} \<union> {32..39} \<union> {46..49}"
  by (simp add: LSET_Flip_tests_def FlipLayer_alt)

lemma Flip_tests_dom: "pcb_num ` fst ` set LSET_Flip_tests = {0, 31} \<union> {32..39} \<union> {46..49}"
  by (auto simp: LSET_Flip_tests_def)

lemma Flip_tests_image:
  "{pcb_num k | l k. (l, k) \<in> set LSET_Flip_tests \<and> pcb_num l \<in> A}
    = (\<lambda>l. FlipLayer l n) ` (A \<inter> ({0, 31} \<union> {32..39} \<union> {46..49}))" (is "?L = ?R")
proof
  show "?L \<subseteq> ?R"
  proof
    fix x assume "x \<in> ?L"
    then obtain l k where lk: "(l, k) \<in> set LSET_Flip_tests" "pcb_num l \<in> A" "x = pcb_num k" by auto
    with Flip_tests_FlipLayer [of n] show "x \<in> ?R" by fastforce
  qed
  show "?R \<subseteq> ?L"
  proof
    fix x assume "x \<in> ?R"
    then obtain l where l: "l \<in> A" "l \<in> {0, 31} \<union> {32..39} \<union> {46..49}" "x = FlipLayer l n" by auto
    then have "l \<in> pcb_num ` fst ` set LSET_Flip_tests" by (simp only: Flip_tests_dom)
    then obtain l' k where lk: "(l', k) \<in> set LSET_Flip_tests" "pcb_num l' = l" by auto
    with l(3) bspec [OF Flip_tests_FlipLayer [of n] lk(1)] have "x = pcb_num k" by simp
    with lk l(1) show "x \<in> ?L" by blast
  qed
qed

lemma fold_Flip_inner:
  assumes "0 \<le> j" and "j \<le> c" and "c \<le> 30" and "M \<subseteq> {1..30}"
  shows "fold_opt (LSET_Flip_inner (layer_mask M) c) [0..j - 1] (layer_mask B)
    = Some (layer_mask (B - {1..j} \<union> {c + 1 - l | l. l \<in> M \<and> c + 1 - j \<le> l \<and> l \<le> c}))"
  using assms(1,2)
proof (induction j rule: int_ge_induct)
  case base
  have "{c + 1 - l | l. l \<in> M \<and> c + 1 \<le> l \<and> l \<le> c} = {}" by auto
  then show ?case by (simp del: Collect_empty_eq)
next
  case (step j)
  have at: "BASE_SET_at (layer_mask M) (size_t_of (c - j)) = Some (if c - j \<in> M then 1 else 0)"
    using step assms(3) by (simp add: mask_simps)
  have inner: "LSET_Flip_inner (layer_mask M) c j (layer_mask D)
      = Some (layer_mask (if c - j \<in> M then insert (j + 1) D else D - {j + 1}))" for D
    using step assms(3) by (simp add: LSET_Flip_inner_def at mask_simps)
  have "(if c - j \<in> M then insert (j + 1) D else D - {j + 1}) = B - {1..j + 1} \<union>
      {c + 1 - l | l. l \<in> M \<and> c + 1 - (j + 1) \<le> l \<and> l \<le> c}"
    if D: "D = B - {1..j} \<union> {c + 1 - l | l. l \<in> M \<and> c + 1 - j \<le> l \<and> l \<le> c}" for D
  proof -
    have e: "c + 1 - (j + 1) \<le> l \<longleftrightarrow> l = c - j \<or> c + 1 - j \<le> l" for l by auto
    have "{c + 1 - l | l. l \<in> M \<and> c + 1 - (j + 1) \<le> l \<and> l \<le> c}
      = (if c - j \<in> M then {j + 1} else {}) \<union> {c + 1 - l | l. l \<in> M \<and> c + 1 - j \<le> l \<and> l \<le> c}"
      unfolding e using step(1) by (auto intro: exI [of _ "c - j"])
    moreover have "{1..j + 1} = insert (j + 1) {1..j}" using step(1) by auto
    ultimately show ?thesis using step(1) by (auto simp: D)
  qed
  moreover have "[0..j + 1 - 1] = [0..j - 1] @ [j]" using step(1) by (simp add: upto_rec2)
  ultimately show ?case using step by (simp add: fold_opt_append inner)
qed

lemma Flip_mask:
  assumes "n \<le> 32"
  shows "LSET_Flip (layer_mask A) n = Some (layer_mask ((\<lambda>l. FlipLayer l n) ` (A \<inter> {l. flips n l})))"
proof -
  define P where "P = (\<lambda>l. FlipLayer l n) ` (A \<inter> ({0, 31} \<union> {32..39} \<union> {46..49}))"
  have "\<forall>(l, k) \<in> set LSET_Flip_tests. 0 \<le> pcb_num l \<and> pcb_num l < 60 \<and> 0 \<le> pcb_num k \<and> pcb_num k < 60"
    by (simp add: LSET_Flip_tests_def)
  then have tests: "fold_opt (LSET_Flip_test (layer_mask A)) LSET_Flip_tests (layer_mask {}) = Some (layer_mask P)"
    by (simp add: fold_Flip_test Flip_tests_image [of A n] P_def)
  show ?thesis
  proof (cases "4 \<le> n")
    case False
    then have "A \<inter> {l. flips n l} = A \<inter> ({0, 31} \<union> {32..39} \<union> {46..49})" by (auto simp: flips_alt)
    with False tests show ?thesis by (simp add: LSET_Flip_def mask_simps P_def)
  next
    case True
    have "P - {1..n - 2} \<union> {n - 2 + 1 - l | l. l \<in> A \<inter> {1..30} \<and> n - 2 + 1 - (n - 2) \<le> l \<and> l \<le> n - 2}
      = (\<lambda>l. FlipLayer l n) ` (A \<inter> {l. flips n l})" (is "?L \<union> ?M = ?R")
    proof -
      have p: "P \<inter> {1..n - 2} = {}" using assms by (auto simp: P_def FlipLayer_alt)
      have f: "A \<inter> {l. flips n l} = (A \<inter> ({0, 31} \<union> {32..39} \<union> {46..49})) \<union> (A \<inter> {1..n - 2})"
        using True by (auto simp: flips_alt)
      have m: "?M = (\<lambda>l. FlipLayer l n) ` (A \<inter> {1..n - 2})"
        using assms True by (auto simp: FlipLayer_alt image_iff Bex_def)
      show ?thesis using p m f by (simp add: P_def image_Un Diff_triv)
    qed
    with True assms tests show ?thesis
      using fold_Flip_inner [of "n - 2" "n - 2" "A \<inter> {1..30}" P]
      by (simp add: LSET_Flip_def mask_simps mask_defs Let_def)
  qed
qed

subsection \<open>Hexadecimal text\<close>

declare mem_bits_of [simp del]

lemma bit_FmtHex_nibble:
  "sorted bs \<Longrightarrow> bit (FmtHex_nibble s k bs v) j
    \<longleftrightarrow> bit v j \<or> j \<in> set bs \<and> j + k * 4 < length s \<and> s ! (j + k * 4) \<noteq> 0"
proof (induction bs arbitrary: v)
  case Nil
  then show ?case by simp
next
  case (Cons b bs)
  show ?case
  proof (cases "length s \<le> b + k * 4")
    case True
    with Cons.prems show ?thesis by auto
  next
    case False
    with Cons show ?thesis by (auto simp: bit_or_iff bit_exp_iff)
  qed
qed

definition nibble_value :: "lset \<Rightarrow> nat \<Rightarrow> nat" where
  "nibble_value s k = FmtHex_nibble s k [0..<4] 0"

lemma bit_nibble_value:
  "bit (nibble_value s k) j \<longleftrightarrow> j < 4 \<and> k * 4 + j < length s \<and> s ! (k * 4 + j) \<noteq> 0"
  by (auto simp: nibble_value_def bit_FmtHex_nibble add.commute)

lemma nibble_value_less: "nibble_value s k < 16"
proof -
  have "take_bit 4 (nibble_value s k) = nibble_value s k"
    by (rule bit_eqI) (auto simp: bit_take_bit_iff bit_nibble_value)
  then show ?thesis using take_bit_nat_eq_self_iff [of 4 "nibble_value s k"] by simp
qed

lemma ParseHex_digit_FmtHex:
  assumes "v < 16"
  shows "ParseHex_digit (FmtHex_digits ! v) = Some (int v)" and "FmtHex_digits ! v \<noteq> CHR ''_''"
proof -
  have "\<forall>v \<in> set [0..<16]. ParseHex_digit (FmtHex_digits ! v) = Some (int v) \<and> FmtHex_digits ! v \<noteq> CHR ''_''"
    by (simp add: upt_rec ParseHex_digit_def FmtHex_digits_def)
  with assms show "ParseHex_digit (FmtHex_digits ! v) = Some (int v)" "FmtHex_digits ! v \<noteq> CHR ''_''"
    by simp_all
qed

definition FmtHex_piece :: "lset \<Rightarrow> nat \<Rightarrow> string" where
  "FmtHex_piece s k = (if k \<noteq> 0 \<and> k mod 8 = 0 then ''_'' else []) @ [FmtHex_digits ! nibble_value s k]"

lemma fold_append_concat: "fold (\<lambda>k ret. ret @ f k) ks acc = acc @ concat (map f ks)"
  by (induction ks arbitrary: acc) simp_all

lemma rev_FmtHex: "rev (LSET_FmtHex s) = concat (map (FmtHex_piece s) [0..<(length s + 3) div 4])"
  using fold_append_concat [of "FmtHex_piece s" "[0..<(length s + 3) div 4]" "[]"]
  by (simp add: LSET_FmtHex_def FmtHex_piece_def nibble_value_def)

lemma ParseHex_bits_run:
  assumes "m \<le> 4" and "n \<le> VECTOR_INT_MAX_SIZE" and "wf_bits t"
  shows "\<exists>u. ParseHex_bits (int n) v [m..<4] (int (b + m)) t = Some (int (max (b + m) (min n (b + 4))), u) \<and> wf_bits u \<and>
    bits_of u = bits_of t \<union> {b + j | j. m \<le> j \<and> j < 4 \<and> b + j < n \<and> bit v j}"
  using assms(1,3)
proof (induction "4 - m" arbitrary: m t)
  case 0
  then show ?case by auto
next
  case (Suc d)
  have upt: "[m..<4] = m # [Suc m..<4]" using Suc.hyps(2) by (simp add: upt_conv_Cons)
  show ?case
  proof (cases "b + m < n")
    case False
    then show ?thesis using Suc.prems by (auto simp: upt)
  next
    case True
    have pos: "size_t_of (int (b + m)) = b + m"
      by (rule size_t_of_of_nat) (use True assms(2) in \<open>simp add: VECTOR_INT_MAX_SIZE_def\<close>)
    obtain t' where t': "(if bit v m then BASE_SET_set t (size_t_of (int (b + m))) True else Some t) = Some t'" "wf_bits t'"
      "bits_of t' = bits_of t \<union> (if bit v m then {b + m} else {})"
    proof (cases "bit v m")
      case False
      then show ?thesis using that [of t] Suc.prems(2) by simp
    next
      case bit: True
      have ne: "b + m \<noteq> SIZE_T_MAX" "b + m < VECTOR_INT_MAX_SIZE"
        using True assms(2) by (simp_all add: SIZE_T_MAX_def VECTOR_INT_MAX_SIZE_def)
      then have "BASE_SET_grow t (b + m) \<noteq> None" by (auto simp: BASE_SET_grow_eq_None)
      then obtain t' where "BASE_SET_set t (b + m) True = Some t'" using ne by (auto simp: BASE_SET_set_def)
      with bit BASE_SET_set_Some [OF this ne(1)] Suc.prems(2) show ?thesis
        using that [of t'] unfolding pos by simp
    qed
    from Suc.hyps(1) [of "Suc m" t'] Suc.hyps(2) Suc.prems(1) t'(2) obtain u where
      u: "ParseHex_bits (int n) v [Suc m..<4] (int (b + Suc m)) t' = Some (int (max (b + Suc m) (min n (b + 4))), u)"
        "wf_bits u" "bits_of u = bits_of t' \<union> {b + j | j. Suc m \<le> j \<and> j < 4 \<and> b + j < n \<and> bit v j}"
      by fastforce
    have "max (b + Suc m) (min n (b + 4)) = max (b + m) (min n (b + 4))"
      using True Suc.hyps(2) by simp
    moreover have "bits_of u = bits_of t \<union> {b + j | j. m \<le> j \<and> j < 4 \<and> b + j < n \<and> bit v j}"
    proof -
      have "m \<le> j \<and> j < 4 \<and> b + j < n \<and> bit v j
          \<longleftrightarrow> j = m \<and> bit v m \<or> Suc m \<le> j \<and> j < 4 \<and> b + j < n \<and> bit v j" for j
        using True Suc.hyps(2) by (auto simp: le_eq_less_or_eq)
      then have "{b + j | j. m \<le> j \<and> j < 4 \<and> b + j < n \<and> bit v j}
          = (if bit v m then {b + m} else {}) \<union> {b + j | j. Suc m \<le> j \<and> j < 4 \<and> b + j < n \<and> bit v j}"
        by auto
      with u(3) t'(3) show ?thesis by (simp add: Un_assoc)
    qed
    moreover have next_pos: "int (b + m) + 1 = int (b + Suc m)" by simp
    moreover have "int (b + m) < int n" using True by simp
    ultimately show ?thesis using t'(1) u(1,2) unfolding upt ParseHex_bits.simps next_pos by (simp del: of_nat_add)
  qed
qed

lemma ParseHex_loop_piece:
  assumes "length s \<le> VECTOR_INT_MAX_SIZE" and "4 * k < length s" and "wf_bits s" and "wf_bits t"
  shows "\<exists>u. wf_bits u \<and> bits_of u = bits_of t \<union> {i \<in> bits_of s. 4 * k \<le> i \<and> i < 4 * k + 4} \<and>
    ParseHex_loop (int (length s)) (FmtHex_piece s k @ rest) (int k) t c
      = (if length s \<le> 4 * k + 4 then Some (u, c + length (FmtHex_piece s k))
         else ParseHex_loop (int (length s)) rest (int k + 1) u (c + length (FmtHex_piece s k)))"
proof -
  from ParseHex_bits_run [of 0 "length s" t "int (nibble_value s k)" "4 * k"] assms(1,4)
  obtain u where u: "ParseHex_bits (int (length s)) (int (nibble_value s k)) [0..<4] (int (4 * k)) t
      = Some (int (max (4 * k) (min (length s) (4 * k + 4))), u)" "wf_bits u"
    "bits_of u = bits_of t \<union> {4 * k + j | j. j < 4 \<and> 4 * k + j < length s \<and> bit (int (nibble_value s k)) j}"
    by auto
  have "{4 * k + j | j. j < 4 \<and> 4 * k + j < length s \<and> bit (int (nibble_value s k)) j}
      = {i \<in> bits_of s. 4 * k \<le> i \<and> i < 4 * k + 4}" (is "?L = ?R")
  proof -
    have "j < 4 \<and> 4 * k + j < length s \<and> bit (int (nibble_value s k)) j \<longleftrightarrow> j < 4 \<and> 4 * k + j \<in> bits_of s" for j
      using wf_bits_nth [OF assms(3), of "4 * k + j"]
      by (auto simp: bits_of_alt bit_of_nat_iff_bit bit_nibble_value mult.commute)
    then have "?L = {4 * k + j | j. j < 4 \<and> 4 * k + j \<in> bits_of s}" by simp
    also have "\<dots> = ?R"
      by auto (metis add.commute add_less_cancel_left le_Suc_ex)
    finally show ?thesis .
  qed
  with u(3) have "bits_of u = bits_of t \<union> {i \<in> bits_of s. 4 * k \<le> i \<and> i < 4 * k + 4}" by simp
  moreover note ParseHex_digit_FmtHex [OF nibble_value_less [of s k]]
  ultimately show ?thesis
    using u(1,2) assms(2) by (intro exI [of _ u]) (auto simp: FmtHex_piece_def mult.commute)
qed

lemma ParseHex_loop_run:
  assumes "length s \<le> VECTOR_INT_MAX_SIZE" and "wf_bits s" and "nc = (length s + 3) div 4"
    and "k \<le> nc" and "wf_bits t"
  shows "\<exists>u. ParseHex_loop (int (length s)) (concat (map (FmtHex_piece s) [k..<nc])) (int k) t c
      = Some (u, c + length (concat (map (FmtHex_piece s) [k..<nc]))) \<and> wf_bits u \<and>
    bits_of u = bits_of t \<union> {i \<in> bits_of s. 4 * k \<le> i}"
  using assms(4,5)
proof (induction "nc - k" arbitrary: k t c)
  case 0
  then have "k = nc" by simp
  then have "{i \<in> bits_of s. 4 * k \<le> i} = {}" using assms(3) by (auto simp: bits_of_alt)
  with 0 \<open>k = nc\<close> show ?case by (simp only: upt_conv_Nil) simp
next
  case (Suc d)
  then have k: "4 * k < length s" "[k..<nc] = k # [Suc k..<nc]" using assms(3) by (auto simp: upt_conv_Cons)
  define piece rest where "piece = FmtHex_piece s k" and "rest = concat (map (FmtHex_piece s) [Suc k..<nc])"
  from ParseHex_loop_piece [OF assms(1) k(1) assms(2) Suc.prems(2)] obtain u where
    u: "wf_bits u" "bits_of u = bits_of t \<union> {i \<in> bits_of s. 4 * k \<le> i \<and> i < 4 * k + 4}"
      "ParseHex_loop (int (length s)) (piece @ rest) (int k) t c
      = (if length s \<le> 4 * k + 4 then Some (u, c + length piece)
         else ParseHex_loop (int (length s)) rest (int k + 1) u (c + length piece))"
    unfolding piece_def by blast
  have split: "concat (map (FmtHex_piece s) [k..<nc]) = piece @ rest" by (simp add: k(2) piece_def rest_def)
  show ?case
  proof (cases "length s \<le> 4 * k + 4")
    case True
    then have "nc = Suc k" using k(1) assms(3) by simp
    then have "rest = []" by (simp add: rest_def)
    moreover have "{i \<in> bits_of s. 4 * k \<le> i \<and> i < 4 * k + 4} = {i \<in> bits_of s. 4 * k \<le> i}"
      using True by (auto simp: bits_of_alt)
    ultimately show ?thesis using u True by (simp add: split)
  next
    case False
    have k1: "int (Suc k) = int k + 1" by simp
    have "d = nc - Suc k" "Suc k \<le> nc" using Suc.hyps(2) by simp_all
    from Suc.hyps(1) [OF this u(1), of "c + length piece"] obtain w where
      w: "ParseHex_loop (int (length s)) rest (int k + 1) u (c + length piece)
          = Some (w, c + length piece + length rest)" "wf_bits w"
        "bits_of w = bits_of u \<union> {i \<in> bits_of s. 4 * Suc k \<le> i}"
      unfolding rest_def k1 by auto
    have "{i \<in> bits_of s. 4 * k \<le> i}
        = {i \<in> bits_of s. 4 * k \<le> i \<and> i < 4 * k + 4} \<union> {i \<in> bits_of s. 4 * Suc k \<le> i}"
      by auto
    with w(3) u(2) have "bits_of w = bits_of t \<union> {i \<in> bits_of s. 4 * k \<le> i}"
      by (simp only: Un_assoc)
    with u(3) False w(1,2) show ?thesis by (simp add: split)
  qed
qed

lemma length_FmtHex:
  assumes "length s < 2 ^ 31"
  shows "length (LSET_FmtHex s) < 2 ^ 31"
proof -
  let ?nc = "(length s + 3) div 4"
  have "length (concat (map (FmtHex_piece s) ks)) \<le> 2 * length ks" for ks
    by (induction ks) (auto simp: FmtHex_piece_def)
  from this [of "[0..<?nc]"] have "length (LSET_FmtHex s) \<le> 2 * ?nc"
    using arg_cong [OF rev_FmtHex [of s], of length] by simp
  then show ?thesis using assms by simp
qed

subsection \<open>Sequences\<close>

lemma fold_if_filter: "fold (\<lambda>i w. if P i then f (int i) w else w) is w = fold f (map int (filter P is)) w"
  by (induction "is" arbitrary: w) simp_all

lemma set_LSET_Seq: "set (LSET_Seq s) = int ` bits_of s"
  using bits_of_bound [of s] by (auto simp: LSET_Seq_def BASE_SET_test_iff)

lemma sorted_LSET_Seq: "sorted (LSET_Seq s)" and distinct_LSET_Seq: "distinct (LSET_Seq s)"
proof -
  show "sorted (LSET_Seq s)"
    by (simp add: LSET_Seq_def sorted_map) (rule sorted_wrt_filter, simp add: sorted_wrt_iff_nth_less)
  show "distinct (LSET_Seq s)" by (simp add: LSET_Seq_def distinct_map)
qed

lemma set_LSET_Seq_mask: "set (LSET_Seq (layer_mask A)) = A \<inter> {0..<60}"
proof -
  have "x \<in> int ` {i. i < 60 \<and> int i \<in> A}" if "x \<in> A" "0 \<le> x" "x < 60" for x
    by (rule image_eqI [of _ _ "nat x"]) (use that in simp_all)
  then show ?thesis by (auto simp: set_LSET_Seq bits_of_mask)
qed

text \<open>Each of the full sequences names every board layer but \<open>Rescue\<close> once.\<close>

definition full_sequence :: "lseq \<Rightarrow> bool" where
  "full_sequence q \<longleftrightarrow> distinct q \<and> set q = {0..<59}"

lemma full_sequence_card:
  assumes "distinct q" and "list_all (\<lambda>l. 0 \<le> l \<and> l < 59) q" and "length q = 59"
  shows "full_sequence q"
proof -
  have "set q \<subseteq> {0..<59}" using assms(2) by (auto simp: list_all_iff)
  moreover have "card (set q) = 59" using assms(1,3) by (simp add: distinct_card)
  ultimately have "set q = {0..<59}" by (intro card_subset_eq) simp_all
  with assms(1) show ?thesis by (simp add: full_sequence_def)
qed

lemma full_sequences:
  "full_sequence SeqStackupTop2Bottom_sequence"
  "full_sequence SeqStackupForPlotting_sequence"
  "full_sequence (CuStack_sequence @ TechAndUserUIOrder_sequence)"
  by (rule full_sequence_card;
      simp add: SeqStackupTop2Bottom_sequence_def SeqStackupForPlotting_sequence_def
        CuStack_sequence_def TechAndUserUIOrder_sequence_def)+

lemma filter_full_sequence:
  assumes "full_sequence q"
  shows "distinct (LSET_Seq_wish (layer_mask A) q)"
    and "set (LSET_Seq_wish (layer_mask A) q) = A \<inter> {0..<59}"
proof -
  show "distinct (LSET_Seq_wish (layer_mask A) q)"
    using assms by (simp add: LSET_Seq_wish_def full_sequence_def)
  have "LSET_test (layer_mask A) l \<longleftrightarrow> l \<in> A" if "l \<in> {0..<59}" for l
    using that by (simp add: LSET_test_mask is_int32_def)
  then show "set (LSET_Seq_wish (layer_mask A) q) = A \<inter> {0..<59}"
    using assms by (auto simp: LSET_Seq_wish_def full_sequence_def)
qed

lemma UIOrder_wish:
  "LSET_UIOrder s = LSET_Seq_wish s (CuStack_sequence @ TechAndUserUIOrder_sequence)"
  by (simp add: LSET_UIOrder_def LSET_CuStack_def LSET_TechAndUserUIOrder_def LSET_Seq_wish_def)

lemma insert_set_remove1: "x \<in> set xs \<Longrightarrow> insert x (set (remove1 x xs)) = set xs"
  by (induction xs) auto

lemma Top2Bottom_perm:
  "set (LSET_SeqStackupTop2Bottom s l) = set (LSET_Seq_wish s SeqStackupTop2Bottom_sequence)"
  "distinct (LSET_Seq_wish s SeqStackupTop2Bottom_sequence) \<Longrightarrow> distinct (LSET_SeqStackupTop2Bottom s l)"
  by (simp_all add: LSET_SeqStackupTop2Bottom_def Let_def insert_set_remove1)

lemma bits_of_mask_count: "BASE_SET_count (layer_mask A) = card (A \<inter> {0..<60})"
proof -
  have "BASE_SET_count (layer_mask A) = card (bits_of (layer_mask A))"
    by (simp add: BASE_SET_count_def bits_of_alt length_filter_conv_card)
  also have "\<dots> = card (int ` bits_of (layer_mask A))" by (simp add: card_image)
  finally show ?thesis using set_LSET_Seq_mask [of A] by (simp add: set_LSET_Seq)
qed

section \<open>Properties\<close>

text \<open>
  C22. Round trip: \<open>ParseHex\<close> reads back every set of fewer than \<open>2 ^ 31\<close> bits that \<open>FmtHex\<close> printed
  into any set of that size, and consumes the whole text, whose length is an \<^verbatim>\<open>int\<close>. From \<open>2 ^ 31\<close> bits
  on \<open>ParseHex\<close> takes the size for a negative number and reads nothing (\<open>ParseHex_size_wraps\<close>).
\<close>

theorem FmtHex_ParseHex:
  assumes "wf_bits s" and "wf_bits t" and "length t = length s" and "length s < 2 ^ 31"
  shows "length (LSET_FmtHex s) < 2 ^ 31 \<and>
    (\<exists>u. LSET_ParseHex t (LSET_FmtHex s) = Some (u, length (LSET_FmtHex s)) \<and> BASE_SET_eq u s)"
proof (intro conjI length_FmtHex [OF assms(4)])
  have max: "length s \<le> VECTOR_INT_MAX_SIZE" using assms(4) by (simp add: VECTOR_INT_MAX_SIZE_def)
  have size: "int32_of (int (length t)) = int (length s)" using assms(3,4) by (simp add: int32_of_id is_int32_def)
  let ?nc = "(length s + 3) div 4"
  have e: "wf_bits LSET_empty" "bits_of LSET_empty = {}" by (simp_all add: LSET_empty_def)
  from ParseHex_loop_run [OF max assms(1) refl le0 e(1), of 0] obtain u where
    u: "ParseHex_loop (int (length s)) (rev (LSET_FmtHex s)) 0 LSET_empty 0 = Some (u, length (rev (LSET_FmtHex s)))"
      "wf_bits u" "bits_of u = bits_of s"
    unfolding rev_FmtHex e by auto
  show "\<exists>u. LSET_ParseHex t (LSET_FmtHex s) = Some (u, length (LSET_FmtHex s)) \<and> BASE_SET_eq u s"
  proof (cases "LSET_FmtHex s = []")
    case True
    then have "?nc = 0" using rev_FmtHex [of s] by (auto simp: FmtHex_piece_def)
    then have "length s = 0" by linarith
    then have "s = []" "t = []" using assms(3) by simp_all
    then show ?thesis using u(1) True by (simp add: LSET_ParseHex_def BASE_SET_eq_def int32_of_def)
  next
    case False
    with u assms(1) show ?thesis
      unfolding LSET_ParseHex_def size by (simp add: BASE_SET_eq_bits)
  qed
qed

theorem FmtHex_ParseHex_witness:
  "\<exists>u. LSET_ParseHex (BASE_SET 3) (LSET_FmtHex [0, 1, 1]) = Some (u, length (LSET_FmtHex [0, 1, 1])) \<and>
     BASE_SET_eq u [0, 1, 1]"
  by (rule FmtHex_ParseHex [THEN conjunct2]) (simp_all add: wf_bits_def BASE_SET_def)

text \<open>A size that wraps to a negative number: the loop stops at the first digit.\<close>

lemma ParseHex_size_wraps:
  assumes "int32_of (int (length s)) < 0" and "ParseHex_digit c \<noteq> None" and "c \<noteq> CHR ''_''"
  shows "LSET_ParseHex s (xs @ [c]) = Some (LSET_empty, 1)"
  using assms by (auto simp: LSET_ParseHex_def upt_rec)

text \<open>
  Text that does not end in a hexadecimal digit: the parse stops at once, yet the set is
  cleared and the offending character counted as consumed.
\<close>

lemma ParseHex_bad_char:
  assumes "ParseHex_digit c = None" and "c \<noteq> CHR ''_''"
  shows "LSET_ParseHex s (xs @ [c]) = Some (LSET_empty, 1)"
  using assms by (simp add: LSET_ParseHex_def)

lemma ParseHex_bad_char_witness:
  "LSET_ParseHex (layer_mask {3}) (''ff'' @ ''.'') = Some (LSET_empty, 1)"
  by (rule ParseHex_bad_char) (simp_all add: ParseHex_digit_def)

text \<open>
  C23. Flipping a set of layers moves every paired layer and, on boards with four or more
  copper layers, every inner layer of the stackup to where \<open>FlipLayer\<close> moves it, and keeps no
  other member: a layer that \<open>FlipLayer\<close> leaves in place, such as an outline or a user layer, or
  an inner layer when there are fewer than four, is lost.
\<close>

theorem LSET_Flip_spec:
  assumes "wf_bits s" and "length s = 60" and "n \<le> 32"
  shows "\<exists>t. LSET_Flip s n = Some t \<and> wf_bits t \<and> length t = 60 \<and>
    set (LSET_Seq t) = (\<lambda>l. FlipLayer l n) ` {l \<in> set (LSET_Seq s). flips n l}"
proof -
  define A where "A = int ` bits_of s"
  have s: "s = layer_mask A" unfolding A_def by (rule mask_surj) fact+
  have "(\<lambda>l. FlipLayer l n) ` (A \<inter> {l. flips n l}) \<inter> {0..<60}
      = (\<lambda>l. FlipLayer l n) ` {l \<in> A \<inter> {0..<60}. flips n l}"
    using flips_range [OF assms(3)] flips_FlipLayer [OF assms(3)] by auto
  then show ?thesis by (simp add: s Flip_mask [OF assms(3)] set_LSET_Seq_mask)
qed

theorem LSET_Flip_spec_witness:
  "\<exists>t. LSET_Flip (layer_mask {0, 2, 44}) 6 = Some t \<and> wf_bits t \<and> length t = 60 \<and>
    set (LSET_Seq t) = (\<lambda>l. FlipLayer l 6) ` {l \<in> set (LSET_Seq (layer_mask {0, 2, 44})). flips 6 l}"
  by (rule LSET_Flip_spec) simp_all

text \<open>
  Flipping twice restores exactly the members that take part in a flip.
\<close>

theorem LSET_Flip_twice:
  assumes "wf_bits s" and "length s = 60" and "n \<le> 32"
  shows "map_option LSET_Seq (Option.bind (LSET_Flip s n) (\<lambda>t. LSET_Flip t n))
    = Some (filter (flips n) (LSET_Seq s))"
proof -
  define A where "A = int ` bits_of s"
  have s: "s = layer_mask A" unfolding A_def by (rule mask_surj) fact+
  let ?F = "\<lambda>l. FlipLayer l n"
  have "?F ` (?F ` (A \<inter> {l. flips n l}) \<inter> {l. flips n l}) = A \<inter> {l. flips n l}"
    using flips_FlipLayer [OF assms(3)] FlipLayer_twice [OF assms(3)] by (force simp: image_iff)
  moreover have "LSET_Seq (layer_mask (A \<inter> {l. flips n l})) = filter (flips n) (LSET_Seq (layer_mask A))"
    by (simp add: LSET_Seq_def filter_map o_def) (rule filter_cong; auto simp: BASE_SET_test_mask)
  ultimately show ?thesis by (simp add: s Flip_mask [OF assms(3)])
qed

theorem LSET_Flip_twice_witness:
  "map_option LSET_Seq (Option.bind (LSET_Flip (layer_mask {0, 2, 44}) 6) (\<lambda>t. LSET_Flip t 6))
    = Some (filter (flips 6) (LSET_Seq (layer_mask {0, 2, 44})))"
  by (rule LSET_Flip_twice) simp_all

text \<open>
  The constant sets match the flip: it exchanges the front and back masks and maps the
  copper layers of a board onto themselves.
\<close>

theorem LSET_masks_flip:
  assumes "n = 2 \<or> 4 \<le> n \<and> n \<le> 32"
  shows "Option.bind LSET_FrontMask (\<lambda>s. LSET_Flip s n) = LSET_BackMask \<and>
    Option.bind LSET_BackMask (\<lambda>s. LSET_Flip s n) = LSET_FrontMask \<and>
    Option.bind LSET_FrontAssembly (\<lambda>s. LSET_Flip s n) = LSET_BackAssembly \<and>
    Option.bind LSET_FrontBoardTechMask (\<lambda>s. LSET_Flip s n) = LSET_BackBoardTechMask \<and>
    Option.bind (LSET_AllCuMask n) (\<lambda>s. LSET_Flip s n) = LSET_AllCuMask n"
proof -
  have n: "n \<le> 32" using assms by auto
  have F: "Option.bind (Some (layer_mask A)) (\<lambda>s. LSET_Flip s n) = Some (layer_mask B)"
    if "\<forall>l \<in> A. flips n l" and "(\<lambda>l. FlipLayer l n) ` A = B" for A B
  proof -
    have "A \<inter> {l. flips n l} = A" using that(1) by auto
    with that(2) show ?thesis by (simp add: Flip_mask [OF n])
  qed
  have cu: "LSET_AllCuMask n = Some (layer_mask ({0..n - 2} \<union> {31}))"
    using assms by (auto simp: AllCuMask_mask is_int32_def max_def min_def
        intro!: arg_cong [where f = layer_mask])
  have fcu: "\<forall>l \<in> {0..n - 2} \<union> {31}. flips n l" using assms by (auto simp: flips_alt)
  moreover have "(\<lambda>l. FlipLayer l n) ` ({0..n - 2} \<union> {31}) = {0..n - 2} \<union> {31}"
  proof (rule involution_image)
    show "FlipLayer l n \<in> {0..n - 2} \<union> {31}" if "l \<in> {0..n - 2} \<union> {31}" for l
      using assms that by (auto simp: FlipLayer_alt)
    show "FlipLayer (FlipLayer l n) n = l" if "l \<in> {0..n - 2} \<union> {31}" for l
      using FlipLayer_twice [OF n] fcu that by blast
  qed
  ultimately have "Option.bind (LSET_AllCuMask n) (\<lambda>s. LSET_Flip s n) = LSET_AllCuMask n"
    unfolding cu by (rule F)
  moreover have "Option.bind LSET_FrontMask (\<lambda>s. LSET_Flip s n) = LSET_BackMask"
    "Option.bind LSET_BackMask (\<lambda>s. LSET_Flip s n) = LSET_FrontMask"
    "Option.bind LSET_FrontAssembly (\<lambda>s. LSET_Flip s n) = LSET_BackAssembly"
    "Option.bind LSET_FrontBoardTechMask (\<lambda>s. LSET_Flip s n) = LSET_BackBoardTechMask"
    unfolding mask_defs by (rule F; auto simp: flips_alt FlipLayer_alt)+
  ultimately show ?thesis by blast
qed

theorem LSET_masks_flip_witness:
  "Option.bind LSET_FrontMask (\<lambda>s. LSET_Flip s 6) = LSET_BackMask \<and>
    Option.bind LSET_BackMask (\<lambda>s. LSET_Flip s 6) = LSET_FrontMask \<and>
    Option.bind LSET_FrontAssembly (\<lambda>s. LSET_Flip s 6) = LSET_BackAssembly \<and>
    Option.bind LSET_FrontBoardTechMask (\<lambda>s. LSET_Flip s 6) = LSET_BackBoardTechMask \<and>
    Option.bind (LSET_AllCuMask 6) (\<lambda>s. LSET_Flip s 6) = LSET_AllCuMask 6"
  by (rule LSET_masks_flip) simp

text \<open>
  \<open>AllCuMask\<close> has the requested number of layers, clamped to the range 2 to 32: the outer two
  and the inner ones from the front.
\<close>

lemma AllCuMask_count:
  assumes "is_int32 (32 - n)"
  shows "map_option BASE_SET_count (LSET_AllCuMask n) = Some (nat (max 2 (min 32 n))) \<and>
    map_option (\<lambda>s. set (LSET_Seq s)) (LSET_AllCuMask n) = Some ({0..<max 1 (min 31 (n - 1))} \<union> {pcb_num B_Cu})"
proof -
  define k where "k = max 1 (min 31 (n - 1))"
  have k: "1 \<le> k" "k \<le> 31" by (auto simp: k_def)
  have "(if n = 32 then {0..31} else {0..max 0 (min 30 (n - 2))} \<union> {31}) = {0..<k} \<union> {31 :: int}"
    by (auto simp: k_def)
  then have m: "LSET_AllCuMask n = Some (layer_mask ({0..<k} \<union> {31}))"
    by (simp add: AllCuMask_mask [OF assms])
  have r: "({0..<k} \<union> {31}) \<inter> {0..<60} = insert 31 {0..<k}" using k by auto
  have "card (insert 31 {0..<k}) = Suc (nat k)" using k by (subst card_insert_disjoint) auto
  moreover have "Suc (nat k) = nat (max 2 (min 32 n))" by (auto simp: k_def)
  ultimately show ?thesis unfolding m k_def [symmetric]
    by (simp only: option.map bits_of_mask_count set_LSET_Seq_mask r) simp
qed

lemma AllCuMask_count_witness:
  "map_option BASE_SET_count (LSET_AllCuMask 4) = Some (nat (max 2 (min 32 4))) \<and>
    map_option (\<lambda>s. set (LSET_Seq s)) (LSET_AllCuMask 4) = Some ({0..<max 1 (min 31 (4 - 1))} \<union> {pcb_num B_Cu})"
  by (rule AllCuMask_count) (simp add: is_int32_def)

text \<open>
  C27. A set built from a sequence enumerates to the sequence sorted and without repetitions,
  \<open>RunOnLayers\<close> visits its members in that order, and every set of board layers is rebuilt from
  its enumeration.
\<close>

theorem LSET_Seq_enumerates:
  assumes "\<forall>l \<in> set q. IsPcbLayer l" and "wf_bits t" and "length t = 60"
  shows "map_option LSET_Seq (LSET_of_seq q) = Some (sorted_list_of_set (set q)) \<and>
    LSET_of_seq (LSET_Seq t) = Some t \<and>
    LSET_RunOnLayers t f w = fold f (LSET_Seq t) w"
proof -
  have q: "\<forall>l \<in> set q. 0 \<le> l \<and> l < 60" using assms(1) by (simp add: IsPcbLayer_def)
  have "LSET_Seq (layer_mask (set q)) = sorted_list_of_set (set q)"
  proof (rule sorted_distinct_set_unique)
    show "set (LSET_Seq (layer_mask (set q))) = set (sorted_list_of_set (set q))"
      using q by (auto simp: set_LSET_Seq_mask)
  qed (simp_all add: sorted_LSET_Seq distinct_LSET_Seq)
  moreover have "LSET_of_seq (LSET_Seq t) = Some t"
  proof -
    have t: "t = layer_mask (int ` bits_of t)" by (rule mask_surj) fact+
    have "\<forall>l \<in> set (LSET_Seq t). 0 \<le> l \<and> l < 60"
      using bits_of_bound [of t] assms(3) by (auto simp: set_LSET_Seq)
    then show ?thesis using t by (simp add: LSET_of_seq_mask set_LSET_Seq)
  qed
  moreover have "LSET_RunOnLayers t f w = fold f (LSET_Seq t) w"
    by (simp add: LSET_RunOnLayers_def LSET_Seq_def fold_if_filter)
  ultimately show ?thesis using q by (simp add: LSET_of_seq_mask)
qed

theorem LSET_Seq_enumerates_witness:
  "map_option LSET_Seq (LSET_of_seq [31, 0, 31]) = Some (sorted_list_of_set (set [31, 0, 31])) \<and>
    LSET_of_seq (LSET_Seq (layer_mask {3, 5})) = Some (layer_mask {3, 5}) \<and>
    LSET_RunOnLayers (layer_mask {3, 5}) (#) [] = fold (#) (LSET_Seq (layer_mask {3, 5})) []"
  by (rule LSET_Seq_enumerates) (simp_all add: IsPcbLayer_def)

text \<open>
  C28. The stack-up, plotting and user-interface orders list every member but \<open>Rescue\<close>, each once,
  and the stack-up order starts with the selected layer when that is a member.
\<close>

theorem LSET_orders_complete:
  assumes "wf_bits s" and "length s = 60"
  shows "(\<forall>q \<in> {LSET_SeqStackupTop2Bottom s l, LSET_SeqStackupForPlotting s, LSET_UIOrder s}.
      distinct q \<and> set q = set (LSET_Seq s) - {pcb_num Rescue}) \<and>
    (l \<in> set (LSET_Seq s) - {pcb_num Rescue} \<longrightarrow> hd (LSET_SeqStackupTop2Bottom s l) = l)"
proof -
  define A where "A = int ` bits_of s"
  have s: "s = layer_mask A" unfolding A_def by (rule mask_surj) fact+
  note [simp] = full_sequences [THEN filter_full_sequence(1)] full_sequences [THEN filter_full_sequence(2)]
  have e: "A \<inter> {0..<60} - {59} = A \<inter> {0..<59}" by auto
  have "\<forall>q \<in> {LSET_SeqStackupTop2Bottom s l, LSET_SeqStackupForPlotting s, LSET_UIOrder s}.
      distinct q \<and> set q = set (LSET_Seq s) - {pcb_num Rescue}"
    by (simp add: s Top2Bottom_perm LSET_SeqStackupForPlotting_def UIOrder_wish set_LSET_Seq_mask e)
  moreover have "hd (LSET_SeqStackupTop2Bottom s l) = l" if "l \<in> set (LSET_Seq s) - {pcb_num Rescue}"
  proof -
    from that have "l \<in> A \<inter> {0..<59}" "l \<noteq> - 1" by (auto simp: s set_LSET_Seq_mask)
    then show ?thesis by (simp add: s LSET_SeqStackupTop2Bottom_def Let_def)
  qed
  ultimately show ?thesis by blast
qed

theorem LSET_orders_complete_witness:
  "distinct (LSET_UIOrder (layer_mask {0, 31, 59})) \<and>
    set (LSET_UIOrder (layer_mask {0, 31, 59})) = set (LSET_Seq (layer_mask {0, 31, 59})) - {pcb_num Rescue} \<and>
    hd (LSET_SeqStackupTop2Bottom (layer_mask {0, 31, 59}) 31) = 31"
proof -
  have "31 \<in> set (LSET_Seq (layer_mask {0, 31, 59})) - {pcb_num Rescue}"
    by (simp add: set_LSET_Seq_mask)
  with LSET_orders_complete [of "layer_mask {0, 31, 59}" 31, OF wf_bits_mask length_mask]
  show ?thesis by blast
qed

lemma LSET_Name_cases_nums: "pcb_num ` set (map fst LSET_Name_cases) = {0..<60}"
  and LSET_Name_cases_distinct: "distinct (map snd LSET_Name_cases)"
  and LSET_Name_cases_bad: "''BAD INDEX!'' \<notin> set (map snd LSET_Name_cases)"
proof -
  have "set (map (pcb_num \<circ> fst) LSET_Name_cases) = set (map int [0..<60])"
    by (simp add: LSET_Name_cases_def upt_rec insert_commute)
  moreover have "int ` {0..<60} = {0..<60}" by (simp add: image_int_atLeastLessThan)
  ultimately show "pcb_num ` set (map fst LSET_Name_cases) = {0..<60}"
    by (simp add: image_image o_def)
  show "distinct (map snd LSET_Name_cases)" "''BAD INDEX!'' \<notin> set (map snd LSET_Name_cases)"
    by (simp_all add: LSET_Name_cases_def)
qed

lemma distinct_snd_unique: "distinct (map snd xs) \<Longrightarrow> (a, v) \<in> set xs \<Longrightarrow> (b, v) \<in> set xs \<Longrightarrow> a = b"
  by (induction xs) force+

lemma LSET_Name_Some:
  assumes "IsPcbLayer l"
  obtains k where "(k, LSET_Name l) \<in> set LSET_Name_cases" "pcb_num k = l"
proof -
  let ?m = "map (\<lambda>(l, s). (pcb_num l, s)) LSET_Name_cases"
  have "l \<in> pcb_num ` set (map fst LSET_Name_cases)"
    using assms by (simp only: LSET_Name_cases_nums) (simp add: IsPcbLayer_def)
  then have "l \<in> fst ` set ?m" by force
  then obtain v where v: "map_of ?m l = Some v" by (metis map_of_eq_None_iff not_None_eq)
  then have "LSET_Name l = v" by (simp add: LSET_Name_def)
  with map_of_SomeD [OF v] show thesis using that by auto
qed

text \<open>
  The names of the board file identify the layers: no two board layers share one, and exactly
  the numbers that are no board layer have the error name.
\<close>

theorem LSET_Name_identifies:
  "inj_on LSET_Name {l. IsPcbLayer l} \<and> (LSET_Name l = ''BAD INDEX!'' \<longleftrightarrow> \<not> IsPcbLayer l)"
proof
  show "inj_on LSET_Name {l. IsPcbLayer l}"
  proof (rule inj_onI, simp only: mem_Collect_eq)
    fix l m assume lm: "IsPcbLayer l" "IsPcbLayer m" and eq: "LSET_Name l = LSET_Name m"
    obtain a where a: "(a, LSET_Name l) \<in> set LSET_Name_cases" "pcb_num a = l"
      by (rule LSET_Name_Some [OF lm(1)])
    obtain b where b: "(b, LSET_Name l) \<in> set LSET_Name_cases" "pcb_num b = m"
      unfolding eq by (rule LSET_Name_Some [OF lm(2)])
    from distinct_snd_unique [OF LSET_Name_cases_distinct a(1) b(1)] a(2) b(2) show "l = m" by simp
  qed
  show "LSET_Name l = ''BAD INDEX!'' \<longleftrightarrow> \<not> IsPcbLayer l"
  proof (cases "IsPcbLayer l")
    case True
    then obtain k where "(k, LSET_Name l) \<in> set LSET_Name_cases" by (rule LSET_Name_Some)
    then have "LSET_Name l \<in> set (map snd LSET_Name_cases)" by force
    with LSET_Name_cases_bad True show ?thesis by metis
  next
    case False
    then have "l \<notin> pcb_num ` set (map fst LSET_Name_cases)"
      by (simp only: LSET_Name_cases_nums) (simp add: IsPcbLayer_def)
    then have "map_of (map (\<lambda>(l, s). (pcb_num l, s)) LSET_Name_cases) l = None"
      by (force simp: map_of_eq_None_iff)
    with False show ?thesis by (simp add: LSET_Name_def)
  qed
qed

text \<open>
  \<open>ExtractLayer\<close> tells an empty set, a single layer and several layers apart.
\<close>

theorem ExtractLayer_spec:
  "(LSET_ExtractLayer s = pcb_num UNSELECTED_LAYER \<longleftrightarrow> LSET_Seq s = []) \<and>
    (LSET_ExtractLayer s = pcb_num UNDEFINED_LAYER \<longleftrightarrow> length (LSET_Seq s) > 1) \<and>
    (LSET_ExtractLayer s = int i \<longleftrightarrow> LSET_Seq s = [int i])"
proof -
  let ?q = "filter (BASE_SET_test s) [0..<length s]"
  have c: "BASE_SET_count s = length ?q"
    by (simp add: BASE_SET_count_def length_filter_conv_card BASE_SET_test_def) (rule arg_cong [where f = card], auto)
  have f: "find P xs = (case filter P xs of [] \<Rightarrow> None | x # xs \<Rightarrow> Some x)" for P and xs :: "nat list"
    by (induction xs) simp_all
  show ?thesis
    by (cases ?q rule: remdups_adj.cases) (auto simp: LSET_ExtractLayer_def c f LSET_Seq_def)
qed

end
