(* ===== verification/GalSet.thy ===== *)
theory GalSet
  imports LayerIds BaseSet
begin

text \<open>
  \<open>GAL_SET\<close> of \<^verbatim>\<open>include/layer_ids.h\<close> and \<^verbatim>\<open>common/lset.cpp\<close>: a set of virtual layers kept in a
  \<^verbatim>\<open>std::bitset<GAL_LAYER_ID_COUNT>\<close>, position 0 standing for \<open>GAL_LAYER_ID_START\<close>.

  Unlike \<open>BASE_SET\<close>, a \<^verbatim>\<open>std::bitset\<close> does not grow: \<open>set\<close> and \<open>test\<close> throw
  \<^verbatim>\<open>std::out_of_range\<close> for a position past its end, which is \<open>None\<close> here. It is the second
  instance of the interface \<open>bit_container\<close>, which gives the enumeration of a set built from
  an array.
\<close>

type_synonym gal_set = "bool list"

section \<open>\<^verbatim>\<open>std::bitset\<close>\<close>

definition bitset_set :: "gal_set \<Rightarrow> nat \<Rightarrow> bool \<Rightarrow> gal_set option" where
  "bitset_set s pos v = (if pos < length s then Some (s[pos := v]) else None)"

definition bitset_test :: "gal_set \<Rightarrow> nat \<Rightarrow> bool option" where
  "bitset_test s pos = (if pos < length s then Some (s ! pos) else None)"

section \<open>\<open>GAL_SET\<close>\<close>

definition GAL_SET_empty :: gal_set where
  "GAL_SET_empty = replicate (nat GAL_LAYER_ID_COUNT) False"

definition GAL_SET_set_all :: "gal_set \<Rightarrow> gal_set" where
  "GAL_SET_set_all s = map (\<lambda>_. True) s"

definition GAL_SET_set_pos :: "gal_set \<Rightarrow> int \<Rightarrow> bool \<Rightarrow> gal_set option" where
  "GAL_SET_set_pos s aPos aVal = bitset_set s (size_t_of aPos) aVal"

text \<open>The subtraction of \<open>start\<close> is on \<^verbatim>\<open>size_t\<close>: a layer below the window wraps around.\<close>

definition GAL_SET_pos :: "int \<Rightarrow> nat" where
  "GAL_SET_pos aPos = size_t_of (aPos - gal_num GAL_LAYER_ID_START)"

definition GAL_SET_set :: "gal_set \<Rightarrow> int \<Rightarrow> bool \<Rightarrow> gal_set option" where
  "GAL_SET_set s aPos aVal = bitset_set s (GAL_SET_pos aPos) aVal"

definition GAL_SET_Contains :: "gal_set \<Rightarrow> int \<Rightarrow> bool option" where
  "GAL_SET_Contains s aPos = bitset_test s (GAL_SET_pos aPos)"

definition GAL_SET_of_array :: "int list \<Rightarrow> gal_set option" where
  "GAL_SET_of_array aArray = fold_opt (\<lambda>l s. GAL_SET_set s l True) aArray GAL_SET_empty"

definition GAL_SET_Seq :: "gal_set \<Rightarrow> int list" where
  "GAL_SET_Seq s =
     map (\<lambda>i. int i + gal_num GAL_LAYER_ID_START) (filter (\<lambda>i. s ! i) [0..<length s])"

definition GAL_SET_visible :: "GAL_LAYER_ID list" where
  "GAL_SET_visible = [
     LAYER_VIAS, LAYER_VIA_MICROVIA, LAYER_VIA_BBLIND, LAYER_VIA_THROUGH, LAYER_ANCHOR,
     LAYER_PADS_SMD_FR, LAYER_PADS_SMD_BK, LAYER_RATSNEST, LAYER_GRID, LAYER_GRID_AXES,
     LAYER_FOOTPRINTS_FR, LAYER_FOOTPRINTS_BK, LAYER_FP_TEXT, LAYER_FP_VALUES,
     LAYER_FP_REFERENCES, LAYER_TRACKS, LAYER_PADS_TH, LAYER_PAD_PLATEDHOLES,
     LAYER_NON_PLATEDHOLES, LAYER_PAD_HOLEWALLS, LAYER_VIA_HOLES, LAYER_VIA_HOLEWALLS,
     LAYER_DRC_ERROR, LAYER_DRC_WARNING, LAYER_DRAWINGSHEET, LAYER_GP_OVERLAY,
     LAYER_SELECT_OVERLAY, LAYER_PCB_BACKGROUND, LAYER_CURSOR, LAYER_AUX_ITEMS,
     LAYER_DRAW_BITMAPS, LAYER_PADS, LAYER_ZONES, LAYER_SHAPES, LAYER_LOCKED_ITEM_SHADOW,
     LAYER_CONFLICTS_SHADOW]"

definition GAL_SET_DefaultVisible :: "gal_set option" where
  "GAL_SET_DefaultVisible = GAL_SET_of_array (map gal_num GAL_SET_visible)"

section \<open>The interface\<close>

definition wf_gal :: "gal_set \<Rightarrow> bool" where
  "wf_gal s \<longleftrightarrow> length s = nat GAL_LAYER_ID_COUNT"

definition bitset_has :: "gal_set \<Rightarrow> nat \<Rightarrow> bool" where
  "bitset_has s i \<longleftrightarrow> i < length s \<and> s ! i"

interpretation gal_bits: bit_container wf_gal length bitset_has "\<lambda>i s. bitset_set s i True"
  by unfold_locales (auto simp: bitset_has_def bitset_set_def wf_gal_def nth_list_update)

lemma GAL_LAYER_ID_COUNT_eq [simp]: "GAL_LAYER_ID_COUNT = 178"
  by (simp add: GAL_LAYER_ID_COUNT_def)

lemma wf_GAL_SET_empty [simp]: "wf_gal GAL_SET_empty"
  by (simp add: wf_gal_def GAL_SET_empty_def)

lemma not_bitset_has_empty [simp]: "\<not> bitset_has GAL_SET_empty i"
  by (simp add: bitset_has_def GAL_SET_empty_def)

lemma GAL_SET_pos_in: "125 \<le> l \<Longrightarrow> l < 303 \<Longrightarrow> GAL_SET_pos l = nat (l - 125)"
  by (simp add: GAL_SET_pos_def size_t_of_nonneg)

lemma GAL_SET_pos_inj: "inj_on GAL_SET_pos {125..<303}"
  by (rule inj_onI) (simp add: GAL_SET_pos_in eq_nat_nat_iff)

lemma GAL_SET_pos_out:
  assumes "is_int32 l" and "\<not> (125 \<le> l \<and> l < 303)"
  shows "178 \<le> GAL_SET_pos l"
proof (cases "125 \<le> l")
  case True
  with assms show ?thesis by (simp add: GAL_SET_pos_def size_t_of_nonneg is_int32_def)
next
  case False
  then have "GAL_SET_pos l = nat (l - 125 + 2 ^ 64)"
    unfolding GAL_SET_pos_def
    by (subst size_t_of_neg) (use assms in \<open>auto simp: is_int32_def\<close>)
  with assms show ?thesis by (auto simp: is_int32_def)
qed

lemma GAL_SET_of_array_bits:
  "GAL_SET_of_array ls = fold_opt (\<lambda>i s. bitset_set s i True) (map GAL_SET_pos ls) GAL_SET_empty"
  by (simp add: GAL_SET_of_array_def GAL_SET_set_def fold_opt_map)

lemma GAL_SET_Seq_has: "GAL_SET_Seq s = map (\<lambda>i. int i + 125) (filter (bitset_has s) [0..<length s])"
  by (auto simp: GAL_SET_Seq_def bitset_has_def intro!: arg_cong [where f = "map _"] filter_cong)

section \<open>Properties\<close>

text \<open>
  C29. A set built from an array of virtual layers contains exactly these, and its sequence lists
  them in ascending order, each once. A layer outside the window of the virtual layers makes
  both the construction and the membership test throw.
\<close>

theorem GAL_SET_of_array_Seq:
  assumes "\<forall>l \<in> set ls. is_int32 l" and "is_int32 k"
  shows "if list_all (\<lambda>l. gal_num GAL_LAYER_ID_START \<le> l \<and> l < gal_num GAL_LAYER_ID_END) ls
    then \<exists>s. GAL_SET_of_array ls = Some s \<and> GAL_SET_Seq s = sorted_list_of_set (set ls) \<and>
      GAL_SET_Contains s k
        = (if gal_num GAL_LAYER_ID_START \<le> k \<and> k < gal_num GAL_LAYER_ID_END then Some (k \<in> set ls) else None)
    else GAL_SET_of_array ls = None"
proof (cases "\<forall>l \<in> set ls. 125 \<le> l \<and> l < 303")
  case True
  then have pos: "\<forall>p \<in> set (map GAL_SET_pos ls). p < length GAL_SET_empty"
    by (auto simp: GAL_SET_pos_in GAL_SET_empty_def)
  from gal_bits.set_list [OF wf_GAL_SET_empty pos] obtain s where
    s: "GAL_SET_of_array ls = Some s" "wf_gal s" "\<And>j. bitset_has s j \<longleftrightarrow> j \<in> set (map GAL_SET_pos ls)"
    by (auto simp: GAL_SET_of_array_bits not_bitset_has_empty)
  have len: "length s = 178" using s(2) by (simp add: wf_gal_def)
  have "GAL_SET_Seq s = map (\<lambda>i. int i + 125) (sorted_list_of_set (GAL_SET_pos ` set ls))"
    using gal_bits.enumerate [OF s(2)] s(3) by (simp add: GAL_SET_Seq_has)
  also have "\<dots> = sorted_list_of_set (set ls)"
  proof (rule sorted_distinct_set_unique)
    show "sorted (map (\<lambda>i. int i + 125) (sorted_list_of_set (GAL_SET_pos ` set ls)))"
      by (simp add: sorted_map sorted_wrt_mono_rel [OF _ sorted_sorted_list_of_set])
    show "distinct (map (\<lambda>i. int i + 125) (sorted_list_of_set (GAL_SET_pos ` set ls)))"
      by (simp add: distinct_map inj_on_def)
    show "set (map (\<lambda>i. int i + 125) (sorted_list_of_set (GAL_SET_pos ` set ls)))
        = set (sorted_list_of_set (set ls))"
      using True by (force simp: image_image GAL_SET_pos_in)
  qed simp_all
  finally have seq: "GAL_SET_Seq s = sorted_list_of_set (set ls)" .
  have "GAL_SET_Contains s k = (if 125 \<le> k \<and> k < 303 then Some (k \<in> set ls) else None)"
  proof (cases "125 \<le> k \<and> k < 303")
    case k: True
    then have "nat (k - 125) < 178" by linarith
    with k have "s ! GAL_SET_pos k \<longleftrightarrow> GAL_SET_pos k \<in> GAL_SET_pos ` set ls"
      using s(3) [of "GAL_SET_pos k"] len by (simp add: bitset_has_def GAL_SET_pos_in)
    also have "\<dots> \<longleftrightarrow> k \<in> set ls"
      by (rule inj_on_image_mem_iff [OF GAL_SET_pos_inj]) (use True k in auto)
    finally show ?thesis using k len by (simp add: GAL_SET_Contains_def bitset_test_def GAL_SET_pos_in nat_less_iff)
  next
    case False
    with GAL_SET_pos_out [OF assms(2)] len show ?thesis
      by (auto simp: GAL_SET_Contains_def bitset_test_def)
  qed
  with True s(1) seq show ?thesis by (simp add: list_all_iff)
next
  case False
  have "fold_opt (\<lambda>l s. GAL_SET_set s l True) ls s = None" if "length s = 178" for s
    using False assms(1) that
  proof (induction ls arbitrary: s)
    case Nil
    then show ?case by simp
  next
    case (Cons l ls)
    show ?case
    proof (cases "125 \<le> l \<and> l < 303")
      case True
      with Cons show ?thesis by (auto simp: GAL_SET_set_def bitset_set_def)
    next
      case False
      with GAL_SET_pos_out [of l] Cons.prems(2,3) show ?thesis
        by (auto simp: GAL_SET_set_def bitset_set_def)
    qed
  qed
  with False show ?thesis by (simp add: GAL_SET_of_array_def GAL_SET_empty_def list_all_iff)
qed

theorem GAL_SET_of_array_Seq_witness:
  "\<exists>s. GAL_SET_of_array [130, 126] = Some s \<and> GAL_SET_Seq s = [126, 130] \<and>
    GAL_SET_Contains s 130 = Some True"
  using GAL_SET_of_array_Seq [of "[130, 126]" 130] by (simp add: is_int32_def)

end
