(* ===== verification/LayerRange.thy ===== *)
theory LayerRange
  imports Prelude
begin

text \<open>
  \<open>LAYER_RANGE\<close> of \<^verbatim>\<open>pcbnew/router/pns_layerset.h\<close>, a contiguous set of layers. \<open>layers_of\<close>
  abstracts a range to the set of layers it covers; \<open>wf_range\<close> is the shape every range built
  from real layers has: ordered and not negative. The default range, both ends -1, stands for
  "no layers yet" in \<open>Merge\<close> and \<open>Intersection\<close>.
\<close>

named_theorems range_defs \<open>the operations on layer ranges\<close>

record LAYER_RANGE =
  lr_start :: int
  lr_end :: int

definition LAYER_RANGE_default :: LAYER_RANGE where [range_defs]:
  "LAYER_RANGE_default = \<lparr> lr_start = - 1, lr_end = - 1 \<rparr>"

definition LAYER_RANGE_make :: "int \<Rightarrow> int \<Rightarrow> LAYER_RANGE" where [range_defs]:
  "LAYER_RANGE_make aStart aEnd =
     (let (aStart, aEnd) = (if aStart > aEnd then (aEnd, aStart) else (aStart, aEnd))
      in \<lparr> lr_start = aStart, lr_end = aEnd \<rparr>)"

definition LAYER_RANGE_single :: "int \<Rightarrow> LAYER_RANGE" where [range_defs]:
  "LAYER_RANGE_single aLayer = \<lparr> lr_start = aLayer, lr_end = aLayer \<rparr>"

definition LR_Overlaps :: "LAYER_RANGE \<Rightarrow> LAYER_RANGE \<Rightarrow> bool" where [range_defs]:
  "LR_Overlaps r aOther \<longleftrightarrow> lr_end r \<ge> lr_start aOther \<and> lr_start r \<le> lr_end aOther"

definition LR_Overlaps_layer :: "LAYER_RANGE \<Rightarrow> int \<Rightarrow> bool" where [range_defs]:
  "LR_Overlaps_layer r aLayer \<longleftrightarrow> aLayer \<ge> lr_start r \<and> aLayer \<le> lr_end r"

definition LR_IsMultilayer :: "LAYER_RANGE \<Rightarrow> bool" where [range_defs]:
  "LR_IsMultilayer r \<longleftrightarrow> lr_start r \<noteq> lr_end r"

definition LR_Merge :: "LAYER_RANGE \<Rightarrow> LAYER_RANGE \<Rightarrow> LAYER_RANGE" where [range_defs]:
  "LR_Merge r aOther =
     (if lr_start r < 0 \<or> lr_end r < 0
      then \<lparr> lr_start = lr_start aOther, lr_end = lr_end aOther \<rparr>
      else let r = (if lr_start aOther < lr_start r then r\<lparr> lr_start := lr_start aOther \<rparr> else r)
           in if lr_end aOther > lr_end r then r\<lparr> lr_end := lr_end aOther \<rparr> else r)"

definition LR_Intersection :: "LAYER_RANGE \<Rightarrow> LAYER_RANGE \<Rightarrow> LAYER_RANGE" where [range_defs]:
  "LR_Intersection r aOther =
     \<lparr> lr_start = max (lr_start r) (lr_start aOther),
       lr_end = (if lr_end r < 0 then lr_end aOther
                 else if lr_end aOther < 0 then lr_end r
                 else min (lr_end r) (lr_end aOther)) \<rparr>"

definition LR_All :: LAYER_RANGE where [range_defs]:
  "LR_All = LAYER_RANGE_make 0 256"

definition LR_eq :: "LAYER_RANGE \<Rightarrow> LAYER_RANGE \<Rightarrow> bool" where
  "LR_eq r aOther \<longleftrightarrow> lr_start r = lr_start aOther \<and> lr_end r = lr_end aOther"

definition LR_neq :: "LAYER_RANGE \<Rightarrow> LAYER_RANGE \<Rightarrow> bool" where
  "LR_neq r aOther \<longleftrightarrow> lr_start r \<noteq> lr_start aOther \<or> lr_end r \<noteq> lr_end aOther"

section \<open>Abstraction\<close>

definition layers_of :: "LAYER_RANGE \<Rightarrow> int set" where
  "layers_of r = {lr_start r..lr_end r}"

definition wf_range :: "LAYER_RANGE \<Rightarrow> bool" where
  "wf_range r \<longleftrightarrow> 0 \<le> lr_start r \<and> lr_start r \<le> lr_end r"

lemma Overlaps_layer_iff: "LR_Overlaps_layer r l \<longleftrightarrow> l \<in> layers_of r"
  by (simp add: range_defs layers_of_def)

lemma LR_eq_iff [simp]: "LR_eq r s \<longleftrightarrow> r = s" and LR_neq_iff [simp]: "LR_neq r s \<longleftrightarrow> r \<noteq> s"
  by (cases r; cases s; auto simp: LR_eq_def LR_neq_def)+

lemma Overlaps_iff: "wf_range r \<Longrightarrow> wf_range s \<Longrightarrow> LR_Overlaps r s \<longleftrightarrow> layers_of r \<inter> layers_of s \<noteq> {}"
  by (auto simp: range_defs layers_of_def wf_range_def)

lemma Overlaps_sym: "LR_Overlaps r s \<longleftrightarrow> LR_Overlaps s r"
  by (auto simp: range_defs)

lemma wf_range_ne: "wf_range r \<Longrightarrow> lr_start r \<in> layers_of r"
  by (simp add: wf_range_def layers_of_def)

lemma wf_Merge [wf_intros]: "wf_range r \<Longrightarrow> wf_range s \<Longrightarrow> wf_range (LR_Merge r s)"
  by (auto simp: range_defs wf_range_def)

lemma layers_of_Merge:
  "wf_range r \<Longrightarrow> wf_range s \<Longrightarrow> LR_Overlaps r s \<Longrightarrow> layers_of (LR_Merge r s) = layers_of r \<union> layers_of s"
  by (auto simp: range_defs wf_range_def layers_of_def split: if_splits)

lemma wf_range_make: "0 \<le> a \<Longrightarrow> 0 \<le> b \<Longrightarrow> wf_range (LAYER_RANGE_make a b)"
  by (simp add: range_defs wf_range_def)

text \<open>
  C30. On ranges of real layers the tests and operations are those of sets: two ranges overlap
  when they share a layer, merging overlapping ranges gives their union, intersecting them
  gives the common layers. The intersection of ranges that do not overlap covers no layer, and
  yet it can pass the range overlap test.
\<close>

theorem LAYER_RANGE_refines_sets:
  assumes "wf_range r" and "wf_range s"
  shows "(LR_Overlaps r s \<longleftrightarrow> layers_of r \<inter> layers_of s \<noteq> {}) \<and>
    layers_of (LR_Intersection r s) = layers_of r \<inter> layers_of s \<and>
    layers_of r \<union> layers_of s \<subseteq> layers_of (LR_Merge r s) \<and>
    (layers_of (LR_Merge r s) = layers_of r \<union> layers_of s
       \<longleftrightarrow> LR_Overlaps r s \<or> lr_end r + 1 = lr_start s \<or> lr_end s + 1 = lr_start r) \<and>
    layers_of (LR_Merge LAYER_RANGE_default s) = layers_of s \<and>
    (\<not> LR_Overlaps r s \<longrightarrow> LR_Overlaps (LR_Intersection r s) LR_All
       \<longleftrightarrow> lr_start r \<le> 256 \<and> lr_start s \<le> 256)"
proof -
  have gap: "layers_of (LR_Merge r s) \<noteq> layers_of r \<union> layers_of s"
    if "\<not> LR_Overlaps r s" "lr_end r + 1 \<noteq> lr_start s" "lr_end s + 1 \<noteq> lr_start r"
  proof -
    let ?x = "min (lr_end r) (lr_end s) + 1"
    have "?x \<in> layers_of (LR_Merge r s)" "?x \<notin> layers_of r \<union> layers_of s"
      using that assms by (auto simp: range_defs wf_range_def layers_of_def)
    then show ?thesis by blast
  qed
  have join: "layers_of (LR_Merge r s) = layers_of r \<union> layers_of s"
    if "LR_Overlaps r s \<or> lr_end r + 1 = lr_start s \<or> lr_end s + 1 = lr_start r"
    using that assms by (auto simp: range_defs wf_range_def layers_of_def)
  have inter: "layers_of (LR_Intersection r s) = layers_of r \<inter> layers_of s"
    using assms by (auto simp: range_defs wf_range_def layers_of_def)
  have hull: "layers_of r \<union> layers_of s \<subseteq> layers_of (LR_Merge r s)"
    using assms by (auto simp: range_defs wf_range_def layers_of_def)
  have fresh: "layers_of (LR_Merge LAYER_RANGE_default s) = layers_of s"
    by (simp add: range_defs layers_of_def)
  have "\<not> LR_Overlaps r s \<longrightarrow> LR_Overlaps (LR_Intersection r s) LR_All
       \<longleftrightarrow> lr_start r \<le> 256 \<and> lr_start s \<le> 256"
    using assms by (auto simp: range_defs wf_range_def)
  with gap join inter hull fresh Overlaps_iff [OF assms] show ?thesis by blast
qed

theorem LAYER_RANGE_refines_sets_witness:
  "(LR_Overlaps (LAYER_RANGE_make 5 2) (LAYER_RANGE_single 7)
      \<longleftrightarrow> layers_of (LAYER_RANGE_make 5 2) \<inter> layers_of (LAYER_RANGE_single 7) \<noteq> {}) \<and>
    LR_Overlaps (LR_Intersection (LAYER_RANGE_make 5 2) (LAYER_RANGE_single 7)) LR_All"
proof -
  have wf: "wf_range (LAYER_RANGE_make 5 2)" "wf_range (LAYER_RANGE_single 7)"
    by (simp_all add: range_defs wf_range_def)
  note T = LAYER_RANGE_refines_sets [OF wf]
  have "\<not> LR_Overlaps (LAYER_RANGE_make 5 2) (LAYER_RANGE_single 7)"
    "lr_start (LAYER_RANGE_make 5 2) \<le> 256" "lr_start (LAYER_RANGE_single 7) \<le> 256"
    by (simp_all add: range_defs)
  with T show ?thesis by blast
qed

end
