(* ===== verification/PnsItem.thy ===== *)
theory PnsItem
  imports LayerRange "HOL-Library.Multiset"
begin

text \<open>
  The items of the push-and-shove router: \<^verbatim>\<open>pcbnew/router/pns_item.h\<close> and \<^verbatim>\<open>pns_item.cpp\<close>, the
  lists of items \<^verbatim>\<open>pns_itemset.h\<close>, \<^verbatim>\<open>pns_itemset.cpp\<close> and the links of a line,
  \<^verbatim>\<open>pns_link_holder.h\<close>.

  Items are shared by pointer and mutated in place, so they live in a store: an \<open>item_ref\<close> is a
  pointer that is not null, and the store maps it to the object. A null pointer is \<open>None\<close>. One
  record holds the members of \<open>ITEM\<close> and of the derived classes the router's node looks at: the
  width of a linked item, the two anchors of a segment or an arc (the position of a via or a
  pad is the first one), the hole, the parent pad or via of a hole, and the links of a line.
\<close>

unbundle bit_operations_syntax

section \<open>Data\<close>

type_synonym vector2i = "int \<times> int"
type_synonym net_handle = "nat option"
type_synonym item_ref = nat

datatype PnsKind = INVALID_T | SOLID_T | LINE_T | JOINT_T | SEGMENT_T | ARC_T | VIA_T
  | DIFF_PAIR_T | HOLE_T | ANY_T

primrec kind_num :: "PnsKind \<Rightarrow> int" where
  "kind_num INVALID_T = 0"
| "kind_num SOLID_T = 1"
| "kind_num LINE_T = 2"
| "kind_num JOINT_T = 4"
| "kind_num SEGMENT_T = 8"
| "kind_num ARC_T = 16"
| "kind_num VIA_T = 32"
| "kind_num DIFF_PAIR_T = 64"
| "kind_num HOLE_T = 128"
| "kind_num ANY_T = 0xffff"

datatype LineMarker = MK_HEAD | MK_VIOLATION | MK_LOCKED | MK_DP_COUPLED

primrec marker_num :: "LineMarker \<Rightarrow> int" where
  "marker_num MK_HEAD = 1"
| "marker_num MK_VIOLATION = 8"
| "marker_num MK_LOCKED = 16"
| "marker_num MK_DP_COUPLED = 32"

text \<open>What an owner pointer points to: a node, an item (for a hole) or an item set.\<close>

datatype owner = OwnerNode nat | OwnerItem item_ref | OwnerSet nat

record ITEM =
  m_owner :: "owner option"
  m_kind :: PnsKind
  m_parent :: "nat option"
  m_layers :: LAYER_RANGE
  m_movable :: bool
  m_net :: net_handle
  m_marker :: int
  m_rank :: int
  m_routable :: bool
  m_isVirtual :: bool
  m_isFreePad :: bool
  m_isCompoundShapePrimitive :: bool
  m_width :: int
  m_anchor0 :: vector2i
  m_anchor1 :: vector2i
  m_hole :: "item_ref option"
  m_parentPadVia :: "item_ref option"
  m_lineLinks :: "item_ref list"

type_synonym store = "item_ref \<Rightarrow> ITEM"

section \<open>\<open>ITEM\<close>\<close>

definition ITEM_make :: "PnsKind \<Rightarrow> ITEM" where
  "ITEM_make aKind =
     \<lparr> m_owner = None, m_kind = aKind, m_parent = None, m_layers = LAYER_RANGE_default,
       m_movable = True, m_net = None, m_marker = 0, m_rank = - 1, m_routable = True,
       m_isVirtual = False, m_isFreePad = False, m_isCompoundShapePrimitive = False,
       m_width = 0, m_anchor0 = (0, 0), m_anchor1 = (0, 0), m_hole = None,
       m_parentPadVia = None, m_lineLinks = [] \<rparr>"

text \<open>The copy constructor copies every member of \<open>ITEM\<close> but the owner.\<close>

definition ITEM_copy :: "ITEM \<Rightarrow> ITEM \<Rightarrow> ITEM" where
  "ITEM_copy aOther derived =
     derived\<lparr> m_layers := m_layers aOther, m_net := m_net aOther, m_movable := m_movable aOther,
       m_kind := m_kind aOther, m_parent := m_parent aOther, m_owner := None,
       m_marker := m_marker aOther, m_rank := m_rank aOther, m_routable := m_routable aOther,
       m_isVirtual := m_isVirtual aOther, m_isFreePad := m_isFreePad aOther,
       m_isCompoundShapePrimitive := m_isCompoundShapePrimitive aOther \<rparr>"

definition BelongsTo :: "ITEM \<Rightarrow> owner option \<Rightarrow> bool" where
  "BelongsTo i aNode \<longleftrightarrow> m_owner i = aNode"

definition OfKind :: "ITEM \<Rightarrow> int \<Rightarrow> bool" where
  "OfKind i aKindMask \<longleftrightarrow> aKindMask AND kind_num (m_kind i) \<noteq> 0"

definition KindStr :: "ITEM \<Rightarrow> string" where
  "KindStr i =
     (case m_kind i of
        ARC_T \<Rightarrow> ''arc''
      | LINE_T \<Rightarrow> ''line''
      | SEGMENT_T \<Rightarrow> ''segment''
      | VIA_T \<Rightarrow> ''via''
      | JOINT_T \<Rightarrow> ''joint''
      | SOLID_T \<Rightarrow> ''solid''
      | DIFF_PAIR_T \<Rightarrow> ''diff-pair''
      | HOLE_T \<Rightarrow> ''hole''
      | _ \<Rightarrow> ''unknown'')"

definition LayersOverlap :: "ITEM \<Rightarrow> ITEM \<Rightarrow> bool" where
  "LayersOverlap i aOther \<longleftrightarrow> LR_Overlaps (m_layers i) (m_layers aOther)"

definition SetLayer :: "int \<Rightarrow> ITEM \<Rightarrow> ITEM" where
  "SetLayer aLayer i = i\<lparr> m_layers := LAYER_RANGE_make aLayer aLayer \<rparr>"

definition ITEM_Layer :: "ITEM \<Rightarrow> int" where
  "ITEM_Layer i = lr_start (m_layers i)"

definition Unmark :: "int \<Rightarrow> ITEM \<Rightarrow> ITEM" where
  "Unmark aMarker i = i\<lparr> m_marker := m_marker i AND NOT aMarker \<rparr>"

definition ITEM_IsLocked :: "ITEM \<Rightarrow> bool" where
  "ITEM_IsLocked i \<longleftrightarrow> m_marker i AND marker_num MK_LOCKED \<noteq> 0"

definition IsFreePad :: "store \<Rightarrow> ITEM \<Rightarrow> bool" where
  "IsFreePad h i \<longleftrightarrow>
     m_isFreePad i \<or> (case m_parentPadVia i of None \<Rightarrow> False | Some p \<Rightarrow> m_isFreePad (h p))"

text \<open>The virtual \<open>Net()\<close>: a hole has the net of its parent pad or via, when it has one.\<close>

definition Net :: "store \<Rightarrow> item_ref \<Rightarrow> net_handle" where
  "Net h i =
     (case m_parentPadVia (h i) of
        Some p \<Rightarrow> if m_kind (h i) = HOLE_T then m_net (h p) else m_net (h i)
      | None \<Rightarrow> m_net (h i))"

text \<open>The virtual \<open>HasHole()\<close>: every via but a virtual one, and a pad that was given a hole.\<close>

definition HasHole :: "ITEM \<Rightarrow> bool" where
  "HasHole i =
     (case m_kind i of VIA_T \<Rightarrow> \<not> m_isVirtual i | SOLID_T \<Rightarrow> m_hole i \<noteq> None | _ \<Rightarrow> False)"

definition OwningNode :: "store \<Rightarrow> ITEM \<Rightarrow> owner option" where
  "OwningNode h i = (case m_parentPadVia i of Some p \<Rightarrow> m_owner (h p) | None \<Rightarrow> m_owner i)"

section \<open>\<open>ITEM_SET\<close>\<close>

type_synonym item_set = "item_ref list"

definition SetOwner :: "item_ref \<Rightarrow> owner option \<Rightarrow> store \<Rightarrow> store" where
  "SetOwner i aOwner h = h(i := (h i)\<lparr> m_owner := aOwner \<rparr>)"

definition ITEM_SET_make :: "nat \<Rightarrow> item_ref option \<Rightarrow> bool \<Rightarrow> store \<Rightarrow> item_set \<times> store" where
  "ITEM_SET_make this aInitialItem aBecomeOwner h =
     (case aInitialItem of
        None \<Rightarrow> ([], h)
      | Some i \<Rightarrow> ([i], if aBecomeOwner then SetOwner i (Some (OwnerSet this)) h else h))"

definition IS_Count :: "store \<Rightarrow> item_set \<Rightarrow> int \<Rightarrow> nat" where
  "IS_Count h s aKindMask =
     (if aKindMask = - 1 \<or> aKindMask = kind_num ANY_T then length s
      else length (filter (\<lambda>i. OfKind (h i) aKindMask) s))"

definition IS_Contains :: "item_set \<Rightarrow> item_ref \<Rightarrow> bool" where
  "IS_Contains s aItem \<longleftrightarrow> aItem \<in> set s"

definition IS_Add :: "nat \<Rightarrow> item_ref \<Rightarrow> bool \<Rightarrow> item_set \<times> store \<Rightarrow> item_set \<times> store" where
  "IS_Add this aItem aBecomeOwner sh =
     (fst sh @ [aItem],
      if aBecomeOwner then SetOwner aItem (Some (OwnerSet this)) (snd sh) else snd sh)"

definition IS_Prepend :: "nat \<Rightarrow> item_ref \<Rightarrow> bool \<Rightarrow> item_set \<times> store \<Rightarrow> item_set \<times> store" where
  "IS_Prepend this aItem aBecomeOwner sh =
     (aItem # fst sh,
      if aBecomeOwner then SetOwner aItem (Some (OwnerSet this)) (snd sh) else snd sh)"

text \<open>\<open>Erase\<close> removes the element \<^verbatim>\<open>std::find\<close> returns, the first one.\<close>

definition IS_Erase :: "item_set \<Rightarrow> item_ref \<Rightarrow> item_set" where
  "IS_Erase s aItem = remove1 aItem s"

definition IS_FilterLayers :: "store \<Rightarrow> item_set \<Rightarrow> int \<Rightarrow> int \<Rightarrow> bool \<Rightarrow> item_set" where
  "IS_FilterLayers h s aStart aEnd aInvert =
     (let l = (if aEnd < 0 then LAYER_RANGE_single aStart else LAYER_RANGE_make aStart aEnd)
      in filter (\<lambda>i. LR_Overlaps (m_layers (h i)) l \<noteq> aInvert) s)"

definition IS_FilterKinds :: "store \<Rightarrow> item_set \<Rightarrow> int \<Rightarrow> bool \<Rightarrow> item_set" where
  "IS_FilterKinds h s aKindMask aInvert = filter (\<lambda>i. OfKind (h i) aKindMask \<noteq> aInvert) s"

text \<open>\<open>FilterMarker\<close> does not use its last argument.\<close>

definition IS_FilterMarker :: "store \<Rightarrow> item_set \<Rightarrow> int \<Rightarrow> bool \<Rightarrow> item_set" where
  "IS_FilterMarker h s aMarker aInvert = filter (\<lambda>i. m_marker (h i) AND aMarker \<noteq> 0) s"

definition IS_FilterNet :: "store \<Rightarrow> item_set \<Rightarrow> net_handle \<Rightarrow> bool \<Rightarrow> item_set" where
  "IS_FilterNet h s aNet aInvert = filter (\<lambda>i. (Net h i = aNet) \<noteq> aInvert) s"

definition IS_ExcludeItem :: "item_set \<Rightarrow> item_ref \<Rightarrow> item_set" where
  "IS_ExcludeItem s aItem = filter (\<lambda>i. i \<noteq> aItem) s"

definition IS_ExcludeLayers :: "store \<Rightarrow> item_set \<Rightarrow> int \<Rightarrow> int \<Rightarrow> item_set" where
  "IS_ExcludeLayers h s aStart aEnd = IS_FilterLayers h s aStart aEnd True"

definition IS_ExcludeKinds :: "store \<Rightarrow> item_set \<Rightarrow> int \<Rightarrow> item_set" where
  "IS_ExcludeKinds h s aKindMask = IS_FilterKinds h s aKindMask True"

definition IS_ExcludeNet :: "store \<Rightarrow> item_set \<Rightarrow> net_handle \<Rightarrow> item_set" where
  "IS_ExcludeNet h s aNet = IS_FilterNet h s aNet True"

text \<open>The loop of \<open>FindByKind\<close>; its counter is \<open>n\<close>.\<close>

fun IS_FindByKind :: "store \<Rightarrow> item_set \<Rightarrow> PnsKind \<Rightarrow> int \<Rightarrow> int \<Rightarrow> item_ref option" where
  "IS_FindByKind h [] kind index n = None"
| "IS_FindByKind h (item # rest) kind index n =
     (if OfKind (h item) (kind_num kind)
      then if index = n then Some item else IS_FindByKind h rest kind index (n + 1)
      else IS_FindByKind h rest kind index n)"

section \<open>\<open>LINK_HOLDER\<close>\<close>

type_synonym links = "item_ref list"

definition LH_Link :: "links \<Rightarrow> item_ref \<Rightarrow> links" where
  "LH_Link m_links aLink = m_links @ [aLink]"

definition LH_IsLinked :: "links \<Rightarrow> bool" where
  "LH_IsLinked m_links \<longleftrightarrow> length m_links \<noteq> 0"

definition LH_ContainsLink :: "links \<Rightarrow> item_ref \<Rightarrow> bool" where
  "LH_ContainsLink m_links aItem \<longleftrightarrow> aItem \<in> set m_links"

definition LH_GetLink :: "links \<Rightarrow> int \<Rightarrow> item_ref option" where
  "LH_GetLink m_links aIndex =
     (let i = size_t_of aIndex in if i < length m_links then Some (m_links ! i) else None)"

definition LH_ClearLinks :: "links \<Rightarrow> links" where
  "LH_ClearLinks m_links = []"

definition LH_LinkCount :: "links \<Rightarrow> nat" where
  "LH_LinkCount m_links = length m_links"

section \<open>Lemmas\<close>

text \<open>The kind of an object is never \<open>ANY_T\<close>; its bit tells it from all others.\<close>

lemma OfKind_single:
  "k \<in> {SOLID_T, LINE_T, JOINT_T, SEGMENT_T, ARC_T, VIA_T, DIFF_PAIR_T, HOLE_T} \<Longrightarrow>
   m_kind i \<noteq> ANY_T \<Longrightarrow> OfKind i (kind_num k) \<longleftrightarrow> m_kind i = k"
  by (cases "m_kind i") (auto simp: OfKind_def)

lemma OfKind_seg_arc:
  "m_kind i \<noteq> ANY_T \<Longrightarrow>
   OfKind i (kind_num SEGMENT_T OR kind_num ARC_T) \<longleftrightarrow> m_kind i \<in> {SEGMENT_T, ARC_T}"
  by (cases "m_kind i") (auto simp: OfKind_def)

lemma OfKind_any: "m_kind i \<noteq> INVALID_T \<Longrightarrow> OfKind i (kind_num ANY_T)"
  by (cases "m_kind i") (auto simp: OfKind_def)

lemma filter_invert_mset: "mset (filter (\<lambda>i. P i \<noteq> False) s) + mset (filter (\<lambda>i. P i \<noteq> True) s) = mset s"
  by (induction s) auto

end
