(* ===== verification/PnsJoint.thy ===== *)
theory PnsJoint
  imports PnsItem
begin

text \<open>
  \<open>JOINT\<close> of \<^verbatim>\<open>pcbnew/router/pns_joint.h\<close>: a point of a net on a range of layers, with the items
  that meet there. The tag (position and net) is the key of the joints in a node.

  The lemmas describe linking and merging on the set of linked items; the properties are about
  the joints between two tracks, which the router follows to assemble a line.
\<close>

section \<open>State\<close>

record HASH_TAG =
  tag_pos :: vector2i
  tag_net :: net_handle

record JOINT =
  jt_tag :: HASH_TAG
  jt_layers :: LAYER_RANGE
  jt_links :: item_set
  jt_locked :: bool

definition JOINT_make :: "vector2i \<Rightarrow> LAYER_RANGE \<Rightarrow> net_handle \<Rightarrow> JOINT" where
  "JOINT_make aPos aLayers aNet =
     \<lparr> jt_tag = \<lparr> tag_pos = aPos, tag_net = aNet \<rparr>, jt_layers = aLayers, jt_links = [],
       jt_locked = False \<rparr>"

section \<open>Linking and merging\<close>

definition JOINT_Link :: "item_ref \<Rightarrow> JOINT \<Rightarrow> JOINT" where
  "JOINT_Link aItem j =
     (if IS_Contains (jt_links j) aItem then j else j\<lparr> jt_links := jt_links j @ [aItem] \<rparr>)"

definition JOINT_Unlink :: "item_ref \<Rightarrow> JOINT \<Rightarrow> bool \<times> JOINT" where
  "JOINT_Unlink aItem j =
     (let links = IS_Erase (jt_links j) aItem
      in (length links = 0, j\<lparr> jt_links := links \<rparr>))"

definition JOINT_Overlaps :: "JOINT \<Rightarrow> JOINT \<Rightarrow> bool" where
  "JOINT_Overlaps j rhs \<longleftrightarrow>
     tag_pos (jt_tag j) = tag_pos (jt_tag rhs) \<and> tag_net (jt_tag j) = tag_net (jt_tag rhs) \<and>
     LR_Overlaps (jt_layers j) (jt_layers rhs)"

definition JOINT_Merge :: "JOINT \<Rightarrow> JOINT \<Rightarrow> JOINT" where
  "JOINT_Merge j aJoint =
     (if \<not> JOINT_Overlaps j aJoint then j
      else j\<lparr> jt_layers := LR_Merge (jt_layers j) (jt_layers aJoint),
             jt_locked := (if jt_locked aJoint then True else jt_locked j),
             jt_links := jt_links j @ jt_links aJoint \<rparr>)"

definition JOINT_Lock :: "bool \<Rightarrow> JOINT \<Rightarrow> JOINT" where
  "JOINT_Lock aLock j = j\<lparr> jt_locked := aLock \<rparr>"

definition JOINT_eq :: "JOINT \<Rightarrow> JOINT \<Rightarrow> bool" where
  "JOINT_eq j rhs \<longleftrightarrow>
     tag_pos (jt_tag j) = tag_pos (jt_tag rhs) \<and> tag_net (jt_tag j) = tag_net (jt_tag rhs)"

definition JOINT_LinkCount :: "store \<Rightarrow> JOINT \<Rightarrow> int \<Rightarrow> nat" where
  "JOINT_LinkCount h j aMask = IS_Count h (jt_links j) aMask"

section \<open>Queries\<close>

definition SEGMENT_OR_ARC :: int where
  "SEGMENT_OR_ARC = kind_num SEGMENT_T OR kind_num ARC_T"

text \<open>
  The loop that collects the two tracks of a joint among its real items. \<open>others\<close> says what an
  item that is no track does: \<open>IsLineCorner\<close> returns at once for every kind, \<open>IsTraceWidthChange\<close>
  for a via only. \<open>None\<close> is that early return; else the two pointers at the end of the loop.
\<close>

definition add_track :: "item_ref \<Rightarrow> item_ref option \<times> item_ref option \<Rightarrow> item_ref option \<times> item_ref option" where
  "add_track item s = (if fst s = None then (Some item, snd s) else (fst s, Some item))"

fun LineCorner_loop ::
  "store \<Rightarrow> item_set \<Rightarrow> item_ref option \<times> item_ref option \<Rightarrow> (item_ref option \<times> item_ref option) option" where
  "LineCorner_loop h [] s = Some s"
| "LineCorner_loop h (item # rest) s =
     (if m_isVirtual (h item) then LineCorner_loop h rest s
      else if m_kind (h item) = SEGMENT_T \<or> m_kind (h item) = ARC_T
           then LineCorner_loop h rest (add_track item s)
      else None)"

definition IsLineCorner :: "store \<Rightarrow> JOINT \<Rightarrow> bool \<Rightarrow> bool" where
  "IsLineCorner h j aAllowLockedSegs =
     (let links = jt_links j in
      if length links = 2 \<and> IS_Count h links SEGMENT_OR_ARC = 2 then
        let seg1 = links ! 0; seg2 = links ! 1 in
        if \<not> aAllowLockedSegs \<and> (ITEM_IsLocked (h seg1) \<or> ITEM_IsLocked (h seg2)) then False
        else m_width (h seg1) = m_width (h seg2)
      else if length links > 2 \<and> IS_Count h links SEGMENT_OR_ARC = 2 then
        if \<not> aAllowLockedSegs then False
        else case LineCorner_loop h links (None, None) of
               None \<Rightarrow> False
             | Some (Some seg1, Some seg2) \<Rightarrow> m_width (h seg1) = m_width (h seg2)
             | Some _ \<Rightarrow> False
      else False)"

definition IsNonFanoutVia :: "store \<Rightarrow> JOINT \<Rightarrow> bool" where
  "IsNonFanoutVia h j =
     (let count = (\<lambda>item (vias, segs, realItems).
            if m_isVirtual (h item) then (vias, segs, realItems)
            else if m_kind (h item) = VIA_T then (vias + 1, segs, realItems + 1)
            else if m_kind (h item) = SEGMENT_T \<or> m_kind (h item) = ARC_T
                 then (vias, segs + 1, realItems + 1)
            else (vias, segs, realItems + 1));
          (vias, segs, realItems) = fold count (jt_links j) (0 :: nat, 0 :: nat, 0 :: nat)
      in realItems = 3 \<and> vias = 1 \<and> segs = 2)"

definition IsStitchingVia :: "store \<Rightarrow> JOINT \<Rightarrow> bool" where
  "IsStitchingVia h j \<longleftrightarrow> length (jt_links j) = 1 \<and> IS_Count h (jt_links j) (kind_num VIA_T) = 1"

fun WidthChange_loop ::
  "store \<Rightarrow> item_set \<Rightarrow> item_ref option \<times> item_ref option \<Rightarrow> (item_ref option \<times> item_ref option) option" where
  "WidthChange_loop h [] s = Some s"
| "WidthChange_loop h (item # rest) s =
     (if m_isVirtual (h item) then WidthChange_loop h rest s
      else if m_kind (h item) = VIA_T then None
      else if m_kind (h item) = SEGMENT_T \<or> m_kind (h item) = ARC_T
           then WidthChange_loop h rest (add_track item s)
      else WidthChange_loop h rest s)"

definition IsTraceWidthChange :: "store \<Rightarrow> JOINT \<Rightarrow> bool" where
  "IsTraceWidthChange h j =
     (if IS_Count h (jt_links j) (kind_num SEGMENT_T) \<noteq> 2 then False
      else case WidthChange_loop h (jt_links j) (None, None) of
             Some (Some seg1, Some seg2) \<Rightarrow> m_width (h seg1) \<noteq> m_width (h seg2)
           | _ \<Rightarrow> False)"

definition JOINT_NextSegment :: "store \<Rightarrow> JOINT \<Rightarrow> item_ref \<Rightarrow> bool \<Rightarrow> item_ref option" where
  "JOINT_NextSegment h j aCurrent aAllowLockedSegs =
     (if \<not> IsLineCorner h j aAllowLockedSegs then None
      else find (\<lambda>item. item \<noteq> aCurrent \<and> m_kind (h item) \<noteq> VIA_T) (jt_links j))"

definition JOINT_Via :: "store \<Rightarrow> JOINT \<Rightarrow> item_ref option" where
  "JOINT_Via h j = find (\<lambda>item. OfKind (h item) (kind_num VIA_T)) (jt_links j)"

section \<open>Lemmas\<close>

lemma JOINT_eq_iff [simp]: "JOINT_eq j k \<longleftrightarrow> jt_tag j = jt_tag k"
  by (cases "jt_tag j"; cases "jt_tag k"; auto simp: JOINT_eq_def)

lemma JOINT_Overlaps_iff: "JOINT_Overlaps j k \<longleftrightarrow> jt_tag j = jt_tag k \<and> LR_Overlaps (jt_layers j) (jt_layers k)"
  by (cases "jt_tag j"; cases "jt_tag k"; auto simp: JOINT_Overlaps_def)

lemma JOINT_make_simps [simp]:
  "jt_tag (JOINT_make p l n) = \<lparr> tag_pos = p, tag_net = n \<rparr>" "jt_layers (JOINT_make p l n) = l"
  "jt_links (JOINT_make p l n) = []" "jt_locked (JOINT_make p l n) = False"
  by (simp_all add: JOINT_make_def)

lemma JOINT_Link_simps [simp]:
  "jt_tag (JOINT_Link i j) = jt_tag j" "jt_layers (JOINT_Link i j) = jt_layers j"
  "jt_locked (JOINT_Link i j) = jt_locked j" "set (jt_links (JOINT_Link i j)) = insert i (set (jt_links j))"
  "distinct (jt_links (JOINT_Link i j)) \<longleftrightarrow> distinct (jt_links j)"
  by (auto simp: JOINT_Link_def IS_Contains_def)

lemma JOINT_Unlink_simps [simp]:
  "jt_tag (snd (JOINT_Unlink i j)) = jt_tag j" "jt_layers (snd (JOINT_Unlink i j)) = jt_layers j"
  "jt_locked (snd (JOINT_Unlink i j)) = jt_locked j"
  "distinct (jt_links j) \<Longrightarrow> set (jt_links (snd (JOINT_Unlink i j))) = set (jt_links j) - {i}"
  "distinct (jt_links j) \<Longrightarrow> distinct (jt_links (snd (JOINT_Unlink i j)))"
  by (simp_all add: JOINT_Unlink_def IS_Erase_def Let_def)

lemma JOINT_Merge_simps:
  assumes "jt_tag k = jt_tag j" and "LR_Overlaps (jt_layers j) (jt_layers k)"
  shows "jt_tag (JOINT_Merge j k) = jt_tag j"
    and "jt_layers (JOINT_Merge j k) = LR_Merge (jt_layers j) (jt_layers k)"
    and "jt_links (JOINT_Merge j k) = jt_links j @ jt_links k"
    and "jt_locked (JOINT_Merge j k) \<longleftrightarrow> jt_locked k \<or> jt_locked j"
  using assms by (simp_all add: JOINT_Merge_def JOINT_Overlaps_iff)

lemma add_track_simps [simp]:
  "add_track i (None, b) = (Some i, b)" "add_track i (Some a, b) = (Some a, Some i)"
  by (simp_all add: add_track_def)

text \<open>Only the real tracks are collected, and at a line corner every real item is one.\<close>

lemma LineCorner_loop_real:
  "LineCorner_loop h ls s = (let real = filter (\<lambda>i. \<not> m_isVirtual (h i)) ls in
     if list_all (\<lambda>i. m_kind (h i) \<in> {SEGMENT_T, ARC_T}) real then Some (fold add_track real s) else None)"
  by (induction ls arbitrary: s) (auto simp: Let_def)

lemma filter_two:
  assumes "distinct xs" and "length (filter P xs) = 2"
  obtains a b where "filter P xs = [a, b]" "a \<noteq> b" "{x \<in> set xs. P x} = {a, b}"
proof -
  from assms(2) obtain a b where ab: "filter P xs = [a, b]"
    by (auto simp: length_Suc_conv numeral_2_eq_2)
  moreover have "distinct [a, b]" unfolding ab [symmetric] using assms(1) by simp
  moreover have "{x \<in> set xs. P x} = {a, b}" unfolding set_filter [symmetric] ab by simp
  ultimately show thesis using that by simp
qed

lemma find_unique: "x \<in> set xs \<Longrightarrow> P x \<Longrightarrow> \<forall>y \<in> set xs. P y \<longrightarrow> y = x \<Longrightarrow> find P xs = Some x"
proof (induction xs)
  case (Cons z zs)
  show ?case
  proof (cases "P z")
    case True
    with Cons.prems(3) have "z = x" by (meson list.set_intros(1))
    with True show ?thesis by simp
  next
    case False
    with Cons.prems(1,2) have "x \<in> set zs" by (metis set_ConsD)
    moreover have "\<forall>y \<in> set zs. P y \<longrightarrow> y = x" using Cons.prems(3) by (meson list.set_intros(2))
    ultimately have "find P zs = Some x" by (rule Cons.IH [OF _ Cons.prems(2)])
    with False show ?thesis by simp
  qed
qed simp

text \<open>Joints as a node builds them: each item linked once, and only vias are virtual.\<close>

definition wf_links :: "store \<Rightarrow> item_set \<Rightarrow> bool" where
  "wf_links h ls \<longleftrightarrow> distinct ls \<and> (\<forall>i \<in> set ls. m_kind (h i) \<noteq> ANY_T \<and> (m_isVirtual (h i) \<longrightarrow> m_kind (h i) = VIA_T))"

lemma Count_tracks:
  assumes "wf_links h ls"
  shows "IS_Count h ls SEGMENT_OR_ARC = length (filter (\<lambda>i. m_kind (h i) \<in> {SEGMENT_T, ARC_T}) ls)"
proof -
  have "filter (\<lambda>i. OfKind (h i) SEGMENT_OR_ARC) ls = filter (\<lambda>i. m_kind (h i) \<in> {SEGMENT_T, ARC_T}) ls"
    using assms unfolding SEGMENT_OR_ARC_def
    by (intro filter_cong refl) (simp add: wf_links_def OfKind_seg_arc [simplified])
  then show ?thesis by (simp add: IS_Count_def) (simp add: SEGMENT_OR_ARC_def)
qed

lemma IsLineCorner_tracks:
  assumes "wf_links h (jt_links j)" and "IsLineCorner h j al"
  obtains a b where "a \<noteq> b" "{i \<in> set (jt_links j). m_kind (h i) \<noteq> VIA_T} = {a, b}"
    "m_width (h a) = m_width (h b)"
proof -
  let ?ls = "jt_links j"
  let ?tr = "\<lambda>i. m_kind (h i) \<in> {SEGMENT_T, ARC_T}"
  have "distinct ?ls" using assms(1) by (simp add: wf_links_def)
  moreover have two: "length (filter ?tr ?ls) = 2"
    using assms(2) by (auto simp: IsLineCorner_def Count_tracks [OF assms(1)] Let_def split: if_splits)
  ultimately obtain a b where ab: "filter ?tr ?ls = [a, b]" "a \<noteq> b" "{i \<in> set ?ls. ?tr i} = {a, b}"
    by (rule filter_two)
  show thesis
  proof (cases "length ?ls = 2")
    case True
    then have "filter ?tr ?ls = ?ls" using two by (metis filter_id_conv length_filter_less less_irrefl)
    then have ls: "?ls = [a, b]" using ab(1) by simp
    then have "?tr a" "?tr b" using ab(3) by auto
    then have "{i \<in> set ?ls. m_kind (h i) \<noteq> VIA_T} = {a, b}" using ls by auto
    moreover have "m_width (h a) = m_width (h b)"
      using assms(2) True two by (auto simp: IsLineCorner_def Count_tracks [OF assms(1)] ls Let_def split: if_splits)
    ultimately show thesis using that ab(2) by blast
  next
    case False
    then obtain p q where pq: "LineCorner_loop h ?ls (None, None) = Some (Some p, Some q)"
      "m_width (h p) = m_width (h q)"
      using assms(2) by (auto simp: IsLineCorner_def Let_def split: if_splits option.splits)
    then have real: "list_all ?tr (filter (\<lambda>i. \<not> m_isVirtual (h i)) ?ls)"
      "fold add_track (filter (\<lambda>i. \<not> m_isVirtual (h i)) ?ls) (None, None) = (Some p, Some q)"
      by (auto simp: LineCorner_loop_real Let_def split: if_splits)
    have "?tr i \<longleftrightarrow> \<not> m_isVirtual (h i)" if "i \<in> set ?ls" for i
      using real(1) assms(1) that by (auto simp: list_all_iff wf_links_def)
    then have eq: "filter (\<lambda>i. \<not> m_isVirtual (h i)) ?ls = [a, b]"
      using ab(1) by (metis (mono_tags, lifting) filter_cong)
    have "{i \<in> set ?ls. m_kind (h i) \<noteq> VIA_T} = {a, b}"
    proof -
      have "m_kind (h i) \<noteq> VIA_T \<longleftrightarrow> ?tr i" if "i \<in> set ?ls" for i
        using real(1) assms(1) that by (auto simp: list_all_iff wf_links_def)
      then show ?thesis using ab(3) by auto
    qed
    moreover have "p = a" "q = b" using real(2) by (simp_all add: eq)
    ultimately show thesis using that ab(2) pq(2) by blast
  qed
qed

text \<open>
  A line corner is passable in both directions: at a joint that links each item once, whose
  links have kinds an object can have and whose virtual items are vias, following the joint from
  one of the two tracks leads to the other, of the same width, and following it from there leads
  back.
\<close>

lemma NextSegment_involutive:
  assumes "wf_links h (jt_links j)" and "IsLineCorner h j al"
  shows "\<exists>a b. a \<noteq> b \<and> {a, b} \<subseteq> set (jt_links j) \<and> m_width (h a) = m_width (h b) \<and>
    JOINT_NextSegment h j a al = Some b \<and> JOINT_NextSegment h j b al = Some a"
proof -
  obtain a b where ab: "a \<noteq> b" "{i \<in> set (jt_links j). m_kind (h i) \<noteq> VIA_T} = {a, b}"
    "m_width (h a) = m_width (h b)"
    by (rule IsLineCorner_tracks [OF assms])
  have "JOINT_NextSegment h j x al = Some y"
    if "x \<noteq> y" "{i \<in> set (jt_links j). m_kind (h i) \<noteq> VIA_T} = {x, y}" for x y
  proof -
    have "find (\<lambda>i. i \<noteq> x \<and> m_kind (h i) \<noteq> VIA_T) (jt_links j) = Some y"
      by (rule find_unique) (use that in blast)+
    with assms(2) show ?thesis by (simp add: JOINT_NextSegment_def)
  qed
  from this [OF ab(1,2)] this [of b a] ab have "JOINT_NextSegment h j a al = Some b"
    "JOINT_NextSegment h j b al = Some a" by (auto simp: insert_commute)
  moreover have "{a, b} \<subseteq> set (jt_links j)" using ab(2) by blast
  ultimately show ?thesis using ab by blast
qed

lemma NextSegment_involutive_witness:
  "\<exists>a b. a \<noteq> b \<and> {a, b} \<subseteq> {3, 7} \<and>
    JOINT_NextSegment (\<lambda>_. ITEM_make SEGMENT_T) ((JOINT_make (0, 0) (LAYER_RANGE_single 0) None)\<lparr> jt_links := [3, 7] \<rparr>) a False = Some b \<and>
    JOINT_NextSegment (\<lambda>_. ITEM_make SEGMENT_T) ((JOINT_make (0, 0) (LAYER_RANGE_single 0) None)\<lparr> jt_links := [3, 7] \<rparr>) b False = Some a"
proof -
  let ?h = "\<lambda>_ :: nat. ITEM_make SEGMENT_T"
  let ?j = "(JOINT_make (0, 0) (LAYER_RANGE_single 0) None)\<lparr> jt_links := [3, 7] \<rparr>"
  have "wf_links ?h (jt_links ?j)" by (simp add: wf_links_def ITEM_make_def)
  moreover have "IsLineCorner ?h ?j False"
    by (simp add: IsLineCorner_def IS_Count_def SEGMENT_OR_ARC_def OfKind_def ITEM_IsLocked_def ITEM_make_def)
  ultimately show ?thesis
    using NextSegment_involutive [of ?h ?j False] by auto
qed

end
