(* ===== verification/PnsJointMap.thy ===== *)
theory PnsJointMap
  imports PnsJoint
begin

text \<open>
  The joints of a router node: the member \<open>m_joints\<close> of \<^verbatim>\<open>pcbnew/router/pns_node.h\<close> and the
  functions of \<^verbatim>\<open>pns_node.cpp\<close> that keep it.

  \<open>m_joints\<close> is a \<^verbatim>\<open>std::unordered_multimap\<close>, here the list of its entries in iteration order;
  entries with equal keys are what \<open>equal_range\<close> returns. A branch of the root node starts with
  an empty map and copies all joints of a tag from the root before it changes one of them, so
  every function takes the map of the root, \<open>None\<close> when the node is the root itself.

  \<open>wf_joints\<close> is the invariant: the joints of a tag lie on disjoint ranges of layers, and a joint
  covers the layers of all items it links. \<open>linked\<close> abstracts the maps of a node and its root to
  the items linked at each tag; the lemmas show that the operations act on it as insertion and
  removal.
\<close>

type_synonym joint_map = "(HASH_TAG \<times> JOINT) list"

section \<open>The multimap\<close>

definition equal_range :: "HASH_TAG \<Rightarrow> joint_map \<Rightarrow> joint_map" where
  "equal_range tag m = filter (\<lambda>tj. fst tj = tag) m"

text \<open>An entry is inserted after the entries with its key, or at the end when there are none.\<close>

fun mm_insert :: "HASH_TAG \<times> JOINT \<Rightarrow> joint_map \<Rightarrow> joint_map" where
  "mm_insert e [] = [e]"
| "mm_insert e (x # xs) =
     (if fst x = fst e \<and> \<not> list_ex (\<lambda>y. fst y = fst e) xs then x # e # xs
      else x # mm_insert e xs)"

section \<open>Touching, linking and unlinking\<close>

definition the_tag :: "vector2i \<Rightarrow> net_handle \<Rightarrow> HASH_TAG" where
  "the_tag aPos aNet = \<lparr> tag_pos = aPos, tag_net = aNet \<rparr>"

text \<open>Not found in a branch: the joints of the tag are copied from the root.\<close>

definition touch_copy :: "joint_map option \<Rightarrow> HASH_TAG \<Rightarrow> joint_map \<Rightarrow> joint_map" where
  "touch_copy root tag m =
     (case root of
        None \<Rightarrow> m
      | Some r \<Rightarrow> if equal_range tag m = [] then fold mm_insert (equal_range tag r) m else m)"

text \<open>The \<^verbatim>\<open>do ... while( merged )\<close> loop: the first overlapping joint of the tag is merged and erased.\<close>

function touch_merge :: "HASH_TAG \<Rightarrow> LAYER_RANGE \<Rightarrow> JOINT \<Rightarrow> joint_map \<Rightarrow> JOINT \<times> joint_map" where
  "touch_merge tag aLayers jt m =
     (case List.extract (\<lambda>tj. fst tj = tag \<and> LR_Overlaps aLayers (jt_layers (snd tj))) m of
        None \<Rightarrow> (jt, m)
      | Some (xs, f, ys) \<Rightarrow> touch_merge tag aLayers (JOINT_Merge jt (snd f)) (xs @ ys))"
  by pat_completeness auto
termination
  by (relation "measure (\<lambda>(tag, l, jt, m). length m)") (auto dest!: extract_SomeE)

declare touch_merge.simps [simp del]

text \<open>
  \<open>touchJoint\<close> inserts the merged joint and returns a reference to it, through which the caller
  changes it in place: here the joint and the map without it, into which \<open>put_joint\<close> inserts it.
\<close>

definition touchJoint :: "joint_map option \<Rightarrow> vector2i \<Rightarrow> LAYER_RANGE \<Rightarrow> net_handle \<Rightarrow> joint_map \<Rightarrow> JOINT \<times> joint_map" where
  "touchJoint root aPos aLayers aNet m =
     (let tag = the_tag aPos aNet;
          m = touch_copy root tag m
      in touch_merge tag aLayers (JOINT_make aPos aLayers aNet) m)"

definition put_joint :: "JOINT \<Rightarrow> joint_map \<Rightarrow> joint_map" where
  "put_joint jt m = mm_insert (jt_tag jt, jt) m"

definition linkJoint :: "joint_map option \<Rightarrow> vector2i \<Rightarrow> LAYER_RANGE \<Rightarrow> net_handle \<Rightarrow> item_ref \<Rightarrow> joint_map \<Rightarrow> joint_map" where
  "linkJoint root aPos aLayers aNet aWhere m =
     (let (jt, rest) = touchJoint root aPos aLayers aNet m
      in put_joint (JOINT_Link aWhere jt) rest)"

definition unlinkJoint :: "joint_map option \<Rightarrow> vector2i \<Rightarrow> LAYER_RANGE \<Rightarrow> net_handle \<Rightarrow> item_ref \<Rightarrow> joint_map \<Rightarrow> joint_map" where
  "unlinkJoint root aPos aLayers aNet aWhere m =
     (let (jt, rest) = touchJoint root aPos aLayers aNet m
      in put_joint (snd (JOINT_Unlink aWhere jt)) rest)"

definition LockJoint :: "store \<Rightarrow> joint_map option \<Rightarrow> vector2i \<Rightarrow> item_ref \<Rightarrow> bool \<Rightarrow> joint_map \<Rightarrow> joint_map" where
  "LockJoint h root aPos aItem aLock m =
     (let (jt, rest) = touchJoint root aPos (m_layers (h aItem)) (Net h aItem) m
      in put_joint (JOINT_Lock aLock jt) rest)"

section \<open>Finding\<close>

text \<open>
  The search starts at the first entry of the tag and runs to the end of the whole table, past
  the entries of the tag. \<open>later\<close> stands for the joints that the iteration order of the hash
  table puts after them, which nothing specifies.
\<close>

definition FindJoint ::
  "JOINT list \<Rightarrow> joint_map option \<Rightarrow> joint_map \<Rightarrow> vector2i \<Rightarrow> int \<Rightarrow> net_handle \<Rightarrow> JOINT option" where
  "FindJoint later root m aPos aLayer aNet =
     (let tag = the_tag aPos aNet;
          f = map snd (equal_range tag m);
          f = (case root of Some r \<Rightarrow> if f = [] then map snd (equal_range tag r) else f | None \<Rightarrow> f)
      in if f = [] then None
         else find (\<lambda>j. LR_Overlaps_layer (jt_layers j) aLayer) (f @ later))"

section \<open>Splitting a joint\<close>

text \<open>The loop that erases the joints the item overlaps, then the relinking of the other links.\<close>

function rebuild_erase :: "HASH_TAG \<Rightarrow> LAYER_RANGE \<Rightarrow> joint_map \<Rightarrow> joint_map" where
  "rebuild_erase tag itemLayers m =
     (case List.extract (\<lambda>tj. fst tj = tag \<and> LR_Overlaps itemLayers (jt_layers (snd tj))) m of
        None \<Rightarrow> m
      | Some (xs, f, ys) \<Rightarrow> rebuild_erase tag itemLayers (xs @ ys))"
  by pat_completeness auto
termination
  by (relation "measure (\<lambda>(tag, l, m). length m)") (auto dest!: extract_SomeE)

declare rebuild_erase.simps [simp del]

definition rebuildJoint :: "store \<Rightarrow> joint_map option \<Rightarrow> JOINT \<Rightarrow> item_ref \<Rightarrow> joint_map \<Rightarrow> joint_map" where
  "rebuildJoint h root aJoint aItem m =
     (let links = jt_links aJoint;
          net = Net h aItem;
          pos = tag_pos (jt_tag aJoint);
          m = rebuild_erase (the_tag pos net) (m_layers (h aItem)) m
      in fold (\<lambda>link m. if link \<noteq> aItem then linkJoint root pos (m_layers (h link)) net link m else m)
           links m)"

section \<open>The two loops in closed form\<close>

lemma extract_filter:
  assumes "List.extract P m = Some (xs, f, ys)"
  shows "filter P m = f # filter P (xs @ ys)" and "filter (\<lambda>x. \<not> P x) m = filter (\<lambda>x. \<not> P x) (xs @ ys)"
    and "P f" and "m = xs @ f # ys"
proof -
  from assms have m: "m = xs @ f # ys" "P f" "\<not> list_ex P xs" by (auto dest!: extract_SomeE simp: list_ex_iff)
  then have "filter P xs = []" by (auto simp: list_ex_iff filter_empty_conv)
  with m show "filter P m = f # filter P (xs @ ys)" "filter (\<lambda>x. \<not> P x) m = filter (\<lambda>x. \<not> P x) (xs @ ys)"
    "P f" "m = xs @ f # ys" by simp_all
qed

lemma extract_None_filter: "List.extract P m = None \<Longrightarrow> filter P m = [] \<and> filter (\<lambda>x. \<not> P x) m = m"
  by (auto simp: extract_None_iff list_ex_iff filter_empty_conv filter_id_conv)

definition hit :: "HASH_TAG \<Rightarrow> LAYER_RANGE \<Rightarrow> HASH_TAG \<times> JOINT \<Rightarrow> bool" where
  "hit tag l tj \<longleftrightarrow> fst tj = tag \<and> LR_Overlaps l (jt_layers (snd tj))"

lemma touch_merge_closed:
  "touch_merge tag l jt m
    = (fold (\<lambda>tj jt. JOINT_Merge jt (snd tj)) (filter (hit tag l) m) jt, filter (\<lambda>x. \<not> hit tag l x) m)"
proof (induction tag l jt m rule: touch_merge.induct)
  case (1 tag l jt m)
  have hit: "(\<lambda>tj. fst tj = tag \<and> LR_Overlaps l (jt_layers (snd tj))) = hit tag l"
    by (auto simp: hit_def)
  show ?case
  proof (cases "List.extract (hit tag l) m")
    case None
    with extract_None_filter [OF this] show ?thesis
      by (simp add: touch_merge.simps [of tag l jt m] hit)
  next
    case (Some r)
    obtain xs f ys where r: "r = (xs, f, ys)" by (cases r) auto
    note e = extract_filter [OF Some [unfolded r]]
    show ?thesis
      using 1 [unfolded hit, OF Some [unfolded r] refl refl] Some r e(1,2)
      by (simp add: touch_merge.simps [of tag l jt m] hit)
  qed
qed

lemma rebuild_erase_closed: "rebuild_erase tag l m = filter (\<lambda>x. \<not> hit tag l x) m"
proof (induction tag l m rule: rebuild_erase.induct)
  case (1 tag l m)
  have hit: "(\<lambda>tj. fst tj = tag \<and> LR_Overlaps l (jt_layers (snd tj))) = hit tag l"
    by (auto simp: hit_def)
  show ?case
  proof (cases "List.extract (hit tag l) m")
    case None
    with extract_None_filter [OF this] show ?thesis
      by (simp add: rebuild_erase.simps [of tag l m] hit)
  next
    case (Some r)
    obtain xs f ys where r: "r = (xs, f, ys)" by (cases r) auto
    note e = extract_filter [OF Some [unfolded r]]
    show ?thesis
      using 1 [unfolded hit, OF Some [unfolded r] refl refl] Some r e(2)
      by (simp add: rebuild_erase.simps [of tag l m] hit)
  qed
qed

lemma mset_mm_insert [simp]: "mset (mm_insert e m) = add_mset e (mset m)"
  by (induction m) auto

lemma set_mm_insert [simp]: "set (mm_insert e m) = insert e (set m)"
  by (induction m) auto

lemma sorted_wrt_mm_insert:
  assumes "\<And>x y. R x y \<Longrightarrow> R y x"
  shows "sorted_wrt R (mm_insert e m) \<longleftrightarrow> sorted_wrt R m \<and> (\<forall>x \<in> set m. R e x)"
  by (induction m) (auto dest: assms)

section \<open>The invariant\<close>

definition wf_entry :: "store \<Rightarrow> HASH_TAG \<times> JOINT \<Rightarrow> bool" where
  "wf_entry h e \<longleftrightarrow> jt_tag (snd e) = fst e \<and> wf_range (jt_layers (snd e)) \<and> distinct (jt_links (snd e)) \<and>
     (\<forall>i \<in> set (jt_links (snd e)). wf_range (m_layers (h i)) \<and>
        layers_of (m_layers (h i)) \<subseteq> layers_of (jt_layers (snd e)))"

definition apart :: "HASH_TAG \<times> JOINT \<Rightarrow> HASH_TAG \<times> JOINT \<Rightarrow> bool" where
  "apart e f \<longleftrightarrow> (fst e = fst f \<longrightarrow> layers_of (jt_layers (snd e)) \<inter> layers_of (jt_layers (snd f)) = {})"

definition wf_joints :: "store \<Rightarrow> joint_map \<Rightarrow> bool" where
  "wf_joints h m \<longleftrightarrow> (\<forall>e \<in> set m. wf_entry h e) \<and> sorted_wrt apart m"

definition wf_root :: "store \<Rightarrow> joint_map option \<Rightarrow> bool" where
  "wf_root h root \<longleftrightarrow> (case root of None \<Rightarrow> True | Some r \<Rightarrow> wf_joints h r)"

text \<open>The joints of a tag in a node, those of the root where the node has none.\<close>

definition joints_at :: "joint_map option \<Rightarrow> joint_map \<Rightarrow> HASH_TAG \<Rightarrow> JOINT set" where
  "joints_at root m tag = {j. (tag, j) \<in> set (touch_copy root tag m)}"

definition linked :: "joint_map option \<Rightarrow> joint_map \<Rightarrow> HASH_TAG \<Rightarrow> item_ref set" where
  "linked root m tag = (\<Union>j \<in> joints_at root m tag. set (jt_links j))"

lemma apart_sym: "apart e f \<Longrightarrow> apart f e"
  by (auto simp: apart_def)

lemma wf_joints_filter: "wf_joints h m \<Longrightarrow> wf_joints h (filter P m)"
  by (simp add: wf_joints_def sorted_wrt_filter)

lemma wf_joints_insert:
  "wf_joints h (mm_insert e m) \<longleftrightarrow> wf_joints h m \<and> wf_entry h e \<and> (\<forall>f \<in> set m. apart e f)"
  using sorted_wrt_mm_insert [of apart e m] apart_sym by (auto simp: wf_joints_def)

lemma apart_members:
  assumes "wf_joints h m" and "e \<in> set m" and "f \<in> set m" and "e \<noteq> f"
  shows "apart e f"
  using assms apart_sym unfolding wf_joints_def
  by (metis sorted_wrt_iff_nth_less in_set_conv_nth linorder_neqE_nat)

lemma wf_joints_Nil [simp]: "wf_joints h []"
  by (simp add: wf_joints_def)

lemma equal_range_empty: "equal_range tag m = [] \<longleftrightarrow> (\<forall>j. (tag, j) \<notin> set m)"
  by (auto simp: equal_range_def filter_empty_conv)

lemma set_fold_insert: "set (fold mm_insert es m) = set es \<union> set m"
  by (induction es arbitrary: m) auto

lemma wf_fold_insert:
  "wf_joints h es \<Longrightarrow> wf_joints h m \<Longrightarrow> \<forall>e \<in> set es. \<forall>f \<in> set m. apart e f \<Longrightarrow> wf_joints h (fold mm_insert es m)"
proof (induction es arbitrary: m)
  case Nil
  then show ?case by simp
next
  case (Cons e es)
  have "wf_joints h es" "wf_entry h e" "\<forall>f \<in> set es. apart e f"
    using Cons.prems(1) by (auto simp: wf_joints_def)
  moreover from this have "\<forall>e' \<in> set es. apart e' e" using apart_sym by blast
  ultimately show ?case using Cons.IH [of "mm_insert e m"] Cons.prems by (auto simp: wf_joints_insert)
qed

lemma set_touch_copy:
  "set (touch_copy root tag m) = set m \<union>
     (case root of None \<Rightarrow> {} | Some r \<Rightarrow> if equal_range tag m = [] then set (equal_range tag r) else {})"
  by (auto simp: touch_copy_def set_fold_insert split: option.splits)

lemma wf_touch_copy:
  assumes "wf_joints h m" and "wf_root h root"
  shows "wf_joints h (touch_copy root tag m)"
proof (cases root)
  case (Some r)
  have "apart e f" if "equal_range tag m = []" "e \<in> set (equal_range tag r)" "f \<in> set m" for e f
  proof -
    have "fst f \<noteq> tag" using that(1,3) by (cases f) (auto simp: equal_range_empty)
    with that(2) show ?thesis by (auto simp: apart_def equal_range_def)
  qed
  moreover have "wf_joints h (equal_range tag r)"
    using assms(2) Some by (simp add: wf_root_def equal_range_def wf_joints_filter)
  ultimately show ?thesis using assms(1) Some by (auto simp: touch_copy_def intro: wf_fold_insert)
qed (use assms in \<open>simp add: touch_copy_def\<close>)

lemma touch_copy_other: "t \<noteq> tag \<Longrightarrow> (t, j) \<in> set (touch_copy root tag m) \<longleftrightarrow> (t, j) \<in> set m"
  by (auto simp: set_touch_copy equal_range_def split: option.splits if_splits)

lemma joints_at_own: "(tag, j) \<in> set m \<Longrightarrow> joints_at root m tag = {j. (tag, j) \<in> set m}"
proof -
  assume "(tag, j) \<in> set m"
  then have "equal_range tag m \<noteq> []" by (auto simp: equal_range_empty)
  then show ?thesis by (auto simp: joints_at_def set_touch_copy split: option.splits)
qed

lemma joints_at_cong:
  assumes "\<And>j. (tag, j) \<in> set m \<longleftrightarrow> (tag, j) \<in> set m'"
  shows "joints_at root m tag = joints_at root m' tag"
  using assms by (auto simp: joints_at_def set_touch_copy equal_range_empty split: option.splits)

section \<open>What touching a joint does\<close>

lemma fold_merge:
  assumes "\<forall>e \<in> set es. jt_tag (snd e) = jt_tag jt \<and> wf_range (jt_layers (snd e)) \<and> LR_Overlaps l (jt_layers (snd e))"
    and "wf_range l" and "wf_range (jt_layers jt)" and "layers_of l \<subseteq> layers_of (jt_layers jt)"
    and "J = fold (\<lambda>tj jt. JOINT_Merge jt (snd tj)) es jt"
  shows "jt_tag J = jt_tag jt \<and> wf_range (jt_layers J) \<and>
    layers_of (jt_layers J) = layers_of (jt_layers jt) \<union> (\<Union>e \<in> set es. layers_of (jt_layers (snd e))) \<and>
    jt_links J = jt_links jt @ concat (map (\<lambda>e. jt_links (snd e)) es) \<and>
    (jt_locked J \<longleftrightarrow> jt_locked jt \<or> (\<exists>e \<in> set es. jt_locked (snd e)))"
  using assms(1,3,4,5)
proof (induction es arbitrary: jt)
  case Nil
  then show ?case by simp
next
  case (Cons e es)
  let ?k = "JOINT_Merge jt (snd e)"
  have e: "jt_tag (snd e) = jt_tag jt" "wf_range (jt_layers (snd e))" "LR_Overlaps l (jt_layers (snd e))"
    using Cons.prems(1) by simp_all
  have ov: "LR_Overlaps (jt_layers jt) (jt_layers (snd e))"
    using e(2,3) Cons.prems(2,3) assms(2) by (auto simp: Overlaps_iff)
  note k = JOINT_Merge_simps [OF e(1) ov]
  have kl: "layers_of (jt_layers ?k) = layers_of (jt_layers jt) \<union> layers_of (jt_layers (snd e))"
    unfolding k(2) by (rule layers_of_Merge [OF Cons.prems(2) e(2) ov])
  have kw: "wf_range (jt_layers ?k)" unfolding k(2) by (rule wf_Merge [OF Cons.prems(2) e(2)])
  have "jt_tag J = jt_tag ?k \<and> wf_range (jt_layers J) \<and>
    layers_of (jt_layers J) = layers_of (jt_layers ?k) \<union> (\<Union>e \<in> set es. layers_of (jt_layers (snd e))) \<and>
    jt_links J = jt_links ?k @ concat (map (\<lambda>e. jt_links (snd e)) es) \<and>
    (jt_locked J \<longleftrightarrow> jt_locked ?k \<or> (\<exists>e \<in> set es. jt_locked (snd e)))"
    by (rule Cons.IH) (use Cons.prems k(1) kw kl in auto)
  then show ?case by (auto simp: k(1,3,4) kl)
qed

lemma wf_entry_links_disjoint:
  assumes "wf_entry h e" and "wf_entry h f" and "apart e f" and "fst e = fst f"
  shows "set (jt_links (snd e)) \<inter> set (jt_links (snd f)) = {}"
proof -
  have False if "i \<in> set (jt_links (snd e))" "i \<in> set (jt_links (snd f))" for i
  proof -
    have "lr_start (m_layers (h i)) \<in> layers_of (jt_layers (snd e)) \<inter> layers_of (jt_layers (snd f))"
      using assms(1,2) that wf_range_ne [of "m_layers (h i)"] by (auto simp: wf_entry_def)
    with assms(3,4) show False by (auto simp: apart_def)
  qed
  then show ?thesis by blast
qed

lemma distinct_concat_links:
  "wf_joints h es \<Longrightarrow> \<forall>e \<in> set es. fst e = tag \<Longrightarrow> distinct (concat (map (\<lambda>e. jt_links (snd e)) es))"
proof (induction es)
  case Nil
  then show ?case by simp
next
  case (Cons e es)
  have "set (jt_links (snd e)) \<inter> set (jt_links (snd f)) = {}" if "f \<in> set es" for f
    by (rule wf_entry_links_disjoint [of h]) (use Cons.prems that in \<open>auto simp: wf_joints_def\<close>)
  with Cons show ?case by (fastforce simp: wf_joints_def wf_entry_def)
qed

text \<open>
  The joint that is touched: on its tag, it covers the given layers, it links all that the
  overlapping joints linked, it is apart from the joints left, and nothing is lost.
\<close>

lemma touchJoint_spec:
  assumes "wf_joints h m" and "wf_root h root" and "wf_range l"
    and touch: "touchJoint root p l n m = (J, rest)" and tag: "tag = the_tag p n"
  shows "jt_tag J = tag" and "wf_entry h (tag, J)" and "layers_of l \<subseteq> layers_of (jt_layers J)"
    and "wf_joints h rest" and "\<forall>f \<in> set rest. apart (tag, J) f"
    and "\<And>t j. t \<noteq> tag \<Longrightarrow> (t, j) \<in> set rest \<longleftrightarrow> (t, j) \<in> set m"
    and "\<And>j. (tag, j) \<in> set rest \<longleftrightarrow> j \<in> joints_at root m tag \<and> \<not> LR_Overlaps l (jt_layers j)"
    and "set (jt_links J) = (\<Union>j \<in> {j \<in> joints_at root m tag. LR_Overlaps l (jt_layers j)}. set (jt_links j))"
    and "jt_locked J \<longleftrightarrow> (\<exists>j \<in> joints_at root m tag. LR_Overlaps l (jt_layers j) \<and> jt_locked j)"
proof -
  define c where "c = touch_copy root tag m"
  define es where "es = filter (hit tag l) c"
  define jt where "jt = JOINT_make p l n"
  have jt: "jt_tag jt = tag" "jt_layers jt = l" "jt_links jt = []" "\<not> jt_locked jt"
    by (simp_all add: jt_def tag the_tag_def)
  have wfc: "wf_joints h c" unfolding c_def by (rule wf_touch_copy) fact+
  have J: "J = fold (\<lambda>tj jt. JOINT_Merge jt (snd tj)) es jt" and rest: "rest = filter (\<lambda>x. \<not> hit tag l x) c"
    using touch by (simp_all add: touchJoint_def Let_def touch_merge_closed tag [symmetric] c_def es_def jt_def)
  have es: "set es = {(tag, j) | j. j \<in> joints_at root m tag \<and> LR_Overlaps l (jt_layers j)}"
    by (auto simp: es_def hit_def joints_at_def c_def)
  have wfes: "wf_joints h es" using wfc by (simp add: es_def wf_joints_filter)
  have all: "\<forall>e \<in> set es. jt_tag (snd e) = jt_tag jt \<and> wf_range (jt_layers (snd e)) \<and> LR_Overlaps l (jt_layers (snd e))"
    using wfes by (auto simp: wf_joints_def wf_entry_def jt es)
  have f: "jt_tag J = jt_tag jt \<and> wf_range (jt_layers J) \<and>
    layers_of (jt_layers J) = layers_of (jt_layers jt) \<union> (\<Union>e \<in> set es. layers_of (jt_layers (snd e))) \<and>
    jt_links J = jt_links jt @ concat (map (\<lambda>e. jt_links (snd e)) es) \<and>
    (jt_locked J \<longleftrightarrow> jt_locked jt \<or> (\<exists>e \<in> set es. jt_locked (snd e)))"
    by (rule fold_merge [OF all assms(3)]) (simp_all add: jt J assms(3))
  show "jt_tag J = tag" using f jt by simp
  show "layers_of l \<subseteq> layers_of (jt_layers J)" using f jt by simp
  have links: "set (jt_links J) = (\<Union>e \<in> set es. set (jt_links (snd e)))" using f jt(3) by simp
  then show "set (jt_links J) = (\<Union>j \<in> {j \<in> joints_at root m tag. LR_Overlaps l (jt_layers j)}. set (jt_links j))"
    by (auto simp: es)
  show "jt_locked J \<longleftrightarrow> (\<exists>j \<in> joints_at root m tag. LR_Overlaps l (jt_layers j) \<and> jt_locked j)"
    using f jt(4) by (auto simp: es)
  have d: "distinct (jt_links J)"
  proof -
    have "\<forall>e \<in> set es. fst e = tag" by (auto simp: es)
    from distinct_concat_links [OF wfes this] f jt(3) show ?thesis by simp
  qed
  have "wf_range (m_layers (h i)) \<and> layers_of (m_layers (h i)) \<subseteq> layers_of (jt_layers J)"
    if i: "i \<in> set (jt_links J)" for i
  proof -
    from i links obtain e where e: "e \<in> set es" "i \<in> set (jt_links (snd e))" by blast
    with wfes have "wf_entry h e" by (simp add: wf_joints_def)
    with e f show ?thesis by (fastforce simp: wf_entry_def)
  qed
  with d f jt show "wf_entry h (tag, J)" by (simp add: wf_entry_def)
  show "wf_joints h rest" unfolding rest using wfc by (rule wf_joints_filter)
  have "apart (tag, J) e" if "e \<in> set rest" for e
  proof -
    have "layers_of (jt_layers J) \<inter> layers_of (jt_layers (snd e)) = {}" if fe: "fst e = tag"
    proof -
      have ec: "e \<in> set c" "wf_entry h e" "\<not> LR_Overlaps l (jt_layers (snd e))"
        using \<open>e \<in> set rest\<close> wfc fe by (auto simp: rest hit_def wf_joints_def)
      then have "layers_of l \<inter> layers_of (jt_layers (snd e)) = {}"
        using Overlaps_iff [OF assms(3)] by (auto simp: wf_entry_def)
      moreover have "layers_of (jt_layers (snd g)) \<inter> layers_of (jt_layers (snd e)) = {}" if g: "g \<in> set es" for g
      proof -
        have "g \<in> set c" "fst g = tag" "g \<noteq> e" using g ec(3) by (auto simp: es_def hit_def)
        then have "apart g e" using apart_members [OF wfc] ec(1) by blast
        then show ?thesis using fe \<open>fst g = tag\<close> by (simp add: apart_def)
      qed
      ultimately show ?thesis using f jt(2) by auto
    qed
    then show ?thesis by (auto simp: apart_def)
  qed
  then show "\<forall>f \<in> set rest. apart (tag, J) f" by blast
  show "(t, j) \<in> set rest \<longleftrightarrow> (t, j) \<in> set m" if "t \<noteq> tag" for t j
    using touch_copy_other [OF that] that by (auto simp: rest hit_def c_def)
  show "(tag, j) \<in> set rest \<longleftrightarrow> j \<in> joints_at root m tag \<and> \<not> LR_Overlaps l (jt_layers j)" for j
    by (auto simp: rest hit_def joints_at_def c_def)
qed

text \<open>Putting the joint back, changed in its links and its lock only.\<close>

lemma put_joint_spec:
  assumes "wf_joints h m" and "wf_root h root" and "wf_range l"
    and touch: "touchJoint root p l n m = (J, rest)" and tag: "tag = the_tag p n"
    and K: "jt_tag K = tag" "jt_layers K = jt_layers J" "wf_entry h (tag, K)"
  shows "wf_joints h (put_joint K rest)"
    and "joints_at root (put_joint K rest) tag
      = insert K {j \<in> joints_at root m tag. \<not> LR_Overlaps l (jt_layers j)}"
    and "t \<noteq> tag \<Longrightarrow> joints_at root (put_joint K rest) t = joints_at root m t"
    and "(tag, K) \<in> set (put_joint K rest)"
proof -
  note s = touchJoint_spec [OF assms(1-5)]
  have "\<forall>f \<in> set rest. apart (tag, K) f" using s(5) K(2) by (auto simp: apart_def)
  then show "wf_joints h (put_joint K rest)" using s(4) K by (simp add: put_joint_def wf_joints_insert)
  show m: "(tag, K) \<in> set (put_joint K rest)" by (simp add: put_joint_def K)
  show "joints_at root (put_joint K rest) tag
      = insert K {j \<in> joints_at root m tag. \<not> LR_Overlaps l (jt_layers j)}"
    using joints_at_own [OF m] s(7) by (auto simp: put_joint_def K)
  show "joints_at root (put_joint K rest) t = joints_at root m t" if "t \<noteq> tag"
    by (rule joints_at_cong) (use s(6) [OF that] that in \<open>auto simp: put_joint_def K\<close>)
qed

lemma wf_linkJoint:
  assumes "wf_joints h m" and "wf_root h root" and "wf_range (m_layers (h i))"
  shows "wf_joints h (linkJoint root p (m_layers (h i)) n i m)"
    and "linked root (linkJoint root p (m_layers (h i)) n i m) t
      = (if t = the_tag p n then insert i (linked root m t) else linked root m t)"
    and "\<exists>j. (the_tag p n, j) \<in> set (linkJoint root p (m_layers (h i)) n i m) \<and> i \<in> set (jt_links j) \<and>
      layers_of (m_layers (h i)) \<subseteq> layers_of (jt_layers j)"
proof -
  let ?l = "m_layers (h i)" and ?tag = "the_tag p n"
  obtain J rest where touch: "touchJoint root p ?l n m = (J, rest)" by fastforce
  note s = touchJoint_spec [OF assms touch refl]
  let ?K = "JOINT_Link i J"
  have K: "jt_tag ?K = ?tag" "jt_layers ?K = jt_layers J" "wf_entry h (?tag, ?K)"
    using s(1-3) assms(3) by (auto simp: wf_entry_def)
  note q = put_joint_spec [OF assms touch refl K]
  have e: "linkJoint root p ?l n i m = put_joint ?K rest" by (simp add: linkJoint_def touch)
  show "wf_joints h (linkJoint root p ?l n i m)" unfolding e by (rule q(1))
  show "linked root (linkJoint root p ?l n i m) t
      = (if t = ?tag then insert i (linked root m t) else linked root m t)"
  proof (cases "t = ?tag")
    case True
    then show ?thesis unfolding e linked_def by (auto simp: q(2) s(8))
  next
    case False
    then show ?thesis unfolding e linked_def by (simp add: q(3))
  qed
  show "\<exists>j. (?tag, j) \<in> set (linkJoint root p ?l n i m) \<and> i \<in> set (jt_links j) \<and>
      layers_of ?l \<subseteq> layers_of (jt_layers j)"
    unfolding e using q(4) s(3) by (intro exI [of _ ?K]) simp
qed

lemma linked_overlaps:
  assumes "wf_joints h m" and "wf_root h root" and "j \<in> joints_at root m t" and "i \<in> set (jt_links j)"
  shows "LR_Overlaps (m_layers (h i)) (jt_layers j)" and "wf_range (m_layers (h i))"
    and "k \<in> joints_at root m t \<Longrightarrow> i \<in> set (jt_links k) \<Longrightarrow> k = j"
proof -
  have w: "wf_joints h (touch_copy root t m)" by (rule wf_touch_copy) fact+
  then have e: "wf_entry h (t, j)" using assms(3) by (auto simp: wf_joints_def joints_at_def)
  with assms(4) show o: "LR_Overlaps (m_layers (h i)) (jt_layers j)" "wf_range (m_layers (h i))"
    using wf_range_ne [of "m_layers (h i)"] by (auto simp: wf_entry_def Overlaps_iff)
  assume k: "k \<in> joints_at root m t" "i \<in> set (jt_links k)"
  show "k = j"
  proof (rule ccontr)
    assume "k \<noteq> j"
    then have "apart (t, k) (t, j)"
      using k(1) assms(3) by (intro apart_members [OF w]) (auto simp: joints_at_def)
    moreover have "wf_entry h (t, k)" using w k(1) by (auto simp: wf_joints_def joints_at_def)
    ultimately show False
      using wf_entry_links_disjoint [of h "(t, k)" "(t, j)"] e k(2) assms(4) by auto
  qed
qed

lemma wf_unlinkJoint:
  assumes "wf_joints h m" and "wf_root h root" and "wf_range (m_layers (h i))"
  shows "wf_joints h (unlinkJoint root p (m_layers (h i)) n i m)"
    and "linked root (unlinkJoint root p (m_layers (h i)) n i m) t
      = (if t = the_tag p n then linked root m t - {i} else linked root m t)"
proof -
  let ?l = "m_layers (h i)" and ?tag = "the_tag p n"
  obtain J rest where touch: "touchJoint root p ?l n m = (J, rest)" by fastforce
  note s = touchJoint_spec [OF assms touch refl]
  let ?K = "snd (JOINT_Unlink i J)"
  have d: "distinct (jt_links J)" using s(2) by (simp add: wf_entry_def)
  have K: "jt_tag ?K = ?tag" "jt_layers ?K = jt_layers J" "wf_entry h (?tag, ?K)"
    using s(1,2) d by (auto simp: wf_entry_def)
  note q = put_joint_spec [OF assms touch refl K]
  have e: "unlinkJoint root p ?l n i m = put_joint ?K rest" by (simp add: unlinkJoint_def touch)
  show "wf_joints h (unlinkJoint root p ?l n i m)" unfolding e by (rule q(1))
  show "linked root (unlinkJoint root p ?l n i m) t
      = (if t = ?tag then linked root m t - {i} else linked root m t)"
  proof (cases "t = ?tag")
    case True
    have "i \<notin> set (jt_links j)" if "j \<in> joints_at root m ?tag" "\<not> LR_Overlaps ?l (jt_layers j)" for j
      using linked_overlaps(1) [OF assms(1,2) that(1)] that(2) by blast
    then show ?thesis using True unfolding e linked_def by (auto simp: q(2) s(8) d)
  next
    case False
    then show ?thesis unfolding e linked_def by (simp add: q(3))
  qed
qed

section \<open>Relinking\<close>

lemma wf_relink:
  assumes "wf_root h root" and "\<forall>k \<in> set ls. wf_range (m_layers (h k))" and "wf_joints h m"
    and "m' = fold (\<lambda>k m. if k \<noteq> i then linkJoint root p (m_layers (h k)) n k m else m) ls m"
  shows "wf_joints h m' \<and> (\<forall>t. linked root m' t
    = (if t = the_tag p n then linked root m t \<union> (set ls - {i}) else linked root m t))"
  using assms(2-4)
proof (induction ls arbitrary: m)
  case Nil
  then show ?case by simp
next
  case (Cons k ls)
  show ?case
  proof (cases "k = i")
    case True
    with Cons show ?thesis by simp
  next
    case False
    note w = wf_linkJoint [OF Cons.prems(2) assms(1), of k p n]
    have "wf_joints h m' \<and> (\<forall>t. linked root m' t
      = (if t = the_tag p n then linked root (linkJoint root p (m_layers (h k)) n k m) t \<union> (set ls - {i})
         else linked root (linkJoint root p (m_layers (h k)) n k m) t))"
      by (rule Cons.IH) (use Cons.prems False w(1) in auto)
    then show ?thesis using w(2) Cons.prems(1) False by auto
  qed
qed

lemma links_wf_range:
  assumes "wf_joints h m" and "wf_root h root" and "j \<in> joints_at root m t"
  shows "\<forall>k \<in> set (jt_links j). wf_range (m_layers (h k))"
  using linked_overlaps(2) [OF assms(1-3)] by blast

lemma rebuildJoint_unfold:
  assumes "jt_tag j = the_tag p (Net h i)"
  shows "rebuildJoint h root j i m
    = fold (\<lambda>k m. if k \<noteq> i then linkJoint root p (m_layers (h k)) (Net h i) k m else m) (jt_links j)
        (filter (\<lambda>x. \<not> hit (the_tag p (Net h i)) (m_layers (h i)) x) m)"
  using assms by (simp add: rebuildJoint_def Let_def rebuild_erase_closed the_tag_def)

text \<open>At a joint of the own map that links the item, the item overlaps no other joint of the tag.\<close>

lemma others_not_hit:
  assumes "wf_joints h m" and "wf_root h root" and "j \<in> joints_at root m t" and "i \<in> set (jt_links j)"
    and "k \<in> joints_at root m t" and "k \<noteq> j"
  shows "\<not> LR_Overlaps (m_layers (h i)) (jt_layers k)" and "set (jt_links k) \<inter> set (jt_links j) = {}"
proof -
  have w: "wf_joints h (touch_copy root t m)" by (rule wf_touch_copy) fact+
  then have e: "wf_entry h (t, j)" "wf_entry h (t, k)"
    using assms(3,5) by (auto simp: wf_joints_def joints_at_def)
  have a: "apart (t, j) (t, k)"
    using assms(3,5,6) by (intro apart_members [OF w]) (auto simp: joints_at_def)
  show "set (jt_links k) \<inter> set (jt_links j) = {}"
    using wf_entry_links_disjoint [OF e a] by auto
  have "layers_of (m_layers (h i)) \<inter> layers_of (jt_layers k) = {}"
    using e(1) a assms(4) by (auto simp: wf_entry_def apart_def)
  then show "\<not> LR_Overlaps (m_layers (h i)) (jt_layers k)"
    using e(1,2) assms(4) by (simp add: wf_entry_def Overlaps_iff)
qed

lemma rebuild_removes:
  assumes "wf_joints h m" and "wf_root h root" and "t = the_tag p (Net h i)"
    and "j \<in> joints_at root m t" and "i \<in> set (jt_links j)"
    and "root = None \<or> (\<exists>k. (t, k) \<in> set m \<and> \<not> LR_Overlaps (m_layers (h i)) (jt_layers k))"
  shows "wf_joints h (rebuildJoint h root j i m) \<and>
    (\<forall>u. linked root (rebuildJoint h root j i m) u = (if u = t then linked root m u - {i} else linked root m u))"
proof -
  define m' where "m' = filter (\<lambda>x. \<not> hit t (m_layers (h i)) x) m"
  have w: "wf_joints h (touch_copy root t m)" by (rule wf_touch_copy) fact+
  have jt: "jt_tag j = t" using w assms(4) by (auto simp: wf_joints_def wf_entry_def joints_at_def)
  have wfm': "wf_joints h m'" unfolding m'_def using assms(1) by (rule wf_joints_filter)
  have at: "joints_at root m' t = {k \<in> joints_at root m t. \<not> LR_Overlaps (m_layers (h i)) (jt_layers k)}"
    using assms(6)
  proof
    assume "root = None"
    then show ?thesis by (auto simp: joints_at_def touch_copy_def m'_def hit_def)
  next
    assume "\<exists>k. (t, k) \<in> set m \<and> \<not> LR_Overlaps (m_layers (h i)) (jt_layers k)"
    then obtain k where k: "(t, k) \<in> set m" "(t, k) \<in> set m'" by (auto simp: m'_def hit_def)
    show ?thesis unfolding joints_at_own [OF k(1)] joints_at_own [OF k(2)] by (auto simp: m'_def hit_def)
  qed
  also have "\<dots> = joints_at root m t - {j}"
    using others_not_hit(1) [OF assms(1,2,4,5)] linked_overlaps(1) [OF assms(1,2,4,5)] by blast
  finally have at': "joints_at root m' t = joints_at root m t - {j}" .
  have lt: "linked root m' t = linked root m t - set (jt_links j)"
    unfolding linked_def at' using others_not_hit(2) [OF assms(1,2,4,5)] assms(4) by blast
  have lu: "linked root m' u = linked root m u" if "u \<noteq> t" for u
    unfolding linked_def by (rule arg_cong [OF joints_at_cong]) (use that in \<open>auto simp: m'_def hit_def\<close>)
  have "jt_tag j = the_tag p (Net h i)" using jt assms(3) by simp
  then have r: "rebuildJoint h root j i m
    = fold (\<lambda>k m. if k \<noteq> i then linkJoint root p (m_layers (h k)) (Net h i) k m else m) (jt_links j) m'"
    by (simp only: m'_def assms(3) rebuildJoint_unfold)
  from wf_relink [OF assms(2) links_wf_range [OF assms(1,2,4)] wfm' r]
  have "wf_joints h (rebuildJoint h root j i m)"
    "linked root (rebuildJoint h root j i m) u
      = (if u = t then linked root m' u \<union> (set (jt_links j) - {i}) else linked root m' u)" for u
    by (simp_all add: assms(3))
  moreover have "linked root m t - set (jt_links j) \<union> (set (jt_links j) - {i}) = linked root m t - {i}"
    using assms(4,5) by (auto simp: linked_def)
  ultimately show ?thesis using lt lu by simp
qed

section \<open>Finding\<close>

definition joint_group :: "joint_map option \<Rightarrow> joint_map \<Rightarrow> HASH_TAG \<Rightarrow> JOINT list" where
  "joint_group root m tag =
     (let f = map snd (equal_range tag m)
      in case root of Some r \<Rightarrow> if f = [] then map snd (equal_range tag r) else f | None \<Rightarrow> f)"

lemma set_joint_group: "set (joint_group root m tag) = joints_at root m tag"
  by (force simp: joint_group_def joints_at_def set_touch_copy equal_range_def filter_empty_conv image_iff
      split: option.splits)

lemma FindJoint_group:
  "FindJoint later root m p l n =
     (let f = joint_group root m (the_tag p n)
      in if f = [] then None else find (\<lambda>j. LR_Overlaps_layer (jt_layers j) l) (f @ later))"
  by (simp add: FindJoint_def joint_group_def Let_def)

lemma find_append: "find P (xs @ ys) = (case find P xs of None \<Rightarrow> find P ys | Some x \<Rightarrow> Some x)"
  by (induction xs) simp_all

lemma FindJoint_covering:
  assumes "wf_joints h m" and "wf_root h root" and "j \<in> joints_at root m (the_tag p n)"
    and "l \<in> layers_of (jt_layers j)"
  shows "FindJoint later root m p l n = Some j"
proof -
  let ?t = "the_tag p n"
  have w: "wf_joints h (touch_copy root ?t m)" by (rule wf_touch_copy) fact+
  have uniq: "k = j" if "k \<in> joints_at root m ?t" "l \<in> layers_of (jt_layers k)" for k
  proof (rule ccontr)
    assume "k \<noteq> j"
    then have "apart (?t, k) (?t, j)"
      using that(1) assms(3) by (intro apart_members [OF w]) (auto simp: joints_at_def)
    with that(2) assms(4) show False by (auto simp: apart_def)
  qed
  have "find (\<lambda>j. LR_Overlaps_layer (jt_layers j) l) (joint_group root m ?t) = Some j"
  proof (rule find_unique; unfold set_joint_group Overlaps_layer_iff)
    show "\<forall>k \<in> joints_at root m ?t. l \<in> layers_of (jt_layers k) \<longrightarrow> k = j" using uniq by blast
  qed fact+
  moreover have "joint_group root m ?t \<noteq> []"
    using assms(3) set_joint_group [of root m ?t] by auto
  ultimately show ?thesis by (simp add: FindJoint_group find_append Let_def)
qed

section \<open>An example\<close>

text \<open>A via on layers 0 to 3 and a track on layer 0 that meet in one joint, for the instances below.\<close>

definition demo_store :: store where
  "demo_store i = (if i = 1 then (ITEM_make VIA_T)\<lparr> m_layers := LAYER_RANGE_make 0 3 \<rparr>
     else SetLayer 0 (ITEM_make SEGMENT_T))"

definition demo_joint :: JOINT where
  "demo_joint = (JOINT_make (0, 0) (LAYER_RANGE_make 0 3) None)\<lparr> jt_links := [1, 2] \<rparr>"

definition demo_map :: joint_map where
  "demo_map = [(the_tag (0, 0) None, demo_joint)]"

lemma demo_simps [simp]:
  "m_layers (demo_store 1) = \<lparr> lr_start = 0, lr_end = 3 \<rparr>" "m_layers (demo_store (Suc 0)) = \<lparr> lr_start = 0, lr_end = 3 \<rparr>"
  "m_layers (demo_store 2) = \<lparr> lr_start = 0, lr_end = 0 \<rparr>"
  "Net demo_store i = None" "jt_layers demo_joint = \<lparr> lr_start = 0, lr_end = 3 \<rparr>" "jt_links demo_joint = [1, 2]"
  by (simp_all add: Net_def demo_store_def demo_joint_def SetLayer_def LAYER_RANGE_make_def ITEM_make_def)

lemma wf_demo: "wf_joints demo_store demo_map"
  by (simp add: wf_joints_def demo_map_def wf_entry_def wf_range_def layers_of_def)
     (simp add: demo_joint_def the_tag_def)

lemma demo_at: "joints_at None demo_map (the_tag (0, 0) None) = {demo_joint}"
  "joints_at (Some demo_map) [] (the_tag (0, 0) None) = {demo_joint}"
  by (auto simp: joints_at_def demo_map_def touch_copy_def equal_range_def)

section \<open>Properties\<close>

text \<open>
  C16. The invariant of the joints of a node: every operation keeps it, in the root and in a branch.
\<close>

theorem joint_map_invariant:
  assumes "wf_joints h m" and "wf_root h root" and "wf_range (m_layers (h i))"
  shows "wf_joints h (linkJoint root p (m_layers (h i)) n i m) \<and>
    wf_joints h (unlinkJoint root p (m_layers (h i)) n i m) \<and>
    wf_joints h (LockJoint h root p i b m)"
proof -
  have "wf_joints h (LockJoint h root p i b m)"
  proof -
    let ?l = "m_layers (h i)" and ?n = "Net h i"
    obtain J rest where touch: "touchJoint root p ?l ?n m = (J, rest)" by fastforce
    note s = touchJoint_spec [OF assms touch refl]
    have K: "jt_tag (JOINT_Lock b J) = the_tag p ?n" "jt_layers (JOINT_Lock b J) = jt_layers J"
      "wf_entry h (the_tag p ?n, JOINT_Lock b J)"
      using s(1,2) by (auto simp: wf_entry_def JOINT_Lock_def)
    from put_joint_spec(1) [OF assms touch refl K] show ?thesis by (simp add: LockJoint_def touch)
  qed
  with wf_linkJoint(1) [OF assms] wf_unlinkJoint(1) [OF assms] show ?thesis by blast
qed

theorem joint_map_invariant_witness:
  "wf_joints (\<lambda>_. SetLayer 2 (ITEM_make VIA_T))
     (linkJoint (Some []) (0, 0) (m_layers (SetLayer 2 (ITEM_make VIA_T))) None 7 [])"
proof -
  have "wf_root (\<lambda>_. SetLayer 2 (ITEM_make VIA_T)) (Some [])" by (simp add: wf_root_def)
  moreover have "wf_range (m_layers (SetLayer 2 (ITEM_make VIA_T)))"
    by (simp add: SetLayer_def LAYER_RANGE_make_def wf_range_def)
  ultimately show ?thesis
    using joint_map_invariant [of "\<lambda>_. SetLayer 2 (ITEM_make VIA_T)" "[]" "Some []" 7 "(0, 0)" None] by simp
qed

text \<open>
  C17. Refinement: on the items linked at each tag, linking is insertion at one tag and unlinking
  is removal at that tag. A branch that has no joint of the tag sees the items of the root.
\<close>

theorem joint_map_refines_sets:
  assumes "wf_joints h m" and "wf_root h root" and "wf_range (m_layers (h i))"
  shows "linked root (linkJoint root p (m_layers (h i)) n i m)
      = (linked root m)(the_tag p n := insert i (linked root m (the_tag p n))) \<and>
    linked root (unlinkJoint root p (m_layers (h i)) n i m)
      = (linked root m)(the_tag p n := linked root m (the_tag p n) - {i})"
  using wf_linkJoint(2) [OF assms, of p n] wf_unlinkJoint(2) [OF assms, of p n] by (auto intro!: ext)

theorem joint_map_refines_sets_witness:
  "linked (Some []) (linkJoint (Some []) (0, 0) (m_layers (SetLayer 2 (ITEM_make VIA_T))) None 7 [])
      (the_tag (0, 0) None) = insert 7 (linked (Some []) [] (the_tag (0, 0) None))"
proof -
  have "wf_root (\<lambda>_. SetLayer 2 (ITEM_make VIA_T)) (Some [])" by (simp add: wf_root_def)
  moreover have "wf_range (m_layers (SetLayer 2 (ITEM_make VIA_T)))"
    by (simp add: SetLayer_def LAYER_RANGE_make_def wf_range_def)
  ultimately show ?thesis
    using joint_map_refines_sets [of "\<lambda>_. SetLayer 2 (ITEM_make VIA_T)" "[]" "Some []" 7 "(0, 0)" None] by simp
qed

text \<open>
  Lookup after linking: searching the position and the net of a linked item on any layer of
  the item finds the joint that links it, and that joint links every item of the tag on the
  layer, whatever the order of the hash table.
\<close>

lemma FindJoint_linked:
  assumes "wf_joints h m" and "wf_root h root" and "i \<in> linked root m (the_tag p n)"
    and "LR_Overlaps_layer (m_layers (h i)) l"
  shows "\<exists>j. FindJoint later root m p l n = Some j \<and> i \<in> set (jt_links j) \<and>
    {k \<in> linked root m (the_tag p n). LR_Overlaps_layer (m_layers (h k)) l} \<subseteq> set (jt_links j)"
proof -
  let ?t = "the_tag p n"
  have w: "wf_joints h (touch_copy root ?t m)" by (rule wf_touch_copy) fact+
  have cov: "l \<in> layers_of (jt_layers j)"
    if "j \<in> joints_at root m ?t" "k \<in> set (jt_links j)" "LR_Overlaps_layer (m_layers (h k)) l" for j k
  proof -
    have "wf_entry h (?t, j)" using w that(1) by (auto simp: wf_joints_def joints_at_def)
    with that(2,3) show ?thesis by (auto simp: wf_entry_def Overlaps_layer_iff)
  qed
  from assms(3) obtain j where j: "j \<in> joints_at root m ?t" "i \<in> set (jt_links j)"
    by (auto simp: linked_def)
  have F: "FindJoint later root m p l n = Some k" if "k \<in> joints_at root m ?t" "l \<in> layers_of (jt_layers k)" for k
    by (rule FindJoint_covering [OF assms(1,2) that])
  have "k \<in> set (jt_links j)" if k: "k \<in> linked root m ?t" "LR_Overlaps_layer (m_layers (h k)) l" for k
  proof -
    from k(1) obtain j' where j': "j' \<in> joints_at root m ?t" "k \<in> set (jt_links j')"
      by (auto simp: linked_def)
    have "j' = j" using F [OF j(1) cov [OF j assms(4)]] F [OF j'(1) cov [OF j' k(2)]] by simp
    with j'(2) show ?thesis by simp
  qed
  with F [OF j(1) cov [OF j assms(4)]] j(2) show ?thesis by blast
qed

lemma FindJoint_linked_witness:
  "\<exists>j. FindJoint [] None demo_map (0, 0) 0 None = Some j \<and> 2 \<in> set (jt_links j) \<and>
    {k \<in> linked None demo_map (the_tag (0, 0) None). LR_Overlaps_layer (m_layers (demo_store k)) 0}
      \<subseteq> set (jt_links j)"
  by (rule FindJoint_linked [OF wf_demo])
     (simp_all add: wf_root_def linked_def demo_at LR_Overlaps_layer_def)

text \<open>
  C31. Removing a via or a pad splits its joint: in the root node, and in a branch that keeps
  another joint of the tag, \<open>rebuildJoint\<close> unlinks exactly this item and keeps the invariant.
\<close>

theorem rebuildJoint_removes:
  assumes "wf_joints h m" and "wf_root h root" and "t = the_tag p (Net h i)"
    and "j \<in> joints_at root m t" and "i \<in> set (jt_links j)"
    and "root = None \<or> list_ex (\<lambda>e. fst e = t \<and> \<not> LR_Overlaps (m_layers (h i)) (jt_layers (snd e))) m"
  shows "wf_joints h (rebuildJoint h root j i m) \<and>
    linked root (rebuildJoint h root j i m) = (linked root m)(t := linked root m t - {i})"
proof -
  have "root = None \<or> (\<exists>k. (t, k) \<in> set m \<and> \<not> LR_Overlaps (m_layers (h i)) (jt_layers k))"
    using assms(6) by (auto simp: list_ex_iff)
  note r = rebuild_removes [OF assms(1-5) this]
  then have "linked root (rebuildJoint h root j i m) = (linked root m)(t := linked root m t - {i})"
    by (intro ext) simp
  with r show ?thesis by blast
qed

theorem rebuildJoint_removes_witness:
  "linked None (rebuildJoint demo_store None demo_joint 1 demo_map) (the_tag (0, 0) None)
    = linked None demo_map (the_tag (0, 0) None) - {1}"
proof -
  have "wf_root demo_store None" "demo_joint \<in> joints_at None demo_map (the_tag (0, 0) None)"
    "1 \<in> set (jt_links demo_joint)" "the_tag (0, 0) None = the_tag (0, 0) (Net demo_store 1)"
    by (simp_all add: wf_root_def demo_at)
  with rebuildJoint_removes [OF wf_demo, of None "the_tag (0, 0) None" "(0, 0)" 1 demo_joint]
  show ?thesis by (metis fun_upd_same)
qed

text \<open>
  In a branch where the joints of the tag all overlap the removed item, or that has none, the
  relinking copies the joints of the root back: an item that the root links at the tag, the
  removed one included, is still linked.
\<close>

lemma rebuildJoint_branch_restores:
  assumes "wf_joints h m" and "wf_joints h r" and "t = the_tag p (Net h i)"
    and "j \<in> joints_at (Some r) m t"
    and "list_all (\<lambda>e. fst e = t \<longrightarrow> LR_Overlaps (m_layers (h i)) (jt_layers (snd e))) m"
    and "k \<in> linked None r t"
  shows "k \<in> linked (Some r) (rebuildJoint h (Some r) j i m) t"
proof -
  define m' where "m' = filter (\<lambda>x. \<not> hit t (m_layers (h i)) x) m"
  have root: "wf_root h (Some r)" using assms(2) by (simp add: wf_root_def)
  have w: "wf_joints h (touch_copy (Some r) t m)" by (rule wf_touch_copy [OF assms(1) root])
  have jt: "jt_tag j = the_tag p (Net h i)"
    using w assms(3,4) by (auto simp: wf_joints_def wf_entry_def joints_at_def)
  have wfm': "wf_joints h m'" unfolding m'_def using assms(1) by (rule wf_joints_filter)
  have "equal_range t m' = []"
    using assms(5) by (auto simp: equal_range_empty m'_def hit_def list_all_iff)
  then have "k \<in> linked (Some r) m' t"
    using assms(6) by (auto simp: linked_def joints_at_def set_touch_copy equal_range_def)
  moreover have "rebuildJoint h (Some r) j i m
    = fold (\<lambda>k m. if k \<noteq> i then linkJoint (Some r) p (m_layers (h k)) (Net h i) k m else m) (jt_links j) m'"
    using jt by (simp only: m'_def assms(3) rebuildJoint_unfold)
  note wf_relink [OF root links_wf_range [OF assms(1) root assms(4)] wfm' this]
  ultimately show ?thesis by (simp add: assms(3))
qed

lemma rebuildJoint_branch_restores_witness:
  "1 \<in> linked (Some demo_map) (rebuildJoint demo_store (Some demo_map) demo_joint 1 []) (the_tag (0, 0) None)"
  by (rule rebuildJoint_branch_restores [OF wf_joints_Nil wf_demo])
     (auto simp: demo_at linked_def)

end
