(* ===== verification/PnsIndex.thy ===== *)
theory PnsIndex
  imports PnsItem
begin

text \<open>
  \<open>INDEX\<close> of \<^verbatim>\<open>pcbnew/router/pns_index.h\<close> and \<^verbatim>\<open>pns_index.cpp\<close>: the items of a node, in one
  spatial subindex per layer, in one list per net, and in one set of all items.

  A subindex (\<^verbatim>\<open>SHAPE_INDEX\<close>, an R-tree over the items' bounding boxes) is the list of the items
  in it; the geometric queries are not modelled. A \<^verbatim>\<open>std::unordered_set\<close> is the list of its
  elements in iteration order. The pointer to the list of a net is the list, \<open>None\<close> for a null
  pointer. The functions assert that an item has layers: \<open>None\<close> is a failed assertion or an
  access out of bounds.

  The lemmas show that the three structures always hold the same items, so that the index is a
  set with an insertion and a removal; \<open>item_container\<close> states that as an interface.
\<close>

record INDEX =
  m_subIndices :: "item_ref list list"
  m_netMap :: "nat \<Rightarrow> item_ref list option"
  m_allItems :: "item_ref list"

definition INDEX_empty :: INDEX where
  "INDEX_empty = \<lparr> m_subIndices = [], m_netMap = (\<lambda>_. None), m_allItems = [] \<rparr>"

text \<open>\<^verbatim>\<open>m_subIndices[i].Add( aItem )\<close> and \<^verbatim>\<open>m_subIndices[i].Remove( aItem )\<close>.\<close>

definition sub_at :: "(item_ref list \<Rightarrow> item_ref list) \<Rightarrow> int \<Rightarrow> item_ref list list \<Rightarrow> item_ref list list option" where
  "sub_at f i subs = (if 0 \<le> i \<and> nat i < length subs then Some (subs[nat i := f (subs ! nat i)]) else None)"

definition std_set_insert :: "item_ref \<Rightarrow> item_ref list \<Rightarrow> item_ref list" where
  "std_set_insert x s = (if x \<in> set s then s else s @ [x])"

definition INDEX_Add :: "store \<Rightarrow> item_ref \<Rightarrow> INDEX \<Rightarrow> INDEX option" where
  "INDEX_Add h aItem ix =
     (let range = m_layers (h aItem);
          subs = m_subIndices ix;
          subs = (if length subs \<le> size_t_of (lr_end range)
                  then subs @ replicate (size_t_of (2 * lr_end range + 1) - length subs) [] else subs)
      in if lr_start range = - 1 \<or> lr_end range = - 1 then None
         else do {
           subs \<leftarrow> fold_opt (sub_at (\<lambda>s. s @ [aItem])) [lr_start range..lr_end range] subs;
           Some (ix\<lparr> m_subIndices := subs,
             m_allItems := std_set_insert aItem (m_allItems ix),
             m_netMap := (case Net h aItem of
                 None \<Rightarrow> m_netMap ix
               | Some net \<Rightarrow> (m_netMap ix)(net \<mapsto>
                   (case m_netMap ix net of None \<Rightarrow> [] | Some l \<Rightarrow> l) @ [aItem])) \<rparr>)
         })"

definition INDEX_Remove :: "store \<Rightarrow> item_ref \<Rightarrow> INDEX \<Rightarrow> INDEX option" where
  "INDEX_Remove h aItem ix =
     (let range = m_layers (h aItem)
      in if lr_start range = - 1 \<or> lr_end range = - 1 then None
         else if length (m_subIndices ix) \<le> size_t_of (lr_end range) then Some ix
         else do {
           subs \<leftarrow> fold_opt (sub_at (remove1 aItem)) [lr_start range..lr_end range] (m_subIndices ix);
           Some (ix\<lparr> m_subIndices := subs,
             m_allItems := remove1 aItem (m_allItems ix),
             m_netMap := (case Net h aItem of
                 None \<Rightarrow> m_netMap ix
               | Some net \<Rightarrow> (case m_netMap ix net of
                   None \<Rightarrow> m_netMap ix
                 | Some l \<Rightarrow> (m_netMap ix)(net \<mapsto> removeAll aItem l))) \<rparr>)
         })"

definition INDEX_Replace :: "store \<Rightarrow> item_ref \<Rightarrow> item_ref \<Rightarrow> INDEX \<Rightarrow> INDEX option" where
  "INDEX_Replace h aOldItem aNewItem ix = do {
     ix \<leftarrow> INDEX_Remove h aOldItem ix;
     INDEX_Add h aNewItem ix
   }"

definition INDEX_GetItemsForNet :: "net_handle \<Rightarrow> INDEX \<Rightarrow> item_ref list option" where
  "INDEX_GetItemsForNet aNet ix = (case aNet of None \<Rightarrow> None | Some net \<Rightarrow> m_netMap ix net)"

definition INDEX_Contains :: "item_ref \<Rightarrow> INDEX \<Rightarrow> bool" where
  "INDEX_Contains aItem ix \<longleftrightarrow> aItem \<in> set (m_allItems ix)"

definition INDEX_Size :: "INDEX \<Rightarrow> nat" where
  "INDEX_Size ix = length (m_allItems ix)"

section \<open>The invariant\<close>

definition items_of :: "INDEX \<Rightarrow> item_ref set" where
  "items_of ix = set (m_allItems ix)"

text \<open>Layers an item can have in the index; the bound keeps \<^verbatim>\<open>2 * range.End() + 1\<close> an \<^verbatim>\<open>int\<close>.\<close>

definition wf_item :: "ITEM \<Rightarrow> bool" where
  "wf_item i \<longleftrightarrow> wf_range (m_layers i) \<and> lr_end (m_layers i) < 2 ^ 30"

definition net_list :: "INDEX \<Rightarrow> nat \<Rightarrow> item_ref list" where
  "net_list ix n = (case m_netMap ix n of None \<Rightarrow> [] | Some l \<Rightarrow> l)"

definition wf_index :: "store \<Rightarrow> INDEX \<Rightarrow> bool" where
  "wf_index h ix \<longleftrightarrow> distinct (m_allItems ix) \<and>
     (\<forall>i \<in> items_of ix. wf_item (h i) \<and> lr_end (m_layers (h i)) < int (length (m_subIndices ix))) \<and>
     (\<forall>l < length (m_subIndices ix). distinct (m_subIndices ix ! l) \<and>
        set (m_subIndices ix ! l) = {i \<in> items_of ix. int l \<in> layers_of (m_layers (h i))}) \<and>
     (\<forall>n. distinct (net_list ix n) \<and> set (net_list ix n) = {i \<in> items_of ix. Net h i = Some n})"

lemma wf_INDEX_empty [simp]: "wf_index h INDEX_empty" and items_of_empty [simp]: "items_of INDEX_empty = {}"
  by (simp_all add: wf_index_def INDEX_empty_def items_of_def net_list_def)

lemma fold_sub_at:
  assumes "0 \<le> a" and "b < int (length subs)"
  shows "\<exists>t. fold_opt (sub_at f) [a..b] subs = Some t \<and> length t = length subs \<and>
    (\<forall>l < length subs. t ! l = (if a \<le> int l \<and> int l \<le> b then f (subs ! l) else subs ! l))"
  using assms
proof (induction "nat (b - a + 1)" arbitrary: a subs)
  case 0
  then have "[a..b] = []" by simp
  moreover have "\<not> (a \<le> int l \<and> int l \<le> b)" for l using 0 by auto
  ultimately show ?case by auto
next
  case (Suc d)
  then have ab: "[a..b] = a # [a + 1..b]" and d: "d = nat (b - (a + 1) + 1)" and a: "nat a < length subs"
    by (auto simp: upto_rec1)
  let ?s = "subs[nat a := f (subs ! nat a)]"
  from Suc.hyps(1) [OF d, of ?s] Suc.prems obtain t where
    t: "fold_opt (sub_at f) [a + 1..b] ?s = Some t" "length t = length subs"
      "\<forall>l < length subs. t ! l = (if a + 1 \<le> int l \<and> int l \<le> b then f (?s ! l) else ?s ! l)"
    by auto
  have "t ! l = (if a \<le> int l \<and> int l \<le> b then f (subs ! l) else subs ! l)" if "l < length subs" for l
    using t(3) that Suc.prems Suc.hyps(2) by (cases "l = nat a") (auto simp: nth_list_update)
  with t(1,2) a Suc.prems(1) show ?case by (auto simp: ab sub_at_def)
qed

lemma size_t_of_small: "0 \<le> x \<Longrightarrow> x < 2 ^ 32 \<Longrightarrow> size_t_of x = nat x"
  by (simp add: size_t_of_nonneg)

lemma wf_item_facts:
  assumes "wf_item i"
  shows "lr_start (m_layers i) \<noteq> - 1" "lr_end (m_layers i) \<noteq> - 1" "0 \<le> lr_start (m_layers i)"
    "lr_start (m_layers i) \<le> lr_end (m_layers i)"
    "size_t_of (lr_end (m_layers i)) = nat (lr_end (m_layers i))"
    "size_t_of (2 * lr_end (m_layers i) + 1) = nat (2 * lr_end (m_layers i) + 1)"
  using assms by (auto simp: wf_item_def wf_range_def size_t_of_small)

lemma INDEX_Add_spec:
  assumes "wf_index h ix" and "wf_item (h i)" and "i \<notin> items_of ix"
  obtains ix' where "INDEX_Add h i ix = Some ix'" "wf_index h ix'" "items_of ix' = insert i (items_of ix)"
proof -
  let ?r = "m_layers (h i)"
  note w = wf_item_facts [OF assms(2)]
  define subs where "subs = (if length (m_subIndices ix) \<le> nat (lr_end ?r)
    then m_subIndices ix @ replicate (nat (2 * lr_end ?r + 1) - length (m_subIndices ix)) [] else m_subIndices ix)"
  have len: "lr_end ?r < int (length subs)" "length (m_subIndices ix) \<le> length subs"
    using w by (auto simp: subs_def)
  have sub: "distinct (subs ! l) \<and> set (subs ! l) = {k \<in> items_of ix. int l \<in> layers_of (m_layers (h k))}"
    if "l < length subs" for l
  proof (cases "l < length (m_subIndices ix)")
    case True
    then have "subs ! l = m_subIndices ix ! l" by (simp add: subs_def nth_append)
    with True assms(1) show ?thesis by (simp add: wf_index_def)
  next
    case False
    then have "subs ! l = []" using that by (auto simp: subs_def nth_append split: if_splits)
    moreover have "int l \<notin> layers_of (m_layers (h k))" if "k \<in> items_of ix" for k
      using assms(1) that False by (auto simp: wf_index_def layers_of_def)
    ultimately show ?thesis by simp
  qed
  from fold_sub_at [OF w(3) len(1), of "\<lambda>s. s @ [i]"] obtain t where
    t: "fold_opt (sub_at (\<lambda>s. s @ [i])) [lr_start ?r..lr_end ?r] subs = Some t" "length t = length subs"
    "\<forall>l < length subs. t ! l = (if lr_start ?r \<le> int l \<and> int l \<le> lr_end ?r then subs ! l @ [i] else subs ! l)"
    by blast
  define ix' where "ix' = ix\<lparr> m_subIndices := t, m_allItems := m_allItems ix @ [i],
    m_netMap := (case Net h i of None \<Rightarrow> m_netMap ix
      | Some net \<Rightarrow> (m_netMap ix)(net \<mapsto> (case m_netMap ix net of None \<Rightarrow> [] | Some l \<Rightarrow> l) @ [i])) \<rparr>"
  have "INDEX_Add h i ix = Some ix'"
    using w t(1) assms(3)
    by (cases "length (m_subIndices ix) \<le> nat (lr_end ?r)")
       (simp_all add: INDEX_Add_def Let_def subs_def ix'_def std_set_insert_def items_of_def)
  moreover have items: "items_of ix' = insert i (items_of ix)" by (simp add: ix'_def items_of_def)
  moreover have "wf_index h ix'"
  proof -
    have nets: "net_list ix' n = (if Net h i = Some n then net_list ix n @ [i] else net_list ix n)" for n
      by (auto simp: net_list_def ix'_def split: option.splits)
    have "distinct (m_subIndices ix' ! l) \<and>
        set (m_subIndices ix' ! l) = {k \<in> items_of ix'. int l \<in> layers_of (m_layers (h k))}"
      if "l < length (m_subIndices ix')" for l
      using that t(2,3) sub [of l] assms(3) unfolding items by (auto simp: ix'_def layers_of_def)
    moreover have "distinct (m_allItems ix')" using assms(1,3) by (simp add: wf_index_def ix'_def items_of_def)
    moreover have "wf_item (h k) \<and> lr_end (m_layers (h k)) < int (length (m_subIndices ix'))" if "k \<in> items_of ix'" for k
      using that assms(1,2) len t(2) unfolding items by (force simp: wf_index_def ix'_def)
    moreover have "distinct (net_list ix' n) \<and> set (net_list ix' n) = {k \<in> items_of ix'. Net h k = Some n}" for n
      using assms(1,3) unfolding items nets by (auto simp: wf_index_def)
    ultimately show ?thesis by (simp add: wf_index_def)
  qed
  ultimately show thesis using that by blast
qed

lemma INDEX_Remove_spec:
  assumes "wf_index h ix" and "wf_item (h i)"
  obtains ix' where "INDEX_Remove h i ix = Some ix'" "wf_index h ix'" "items_of ix' = items_of ix - {i}"
proof (cases "length (m_subIndices ix) \<le> nat (lr_end (m_layers (h i)))")
  case True
  have "lr_end (m_layers (h i)) < int (length (m_subIndices ix))" if "i \<in> items_of ix"
    using assms(1) that by (simp add: wf_index_def)
  moreover have "\<not> lr_end (m_layers (h i)) < int (length (m_subIndices ix))"
    using True wf_item_facts(3,4) [OF assms(2)] by linarith
  ultimately have "i \<notin> items_of ix" by blast
  have "INDEX_Remove h i ix = Some ix"
    using True wf_item_facts [OF assms(2)] by (simp add: INDEX_Remove_def)
  with \<open>i \<notin> items_of ix\<close> show thesis using that [of ix] assms(1) by simp
next
  case False
  let ?r = "m_layers (h i)"
  note w = wf_item_facts [OF assms(2)]
  have len: "lr_end ?r < int (length (m_subIndices ix))" using False w by linarith
  have dist: "distinct (m_allItems ix)" using assms(1) by (simp add: wf_index_def)
  from fold_sub_at [OF w(3) len, of "remove1 i"] obtain t where
    t: "fold_opt (sub_at (remove1 i)) [lr_start ?r..lr_end ?r] (m_subIndices ix) = Some t"
      "length t = length (m_subIndices ix)"
    "\<forall>l < length (m_subIndices ix). t ! l = (if lr_start ?r \<le> int l \<and> int l \<le> lr_end ?r
        then remove1 i (m_subIndices ix ! l) else m_subIndices ix ! l)"
    by blast
  define ix' where "ix' = ix\<lparr> m_subIndices := t, m_allItems := remove1 i (m_allItems ix),
    m_netMap := (case Net h i of None \<Rightarrow> m_netMap ix
      | Some net \<Rightarrow> (case m_netMap ix net of None \<Rightarrow> m_netMap ix
          | Some l \<Rightarrow> (m_netMap ix)(net \<mapsto> removeAll i l))) \<rparr>"
  have "INDEX_Remove h i ix = Some ix'"
    using w t(1) False by (simp add: INDEX_Remove_def Let_def ix'_def)
  moreover have items: "items_of ix' = items_of ix - {i}" using dist by (simp add: ix'_def items_of_def)
  moreover have "wf_index h ix'"
  proof -
    have nets: "net_list ix' n = (if Net h i = Some n then removeAll i (net_list ix n) else net_list ix n)" for n
      by (auto simp: net_list_def ix'_def split: option.splits)
    have "distinct (m_subIndices ix' ! l) \<and>
        set (m_subIndices ix' ! l) = {k \<in> items_of ix'. int l \<in> layers_of (m_layers (h k))}"
      if "l < length (m_subIndices ix')" for l
    proof -
      have "distinct (m_subIndices ix ! l)"
        "set (m_subIndices ix ! l) = {k \<in> items_of ix. int l \<in> layers_of (m_layers (h k))}"
        using that t(2) assms(1) by (simp_all add: ix'_def wf_index_def)
      then show ?thesis using that t(2,3) unfolding items by (auto simp: ix'_def layers_of_def)
    qed
    moreover have "distinct (m_allItems ix')" using dist by (simp add: ix'_def)
    moreover have "wf_item (h k) \<and> lr_end (m_layers (h k)) < int (length (m_subIndices ix'))" if "k \<in> items_of ix'" for k
      using that assms(1) t(2) unfolding items by (auto simp: wf_index_def ix'_def)
    moreover have "distinct (net_list ix' n) \<and> set (net_list ix' n) = {k \<in> items_of ix'. Net h k = Some n}" for n
      using assms(1) unfolding items nets by (auto simp: wf_index_def distinct_removeAll)
    ultimately show ?thesis by (simp add: wf_index_def)
  qed
  ultimately show thesis using that by blast
qed

section \<open>The interface of an item container\<close>

text \<open>
  What a node uses of its index: a set of items with a well-formedness, insertion of a new item
  and removal. \<open>ok\<close> says which items can be stored.
\<close>

locale item_container =
  fixes wf :: "'s \<Rightarrow> bool"
    and members :: "'s \<Rightarrow> 'i set"
    and ok :: "'i \<Rightarrow> bool"
    and add :: "'i \<Rightarrow> 's \<Rightarrow> 's option"
    and rem :: "'i \<Rightarrow> 's \<Rightarrow> 's option"
  assumes add_ok: "wf s \<Longrightarrow> ok i \<Longrightarrow> i \<notin> members s \<Longrightarrow>
      \<exists>t. add i s = Some t \<and> wf t \<and> members t = insert i (members s)"
    and rem_ok: "wf s \<Longrightarrow> ok i \<Longrightarrow> \<exists>t. rem i s = Some t \<and> wf t \<and> members t = members s - {i}"
begin

lemma add_all:
  assumes "wf s" and "distinct ls" and "\<forall>i \<in> set ls. ok i" and "set ls \<inter> members s = {}"
  shows "\<exists>t. fold_opt add ls s = Some t \<and> wf t \<and> members t = members s \<union> set ls"
  using assms
proof (induction ls arbitrary: s)
  case Nil
  then show ?case by simp
next
  case (Cons i ls)
  then obtain t where t: "add i s = Some t" "wf t" "members t = insert i (members s)"
    using add_ok [of s i] by auto
  from Cons.IH [OF t(2)] Cons.prems t(3) obtain u where
    "fold_opt add ls t = Some u" "wf u" "members u = members t \<union> set ls" by auto
  with t show ?case by auto
qed

lemma rem_all:
  assumes "wf s" and "\<forall>i \<in> set ls. ok i"
  shows "\<exists>t. fold_opt rem ls s = Some t \<and> wf t \<and> members t = members s - set ls"
  using assms
proof (induction ls arbitrary: s)
  case Nil
  then show ?case by simp
next
  case (Cons i ls)
  then obtain t where t: "rem i s = Some t" "wf t" "members t = members s - {i}"
    using rem_ok [of s i] by auto
  from Cons.IH [OF t(2)] Cons.prems obtain u where
    "fold_opt rem ls t = Some u" "wf u" "members u = members t - set ls" by auto
  with t show ?case by auto
qed

lemma replace:
  assumes "wf s" and "ok i" and "ok k" and "k \<notin> members s - {i}"
  shows "\<exists>t. Option.bind (rem i s) (add k) = Some t \<and> wf t \<and> members t = insert k (members s - {i})"
proof -
  from rem_ok [OF assms(1,2)] obtain t where t: "rem i s = Some t" "wf t" "members t = members s - {i}"
    by blast
  with add_ok [OF t(2) assms(3)] assms(4) show ?thesis by auto
qed

end

interpretation item_index: item_container "wf_index h" items_of "\<lambda>i. wf_item (h i)" "INDEX_Add h" "INDEX_Remove h"
  for h
proof unfold_locales
  fix s i
  assume a: "wf_index h s" "wf_item (h i)"
  show "\<exists>t. INDEX_Remove h i s = Some t \<and> wf_index h t \<and> items_of t = items_of s - {i}"
    using INDEX_Remove_spec [OF a] by metis
  assume "i \<notin> items_of s"
  from INDEX_Add_spec [OF a this]
  show "\<exists>t. INDEX_Add h i s = Some t \<and> wf_index h t \<and> items_of t = insert i (items_of s)"
    by metis
qed

text \<open>
  C18. The index is a set of items: adding a new item and removing one succeed and keep the
  subindices, the lists of the nets and the set of all items in agreement; replacing an item
  exchanges the two; the list of a net has the items of that net, each once.
\<close>

theorem INDEX_refines_set:
  assumes "wf_index h ix" and "wf_item (h i)" and "wf_item (h k)" and "k \<notin> items_of ix"
  shows "(\<exists>jx. INDEX_Add h k ix = Some jx \<and> wf_index h jx \<and> items_of jx = insert k (items_of ix)) \<and>
    (\<exists>jx. INDEX_Remove h i ix = Some jx \<and> wf_index h jx \<and> items_of jx = items_of ix - {i}) \<and>
    (\<exists>jx. INDEX_Replace h i k ix = Some jx \<and> wf_index h jx \<and> items_of jx = insert k (items_of ix - {i})) \<and>
    (case INDEX_GetItemsForNet (Some n) ix of
       None \<Rightarrow> {j \<in> items_of ix. Net h j = Some n} = {}
     | Some l \<Rightarrow> distinct l \<and> set l = {j \<in> items_of ix. Net h j = Some n})"
proof -
  have "k \<notin> items_of ix - {i}" using assms(4) by blast
  note r = item_index.replace [OF assms(1,2,3) this]
  have "distinct (net_list ix n) \<and> set (net_list ix n) = {j \<in> items_of ix. Net h j = Some n}"
    using assms(1) by (simp add: wf_index_def)
  then have "case INDEX_GetItemsForNet (Some n) ix of
       None \<Rightarrow> {j \<in> items_of ix. Net h j = Some n} = {}
     | Some l \<Rightarrow> distinct l \<and> set l = {j \<in> items_of ix. Net h j = Some n}"
    by (auto simp: INDEX_GetItemsForNet_def net_list_def split: option.splits)
  with r item_index.add_ok [OF assms(1,3,4)] item_index.rem_ok [OF assms(1,2)] show ?thesis
    by (simp add: INDEX_Replace_def)
qed

theorem INDEX_refines_set_witness:
  "\<exists>jx. INDEX_Add (\<lambda>_. SetLayer 2 (ITEM_make VIA_T)) 7 INDEX_empty = Some jx \<and>
    wf_index (\<lambda>_. SetLayer 2 (ITEM_make VIA_T)) jx \<and> items_of jx = {7}"
proof -
  have "wf_item (SetLayer 2 (ITEM_make VIA_T))"
    by (simp add: SetLayer_def LAYER_RANGE_make_def wf_item_def wf_range_def)
  with INDEX_refines_set [of "\<lambda>_. SetLayer 2 (ITEM_make VIA_T)" INDEX_empty 3 7 0] show ?thesis by simp
qed

end
