(* ===== verification/PnsNode.thy ===== *)
theory PnsNode
  imports PnsJointMap PnsIndex
begin

text \<open>
  \<open>NODE\<close> of \<^verbatim>\<open>pcbnew/router/pns_node.h\<close> and \<^verbatim>\<open>pns_node.cpp\<close>: the router's world of items, as a root
  node with a tree of branches, each of which records what it adds to the root and which items
  of the root it overrides.

  The state is a \<open>WORLD\<close>: the store of items, the nodes that are alive, and the items that have
  been deleted. A node is referred to by a number, its address; an operation takes the number
  of the node it is called on (\<open>this\<close>) and returns the changed world, \<open>None\<close> for a failed
  assertion, a null pointer or an access out of bounds. Unordered sets are lists in iteration
  order. Collision queries, line assembly and the rule resolver are not modelled.

  The lemmas show what each operation does to a node whose index and joints are well-formed
  (\<open>node_inv\<close>), in the root and in a branch, and which part of the world it leaves alone
  (\<open>frame\<close>, \<open>quiet\<close>).
\<close>

section \<open>State\<close>

record NODE =
  n_parent :: "nat option"
  n_root :: nat
  n_children :: "nat list"
  n_joints :: joint_map
  n_override :: "item_ref list"
  n_maxClearance :: int
  n_index :: INDEX
  n_depth :: int
  n_garbageItems :: "item_ref list"

record WORLD =
  w_items :: store
  w_nodes :: "nat \<Rightarrow> NODE option"
  w_deleted :: "item_ref list"

definition isRoot :: "NODE \<Rightarrow> bool" where
  "isRoot nd \<longleftrightarrow> n_parent nd = None"

definition Overrides :: "NODE \<Rightarrow> item_ref \<Rightarrow> bool" where
  "Overrides nd aItem \<longleftrightarrow> aItem \<in> set (n_override nd)"

definition NODE_make :: "nat \<Rightarrow> NODE" where
  "NODE_make this =
     \<lparr> n_parent = None, n_root = this, n_children = [], n_joints = [], n_override = [],
       n_maxClearance = 800000, n_index = INDEX_empty, n_depth = 0, n_garbageItems = [] \<rparr>"

definition set_node :: "nat \<Rightarrow> NODE \<Rightarrow> WORLD \<Rightarrow> WORLD" where
  "set_node this nd w = w\<lparr> w_nodes := (w_nodes w)(this \<mapsto> nd) \<rparr>"

definition set_owner :: "item_ref \<Rightarrow> owner option \<Rightarrow> WORLD \<Rightarrow> WORLD" where
  "set_owner i aOwner w = w\<lparr> w_items := SetOwner i aOwner (w_items w) \<rparr>"

text \<open>What a node sees of its root: nothing when it is the root itself.\<close>

definition root_joints :: "WORLD \<Rightarrow> NODE \<Rightarrow> joint_map option option" where
  "root_joints w nd =
     (if isRoot nd then Some None else map_option (\<lambda>r. Some (n_joints r)) (w_nodes w (n_root nd)))"

definition on_joints :: "nat \<Rightarrow> (joint_map option \<Rightarrow> joint_map \<Rightarrow> joint_map) \<Rightarrow> WORLD \<Rightarrow> WORLD option" where
  "on_joints this f w = do {
     nd \<leftarrow> w_nodes w this;
     root \<leftarrow> root_joints w nd;
     Some (set_node this (nd\<lparr> n_joints := f root (n_joints nd) \<rparr>) w)
   }"

definition on_index :: "nat \<Rightarrow> (INDEX \<Rightarrow> INDEX option) \<Rightarrow> WORLD \<Rightarrow> WORLD option" where
  "on_index this f w = do {
     nd \<leftarrow> w_nodes w this;
     ix \<leftarrow> f (n_index nd);
     Some (set_node this (nd\<lparr> n_index := ix \<rparr>) w)
   }"

definition node_link :: "nat \<Rightarrow> vector2i \<Rightarrow> item_ref \<Rightarrow> WORLD \<Rightarrow> WORLD option" where
  "node_link this aPos i w =
     (let h = w_items w
      in on_joints this (\<lambda>root. linkJoint root aPos (m_layers (h i)) (Net h i) i) w)"

definition node_unlink :: "nat \<Rightarrow> vector2i \<Rightarrow> item_ref \<Rightarrow> WORLD \<Rightarrow> WORLD option" where
  "node_unlink this aPos i w =
     (let h = w_items w
      in on_joints this (\<lambda>root. unlinkJoint root aPos (m_layers (h i)) (Net h i) i) w)"

definition node_FindJoint :: "JOINT list \<Rightarrow> nat \<Rightarrow> vector2i \<Rightarrow> int \<Rightarrow> net_handle \<Rightarrow> WORLD \<Rightarrow> JOINT option option" where
  "node_FindJoint later this aPos aLayer aNet w = do {
     nd \<leftarrow> w_nodes w this;
     root \<leftarrow> root_joints w nd;
     Some (FindJoint later root (n_joints nd) aPos aLayer aNet)
   }"

section \<open>Adding items\<close>

definition node_addHole :: "nat \<Rightarrow> item_ref \<Rightarrow> WORLD \<Rightarrow> WORLD option" where
  "node_addHole this aHole w =
     (let w = set_owner aHole (Some (OwnerNode this)) w
      in on_index this (INDEX_Add (w_items w) aHole) w)"

text \<open>The hole of a pad or via must be owned by it when the pad or via is added.\<close>

definition add_own_hole :: "nat \<Rightarrow> item_ref \<Rightarrow> WORLD \<Rightarrow> WORLD option" where
  "add_own_hole this i w =
     (if HasHole (w_items w i) then do {
        hole \<leftarrow> m_hole (w_items w i);
        if BelongsTo (w_items w hole) (Some (OwnerItem i)) then node_addHole this hole w else None
      } else Some w)"

definition addSolid :: "nat \<Rightarrow> item_ref \<Rightarrow> WORLD \<Rightarrow> WORLD option" where
  "addSolid this aSolid w = do {
     w \<leftarrow> add_own_hole this aSolid w;
     w \<leftarrow> (if m_routable (w_items w aSolid)
           then node_link this (m_anchor0 (w_items w aSolid)) aSolid w else Some w);
     let w = set_owner aSolid (Some (OwnerNode this)) w;
     on_index this (INDEX_Add (w_items w) aSolid) w
   }"

definition addVia :: "nat \<Rightarrow> item_ref \<Rightarrow> WORLD \<Rightarrow> WORLD option" where
  "addVia this aVia w = do {
     w \<leftarrow> add_own_hole this aVia w;
     w \<leftarrow> node_link this (m_anchor0 (w_items w aVia)) aVia w;
     let w = set_owner aVia (Some (OwnerNode this)) w;
     on_index this (INDEX_Add (w_items w) aVia) w
   }"

definition add_track_item :: "nat \<Rightarrow> item_ref \<Rightarrow> WORLD \<Rightarrow> WORLD option" where
  "add_track_item this i w = do {
     let w = set_owner i (Some (OwnerNode this)) w;
     w \<leftarrow> node_link this (m_anchor0 (w_items w i)) i w;
     w \<leftarrow> node_link this (m_anchor1 (w_items w i)) i w;
     on_index this (INDEX_Add (w_items w) i) w
   }"

definition addSegment :: "nat \<Rightarrow> item_ref \<Rightarrow> WORLD \<Rightarrow> WORLD option" where
  "addSegment this aSeg w = add_track_item this aSeg w"

definition addArc :: "nat \<Rightarrow> item_ref \<Rightarrow> WORLD \<Rightarrow> WORLD option" where
  "addArc this aArc w = add_track_item this aArc w"

definition node_add :: "nat \<Rightarrow> item_ref \<Rightarrow> WORLD \<Rightarrow> WORLD option" where
  "node_add this aItem w =
     (case m_kind (w_items w aItem) of
        ARC_T \<Rightarrow> addArc this aItem w
      | SEGMENT_T \<Rightarrow> addSegment this aItem w
      | VIA_T \<Rightarrow> addVia this aItem w
      | SOLID_T \<Rightarrow> addSolid this aItem w
      | HOLE_T \<Rightarrow> Some w
      | _ \<Rightarrow> None)"

definition NODE_Add_solid :: "nat \<Rightarrow> item_ref \<Rightarrow> WORLD \<Rightarrow> WORLD option" where
  "NODE_Add_solid this aSolid w = addSolid this aSolid (set_owner aSolid (Some (OwnerNode this)) w)"

definition NODE_Add_via :: "nat \<Rightarrow> item_ref \<Rightarrow> WORLD \<Rightarrow> WORLD option" where
  "NODE_Add_via this aVia w = addVia this aVia w"

text \<open>The first track of the given kind among the links that joins the two points on the layer.\<close>

definition same_track :: "store \<Rightarrow> PnsKind \<Rightarrow> vector2i \<Rightarrow> vector2i \<Rightarrow> LAYER_RANGE \<Rightarrow> item_ref \<Rightarrow> bool" where
  "same_track h kind A B lr i \<longleftrightarrow>
     OfKind (h i) (kind_num kind) \<and> lr_start (m_layers (h i)) = lr_start lr \<and>
     (A = m_anchor0 (h i) \<and> B = m_anchor1 (h i) \<or> A = m_anchor1 (h i) \<and> B = m_anchor0 (h i))"

definition findRedundant ::
  "PnsKind \<Rightarrow> JOINT list \<Rightarrow> nat \<Rightarrow> vector2i \<Rightarrow> vector2i \<Rightarrow> LAYER_RANGE \<Rightarrow> net_handle \<Rightarrow> WORLD \<Rightarrow> item_ref option option" where
  "findRedundant kind later this A B lr aNet w = do {
     jtStart \<leftarrow> node_FindJoint later this A (lr_start lr) aNet w;
     Some (case jtStart of
        None \<Rightarrow> None
      | Some jt \<Rightarrow> find (same_track (w_items w) kind A B lr) (jt_links jt))
   }"

definition findRedundantSegment ::
  "JOINT list \<Rightarrow> nat \<Rightarrow> vector2i \<Rightarrow> vector2i \<Rightarrow> LAYER_RANGE \<Rightarrow> net_handle \<Rightarrow> WORLD \<Rightarrow> item_ref option option" where
  "findRedundantSegment = findRedundant SEGMENT_T"

definition findRedundantArc ::
  "JOINT list \<Rightarrow> nat \<Rightarrow> vector2i \<Rightarrow> vector2i \<Rightarrow> LAYER_RANGE \<Rightarrow> net_handle \<Rightarrow> WORLD \<Rightarrow> item_ref option option" where
  "findRedundantArc = findRedundant ARC_T"

text \<open>Adding a segment or an arc reports whether it was added; an item that is not is destroyed.\<close>

definition NODE_Add_segment :: "JOINT list \<Rightarrow> nat \<Rightarrow> item_ref \<Rightarrow> bool \<Rightarrow> WORLD \<Rightarrow> (bool \<times> WORLD) option" where
  "NODE_Add_segment later this aSegment aAllowRedundant w =
     (let h = w_items w; s = h aSegment;
          destroyed = w\<lparr> w_deleted := aSegment # w_deleted w \<rparr>
      in if m_anchor0 s = m_anchor1 s then Some (False, destroyed)
         else do {
           r \<leftarrow> (if aAllowRedundant then Some None
                 else findRedundantSegment later this (m_anchor0 s) (m_anchor1 s) (m_layers s) (Net h aSegment) w);
           if r \<noteq> None then Some (False, destroyed)
           else do { w \<leftarrow> addSegment this aSegment w; Some (True, w) }
         })"

definition NODE_Add_arc :: "JOINT list \<Rightarrow> nat \<Rightarrow> item_ref \<Rightarrow> bool \<Rightarrow> WORLD \<Rightarrow> (bool \<times> WORLD) option" where
  "NODE_Add_arc later this aArc aAllowRedundant w =
     (let h = w_items w; s = h aArc;
          destroyed = w\<lparr> w_deleted := aArc # w_deleted w \<rparr>
      in do {
           r \<leftarrow> (if aAllowRedundant then Some None
                 else findRedundantArc later this (m_anchor0 s) (m_anchor1 s) (m_layers s) (Net h aArc) w);
           if r \<noteq> None then Some (False, destroyed)
           else do { w \<leftarrow> addArc this aArc w; Some (True, w) }
         })"

section \<open>Removing items\<close>

definition override_item :: "nat \<Rightarrow> item_ref \<Rightarrow> WORLD \<Rightarrow> WORLD option" where
  "override_item this i w = do {
     nd \<leftarrow> w_nodes w this;
     Some (set_node this (nd\<lparr> n_override := std_set_insert i (n_override nd) \<rparr>) w)
   }"

definition add_garbage :: "nat \<Rightarrow> item_ref \<Rightarrow> WORLD \<Rightarrow> WORLD option" where
  "add_garbage root i w = do {
     nd \<leftarrow> w_nodes w root;
     Some (set_node root (nd\<lparr> n_garbageItems := std_set_insert i (n_garbageItems nd) \<rparr>) w)
   }"

text \<open>
  \<open>doRemove\<close> in two steps: an item of the root is overridden in a branch and any other is taken
  out of the index; an item of this very node goes to the garbage of the root.
\<close>

definition doRemove_store :: "nat \<Rightarrow> NODE \<Rightarrow> item_ref \<Rightarrow> WORLD \<Rightarrow> WORLD option" where
  "doRemove_store this nd aItem w =
     (let i = w_items w aItem; ofRoot = BelongsTo i (Some (OwnerNode (n_root nd)))
      in if ofRoot \<and> \<not> isRoot nd then do {
           w \<leftarrow> override_item this aItem w;
           if HasHole i then do { hole \<leftarrow> m_hole i; override_item this hole w } else Some w
         } else if \<not> ofRoot \<or> isRoot nd then do {
           w \<leftarrow> on_index this (INDEX_Remove (w_items w) aItem) w;
           if HasHole i then do { hole \<leftarrow> m_hole i; on_index this (INDEX_Remove (w_items w) hole) w }
           else Some w
         } else Some w)"

definition doRemove_disown :: "nat \<Rightarrow> NODE \<Rightarrow> item_ref \<Rightarrow> WORLD \<Rightarrow> WORLD option" where
  "doRemove_disown this nd aItem w =
     (if BelongsTo (w_items w aItem) (Some (OwnerNode this)) then do {
        w \<leftarrow> add_garbage (n_root nd) aItem (set_owner aItem None w);
        case m_hole (w_items w aItem) of
          None \<Rightarrow> Some w
        | Some hole \<Rightarrow> do {
            w \<leftarrow> on_index this (INDEX_Remove (w_items w) hole) w;
            Some (set_owner hole (Some (OwnerItem aItem)) w)
          }
      } else Some w)"

definition doRemove :: "nat \<Rightarrow> item_ref \<Rightarrow> WORLD \<Rightarrow> WORLD option" where
  "doRemove this aItem w = do {
     nd \<leftarrow> w_nodes w this;
     w \<leftarrow> doRemove_store this nd aItem w;
     doRemove_disown this nd aItem w
   }"

definition removeTrackIndex :: "nat \<Rightarrow> item_ref \<Rightarrow> WORLD \<Rightarrow> WORLD option" where
  "removeTrackIndex this i w = do {
     w \<leftarrow> node_unlink this (m_anchor0 (w_items w i)) i w;
     node_unlink this (m_anchor1 (w_items w i)) i w
   }"

definition removeSegmentIndex :: "nat \<Rightarrow> item_ref \<Rightarrow> WORLD \<Rightarrow> WORLD option" where
  "removeSegmentIndex = removeTrackIndex"

definition removeArcIndex :: "nat \<Rightarrow> item_ref \<Rightarrow> WORLD \<Rightarrow> WORLD option" where
  "removeArcIndex = removeTrackIndex"

definition removeViaIndex :: "JOINT list \<Rightarrow> nat \<Rightarrow> item_ref \<Rightarrow> WORLD \<Rightarrow> WORLD option" where
  "removeViaIndex later this aVia w = do {
     let h = w_items w;
     jt \<leftarrow> node_FindJoint later this (m_anchor0 (h aVia)) (lr_start (m_layers (h aVia))) (Net h aVia) w;
     jt \<leftarrow> jt;
     on_joints this (\<lambda>root. rebuildJoint h root jt aVia) w
   }"

definition removeSolidIndex :: "JOINT list \<Rightarrow> nat \<Rightarrow> item_ref \<Rightarrow> WORLD \<Rightarrow> WORLD option" where
  "removeSolidIndex later this aSolid w =
     (if \<not> m_routable (w_items w aSolid) then Some w
      else do {
        let h = w_items w;
        jt \<leftarrow> node_FindJoint later this (m_anchor0 (h aSolid)) (lr_start (m_layers (h aSolid))) (Net h aSolid) w;
        jt \<leftarrow> jt;
        on_joints this (\<lambda>root. rebuildJoint h root jt aSolid) w
      })"

definition NODE_Remove_solid :: "JOINT list \<Rightarrow> nat \<Rightarrow> item_ref \<Rightarrow> WORLD \<Rightarrow> WORLD option" where
  "NODE_Remove_solid later this aSolid w = do {
     w \<leftarrow> removeSolidIndex later this aSolid w;
     doRemove this aSolid w
   }"

definition NODE_Remove_via :: "JOINT list \<Rightarrow> nat \<Rightarrow> item_ref \<Rightarrow> WORLD \<Rightarrow> WORLD option" where
  "NODE_Remove_via later this aVia w = do {
     w \<leftarrow> removeViaIndex later this aVia w;
     w \<leftarrow> doRemove this aVia w;
     if m_owner (w_items w aVia) = None then do {
       hole \<leftarrow> m_hole (w_items w aVia);
       if BelongsTo (w_items w hole) (Some (OwnerItem aVia)) then Some w else None
     } else Some w
   }"

definition NODE_Remove_segment :: "nat \<Rightarrow> item_ref \<Rightarrow> WORLD \<Rightarrow> WORLD option" where
  "NODE_Remove_segment this aSegment w = do {
     w \<leftarrow> removeSegmentIndex this aSegment w;
     doRemove this aSegment w
   }"

definition NODE_Remove_arc :: "nat \<Rightarrow> item_ref \<Rightarrow> WORLD \<Rightarrow> WORLD option" where
  "NODE_Remove_arc this aArc w = do {
     w \<leftarrow> removeArcIndex this aArc w;
     doRemove this aArc w
   }"

text \<open>
  The hole of a pad or via is passed to \<open>Remove\<close> first, which does nothing for a hole, and then
  given back to its parent.
\<close>

definition own_hole_back :: "item_ref \<Rightarrow> WORLD \<Rightarrow> WORLD option" where
  "own_hole_back i w =
     (if HasHole (w_items w i) then do {
        hole \<leftarrow> m_hole (w_items w i);
        Some (set_owner hole (Some (OwnerItem i)) w)
      } else Some w)"

definition Remove_single :: "JOINT list \<Rightarrow> nat \<Rightarrow> item_ref \<Rightarrow> WORLD \<Rightarrow> WORLD option" where
  "Remove_single later this aItem w =
     (case m_kind (w_items w aItem) of
        ARC_T \<Rightarrow> NODE_Remove_arc this aItem w
      | SOLID_T \<Rightarrow> do { w \<leftarrow> own_hole_back aItem w; NODE_Remove_solid later this aItem w }
      | SEGMENT_T \<Rightarrow> NODE_Remove_segment this aItem w
      | VIA_T \<Rightarrow> do { w \<leftarrow> own_hole_back aItem w; NODE_Remove_via later this aItem w }
      | _ \<Rightarrow> Some w)"

text \<open>The links of a line are segments, arcs and vias, so the recursion is one level deep.\<close>

definition NODE_Remove :: "JOINT list \<Rightarrow> nat \<Rightarrow> item_ref \<Rightarrow> WORLD \<Rightarrow> WORLD option" where
  "NODE_Remove later this aItem w =
     (if m_kind (w_items w aItem) = LINE_T
      then fold_opt (Remove_single later this) (m_lineLinks (w_items w aItem)) w
      else Remove_single later this aItem w)"

definition NODE_Remove_line :: "nat \<Rightarrow> item_ref \<Rightarrow> WORLD \<Rightarrow> WORLD option" where
  "NODE_Remove_line this aLine w = do {
     w \<leftarrow> fold_opt (\<lambda>li w.
            if OfKind (w_items w li) (kind_num SEGMENT_T) then NODE_Remove_segment this li w
            else if OfKind (w_items w li) (kind_num ARC_T) then NODE_Remove_arc this li w
            else Some w) (m_lineLinks (w_items w aLine)) w;
     let w = set_owner aLine None w;
     Some (w\<lparr> w_items := (w_items w)(aLine := (w_items w aLine)\<lparr> m_lineLinks := [] \<rparr>) \<rparr>)
   }"

definition NODE_Replace :: "JOINT list \<Rightarrow> nat \<Rightarrow> item_ref \<Rightarrow> item_ref \<Rightarrow> WORLD \<Rightarrow> WORLD option" where
  "NODE_Replace later this aOldItem aNewItem w = do {
     w \<leftarrow> NODE_Remove later this aOldItem w;
     node_add this aNewItem w
   }"

definition RemoveByMarker :: "JOINT list \<Rightarrow> nat \<Rightarrow> int \<Rightarrow> WORLD \<Rightarrow> WORLD option" where
  "RemoveByMarker later this aMarker w = do {
     nd \<leftarrow> w_nodes w this;
     let garbage = filter (\<lambda>i. m_marker (w_items w i) AND aMarker \<noteq> 0) (m_allItems (n_index nd));
     fold_opt (NODE_Remove later this) garbage w
   }"

definition ClearRanks :: "nat \<Rightarrow> int \<Rightarrow> WORLD \<Rightarrow> WORLD option" where
  "ClearRanks this aMarkerMask w = do {
     nd \<leftarrow> w_nodes w this;
     Some (fold (\<lambda>i w. w\<lparr> w_items := (w_items w)(i :=
             (w_items w i)\<lparr> m_rank := - 1, m_marker := m_marker (w_items w i) AND NOT aMarkerMask \<rparr>) \<rparr>)
           (m_allItems (n_index nd)) w)
   }"

section \<open>Queries\<close>

definition GetUpdatedItems :: "nat \<Rightarrow> WORLD \<Rightarrow> (item_ref list \<times> item_ref list) option" where
  "GetUpdatedItems this w = do {
     nd \<leftarrow> w_nodes w this;
     Some (if isRoot nd then ([], []) else (n_override nd, m_allItems (n_index nd)))
   }"

definition AllItemsInNet :: "nat \<Rightarrow> net_handle \<Rightarrow> int \<Rightarrow> WORLD \<Rightarrow> item_ref set option" where
  "AllItemsInNet this aNet aKindMask w = do {
     nd \<leftarrow> w_nodes w this;
     root \<leftarrow> w_nodes w (n_root nd);
     let pick = (\<lambda>i. OfKind (w_items w i) aKindMask \<and> m_routable (w_items w i));
     let own = (case INDEX_GetItemsForNet aNet (n_index nd) of None \<Rightarrow> [] | Some l_cur \<Rightarrow> filter pick l_cur);
     let inherited = (if isRoot nd then []
       else case INDEX_GetItemsForNet aNet (n_index root) of
              None \<Rightarrow> []
            | Some l_root \<Rightarrow> filter (\<lambda>i. \<not> Overrides nd i \<and> pick i) l_root);
     Some (set own \<union> set inherited)
   }"

text \<open>\<open>parent_net\<close> is the net of the board item when that is connected, \<open>None\<close> when it is not.\<close>

definition FindItemByParent :: "nat \<Rightarrow> nat \<Rightarrow> net_handle option \<Rightarrow> WORLD \<Rightarrow> item_ref option option" where
  "FindItemByParent this aParent parent_net w = do {
     nd \<leftarrow> w_nodes w this;
     Some (case parent_net of
         None \<Rightarrow> None
       | Some net \<Rightarrow> (case INDEX_GetItemsForNet net (n_index nd) of
           None \<Rightarrow> None
         | Some l_cur \<Rightarrow> find (\<lambda>i. m_parent (w_items w i) = Some aParent) l_cur))
   }"

definition FindItemsByZone :: "nat \<Rightarrow> nat \<Rightarrow> WORLD \<Rightarrow> item_ref list option" where
  "FindItemsByZone this aParent w = do {
     nd \<leftarrow> w_nodes w this;
     Some (filter (\<lambda>i. m_parent (w_items w i) = Some aParent) (m_allItems (n_index nd)))
   }"

text \<open>\<open>inBox\<close> is the containment test of the box \<open>aBox\<close>. A joint is no item of the root, so the
  test whether the node overrides it is on the address of the joint, which no override has.\<close>

definition QueryJoints :: "nat \<Rightarrow> (vector2i \<Rightarrow> bool) \<Rightarrow> LAYER_RANGE \<Rightarrow> int \<Rightarrow> WORLD \<Rightarrow> (nat \<times> JOINT list) option" where
  "QueryJoints this inBox aLayerMask aKindMask w = do {
     nd \<leftarrow> w_nodes w this;
     root \<leftarrow> w_nodes w (n_root nd);
     let pick = (\<lambda>j. LR_Overlaps (jt_layers j) aLayerMask \<and> inBox (tag_pos (jt_tag j)) \<and>
                  JOINT_LinkCount (w_items w) j aKindMask \<noteq> 0);
     let own = filter pick (map snd (n_joints nd));
     let aJoints = (if isRoot nd then own else own @ filter pick (map snd (n_joints root)));
     Some (length aJoints, aJoints)
   }"

section \<open>Branches\<close>

text \<open>\<open>child\<close> is the address of the node that \<^verbatim>\<open>new\<close> returns.\<close>

definition NODE_Branch :: "nat \<Rightarrow> nat \<Rightarrow> WORLD \<Rightarrow> WORLD option" where
  "NODE_Branch this child w = do {
     nd \<leftarrow> w_nodes w this;
     if w_nodes w child \<noteq> None then None
     else do {
       let fresh = (NODE_make child)\<lparr> n_depth := n_depth nd + 1, n_parent := Some this,
             n_root := (if isRoot nd then this else n_root nd), n_maxClearance := n_maxClearance nd \<rparr>;
       c \<leftarrow> (if isRoot nd then Some fresh
             else do {
               ix \<leftarrow> fold_opt (INDEX_Add (w_items w)) (m_allItems (n_index nd)) (n_index fresh);
               Some (fresh\<lparr> n_index := ix, n_joints := n_joints nd, n_override := n_override nd \<rparr>)
             });
       Some (set_node child c (set_node this (nd\<lparr> n_children := n_children nd @ [child] \<rparr>) w))
     }
   }"

definition unlinkParent :: "nat \<Rightarrow> WORLD \<Rightarrow> WORLD option" where
  "unlinkParent this w = do {
     nd \<leftarrow> w_nodes w this;
     case n_parent nd of
       None \<Rightarrow> Some w
     | Some p \<Rightarrow> do {
         pd \<leftarrow> w_nodes w p;
         Some (set_node p (pd\<lparr> n_children := removeAll this (n_children pd) \<rparr>) w)
       }
   }"

text \<open>
  What the destructor of an item deletes: a via its hole when it owns it, a pad its hole in any case,
  any other item only itself.
\<close>

definition VIA_destroy :: "store \<Rightarrow> item_ref \<Rightarrow> item_ref list" where
  "VIA_destroy h i =
     (case m_hole (h i) of
        None \<Rightarrow> []
      | Some hole \<Rightarrow> if BelongsTo (h hole) (Some (OwnerItem i)) then [hole] else [])"

definition SOLID_destroy :: "store \<Rightarrow> item_ref \<Rightarrow> item_ref list" where
  "SOLID_destroy h i = (case m_hole (h i) of None \<Rightarrow> [] | Some hole \<Rightarrow> [hole])"

definition ITEM_destroy :: "store \<Rightarrow> item_ref \<Rightarrow> item_ref list" where
  "ITEM_destroy h i =
     i # (case m_kind (h i) of VIA_T \<Rightarrow> VIA_destroy h i | SOLID_T \<Rightarrow> SOLID_destroy h i | _ \<Rightarrow> [])"

definition releaseGarbage :: "nat \<Rightarrow> WORLD \<Rightarrow> WORLD option" where
  "releaseGarbage this w = do {
     nd \<leftarrow> w_nodes w this;
     if \<not> isRoot nd then Some w
     else Some (set_node this (nd\<lparr> n_garbageItems := [] \<rparr>)
            (w\<lparr> w_deleted := concat (map (ITEM_destroy (w_items w))
                   (filter (\<lambda>i. \<not> BelongsTo (w_items w i) (Some (OwnerNode this))) (n_garbageItems nd))) @
                 w_deleted w \<rparr>))
   }"

text \<open>The destructor: a node that has children fails its assertion.\<close>

definition NODE_destroy :: "nat \<Rightarrow> WORLD \<Rightarrow> WORLD option" where
  "NODE_destroy this w = do {
     nd \<leftarrow> w_nodes w this;
     if n_children nd \<noteq> [] then None
     else do {
       let toDelete = filter (\<lambda>i. BelongsTo (w_items w i) (Some (OwnerNode this)) \<and>
             OfKind (w_items w i) (kind_num HOLE_T)) (m_allItems (n_index nd));
       let w = w\<lparr> w_deleted := toDelete @ w_deleted w \<rparr>;
       w \<leftarrow> releaseGarbage this w;
       w \<leftarrow> unlinkParent this w;
       Some (w\<lparr> w_nodes := (w_nodes w)(this := None) \<rparr>)
     }
   }"

text \<open>
  The recursion over the tree of children. The fuel bounds the height of the tree below \<open>this\<close>;
  \<open>releaseChildren_returns\<close> shows that any bound above it is enough.
\<close>

fun releaseChildren :: "nat \<Rightarrow> nat \<Rightarrow> WORLD \<Rightarrow> WORLD option" where
  "releaseChildren 0 this w = None"
| "releaseChildren (Suc fuel) this w = do {
     nd \<leftarrow> w_nodes w this;
     fold_opt (\<lambda>node w. do { w \<leftarrow> releaseChildren fuel node w; NODE_destroy node w }) (n_children nd) w
   }"

definition KillChildren :: "nat \<Rightarrow> nat \<Rightarrow> WORLD \<Rightarrow> WORLD option" where
  "KillChildren = releaseChildren"

definition commit_item :: "nat \<Rightarrow> item_ref \<Rightarrow> WORLD \<Rightarrow> WORLD option" where
  "commit_item this item w = do {
     w \<leftarrow> own_hole_back item w;
     let w = w\<lparr> w_items := (w_items w)(item := Unmark (- 1) ((w_items w item)\<lparr> m_rank := - 1 \<rparr>)) \<rparr>;
     node_add this item w
   }"

definition NODE_Commit :: "nat \<Rightarrow> JOINT list \<Rightarrow> nat \<Rightarrow> nat \<Rightarrow> WORLD \<Rightarrow> WORLD option" where
  "NODE_Commit fuel later this aNode w = do {
     a \<leftarrow> w_nodes w aNode;
     if isRoot a then Some w
     else do {
       w \<leftarrow> fold_opt (NODE_Remove later this) (n_override a) w;
       w \<leftarrow> fold_opt (commit_item this) (m_allItems (n_index a)) w;
       w \<leftarrow> releaseChildren fuel this w;
       releaseGarbage this w
     }
   }"

section \<open>Ownership does not matter to the index and the joints\<close>

definition same_geo :: "store \<Rightarrow> store \<Rightarrow> bool" where
  "same_geo h h' \<longleftrightarrow> (\<forall>i. m_layers (h' i) = m_layers (h i) \<and> Net h' i = Net h i \<and> m_kind (h' i) = m_kind (h i) \<and>
     m_anchor0 (h' i) = m_anchor0 (h i) \<and> m_anchor1 (h' i) = m_anchor1 (h i) \<and>
     m_routable (h' i) = m_routable (h i) \<and> m_isVirtual (h' i) = m_isVirtual (h i) \<and> m_hole (h' i) = m_hole (h i))"

lemma same_geo_refl [simp]: "same_geo h h"
  by (simp add: same_geo_def)

lemma same_geo_trans: "same_geo h h' \<Longrightarrow> same_geo h' h'' \<Longrightarrow> same_geo h h''"
  by (simp add: same_geo_def)

lemma same_geo_SetOwner [simp]: "same_geo h (SetOwner i a h)"
  by (auto simp: same_geo_def SetOwner_def Net_def split: option.splits)

text \<open>The tags at which an item in the index is linked.\<close>

definition anchors :: "store \<Rightarrow> item_ref \<Rightarrow> HASH_TAG set" where
  "anchors h i =
     (case m_kind (h i) of
        SEGMENT_T \<Rightarrow> {the_tag (m_anchor0 (h i)) (Net h i), the_tag (m_anchor1 (h i)) (Net h i)}
      | ARC_T \<Rightarrow> {the_tag (m_anchor0 (h i)) (Net h i), the_tag (m_anchor1 (h i)) (Net h i)}
      | VIA_T \<Rightarrow> {the_tag (m_anchor0 (h i)) (Net h i)}
      | SOLID_T \<Rightarrow> if m_routable (h i) then {the_tag (m_anchor0 (h i)) (Net h i)} else {}
      | _ \<Rightarrow> {})"

lemma anchors_geo: "same_geo h h' \<Longrightarrow> anchors h' i = anchors h i"
  by (cases "m_kind (h i)") (simp_all add: same_geo_def anchors_def)

lemma wf_item_geo: "same_geo h h' \<Longrightarrow> wf_item (h' i) \<longleftrightarrow> wf_item (h i)"
  by (simp add: same_geo_def wf_item_def)

lemma wf_index_geo: "same_geo h h' \<Longrightarrow> wf_index h' ix \<longleftrightarrow> wf_index h ix"
  by (simp add: wf_index_def same_geo_def wf_item_def)

lemma wf_joints_geo: "same_geo h h' \<Longrightarrow> wf_joints h' m \<longleftrightarrow> wf_joints h m"
  by (simp add: wf_joints_def wf_entry_def same_geo_def)

section \<open>The state of a node\<close>

text \<open>
  \<open>node_inv w n rt I L\<close>: node \<open>n\<close> sees the root joints \<open>rt\<close> (\<open>None\<close> when it is the root), has a
  well-formed index that holds the items \<open>I\<close>, and well-formed joints that, together with those of
  the root, link the items \<open>L t\<close> at each tag \<open>t\<close>.
\<close>

definition node_inv ::
  "WORLD \<Rightarrow> nat \<Rightarrow> joint_map option \<Rightarrow> item_ref set \<Rightarrow> (HASH_TAG \<Rightarrow> item_ref set) \<Rightarrow> bool" where
  "node_inv w n rt I L \<longleftrightarrow> (\<exists>nd. w_nodes w n = Some nd \<and> root_joints w nd = Some rt \<and>
     (rt = None \<longleftrightarrow> n_root nd = n) \<and> wf_root (w_items w) rt \<and>
     wf_index (w_items w) (n_index nd) \<and> items_of (n_index nd) = I \<and>
     wf_joints (w_items w) (n_joints nd) \<and> linked rt (n_joints nd) = L)"

lemma node_invE:
  assumes "node_inv w n rt I L"
  obtains nd where "w_nodes w n = Some nd" "root_joints w nd = Some rt" "rt = None \<longleftrightarrow> n_root nd = n"
    "wf_root (w_items w) rt" "wf_index (w_items w) (n_index nd)" "items_of (n_index nd) = I"
    "wf_joints (w_items w) (n_joints nd)" "linked rt (n_joints nd) = L"
  using assms by (auto simp: node_inv_def)

lemma set_node_simps [simp]:
  "w_nodes (set_node n nd w) = (w_nodes w)(n \<mapsto> nd)" "w_items (set_node n nd w) = w_items w"
  "w_deleted (set_node n nd w) = w_deleted w"
  by (simp_all add: set_node_def)

lemma set_owner_simps [simp]:
  "w_nodes (set_owner i a w) = w_nodes w" "w_items (set_owner i a w) = SetOwner i a (w_items w)"
  "w_deleted (set_owner i a w) = w_deleted w"
  by (simp_all add: set_owner_def)

lemma isRoot_update [simp]:
  "isRoot (nd\<lparr> n_joints := j \<rparr>) = isRoot nd" "isRoot (nd\<lparr> n_index := x \<rparr>) = isRoot nd"
  "isRoot (nd\<lparr> n_override := l \<rparr>) = isRoot nd" "isRoot (nd\<lparr> n_garbageItems := l \<rparr>) = isRoot nd"
  "isRoot (nd\<lparr> n_children := c \<rparr>) = isRoot nd"
  by (simp_all add: isRoot_def)

lemma root_joints_isRoot: "root_joints w nd = Some rt \<Longrightarrow> isRoot nd \<longleftrightarrow> rt = None"
  by (auto simp: root_joints_def split: if_splits)

text \<open>A change of the node itself keeps what it sees of its root.\<close>

lemma root_joints_set_node:
  assumes "root_joints w nd = Some rt" and "rt = None \<longleftrightarrow> n_root nd = n"
    and "n_root nd' = n_root nd" and "isRoot nd' = isRoot nd"
  shows "root_joints (set_node n nd' w) nd' = Some rt"
  using assms by (auto simp: root_joints_def split: if_splits)

lemma root_joints_owner [simp]: "root_joints (set_owner i a w) nd = root_joints w nd"
  by (simp add: root_joints_def)

lemma wf_root_geo: "same_geo h h' \<Longrightarrow> wf_root h' rt \<longleftrightarrow> wf_root h rt"
  by (simp add: wf_root_def wf_joints_geo split: option.splits)

lemma node_inv_owner: "node_inv w n rt I L \<Longrightarrow> node_inv (set_owner i a w) n rt I L"
  by (auto simp: node_inv_def wf_index_geo [OF same_geo_SetOwner] wf_joints_geo [OF same_geo_SetOwner]
      wf_root_geo [OF same_geo_SetOwner])

lemma wf_root_None [simp]: "wf_root h None"
  by (simp add: wf_root_def)

lemma node_inv_set_node:
  assumes "node_inv w n rt I L" and "w_nodes w n = Some nd"
    and "n_root nd' = n_root nd" and "isRoot nd' = isRoot nd"
    and "wf_index (w_items w) (n_index nd')" and "items_of (n_index nd') = I'"
    and "wf_joints (w_items w) (n_joints nd')" and "linked rt (n_joints nd') = L'"
  shows "node_inv (set_node n nd' w) n rt I' L'"
  using assms root_joints_set_node [of w nd rt n nd'] by (auto simp: node_inv_def)

lemma node_link_ok:
  assumes "node_inv w n rt I L" and "wf_item (w_items w i)" and "t = the_tag p (Net (w_items w) i)"
  shows "\<exists>w'. node_link n p i w = Some w' \<and> node_inv w' n rt I (L(t := insert i (L t))) \<and> w_items w' = w_items w"
  using assms(1)
proof (rule node_invE)
  fix nd assume nd: "w_nodes w n = Some nd" "root_joints w nd = Some rt" "rt = None \<longleftrightarrow> n_root nd = n"
    "wf_root (w_items w) rt" "wf_index (w_items w) (n_index nd)" "items_of (n_index nd) = I"
    "wf_joints (w_items w) (n_joints nd)" "linked rt (n_joints nd) = L"
  have wf: "wf_range (m_layers (w_items w i))" using assms(2) by (simp add: wf_item_def)
  let ?m = "linkJoint rt p (m_layers (w_items w i)) (Net (w_items w) i) i (n_joints nd)"
  note W = wf_linkJoint [OF nd(7) nd(4) wf, of p "Net (w_items w) i"]
  have L: "linked rt ?m = L(t := insert i (L t))"
    by (rule ext) (simp add: W(2) nd(8) assms(3))
  have "node_inv (set_node n (nd\<lparr> n_joints := ?m \<rparr>) w) n rt I (L(t := insert i (L t)))"
    by (rule node_inv_set_node [OF assms(1) nd(1)]) (use nd W(1) L in simp_all)
  with nd(1,2) show ?thesis by (simp add: node_link_def on_joints_def Let_def)
qed

lemma node_unlink_ok:
  assumes "node_inv w n rt I L" and "wf_item (w_items w i)" and "t = the_tag p (Net (w_items w) i)"
  shows "\<exists>w'. node_unlink n p i w = Some w' \<and> node_inv w' n rt I (L(t := L t - {i})) \<and> w_items w' = w_items w"
  using assms(1)
proof (rule node_invE)
  fix nd assume nd: "w_nodes w n = Some nd" "root_joints w nd = Some rt" "rt = None \<longleftrightarrow> n_root nd = n"
    "wf_root (w_items w) rt" "wf_index (w_items w) (n_index nd)" "items_of (n_index nd) = I"
    "wf_joints (w_items w) (n_joints nd)" "linked rt (n_joints nd) = L"
  have wf: "wf_range (m_layers (w_items w i))" using assms(2) by (simp add: wf_item_def)
  let ?m = "unlinkJoint rt p (m_layers (w_items w i)) (Net (w_items w) i) i (n_joints nd)"
  note W = wf_unlinkJoint [OF nd(7) nd(4) wf, of p "Net (w_items w) i"]
  have L: "linked rt ?m = L(t := L t - {i})"
    by (rule ext) (simp add: W(2) nd(8) assms(3))
  have "node_inv (set_node n (nd\<lparr> n_joints := ?m \<rparr>) w) n rt I (L(t := L t - {i}))"
    by (rule node_inv_set_node [OF assms(1) nd(1)]) (use nd W(1) L in simp_all)
  with nd(1,2) show ?thesis by (simp add: node_unlink_def on_joints_def Let_def)
qed

lemma node_index_ok:
  assumes "node_inv w n rt I L" and "wf_item (w_items w i)"
  shows "i \<notin> I \<Longrightarrow> \<exists>w'. on_index n (INDEX_Add (w_items w) i) w = Some w' \<and> node_inv w' n rt (insert i I) L \<and>
      w_items w' = w_items w"
    and "\<exists>w'. on_index n (INDEX_Remove (w_items w) i) w = Some w' \<and> node_inv w' n rt (I - {i}) L \<and>
      w_items w' = w_items w"
proof -
  obtain nd where nd: "w_nodes w n = Some nd" "root_joints w nd = Some rt" "rt = None \<longleftrightarrow> n_root nd = n"
    "wf_root (w_items w) rt" "wf_index (w_items w) (n_index nd)" "items_of (n_index nd) = I"
    "wf_joints (w_items w) (n_joints nd)" "linked rt (n_joints nd) = L"
    by (rule node_invE [OF assms(1)])
  have put: "node_inv (set_node n (nd\<lparr> n_index := ix \<rparr>) w) n rt (items_of ix) L" if "wf_index (w_items w) ix" for ix
    by (rule node_inv_set_node [OF assms(1) nd(1)]) (use nd that in simp_all)
  obtain ix where ix: "INDEX_Remove (w_items w) i (n_index nd) = Some ix" "wf_index (w_items w) ix"
    "items_of ix = I - {i}"
    using item_index.rem_ok [OF nd(5) assms(2)] nd(6) by blast
  from ix put [OF ix(2)] nd(1)
  show "\<exists>w'. on_index n (INDEX_Remove (w_items w) i) w = Some w' \<and> node_inv w' n rt (I - {i}) L \<and>
      w_items w' = w_items w"
    by (simp add: on_index_def)
  assume "i \<notin> I"
  then obtain ix where ix: "INDEX_Add (w_items w) i (n_index nd) = Some ix" "wf_index (w_items w) ix"
    "items_of ix = insert i I"
    using item_index.add_ok [OF nd(5) assms(2)] nd(6) by blast
  from ix put [OF ix(2)] nd(1)
  show "\<exists>w'. on_index n (INDEX_Add (w_items w) i) w = Some w' \<and> node_inv w' n rt (insert i I) L \<and>
      w_items w' = w_items w"
    by (simp add: on_index_def)
qed

text \<open>In the root, the joint of a linked item is found and rebuilt without it.\<close>

lemma root_rebuild:
  assumes "node_inv w r None I L" and "t = the_tag p (Net (w_items w) i)" and "i \<in> L t"
  shows "\<exists>j. node_FindJoint later r p (lr_start (m_layers (w_items w i))) (Net (w_items w) i) w = Some (Some j) \<and>
    (\<exists>w'. on_joints r (\<lambda>root. rebuildJoint (w_items w) root j i) w = Some w' \<and>
      node_inv w' r None I (L(t := L t - {i})) \<and> w_items w' = w_items w)"
  using assms(1)
proof (rule node_invE)
  fix nd assume nd: "w_nodes w r = Some nd" "root_joints w nd = Some None" "None = None \<longleftrightarrow> n_root nd = r"
    "wf_root (w_items w) None" "wf_index (w_items w) (n_index nd)" "items_of (n_index nd) = I"
    "wf_joints (w_items w) (n_joints nd)" "linked None (n_joints nd) = L"
  let ?h = "w_items w" and ?m = "n_joints nd"
  from assms(3) nd(8) obtain j where j: "j \<in> joints_at None ?m t" "i \<in> set (jt_links j)"
    by (auto simp: linked_def)
  have w: "wf_joints ?h (touch_copy None t ?m)" by (rule wf_touch_copy) (use nd(7) in simp_all)
  then have "wf_entry ?h (t, j)" using j(1) by (auto simp: wf_joints_def joints_at_def)
  then have "lr_start (m_layers (?h i)) \<in> layers_of (jt_layers j)"
    using j(2) wf_range_ne [of "m_layers (?h i)"] by (auto simp: wf_entry_def)
  from FindJoint_covering [OF nd(7) nd(4) j(1) [unfolded assms(2)] this, of later]
  have find: "FindJoint later None ?m p (lr_start (m_layers (?h i))) (Net ?h i) = Some j" .
  note R = rebuild_removes [OF nd(7) nd(4) assms(2) j, simplified]
  have L: "linked None (rebuildJoint ?h None j i ?m) = L(t := L t - {i})"
    by (rule ext) (use R nd(8) in auto)
  have "node_inv (set_node r (nd\<lparr> n_joints := rebuildJoint ?h None j i ?m \<rparr>) w) r None I (L(t := L t - {i}))"
    by (rule node_inv_set_node [OF assms(1) nd(1)]) (use nd R L in simp_all)
  with nd(1,2) find show ?thesis by (simp add: node_FindJoint_def on_joints_def)
qed

section \<open>Adding and removing one item\<close>

text \<open>
  An item that can be stored in a node: a track, a via or a pad on valid layers, whose hole is a
  hole on valid layers. \<open>parts\<close> are the entries of the index that it brings.
\<close>

definition wf_obj :: "store \<Rightarrow> item_ref \<Rightarrow> bool" where
  "wf_obj h i \<longleftrightarrow> wf_item (h i) \<and> m_kind (h i) \<in> {SEGMENT_T, ARC_T, VIA_T, SOLID_T} \<and>
     (m_kind (h i) \<in> {SEGMENT_T, ARC_T} \<longrightarrow> m_hole (h i) = None) \<and>
     (m_kind (h i) = VIA_T \<longrightarrow> m_hole (h i) \<noteq> None) \<and>
     (\<forall>k. m_hole (h i) = Some k \<longrightarrow> k \<noteq> i \<and> wf_item (h k) \<and> m_kind (h k) = HOLE_T \<and> m_hole (h k) = None)"

definition parts :: "store \<Rightarrow> item_ref \<Rightarrow> item_ref set" where
  "parts h i = insert i (if HasHole (h i) then set_option (m_hole (h i)) else {})"

definition link_in :: "HASH_TAG set \<Rightarrow> item_ref \<Rightarrow> (HASH_TAG \<Rightarrow> item_ref set) \<Rightarrow> HASH_TAG \<Rightarrow> item_ref set" where
  "link_in T i L t = (if t \<in> T then insert i (L t) else L t)"

definition link_out :: "HASH_TAG set \<Rightarrow> item_ref \<Rightarrow> (HASH_TAG \<Rightarrow> item_ref set) \<Rightarrow> HASH_TAG \<Rightarrow> item_ref set" where
  "link_out T i L t = (if t \<in> T then L t - {i} else L t)"

lemma link_in_upd: "(link_in T i L)(t := insert i (link_in T i L t)) = link_in (insert t T) i L"
  by (rule ext) (simp add: link_in_def)

lemma link_out_upd: "(link_out T i L)(t := link_out T i L t - {i}) = link_out (insert t T) i L"
  by (rule ext) (simp add: link_out_def)

lemma link_empty [simp]: "link_in {} i L = L" "link_out {} i L = L"
  by (rule ext, simp add: link_in_def link_out_def)+

lemmas link_once = link_in_upd [of "{}", simplified] link_out_upd [of "{}", simplified]

lemma HasHole_owner [simp]: "HasHole (SetOwner k a h i) = HasHole (h i)"
  by (simp add: HasHole_def SetOwner_def split: PnsKind.splits)

lemma SetOwner_field [simp]:
  "m_kind (SetOwner k a h i) = m_kind (h i)" "m_hole (SetOwner k a h i) = m_hole (h i)"
  "m_layers (SetOwner k a h i) = m_layers (h i)" "m_anchor0 (SetOwner k a h i) = m_anchor0 (h i)"
  "m_anchor1 (SetOwner k a h i) = m_anchor1 (h i)" "m_routable (SetOwner k a h i) = m_routable (h i)"
  "m_owner (SetOwner k a h i) = (if i = k then a else m_owner (h i))"
  "m_parentPadVia (SetOwner k a h i) = m_parentPadVia (h i)" "m_net (SetOwner k a h i) = m_net (h i)"
  by (simp_all add: SetOwner_def)

lemma Net_owner [simp]: "Net (SetOwner k a h) i = Net h i"
  by (simp add: Net_def split: option.splits)

lemma wf_item_owner [simp]: "wf_item (SetOwner k a h i) = wf_item (h i)"
  by (simp add: wf_item_def)

lemma parts_geo: "same_geo h h' \<Longrightarrow> parts h' i = parts h i"
  by (simp add: same_geo_def parts_def HasHole_def split: PnsKind.splits)

lemma wf_obj_geo: "same_geo h h' \<Longrightarrow> wf_obj h' i = wf_obj h i"
  by (simp add: same_geo_def wf_obj_def wf_item_def)

lemma wf_obj_item: "wf_obj h i \<Longrightarrow> wf_item (h i)"
  by (simp add: wf_obj_def)

lemma parts_track: "m_kind (h i) \<in> {SEGMENT_T, ARC_T} \<Longrightarrow> parts h i = {i}"
  by (auto simp: parts_def HasHole_def)

text \<open>The parts of an added item are owned by the node, the owners of the others are kept.\<close>

definition owners_after :: "owner option \<Rightarrow> item_ref set \<Rightarrow> store \<Rightarrow> store \<Rightarrow> bool" where
  "owners_after a P h h' \<longleftrightarrow> same_geo h h' \<and> (\<forall>x. m_owner (h' x) = (if x \<in> P then a else m_owner (h x)))"

lemma add_own_hole_ok:
  assumes "node_inv w n rt I L" and "wf_obj (w_items w) i" and "parts (w_items w) i \<inter> I = {}"
    and "HasHole (w_items w i) \<Longrightarrow> m_owner (w_items w (the (m_hole (w_items w i)))) = Some (OwnerItem i)"
    and "HasHole (w_items w i) \<Longrightarrow> m_hole (w_items w i) \<noteq> None"
  shows "\<exists>w'. add_own_hole n i w = Some w' \<and> node_inv w' n rt (I \<union> (parts (w_items w) i - {i})) L \<and>
    owners_after (Some (OwnerNode n)) (parts (w_items w) i - {i}) (w_items w) (w_items w')"
proof (cases "HasHole (w_items w i)")
  case False
  then show ?thesis using assms(1) by (auto simp: add_own_hole_def parts_def owners_after_def)
next
  case True
  from assms(5) [OF True] obtain k where k: "m_hole (w_items w i) = Some k" by blast
  with assms(2) have "k \<noteq> i" "wf_item (w_items w k)" by (auto simp: wf_obj_def)
  have P: "parts (w_items w) i = {i, k}" using True k by (simp add: parts_def)
  let ?w = "set_owner k (Some (OwnerNode n)) w"
  have "k \<notin> I" using assms(3) P by blast
  from node_index_ok(1) [OF node_inv_owner [OF assms(1)] _ this, of k "Some (OwnerNode n)"]
    \<open>wf_item (w_items w k)\<close> obtain w' where
    "on_index n (INDEX_Add (w_items ?w) k) ?w = Some w'" "node_inv w' n rt (insert k I) L" "w_items w' = w_items ?w"
    by auto
  then show ?thesis using True k assms(4) \<open>k \<noteq> i\<close> P
    by (auto simp: add_own_hole_def node_addHole_def BelongsTo_def Let_def owners_after_def insert_Diff_if)
qed

lemma wf_obj_HasHole: "wf_obj h i \<Longrightarrow> HasHole (h i) \<Longrightarrow> m_hole (h i) \<noteq> None"
  by (cases "m_kind (h i)") (simp_all add: wf_obj_def HasHole_def)

lemma owners_after_geo: "owners_after a P h h' \<Longrightarrow> same_geo h h'"
  by (simp add: owners_after_def)

lemma owners_after_SetOwner: "owners_after a P h h' \<Longrightarrow> owners_after a (insert i P) h (SetOwner i a h')"
  using same_geo_trans [of h h' "SetOwner i a h'"] by (auto simp: owners_after_def)

lemma anchors_track: "m_kind (h i) \<in> {SEGMENT_T, ARC_T} \<Longrightarrow>
    anchors h i = {the_tag (m_anchor0 (h i)) (Net h i), the_tag (m_anchor1 (h i)) (Net h i)}"
  by (auto simp: anchors_def)

lemma add_track_ok:
  assumes "node_inv w n rt I L" and "wf_obj (w_items w) i" and "i \<notin> I"
    and "m_kind (w_items w i) \<in> {SEGMENT_T, ARC_T}"
  shows "\<exists>w'. add_track_item n i w = Some w' \<and> node_inv w' n rt (insert i I) (link_in (anchors (w_items w) i) i L) \<and>
    owners_after (Some (OwnerNode n)) {i} (w_items w) (w_items w')"
proof -
  let ?w = "set_owner i (Some (OwnerNode n)) w" and ?h = "w_items w"
  let ?t0 = "the_tag (m_anchor0 (?h i)) (Net ?h i)" and ?t1 = "the_tag (m_anchor1 (?h i)) (Net ?h i)"
  have wf: "wf_item (?h i)" using assms(2) by (rule wf_obj_item)
  have inv: "node_inv ?w n rt I L" by (rule node_inv_owner) fact
  from node_link_ok [OF inv, of i ?t0 "m_anchor0 (?h i)"] wf
  obtain w1 where w1: "node_link n (m_anchor0 (?h i)) i ?w = Some w1"
    "node_inv w1 n rt I (link_in {?t0} i L)" "w_items w1 = w_items ?w"
    by (auto simp: link_once)
  from node_link_ok [OF w1(2), of i ?t1 "m_anchor1 (?h i)"] wf w1(3)
  obtain w2 where w2: "node_link n (m_anchor1 (?h i)) i w1 = Some w2"
    "node_inv w2 n rt I (link_in {?t1, ?t0} i L)" "w_items w2 = w_items ?w"
    by (auto simp: link_in_upd)
  from node_index_ok(1) [OF w2(2), of i] wf w2(3) assms(3)
  obtain w3 where w3: "on_index n (INDEX_Add (w_items w2) i) w2 = Some w3"
    "node_inv w3 n rt (insert i I) (link_in {?t1, ?t0} i L)" "w_items w3 = w_items ?w"
    by auto
  have "anchors ?h i = {?t1, ?t0}" using anchors_track [of ?h i] assms(4) by (simp add: insert_commute)
  with w1 w2 w3 show ?thesis by (simp add: add_track_item_def owners_after_def Let_def)
qed

text \<open>Pads and vias: the hole, the joint at the position unless a pad is not routable, the index.\<close>

lemma add_pad_or_via_ok:
  assumes "node_inv w n rt I L" and "wf_obj (w_items w) i" and "parts (w_items w) i \<inter> I = {}"
    and "HasHole (w_items w i) \<Longrightarrow> m_owner (w_items w (the (m_hole (w_items w i)))) = Some (OwnerItem i)"
    and "m_kind (w_items w i) = VIA_T \<and> f = addVia \<or> m_kind (w_items w i) = SOLID_T \<and> f = addSolid"
  shows "\<exists>w'. f n i w = Some w' \<and> node_inv w' n rt (I \<union> parts (w_items w) i) (link_in (anchors (w_items w) i) i L) \<and>
    owners_after (Some (OwnerNode n)) (parts (w_items w) i) (w_items w) (w_items w')"
proof -
  let ?h = "w_items w" and ?P = "parts (w_items w) i" and ?o = "Some (OwnerNode n)"
  let ?t = "the_tag (m_anchor0 (?h i)) (Net ?h i)"
  have wf: "wf_item (?h i)" using assms(2) by (rule wf_obj_item)
  have iP: "i \<in> ?P" by (simp add: parts_def)
  from add_own_hole_ok [OF assms(1-4) wf_obj_HasHole [OF assms(2)]] obtain w1 where
    w1: "add_own_hole n i w = Some w1" "node_inv w1 n rt (I \<union> (?P - {i})) L"
    "owners_after ?o (?P - {i}) ?h (w_items w1)" by blast
  have geo: "same_geo ?h (w_items w1)" using w1(3) by (rule owners_after_geo)
  have wf1: "wf_item (w_items w1 i)" using wf by (simp add: wf_item_geo [OF geo])
  have eqs: "m_anchor0 (w_items w1 i) = m_anchor0 (?h i)" "Net (w_items w1) i = Net ?h i"
    "m_routable (w_items w1 i) = m_routable (?h i)"
    using geo by (auto simp: same_geo_def)
  have "\<exists>w2. (if m_kind (?h i) = SOLID_T \<and> \<not> m_routable (?h i) then Some w1
      else node_link n (m_anchor0 (?h i)) i w1) = Some w2 \<and>
    node_inv w2 n rt (I \<union> (?P - {i})) (link_in (anchors ?h i) i L) \<and> w_items w2 = w_items w1"
  proof (cases "m_kind (?h i) = SOLID_T \<and> \<not> m_routable (?h i)")
    case True
    then show ?thesis using w1(2) by (simp add: anchors_def)
  next
    case False
    then have "anchors ?h i = {?t}" using assms(5) by (auto simp: anchors_def)
    with node_link_ok [OF w1(2) wf1, of ?t "m_anchor0 (?h i)"] eqs show ?thesis
      unfolding if_not_P [OF False] by (simp add: link_once)
  qed
  then obtain w2 where w2: "(if m_kind (?h i) = SOLID_T \<and> \<not> m_routable (?h i) then Some w1
      else node_link n (m_anchor0 (?h i)) i w1) = Some w2"
    "node_inv w2 n rt (I \<union> (?P - {i})) (link_in (anchors ?h i) i L)" "w_items w2 = w_items w1" by blast
  let ?w3 = "set_owner i ?o w2"
  have "i \<notin> I \<union> (?P - {i})" using assms(3) iP by blast
  moreover have "node_inv ?w3 n rt (I \<union> (?P - {i})) (link_in (anchors ?h i) i L)"
    by (rule node_inv_owner) fact
  ultimately obtain w4 where
    w4: "on_index n (INDEX_Add (w_items ?w3) i) ?w3 = Some w4"
    "node_inv w4 n rt (insert i (I \<union> (?P - {i}))) (link_in (anchors ?h i) i L)" "w_items w4 = w_items ?w3"
    using node_index_ok(1) [of ?w3 n rt "I \<union> (?P - {i})" "link_in (anchors ?h i) i L" i] wf1 w2(3)
    by auto
  have I: "insert i (I \<union> (?P - {i})) = I \<union> ?P" using iP by blast
  have own: "owners_after ?o ?P ?h (w_items w4)"
    using owners_after_SetOwner [OF w1(3), of i] w4(3) w2(3) iP by (simp add: insert_absorb)
  from assms(5) show ?thesis
  proof
    assume k: "m_kind (?h i) = VIA_T \<and> f = addVia"
    then have "f n i w = Some w4" using w1(1) w2(1) w4(1) eqs by (simp add: addVia_def Let_def)
    with w4(2) own I show ?thesis by auto
  next
    assume k: "m_kind (?h i) = SOLID_T \<and> f = addSolid"
    then have "f n i w = Some w4"
      using w1(1) w2(1) w4(1) eqs by (cases "m_routable (?h i)") (simp_all add: addSolid_def Let_def)
    with w4(2) own I show ?thesis by auto
  qed
qed

lemma node_add_ok:
  assumes "node_inv w n rt I L" and "wf_obj (w_items w) i" and "parts (w_items w) i \<inter> I = {}"
    and "HasHole (w_items w i) \<Longrightarrow> m_owner (w_items w (the (m_hole (w_items w i)))) = Some (OwnerItem i)"
  shows "\<exists>w'. node_add n i w = Some w' \<and>
    node_inv w' n rt (I \<union> parts (w_items w) i) (link_in (anchors (w_items w) i) i L) \<and>
    owners_after (Some (OwnerNode n)) (parts (w_items w) i) (w_items w) (w_items w')"
proof (cases "m_kind (w_items w i) \<in> {SEGMENT_T, ARC_T}")
  case True
  then have "parts (w_items w) i = {i}" by (rule parts_track)
  moreover from this have "i \<notin> I" using assms(3) by simp
  ultimately show ?thesis using add_track_ok [OF assms(1,2) _ True] True
    by (auto simp: node_add_def addSegment_def addArc_def)
next
  case False
  then have "m_kind (w_items w i) = VIA_T \<or> m_kind (w_items w i) = SOLID_T"
    using assms(2) by (auto simp: wf_obj_def)
  then show ?thesis
  proof
    assume "m_kind (w_items w i) = VIA_T"
    then show ?thesis using add_pad_or_via_ok [OF assms, of addVia] by (simp add: node_add_def)
  next
    assume "m_kind (w_items w i) = SOLID_T"
    then show ?thesis using add_pad_or_via_ok [OF assms, of addSolid] by (simp add: node_add_def)
  qed
qed

section \<open>What an operation on a node leaves alone\<close>

text \<open>
  \<open>frame n w w'\<close>: nothing is deleted, no node appears or disappears, every node but \<open>n\<close> keeps all
  of its state but the list of garbage, and \<open>n\<close> keeps its place in the tree.
\<close>

definition shell :: "bool \<Rightarrow> NODE \<Rightarrow> NODE" where
  "shell this nd =
     (if this then nd\<lparr> n_joints := [], n_index := INDEX_empty, n_override := [], n_garbageItems := [] \<rparr>
      else nd\<lparr> n_garbageItems := [] \<rparr>)"

definition frame :: "nat \<Rightarrow> WORLD \<Rightarrow> WORLD \<Rightarrow> bool" where
  "frame n w w' \<longleftrightarrow> w_deleted w' = w_deleted w \<and>
     (\<forall>x. map_option (shell (x = n)) (w_nodes w' x) = map_option (shell (x = n)) (w_nodes w x))"

definition overrides_at :: "WORLD \<Rightarrow> nat \<Rightarrow> item_ref set" where
  "overrides_at w n = (case w_nodes w n of None \<Rightarrow> {} | Some nd \<Rightarrow> set (n_override nd))"

text \<open>\<open>quiet n w w'\<close>: besides, no override changes.\<close>

definition quiet :: "nat \<Rightarrow> WORLD \<Rightarrow> WORLD \<Rightarrow> bool" where
  "quiet n w w' \<longleftrightarrow> frame n w w' \<and> (\<forall>x. overrides_at w' x = overrides_at w x)"

lemma frame_refl [simp]: "frame n w w"
  by (simp add: frame_def)

lemma frame_trans: "frame n w w' \<Longrightarrow> frame n w' w'' \<Longrightarrow> frame n w w''"
  by (simp add: frame_def)

lemma quiet_refl [simp]: "quiet n w w"
  by (simp add: quiet_def)

lemma quiet_trans: "quiet n w w' \<Longrightarrow> quiet n w' w'' \<Longrightarrow> quiet n w w''"
  using frame_trans by (auto simp: quiet_def)

lemma quiet_frame: "quiet n w w' \<Longrightarrow> frame n w w'"
  by (simp add: quiet_def)

lemma shell_simps [simp]:
  "shell True (nd\<lparr> n_joints := j \<rparr>) = shell True nd" "shell True (nd\<lparr> n_index := x \<rparr>) = shell True nd"
  "shell True (nd\<lparr> n_override := l \<rparr>) = shell True nd" "shell b (nd\<lparr> n_garbageItems := l \<rparr>) = shell b nd"
  by (simp_all add: shell_def)

lemma quiet_owner [simp]: "quiet n w (set_owner i a w)"
  by (simp add: quiet_def frame_def overrides_at_def)

lemma quiet_set_node:
  assumes "w_nodes w r = Some nd" and "shell (r = n) nd' = shell (r = n) nd" and "n_override nd' = n_override nd"
  shows "quiet n w (set_node r nd' w)"
  using assms by (simp add: quiet_def frame_def overrides_at_def)

lemma quiet_on_joints: "on_joints n f w = Some w' \<Longrightarrow> quiet n w w'"
  by (auto simp: on_joints_def split: Option.bind_splits intro: quiet_set_node)

lemma quiet_on_index: "on_index n f w = Some w' \<Longrightarrow> quiet n w w'"
  by (auto simp: on_index_def split: Option.bind_splits intro: quiet_set_node)

lemma quiet_garbage: "add_garbage r i w = Some w' \<Longrightarrow> quiet n w w'"
  by (auto simp: add_garbage_def split: Option.bind_splits intro: quiet_set_node)

lemma frame_override: "override_item n i w = Some w' \<Longrightarrow> frame n w w'"
  by (auto simp: override_item_def frame_def split: Option.bind_splits)

lemma quiet_node_link: "node_link n p i w = Some w' \<Longrightarrow> quiet n w w'"
  by (auto simp: node_link_def Let_def intro: quiet_on_joints)

lemma quiet_node_unlink: "node_unlink n p i w = Some w' \<Longrightarrow> quiet n w w'"
  by (auto simp: node_unlink_def Let_def intro: quiet_on_joints)

lemma quiet_fold:
  assumes "\<And>x w w'. f x w = Some w' \<Longrightarrow> quiet n w w'" and "fold_opt f xs w = Some w'"
  shows "quiet n w w'"
  using assms(2)
proof (induction xs arbitrary: w)
  case (Cons x xs)
  then show ?case by (auto split: Option.bind_splits intro: quiet_trans assms(1))
qed simp

lemma frame_fold:
  assumes "\<And>x w w'. f x w = Some w' \<Longrightarrow> frame n w w'" and "fold_opt f xs w = Some w'"
  shows "frame n w w'"
  using assms(2)
proof (induction xs arbitrary: w)
  case (Cons x xs)
  then show ?case by (auto split: Option.bind_splits intro: frame_trans assms(1))
qed simp

lemma quiet_add_own_hole: "add_own_hole n i w = Some w' \<Longrightarrow> quiet n w w'"
  by (auto simp: add_own_hole_def node_addHole_def Let_def split: if_splits Option.bind_splits
      intro: quiet_trans [OF quiet_owner] quiet_on_index)

lemma quiet_addVia:
  assumes "addVia n i w = Some w'"
  shows "quiet n w w'"
proof -
  from assms obtain w1 w2 where w: "add_own_hole n i w = Some w1" "node_link n (m_anchor0 (w_items w1 i)) i w1 = Some w2"
    "on_index n (INDEX_Add (w_items (set_owner i (Some (OwnerNode n)) w2)) i) (set_owner i (Some (OwnerNode n)) w2) = Some w'"
    by (auto simp: addVia_def Let_def split: Option.bind_splits)
  have "quiet n w w2" using quiet_trans [OF quiet_add_own_hole [OF w(1)] quiet_node_link [OF w(2)]] .
  also have "quiet n w2 w'" using quiet_trans [OF quiet_owner quiet_on_index [OF w(3)]] .
  finally (quiet_trans) show ?thesis .
qed

lemma quiet_addSolid:
  assumes "addSolid n i w = Some w'"
  shows "quiet n w w'"
proof -
  from assms obtain w1 w2 where w: "add_own_hole n i w = Some w1"
    "(if m_routable (w_items w1 i) then node_link n (m_anchor0 (w_items w1 i)) i w1 else Some w1) = Some w2"
    "on_index n (INDEX_Add (w_items (set_owner i (Some (OwnerNode n)) w2)) i) (set_owner i (Some (OwnerNode n)) w2) = Some w'"
    by (auto simp: addSolid_def Let_def split: Option.bind_splits)
  have "quiet n w1 w2" using w(2) quiet_node_link by (auto split: if_splits)
  with quiet_add_own_hole [OF w(1)] have "quiet n w w2" by (rule quiet_trans)
  also have "quiet n w2 w'" using quiet_trans [OF quiet_owner quiet_on_index [OF w(3)]] .
  finally (quiet_trans) show ?thesis .
qed

lemma quiet_add_track:
  assumes "add_track_item n i w = Some w'"
  shows "quiet n w w'"
proof -
  let ?w = "set_owner i (Some (OwnerNode n)) w"
  from assms obtain w1 w2 where w: "node_link n (m_anchor0 (w_items ?w i)) i ?w = Some w1"
    "node_link n (m_anchor1 (w_items w1 i)) i w1 = Some w2" "on_index n (INDEX_Add (w_items w2) i) w2 = Some w'"
    by (auto simp: add_track_item_def Let_def split: Option.bind_splits)
  have "quiet n w w1" using quiet_trans [OF quiet_owner quiet_node_link [OF w(1)]] .
  also have "quiet n w1 w2" using w(2) by (rule quiet_node_link)
  also (quiet_trans) have "quiet n w2 w'" using w(3) by (rule quiet_on_index)
  finally (quiet_trans) show ?thesis .
qed

lemma quiet_node_add: "node_add n i w = Some w' \<Longrightarrow> quiet n w w'"
  by (auto simp: node_add_def addArc_def addSegment_def split: PnsKind.splits
      intro: quiet_add_track quiet_addVia quiet_addSolid)

lemma frame_doRemove_store: "doRemove_store n nd i w = Some w' \<Longrightarrow> frame n w w'"
  by (auto simp: doRemove_store_def Let_def bind_eq_Some_conv split: if_splits
      intro: frame_override frame_trans [OF frame_override frame_override]
        quiet_frame [OF quiet_on_index] quiet_frame [OF quiet_trans [OF quiet_on_index quiet_on_index]])

lemma quiet_doRemove_disown: "doRemove_disown n nd i w = Some w' \<Longrightarrow> quiet n w w'"
  by (auto simp: doRemove_disown_def bind_eq_Some_conv split: if_splits option.splits
      intro: quiet_trans [OF quiet_owner quiet_garbage]
        quiet_trans [OF quiet_trans [OF quiet_owner quiet_garbage] quiet_trans [OF quiet_on_index quiet_owner]])

lemma frame_doRemove: "doRemove n i w = Some w' \<Longrightarrow> frame n w w'"
  by (auto simp: doRemove_def split: Option.bind_splits
      intro: frame_trans [OF frame_doRemove_store quiet_frame [OF quiet_doRemove_disown]])

lemma frame_removeTrack: "removeTrackIndex n i w = Some w' \<Longrightarrow> frame n w w'"
  by (auto simp: removeTrackIndex_def split: Option.bind_splits
      intro: frame_trans quiet_frame [OF quiet_node_unlink])

lemma frame_removeVia: "removeViaIndex later n i w = Some w' \<Longrightarrow> frame n w w'"
  by (auto simp: removeViaIndex_def Let_def split: Option.bind_splits intro: quiet_frame [OF quiet_on_joints])

lemma frame_removeSolid: "removeSolidIndex later n i w = Some w' \<Longrightarrow> frame n w w'"
  by (auto simp: removeSolidIndex_def Let_def split: Option.bind_splits if_splits
      intro: quiet_frame [OF quiet_on_joints])

lemma frame_own_hole_back: "own_hole_back i w = Some w' \<Longrightarrow> frame n w w'"
  by (auto simp: own_hole_back_def split: Option.bind_splits if_splits intro: quiet_frame [OF quiet_owner])

lemma frame_Remove_track:
  "NODE_Remove_segment n i w = Some w' \<Longrightarrow> frame n w w'" "NODE_Remove_arc n i w = Some w' \<Longrightarrow> frame n w w'"
  by (auto simp: NODE_Remove_segment_def NODE_Remove_arc_def removeSegmentIndex_def removeArcIndex_def
      split: Option.bind_splits intro: frame_trans [OF frame_removeTrack frame_doRemove])

lemma frame_Remove_solid: "NODE_Remove_solid later n i w = Some w' \<Longrightarrow> frame n w w'"
  by (auto simp: NODE_Remove_solid_def split: Option.bind_splits
      intro: frame_trans [OF frame_removeSolid frame_doRemove])

lemma frame_Remove_via: "NODE_Remove_via later n i w = Some w' \<Longrightarrow> frame n w w'"
  by (auto simp: NODE_Remove_via_def split: Option.bind_splits if_splits
      intro: frame_trans [OF frame_removeVia frame_doRemove])

lemma frame_Remove_single: "Remove_single later n i w = Some w' \<Longrightarrow> frame n w w'"
  by (auto simp: Remove_single_def split: PnsKind.splits Option.bind_splits
      intro: frame_Remove_track frame_trans [OF frame_own_hole_back frame_Remove_solid]
        frame_trans [OF frame_own_hole_back frame_Remove_via])

lemma frame_Remove: "NODE_Remove later n i w = Some w' \<Longrightarrow> frame n w w'"
  by (auto simp: NODE_Remove_def split: if_splits intro: frame_Remove_single frame_fold)

lemma frame_Replace: "NODE_Replace later n i k w = Some w' \<Longrightarrow> frame n w w'"
  by (auto simp: NODE_Replace_def split: Option.bind_splits
      intro: frame_trans [OF frame_Remove quiet_frame [OF quiet_node_add]])

lemma frame_RemoveByMarker: "RemoveByMarker later n m w = Some w' \<Longrightarrow> frame n w w'"
  by (auto simp: RemoveByMarker_def Let_def split: Option.bind_splits intro: frame_Remove frame_fold)

lemma frame_other:
  assumes "frame n w w'" and "w_nodes w x = Some nd" and "x \<noteq> n"
  obtains nd' where "w_nodes w' x = Some nd'" "nd'\<lparr> n_garbageItems := [] \<rparr> = nd\<lparr> n_garbageItems := [] \<rparr>"
  using assms(1) [unfolded frame_def, THEN conjunct2, rule_format, of x] assms(2,3)
  by (auto simp: shell_def)

lemma shell_eq_fields:
  assumes "nd'\<lparr> n_garbageItems := [] \<rparr> = nd\<lparr> n_garbageItems := [] \<rparr>"
  shows "n_index nd' = n_index nd" "n_joints nd' = n_joints nd" "n_override nd' = n_override nd"
    "n_parent nd' = n_parent nd" "n_root nd' = n_root nd" "n_children nd' = n_children nd"
    "n_depth nd' = n_depth nd" "n_maxClearance nd' = n_maxClearance nd"
  using assms by (cases nd; cases nd'; simp)+

section \<open>Removing one item\<close>

lemma node_garbage_ok:
  assumes "node_inv w n rt I L" and "w_nodes w n = Some nd"
  shows "\<exists>w'. add_garbage (n_root nd) i w = Some w' \<and> node_inv w' n rt I L \<and> w_items w' = w_items w \<and>
    map_option n_root (w_nodes w' n) = Some (n_root nd)"
proof -
  obtain nd0 where "w_nodes w n = Some nd0" and nd: "root_joints w nd0 = Some rt" "rt = None \<longleftrightarrow> n_root nd0 = n"
    "wf_root (w_items w) rt" "wf_index (w_items w) (n_index nd0)" "items_of (n_index nd0) = I"
    "wf_joints (w_items w) (n_joints nd0)" "linked rt (n_joints nd0) = L"
    by (rule node_invE [OF assms(1)])
  with assms(2) have [simp]: "nd0 = nd" by simp
  show ?thesis
  proof (cases "isRoot nd")
    case True
    then have r: "n_root nd = n" using nd(1,2) root_joints_isRoot by auto
    let ?nd = "nd\<lparr> n_garbageItems := std_set_insert i (n_garbageItems nd) \<rparr>"
    have "node_inv (set_node n ?nd w) n rt I L"
      by (rule node_inv_set_node [OF assms]) (use nd in simp_all)
    with assms(2) r show ?thesis by (simp add: add_garbage_def)
  next
    case False
    then have r: "n_root nd \<noteq> n" using nd(1,2) root_joints_isRoot by auto
    obtain rd where rd: "w_nodes w (n_root nd) = Some rd" "rt = Some (n_joints rd)"
      using nd(1) False by (auto simp: root_joints_def)
    let ?w = "set_node (n_root nd) (rd\<lparr> n_garbageItems := std_set_insert i (n_garbageItems rd) \<rparr>) w"
    have "root_joints ?w nd = Some rt" using rd False by (simp add: root_joints_def)
    then have "node_inv ?w n rt I L" using nd r assms(2) by (simp add: node_inv_def)
    with rd r assms(2) show ?thesis by (simp add: add_garbage_def)
  qed
qed

definition owners_removed :: "item_ref \<Rightarrow> store \<Rightarrow> store \<Rightarrow> bool" where
  "owners_removed i h h' \<longleftrightarrow> same_geo h h' \<and>
     (\<forall>x. m_owner (h' x) = (if m_hole (h i) = Some x then Some (OwnerItem i) else if x = i then None else m_owner (h x)))"

lemma doRemove_own_ok:
  assumes "node_inv w n rt I L" and "wf_obj (w_items w) i" and "m_owner (w_items w i) = Some (OwnerNode n)"
  shows "\<exists>w'. doRemove n i w = Some w' \<and> node_inv w' n rt (I - insert i (set_option (m_hole (w_items w i)))) L \<and>
    owners_removed i (w_items w) (w_items w')"
proof -
  let ?h = "w_items w"
  obtain nd where nd: "w_nodes w n = Some nd" "root_joints w nd = Some rt" "rt = None \<longleftrightarrow> n_root nd = n"
    by (rule node_invE [OF assms(1)])
  have wf: "wf_item (?h i)" using assms(2) by (rule wf_obj_item)
  have notroot: "\<not> (BelongsTo (?h i) (Some (OwnerNode (n_root nd))) \<and> \<not> isRoot nd)"
    "\<not> BelongsTo (?h i) (Some (OwnerNode (n_root nd))) \<or> isRoot nd"
    using assms(3) nd(3) root_joints_isRoot [OF nd(2)] by (auto simp: BelongsTo_def)
  from node_index_ok(2) [OF assms(1) wf] obtain w1 where
    w1: "on_index n (INDEX_Remove ?h i) w = Some w1" "node_inv w1 n rt (I - {i}) L" "w_items w1 = ?h" by blast
  have hole: "wf_item (?h k)" "k \<noteq> i" if "m_hole (?h i) = Some k" for k
    using assms(2) that by (auto simp: wf_obj_def)
  have "\<exists>w2. doRemove_store n nd i w = Some w2 \<and> w_items w2 = ?h \<and>
    (\<exists>P. P \<subseteq> set_option (m_hole (?h i)) \<and> node_inv w2 n rt (I - {i} - P) L)"
  proof (cases "HasHole (?h i)")
    case False
    then have "doRemove_store n nd i w = Some w1" using notroot w1(1) by (auto simp: doRemove_store_def Let_def)
    moreover have "I - {i} - {} = I - {i}" by simp
    ultimately show ?thesis using w1(2,3) by (metis empty_subsetI)
  next
    case True
    with wf_obj_HasHole [OF assms(2)] obtain k where k: "m_hole (?h i) = Some k" by auto
    from node_index_ok(2) [OF w1(2), of k] hole [OF k] w1(3) obtain w2 where
      "on_index n (INDEX_Remove ?h k) w1 = Some w2" "node_inv w2 n rt (I - {i} - {k}) L" "w_items w2 = ?h" by auto
    with True k notroot w1(1,3) show ?thesis
      by (intro exI [of _ w2] conjI exI [of _ "{k}"]) (auto simp: doRemove_store_def Let_def)
  qed
  then obtain w2 P where w2: "doRemove_store n nd i w = Some w2" "w_items w2 = ?h"
    "P \<subseteq> set_option (m_hole (?h i))" "node_inv w2 n rt (I - {i} - P) L" by blast
  have f: "frame n w w2" using w2(1) by (rule frame_doRemove_store)
  then have "map_option (shell True) (w_nodes w2 n) = map_option (shell True) (w_nodes w n)"
    unfolding frame_def by (metis (full_types))
  then obtain nd2 where nd2: "w_nodes w2 n = Some nd2" "shell True nd2 = shell True nd" using nd(1) by auto
  have root: "n_root nd2 = n_root nd" using arg_cong [OF nd2(2), of n_root] by (simp add: shell_def)
  let ?w2 = "set_owner i None w2"
  have inv2: "node_inv ?w2 n rt (I - {i} - P) L" by (rule node_inv_owner) (rule w2(4))
  from node_garbage_ok [OF inv2, of nd2 i] nd2(1) root w2(2) obtain w3 where
    w3: "add_garbage (n_root nd) i ?w2 = Some w3" "node_inv w3 n rt (I - {i} - P) L"
    "w_items w3 = SetOwner i None ?h" by auto
  show ?thesis
  proof (cases "m_hole (?h i)")
    case None
    then have "P = {}" using w2(3) by simp
    then have "doRemove n i w = Some w3" "node_inv w3 n rt (I - {i}) L" "owners_removed i ?h (w_items w3)"
      using nd(1) w2(1,2) w3 None assms(3)
      by (simp_all add: doRemove_def doRemove_disown_def BelongsTo_def owners_removed_def)
    with None show ?thesis by simp
  next
    case (Some k)
    from node_index_ok(2) [OF w3(2), of k] hole [OF Some] w3(3) obtain w4 where
      w4: "on_index n (INDEX_Remove (w_items w3) k) w3 = Some w4" "node_inv w4 n rt (I - {i} - P - {k}) L"
      "w_items w4 = SetOwner i None ?h" by auto
    let ?w5 = "set_owner k (Some (OwnerItem i)) w4"
    have I: "I - {i} - P - {k} = I - insert i (set_option (m_hole (?h i)))" using w2(3) Some by auto
    have "node_inv ?w5 n rt (I - {i} - P - {k}) L" by (rule node_inv_owner) (rule w4(2))
    moreover have "doRemove n i w = Some ?w5"
      using nd(1) w2(1,2) w3(1,3) w4(1) Some assms(3) by (simp add: doRemove_def doRemove_disown_def BelongsTo_def)
    moreover have "same_geo ?h (w_items ?w5)"
      using w4(3) same_geo_trans [OF same_geo_SetOwner same_geo_SetOwner] by simp
    moreover have "\<forall>x. m_owner (w_items ?w5 x) =
      (if Some k = Some x then Some (OwnerItem i) else if x = i then None else m_owner (?h x))"
      using w4(3) by auto
    ultimately show ?thesis unfolding I owners_removed_def Some by blast
  qed
qed

lemma removeTrack_ok:
  assumes "node_inv w n rt I L" and "wf_item (w_items w i)" and "m_kind (w_items w i) \<in> {SEGMENT_T, ARC_T}"
  shows "\<exists>w'. removeTrackIndex n i w = Some w' \<and> node_inv w' n rt I (link_out (anchors (w_items w) i) i L) \<and>
    w_items w' = w_items w"
proof -
  let ?h = "w_items w"
  let ?t0 = "the_tag (m_anchor0 (?h i)) (Net ?h i)" and ?t1 = "the_tag (m_anchor1 (?h i)) (Net ?h i)"
  from node_unlink_ok [OF assms(1,2), of ?t0 "m_anchor0 (?h i)"] obtain w1 where
    w1: "node_unlink n (m_anchor0 (?h i)) i w = Some w1" "node_inv w1 n rt I (link_out {?t0} i L)" "w_items w1 = ?h"
    by (auto simp: link_once)
  from node_unlink_ok [OF w1(2), of i ?t1 "m_anchor1 (?h i)"] assms(2) w1(3) obtain w2 where
    w2: "node_unlink n (m_anchor1 (?h i)) i w1 = Some w2" "node_inv w2 n rt I (link_out {?t1, ?t0} i L)" "w_items w2 = ?h"
    by (auto simp: link_out_upd)
  have "anchors ?h i = {?t1, ?t0}" using anchors_track [of ?h i] assms(3) by (simp add: insert_commute)
  with w1 w2 show ?thesis by (simp add: removeTrackIndex_def)
qed

lemma own_hole_back_ok:
  assumes "node_inv w n rt I L" and "wf_obj (w_items w) i"
  shows "\<exists>w'. own_hole_back i w = Some w' \<and> node_inv w' n rt I L \<and> same_geo (w_items w) (w_items w') \<and>
    w_nodes w' = w_nodes w \<and>
    (\<forall>x. m_hole (w_items w i) \<noteq> Some x \<longrightarrow> m_owner (w_items w' x) = m_owner (w_items w x)) \<and>
    (HasHole (w_items w i) \<longrightarrow> m_owner (w_items w' (the (m_hole (w_items w i)))) = Some (OwnerItem i))"
  using assms(1) wf_obj_HasHole [OF assms(2)] node_inv_owner [OF assms(1)]
  by (auto simp: own_hole_back_def)

text \<open>Pads and vias in the root: the joint is rebuilt, then the item leaves the index.\<close>

lemma rebuild_index_ok:
  assumes "node_inv w r None I L" and "\<forall>t \<in> anchors (w_items w) i. i \<in> L t"
    and "m_kind (w_items w i) = VIA_T \<and> f = removeViaIndex \<or> m_kind (w_items w i) = SOLID_T \<and> f = removeSolidIndex"
  shows "\<exists>w'. f later r i w = Some w' \<and> node_inv w' r None I (link_out (anchors (w_items w) i) i L) \<and>
    w_items w' = w_items w"
proof (cases "m_kind (w_items w i) = SOLID_T \<and> \<not> m_routable (w_items w i)")
  case True
  then show ?thesis using assms by (auto simp: removeSolidIndex_def anchors_def)
next
  case False
  let ?t = "the_tag (m_anchor0 (w_items w i)) (Net (w_items w) i)"
  have a: "anchors (w_items w) i = {?t}" using False assms(3) by (auto simp: anchors_def)
  from root_rebuild [OF assms(1) refl, of i "m_anchor0 (w_items w i)" later] assms(2) a
  obtain j w' where "node_FindJoint later r (m_anchor0 (w_items w i)) (lr_start (m_layers (w_items w i)))
      (Net (w_items w) i) w = Some (Some j)"
    "on_joints r (\<lambda>root. rebuildJoint (w_items w) root j i) w = Some w'"
    "node_inv w' r None I (link_out {?t} i L)" "w_items w' = w_items w"
    by (auto simp: link_once)
  with False a assms(3) show ?thesis
    by (auto simp: removeViaIndex_def removeSolidIndex_def Let_def)
qed

lemma Remove_root_ok:
  assumes "node_inv w r None I L" and "wf_obj (w_items w) i" and "m_owner (w_items w i) = Some (OwnerNode r)"
    and "\<forall>t \<in> anchors (w_items w) i. i \<in> L t"
  shows "\<exists>w'. NODE_Remove later r i w = Some w' \<and>
    node_inv w' r None (I - insert i (set_option (m_hole (w_items w i)))) (link_out (anchors (w_items w) i) i L) \<and>
    owners_removed i (w_items w) (w_items w')"
proof (cases "m_kind (w_items w i) \<in> {SEGMENT_T, ARC_T}")
  case True
  from removeTrack_ok [OF assms(1) wf_obj_item [OF assms(2)] True] obtain w1 where
    w1: "removeTrackIndex r i w = Some w1" "node_inv w1 r None I (link_out (anchors (w_items w) i) i L)"
    "w_items w1 = w_items w" by blast
  from doRemove_own_ok [OF w1(2), of i] assms(2,3) w1(3) obtain w2 where
    "doRemove r i w1 = Some w2"
    "node_inv w2 r None (I - insert i (set_option (m_hole (w_items w i)))) (link_out (anchors (w_items w) i) i L)"
    "owners_removed i (w_items w) (w_items w2)" by auto
  with w1(1) True show ?thesis
    by (auto simp: NODE_Remove_def Remove_single_def NODE_Remove_segment_def NODE_Remove_arc_def
        removeSegmentIndex_def removeArcIndex_def)
next
  case False
  then have kind: "m_kind (w_items w i) = VIA_T \<or> m_kind (w_items w i) = SOLID_T"
    using assms(2) by (auto simp: wf_obj_def)
  from own_hole_back_ok [OF assms(1,2)] obtain w0 where
    w0: "own_hole_back i w = Some w0" "node_inv w0 r None I L" "same_geo (w_items w) (w_items w0)"
    "\<forall>x. m_hole (w_items w i) \<noteq> Some x \<longrightarrow> m_owner (w_items w0 x) = m_owner (w_items w x)" by blast
  have eqs: "anchors (w_items w0) i = anchors (w_items w) i" "m_kind (w_items w0 i) = m_kind (w_items w i)"
    "m_hole (w_items w0 i) = m_hole (w_items w i)" "wf_obj (w_items w0) i"
    using anchors_geo [OF w0(3)] wf_obj_geo [OF w0(3)] w0(3) [unfolded same_geo_def, rule_format, of i] assms(2)
    by simp_all
  define f where "f = (if m_kind (w_items w i) = VIA_T then removeViaIndex else removeSolidIndex)"
  from rebuild_index_ok [OF w0(2), of i f later] assms(4) kind obtain w1 where
    w1: "f later r i w0 = Some w1" "node_inv w1 r None I (link_out (anchors (w_items w) i) i L)"
    "w_items w1 = w_items w0" unfolding eqs f_def by auto
  have own: "m_owner (w_items w1 i) = Some (OwnerNode r)"
  proof -
    have "m_hole (w_items w i) \<noteq> Some i" using assms(2) unfolding wf_obj_def by blast
    with w0(4) w1(3) assms(3) show ?thesis by simp
  qed
  from doRemove_own_ok [OF w1(2), of i] own w1(3) eqs obtain w2 where
    w2: "doRemove r i w1 = Some w2"
    "node_inv w2 r None (I - insert i (set_option (m_hole (w_items w i)))) (link_out (anchors (w_items w) i) i L)"
    "owners_removed i (w_items w0) (w_items w2)" by auto
  have o: "owners_removed i (w_items w) (w_items w2)"
    using w2(3) w0(3,4) eqs(3) same_geo_trans [OF w0(3)] by (auto simp: owners_removed_def)
  have "NODE_Remove later r i w = Some w2"
  proof (cases "m_kind (w_items w i) = VIA_T")
    case True
    then obtain k where k: "m_hole (w_items w i) = Some k" using assms(2) by (auto simp: wf_obj_def)
    have "m_hole (w_items w2 i) = Some k" using o k by (simp add: owners_removed_def same_geo_def)
    moreover have "m_owner (w_items w2 k) = Some (OwnerItem i)" using o k by (simp add: owners_removed_def)
    ultimately show ?thesis using True w0(1) w1(1) w2(1)
      by (simp add: NODE_Remove_def Remove_single_def NODE_Remove_via_def f_def BelongsTo_def)
  next
    case False
    with kind show ?thesis using w0(1) w1(1) w2(1)
      by (simp add: NODE_Remove_def Remove_single_def NODE_Remove_solid_def f_def)
  qed
  with w2(2) o show ?thesis by blast
qed

end
