(* ===== verification/PnsNodeInv.thy ===== *)
theory PnsNodeInv
  imports PnsNode
begin

text \<open>
  Invariants of the router's world (\<^verbatim>\<open>pcbnew/router/pns_node.cpp\<close>): a step relation for the root node
  and its reachable states, the view that a branch has of the root, and what \<open>NODE::Commit\<close> and
  \<open>NODE::releaseChildren\<close> leave. The operations are those of the theory \<open>PnsNode\<close>.
\<close>

section \<open>A root node whose joints agree with its index\<close>

definition holes_of :: "store \<Rightarrow> item_ref \<Rightarrow> item_ref set" where
  "holes_of h i = set_option (m_hole (h i))"

text \<open>
  \<open>stocked h I\<close>: the items \<open>I\<close> are tracks, vias and pads together with their holes, no two of which
  share a hole.
\<close>

definition stocked :: "store \<Rightarrow> item_ref set \<Rightarrow> bool" where
  "stocked h I \<longleftrightarrow>
     (\<forall>i \<in> I. if m_kind (h i) = HOLE_T then wf_item (h i) \<and> m_hole (h i) = None else wf_obj h i \<and> parts h i \<subseteq> I) \<and>
     (\<forall>i \<in> I. \<forall>j \<in> I. i \<noteq> j \<longrightarrow> holes_of h i \<inter> holes_of h j = {}) \<and>
     (\<forall>k \<in> I. m_kind (h k) = HOLE_T \<longrightarrow> (\<exists>i \<in> I. m_kind (h i) \<noteq> HOLE_T \<and> k \<in> parts h i))"

text \<open>
  The node owns its items. Only the hole of a via or pad that it holds may be owned by that via or pad
  instead: \<open>Remove\<close> gives the hole to its parent also when it is called on a branch, and the branch
  then overrides both while the root still holds them.
\<close>

definition given_back :: "store \<Rightarrow> item_ref set \<Rightarrow> item_ref \<Rightarrow> owner option \<Rightarrow> bool" where
  "given_back h I i a \<longleftrightarrow> m_kind (h i) = HOLE_T \<and> (\<exists>j \<in> I. m_hole (h j) = Some i \<and> a = Some (OwnerItem j))"

definition owned :: "store \<Rightarrow> nat \<Rightarrow> item_ref set \<Rightarrow> bool" where
  "owned h r I \<longleftrightarrow> (\<forall>i \<in> I. m_owner (h i) = Some (OwnerNode r) \<or> given_back h I i (m_owner (h i)))"

definition root_ok :: "WORLD \<Rightarrow> nat \<Rightarrow> item_ref set \<Rightarrow> bool" where
  "root_ok w r I \<longleftrightarrow> node_inv w r None I (\<lambda>t. {i \<in> I. t \<in> anchors (w_items w) i}) \<and>
     stocked (w_items w) I \<and> owned (w_items w) r I"

text \<open>An item that may be added to the items \<open>I\<close>: neither it nor its hole is there already.\<close>

definition fresh_item :: "store \<Rightarrow> item_ref set \<Rightarrow> item_ref \<Rightarrow> bool" where
  "fresh_item h I i \<longleftrightarrow> wf_obj h i \<and> parts h i \<inter> I = {} \<and> (\<forall>j \<in> I. holes_of h i \<inter> holes_of h j = {})"

definition owns_hole :: "store \<Rightarrow> item_ref \<Rightarrow> bool" where
  "owns_hole h i \<longleftrightarrow> (HasHole (h i) \<longrightarrow> m_owner (h (the (m_hole (h i)))) = Some (OwnerItem i))"

lemma holes_geo: "same_geo h h' \<Longrightarrow> holes_of h' i = holes_of h i"
  by (simp add: same_geo_def holes_of_def)

lemma kind_geo: "same_geo h h' \<Longrightarrow> m_kind (h' i) = m_kind (h i)"
  by (simp add: same_geo_def)

lemma stocked_geo: "same_geo h h' \<Longrightarrow> stocked h' I = stocked h I"
  unfolding stocked_def using wf_obj_geo [of h h'] parts_geo [of h h'] holes_geo [of h h'] wf_item_geo [of h h']
  by (simp add: same_geo_def)

lemma fresh_geo: "same_geo h h' \<Longrightarrow> fresh_item h' I i = fresh_item h I i"
  unfolding fresh_item_def using wf_obj_geo [of h h'] parts_geo [of h h'] holes_geo [of h h'] by simp

lemma wf_obj_hole:
  assumes "wf_obj h i" and "k \<in> holes_of h i"
  shows "k \<noteq> i" "wf_item (h k)" "m_kind (h k) = HOLE_T" "m_hole (h k) = None"
proof -
  have "m_hole (h i) = Some k" using assms(2) by (cases "m_hole (h i)") (simp_all add: holes_of_def)
  then show "k \<noteq> i" "wf_item (h k)" "m_kind (h k) = HOLE_T" "m_hole (h k) = None"
    using assms(1) unfolding wf_obj_def by blast+
qed

lemma parts_holes: "parts h i \<subseteq> insert i (holes_of h i)"
  by (auto simp: parts_def holes_of_def)

lemma given_back_geo: "same_geo h h' \<Longrightarrow> given_back h' I i a = given_back h I i a"
  by (simp add: given_back_def same_geo_def)

lemma owned_item: "owned h r I \<Longrightarrow> i \<in> I \<Longrightarrow> m_kind (h i) \<noteq> HOLE_T \<Longrightarrow> m_owner (h i) = Some (OwnerNode r)"
  by (auto simp: owned_def given_back_def)

text \<open>What is done elsewhere keeps the owners of the items or gives a hole back to its parent.\<close>

lemma owned_env:
  assumes "owned h r I" and "same_geo h h'"
    and "\<forall>i \<in> I. m_owner (h' i) = m_owner (h i) \<or> given_back h I i (m_owner (h' i))"
  shows "owned h' r I"
  using assms(1,3) unfolding owned_def given_back_geo [OF assms(2)] by metis

lemma owned_insert:
  assumes "owned h r I" and "owners_after (Some (OwnerNode r)) P h h'"
  shows "owned h' r (I \<union> P)"
proof -
  have "m_owner (h' i) = Some (OwnerNode r) \<or> given_back h (I \<union> P) i (m_owner (h' i))" if "i \<in> I \<union> P" for i
    using assms that by (cases "i \<in> P") (auto simp: owned_def given_back_def owners_after_def)
  then show ?thesis unfolding owned_def given_back_geo [OF owners_after_geo [OF assms(2)]] by blast
qed

lemma owned_remove:
  assumes "owned h r I" and "stocked h I" and "wf_obj h i" and "owners_removed i h h'"
  shows "owned h' r (I - insert i (holes_of h i))"
proof -
  have geo: "same_geo h h'" using assms(4) by (simp add: owners_removed_def)
  have "m_owner (h' k) = Some (OwnerNode r) \<or> given_back h (I - insert i (holes_of h i)) k (m_owner (h' k))"
    if k: "k \<in> I - insert i (holes_of h i)" for k
  proof -
    have own: "m_owner (h' k) = m_owner (h k)" using k assms(4) by (auto simp: owners_removed_def holes_of_def)
    consider "m_owner (h k) = Some (OwnerNode r)" | "given_back h I k (m_owner (h k))"
      using assms(1) k unfolding owned_def by blast
    then show ?thesis
    proof cases
      case 1
      then show ?thesis using own by simp
    next
      case 2
      then obtain j where j: "m_kind (h k) = HOLE_T" "j \<in> I" "m_hole (h j) = Some k" "m_owner (h k) = Some (OwnerItem j)"
        unfolding given_back_def by blast
      have "j \<noteq> i" using j(3) k by (auto simp: holes_of_def)
      moreover have "j \<notin> holes_of h i" using j(3) wf_obj_hole(4) [OF assms(3), of j] by auto
      ultimately show ?thesis using j own unfolding given_back_def by auto
    qed
  qed
  then show ?thesis unfolding owned_def given_back_geo [OF geo] by blast
qed

lemma hole_no_anchor: "m_kind (h k) = HOLE_T \<Longrightarrow> anchors h k = {}"
  by (simp add: anchors_def)

lemma wf_obj_kind:
  assumes "wf_obj h i"
  shows "m_kind (h i) \<noteq> HOLE_T"
proof -
  have "m_kind (h i) \<in> {SEGMENT_T, ARC_T, VIA_T, SOLID_T}"
    using assms unfolding wf_obj_def by (elim conjE)
  then show ?thesis by auto
qed

lemma stocked_remove:
  assumes "stocked h I" and "i \<in> I" and "m_kind (h i) \<noteq> HOLE_T"
  shows "stocked h (I - insert i (holes_of h i))"
proof -
  have obj: "wf_obj h j \<and> parts h j \<subseteq> I" if "j \<in> I" "m_kind (h j) \<noteq> HOLE_T" for j
    using assms(1) that unfolding stocked_def by auto
  have apart: "holes_of h i \<inter> holes_of h j = {}" if "j \<in> I" "j \<noteq> i" for j
    using assms(1,2) that unfolding stocked_def by blast
  have "parts h j \<subseteq> I - insert i (holes_of h i)" if j: "j \<in> I - insert i (holes_of h i)" "m_kind (h j) \<noteq> HOLE_T" for j
  proof
    fix k assume k: "k \<in> parts h j"
    have "i \<notin> holes_of h j" using wf_obj_hole(3) [of h j i] obj [of j] j assms(3) by blast
    moreover have "k = j \<or> k \<in> holes_of h j" using k parts_holes by blast
    moreover have "k \<in> I" using obj [of j] j k by blast
    ultimately show "k \<in> I - insert i (holes_of h i)" using apart [of j] j by blast
  qed
  moreover have "\<exists>j \<in> I - insert i (holes_of h i). m_kind (h j) \<noteq> HOLE_T \<and> k \<in> parts h j"
    if k: "k \<in> I - insert i (holes_of h i)" "m_kind (h k) = HOLE_T" for k
  proof -
    obtain j where j: "j \<in> I" "m_kind (h j) \<noteq> HOLE_T" "k \<in> parts h j"
      using assms(1) k unfolding stocked_def by blast
    have "j \<noteq> i" using j(3) k parts_holes by blast
    moreover have "j \<notin> holes_of h i" using wf_obj_hole(3) [of h i j] obj [OF assms(2,3)] j(2) by blast
    ultimately show ?thesis using j by blast
  qed
  ultimately show ?thesis using assms(1) unfolding stocked_def by (simp add: Ball_def)
qed

lemma stocked_insert:
  assumes "stocked h I" and "fresh_item h I i"
  shows "stocked h (I \<union> parts h i)"
proof -
  have i: "wf_obj h i" "m_kind (h i) \<noteq> HOLE_T" using assms(2) wf_obj_kind by (auto simp: fresh_item_def)
  have new: "m_kind (h k) = HOLE_T \<and> wf_item (h k) \<and> m_hole (h k) = None" if "k \<in> parts h i" "k \<noteq> i" for k
    using that parts_holes wf_obj_hole [OF i(1)] by blast
  have one: "if m_kind (h j) = HOLE_T then wf_item (h j) \<and> m_hole (h j) = None else wf_obj h j \<and> parts h j \<subseteq> I \<union> parts h i"
    if "j \<in> I \<union> parts h i" for j
  proof (cases "j \<in> I")
    case True
    then show ?thesis using assms(1) unfolding stocked_def by (metis Un_iff subset_eq)
  next
    case False
    with that have "j \<in> parts h i" by blast
    then show ?thesis using new [of j] i by (cases "j = i") auto
  qed
  have noholes: "holes_of h k = {}" if "k \<in> parts h i" "k \<noteq> i" for k using new [OF that] by (simp add: holes_of_def)
  have two: "holes_of h j \<inter> holes_of h k = {}" if jk: "j \<in> I \<union> parts h i" "k \<in> I \<union> parts h i" "j \<noteq> k" for j k
  proof -
    consider "j \<in> I" "k \<in> I" | "j \<in> parts h i" "j \<noteq> i" | "k \<in> parts h i" "k \<noteq> i"
      | "j = i" "k \<in> I" | "k = i" "j \<in> I" using jk by blast
    then show ?thesis
    proof cases
      case 1
      then show ?thesis using assms(1) jk(3) unfolding stocked_def by blast
    next
      case 4
      then show ?thesis using assms(2) unfolding fresh_item_def by blast
    next
      case 5
      then show ?thesis using assms(2) unfolding fresh_item_def by blast
    qed (simp_all add: noholes)
  qed
  have three: "\<exists>j \<in> I \<union> parts h i. m_kind (h j) \<noteq> HOLE_T \<and> k \<in> parts h j"
    if "k \<in> I \<union> parts h i" "m_kind (h k) = HOLE_T" for k
  proof (cases "k \<in> I")
    case True
    then show ?thesis using assms(1) that(2) unfolding stocked_def by blast
  next
    case False
    moreover have "i \<in> parts h i" by (simp add: parts_def)
    ultimately show ?thesis using that i(2) by blast
  qed
  show ?thesis unfolding stocked_def using one two three by blast
qed

lemma link_in_anchors:
  assumes "wf_obj h i"
  shows "link_in (anchors h i) i (\<lambda>t. {j \<in> I. t \<in> anchors h j}) = (\<lambda>t. {j \<in> I \<union> parts h i. t \<in> anchors h j})"
proof (rule ext)
  fix t
  have "anchors h k = {}" if "k \<in> parts h i" "k \<noteq> i" for k
    using that parts_holes wf_obj_hole(3) [OF assms] hole_no_anchor by blast
  moreover have "i \<in> parts h i" by (simp add: parts_def)
  ultimately show "link_in (anchors h i) i (\<lambda>t. {j \<in> I. t \<in> anchors h j}) t = {j \<in> I \<union> parts h i. t \<in> anchors h j}"
    unfolding link_in_def by auto
qed

lemma link_out_anchors:
  assumes "wf_obj h i"
  shows "link_out (anchors h i) i (\<lambda>t. {j \<in> I. t \<in> anchors h j})
    = (\<lambda>t. {j \<in> I - insert i (holes_of h i). t \<in> anchors h j})"
proof (rule ext)
  fix t
  have "anchors h k = {}" if "k \<in> holes_of h i" for k
    using that wf_obj_hole(3) [OF assms] hole_no_anchor by blast
  then show "link_out (anchors h i) i (\<lambda>t. {j \<in> I. t \<in> anchors h j}) t
    = {j \<in> I - insert i (holes_of h i). t \<in> anchors h j}"
    unfolding link_out_def by auto
qed

lemma root_add_ok:
  assumes "root_ok w r I" and "fresh_item (w_items w) I i" and "owns_hole (w_items w) i"
  shows "\<exists>w'. node_add r i w = Some w' \<and> root_ok w' r (I \<union> parts (w_items w) i) \<and>
    owners_after (Some (OwnerNode r)) (parts (w_items w) i) (w_items w) (w_items w')"
proof -
  let ?h = "w_items w"
  have f: "wf_obj ?h i" "parts ?h i \<inter> I = {}" using assms(2) by (auto simp: fresh_item_def)
  have inv: "node_inv w r None I (\<lambda>t. {j \<in> I. t \<in> anchors ?h j})" using assms(1) by (simp add: root_ok_def)
  from node_add_ok [OF inv f] assms(3) obtain w' where
    w': "node_add r i w = Some w'"
    "node_inv w' r None (I \<union> parts ?h i) (link_in (anchors ?h i) i (\<lambda>t. {j \<in> I. t \<in> anchors ?h j}))"
    "owners_after (Some (OwnerNode r)) (parts ?h i) ?h (w_items w')"
    unfolding owns_hole_def by blast
  have geo: "same_geo ?h (w_items w')" using w'(3) by (rule owners_after_geo)
  have "stocked (w_items w') (I \<union> parts ?h i)"
    unfolding stocked_geo [OF geo] using stocked_insert [OF _ assms(2)] assms(1) by (simp add: root_ok_def)
  moreover have "owned (w_items w') r (I \<union> parts ?h i)"
    using owned_insert [OF _ w'(3)] assms(1) by (simp add: root_ok_def)
  moreover have "node_inv w' r None (I \<union> parts ?h i) (\<lambda>t. {j \<in> I \<union> parts ?h i. t \<in> anchors (w_items w') j})"
    using w'(2) unfolding link_in_anchors [OF f(1)] anchors_geo [OF geo] .
  ultimately show ?thesis using w'(1,3) by (auto simp: root_ok_def)
qed

lemma root_remove_ok:
  assumes "root_ok w r I" and "i \<in> I" and "m_kind (w_items w i) \<noteq> HOLE_T"
  shows "\<exists>w'. NODE_Remove later r i w = Some w' \<and> root_ok w' r (I - insert i (holes_of (w_items w) i)) \<and>
    owners_removed i (w_items w) (w_items w')"
proof -
  let ?h = "w_items w" and ?J = "I - insert i (holes_of (w_items w) i)"
  have inv: "node_inv w r None I (\<lambda>t. {j \<in> I. t \<in> anchors ?h j})" and st: "stocked ?h I"
    and own: "owned ?h r I" using assms(1) by (auto simp: root_ok_def)
  have obj: "wf_obj ?h i" using st assms(2,3) unfolding stocked_def by auto
  have "m_owner (?h i) = Some (OwnerNode r)" "\<forall>t \<in> anchors ?h i. i \<in> {j \<in> I. t \<in> anchors ?h j}"
    using owned_item [OF own assms(2,3)] assms(2) by auto
  from Remove_root_ok [OF inv obj this, of later] obtain w' where
    w': "NODE_Remove later r i w = Some w'"
    "node_inv w' r None ?J (link_out (anchors ?h i) i (\<lambda>t. {j \<in> I. t \<in> anchors ?h j}))"
    "owners_removed i ?h (w_items w')" unfolding holes_of_def by blast
  have geo: "same_geo ?h (w_items w')" using w'(3) by (simp add: owners_removed_def)
  have "stocked (w_items w') ?J" unfolding stocked_geo [OF geo] using st assms(2,3) by (rule stocked_remove)
  moreover have "owned (w_items w') r ?J" using own st obj w'(3) by (rule owned_remove)
  moreover have "node_inv w' r None ?J (\<lambda>t. {j \<in> ?J. t \<in> anchors (w_items w') j})"
    using w'(2) unfolding link_out_anchors [OF obj] anchors_geo [OF geo] .
  ultimately show ?thesis using w'(1,3) by (auto simp: root_ok_def)
qed

lemma Remove_hole: "m_kind (w_items w i) = HOLE_T \<Longrightarrow> NODE_Remove later n i w = Some w"
  by (simp add: NODE_Remove_def Remove_single_def)

section \<open>Lists of items\<close>

definition removed_by :: "store \<Rightarrow> item_ref list \<Rightarrow> item_ref set" where
  "removed_by h os = (\<Union>i \<in> {i \<in> set os. m_kind (h i) \<noteq> HOLE_T}. insert i (holes_of h i))"

lemma removed_by_Cons:
  "removed_by h (i # os) = (if m_kind (h i) = HOLE_T then {} else insert i (holes_of h i)) \<union> removed_by h os"
  by (auto simp: removed_by_def)

lemma removed_by_geo: "same_geo h h' \<Longrightarrow> removed_by h' os = removed_by h os"
  by (simp add: removed_by_def kind_geo holes_geo)

lemma root_ok_obj:
  assumes "root_ok w r I" and "i \<in> I" and "m_kind (w_items w i) \<noteq> HOLE_T"
  shows "wf_obj (w_items w) i"
proof -
  have "stocked (w_items w) I" using assms(1) by (simp add: root_ok_def)
  then show ?thesis using assms(2,3) unfolding stocked_def by auto
qed

lemma root_remove_all:
  assumes "root_ok w r I" and "distinct os" and "\<forall>i \<in> set os. m_kind (w_items w i) \<noteq> HOLE_T \<longrightarrow> i \<in> I"
  shows "\<exists>w'. fold_opt (NODE_Remove later r) os w = Some w' \<and> root_ok w' r (I - removed_by (w_items w) os) \<and>
    same_geo (w_items w) (w_items w')"
  using assms
proof (induction os arbitrary: w I)
  case Nil
  then show ?case by (simp add: removed_by_def)
next
  case (Cons i os)
  show ?case
  proof (cases "m_kind (w_items w i) = HOLE_T")
    case True
    from Cons.IH [OF Cons.prems(1)] Cons.prems(2,3) show ?thesis
      by (simp add: Remove_hole [of w i, OF True] removed_by_Cons True)
  next
    case False
    let ?J = "I - insert i (holes_of (w_items w) i)"
    have i: "i \<in> I" using Cons.prems(3) False by simp
    from root_remove_ok [OF Cons.prems(1) i False, of later] obtain w1 where
      w1: "NODE_Remove later r i w = Some w1" "root_ok w1 r ?J" "owners_removed i (w_items w) (w_items w1)" by blast
    have geo: "same_geo (w_items w) (w_items w1)" using w1(3) by (simp add: owners_removed_def)
    have obj: "wf_obj (w_items w) i" using root_ok_obj [OF Cons.prems(1) i False] .
    have "\<forall>j \<in> set os. m_kind (w_items w1 j) \<noteq> HOLE_T \<longrightarrow> j \<in> ?J"
      using Cons.prems(2,3) wf_obj_hole(3) [OF obj] by (auto simp: kind_geo [OF geo])
    with Cons.IH [OF w1(2)] Cons.prems(2) obtain w2 where
      w2: "fold_opt (NODE_Remove later r) os w1 = Some w2" "root_ok w2 r (?J - removed_by (w_items w1) os)"
      "same_geo (w_items w1) (w_items w2)" by auto
    have "?J - removed_by (w_items w1) os = I - removed_by (w_items w) (i # os)"
      by (auto simp: removed_by_Cons removed_by_geo [OF geo] False)
    with w1(1) w2 same_geo_trans [OF geo w2(3)] show ?thesis by simp
  qed
qed

definition added_by :: "store \<Rightarrow> item_ref list \<Rightarrow> item_ref set" where
  "added_by h bs = (\<Union>i \<in> {i \<in> set bs. m_kind (h i) \<noteq> HOLE_T}. parts h i)"

lemma added_by_Cons:
  "added_by h (i # bs) = (if m_kind (h i) = HOLE_T then {} else parts h i) \<union> added_by h bs"
  by (auto simp: added_by_def)

lemma added_by_geo: "same_geo h h' \<Longrightarrow> added_by h' bs = added_by h bs"
  by (simp add: added_by_def kind_geo parts_geo)

text \<open>What else happens to the world does not matter to the root as long as its own part is kept.\<close>

lemma root_ok_env:
  assumes "root_ok w r I" and "w_nodes w r = Some nd" and "w_nodes w' r = Some nd'"
    and "n_index nd' = n_index nd" and "n_joints nd' = n_joints nd" and "n_parent nd' = n_parent nd"
    and "n_root nd' = n_root nd" and geo: "same_geo (w_items w) (w_items w')"
    and own: "\<forall>i \<in> I. m_owner (w_items w' i) = m_owner (w_items w i) \<or>
      given_back (w_items w) I i (m_owner (w_items w' i))"
  shows "root_ok w' r I"
proof -
  have "owned (w_items w') r I" using owned_env [OF _ geo own] assms(1) by (simp add: root_ok_def)
  moreover have "isRoot nd" using assms(1,2) root_joints_isRoot [of w nd None] by (auto simp: root_ok_def node_inv_def)
  moreover from this have "isRoot nd'" using assms(6) by (simp add: isRoot_def)
  ultimately show ?thesis
    using assms(1-7) unfolding root_ok_def node_inv_def stocked_geo [OF geo]
      wf_index_geo [OF geo] wf_joints_geo [OF geo] wf_root_geo [OF geo] anchors_geo [OF geo]
    by (simp add: root_joints_def)
qed

lemma root_ok_items:
  assumes "root_ok w r I" and "w_nodes w' = w_nodes w" and "same_geo (w_items w) (w_items w')"
    and "\<forall>i \<in> I. m_owner (w_items w' i) = m_owner (w_items w i)"
  shows "root_ok w' r I"
proof -
  have "\<forall>i \<in> I. m_owner (w_items w' i) = m_owner (w_items w i) \<or> given_back (w_items w) I i (m_owner (w_items w' i))"
    using assms(4) by simp
  moreover from assms(1) obtain nd where "w_nodes w r = Some nd" by (auto simp: root_ok_def node_inv_def)
  ultimately show ?thesis using root_ok_env [of w r I nd w' nd] assms(1-3) by simp
qed

lemma stocked_covered:
  assumes "stocked h I" and "set os = {i. i \<in> I \<and> m_kind (h i) \<noteq> HOLE_T}"
  shows "I \<subseteq> removed_by h os" "added_by h os = I"
proof -
  have cover: "\<exists>i \<in> set os. k \<in> parts h i" if k: "k \<in> I" for k
  proof -
    have "\<exists>i \<in> I. m_kind (h i) \<noteq> HOLE_T \<and> k \<in> parts h i"
    proof (cases "m_kind (h k) = HOLE_T")
      case True
      then show ?thesis using assms(1) k unfolding stocked_def by blast
    next
      case False
      moreover have "k \<in> parts h k" by (simp add: parts_def)
      ultimately show ?thesis using k by blast
    qed
    then show ?thesis using assms(2) by auto
  qed
  have sub: "parts h i \<subseteq> I" if "i \<in> set os" for i
    using assms that unfolding stocked_def by auto
  have os: "{i \<in> set os. m_kind (h i) \<noteq> HOLE_T} = set os" using assms(2) by auto
  show "added_by h os = I" unfolding added_by_def os using cover sub by blast
  show "I \<subseteq> removed_by h os"
  proof
    fix k assume "k \<in> I"
    then obtain i where "i \<in> set os" "k \<in> parts h i" using cover by blast
    then have "i \<in> set os" "k \<in> insert i (holes_of h i)" using parts_holes by blast+
    then show "k \<in> removed_by h os" unfolding removed_by_def os by blast
  qed
qed

lemma root_okE:
  assumes "root_ok w r I"
  obtains nd where "w_nodes w r = Some nd" "isRoot nd" "n_root nd = r" "wf_index (w_items w) (n_index nd)"
    "items_of (n_index nd) = I" "wf_joints (w_items w) (n_joints nd)"
    "linked None (n_joints nd) = (\<lambda>t. {i \<in> I. t \<in> anchors (w_items w) i})"
    "stocked (w_items w) I" "owned (w_items w) r I"
  using assms root_joints_isRoot by (auto simp: root_ok_def node_inv_def)

section \<open>The reachable states of a root\<close>

text \<open>
  A root node is created empty; then items that are neither in it nor share a hole with one of its
  items are added, and items that it holds are removed, in any order. Between two steps anything
  may happen to the other nodes, to the children and the garbage of the root and to the owners of
  items that it does not hold, and a hole that it holds may be given back to its via or pad, as it
  is when a branch removes that via or pad. The theory \<open>PnsBranch\<close> shows that what the branches do
  are steps of this kind.
\<close>

definition items_at :: "WORLD \<Rightarrow> nat \<Rightarrow> item_ref set" where
  "items_at w n = (case w_nodes w n of None \<Rightarrow> {} | Some nd \<Rightarrow> items_of (n_index nd))"

inductive root_step :: "JOINT list \<Rightarrow> nat \<Rightarrow> WORLD \<Rightarrow> WORLD \<Rightarrow> bool" for later r where
  step_add: "fresh_item (w_items w) (items_at w r) i \<Longrightarrow> owns_hole (w_items w) i \<Longrightarrow>
    node_add r i w = Some w' \<Longrightarrow> root_step later r w w'"
| step_remove: "i \<in> items_at w r \<Longrightarrow> NODE_Remove later r i w = Some w' \<Longrightarrow> root_step later r w w'"
| step_env: "w_nodes w r = Some nd \<Longrightarrow> w_nodes w' r = Some nd' \<Longrightarrow> n_index nd' = n_index nd \<Longrightarrow>
    n_joints nd' = n_joints nd \<Longrightarrow> n_parent nd' = n_parent nd \<Longrightarrow> n_root nd' = n_root nd \<Longrightarrow>
    same_geo (w_items w) (w_items w') \<Longrightarrow>
    \<forall>i \<in> items_at w r. m_owner (w_items w' i) = m_owner (w_items w i) \<or>
      given_back (w_items w) (items_at w r) i (m_owner (w_items w' i)) \<Longrightarrow> root_step later r w w'"

inductive_cases root_stepE: "root_step later r w w'"

inductive root_reach :: "JOINT list \<Rightarrow> nat \<Rightarrow> WORLD \<Rightarrow> bool" for later r where
  reach_new: "w_nodes w r = Some (NODE_make r) \<Longrightarrow> root_reach later r w"
| reach_step: "root_reach later r w \<Longrightarrow> root_step later r w w' \<Longrightarrow> root_reach later r w'"

lemma root_ok_items_at: "root_ok w r I \<Longrightarrow> items_at w r = I"
  by (auto simp: root_ok_def node_inv_def items_at_def)

lemma root_ok_new:
  assumes "w_nodes w r = Some (NODE_make r)"
  shows "root_ok w r {}"
proof -
  have "linked None [] = (\<lambda>t. {})" by (rule ext) (simp add: linked_def joints_at_def touch_copy_def)
  with assms show ?thesis
    by (simp add: root_ok_def node_inv_def NODE_make_def root_joints_def isRoot_def stocked_def wf_joints_def owned_def)
qed

lemma root_step_ok:
  assumes "root_step later r w w'" and "root_ok w r (items_at w r)"
  shows "root_ok w' r (items_at w' r)"
  using assms(1)
proof (rule root_stepE)
  fix i assume a: "fresh_item (w_items w) (items_at w r) i" "owns_hole (w_items w) i" "node_add r i w = Some w'"
  from root_add_ok [OF assms(2) a(1,2)] a(3) show ?thesis using root_ok_items_at by auto
next
  fix i assume a: "i \<in> items_at w r" "NODE_Remove later r i w = Some w'"
  show ?thesis
  proof (cases "m_kind (w_items w i) = HOLE_T")
    case True
    then show ?thesis using Remove_hole [of w i] a(2) assms(2) by simp
  next
    case False
    from root_remove_ok [OF assms(2) a(1) False, of later] a(2) show ?thesis using root_ok_items_at by auto
  qed
next
  fix nd nd' assume a: "w_nodes w r = Some nd" "w_nodes w' r = Some nd'" "n_index nd' = n_index nd"
    "n_joints nd' = n_joints nd" "n_parent nd' = n_parent nd" "n_root nd' = n_root nd"
    "same_geo (w_items w) (w_items w')" "\<forall>i \<in> items_at w r. m_owner (w_items w' i) = m_owner (w_items w i) \<or>
      given_back (w_items w) (items_at w r) i (m_owner (w_items w' i))"
  then have "items_at w' r = items_at w r" by (simp add: items_at_def)
  with root_ok_env [OF assms(2) a] show ?thesis by simp
qed

lemma root_reach_ok: "root_reach later r w \<Longrightarrow> root_ok w r (items_at w r)"
proof (induction rule: root_reach.induct)
  case (reach_new w)
  then show ?case using root_ok_new root_ok_items_at by metis
next
  case (reach_step w w')
  then show ?case using root_step_ok by blast
qed

text \<open>
  C3. In every reachable state of a root node the index and the joints are well-formed and agree:
  at each position and net the joints link exactly the items of the index that end there. Every
  track, via and pad of the index is owned by the node; a hole of the index is owned by the node or,
  once a branch has removed its via or pad, by that via or pad, which is in the index too.
\<close>

theorem root_reachable_agrees:
  assumes "root_reach later r w"
  shows "\<exists>nd. w_nodes w r = Some nd \<and> wf_index (w_items w) (n_index nd) \<and> wf_joints (w_items w) (n_joints nd) \<and>
    linked None (n_joints nd) = (\<lambda>t. {i. i \<in> items_of (n_index nd) \<and> t \<in> anchors (w_items w) i}) \<and>
    (\<forall>i. i \<in> items_of (n_index nd) \<longrightarrow> BelongsTo (w_items w i) (Some (OwnerNode r)) \<or>
      m_kind (w_items w i) = HOLE_T \<and> (\<exists>j. j \<in> items_of (n_index nd) \<and> m_hole (w_items w j) = Some i \<and>
        BelongsTo (w_items w i) (Some (OwnerItem j))))"
  using root_reach_ok [OF assms]
proof (rule root_okE)
  fix nd assume nd: "w_nodes w r = Some nd" "wf_index (w_items w) (n_index nd)" "items_of (n_index nd) = items_at w r"
    "wf_joints (w_items w) (n_joints nd)" "linked None (n_joints nd) = (\<lambda>t. {i \<in> items_at w r. t \<in> anchors (w_items w) i})"
    and own: "owned (w_items w) r (items_at w r)"
  have "\<forall>i. i \<in> items_at w r \<longrightarrow> BelongsTo (w_items w i) (Some (OwnerNode r)) \<or>
      m_kind (w_items w i) = HOLE_T \<and> (\<exists>j. j \<in> items_at w r \<and> m_hole (w_items w j) = Some i \<and>
        BelongsTo (w_items w i) (Some (OwnerItem j)))"
    using own unfolding owned_def given_back_def BelongsTo_def by blast
  then show ?thesis using nd by (intro exI [of _ nd]) simp
qed

text \<open>An example: a segment, and a via with its hole, of net 5 in a new root node.\<close>

definition demo_items :: store where
  "demo_items = (\<lambda>i.
     if i = 1 then (ITEM_make SEGMENT_T)\<lparr> m_layers := LAYER_RANGE_single 0, m_net := Some 5,
       m_anchor0 := (0, 0), m_anchor1 := (10, 0) \<rparr>
     else if i = 2 then (ITEM_make VIA_T)\<lparr> m_layers := LAYER_RANGE_make 0 2, m_net := Some 5,
       m_anchor0 := (10, 0), m_hole := Some 3 \<rparr>
     else if i = 3 then (ITEM_make HOLE_T)\<lparr> m_layers := LAYER_RANGE_make 0 2, m_parentPadVia := Some 2,
       m_owner := Some (OwnerItem 2) \<rparr>
     else ITEM_make INVALID_T)"

definition demo_world :: WORLD where
  "demo_world = \<lparr> w_items = demo_items, w_nodes = [0 \<mapsto> NODE_make 0], w_deleted = [] \<rparr>"

lemma demo_fresh: "fresh_item demo_items {} 2" "fresh_item demo_items {2, 3} 1" "owns_hole demo_items 2"
  "parts demo_items 2 = {2, 3}" "anchors demo_items 2 = {the_tag (10, 0) (Some 5)}" "holes_of demo_items 2 = {3}"
  "m_kind (demo_items 2) = VIA_T"
  by (simp_all add: fresh_item_def wf_obj_def wf_item_def wf_range_def parts_def holes_of_def HasHole_def owns_hole_def
      demo_items_def ITEM_make_def LAYER_RANGE_make_def LAYER_RANGE_single_def anchors_def Net_def)

lemma demo_add:
  obtains w1 where "node_add 0 2 demo_world = Some w1" "root_reach later 0 w1" "items_at w1 0 = {2, 3}"
    "same_geo demo_items (w_items w1)"
proof -
  have new: "w_nodes demo_world 0 = Some (NODE_make 0)" and items: "w_items demo_world = demo_items"
    by (simp_all add: demo_world_def)
  note ok = root_ok_new [OF new]
  from root_add_ok [OF ok, of 2] demo_fresh items obtain w1 where
    w1: "node_add 0 2 demo_world = Some w1" "root_ok w1 0 {2, 3}" "owners_after (Some (OwnerNode 0)) {2, 3} demo_items (w_items w1)"
    by auto
  have "root_step later 0 demo_world w1"
    by (rule step_add [OF _ _ w1(1)]) (use demo_fresh items root_ok_items_at [OF ok] in simp_all)
  then have "root_reach later 0 w1" by (rule reach_step [OF reach_new [OF new]])
  then show thesis using that w1(1) root_ok_items_at [OF w1(2)] owners_after_geo [OF w1(3)] by blast
qed

theorem root_reachable_agrees_witness:
  "\<exists>w' nd. node_add 0 2 demo_world = Some w' \<and> w_nodes w' 0 = Some nd \<and> items_of (n_index nd) = {2, 3} \<and>
    linked None (n_joints nd) (the_tag (10, 0) (Some 5)) = {2} \<and> BelongsTo (w_items w' 2) (Some (OwnerNode 0))"
proof (rule demo_add [of "[]"])
  fix w1 assume w1: "node_add 0 2 demo_world = Some w1" "root_reach [] 0 w1" "items_at w1 0 = {2, 3}"
    "same_geo demo_items (w_items w1)"
  from root_reachable_agrees [OF w1(2)] obtain nd where
    nd: "w_nodes w1 0 = Some nd" "linked None (n_joints nd) = (\<lambda>t. {i. i \<in> items_of (n_index nd) \<and> t \<in> anchors (w_items w1) i})"
    "\<forall>i. i \<in> items_of (n_index nd) \<longrightarrow> BelongsTo (w_items w1 i) (Some (OwnerNode 0)) \<or> m_kind (w_items w1 i) = HOLE_T"
    by blast
  have "items_of (n_index nd) = {2, 3}" using w1(3) nd(1) by (simp add: items_at_def)
  moreover have "anchors (w_items w1) 2 = {the_tag (10, 0) (Some 5)}" "anchors (w_items w1) 3 = {}"
    using anchors_geo [OF w1(4)] demo_fresh(5) by (simp_all add: anchors_def demo_items_def ITEM_make_def)
  moreover have "m_kind (w_items w1 2) \<noteq> HOLE_T" using kind_geo [OF w1(4)] demo_fresh(7) by simp
  ultimately show ?thesis using w1(1) nd by auto
qed

text \<open>
  C10. A root node is never stuck: in every reachable state, also after branches have removed vias and
  pads that it holds, an item that is not there can be added, an item that is there can be removed, neither fails an assertion, and removing everything ends in an
  empty index with no item linked.
\<close>

theorem root_operations_return:
  assumes "root_reach later r w"
  shows "(fresh_item (w_items w) (items_at w r) i \<and> owns_hole (w_items w) i \<longrightarrow>
      (\<exists>w'. node_add r i w = Some w' \<and> items_at w' r = items_at w r \<union> parts (w_items w) i)) \<and>
    (i \<in> items_at w r \<and> m_kind (w_items w i) \<noteq> HOLE_T \<longrightarrow>
      (\<exists>w'. NODE_Remove later r i w = Some w' \<and> items_at w' r = items_at w r - insert i (holes_of (w_items w) i))) \<and>
    (distinct os \<and> set os = {i. i \<in> items_at w r \<and> m_kind (w_items w i) \<noteq> HOLE_T} \<longrightarrow>
      (\<exists>w' nd. fold_opt (NODE_Remove later r) os w = Some w' \<and> w_nodes w' r = Some nd \<and>
        items_of (n_index nd) = {} \<and> linked None (n_joints nd) = (\<lambda>t. {})))"
proof -
  have ok: "root_ok w r (items_at w r)" using root_reach_ok [OF assms] .
  have rem: "\<exists>w'. NODE_Remove later r i w = Some w' \<and> items_at w' r = items_at w r - insert i (holes_of (w_items w) i)"
    if "i \<in> items_at w r" "m_kind (w_items w i) \<noteq> HOLE_T"
    using root_remove_ok [OF ok that, of later] root_ok_items_at by blast
  have add: "\<exists>w'. node_add r i w = Some w' \<and> items_at w' r = items_at w r \<union> parts (w_items w) i"
    if "fresh_item (w_items w) (items_at w r) i" "owns_hole (w_items w) i"
    using root_add_ok [OF ok that] root_ok_items_at by blast
  have all: "\<exists>w' nd. fold_opt (NODE_Remove later r) os w = Some w' \<and> w_nodes w' r = Some nd \<and>
        items_of (n_index nd) = {} \<and> linked None (n_joints nd) = (\<lambda>t. {})"
    if os: "distinct os" "set os = {i. i \<in> items_at w r \<and> m_kind (w_items w i) \<noteq> HOLE_T}"
  proof -
    have "items_at w r - removed_by (w_items w) os = {}"
      using stocked_covered(1) [OF _ os(2)] ok by (simp add: root_ok_def)
    with root_remove_all [OF ok os(1), of later] os(2) obtain w' where
      w': "fold_opt (NODE_Remove later r) os w = Some w'" "root_ok w' r {}" by auto
    from w'(2) show ?thesis by (rule root_okE) (use w'(1) in simp)
  qed
  show ?thesis using rem add all by blast
qed

theorem root_operations_return_witness:
  "\<exists>w' w''. node_add 0 2 demo_world = Some w' \<and> NODE_Remove [] 0 2 w' = Some w'' \<and> items_at w'' 0 = {}"
proof (rule demo_add [of "[]"])
  fix w1 assume w1: "node_add 0 2 demo_world = Some w1" "root_reach [] 0 w1" "items_at w1 0 = {2, 3}"
    "same_geo demo_items (w_items w1)"
  have "m_kind (w_items w1 2) \<noteq> HOLE_T" "holes_of (w_items w1) 2 = {3}"
    using kind_geo [OF w1(4)] holes_geo [OF w1(4)] demo_fresh by simp_all
  with root_operations_return [OF w1(2), of 2 "[]"] w1 show ?thesis by auto
qed

end
