(* ===== verification/PnsTree.thy ===== *)
theory PnsTree
  imports PnsNode
begin

text \<open>
  The tree of branches of \<^verbatim>\<open>pcbnew/router/pns_node.cpp\<close>: \<open>NODE::Branch\<close> adds a leaf to it, and the
  recursion of \<open>NODE::releaseChildren\<close> ends and leaves a node without descendants and every node that
  is not below it as it was.
\<close>

definition tree_ok :: "WORLD \<Rightarrow> bool" where
  "tree_ok w \<longleftrightarrow> (\<forall>x xd. w_nodes w x = Some xd \<longrightarrow>
     distinct (n_children xd) \<and>
     (\<forall>c \<in> set (n_children xd). \<exists>cd. w_nodes w c = Some cd \<and> n_parent cd = Some x) \<and>
     (\<exists>rd. w_nodes w (n_root xd) = Some rd \<and> n_parent rd = None) \<and>
     (case n_parent xd of
        None \<Rightarrow> n_root xd = x
      | Some p \<Rightarrow> \<exists>pd. w_nodes w p = Some pd \<and> x \<in> set (n_children pd) \<and> n_depth xd = n_depth pd + 1 \<and>
          n_root xd = n_root pd))"

lemma tree_okD:
  assumes "tree_ok w" and "w_nodes w x = Some xd"
  shows "distinct (n_children xd)"
    and "c \<in> set (n_children xd) \<Longrightarrow> \<exists>cd. w_nodes w c = Some cd \<and> n_parent cd = Some x"
    and "n_parent xd = None \<Longrightarrow> n_root xd = x"
    and "n_parent xd = Some p \<Longrightarrow> \<exists>pd. w_nodes w p = Some pd \<and> x \<in> set (n_children pd) \<and>
      n_depth xd = n_depth pd + 1 \<and> n_root xd = n_root pd"
    and "\<exists>rd. w_nodes w (n_root xd) = Some rd \<and> n_parent rd = None"
  using assms(1) [unfolded tree_ok_def, rule_format, OF assms(2)] by auto

lemma tree_okI:
  assumes "\<And>x xd. w_nodes w x = Some xd \<Longrightarrow> distinct (n_children xd)"
    and "\<And>x xd c. w_nodes w x = Some xd \<Longrightarrow> c \<in> set (n_children xd) \<Longrightarrow>
      \<exists>cd. w_nodes w c = Some cd \<and> n_parent cd = Some x"
    and "\<And>x xd. w_nodes w x = Some xd \<Longrightarrow> n_parent xd = None \<Longrightarrow> n_root xd = x"
    and "\<And>x xd p. w_nodes w x = Some xd \<Longrightarrow> n_parent xd = Some p \<Longrightarrow>
      \<exists>pd. w_nodes w p = Some pd \<and> x \<in> set (n_children pd) \<and> n_depth xd = n_depth pd + 1 \<and> n_root xd = n_root pd"
    and "\<And>x xd. w_nodes w x = Some xd \<Longrightarrow> \<exists>rd. w_nodes w (n_root xd) = Some rd \<and> n_parent rd = None"
  shows "tree_ok w"
  unfolding tree_ok_def using assms by (auto split: option.splits)

lemma tree_ok_child_depth:
  assumes "tree_ok w" and "w_nodes w x = Some xd" and "c \<in> set (n_children xd)"
  obtains cd where "w_nodes w c = Some cd" "n_parent cd = Some x" "n_depth cd = n_depth xd + 1" "c \<noteq> x"
proof -
  from tree_okD(2) [OF assms] obtain cd where cd: "w_nodes w c = Some cd" "n_parent cd = Some x" by blast
  from tree_okD(4) [OF assms(1) cd] assms(2) have "n_depth cd = n_depth xd + 1" by auto
  moreover from this have "c \<noteq> x" using cd(1) assms(2) by auto
  ultimately show thesis using that cd by blast
qed

section \<open>Destroying a node\<close>

text \<open>\<open>own_holes\<close> are the items that the destructor of a node deletes: the holes that it owns.\<close>

definition own_holes :: "WORLD \<Rightarrow> nat \<Rightarrow> item_ref set" where
  "own_holes w n = {i. BelongsTo (w_items w i) (Some (OwnerNode n)) \<and> OfKind (w_items w i) (kind_num HOLE_T)}"

lemma destroy_leaf:
  assumes "tree_ok w" and "w_nodes w c = Some cd" and "n_children cd = []" and "n_parent cd = Some p"
    and "w_nodes w p = Some pd" and "p \<noteq> c"
  shows "\<exists>w'. NODE_destroy c w = Some w' \<and> tree_ok w' \<and> w_items w' = w_items w \<and>
    w_nodes w' = (w_nodes w)(p \<mapsto> pd\<lparr> n_children := removeAll c (n_children pd) \<rparr>, c := None) \<and>
    set (w_deleted w') \<subseteq> set (w_deleted w) \<union> own_holes w c"
proof -
  let ?N = "(w_nodes w)(p \<mapsto> pd\<lparr> n_children := removeAll c (n_children pd) \<rparr>, c := None)"
  let ?dead = "filter (\<lambda>i. BelongsTo (w_items w i) (Some (OwnerNode c)) \<and> OfKind (w_items w i) (kind_num HOLE_T))
    (m_allItems (n_index cd))"
  let ?w = "w\<lparr> w_deleted := ?dead @ w_deleted w, w_nodes := ?N \<rparr>"
  have "NODE_destroy c w = Some ?w"
    using assms(2-6) by (simp add: NODE_destroy_def releaseGarbage_def unlinkParent_def isRoot_def set_node_def Let_def)
  moreover have "tree_ok ?w"
  proof (rule tree_okI)
    fix x xd assume x: "w_nodes ?w x = Some xd"
    obtain yd where yd: "w_nodes w x = Some yd" "xd = yd \<or> x = p \<and> yd = pd \<and> xd = pd\<lparr> n_children := removeAll c (n_children pd) \<rparr>"
      "x \<noteq> c" using x assms(5) by (auto split: if_splits)
    show "distinct (n_children xd)" using yd(2) tree_okD(1) [OF assms(1) yd(1)] by (auto simp: distinct_removeAll)
    show "\<exists>rd. w_nodes ?w (n_root xd) = Some rd \<and> n_parent rd = None"
    proof -
      obtain rd where rd: "w_nodes w (n_root yd) = Some rd" "n_parent rd = None"
        using tree_okD(5) [OF assms(1) yd(1)] by blast
      have "n_root yd \<noteq> c" using rd assms(2,4) by auto
      moreover have "n_root xd = n_root yd" using yd(2) by auto
      ultimately show ?thesis using rd assms(5) by (cases "n_root yd = p") auto
    qed
    show "n_root xd = x" if "n_parent xd = None"
      using yd(2) tree_okD(3) [OF assms(1) yd(1)] that by auto
    show "\<exists>kd. w_nodes ?w k = Some kd \<and> n_parent kd = Some x" if k: "k \<in> set (n_children xd)" for k
    proof -
      have k': "k \<in> set (n_children yd)" using k yd(2) by auto
      from tree_ok_child_depth [OF assms(1) yd(1) k'] obtain kd where
        kd: "w_nodes w k = Some kd" "n_parent kd = Some x" "k \<noteq> x" by blast
      have "k \<noteq> c" using kd(1,2) yd(2) k assms(2,4) x by (auto split: if_splits)
      with kd show ?thesis using assms(5) by (cases "k = p") auto
    qed
    show "\<exists>qd. w_nodes ?w q = Some qd \<and> x \<in> set (n_children qd) \<and> n_depth xd = n_depth qd + 1 \<and> n_root xd = n_root qd"
      if q: "n_parent xd = Some q" for q
    proof -
      have "n_parent yd = Some q" "n_depth yd = n_depth xd" "n_root yd = n_root xd" using q yd(2) by auto
      with tree_okD(4) [OF assms(1) yd(1), of q] obtain qd where
        qd: "w_nodes w q = Some qd" "x \<in> set (n_children qd)" "n_depth xd = n_depth qd + 1" "n_root xd = n_root qd" by auto
      have "q \<noteq> c" using qd(1,2) assms(2,3) by auto
      with qd show ?thesis using assms(5) yd(3) by (cases "q = p") auto
    qed
  qed
  moreover have "set (w_deleted ?w) \<subseteq> set (w_deleted w) \<union> own_holes w c" by (auto simp: own_holes_def)
  ultimately show ?thesis by (intro exI [of _ ?w]) simp
qed

section \<open>The descendants of a node\<close>

inductive below :: "WORLD \<Rightarrow> nat \<Rightarrow> nat \<Rightarrow> bool" for w n where
  below_child: "w_nodes w x = Some xd \<Longrightarrow> n_parent xd = Some n \<Longrightarrow> below w n x"
| below_step: "w_nodes w x = Some xd \<Longrightarrow> n_parent xd = Some y \<Longrightarrow> below w n y \<Longrightarrow> below w n x"

lemma below_trans: "below w c x \<Longrightarrow> below w n c \<Longrightarrow> below w n x"
  by (induction rule: below.induct) (auto intro: below.intros)

lemma below_mono:
  assumes "below w' n x"
    and "\<And>x xd'. w_nodes w' x = Some xd' \<Longrightarrow> \<exists>xd. w_nodes w x = Some xd \<and> n_parent xd = n_parent xd'"
  shows "below w n x"
  using assms(1)
proof (induction rule: below.induct)
  case (below_child x xd)
  then show ?case using assms(2) [of x xd] below.below_child [of w x _ n] by auto
next
  case (below_step x xd y)
  then show ?case using assms(2) [of x xd] below.below_step [of w x _ y n] by auto
qed

lemma below_depth:
  assumes "below w n x" and "tree_ok w" and "w_nodes w n = Some nd"
  shows "\<exists>xd. w_nodes w x = Some xd \<and> n_depth nd < n_depth xd"
  using assms(1)
proof (induction rule: below.induct)
  case (below_child x xd)
  then show ?case using tree_okD(4) [OF assms(2), of x xd n] assms(3) by auto
next
  case (below_step x xd y)
  then show ?case using tree_okD(4) [OF assms(2), of x xd y] by fastforce
qed

section \<open>Releasing the children\<close>

text \<open>\<open>w'\<close> is \<open>w\<close> without the nodes below \<open>n\<close>.\<close>

definition released :: "WORLD \<Rightarrow> nat \<Rightarrow> WORLD \<Rightarrow> bool" where
  "released w n w' \<longleftrightarrow> tree_ok w' \<and> w_items w' = w_items w \<and>
     (\<forall>x. x \<noteq> n \<longrightarrow> w_nodes w' x = w_nodes w x \<or> w_nodes w' x = None \<and> below w n x) \<and>
     w_nodes w' n = map_option (\<lambda>nd. nd\<lparr> n_children := [] \<rparr>) (w_nodes w n) \<and>
     (\<forall>i \<in> set (w_deleted w') - set (w_deleted w). \<exists>x. below w n x \<and> i \<in> own_holes w x)"

lemma released_none:
  assumes "tree_ok w" and "w_nodes w n = Some nd" and "n_children nd = []"
  shows "released w n w"
proof -
  have "nd\<lparr> n_children := [] \<rparr> = nd" using assms(3) by (cases nd) simp
  with assms show ?thesis by (simp add: released_def)
qed

lemma released_step:
  assumes w: "tree_ok w" "w_nodes w n = Some nd" "n_children nd = c # cs"
    and w1: "released w c w1"
    and w2: "w_items w2 = w_items w1" "w_nodes w2 = (w_nodes w1)(n \<mapsto> nd\<lparr> n_children := cs \<rparr>, c := None)"
      "set (w_deleted w2) \<subseteq> set (w_deleted w1) \<union> own_holes w1 c"
    and w3: "released w2 n w3"
  shows "released w n w3"
proof -
  obtain cd where cd: "w_nodes w c = Some cd" "n_parent cd = Some n" "c \<noteq> n"
    using tree_ok_child_depth [OF w(1,2), of c] w(3) by auto
  have c: "below w n c" using cd(1,2) by (rule below_child)
  have items: "w_items w1 = w_items w" "w_items w3 = w_items w" using w1 w2(1) w3 by (simp_all add: released_def)
  have gone1: "w_nodes w1 x = w_nodes w x \<or> w_nodes w1 x = None \<and> below w c x" if "x \<noteq> c" for x
    using w1 that by (simp add: released_def)
  have parents: "\<exists>xd. w_nodes w x = Some xd \<and> n_parent xd = n_parent xd'" if x: "w_nodes w2 x = Some xd'" for x xd'
  proof -
    have c: "x \<noteq> c" using x w2(2) by auto
    show ?thesis
    proof (cases "x = n")
      case True
      then show ?thesis using x w2(2) w(2) c by auto
    next
      case False
      then have "w_nodes w1 x = Some xd'" using x w2(2) c by simp
      with gone1 [OF c] have "w_nodes w x = Some xd'" by (metis option.distinct(1))
      then show ?thesis by simp
    qed
  qed
  have sub: "below w n x" if "below w2 n x" for x
    using that parents by (rule below_mono)
  have gone: "w_nodes w3 x = w_nodes w x \<or> w_nodes w3 x = None \<and> below w n x" if x: "x \<noteq> n" for x
  proof -
    have "w_nodes w3 x = w_nodes w2 x \<or> w_nodes w3 x = None \<and> below w2 n x"
      using w3 x by (simp add: released_def)
    moreover have "w_nodes w2 x = w_nodes w x \<or> w_nodes w2 x = None \<and> below w n x"
      using x w2(2) c gone1 [of x] below_trans [OF _ c] by (cases "x = c") auto
    ultimately show ?thesis using sub [of x] by metis
  qed
  have dead: "\<exists>x. below w n x \<and> i \<in> own_holes w x" if i: "i \<in> set (w_deleted w3) - set (w_deleted w)" for i
  proof -
    have holes: "own_holes w2 x = own_holes w x" "own_holes w1 x = own_holes w x" for x
      using items(1) w2(1) by (simp_all add: own_holes_def)
    consider "i \<in> set (w_deleted w3) - set (w_deleted w2)" | "i \<in> set (w_deleted w2) - set (w_deleted w1)"
      | "i \<in> set (w_deleted w1) - set (w_deleted w)" using i by blast
    then show ?thesis
    proof cases
      case 1
      then obtain x where "below w2 n x" "i \<in> own_holes w2 x" using w3 unfolding released_def by blast
      then show ?thesis using sub [of x] holes by blast
    next
      case 2
      then have "i \<in> own_holes w c" using w2(3) holes by blast
      with c show ?thesis by blast
    next
      case 3
      then obtain x where "below w c x" "i \<in> own_holes w x" using w1 unfolding released_def by blast
      then show ?thesis using below_trans [OF _ c] by blast
    qed
  qed
  have "w_nodes w3 n = map_option (\<lambda>nd. nd\<lparr> n_children := [] \<rparr>) (w_nodes w n)"
    using w3 w2(2) w(2) cd(3) by (simp add: released_def)
  with gone dead items w3 show ?thesis unfolding released_def by blast
qed

text \<open>\<open>D\<close> bounds the depth of every node; the fuel has to exceed the levels below the node.\<close>

definition depth_bound :: "WORLD \<Rightarrow> int \<Rightarrow> bool" where
  "depth_bound w D \<longleftrightarrow> (\<forall>x xd. w_nodes w x = Some xd \<longrightarrow> n_depth xd \<le> D)"

lemma release_list:
  assumes IH: "\<And>n w nd. tree_ok w \<Longrightarrow> w_nodes w n = Some nd \<Longrightarrow> depth_bound w D \<Longrightarrow> D - n_depth nd < int fuel \<Longrightarrow>
      \<exists>w'. releaseChildren fuel n w = Some w' \<and> released w n w'"
    and "tree_ok w" and "w_nodes w n = Some nd" and "n_children nd = cs" and "depth_bound w D"
    and "D - n_depth nd < int (Suc fuel)"
  shows "\<exists>w'. fold_opt (\<lambda>node w. do { w \<leftarrow> releaseChildren fuel node w; NODE_destroy node w }) cs w = Some w' \<and>
    released w n w'"
  using assms(2-6)
proof (induction cs arbitrary: w nd)
  case Nil
  then show ?case using released_none by simp
next
  case (Cons c cs)
  from tree_ok_child_depth [OF Cons.prems(1,2), of c] Cons.prems(3) obtain cd where
    cd: "w_nodes w c = Some cd" "n_parent cd = Some n" "n_depth cd = n_depth nd + 1" "c \<noteq> n" by auto
  from IH [OF Cons.prems(1) cd(1) Cons.prems(4)] cd(3) Cons.prems(5) obtain w1 where
    w1: "releaseChildren fuel c w = Some w1" "released w c w1" by auto
  have "\<not> below w c n" using below_depth [OF _ Cons.prems(1) cd(1), of n] Cons.prems(2) cd(3) by auto
  then have n1: "w_nodes w1 n = Some nd" using w1(2) cd(4) Cons.prems(2) unfolding released_def by metis
  have c1: "w_nodes w1 c = Some (cd\<lparr> n_children := [] \<rparr>)" using w1(2) cd(1) by (simp add: released_def)
  have t1: "tree_ok w1" using w1(2) by (simp add: released_def)
  have "distinct (c # cs)" using tree_okD(1) [OF Cons.prems(1,2)] Cons.prems(3) by simp
  then have rem: "removeAll c (n_children nd) = cs" using Cons.prems(3) by simp
  from destroy_leaf [OF t1 c1 _ _ n1] cd(2,4) rem obtain w2 where
    w2: "NODE_destroy c w1 = Some w2" "tree_ok w2" "w_items w2 = w_items w1"
    "w_nodes w2 = (w_nodes w1)(n \<mapsto> nd\<lparr> n_children := cs \<rparr>, c := None)"
    "set (w_deleted w2) \<subseteq> set (w_deleted w1) \<union> own_holes w1 c" by auto
  have n2: "w_nodes w2 n = Some (nd\<lparr> n_children := cs \<rparr>)" using w2(4) cd(4) by simp
  have "n_depth xd \<le> D" if x: "w_nodes w2 x = Some xd" for x xd
  proof (cases "x = n")
    case True
    then show ?thesis using n2 x Cons.prems(2,4) unfolding depth_bound_def by auto
  next
    case False
    then have "w_nodes w1 x = Some xd" "x \<noteq> c" using x w2(4) by (auto split: if_splits)
    then have "w_nodes w x = Some xd" using w1(2) unfolding released_def by (metis option.distinct(1))
    then show ?thesis using Cons.prems(4) unfolding depth_bound_def by blast
  qed
  then have "depth_bound w2 D" by (simp add: depth_bound_def)
  from Cons.IH [OF w2(2) n2 _ this] Cons.prems(5) obtain w3 where
    w3: "fold_opt (\<lambda>node w. do { w \<leftarrow> releaseChildren fuel node w; NODE_destroy node w }) cs w2 = Some w3"
    "released w2 n w3" by auto
  have "released w n w3"
    using Cons.prems(1-3) w1(2) w2(3-5) w3(2) by (rule released_step)
  with w1(1) w2(1) w3(1) show ?case by auto
qed

lemma release_ok:
  assumes "tree_ok w" and "w_nodes w n = Some nd" and "depth_bound w D" and "D - n_depth nd < int fuel"
  shows "\<exists>w'. releaseChildren fuel n w = Some w' \<and> released w n w'"
  using assms
proof (induction fuel arbitrary: n w nd)
  case 0
  have "n_depth nd \<le> D" using 0(2,3) unfolding depth_bound_def by blast
  with 0 show ?case by simp
next
  case (Suc fuel)
  from release_list [OF Suc.IH Suc.prems(1,2) refl Suc.prems(3,4)] Suc.prems(2) show ?case by simp
qed

text \<open>Nothing below the node is left.\<close>

lemma released_below:
  assumes "released w n w'" and "tree_ok w" and "w_nodes w n = Some nd" and "below w n x"
  shows "w_nodes w' x = None"
  using assms(4)
proof (induction rule: below.induct)
  case (below_child x xd)
  have "x \<noteq> n" using below_depth [OF below.below_child [OF below_child] assms(2,3)] assms(3) by auto
  show ?case
  proof (rule ccontr)
    assume "w_nodes w' x \<noteq> None"
    then have "w_nodes w' x = Some xd" using assms(1) \<open>x \<noteq> n\<close> below_child(1) unfolding released_def by metis
    with tree_okD(4) [of w' x xd n] assms(1,3) below_child(2) show False by (auto simp: released_def)
  qed
next
  case (below_step x xd y)
  have "x \<noteq> n" using below_depth [OF below.below_step [OF below_step(1-3)] assms(2,3)] assms(3) by auto
  show ?case
  proof (rule ccontr)
    assume "w_nodes w' x \<noteq> None"
    then have "w_nodes w' x = Some xd" using assms(1) \<open>x \<noteq> n\<close> below_step(1) unfolding released_def by metis
    with tree_okD(4) [of w' x xd y] assms(1) below_step(2,4) show False by (auto simp: released_def)
  qed
qed

text \<open>
  C11. Releasing the children returns: with fuel for the levels of the tree below the node, the
  recursion ends without a failed assertion, deletes exactly the nodes below it, leaves every
  other node as it was, and deletes no items but holes that the deleted nodes own.
\<close>

theorem releaseChildren_returns:
  assumes "tree_ok w" and "w_nodes w n = Some nd" and "depth_bound w D" and "D - n_depth nd < int fuel"
  shows "\<exists>w'. releaseChildren fuel n w = Some w' \<and> tree_ok w' \<and> w_items w' = w_items w \<and>
    w_nodes w' n = Some (nd\<lparr> n_children := [] \<rparr>) \<and>
    (\<forall>x. x = n \<or> w_nodes w' x = (if below w n x then None else w_nodes w x)) \<and>
    (\<forall>i. i \<in> set (w_deleted w') \<longrightarrow> i \<in> set (w_deleted w) \<or> (\<exists>x. below w n x \<and> i \<in> own_holes w x))"
proof -
  from release_ok [OF assms] obtain w' where w': "releaseChildren fuel n w = Some w'" "released w n w'" by blast
  have "w_nodes w' x = (if below w n x then None else w_nodes w x)" if "x \<noteq> n" for x
    using released_below [OF w'(2) assms(1,2), of x] w'(2) that unfolding released_def by auto
  then have "\<forall>x. x = n \<or> w_nodes w' x = (if below w n x then None else w_nodes w x)" by blast
  moreover have "tree_ok w'" "w_items w' = w_items w" "w_nodes w' n = Some (nd\<lparr> n_children := [] \<rparr>)"
    "\<forall>i. i \<in> set (w_deleted w') \<longrightarrow> i \<in> set (w_deleted w) \<or> (\<exists>x. below w n x \<and> i \<in> own_holes w x)"
    using w'(2) assms(2) unfolding released_def by auto
  ultimately show ?thesis using w'(1) by blast
qed

text \<open>An example: a root with a branch that has a branch.\<close>

definition demo_tree :: WORLD where
  "demo_tree = \<lparr> w_items = (\<lambda>i. ITEM_make INVALID_T),
     w_nodes = [0 \<mapsto> (NODE_make 0)\<lparr> n_children := [1] \<rparr>,
       1 \<mapsto> (NODE_make 1)\<lparr> n_parent := Some 0, n_root := 0, n_children := [2], n_depth := 1 \<rparr>,
       2 \<mapsto> (NODE_make 2)\<lparr> n_parent := Some 1, n_root := 0, n_depth := 2 \<rparr>],
     w_deleted = [] \<rparr>"

theorem releaseChildren_returns_witness:
  "\<exists>w'. releaseChildren 3 0 demo_tree = Some w' \<and> w_nodes w' 0 = Some (NODE_make 0) \<and> w_nodes w' 1 = None \<and>
    w_nodes w' 2 = None"
proof -
  have n: "w_nodes demo_tree 0 = Some ((NODE_make 0)\<lparr> n_children := [1] \<rparr>)" by (simp add: demo_tree_def)
  have t: "tree_ok demo_tree" by (rule tree_okI) (auto simp: demo_tree_def NODE_make_def split: if_splits)
  have d: "depth_bound demo_tree 2" by (auto simp: depth_bound_def demo_tree_def NODE_make_def split: if_splits)
  have b1: "below demo_tree 0 1" by (rule below_child) (simp add: demo_tree_def, simp add: NODE_make_def)
  have b2: "below demo_tree 0 2" by (rule below_step [OF _ _ b1]) (simp add: demo_tree_def, simp add: NODE_make_def)
  from releaseChildren_returns [OF t n d, of 3] obtain w' where w': "releaseChildren 3 0 demo_tree = Some w'"
    "w_nodes w' 0 = Some ((NODE_make 0)\<lparr> n_children := [1], n_children := [] \<rparr>)"
    "\<forall>x. x = 0 \<or> w_nodes w' x = (if below demo_tree 0 x then None else w_nodes demo_tree x)"
    by (auto simp: NODE_make_def)
  from w'(3) [rule_format, of 1] w'(3) [rule_format, of 2] b1 b2 w'(1,2) show ?thesis
    by (simp add: NODE_make_def)
qed

end
