(* ===== verification/PnsBranch.thy ===== *)
theory PnsBranch
  imports PnsNodeInv PnsTree
begin

text \<open>
  Branches of the router's world (\<^verbatim>\<open>pcbnew/router/pns_node.cpp\<close>): what a node sees of its root through
  its overrides, that a new branch sees what its parent sees, that the work in a branch leaves
  the other nodes alone, what it does to the owners of the items, and that adding, removing and replacing
  in a branch and branching keep the root in a reachable state.
\<close>

section \<open>The view of a node\<close>

definition sees :: "WORLD \<Rightarrow> nat \<Rightarrow> item_ref set" where
  "sees w n = (case w_nodes w n of
     None \<Rightarrow> {}
   | Some nd \<Rightarrow> if isRoot nd then items_of (n_index nd)
                else (items_at w (n_root nd) - set (n_override nd)) \<union> items_of (n_index nd))"

definition links_at :: "WORLD \<Rightarrow> nat \<Rightarrow> HASH_TAG \<Rightarrow> item_ref set" where
  "links_at w n t = (case w_nodes w n of
     None \<Rightarrow> {}
   | Some nd \<Rightarrow> (case root_joints w nd of None \<Rightarrow> {} | Some rt \<Rightarrow> linked rt (n_joints nd) t))"

lemma linked_empty_branch: "linked (Some r) [] t = linked None r t"
  by (auto simp: linked_def joints_at_def touch_copy_def equal_range_def set_fold_insert)

text \<open>The map of a branch that copies the joints of its parent sees the same links.\<close>

lemma Branch_ok:
  assumes "tree_ok w" and n: "w_nodes w n = Some nd" and c: "w_nodes w c = None"
    and wf: "wf_index (w_items w) (n_index nd)"
  shows "\<exists>w' cd. NODE_Branch n c w = Some w' \<and> w_nodes w' = (w_nodes w)(n \<mapsto> nd\<lparr> n_children := n_children nd @ [c] \<rparr>, c \<mapsto> cd) \<and>
    w_items w' = w_items w \<and> w_deleted w' = w_deleted w \<and>
    n_parent cd = Some n \<and> n_root cd = n_root nd \<and> n_depth cd = n_depth nd + 1 \<and> n_children cd = [] \<and>
    (if isRoot nd then n_joints cd = [] \<and> n_index cd = INDEX_empty \<and> n_override cd = []
     else n_joints cd = n_joints nd \<and> n_override cd = n_override nd \<and> items_of (n_index cd) = items_of (n_index nd) \<and>
       wf_index (w_items w) (n_index cd))"
proof -
  have cn: "c \<noteq> n" using n c by auto
  let ?nd = "nd\<lparr> n_children := n_children nd @ [c] \<rparr>"
  show ?thesis
  proof (cases "isRoot nd")
    case True
    then have "n_root nd = n" using tree_okD(3) [OF assms(1) n] by (simp add: isRoot_def)
    let ?cd = "(NODE_make c)\<lparr> n_depth := n_depth nd + 1, n_parent := Some n, n_root := n, n_maxClearance := n_maxClearance nd \<rparr>"
    have "NODE_Branch n c w = Some (set_node c ?cd (set_node n ?nd w))"
      using n c True by (simp add: NODE_Branch_def Let_def)
    then show ?thesis using True cn \<open>n_root nd = n\<close>
      by (intro exI [of _ "set_node c ?cd (set_node n ?nd w)"] exI [of _ ?cd]) (simp add: NODE_make_def fun_upd_twist)
  next
    case False
    have "distinct (m_allItems (n_index nd))" "\<forall>i \<in> set (m_allItems (n_index nd)). wf_item (w_items w i)"
      using wf by (auto simp: wf_index_def items_of_def)
    from item_index.add_all [OF wf_INDEX_empty this] obtain ix where
      ix: "fold_opt (INDEX_Add (w_items w)) (m_allItems (n_index nd)) INDEX_empty = Some ix"
      "wf_index (w_items w) ix" "items_of ix = items_of (n_index nd)"
      by (auto simp: items_of_def INDEX_empty_def)
    let ?cd = "(NODE_make c)\<lparr> n_depth := n_depth nd + 1, n_parent := Some n, n_root := n_root nd,
      n_maxClearance := n_maxClearance nd, n_index := ix, n_joints := n_joints nd, n_override := n_override nd \<rparr>"
    have "NODE_Branch n c w = Some (set_node c ?cd (set_node n ?nd w))"
      using n c False ix(1) by (simp add: NODE_Branch_def Let_def NODE_make_def)
    then show ?thesis using False cn ix(2,3)
      by (intro exI [of _ "set_node c ?cd (set_node n ?nd w)"] exI [of _ ?cd]) (simp add: NODE_make_def)
  qed
qed

lemma tree_ok_leaf:
  assumes "tree_ok w" and n: "w_nodes w n = Some nd" and c: "w_nodes w c = None"
    and w': "w_nodes w' = (w_nodes w)(n \<mapsto> nd\<lparr> n_children := n_children nd @ [c] \<rparr>, c \<mapsto> cd)"
    and cd: "n_parent cd = Some n" "n_root cd = n_root nd" "n_depth cd = n_depth nd + 1" "n_children cd = []"
  shows "tree_ok w'"
proof -
  have cn: "c \<noteq> n" using n c by auto
  have old: "w_nodes w' k = Some (if k = n then nd\<lparr> n_children := n_children nd @ [c] \<rparr> else kd)"
    if "w_nodes w k = Some kd" for k kd
    using that w' c cn n by (cases "k = c") auto
  have src: "x = c \<and> xd = cd \<or> (\<exists>yd. w_nodes w x = Some yd \<and> n_parent xd = n_parent yd \<and> n_root xd = n_root yd \<and>
      n_depth xd = n_depth yd \<and> (xd = yd \<or> x = n \<and> n_children xd = n_children yd @ [c]))"
    if "w_nodes w' x = Some xd" for x xd
    using that w' n by (auto split: if_splits)
  have fresh: "c \<notin> set (n_children yd)" if "w_nodes w x = Some yd" for x yd
    using tree_okD(2) [OF assms(1) that, of c] c by auto
  show ?thesis
  proof (rule tree_okI)
    fix x xd assume x: "w_nodes w' x = Some xd"
    show "distinct (n_children xd)" using src [OF x] cd(4) tree_okD(1) [OF assms(1), of x] fresh [of x] by auto
    show "n_root xd = x" if "n_parent xd = None"
      using src [OF x] cd(1) that tree_okD(3) [OF assms(1), of x] by auto
    show "\<exists>rd. w_nodes w' (n_root xd) = Some rd \<and> n_parent rd = None"
    proof -
      obtain y yd where yd: "w_nodes w y = Some yd" "n_root xd = n_root yd" using src [OF x] cd(2) n by auto
      from tree_okD(5) [OF assms(1) yd(1)] obtain rd where
        rd: "w_nodes w (n_root yd) = Some rd" "n_parent rd = None" by blast
      from old [OF rd(1)] rd n show ?thesis unfolding yd(2) by (cases "n_root yd = n") auto
    qed
    show "\<exists>kd. w_nodes w' k = Some kd \<and> n_parent kd = Some x" if k: "k \<in> set (n_children xd)" for k
    proof (cases "k = c")
      case True
      have "x = n" using src [OF x] k True cd(4) fresh [of x] by auto
      then show ?thesis using True w' cd(1) cn by auto
    next
      case False
      then obtain yd where yd: "w_nodes w x = Some yd" "k \<in> set (n_children yd)" using src [OF x] k cd(4) by auto
      from tree_okD(2) [OF assms(1) yd] obtain kd where kd: "w_nodes w k = Some kd" "n_parent kd = Some x" by blast
      from old [OF kd(1)] kd n show ?thesis by (cases "k = n") auto
    qed
    show "\<exists>pd. w_nodes w' p = Some pd \<and> x \<in> set (n_children pd) \<and> n_depth xd = n_depth pd + 1 \<and> n_root xd = n_root pd"
      if p: "n_parent xd = Some p" for p
    proof (cases "x = c")
      case True
      then have "xd = cd" using x w' by auto
      then have "p = n" using p cd(1) by simp
      then show ?thesis using True \<open>xd = cd\<close> w' cd(2,3) cn by auto
    next
      case False
      with src [OF x] obtain yd where yd: "w_nodes w x = Some yd" "n_parent yd = Some p" "n_root xd = n_root yd"
        "n_depth xd = n_depth yd" using p by auto
      from tree_okD(4) [OF assms(1) yd(1,2)] obtain pd where
        pd: "w_nodes w p = Some pd" "x \<in> set (n_children pd)" "n_depth yd = n_depth pd + 1" "n_root yd = n_root pd" by blast
      from old [OF pd(1)] pd yd n show ?thesis by (cases "p = n") auto
    qed
  qed
qed

text \<open>
  C20. A new branch starts as its parent is: \<open>Branch\<close> returns, keeps the tree of nodes consistent, and
  the new node is a leaf one level deeper that sees the same items and the same links at every
  position as the node it was branched from, whose own state does not change but for its list of
  children.
\<close>

theorem Branch_sees_parent:
  assumes "tree_ok w" and "w_nodes w n = Some nd" and "w_nodes w c = None" and "wf_index (w_items w) (n_index nd)"
  shows "\<exists>w' cd. NODE_Branch n c w = Some w' \<and> tree_ok w' \<and> w_nodes w' c = Some cd \<and>
    w_nodes w' n = Some (nd\<lparr> n_children := n_children nd @ [c] \<rparr>) \<and>
    n_parent cd = Some n \<and> n_children cd = [] \<and> n_depth cd = n_depth nd + 1 \<and>
    sees w' c = sees w n \<and> links_at w' c = links_at w n \<and> w_items w' = w_items w \<and> w_deleted w' = w_deleted w"
proof -
  obtain w' cd where w': "NODE_Branch n c w = Some w'"
    "w_nodes w' = (w_nodes w)(n \<mapsto> nd\<lparr> n_children := n_children nd @ [c] \<rparr>, c \<mapsto> cd)"
    "w_items w' = w_items w" "w_deleted w' = w_deleted w" and
    cd: "n_parent cd = Some n" "n_root cd = n_root nd" "n_depth cd = n_depth nd + 1" "n_children cd = []" and
    copy: "if isRoot nd then n_joints cd = [] \<and> n_index cd = INDEX_empty \<and> n_override cd = []
     else n_joints cd = n_joints nd \<and> n_override cd = n_override nd \<and> items_of (n_index cd) = items_of (n_index nd) \<and>
       wf_index (w_items w) (n_index cd)"
    using Branch_ok [OF assms] by blast
  have cn: "c \<noteq> n" using assms(2,3) by auto
  have t: "tree_ok w'" using assms(1-3) w'(2) cd by (rule tree_ok_leaf)
  obtain rd where rd: "w_nodes w (n_root nd) = Some rd" using tree_okD(5) [OF assms(1,2)] by blast
  have ncd: "\<not> isRoot cd" using cd(1) by (simp add: isRoot_def)
  have rc: "n_root nd \<noteq> c" using rd assms(3) by auto
  have same: "sees w' c = sees w n \<and> links_at w' c = links_at w n"
  proof (cases "isRoot nd")
    case True
    then have "n_root nd = n" using tree_okD(3) [OF assms(1,2)] by (simp add: isRoot_def)
    then show ?thesis using True copy ncd w'(2) cd cn assms(2)
      by (simp add: sees_def links_at_def items_at_def root_joints_def linked_empty_branch fun_eq_iff)
  next
    case False
    then have "n_root nd \<noteq> n" using tree_okD(5) [OF assms(1,2)] assms(2) by (auto simp: isRoot_def)
    then show ?thesis using False copy ncd w'(2) cd cn rc assms(2) rd
      by (simp add: sees_def links_at_def items_at_def root_joints_def fun_eq_iff)
  qed
  show ?thesis using w' t same cd cn by (intro exI [of _ w'] exI [of _ cd]) simp
qed

section \<open>Work in a branch\<close>

text \<open>
  C15. Isolation of branches: whatever is added to a node, removed from it or replaced in it,
  nothing is deleted, and every other node keeps its items, its joints, its overrides and its place in
  the tree.
\<close>

theorem node_operations_isolated:
  assumes "node_add n i w = Some w' \<or> NODE_Remove later n i w = Some w' \<or> NODE_Replace later n i k w = Some w' \<or>
    RemoveByMarker later n marker w = Some w'"
    and "w_nodes w x = Some nd" and "x \<noteq> n"
  shows "w_deleted w' = w_deleted w \<and> (\<exists>nd'. w_nodes w' x = Some nd' \<and>
    n_index nd' = n_index nd \<and> n_joints nd' = n_joints nd \<and> n_override nd' = n_override nd \<and>
    n_parent nd' = n_parent nd \<and> n_root nd' = n_root nd \<and> n_children nd' = n_children nd)"
proof -
  have f: "frame n w w'"
    using assms(1) quiet_frame [OF quiet_node_add] frame_Remove frame_Replace frame_RemoveByMarker by blast
  obtain nd' where "w_nodes w' x = Some nd'" "nd'\<lparr> n_garbageItems := [] \<rparr> = nd\<lparr> n_garbageItems := [] \<rparr>"
    by (rule frame_other [OF f assms(2,3)])
  with f show ?thesis by (simp add: frame_def shell_eq_fields [of nd' nd])
qed

text \<open>An example: a root with the via of \<open>demo_world\<close> and a branch of it.\<close>

definition demo_branch :: WORLD where
  "demo_branch = demo_world\<lparr> w_nodes := [0 \<mapsto> (NODE_make 0)\<lparr> n_children := [1] \<rparr>,
     1 \<mapsto> (NODE_make 1)\<lparr> n_parent := Some 0, n_root := 0, n_depth := 1 \<rparr>] \<rparr>"

lemma demo_branch_inv: "node_inv demo_branch 1 (Some []) {} (\<lambda>t. {})"
proof -
  have "linked (Some []) [] = (\<lambda>t. {})" by (rule ext) (simp add: linked_def joints_at_def touch_copy_def equal_range_def)
  then show ?thesis
    by (simp add: node_inv_def demo_branch_def root_joints_def isRoot_def NODE_make_def wf_root_def wf_joints_def)
qed

lemma demo_branch_add: "\<exists>w'. node_add 1 2 demo_branch = Some w' \<and> node_inv w' 1 (Some []) {2, 3} (link_in {the_tag (10, 0) (Some 5)} 2 (\<lambda>t. {}))"
proof -
  have items: "w_items demo_branch = demo_items" by (simp add: demo_branch_def demo_world_def)
  from node_add_ok [OF demo_branch_inv, of 2] demo_fresh items show ?thesis
    by (auto simp: fresh_item_def owns_hole_def)
qed

theorem node_operations_isolated_witness:
  "\<exists>w' nd. node_add 1 2 demo_branch = Some w' \<and> w_nodes w' 0 = Some nd \<and> m_allItems (n_index nd) = [] \<and>
    n_joints nd = [] \<and> n_children nd = [1]"
proof -
  from demo_branch_add obtain w' where w': "node_add 1 2 demo_branch = Some w'" by blast
  have r: "w_nodes demo_branch 0 = Some ((NODE_make 0)\<lparr> n_children := [1] \<rparr>)" by (simp add: demo_branch_def)
  from node_operations_isolated [OF disjI1 [OF w'] r] w' show ?thesis
    by (auto simp: NODE_make_def INDEX_empty_def)
qed

theorem Branch_sees_parent_witness:
  "\<exists>w' cd. NODE_Branch 0 1 demo_world = Some w' \<and> w_nodes w' 1 = Some cd \<and> n_depth cd = 1 \<and> n_parent cd = Some 0"
proof -
  have n: "w_nodes demo_world 0 = Some (NODE_make 0)" "w_nodes demo_world 1 = None" by (simp_all add: demo_world_def)
  have "tree_ok demo_world" by (rule tree_okI) (auto simp: demo_world_def NODE_make_def split: if_splits)
  from Branch_sees_parent [OF this n] show ?thesis by (auto simp: NODE_make_def)
qed

section \<open>What a branch does to the items\<close>

text \<open>
  An item keeps its owner unless node \<open>n\<close> owned it; otherwise it can only be the hole of an item and
  is given back to that item.
\<close>

definition owners_by :: "nat \<Rightarrow> store \<Rightarrow> store \<Rightarrow> bool" where
  "owners_by n h h' \<longleftrightarrow> same_geo h h' \<and>
     (\<forall>x. m_owner (h' x) = m_owner (h x) \<or> m_owner (h x) = Some (OwnerNode n) \<or>
        (\<exists>j. m_hole (h j) = Some x \<and> m_owner (h' x) = Some (OwnerItem j)))"

lemma owners_by_refl [simp]: "owners_by n h h"
  by (simp add: owners_by_def)

lemma owners_by_trans:
  assumes a: "owners_by n h h'" and b: "owners_by n h' h''"
  shows "owners_by n h h''"
proof -
  have geo: "same_geo h h'" "same_geo h' h''" using a b by (simp_all add: owners_by_def)
  have hole: "m_hole (h' j) = m_hole (h j)" for j using geo(1) by (simp add: same_geo_def)
  have "m_owner (h'' x) = m_owner (h x) \<or> m_owner (h x) = Some (OwnerNode n) \<or>
      (\<exists>j. m_hole (h j) = Some x \<and> m_owner (h'' x) = Some (OwnerItem j))" for x
    using a [unfolded owners_by_def, THEN conjunct2, rule_format, of x]
      b [unfolded owners_by_def, THEN conjunct2, rule_format, of x] hole by auto
  then show ?thesis using same_geo_trans [OF geo] by (simp add: owners_by_def)
qed

lemma owners_by_disown: "m_owner (h i) = Some (OwnerNode n) \<Longrightarrow> owners_by n h (SetOwner i a h)"
  by (simp add: owners_by_def)

lemma owners_by_hole: "m_hole (h i) = Some k \<Longrightarrow> owners_by n h (SetOwner k (Some (OwnerItem i)) h)"
  by (auto simp: owners_by_def)

lemma on_joints_items: "on_joints n f w = Some w' \<Longrightarrow> w_items w' = w_items w"
  by (auto simp: on_joints_def split: Option.bind_splits)

lemma on_index_items: "on_index n f w = Some w' \<Longrightarrow> w_items w' = w_items w"
  by (auto simp: on_index_def split: Option.bind_splits)

lemma add_garbage_items: "add_garbage r i w = Some w' \<Longrightarrow> w_items w' = w_items w"
  by (auto simp: add_garbage_def split: Option.bind_splits)

lemma override_items: "override_item n i w = Some w' \<Longrightarrow> w_items w' = w_items w"
  by (auto simp: override_item_def split: Option.bind_splits)

lemma doRemove_store_items: "doRemove_store n nd i w = Some w' \<Longrightarrow> w_items w' = w_items w"
  by (auto simp: doRemove_store_def Let_def split: Option.bind_splits if_splits
      dest!: override_items on_index_items)

lemma doRemove_disown_owners:
  assumes "doRemove_disown n nd i w = Some w'"
  shows "owners_by n (w_items w) (w_items w')"
proof (cases "m_owner (w_items w i) = Some (OwnerNode n)")
  case False
  then show ?thesis using assms by (simp add: doRemove_disown_def BelongsTo_def)
next
  case True
  with assms obtain w1 where w1: "add_garbage (n_root nd) i (set_owner i None w) = Some w1" and
    rest: "(case m_hole (w_items w1 i) of
        None \<Rightarrow> Some w1
      | Some hole \<Rightarrow> do { w \<leftarrow> on_index n (INDEX_Remove (w_items w1) hole) w1;
          Some (set_owner hole (Some (OwnerItem i)) w) }) = Some w'"
    by (auto simp: doRemove_disown_def BelongsTo_def bind_eq_Some_conv)
  have items: "w_items w1 = SetOwner i None (w_items w)" using add_garbage_items [OF w1] by simp
  have one: "owners_by n (w_items w) (w_items w1)" unfolding items by (rule owners_by_disown) fact
  show ?thesis
  proof (cases "m_hole (w_items w1 i)")
    case None
    then show ?thesis using rest one by simp
  next
    case (Some k)
    with rest obtain w2 where w2: "on_index n (INDEX_Remove (w_items w1) k) w1 = Some w2"
      "w' = set_owner k (Some (OwnerItem i)) w2" by (auto simp: bind_eq_Some_conv)
    have "owners_by n (w_items w1) (w_items w')" using owners_by_hole [of "w_items w1" i k n, OF Some] on_index_items [OF w2(1)] w2(2) by simp
    with one show ?thesis by (rule owners_by_trans)
  qed
qed

lemma doRemove_owners:
  assumes "doRemove n i w = Some w'"
  shows "owners_by n (w_items w) (w_items w')"
proof -
  from assms obtain nd w1 where "doRemove_store n nd i w = Some w1" "doRemove_disown n nd i w1 = Some w'"
    by (auto simp: doRemove_def bind_eq_Some_conv)
  then show ?thesis using doRemove_store_items doRemove_disown_owners by metis
qed

lemma own_hole_back_owners: "own_hole_back i w = Some w' \<Longrightarrow> owners_by n (w_items w) (w_items w')"
  by (auto simp: own_hole_back_def split: if_splits Option.bind_splits intro: owners_by_hole)

lemma removeTrack_items: "removeTrackIndex n i w = Some w' \<Longrightarrow> w_items w' = w_items w"
  by (auto simp: removeTrackIndex_def node_unlink_def Let_def split: Option.bind_splits dest!: on_joints_items)

lemma removeVia_items: "removeViaIndex later n i w = Some w' \<Longrightarrow> w_items w' = w_items w"
  by (auto simp: removeViaIndex_def Let_def split: Option.bind_splits dest!: on_joints_items)

lemma removeSolid_items: "removeSolidIndex later n i w = Some w' \<Longrightarrow> w_items w' = w_items w"
  by (auto simp: removeSolidIndex_def Let_def split: Option.bind_splits if_splits dest!: on_joints_items)

lemma Remove_parts_owners:
  "NODE_Remove_segment n i w = Some w' \<Longrightarrow> owners_by n (w_items w) (w_items w')"
  "NODE_Remove_arc n i w = Some w' \<Longrightarrow> owners_by n (w_items w) (w_items w')"
  "NODE_Remove_solid later n i w = Some w' \<Longrightarrow> owners_by n (w_items w) (w_items w')"
  "NODE_Remove_via later n i w = Some w' \<Longrightarrow> owners_by n (w_items w) (w_items w')"
  by (auto simp: NODE_Remove_segment_def NODE_Remove_arc_def NODE_Remove_solid_def NODE_Remove_via_def
      removeSegmentIndex_def removeArcIndex_def split: Option.bind_splits if_splits
      dest!: removeTrack_items removeVia_items removeSolid_items dest: doRemove_owners)

lemma Remove_single_owners:
  assumes "Remove_single later n i w = Some w'"
  shows "owners_by n (w_items w) (w_items w')"
  using assms by (auto simp: Remove_single_def split: PnsKind.splits Option.bind_splits
      intro: Remove_parts_owners owners_by_trans [OF own_hole_back_owners Remove_parts_owners(3)]
        owners_by_trans [OF own_hole_back_owners Remove_parts_owners(4)])

lemma owners_by_fold:
  assumes "fold_opt f l w = Some w'" and "\<And>i w w'. f i w = Some w' \<Longrightarrow> owners_by n (w_items w) (w_items w')"
  shows "owners_by n (w_items w) (w_items w')"
  using assms(1)
proof (induction l arbitrary: w)
  case (Cons i l)
  then obtain w1 where "f i w = Some w1" "fold_opt f l w1 = Some w'" by (auto simp: bind_eq_Some_conv)
  then show ?case using owners_by_trans [OF assms(2) Cons.IH] by blast
qed simp

lemma Remove_owners:
  assumes "NODE_Remove later n i w = Some w'"
  shows "owners_by n (w_items w) (w_items w')"
proof (cases "m_kind (w_items w i) = LINE_T")
  case True
  then have "fold_opt (Remove_single later n) (m_lineLinks (w_items w i)) w = Some w'"
    using assms by (simp add: NODE_Remove_def)
  then show ?thesis using Remove_single_owners by (rule owners_by_fold)
next
  case False
  then show ?thesis using assms Remove_single_owners by (simp add: NODE_Remove_def)
qed

section \<open>What branches do are steps of the root\<close>

text \<open>Every hole is a hole of one item of the store.\<close>

definition holes_private :: "store \<Rightarrow> bool" where
  "holes_private h \<longleftrightarrow> (\<forall>i k. m_hole (h i) = Some k \<longrightarrow> m_kind (h k) = HOLE_T \<and>
     (\<forall>j. m_hole (h j) = Some k \<longrightarrow> j = i))"

lemma holes_private_geo: "same_geo h h' \<Longrightarrow> holes_private h' = holes_private h"
  by (simp add: holes_private_def same_geo_def)

text \<open>The parent of a hole that the root holds is held too.\<close>

lemma hole_parent:
  assumes "stocked h I" and "holes_private h" and "k \<in> I" and "m_hole (h j) = Some k"
  shows "j \<in> I" "m_kind (h k) = HOLE_T"
proof -
  show k: "m_kind (h k) = HOLE_T" using assms(2,4) unfolding holes_private_def by blast
  obtain i where i: "i \<in> I" "m_kind (h i) \<noteq> HOLE_T" "k \<in> parts h i"
    using assms(1,3) k unfolding stocked_def by blast
  then have "k \<in> holes_of h i" using parts_holes [of h i] k by auto
  then have "m_hole (h i) = Some k" by (simp add: holes_of_def)
  then show "j \<in> I" using assms(2,4) i(1) unfolding holes_private_def by blast
qed

lemma env_reach:
  assumes "root_reach later r w" and "w_nodes w r = Some nd" and "w_nodes w' r = Some nd'"
    and "nd'\<lparr> n_garbageItems := [], n_children := [] \<rparr> = nd\<lparr> n_garbageItems := [], n_children := [] \<rparr>"
    and "same_geo (w_items w) (w_items w')"
    and "\<forall>i \<in> items_at w r. m_owner (w_items w' i) = m_owner (w_items w i) \<or>
      given_back (w_items w) (items_at w r) i (m_owner (w_items w' i))"
  shows "root_reach later r w'"
proof (rule reach_step [OF assms(1)])
  have "n_index nd' = n_index nd" "n_joints nd' = n_joints nd" "n_parent nd' = n_parent nd" "n_root nd' = n_root nd"
    using assms(4) by (cases nd; cases nd'; simp)+
  then show "root_step later r w w'" by (rule step_env [OF assms(2,3) _ _ _ _ assms(5,6)])
qed

lemma frame_reach:
  assumes "root_reach later r w" and "frame n w w'" and "n \<noteq> r" and "same_geo (w_items w) (w_items w')"
    and "\<forall>i \<in> items_at w r. m_owner (w_items w' i) = m_owner (w_items w i) \<or>
      given_back (w_items w) (items_at w r) i (m_owner (w_items w' i))"
  shows "root_reach later r w'"
proof -
  obtain nd where nd: "w_nodes w r = Some nd" by (rule root_okE [OF root_reach_ok [OF assms(1)]])
  obtain nd' where nd': "w_nodes w' r = Some nd'" "nd'\<lparr> n_garbageItems := [] \<rparr> = nd\<lparr> n_garbageItems := [] \<rparr>"
    by (rule frame_other [OF assms(2) nd]) (use assms(3) in simp)
  have "nd'\<lparr> n_garbageItems := [], n_children := [] \<rparr> = nd\<lparr> n_garbageItems := [], n_children := [] \<rparr>"
    using nd'(2) by (cases nd; cases nd'; simp)
  then show ?thesis by (rule env_reach [OF assms(1) nd nd'(1) _ assms(4,5)])
qed

lemma branch_Remove_reach:
  assumes "root_reach later r w" and "holes_private (w_items w)" and "NODE_Remove later' n i w = Some w'" and "n \<noteq> r"
  shows "root_reach later r w'"
proof -
  have own: "owned (w_items w) r (items_at w r)" and st: "stocked (w_items w) (items_at w r)"
    using root_reach_ok [OF assms(1)] by (simp_all add: root_ok_def)
  have by_n: "owners_by n (w_items w) (w_items w')" using assms(3) by (rule Remove_owners)
  have "m_owner (w_items w' x) = m_owner (w_items w x) \<or> given_back (w_items w) (items_at w r) x (m_owner (w_items w' x))"
    if x: "x \<in> items_at w r" for x
  proof -
    have "m_owner (w_items w x) \<noteq> Some (OwnerNode n)"
      using own x assms(4) unfolding owned_def given_back_def by auto
    then have "m_owner (w_items w' x) = m_owner (w_items w x) \<or>
        (\<exists>j. m_hole (w_items w j) = Some x \<and> m_owner (w_items w' x) = Some (OwnerItem j))"
      using by_n unfolding owners_by_def by blast
    then show ?thesis using hole_parent [OF st assms(2) x] unfolding given_back_def by blast
  qed
  moreover have "same_geo (w_items w) (w_items w')" using by_n by (simp add: owners_by_def)
  ultimately show ?thesis using frame_reach [OF assms(1) frame_Remove [OF assms(3)] assms(4)] by blast
qed

text \<open>Adding changes the owners of the parts of the item.\<close>

lemma node_link_items: "node_link n p i w = Some w' \<Longrightarrow> w_items w' = w_items w"
  by (auto simp: node_link_def Let_def dest: on_joints_items)

lemma node_add_owners:
  assumes "node_add n i w = Some w'"
  shows "same_geo (w_items w) (w_items w') \<and> (\<forall>x. x \<notin> parts (w_items w) i \<longrightarrow> m_owner (w_items w' x) = m_owner (w_items w x))"
proof -
  have hole: "same_geo (w_items v) (w_items v') \<and> (\<forall>x. x \<notin> parts (w_items v) i \<longrightarrow> m_owner (w_items v' x) = m_owner (w_items v x))"
    if "add_own_hole n i v = Some v'" for v v'
    using that by (auto simp: add_own_hole_def node_addHole_def parts_def Let_def split: if_splits Option.bind_splits
        dest!: on_index_items)
  show ?thesis
    using assms
    by (auto simp: node_add_def addArc_def addSegment_def addVia_def addSolid_def add_track_item_def Let_def parts_def
        split: PnsKind.splits Option.bind_splits if_splits
        dest!: node_link_items on_index_items hole intro: same_geo_trans [OF _ same_geo_SetOwner])
qed

lemma branch_add_reach:
  assumes "root_reach later r w" and "node_add n i w = Some w'" and "n \<noteq> r"
    and "parts (w_items w) i \<inter> items_at w r = {}"
  shows "root_reach later r w'"
  using frame_reach [OF assms(1) quiet_frame [OF quiet_node_add [OF assms(2)]] assms(3)]
    node_add_owners [OF assms(2)] assms(4) by blast

lemma branch_Replace_reach:
  assumes "root_reach later r w" and "holes_private (w_items w)" and "NODE_Replace later' n i k w = Some w'" and "n \<noteq> r"
    and "parts (w_items w) k \<inter> items_at w r = {}"
  shows "root_reach later r w'"
proof -
  from assms(3) obtain w1 where w1: "NODE_Remove later' n i w = Some w1" "node_add n k w1 = Some w'"
    by (auto simp: NODE_Replace_def bind_eq_Some_conv)
  have r1: "root_reach later r w1" using assms(1,2) w1(1) assms(4) by (rule branch_Remove_reach)
  have geo: "same_geo (w_items w) (w_items w1)" using Remove_owners [OF w1(1)] by (simp add: owners_by_def)
  have "items_at w1 r = items_at w r"
  proof -
    obtain nd where nd: "w_nodes w r = Some nd" by (rule root_okE [OF root_reach_ok [OF assms(1)]])
    obtain nd' where "w_nodes w1 r = Some nd'" "nd'\<lparr> n_garbageItems := [] \<rparr> = nd\<lparr> n_garbageItems := [] \<rparr>"
      by (rule frame_other [OF frame_Remove [OF w1(1)] nd]) (use assms(4) in simp)
    with nd show ?thesis using shell_eq_fields(1) [of nd' nd] by (simp add: items_at_def)
  qed
  then have "parts (w_items w1) k \<inter> items_at w1 r = {}" using assms(5) parts_geo [OF geo] by simp
  with r1 w1(2) assms(4) show ?thesis by (rule branch_add_reach)
qed

lemma branch_Remove_all_reach:
  assumes "root_reach later r w" and "holes_private (w_items w)" and "n \<noteq> r"
    and "fold_opt (NODE_Remove later' n) l w = Some w'"
  shows "root_reach later r w'"
  using assms
proof (induction l arbitrary: w)
  case (Cons i l)
  then obtain w1 where w1: "NODE_Remove later' n i w = Some w1" "fold_opt (NODE_Remove later' n) l w1 = Some w'"
    by (auto simp: bind_eq_Some_conv)
  have "same_geo (w_items w) (w_items w1)" using Remove_owners [OF w1(1)] by (simp add: owners_by_def)
  then have "holes_private (w_items w1)" using Cons.prems(2) holes_private_geo by blast
  with Cons.IH [OF branch_Remove_reach [OF Cons.prems(1,2) w1(1) Cons.prems(3)]] Cons.prems(3) w1(2) show ?case by blast
qed simp

lemma branch_RemoveByMarker_reach:
  assumes "root_reach later r w" and "holes_private (w_items w)" and "RemoveByMarker later' n m w = Some w'" and "n \<noteq> r"
  shows "root_reach later r w'"
  using assms(3) branch_Remove_all_reach [OF assms(1,2,4)]
  by (auto simp: RemoveByMarker_def Let_def bind_eq_Some_conv)

lemma Branch_reach:
  assumes "root_reach later r w" and "NODE_Branch n c w = Some w'"
  shows "root_reach later r w'"
proof -
  obtain rd where rd: "w_nodes w r = Some rd" by (rule root_okE [OF root_reach_ok [OF assms(1)]])
  from assms(2) obtain nd cd where b: "w_nodes w n = Some nd" "w_nodes w c = None"
    "w' = set_node c cd (set_node n (nd\<lparr> n_children := n_children nd @ [c] \<rparr>) w)"
    by (auto simp: NODE_Branch_def Let_def split: Option.bind_splits if_splits)
  have "c \<noteq> r" using rd b(2) by auto
  then have "w_nodes w' r = Some (if n = r then nd\<lparr> n_children := n_children nd @ [c] \<rparr> else rd)" using rd b by auto
  then show ?thesis by (rule env_reach [OF assms(1) rd]) (use b rd in auto)
qed

section \<open>Tracks in a branch\<close>

lemma node_view_frame:
  assumes "frame n w w'" and "w_nodes w n = Some nd" and "\<not> isRoot nd" and "n_root nd \<noteq> n"
  obtains nd' where "w_nodes w' n = Some nd'" "\<not> isRoot nd'" "n_root nd' = n_root nd"
    "items_at w' (n_root nd) = items_at w (n_root nd)"
proof -
  have "map_option (shell True) (w_nodes w' n) = Some (shell True nd)"
    using assms(1) [unfolded frame_def, THEN conjunct2, rule_format, of n] assms(2) by simp
  then obtain nd' where nd': "w_nodes w' n = Some nd'" "shell True nd' = shell True nd" by auto
  have "n_root nd' = n_root nd" "n_parent nd' = n_parent nd"
    using nd'(2) by (cases nd; cases nd'; simp add: shell_def)+
  moreover have "items_at w' (n_root nd) = items_at w (n_root nd)"
  proof -
    have "map_option (shell False) (w_nodes w' (n_root nd)) = map_option (shell False) (w_nodes w (n_root nd))"
      using assms(1) [unfolded frame_def, THEN conjunct2, rule_format, of "n_root nd"] assms(4) by simp
    then have "map_option (n_index \<circ> shell False) (w_nodes w' (n_root nd)) = map_option (n_index \<circ> shell False) (w_nodes w (n_root nd))"
      by (metis option.map_comp)
    moreover have "n_index \<circ> shell False = n_index" by (rule ext) (simp add: shell_def)
    ultimately show ?thesis unfolding items_at_def by (auto split: option.splits)
  qed
  ultimately show thesis using that nd'(1) assms(3) by (simp add: isRoot_def)
qed

lemma links_at_inv: "node_inv w n rt I L \<Longrightarrow> links_at w n = L"
  by (auto simp: node_inv_def links_at_def)

lemma sees_branch:
  "w_nodes w n = Some nd \<Longrightarrow> \<not> isRoot nd \<Longrightarrow>
    sees w n = (items_at w (n_root nd) - overrides_at w n) \<union> items_at w n"
  by (simp add: sees_def items_at_def overrides_at_def)

lemma items_at_inv: "node_inv w n rt I L \<Longrightarrow> items_at w n = I"
  by (auto simp: node_inv_def items_at_def)

lemma std_set_insert_set [simp]: "set (std_set_insert i l) = insert i (set l)"
  by (auto simp: std_set_insert_def)

text \<open>A track that the root owns is overridden, any other leaves the index of the branch.\<close>

lemma doRemove_track_branch:
  assumes inv: "node_inv w n rt I L" and obj: "wf_obj (w_items w) i" "m_kind (w_items w i) \<in> {SEGMENT_T, ARC_T}"
    and nd: "w_nodes w n = Some nd" "\<not> isRoot nd"
  shows "\<exists>w' J. doRemove n i w = Some w' \<and> node_inv w' n rt J L \<and>
    (if BelongsTo (w_items w i) (Some (OwnerNode (n_root nd)))
     then J = I \<and> overrides_at w' n = insert i (overrides_at w n)
     else J = I - {i} \<and> overrides_at w' n = overrides_at w n)"
proof -
  have hole: "m_hole (w_items w i) = None" using obj unfolding wf_obj_def by blast
  have nh: "\<not> HasHole (w_items w i)" using obj(2) by (auto simp: HasHole_def)
  have rn: "n_root nd \<noteq> n" and rj: "root_joints w nd = Some rt" and wf: "wf_index (w_items w) (n_index nd)"
    "items_of (n_index nd) = I" "wf_joints (w_items w) (n_joints nd)" "linked rt (n_joints nd) = L"
    using inv nd root_joints_isRoot [of w nd rt] by (auto simp: node_inv_def)
  show ?thesis
  proof (cases "BelongsTo (w_items w i) (Some (OwnerNode (n_root nd)))")
    case True
    let ?w = "set_node n (nd\<lparr> n_override := std_set_insert i (n_override nd) \<rparr>) w"
    have "doRemove n i w = Some ?w"
      using True nd nh rn by (simp add: doRemove_def doRemove_store_def doRemove_disown_def override_item_def BelongsTo_def Let_def)
    moreover have "node_inv ?w n rt I L" by (rule node_inv_set_node [OF inv nd(1)]) (use wf in simp_all)
    ultimately show ?thesis using True nd(1) by (simp add: overrides_at_def)
  next
    case False
    from node_index_ok(2) [OF inv wf_obj_item [OF obj(1)]] obtain w1 where
      w1: "on_index n (INDEX_Remove (w_items w) i) w = Some w1" "node_inv w1 n rt (I - {i}) L" "w_items w1 = w_items w" by blast
    have q1: "overrides_at w1 n = overrides_at w n" using quiet_on_index [OF w1(1)] by (simp add: quiet_def)
    have store: "doRemove_store n nd i w = Some w1" using False nd nh w1(1) by (simp add: doRemove_store_def Let_def)
    show ?thesis
    proof (cases "BelongsTo (w_items w i) (Some (OwnerNode n))")
      case True
      from doRemove_own_ok [OF inv obj(1)] True obtain w' where
        w': "doRemove n i w = Some w'" "node_inv w' n rt (I - {i}) L" by (auto simp: BelongsTo_def hole)
      have "doRemove_disown n nd i w1 = Some w'" using w'(1) nd(1) store by (simp add: doRemove_def)
      then have "overrides_at w' n = overrides_at w1 n" using quiet_doRemove_disown by (auto simp: quiet_def)
      with w' q1 False show ?thesis by auto
    next
      case notown: False
      then have "doRemove n i w = Some w1" using nd(1) store w1(3) by (simp add: doRemove_def doRemove_disown_def)
      with w1 q1 False show ?thesis by auto
    qed
  qed
qed

text \<open>
  C19. Removing a track in a branch hides it there and only there: \<open>Remove\<close> returns, the branch sees
  the items that it saw but the track, and the links at the two ends of the track lose it and
  nothing else, whether the track is one of the root, of an outer branch or of this branch.
\<close>

theorem branch_Remove_track:
  assumes "node_inv w n rt I L" and "wf_obj (w_items w) i" and "m_kind (w_items w i) \<in> {SEGMENT_T, ARC_T}"
    and "w_nodes w n = Some nd" and "\<not> isRoot nd"
    and "if BelongsTo (w_items w i) (Some (OwnerNode (n_root nd))) then i \<notin> I else i \<notin> items_at w (n_root nd)"
  shows "\<exists>w'. NODE_Remove later n i w = Some w' \<and> sees w' n = sees w n - {i} \<and>
    links_at w' n = (\<lambda>t. if t \<in> anchors (w_items w) i then links_at w n t - {i} else links_at w n t) \<and>
    items_at w' (n_root nd) = items_at w (n_root nd)"
proof -
  from removeTrack_ok [OF assms(1) wf_obj_item [OF assms(2)] assms(3)] obtain w1 where
    w1: "removeTrackIndex n i w = Some w1" "node_inv w1 n rt I (link_out (anchors (w_items w) i) i L)"
    "w_items w1 = w_items w" by blast
  have rn: "n_root nd \<noteq> n" using assms(1,4,5) root_joints_isRoot [of w nd rt] by (auto simp: node_inv_def)
  have q1: "quiet n w w1" using w1(1)
    by (auto simp: removeTrackIndex_def bind_eq_Some_conv intro: quiet_trans quiet_node_unlink)
  obtain nd1 where nd1: "w_nodes w1 n = Some nd1" "\<not> isRoot nd1" "n_root nd1 = n_root nd"
    "items_at w1 (n_root nd) = items_at w (n_root nd)"
    by (rule node_view_frame [OF quiet_frame [OF q1] assms(4,5) rn])
  from doRemove_track_branch [OF w1(2) _ _ nd1(1,2), of i] assms(2,3) w1(3) nd1(3) obtain w2 J where
    w2: "doRemove n i w1 = Some w2" "node_inv w2 n rt J (link_out (anchors (w_items w) i) i L)"
    "if BelongsTo (w_items w i) (Some (OwnerNode (n_root nd)))
     then J = I \<and> overrides_at w2 n = insert i (overrides_at w1 n)
     else J = I - {i} \<and> overrides_at w2 n = overrides_at w1 n" by auto
  obtain nd2 where nd2: "w_nodes w2 n = Some nd2" "\<not> isRoot nd2" "n_root nd2 = n_root nd"
    "items_at w2 (n_root nd) = items_at w (n_root nd)"
    by (rule node_view_frame [OF frame_doRemove [OF w2(1)] nd1(1,2)]) (use nd1 rn in auto)
  have "sees w2 n = sees w n - {i}"
    unfolding sees_branch [OF nd2(1,2)] sees_branch [OF assms(4,5)] nd2(3,4) items_at_inv [OF w2(2)] items_at_inv [OF assms(1)]
    using w2(3) assms(6) q1 by (auto simp: quiet_def split: if_splits)
  moreover have "links_at w2 n = (\<lambda>t. if t \<in> anchors (w_items w) i then links_at w n t - {i} else links_at w n t)"
    unfolding links_at_inv [OF w2(2)] links_at_inv [OF assms(1)] by (rule ext) (simp add: link_out_def)
  moreover have "NODE_Remove later n i w = Some w2"
    using w1(1) w2(1) assms(3)
    by (auto simp: NODE_Remove_def Remove_single_def NODE_Remove_segment_def NODE_Remove_arc_def
        removeSegmentIndex_def removeArcIndex_def)
  ultimately show ?thesis using nd2(4) by blast
qed

theorem branch_Remove_track_witness:
  "\<exists>w w'. node_add 1 1 demo_branch = Some w \<and> sees w 1 = {1} \<and> NODE_Remove [] 1 1 w = Some w' \<and> sees w' 1 = {}"
proof -
  have items: "w_items demo_branch = demo_items" by (simp add: demo_branch_def demo_world_def)
  have k: "m_kind (demo_items 1) = SEGMENT_T" and obj: "wf_obj demo_items 1"
    using demo_fresh(2) by (simp_all add: demo_items_def ITEM_make_def fresh_item_def)
  from add_track_ok [OF demo_branch_inv, of 1] items k obj obtain w where
    w: "add_track_item 1 1 demo_branch = Some w" "node_inv w 1 (Some []) {1} (link_in (anchors demo_items 1) 1 (\<lambda>t. {}))"
      "owners_after (Some (OwnerNode 1)) {1} demo_items (w_items w)" by auto
  have add: "node_add 1 1 demo_branch = Some w" using w(1) items k by (simp add: node_add_def addSegment_def)
  have geo: "same_geo demo_items (w_items w)" using w(3) by (rule owners_after_geo)
  have b: "w_nodes demo_branch 1 = Some ((NODE_make 1)\<lparr> n_parent := Some 0, n_root := 0, n_depth := 1 \<rparr>)"
    by (simp add: demo_branch_def)
  obtain nd where nd: "w_nodes w 1 = Some nd" "\<not> isRoot nd" "n_root nd = 0" "items_at w 0 = items_at demo_branch 0"
    by (rule node_view_frame [OF quiet_frame [OF quiet_node_add [OF add]] b]) (simp_all add: isRoot_def)
  have e: "items_at demo_branch 0 = {}"
    by (simp add: items_at_def demo_branch_def NODE_make_def INDEX_empty_def items_of_def)
  have "m_owner (w_items w 1) = Some (OwnerNode 1)" using w(3) by (simp add: owners_after_def)
  then have "if BelongsTo (w_items w 1) (Some (OwnerNode (n_root nd))) then 1 \<notin> {1::nat} else 1 \<notin> items_at w (n_root nd)"
    using nd(3,4) e by (simp add: BelongsTo_def)
  moreover have "m_kind (w_items w 1) \<in> {SEGMENT_T, ARC_T}" "wf_obj (w_items w) 1"
    using k obj geo wf_obj_geo [OF geo] by (auto simp: same_geo_def)
  moreover have "sees w 1 = {1}" using sees_branch [OF nd(1,2)] nd(3,4) e items_at_inv [OF w(2)] by simp
  ultimately show ?thesis using branch_Remove_track [OF w(2) _ _ nd(1,2), of 1 "[]"] add by auto
qed

end
