(* ===== verification/PnsCommit.thy ===== *)
theory PnsCommit
  imports PnsBranch
begin

text \<open>
  \<open>NODE::Commit\<close> of \<^verbatim>\<open>pcbnew/router/pns_node.cpp\<close>: the branch is merged into the root. The root
  ends with what the branch saw of the items, its joints agree with them again, no branch is left,
  and no item that the root holds has been deleted.
\<close>

section \<open>The garbage\<close>

text \<open>The garbage of a node holds tracks, vias and pads: \<open>Remove\<close> does nothing for a hole.\<close>

definition garbage_clean :: "WORLD \<Rightarrow> bool" where
  "garbage_clean w \<longleftrightarrow>
     (\<forall>x nd g. w_nodes w x = Some nd \<longrightarrow> g \<in> set (n_garbageItems nd) \<longrightarrow> m_kind (w_items w g) \<noteq> HOLE_T)"

lemma clean_owner [simp]: "garbage_clean (set_owner i a w) = garbage_clean w"
  by (simp add: garbage_clean_def)

lemma cleanD:
  "garbage_clean w \<Longrightarrow> w_nodes w n = Some nd \<Longrightarrow> g \<in> set (n_garbageItems nd) \<Longrightarrow> m_kind (w_items w g) \<noteq> HOLE_T"
  unfolding garbage_clean_def by blast

lemma clean_set_node:
  assumes "garbage_clean w" and "\<forall>g \<in> set (n_garbageItems nd). m_kind (w_items w g) \<noteq> HOLE_T"
  shows "garbage_clean (set_node n nd w)"
  using assms by (auto simp: garbage_clean_def split: if_splits)

lemma clean_on_joints: "on_joints n f w = Some w' \<Longrightarrow> garbage_clean w \<Longrightarrow> garbage_clean w'"
  by (auto simp: on_joints_def split: Option.bind_splits intro!: clean_set_node dest: cleanD)

lemma clean_on_index: "on_index n f w = Some w' \<Longrightarrow> garbage_clean w \<Longrightarrow> garbage_clean w'"
  by (auto simp: on_index_def split: Option.bind_splits intro!: clean_set_node dest: cleanD)

lemma clean_override: "override_item n i w = Some w' \<Longrightarrow> garbage_clean w \<Longrightarrow> garbage_clean w'"
  by (auto simp: override_item_def split: Option.bind_splits intro!: clean_set_node dest: cleanD)

lemma clean_garbage:
  "add_garbage n i w = Some w' \<Longrightarrow> m_kind (w_items w i) \<noteq> HOLE_T \<Longrightarrow> garbage_clean w \<Longrightarrow> garbage_clean w'"
  by (auto simp: add_garbage_def split: Option.bind_splits intro!: clean_set_node dest: cleanD)

lemma clean_doRemove_store: "doRemove_store n nd i w = Some w' \<Longrightarrow> garbage_clean w \<Longrightarrow> garbage_clean w'"
  by (auto simp: doRemove_store_def Let_def split: Option.bind_splits if_splits
      dest: clean_override clean_on_index)

lemma clean_doRemove_disown:
  assumes "doRemove_disown n nd i w = Some w'" and "m_kind (w_items w i) \<noteq> HOLE_T" and "garbage_clean w"
  shows "garbage_clean w'"
  using assms
  by (auto simp: doRemove_disown_def split: Option.bind_splits if_splits option.splits
      dest!: clean_garbage clean_on_index)

lemma clean_doRemove:
  assumes "doRemove n i w = Some w'" and "m_kind (w_items w i) \<noteq> HOLE_T" and "garbage_clean w"
  shows "garbage_clean w'"
proof -
  from assms(1) obtain nd w1 where w1: "doRemove_store n nd i w = Some w1" "doRemove_disown n nd i w1 = Some w'"
    by (auto simp: doRemove_def bind_eq_Some_conv)
  show ?thesis using clean_doRemove_disown [OF w1(2)] clean_doRemove_store [OF w1(1) assms(3)]
      doRemove_store_items [OF w1(1)] assms(2) by simp
qed

lemma clean_unlink: "node_unlink n p i w = Some w' \<Longrightarrow> garbage_clean w \<Longrightarrow> garbage_clean w'"
  by (auto simp: node_unlink_def Let_def dest: clean_on_joints)

lemma clean_removeIndex:
  "removeTrackIndex n i w = Some w' \<Longrightarrow> garbage_clean w \<Longrightarrow> garbage_clean w'"
  "removeViaIndex later n i w = Some w' \<Longrightarrow> garbage_clean w \<Longrightarrow> garbage_clean w'"
  "removeSolidIndex later n i w = Some w' \<Longrightarrow> garbage_clean w \<Longrightarrow> garbage_clean w'"
  by (auto simp: removeTrackIndex_def removeViaIndex_def removeSolidIndex_def Let_def
      split: Option.bind_splits if_splits dest: clean_unlink clean_on_joints)

lemma clean_doRemove_after:
  assumes "w_items w1 = w_items w" and "garbage_clean w1" and "m_kind (w_items w i) \<noteq> HOLE_T" and "doRemove n i w1 = Some w'"
  shows "garbage_clean w'"
  using clean_doRemove [OF assms(4)] assms(1-3) by simp

lemma clean_Remove_parts:
  assumes "m_kind (w_items w i) \<noteq> HOLE_T" and "garbage_clean w"
  shows "NODE_Remove_segment n i w = Some w' \<Longrightarrow> garbage_clean w'"
    and "NODE_Remove_arc n i w = Some w' \<Longrightarrow> garbage_clean w'"
    and "NODE_Remove_solid later n i w = Some w' \<Longrightarrow> garbage_clean w'"
    and "NODE_Remove_via later n i w = Some w' \<Longrightarrow> garbage_clean w'"
proof -
  note track = clean_doRemove_after [OF removeTrack_items clean_removeIndex(1) [OF _ assms(2)] assms(1)]
  note via = clean_doRemove_after [OF removeVia_items clean_removeIndex(2) [OF _ assms(2)] assms(1)]
  note solid = clean_doRemove_after [OF removeSolid_items clean_removeIndex(3) [OF _ assms(2)] assms(1)]
  show "garbage_clean w'" if "NODE_Remove_segment n i w = Some w'"
    using that by (auto simp: NODE_Remove_segment_def removeSegmentIndex_def bind_eq_Some_conv intro: track)
  show "garbage_clean w'" if "NODE_Remove_arc n i w = Some w'"
    using that by (auto simp: NODE_Remove_arc_def removeArcIndex_def bind_eq_Some_conv intro: track)
  show "garbage_clean w'" if "NODE_Remove_solid later n i w = Some w'"
    using that by (auto simp: NODE_Remove_solid_def bind_eq_Some_conv intro: solid)
  show "garbage_clean w'" if "NODE_Remove_via later n i w = Some w'"
    using that by (auto simp: NODE_Remove_via_def bind_eq_Some_conv split: if_splits intro: via)
qed

lemma own_hole_back_kind: "own_hole_back i w = Some w' \<Longrightarrow> m_kind (w_items w' x) = m_kind (w_items w x)"
  by (auto simp: own_hole_back_def split: if_splits Option.bind_splits)

lemma clean_own_hole: "own_hole_back i w = Some w' \<Longrightarrow> garbage_clean w \<Longrightarrow> garbage_clean w'"
  by (auto simp: own_hole_back_def split: if_splits Option.bind_splits)

lemma clean_Remove_single:
  assumes "Remove_single later n i w = Some w'" and "garbage_clean w"
  shows "garbage_clean w'"
proof (cases "m_kind (w_items w i) = HOLE_T")
  case True
  then show ?thesis using assms by (simp add: Remove_single_def)
next
  case False
  have pad: "garbage_clean w'"
    if "own_hole_back i w = Some w1" and "NODE_Remove_via later n i w1 = Some w' \<or> NODE_Remove_solid later n i w1 = Some w'" for w1
  proof -
    have "m_kind (w_items w1 i) \<noteq> HOLE_T" using own_hole_back_kind [OF that(1)] False by simp
    from clean_Remove_parts(3,4) [OF this clean_own_hole [OF that(1) assms(2)]] that(2) show ?thesis by blast
  qed
  show ?thesis
  proof (cases "m_kind (w_items w i) \<in> {SEGMENT_T, ARC_T}")
    case True
    then show ?thesis using assms(1) clean_Remove_parts(1,2) [OF False assms(2)] by (auto simp: Remove_single_def)
  next
    case notrack: False
    consider "m_kind (w_items w i) = VIA_T" | "m_kind (w_items w i) = SOLID_T" | "w' = w"
      using assms(1) notrack by (cases "m_kind (w_items w i)") (simp_all add: Remove_single_def)
    then show ?thesis
    proof cases
      case 1
      then show ?thesis using assms(1) pad by (auto simp: Remove_single_def bind_eq_Some_conv)
    next
      case 2
      then show ?thesis using assms(1) pad by (auto simp: Remove_single_def bind_eq_Some_conv)
    qed (use assms(2) in simp)
  qed
qed

lemma clean_fold:
  assumes "fold_opt f l w = Some w'" and "garbage_clean w"
    and "\<And>i w w'. f i w = Some w' \<Longrightarrow> garbage_clean w \<Longrightarrow> garbage_clean w'"
  shows "garbage_clean w'"
  using assms(1,2)
proof (induction l arbitrary: w)
  case (Cons i l)
  then obtain w1 where "f i w = Some w1" "fold_opt f l w1 = Some w'" by (auto simp: bind_eq_Some_conv)
  then show ?case using Cons.IH assms(3) Cons.prems(2) by blast
qed simp

lemma clean_Remove:
  assumes "NODE_Remove later n i w = Some w'" and "garbage_clean w"
  shows "garbage_clean w'"
proof (cases "m_kind (w_items w i) = LINE_T")
  case True
  then have "fold_opt (Remove_single later n) (m_lineLinks (w_items w i)) w = Some w'"
    using assms by (simp add: NODE_Remove_def)
  then show ?thesis using assms(2) clean_Remove_single by (rule clean_fold)
next
  case False
  then show ?thesis using assms clean_Remove_single by (simp add: NODE_Remove_def)
qed

lemma clean_add_own_hole: "add_own_hole n i w = Some w' \<Longrightarrow> garbage_clean w \<Longrightarrow> garbage_clean w'"
  by (auto simp: add_own_hole_def node_addHole_def Let_def split: if_splits Option.bind_splits dest: clean_on_index)

lemma clean_node_link: "node_link n p i w = Some w' \<Longrightarrow> garbage_clean w \<Longrightarrow> garbage_clean w'"
  by (auto simp: node_link_def Let_def dest: clean_on_joints)

lemma clean_node_add: "node_add n i w = Some w' \<Longrightarrow> garbage_clean w \<Longrightarrow> garbage_clean w'"
  by (auto simp: node_add_def addArc_def addSegment_def addVia_def addSolid_def add_track_item_def Let_def
      split: PnsKind.splits Option.bind_splits if_splits
      dest!: clean_on_index clean_node_link clean_add_own_hole)

lemma clean_Branch:
  assumes "NODE_Branch n c w = Some w'" and "garbage_clean w"
  shows "garbage_clean w'"
  using assms(1) cleanD [OF assms(2)]
  by (auto simp: NODE_Branch_def NODE_make_def Let_def split: Option.bind_splits if_splits
      intro!: clean_set_node assms(2))

lemma clean_commit_item:
  assumes "commit_item n i w = Some w'" and "garbage_clean w"
  shows "garbage_clean w'"
proof -
  from assms(1) obtain w1 where w1: "own_hole_back i w = Some w1"
    "node_add n i (w1\<lparr> w_items := (w_items w1)(i := Unmark (- 1) ((w_items w1 i)\<lparr> m_rank := - 1 \<rparr>)) \<rparr>) = Some w'"
    by (auto simp: commit_item_def Let_def bind_eq_Some_conv)
  have "garbage_clean (w1\<lparr> w_items := (w_items w1)(i := Unmark (- 1) ((w_items w1 i)\<lparr> m_rank := - 1 \<rparr>)) \<rparr>)"
    using clean_own_hole [OF w1(1) assms(2)] by (simp add: garbage_clean_def Unmark_def)
  with w1(2) show ?thesis by (rule clean_node_add)
qed

section \<open>Committing one item and a list of items\<close>

lemma frame_items: "w_nodes w' = w_nodes w \<Longrightarrow> w_deleted w' = w_deleted w \<Longrightarrow> frame n w w'"
  by (simp add: frame_def)

lemma frame_commit_item:
  assumes "commit_item n i w = Some w'"
  shows "frame n w w'"
proof -
  from assms obtain w1 where w1: "own_hole_back i w = Some w1"
    "node_add n i (w1\<lparr> w_items := (w_items w1)(i := Unmark (- 1) ((w_items w1 i)\<lparr> m_rank := - 1 \<rparr>)) \<rparr>) = Some w'"
    by (auto simp: commit_item_def Let_def bind_eq_Some_conv)
  have "frame n w w1" using w1(1) by (rule frame_own_hole_back)
  also have "frame n w1 (w1\<lparr> w_items := (w_items w1)(i := Unmark (- 1) ((w_items w1 i)\<lparr> m_rank := - 1 \<rparr>)) \<rparr>)"
    by (rule frame_items) simp_all
  also (frame_trans) have "frame n \<dots> w'" using w1(2) by (intro quiet_frame quiet_node_add)
  finally (frame_trans) show ?thesis .
qed

lemma Unmark_simps [simp]:
  "m_owner (Unmark m x) = m_owner x" "m_kind (Unmark m x) = m_kind x" "m_net (Unmark m x) = m_net x"
  "m_layers (Unmark m x) = m_layers x" "m_hole (Unmark m x) = m_hole x" "m_routable (Unmark m x) = m_routable x"
  "m_anchor0 (Unmark m x) = m_anchor0 x" "m_anchor1 (Unmark m x) = m_anchor1 x"
  "m_isVirtual (Unmark m x) = m_isVirtual x" "m_parentPadVia (Unmark m x) = m_parentPadVia x"
  by (simp_all add: Unmark_def)

lemma same_geo_rank: "same_geo h (h(i := Unmark m ((h i)\<lparr> m_rank := r \<rparr>)))"
  by (auto simp: same_geo_def Net_def split: option.splits)

lemma HasHole_geo: "same_geo h h' \<Longrightarrow> HasHole (h' i) = HasHole (h i)"
  by (cases "m_kind (h i)") (simp_all add: same_geo_def HasHole_def)

lemma hole_geo: "same_geo h h' \<Longrightarrow> m_hole (h' i) = m_hole (h i)"
  by (simp add: same_geo_def)

lemma fresh_item_hole:
  assumes "fresh_item h I i" and "HasHole (h i)" and "m_hole (h i) = Some k"
  shows "k \<notin> I"
  using assms by (auto simp: fresh_item_def parts_def)

lemma items_reach:
  assumes "root_reach later r w" and "w_nodes w' = w_nodes w" and "same_geo (w_items w) (w_items w')"
    and "\<forall>i \<in> items_at w r. m_owner (w_items w' i) = m_owner (w_items w i)"
  shows "root_reach later r w'"
proof -
  obtain nd where "w_nodes w r = Some nd" by (rule root_okE [OF root_reach_ok [OF assms(1)]])
  then show ?thesis using env_reach [OF assms(1), of nd w' nd] assms(2-4) by simp
qed

lemma commit_hole:
  assumes "root_ok w r J" and "m_kind (w_items w i) = HOLE_T"
  shows "\<exists>w'. commit_item r i w = Some w' \<and> root_ok w' r J \<and> same_geo (w_items w) (w_items w') \<and>
    (\<forall>x. m_owner (w_items w' x) = m_owner (w_items w x)) \<and> (root_reach later r w \<longrightarrow> root_reach later r w')"
proof -
  let ?w = "w\<lparr> w_items := (w_items w)(i := Unmark (- 1) ((w_items w i)\<lparr> m_rank := - 1 \<rparr>)) \<rparr>"
  have k: "m_kind (w_items ?w i) = HOLE_T" using assms(2) by (simp add: Unmark_def)
  have "commit_item r i w = Some ?w"
    using assms(2) k by (simp add: commit_item_def own_hole_back_def HasHole_def node_add_def Let_def)
  moreover have "root_ok ?w r J"
    by (rule root_ok_items [OF assms(1)]) (use same_geo_rank in simp_all)
  moreover have "root_reach later r w \<longrightarrow> root_reach later r ?w"
    using items_reach [of later r w ?w] same_geo_rank by simp
  moreover have "same_geo (w_items w) (w_items ?w)" using same_geo_rank by simp
  ultimately show ?thesis by (intro exI [of _ ?w]) simp
qed

lemma commit_item_ok:
  assumes "root_ok w r J" and "fresh_item (w_items w) J i"
  shows "\<exists>w'. commit_item r i w = Some w' \<and> root_ok w' r (J \<union> parts (w_items w) i) \<and>
    same_geo (w_items w) (w_items w') \<and>
    (\<forall>x \<in> J \<union> parts (w_items w) i. m_owner (w_items w' x) =
      (if x \<in> parts (w_items w) i then Some (OwnerNode r) else m_owner (w_items w x))) \<and>
    (root_reach later r w \<longrightarrow> root_reach later r w')"
proof -
  have obj: "wf_obj (w_items w) i" using assms(2) by (simp add: fresh_item_def)
  have inv: "node_inv w r None J (\<lambda>t. {j \<in> J. t \<in> anchors (w_items w) j})" using assms(1) by (simp add: root_ok_def)
  from own_hole_back_ok [OF inv obj] obtain w1 where
    w1: "own_hole_back i w = Some w1" "same_geo (w_items w) (w_items w1)" "w_nodes w1 = w_nodes w"
    "\<forall>x. m_hole (w_items w i) \<noteq> Some x \<longrightarrow> m_owner (w_items w1 x) = m_owner (w_items w x)"
    "HasHole (w_items w i) \<longrightarrow> m_owner (w_items w1 (the (m_hole (w_items w i)))) = Some (OwnerItem i)" by blast
  have keep: "m_owner (w_items w1 x) = m_owner (w_items w x)" if "x \<in> J" for x
  proof (cases "HasHole (w_items w i)")
    case True
    then show ?thesis using fresh_item_hole [OF assms(2) True, of x] w1(4) that by blast
  next
    case False
    then have "w1 = w" using w1(1) by (simp add: own_hole_back_def)
    then show ?thesis by simp
  qed
  let ?w2 = "w1\<lparr> w_items := (w_items w1)(i := Unmark (- 1) ((w_items w1 i)\<lparr> m_rank := - 1 \<rparr>)) \<rparr>"
  have geo: "same_geo (w_items w) (w_items ?w2)" using same_geo_trans [OF w1(2) same_geo_rank] by simp
  have own: "m_owner (w_items ?w2 x) = m_owner (w_items w1 x)" for x by simp
  have ok: "root_ok ?w2 r J"
    by (rule root_ok_items [OF assms(1)]) (use geo own keep w1(3) in simp_all)
  have "HasHole (w_items ?w2 i) = HasHole (w_items w i)" "m_hole (w_items ?w2 i) = m_hole (w_items w i)"
    by (rule HasHole_geo [OF geo], rule hole_geo [OF geo])
  then have hole: "owns_hole (w_items ?w2) i" using w1(5) own unfolding owns_hole_def by simp
  have fresh: "fresh_item (w_items ?w2) J i" using assms(2) fresh_geo [OF geo] by simp
  obtain w3 where w3: "node_add r i ?w2 = Some w3" "root_ok w3 r (J \<union> parts (w_items ?w2) i)"
    "owners_after (Some (OwnerNode r)) (parts (w_items ?w2) i) (w_items ?w2) (w_items w3)"
    using root_add_ok [OF ok fresh hole] by blast
  have J: "items_at w r = J" "items_at ?w2 r = J" using root_ok_items_at assms(1) ok by blast+
  have reach: "root_reach later r w3" if "root_reach later r w"
  proof (rule reach_step)
    show "root_reach later r ?w2"
      by (rule items_reach [OF that]) (use geo own keep w1(3) J(1) in simp_all)
    show "root_step later r ?w2 w3" by (rule step_add [OF _ hole w3(1)]) (use fresh J(2) in simp)
  qed
  have owners: "\<forall>x \<in> J \<union> parts (w_items w) i. m_owner (w_items w3 x) =
      (if x \<in> parts (w_items w) i then Some (OwnerNode r) else m_owner (w_items w x))"
    using w3(3) own keep unfolding owners_after_def parts_geo [OF geo] by auto
  have "commit_item r i w = Some w3" using w1(1) w3(1) by (simp add: commit_item_def Let_def)
  then show ?thesis
    using w3(2) owners reach unfolding parts_geo [OF geo]
    by (intro exI [of _ w3] conjI same_geo_trans [OF geo owners_after_geo [OF w3(3)]]) simp_all
qed

lemma commit_all:
  assumes "root_ok w r J" and "distinct bs" and "stocked (w_items w) I" and "set bs \<subseteq> I"
    and "\<forall>i \<in> set bs. m_kind (w_items w i) \<noteq> HOLE_T \<longrightarrow> fresh_item (w_items w) J i"
  shows "\<exists>w'. fold_opt (commit_item r) bs w = Some w' \<and> root_ok w' r (J \<union> added_by (w_items w) bs) \<and>
    same_geo (w_items w) (w_items w') \<and>
    (\<forall>x \<in> J. m_owner (w_items w x) = Some (OwnerNode r) \<longrightarrow> m_owner (w_items w' x) = Some (OwnerNode r)) \<and>
    (\<forall>x \<in> added_by (w_items w) bs. m_owner (w_items w' x) = Some (OwnerNode r)) \<and>
    (root_reach later r w \<longrightarrow> root_reach later r w')"
  using assms
proof (induction bs arbitrary: w J)
  case Nil
  then show ?case by (simp add: added_by_def)
next
  case (Cons i bs)
  have "\<exists>w1 P. commit_item r i w = Some w1 \<and> root_ok w1 r (J \<union> P) \<and> same_geo (w_items w) (w_items w1) \<and>
    P = (if m_kind (w_items w i) = HOLE_T then {} else parts (w_items w) i) \<and>
    (\<forall>x \<in> J \<union> P. m_owner (w_items w1 x) = (if x \<in> P then Some (OwnerNode r) else m_owner (w_items w x))) \<and>
    (root_reach later r w \<longrightarrow> root_reach later r w1)"
  proof (cases "m_kind (w_items w i) = HOLE_T")
    case True
    then show ?thesis using commit_hole [OF Cons.prems(1), of i later] by auto
  next
    case False
    then have "fresh_item (w_items w) J i" using Cons.prems(5) by simp
    from commit_item_ok [OF Cons.prems(1) this, of later] show ?thesis
      unfolding if_not_P [OF False] by blast
  qed
  then obtain w1 P where w1: "commit_item r i w = Some w1" "root_ok w1 r (J \<union> P)" "same_geo (w_items w) (w_items w1)"
    "P = (if m_kind (w_items w i) = HOLE_T then {} else parts (w_items w) i)"
    and own1: "\<And>x. x \<in> J \<union> P \<Longrightarrow> m_owner (w_items w1 x) = (if x \<in> P then Some (OwnerNode r) else m_owner (w_items w x))"
    and reach1: "root_reach later r w \<Longrightarrow> root_reach later r w1" by blast
  have "fresh_item (w_items w1) (J \<union> P) j" if j: "j \<in> set bs" "m_kind (w_items w1 j) \<noteq> HOLE_T" for j
  proof -
    have kj: "m_kind (w_items w j) \<noteq> HOLE_T" using j(2) kind_geo [OF w1(3)] by simp
    then have fj: "fresh_item (w_items w) J j" using Cons.prems(5) j(1) by simp
    show ?thesis
    proof (cases "m_kind (w_items w i) = HOLE_T")
      case True
      then show ?thesis using fj fresh_geo [OF w1(3)] w1(4) by simp
    next
      case False
      have ij: "i \<noteq> j" using Cons.prems(2) j(1) by auto
      have I: "i \<in> I" "j \<in> I" using Cons.prems(4) j(1) by auto
      have obj: "wf_obj (w_items w) i" "wf_obj (w_items w) j"
        using Cons.prems(5) False kj j(1) by (auto simp: fresh_item_def)
      have ap: "holes_of (w_items w) j \<inter> holes_of (w_items w) i = {}"
        using Cons.prems(3) I ij unfolding stocked_def by blast
      have hi: "m_kind (w_items w k) = HOLE_T \<and> holes_of (w_items w) k = {}" if "k \<in> holes_of (w_items w) i" for k
        using wf_obj_hole(3,4) [OF obj(1) that] by (simp add: holes_of_def)
      have hj: "m_kind (w_items w k) = HOLE_T" if "k \<in> holes_of (w_items w) j" for k
        using wf_obj_hole(3) [OF obj(2) that] .
      have sub: "parts (w_items w) i \<subseteq> insert i (holes_of (w_items w) i)"
        "parts (w_items w) j \<subseteq> insert j (holes_of (w_items w) j)" using parts_holes by blast+
      have "parts (w_items w) j \<inter> parts (w_items w) i = {}"
        using sub hi hj ap ij False kj by blast
      moreover have "holes_of (w_items w) j \<inter> holes_of (w_items w) k = {}" if "k \<in> parts (w_items w) i" for k
        using that sub(1) hi ap by blast
      ultimately have "fresh_item (w_items w) (J \<union> P) j" using fj w1(4) False unfolding fresh_item_def by auto
      then show ?thesis using fresh_geo [OF w1(3)] by simp
    qed
  qed
  then have "\<forall>j \<in> set bs. m_kind (w_items w1 j) \<noteq> HOLE_T \<longrightarrow> fresh_item (w_items w1) (J \<union> P) j" by blast
  from Cons.IH [OF w1(2) _ _ _ this] Cons.prems(2-4) stocked_geo [OF w1(3)] obtain w2 where
    w2: "fold_opt (commit_item r) bs w1 = Some w2" "root_ok w2 r (J \<union> P \<union> added_by (w_items w1) bs)"
    "same_geo (w_items w1) (w_items w2)"
    "\<And>x. x \<in> J \<union> P \<Longrightarrow> m_owner (w_items w1 x) = Some (OwnerNode r) \<Longrightarrow> m_owner (w_items w2 x) = Some (OwnerNode r)"
    "\<And>x. x \<in> added_by (w_items w1) bs \<Longrightarrow> m_owner (w_items w2 x) = Some (OwnerNode r)"
    "root_reach later r w1 \<Longrightarrow> root_reach later r w2" by auto
  have P: "x \<in> P \<or> x \<in> added_by (w_items w1) bs" if "x \<in> added_by (w_items w) (i # bs)" for x
    using that w1(4) by (auto simp: added_by_Cons added_by_geo [OF w1(3)] split: if_splits)
  have "m_owner (w_items w2 x) = Some (OwnerNode r)" if "x \<in> J" "m_owner (w_items w x) = Some (OwnerNode r)" for x
    using w2(4) [of x] own1 [of x] that by simp
  moreover have "m_owner (w_items w2 x) = Some (OwnerNode r)" if "x \<in> added_by (w_items w) (i # bs)" for x
    using P [OF that] w2(4) [of x] w2(5) [of x] own1 [of x] by auto
  moreover have "J \<union> P \<union> added_by (w_items w1) bs = J \<union> added_by (w_items w) (i # bs)"
    using w1(4) by (auto simp: added_by_Cons added_by_geo [OF w1(3)])
  ultimately show ?case using w1(1) w2(1,2,6) reach1 same_geo_trans [OF w1(3) w2(3)] by simp
qed

text \<open>Removing a list of items from the root is a sequence of its steps.\<close>

lemma remove_all_reach:
  assumes "root_reach later r w" and "distinct os" and "\<forall>i \<in> set os. m_kind (w_items w i) \<noteq> HOLE_T \<longrightarrow> i \<in> items_at w r"
    and "fold_opt (NODE_Remove later r) os w = Some w'"
  shows "root_reach later r w'"
  using assms
proof (induction os arbitrary: w)
  case (Cons i os)
  show ?case
  proof (cases "m_kind (w_items w i) = HOLE_T")
    case True
    then show ?thesis using Cons Remove_hole [of w i later r] by simp
  next
    case False
    let ?I = "items_at w r"
    have i: "i \<in> ?I" using Cons.prems(3) False by simp
    note ok = root_reach_ok [OF Cons.prems(1)]
    from root_remove_ok [OF ok i False, of later] obtain w1 where
      w1: "NODE_Remove later r i w = Some w1" "root_ok w1 r (?I - insert i (holes_of (w_items w) i))"
      "owners_removed i (w_items w) (w_items w1)" by blast
    have geo: "same_geo (w_items w) (w_items w1)" using w1(3) by (simp add: owners_removed_def)
    have r1: "root_reach later r w1" using Cons.prems(1) step_remove [OF i w1(1)] by (rule reach_step)
    have "\<forall>j \<in> set os. m_kind (w_items w1 j) \<noteq> HOLE_T \<longrightarrow> j \<in> items_at w1 r"
      using Cons.prems(2,3) wf_obj_hole(3) [OF root_ok_obj [OF ok i False]]
      by (auto simp: kind_geo [OF geo] root_ok_items_at [OF w1(2)])
    then show ?thesis using Cons.IH [OF r1] Cons.prems(2,4) w1(1) by simp
  qed
qed simp

section \<open>Committing a branch\<close>

lemma frame_place:
  assumes "frame n w w'" and "w_nodes w' x = Some xd'"
  obtains xd where "w_nodes w x = Some xd" "n_parent xd = n_parent xd'" "n_root xd = n_root xd'"
    "n_children xd = n_children xd'" "n_depth xd = n_depth xd'"
proof -
  have "map_option (shell (x = n)) (w_nodes w x) = Some (shell (x = n) xd')"
    using assms(1) [unfolded frame_def, THEN conjunct2, rule_format, of x] assms(2) by simp
  then obtain xd where xd: "w_nodes w x = Some xd" "shell (x = n) xd = shell (x = n) xd'" by auto
  then have "n_parent xd = n_parent xd' \<and> n_root xd = n_root xd' \<and> n_children xd = n_children xd' \<and> n_depth xd = n_depth xd'"
    by (cases xd; cases xd'; cases "x = n") (simp_all add: shell_def)
  with xd(1) show thesis using that by blast
qed

lemma frame_sym: "frame n w w' \<Longrightarrow> frame n w' w"
  by (simp add: frame_def)

lemma frame_tree:
  assumes f: "frame n w w'" and "tree_ok w"
  shows "tree_ok w'"
proof (rule tree_okI)
  fix x xd' assume x: "w_nodes w' x = Some xd'"
  obtain xd where xd: "w_nodes w x = Some xd" "n_parent xd = n_parent xd'" "n_root xd = n_root xd'"
    "n_children xd = n_children xd'" "n_depth xd = n_depth xd'" by (rule frame_place [OF f x])
  note back_place = frame_place [OF frame_sym [OF f]]
  show "distinct (n_children xd')" using tree_okD(1) [OF assms(2) xd(1)] xd(4) by simp
  show "n_root xd' = x" if "n_parent xd' = None" using tree_okD(3) [OF assms(2) xd(1)] that xd by simp
  show "\<exists>rd. w_nodes w' (n_root xd') = Some rd \<and> n_parent rd = None"
    using tree_okD(5) [OF assms(2) xd(1)] back_place xd(3) by metis
  show "\<exists>kd. w_nodes w' k = Some kd \<and> n_parent kd = Some x" if "k \<in> set (n_children xd')" for k
    using tree_okD(2) [OF assms(2) xd(1)] that back_place xd(4) by metis
  show "\<exists>pd. w_nodes w' p = Some pd \<and> x \<in> set (n_children pd) \<and> n_depth xd' = n_depth pd + 1 \<and> n_root xd' = n_root pd"
    if "n_parent xd' = Some p" for p
    using tree_okD(4) [OF assms(2) xd(1), of p] that back_place xd by metis
qed

lemma frame_depth: "frame n w w' \<Longrightarrow> depth_bound w D \<Longrightarrow> depth_bound w' D"
  unfolding depth_bound_def by (metis frame_place)

text \<open>
  \<open>mergeable w r a\<close>: \<open>a\<close> is a branch of the root \<open>r\<close> whose overrides are items of the root together with
  their holes, and whose own items are complete and do not clash with what is left of the root.
\<close>

definition mergeable :: "WORLD \<Rightarrow> nat \<Rightarrow> nat \<Rightarrow> bool" where
  "mergeable w r a \<longleftrightarrow> (\<exists>nd. w_nodes w a = Some nd \<and> \<not> isRoot nd \<and> n_root nd = r \<and>
     wf_index (w_items w) (n_index nd) \<and> distinct (n_override nd) \<and>
     (\<forall>i \<in> set (n_override nd). m_kind (w_items w i) \<noteq> HOLE_T \<longrightarrow> i \<in> items_at w r) \<and>
     removed_by (w_items w) (n_override nd) = set (n_override nd) \<and>
     stocked (w_items w) (items_of (n_index nd)) \<and>
     (\<forall>i \<in> items_of (n_index nd). m_kind (w_items w i) \<noteq> HOLE_T \<longrightarrow>
        fresh_item (w_items w) (items_at w r - set (n_override nd)) i))"

text \<open>
  What an item in the garbage takes with it when it is deleted is not in the root unless the item is,
  and then the root owns the item and does not delete it.
\<close>

lemma destroy_apart:
  assumes "root_ok w r I" and "holes_private (w_items w)" and "m_kind (w_items w g) \<noteq> HOLE_T"
    and "\<not> BelongsTo (w_items w g) (Some (OwnerNode r))" and "i \<in> set (ITEM_destroy (w_items w) g)"
  shows "i \<notin> I"
proof
  assume i: "i \<in> I"
  have st: "stocked (w_items w) I" and own: "owned (w_items w) r I" using assms(1) by (simp_all add: root_ok_def)
  have g: "g \<notin> I" using owned_item [OF own _ assms(3)] assms(4) by (auto simp: BelongsTo_def)
  have "i = g \<or> m_hole (w_items w g) = Some i"
    using assms(5) by (auto simp: ITEM_destroy_def VIA_destroy_def SOLID_destroy_def
        split: PnsKind.splits option.splits if_splits)
  then show False using g i hole_parent(1) [OF st assms(2) i] by blast
qed

lemma releaseGarbage_ok:
  assumes "root_ok w r I" and "w_nodes w r = Some rd" and "holes_private (w_items w)" and "garbage_clean w"
  shows "\<exists>w'. releaseGarbage r w = Some w' \<and> root_ok w' r I \<and>
    w_nodes w' = (w_nodes w)(r \<mapsto> rd\<lparr> n_garbageItems := [] \<rparr>) \<and> w_items w' = w_items w \<and>
    (\<forall>i \<in> I. i \<in> set (w_deleted w') \<longrightarrow> i \<in> set (w_deleted w))"
proof -
  let ?dead = "concat (map (ITEM_destroy (w_items w))
    (filter (\<lambda>i. \<not> BelongsTo (w_items w i) (Some (OwnerNode r))) (n_garbageItems rd)))"
  let ?w = "set_node r (rd\<lparr> n_garbageItems := [] \<rparr>) (w\<lparr> w_deleted := ?dead @ w_deleted w \<rparr>)"
  have "isRoot rd" by (rule root_okE [OF assms(1)]) (use assms(2) in simp)
  then have "releaseGarbage r w = Some ?w" using assms(2) by (simp add: releaseGarbage_def)
  moreover have "root_ok ?w r I" by (rule root_ok_env [OF assms(1,2), where nd' = "rd\<lparr> n_garbageItems := [] \<rparr>"]) simp_all
  moreover have "i \<notin> I" if i: "i \<in> set ?dead" for i
  proof -
    from i obtain g where g: "g \<in> set (n_garbageItems rd)" "\<not> BelongsTo (w_items w g) (Some (OwnerNode r))"
      "i \<in> set (ITEM_destroy (w_items w) g)" by auto
    show ?thesis using assms(1,3) cleanD [OF assms(4,2) g(1)] g(2,3) by (rule destroy_apart)
  qed
  then have "\<forall>i \<in> I. i \<in> set (w_deleted ?w) \<longrightarrow> i \<in> set (w_deleted w)" by auto
  ultimately show ?thesis by (intro exI [of _ ?w]) simp
qed

text \<open>The two loops of \<open>Commit\<close>: the overrides leave the root, the items of the branch enter it.\<close>

lemma commit_loops:
  assumes reach: "root_reach later r w" and nd: "w_nodes w a = Some nd" and m: "mergeable w r a" and "garbage_clean w"
  shows "\<exists>w1 w2. fold_opt (NODE_Remove later r) (n_override nd) w = Some w1 \<and>
    fold_opt (commit_item r) (m_allItems (n_index nd)) w1 = Some w2 \<and> root_reach later r w2 \<and>
    items_at w2 r = sees w a \<and> same_geo (w_items w) (w_items w2) \<and> frame r w w2 \<and> garbage_clean w2 \<and>
    (\<forall>i \<in> items_at w a. m_owner (w_items w2 i) = Some (OwnerNode r))"
proof -
  note root = root_reach_ok [OF reach]
  let ?R = "items_at w r" and ?O = "set (n_override nd)" and ?J = "items_of (n_index nd)" and ?b = "m_allItems (n_index nd)"
  from m nd have nd1: "\<not> isRoot nd" "n_root nd = r" "wf_index (w_items w) (n_index nd)"
    and os: "distinct (n_override nd)" "\<forall>i \<in> ?O. m_kind (w_items w i) \<noteq> HOLE_T \<longrightarrow> i \<in> ?R"
      "removed_by (w_items w) (n_override nd) = ?O"
    and bs: "stocked (w_items w) ?J"
      "\<forall>i \<in> ?J. m_kind (w_items w i) \<noteq> HOLE_T \<longrightarrow> fresh_item (w_items w) (?R - ?O) i"
    unfolding mergeable_def by auto
  have S: "sees w a = (?R - ?O) \<union> ?J" using nd nd1 by (simp add: sees_def)
  from root_remove_all [OF root os(1,2), of later] os(3) obtain w1 where
    w1: "fold_opt (NODE_Remove later r) (n_override nd) w = Some w1" "root_ok w1 r (?R - ?O)"
      "same_geo (w_items w) (w_items w1)" by auto
  have r1: "root_reach later r w1" using reach os(1,2) w1(1) by (rule remove_all_reach)
  have all: "set ?b = ?J" "distinct ?b" using nd1(3) by (simp_all add: items_of_def wf_index_def)
  have fresh: "\<forall>i \<in> set ?b. m_kind (w_items w1 i) \<noteq> HOLE_T \<longrightarrow> fresh_item (w_items w1) (?R - ?O) i"
    using bs(2) all(1) kind_geo [OF w1(3)] fresh_geo [OF w1(3)] by simp
  have st1: "stocked (w_items w1) ?J" using bs(1) stocked_geo [OF w1(3)] by simp
  have J: "added_by (w_items w1) ?b = ?J"
  proof -
    have "added_by (w_items w) (filter (\<lambda>i. m_kind (w_items w i) \<noteq> HOLE_T) ?b) = ?J"
      using stocked_covered(2) [OF bs(1)] all(1) by simp
    then show ?thesis unfolding added_by_geo [OF w1(3)] by (simp add: added_by_def)
  qed
  from commit_all [OF w1(2) all(2) st1 _ fresh, of later] all(1) J obtain w2 where
    w2: "fold_opt (commit_item r) ?b w1 = Some w2" "root_ok w2 r ((?R - ?O) \<union> ?J)" "same_geo (w_items w1) (w_items w2)"
      "\<forall>i \<in> ?J. m_owner (w_items w2 i) = Some (OwnerNode r)" "root_reach later r w1 \<longrightarrow> root_reach later r w2"
    by auto
  have "items_at w2 r = sees w a" using root_ok_items_at [OF w2(2)] S by simp
  moreover have "items_at w a = ?J" using nd by (simp add: items_at_def)
  moreover have "frame r w w1" using w1(1) frame_Remove by (rule frame_fold [rotated])
  moreover have "frame r w1 w2" using w2(1) frame_commit_item by (rule frame_fold [rotated])
  moreover have "garbage_clean w1" using w1(1) assms(4) clean_Remove by (rule clean_fold)
  moreover from w2(1) this clean_commit_item have "garbage_clean w2" by (rule clean_fold)
  ultimately show ?thesis
    using w1(1) w2(1,4,5) r1 same_geo_trans [OF w1(3) w2(3)] frame_trans [of r w w1 w2] by blast
qed

lemma Commit_ok:
  assumes root: "root_reach later r w" and m: "mergeable w r a" and tree: "tree_ok w" "depth_bound w D"
    and fuel: "w_nodes w r = Some rd" "D - n_depth rd < int fuel"
    and clean: "holes_private (w_items w)" "garbage_clean w"
  shows "\<exists>w' rd'. NODE_Commit fuel later r a w = Some w' \<and> root_reach later r w' \<and> items_at w' r = sees w a \<and> tree_ok w' \<and>
    w_nodes w' r = Some rd' \<and> n_children rd' = [] \<and> n_garbageItems rd' = [] \<and>
    (\<forall>i \<in> sees w a. i \<in> set (w_deleted w') \<longrightarrow> i \<in> set (w_deleted w)) \<and>
    (\<forall>i \<in> items_at w a. m_owner (w_items w' i) = Some (OwnerNode r))"
proof -
  from m obtain nd where nd: "w_nodes w a = Some nd" "\<not> isRoot nd" unfolding mergeable_def by blast
  let ?S = "sees w a"
  from commit_loops [OF root nd(1) m clean(2)] obtain w1 w2 where
    w2: "fold_opt (NODE_Remove later r) (n_override nd) w = Some w1"
      "fold_opt (commit_item r) (m_allItems (n_index nd)) w1 = Some w2" "root_reach later r w2"
      "items_at w2 r = ?S" "same_geo (w_items w) (w_items w2)" "garbage_clean w2"
      "\<forall>i \<in> items_at w a. m_owner (w_items w2 i) = Some (OwnerNode r)" and f: "frame r w w2" by blast
  have ok2: "root_ok w2 r ?S" using root_reach_ok [OF w2(3)] w2(4) by simp
  obtain rd2 where rd2: "w_nodes w2 r = Some rd2" using ok2 by (rule root_okE)
  have depth2: "n_depth rd2 = n_depth rd" by (rule frame_place [OF f rd2]) (use fuel(1) in simp)
  have t2: "tree_ok w2" using f tree(1) by (rule frame_tree)
  from release_ok [OF t2 rd2 frame_depth [OF f tree(2)]] fuel(2) depth2 obtain w3 where
    w3: "releaseChildren fuel r w2 = Some w3" "released w2 r w3" by auto
  have rd3: "w_nodes w3 r = Some (rd2\<lparr> n_children := [] \<rparr>)" and items3: "w_items w3 = w_items w2"
    using w3(2) rd2 by (simp_all add: released_def)
  have reach3: "root_reach later r w3" by (rule env_reach [OF w2(3) rd2 rd3]) (use items3 in simp_all)
  have ok3: "root_ok w3 r ?S"
    by (rule root_ok_env [OF ok2 rd2 rd3]) (use items3 in simp_all)
  have "i \<in> set (w_deleted w2)" if i: "i \<in> ?S" "i \<in> set (w_deleted w3)" for i
  proof (rule ccontr)
    assume "i \<notin> set (w_deleted w2)"
    with i(2) w3(2) obtain x where x: "below w2 r x" "i \<in> own_holes w2 x" unfolding released_def by blast
    have "m_owner (w_items w2 i) = Some (OwnerNode r) \<or> (\<exists>j. m_owner (w_items w2 i) = Some (OwnerItem j))"
      using ok2 i(1) by (auto simp: root_ok_def owned_def given_back_def)
    then have "x = r" using x(2) by (auto simp: own_holes_def BelongsTo_def)
    with below_depth [OF x(1) t2 rd2] rd2 show False by simp
  qed
  then have dead: "\<forall>i \<in> ?S. i \<in> set (w_deleted w3) \<longrightarrow> i \<in> set (w_deleted w)" using f by (simp add: frame_def)
  have "holes_private (w_items w3)" using clean(1) holes_private_geo [OF w2(5)] items3 by simp
  moreover have "garbage_clean w3" unfolding garbage_clean_def items3
  proof (intro allI impI)
    fix x xd g assume x: "w_nodes w3 x = Some xd" "g \<in> set (n_garbageItems xd)"
    show "m_kind (w_items w2 g) \<noteq> HOLE_T"
    proof (cases "x = r")
      case True
      then have "g \<in> set (n_garbageItems rd2)" using x rd3 by auto
      with w2(6) rd2 show ?thesis by (rule cleanD)
    next
      case False
      then have "w_nodes w3 x = w_nodes w2 x" using w3(2) x(1) by (auto simp: released_def)
      then show ?thesis using x cleanD [OF w2(6), of x xd g] by simp
    qed
  qed
  ultimately obtain w4 where
    w4: "releaseGarbage r w3 = Some w4" "root_ok w4 r ?S"
    "w_nodes w4 = (w_nodes w3)(r \<mapsto> rd2\<lparr> n_children := [], n_garbageItems := [] \<rparr>)" "w_items w4 = w_items w3"
    "\<forall>i \<in> ?S. i \<in> set (w_deleted w4) \<longrightarrow> i \<in> set (w_deleted w3)"
    using releaseGarbage_ok [OF ok3 rd3] by auto
  have reach4: "root_reach later r w4"
    by (rule env_reach [OF reach3 rd3, of _ "rd2\<lparr> n_children := [], n_garbageItems := [] \<rparr>"]) (use w4(3,4) in simp_all)
  have t4: "tree_ok w4"
  proof -
    have "frame r w3 (w3\<lparr> w_nodes := w_nodes w4 \<rparr>)" using w4(3) rd3 by (simp add: frame_def)
    moreover have "tree_ok w3" using w3(2) by (simp add: released_def)
    ultimately have "tree_ok (w3\<lparr> w_nodes := w_nodes w4 \<rparr>)" by (rule frame_tree)
    then show ?thesis by (simp add: tree_ok_def cong: option.case_cong)
  qed
  have "NODE_Commit fuel later r a w = Some w4"
    using nd w2(1,2) w3(1) w4(1) by (simp add: NODE_Commit_def)
  moreover have "\<forall>i \<in> ?S. i \<in> set (w_deleted w4) \<longrightarrow> i \<in> set (w_deleted w)" using w4(5) dead by blast
  moreover have "\<forall>i \<in> items_at w a. m_owner (w_items w4 i) = Some (OwnerNode r)" using w2(7) items3 w4(4) by simp
  moreover have "w_nodes w4 r = Some (rd2\<lparr> n_children := [], n_garbageItems := [] \<rparr>)" using w4(3) by simp
  ultimately show ?thesis using reach4 t4 root_ok_items_at [OF w4(2)]
    by (intro exI [of _ w4] exI [of _ "rd2\<lparr> n_children := [], n_garbageItems := [] \<rparr>"]) simp
qed

text \<open>
  C1. Committing a branch makes the root what the branch sees, also when the branch has removed vias and
  pads with holes from the root: \<open>Commit\<close> returns without a failed assertion and leaves the root in a
  reachable state; its index then holds the items that the branch saw and its joints link exactly
  those; every track, via and pad of it and every item that comes from the branch is owned by the
  root, and a hole that stays in the root by the root or by its via or pad, which is in the root too;
  none of these items has been deleted; the root has no branches and no garbage left. It is assumed
  that no two items share a hole and that no hole is in the garbage, where \<open>Remove\<close> never puts one
  (\<open>clean_Remove\<close>).
\<close>

theorem Commit_merges_branch:
  assumes "root_reach later r w" and "mergeable w r a" and "tree_ok w" and "depth_bound w D"
    and "w_nodes w r = Some rd" and "D - n_depth rd < int fuel"
    and "holes_private (w_items w)" and "garbage_clean w"
  shows "\<exists>w' rd'. NODE_Commit fuel later r a w = Some w' \<and> root_reach later r w' \<and> tree_ok w' \<and> w_nodes w' r = Some rd' \<and>
    items_of (n_index rd') = sees w a \<and> wf_joints (w_items w') (n_joints rd') \<and>
    linked None (n_joints rd') = (\<lambda>t. {i. i \<in> sees w a \<and> t \<in> anchors (w_items w') i}) \<and>
    n_children rd' = [] \<and> n_garbageItems rd' = [] \<and>
    (\<forall>i. i \<in> sees w a \<longrightarrow> BelongsTo (w_items w' i) (Some (OwnerNode r)) \<or>
      m_kind (w_items w' i) = HOLE_T \<and> i \<notin> items_at w a \<and> (\<exists>j. j \<in> sees w a \<and> m_hole (w_items w' j) = Some i \<and>
        BelongsTo (w_items w' i) (Some (OwnerItem j)))) \<and>
    (\<forall>i. i \<in> sees w a \<longrightarrow> i \<in> set (w_deleted w') \<longrightarrow> i \<in> set (w_deleted w))"
proof -
  from Commit_ok [OF assms] obtain w' rd' where
    w': "NODE_Commit fuel later r a w = Some w'" "root_reach later r w'" "items_at w' r = sees w a" "tree_ok w'"
    "w_nodes w' r = Some rd'" "n_children rd' = []" "n_garbageItems rd' = []"
    "\<forall>i \<in> sees w a. i \<in> set (w_deleted w') \<longrightarrow> i \<in> set (w_deleted w)"
    "\<forall>i \<in> items_at w a. m_owner (w_items w' i) = Some (OwnerNode r)" by blast
  have ok: "root_ok w' r (sees w a)" using root_reach_ok [OF w'(2)] w'(3) by simp
  then have "owned (w_items w') r (sees w a)" by (simp add: root_ok_def)
  then have own: "\<forall>i. i \<in> sees w a \<longrightarrow> BelongsTo (w_items w' i) (Some (OwnerNode r)) \<or>
      m_kind (w_items w' i) = HOLE_T \<and> i \<notin> items_at w a \<and> (\<exists>j. j \<in> sees w a \<and> m_hole (w_items w' j) = Some i \<and>
        BelongsTo (w_items w' i) (Some (OwnerItem j)))"
    using w'(9) unfolding owned_def given_back_def BelongsTo_def by blast
  from ok show ?thesis
  proof (rule root_okE)
    fix nd assume nd: "w_nodes w' r = Some nd" "items_of (n_index nd) = sees w a" "wf_joints (w_items w') (n_joints nd)"
      "linked None (n_joints nd) = (\<lambda>t. {i \<in> sees w a. t \<in> anchors (w_items w') i})"
    then have "nd = rd'" using w'(5) by simp
    with nd w' own show ?thesis by (intro exI [of _ w'] exI [of _ rd']) simp
  qed
qed

text \<open>A branch that removes a via of the root keeps its own index.\<close>

lemma Remove_held_via_index:
  assumes "NODE_Remove later n i w = Some w'" and "m_kind (w_items w i) = VIA_T"
    and "m_owner (w_items w i) = Some (OwnerNode (n_root nd))" and "w_nodes w n = Some nd"
    and "\<not> isRoot nd" and "n_root nd \<noteq> n" and "m_hole (w_items w i) \<noteq> Some i"
  shows "\<exists>nd'. w_nodes w' n = Some nd' \<and> n_index nd' = n_index nd"
proof -
  from assms(1,2) obtain w0 w1 w2 where ops: "own_hole_back i w = Some w0" "removeViaIndex later n i w0 = Some w1"
    "doRemove n i w1 = Some w2" and w': "w' = w2"
    by (auto simp: NODE_Remove_def Remove_single_def NODE_Remove_via_def bind_eq_Some_conv split: if_splits)
  have w0: "w_nodes w0 = w_nodes w" "m_owner (w_items w0 i) = Some (OwnerNode (n_root nd))"
    using ops(1) assms(3,7) by (auto simp: own_hole_back_def split: if_splits Option.bind_splits)
  from ops(2) w0(1) assms(4) obtain js where w1: "w_nodes w1 n = Some (nd\<lparr> n_joints := js \<rparr>)" "w_items w1 = w_items w0"
    by (auto simp: removeViaIndex_def on_joints_def Let_def bind_eq_Some_conv)
  show ?thesis using ops(3) w1 w0(2) assms(5,6) w'
    by (auto simp: doRemove_def doRemove_store_def doRemove_disown_def override_item_def BelongsTo_def Let_def
        bind_eq_Some_conv split: if_splits)
qed

text \<open>
  Two examples with the via of \<open>demo_world\<close>: a branch that adds it to an empty root, and a branch that
  removes it from a root that holds it, whereby the root's hole is given back to the via.
\<close>

lemma demo_private: "holes_private demo_items" and demo_clean: "garbage_clean demo_world" "garbage_clean demo_branch"
  by (simp_all add: holes_private_def garbage_clean_def demo_items_def ITEM_make_def demo_branch_def demo_world_def NODE_make_def)

lemma demo_tree: "tree_ok demo_world" "depth_bound demo_world 1" "tree_ok demo_branch" "depth_bound demo_branch 1"
  by (rule tree_okI, auto simp: depth_bound_def demo_world_def demo_branch_def NODE_make_def split: if_splits)+

lemma demo_commit_add:
  obtains w rd where "node_add 1 2 demo_branch = Some w" "root_reach [] 0 w" "mergeable w 0 1" "tree_ok w" "depth_bound w 1"
    "w_nodes w 0 = Some rd" "n_depth rd = 0" "holes_private (w_items w)" "garbage_clean w" "sees w 1 = {2, 3}" "items_at w 1 = {2, 3}"
proof -
  from demo_branch_add obtain w L where w: "node_add 1 2 demo_branch = Some w" "node_inv w 1 (Some []) {2, 3} L" by blast
  have q: "quiet 1 demo_branch w" using w(1) by (rule quiet_node_add)
  then have f: "frame 1 demo_branch w" by (rule quiet_frame)
  have items: "w_items demo_branch = demo_items" by (simp add: demo_branch_def demo_world_def)
  have geo: "same_geo demo_items (w_items w)" using node_add_owners [OF w(1)] items by simp
  have n0: "w_nodes demo_branch 0 = Some ((NODE_make 0)\<lparr> n_children := [1] \<rparr>)" by (simp add: demo_branch_def)
  obtain rd where rd: "w_nodes w 0 = Some rd" and
    rd0: "rd\<lparr> n_garbageItems := [] \<rparr> = (NODE_make 0)\<lparr> n_children := [1], n_garbageItems := [] \<rparr>"
    by (rule frame_other [OF f n0]) simp_all
  have rdf: "n_index rd = INDEX_empty" "n_joints rd = []" "n_parent rd = None" "n_root rd = 0" "n_depth rd = 0"
    using rd0 by (cases rd; simp add: NODE_make_def)+
  have reach0: "root_reach [] 0 demo_world" by (rule reach_new) (simp add: demo_world_def)
  have "root_step [] 0 demo_world w"
    by (rule step_env [of _ _ "NODE_make 0" _ rd])
      (use rd rdf geo in \<open>simp_all add: demo_world_def NODE_make_def items_at_def INDEX_empty_def items_of_def\<close>)
  with reach0 have reach: "root_reach [] 0 w" by (rule reach_step)
  obtain nd where nd: "w_nodes w 1 = Some nd" "wf_index (w_items w) (n_index nd)" "items_of (n_index nd) = {2, 3}"
    "root_joints w nd = Some (Some [])" by (rule node_invE [OF w(2)])
  have place: "n_parent nd = Some 0" "n_root nd = 0"
    by (rule frame_place [OF f nd(1)], simp add: demo_branch_def NODE_make_def)+
  have "n_override nd = []" using q nd(1) by (auto simp: quiet_def overrides_at_def demo_branch_def NODE_make_def dest!: spec [of _ 1])
  moreover have i0: "items_at w 0 = {}" using rd rdf by (simp add: items_at_def INDEX_empty_def items_of_def)
  moreover have "stocked (w_items w) {2, 3}"
  proof -
    have "stocked demo_items {}" by (simp add: stocked_def)
    from stocked_insert [OF this demo_fresh(1)] show ?thesis using demo_fresh(4) stocked_geo [OF geo] by simp
  qed
  moreover have "m_kind (w_items w 3) = HOLE_T" "m_kind (w_items w 2) \<noteq> HOLE_T"
    using kind_geo [OF geo] by (simp_all add: demo_items_def ITEM_make_def)
  moreover have "fresh_item (w_items w) {} 2" using fresh_geo [OF geo] demo_fresh(1) by simp
  ultimately have m: "mergeable w 0 1"
    unfolding mergeable_def using nd place by (intro exI [of _ nd]) (simp add: isRoot_def removed_by_def)
  have "sees w 1 = {2, 3}" "items_at w 1 = {2, 3}" using nd place i0 by (simp_all add: sees_def items_at_def isRoot_def)
  then show thesis
    using that [OF w(1) reach m frame_tree [OF f demo_tree(3)] frame_depth [OF f demo_tree(4)] rd rdf(5)]
      demo_private holes_private_geo [OF geo] clean_node_add [OF w(1) demo_clean(2)] by simp
qed

lemma demo_removed_eval:
  "case (do { w1 \<leftarrow> node_add 0 2 demo_world; w2 \<leftarrow> NODE_Branch 0 1 w1; NODE_Remove [] 1 2 w2 }) of
     None \<Rightarrow> False
   | Some w \<Rightarrow> m_owner (w_items w 3) = Some (OwnerItem 2) \<and> map_option n_override (w_nodes w 1) = Some [2, 3] \<and>
       map_option n_parent (w_nodes w 1) = Some (Some 0) \<and> map_option n_root (w_nodes w 1) = Some 0 \<and>
       map_option n_depth (w_nodes w 0) = Some 0"
  by code_simp

lemma demo_commit_remove:
  obtains w1 w2 w rd where "node_add 0 2 demo_world = Some w1" "NODE_Branch 0 1 w1 = Some w2" "NODE_Remove [] 1 2 w2 = Some w"
    "items_at w 0 = {2, 3}" "m_owner (w_items w 3) = Some (OwnerItem 2)"
    "root_reach [] 0 w" "mergeable w 0 1" "tree_ok w" "depth_bound w 1" "w_nodes w 0 = Some rd" "n_depth rd = 0"
    "holes_private (w_items w)" "garbage_clean w" "sees w 1 = {}"
proof (rule demo_add [of "[]"])
  fix w1 assume w1: "node_add 0 2 demo_world = Some w1" "root_reach [] 0 w1" "items_at w1 0 = {2, 3}"
    "same_geo demo_items (w_items w1)"
  from demo_removed_eval w1(1) obtain w2 w where w: "NODE_Branch 0 1 w1 = Some w2" "NODE_Remove [] 1 2 w2 = Some w"
    by (cases "NODE_Branch 0 1 w1"; cases "NODE_Remove [] 1 2 (the (NODE_Branch 0 1 w1))") auto
  from demo_removed_eval obtain nd rd where nd: "w_nodes w 1 = Some nd" "n_override nd = [2, 3]"
    "n_parent nd = Some 0" "n_root nd = 0" and own: "m_owner (w_items w 3) = Some (OwnerItem 2)"
    and rd: "w_nodes w 0 = Some rd" "n_depth rd = 0" using w1(1) w by auto
  obtain d1 where d1: "w_nodes w1 0 = Some d1" by (rule root_okE [OF root_reach_ok [OF w1(2)]])
  have f1: "frame 0 demo_world w1" using quiet_frame [OF quiet_node_add [OF w1(1)]] .
  have p1: "n_depth d1 = 0" by (rule frame_place [OF f1 d1]) (simp add: demo_world_def NODE_make_def)
  have t1: "tree_ok w1" using f1 demo_tree(1) by (rule frame_tree)
  have c1: "garbage_clean w1" using w1(1) demo_clean(1) by (rule clean_node_add)
  have n1: "w_nodes w1 1 = None" using w(1) d1 by (auto simp: NODE_Branch_def split: if_splits)
  have wf1: "wf_index (w_items w1) (n_index d1)"
    by (rule root_okE [OF root_reach_ok [OF w1(2)]]) (use d1 in simp)
  from Branch_ok [OF t1 d1 n1 wf1] w(1) obtain cd where
    w2: "w_nodes w2 = (w_nodes w1)(0 \<mapsto> d1\<lparr> n_children := n_children d1 @ [1] \<rparr>, 1 \<mapsto> cd)" "w_items w2 = w_items w1"
      "n_parent cd = Some 0" "n_root cd = n_root d1" "n_depth cd = n_depth d1 + 1" "n_children cd = []"
      "isRoot d1 \<Longrightarrow> n_index cd = INDEX_empty" by auto
  have t2: "tree_ok w2" using t1 d1 n1 w2(1,3-6) by (rule tree_ok_leaf)
  have d2: "depth_bound w2 1" using frame_depth [OF f1 demo_tree(2)] w2(1,5) p1 d1 by (auto simp: depth_bound_def)
  have r2: "root_reach [] 0 w2" using w1(2) w(1) by (rule Branch_reach)
  have geo2: "same_geo demo_items (w_items w2)" using w1(4) w2(2) by simp
  have f: "frame 1 w2 w" using w(2) by (rule frame_Remove)
  have geo: "same_geo demo_items (w_items w)"
    using same_geo_trans [OF geo2] Remove_owners [OF w(2)] by (simp add: owners_by_def)
  have priv: "holes_private (w_items w2)" "holes_private (w_items w)"
    using demo_private holes_private_geo geo geo2 by blast+
  have reach: "root_reach [] 0 w" using r2 priv(1) w(2) by (rule branch_Remove_reach) simp
  have k2: "m_kind (w_items w2 2) = VIA_T" "m_hole (w_items w2 2) = Some 3"
    using kind_geo [OF geo2] hole_geo [OF geo2] by (simp_all add: demo_items_def ITEM_make_def)
  have i2: "items_at w2 0 = {2, 3}" using w1(3) d1 w2(1) by (simp add: items_at_def)
  have "owned (w_items w2) 0 {2, 3}" using root_reach_ok [OF r2] i2 by (simp add: root_ok_def)
  then have "m_owner (w_items w2 2) = Some (OwnerNode 0)" by (rule owned_item) (use k2 in simp_all)
  moreover have "n_root d1 = 0" by (rule frame_place [OF f1 d1]) (simp add: demo_world_def NODE_make_def)
  moreover have "isRoot d1" by (rule root_okE [OF root_reach_ok [OF w1(2)]]) (use d1 in simp)
  ultimately have ix: "n_index nd = INDEX_empty"
    using Remove_held_via_index [OF w(2) k2(1), of cd] w2(1,3,4,7) k2(2) nd(1) by (simp add: isRoot_def)
  have i0: "items_at w 0 = {2, 3}"
  proof -
    have "w_nodes w2 0 = Some (d1\<lparr> n_children := n_children d1 @ [1] \<rparr>)" using w2(1) by simp
    then obtain e where "w_nodes w 0 = Some e" "e\<lparr> n_garbageItems := [] \<rparr> = d1\<lparr> n_children := n_children d1 @ [1], n_garbageItems := [] \<rparr>"
      by (rule frame_other [OF f]) simp_all
    then show ?thesis using w1(3) d1 shell_eq_fields(1) [of e "d1\<lparr> n_children := n_children d1 @ [1] \<rparr>"] by (simp add: items_at_def)
  qed
  have c: "garbage_clean w" using w(2) clean_Branch [OF w(1) c1] by (rule clean_Remove)
  have "removed_by (w_items w) [2, 3] = {2, 3}"
  proof -
    have "m_kind (demo_items 3) = HOLE_T" by (simp add: demo_items_def ITEM_make_def)
    moreover have "removed_by demo_items [] = {}" by (simp add: removed_by_def)
    ultimately show ?thesis unfolding removed_by_geo [OF geo] using demo_fresh(6,7) by (simp add: removed_by_Cons)
  qed
  then have m: "mergeable w 0 1"
    unfolding mergeable_def using nd ix i0 wf_INDEX_empty [of "w_items w"]
    by (intro exI [of _ nd]) (simp add: isRoot_def INDEX_empty_def items_of_def stocked_def)
  have s: "sees w 1 = {}" using nd ix i0 by (simp add: sees_def isRoot_def INDEX_empty_def items_of_def)
  show thesis
    using that [OF w1(1) w i0 own reach m frame_tree [OF f t2] frame_depth [OF f d2] rd priv(2) c s] .
qed

theorem Commit_merges_branch_witness:
  "(\<exists>w w' rd'. node_add 1 2 demo_branch = Some w \<and> NODE_Commit 2 [] 0 1 w = Some w' \<and> w_nodes w' 0 = Some rd' \<and>
    items_of (n_index rd') = {2, 3} \<and> n_children rd' = [] \<and> BelongsTo (w_items w' 2) (Some (OwnerNode 0))) \<and>
   (\<exists>w1 w2 w w' rd'. node_add 0 2 demo_world = Some w1 \<and> NODE_Branch 0 1 w1 = Some w2 \<and> NODE_Remove [] 1 2 w2 = Some w \<and>
    items_at w 0 = {2, 3} \<and> BelongsTo (w_items w 3) (Some (OwnerItem 2)) \<and> NODE_Commit 2 [] 0 1 w = Some w' \<and>
    w_nodes w' 0 = Some rd' \<and> items_of (n_index rd') = {} \<and> linked None (n_joints rd') = (\<lambda>t. {}))"
proof (rule conjI)
  show "\<exists>w w' rd'. node_add 1 2 demo_branch = Some w \<and> NODE_Commit 2 [] 0 1 w = Some w' \<and> w_nodes w' 0 = Some rd' \<and>
    items_of (n_index rd') = {2, 3} \<and> n_children rd' = [] \<and> BelongsTo (w_items w' 2) (Some (OwnerNode 0))"
  proof (rule demo_commit_add)
    fix w rd assume w: "node_add 1 2 demo_branch = Some w" and a: "root_reach [] 0 w" "mergeable w 0 1" "tree_ok w"
      "depth_bound w 1" "w_nodes w 0 = Some rd" and d: "n_depth rd = 0"
      and b: "holes_private (w_items w)" "garbage_clean w" and s: "sees w 1 = {2, 3}" "items_at w 1 = {2, 3}"
    from Commit_merges_branch [OF a _ b, of 2] d s obtain w' rd' where w':
      "NODE_Commit 2 [] 0 1 w = Some w'" "w_nodes w' 0 = Some rd'" "items_of (n_index rd') = {2, 3}" "n_children rd' = []"
      "\<forall>i. i \<in> {2, 3} \<longrightarrow> BelongsTo (w_items w' i) (Some (OwnerNode 0)) \<or> i \<notin> {2, 3}" by (auto 0 3)
    with w show ?thesis by auto
  qed
  show "\<exists>w1 w2 w w' rd'. node_add 0 2 demo_world = Some w1 \<and> NODE_Branch 0 1 w1 = Some w2 \<and> NODE_Remove [] 1 2 w2 = Some w \<and>
    items_at w 0 = {2, 3} \<and> BelongsTo (w_items w 3) (Some (OwnerItem 2)) \<and> NODE_Commit 2 [] 0 1 w = Some w' \<and>
    w_nodes w' 0 = Some rd' \<and> items_of (n_index rd') = {} \<and> linked None (n_joints rd') = (\<lambda>t. {})"
  proof (rule demo_commit_remove)
    fix w1 w2 w rd assume w: "node_add 0 2 demo_world = Some w1" "NODE_Branch 0 1 w1 = Some w2" "NODE_Remove [] 1 2 w2 = Some w"
      "items_at w 0 = {2, 3}" "m_owner (w_items w 3) = Some (OwnerItem 2)"
      and a: "root_reach [] 0 w" "mergeable w 0 1" "tree_ok w" "depth_bound w 1" "w_nodes w 0 = Some rd" and d: "n_depth rd = 0"
      and b: "holes_private (w_items w)" "garbage_clean w" and s: "sees w 1 = {}"
    from Commit_merges_branch [OF a _ b, of 2] d s obtain w' rd' where
      "NODE_Commit 2 [] 0 1 w = Some w'" "w_nodes w' 0 = Some rd'" "items_of (n_index rd') = {}"
      "linked None (n_joints rd') = (\<lambda>t. {})" by auto
    with w show ?thesis by (auto simp: BelongsTo_def)
  qed
qed

end
