(* ===== verification/Richio.thy ===== *)
theory Richio
  imports Prelude
begin

text \<open>
  The line readers and the output formatter of \<^verbatim>\<open>include/richio.h\<close> and \<^verbatim>\<open>common/richio.cpp\<close>.

  A \<open>LINE_READER\<close> has the line that it read last, its line number, and the capacity of its buffer;
  the text that is left to read is that of a string (\<open>STRING_LINE_READER\<close>: all of the text and an index
  into it) or of a file (\<open>FILE_LINE_READER\<close>: the bytes that the stream still holds). Texts are lists of
  bytes. An exception is a value of \<open>RICH_ERROR\<close>. The lemmas show that a reader hands out its text line
  by line and never writes past its buffer.
\<close>

section \<open>Characters\<close>

abbreviation NL :: char where "NL \<equiv> CHR 0x0A"
abbreviation CR :: char where "CR \<equiv> CHR 0x0D"
abbreviation TAB :: char where "TAB \<equiv> CHR 0x09"
abbreviation NUL :: char where "NUL \<equiv> CHR 0x00"
abbreviation QUOTE :: char where "QUOTE \<equiv> CHR 0x22"
abbreviation BACKSLASH :: char where "BACKSLASH \<equiv> CHR 0x5C"

section \<open>Line readers\<close>

text \<open>An error has its message and, for a parse error, the line number and the offset in the line.\<close>

datatype RICH_ERROR = Io_Error string | Parse_Error string nat int

datatype INPUT = StringInput string nat | FileInput string

record LINE_READER =
  rd_length :: nat
  rd_lineNum :: nat
  rd_line :: string
  rd_capacity :: nat
  rd_maxLineLength :: nat
  rd_source :: string
  rd_input :: INPUT

definition LINE_READER_LINE_DEFAULT_MAX :: nat where "LINE_READER_LINE_DEFAULT_MAX = 1000000"
definition LINE_READER_LINE_INITIAL_SIZE :: nat where "LINE_READER_LINE_INITIAL_SIZE = 5000"

definition LINE_READER_make :: "nat \<Rightarrow> string \<Rightarrow> nat \<Rightarrow> INPUT \<Rightarrow> LINE_READER" where
  "LINE_READER_make aMaxLineLength aSource aStartingLineNumber inp =
     \<lparr> rd_length = 0, rd_lineNum = aStartingLineNumber, rd_line = [],
       rd_capacity = (if aMaxLineLength \<noteq> 0
                      then if LINE_READER_LINE_INITIAL_SIZE > aMaxLineLength + 1 then aMaxLineLength + 1
                           else LINE_READER_LINE_INITIAL_SIZE
                      else 0),
       rd_maxLineLength = aMaxLineLength, rd_source = aSource, rd_input = inp \<rparr>"

definition expandCapacity :: "nat \<Rightarrow> nat \<Rightarrow> nat \<Rightarrow> nat" where
  "expandCapacity aMaxLineLength m_capacity aNewsize =
     (let aNewsize = (if aNewsize > aMaxLineLength + 1 then aMaxLineLength + 1 else aNewsize)
      in if aNewsize > m_capacity then aNewsize else m_capacity)"

definition FILE_LINE_READER_make :: "string \<Rightarrow> string \<Rightarrow> nat \<Rightarrow> nat \<Rightarrow> LINE_READER" where
  "FILE_LINE_READER_make aFile aFileName aStartingLineNumber aMaxLineLength =
     LINE_READER_make aMaxLineLength aFileName aStartingLineNumber (FileInput aFile)"

definition STRING_LINE_READER_make :: "string \<Rightarrow> string \<Rightarrow> LINE_READER" where
  "STRING_LINE_READER_make aString aSource =
     LINE_READER_make LINE_READER_LINE_DEFAULT_MAX aSource 0 (StringInput aString 0)"

text \<open>A copy goes on from where the other reader is, with an empty buffer.\<close>

definition STRING_LINE_READER_copy :: "LINE_READER \<Rightarrow> LINE_READER" where
  "STRING_LINE_READER_copy aStartingPoint =
     LINE_READER_make LINE_READER_LINE_DEFAULT_MAX (rd_source aStartingPoint) (rd_lineNum aStartingPoint)
       (rd_input aStartingPoint)"

text \<open>The length of the next line with its newline, if it has one.\<close>

fun line_length :: "string \<Rightarrow> nat" where
  "line_length [] = 0"
| "line_length (c # cs) = (if c = NL then 1 else Suc (line_length cs))"

definition STRING_ReadLine :: "string \<Rightarrow> nat \<Rightarrow> LINE_READER \<Rightarrow> RICH_ERROR + LINE_READER" where
  "STRING_ReadLine m_lines m_ndx rd =
     (let new_length = line_length (drop m_ndx m_lines)
      in if new_length \<noteq> 0 \<and> new_length \<ge> rd_maxLineLength rd then Inl (Io_Error ''Line length exceeded'')
         else Inr (rd\<lparr>
           rd_capacity := (if new_length \<noteq> 0 \<and> new_length + 1 > rd_capacity rd
                           then expandCapacity (rd_maxLineLength rd) (rd_capacity rd) (new_length + 1)
                           else rd_capacity rd),
           rd_line := take new_length (drop m_ndx m_lines), rd_length := new_length,
           rd_lineNum := rd_lineNum rd + 1, rd_input := StringInput m_lines (m_ndx + new_length) \<rparr>))"

text \<open>The byte loop: the bytes of the line so far, the stream and the capacity.\<close>

fun FILE_loop :: "nat \<Rightarrow> string \<Rightarrow> string \<Rightarrow> nat \<Rightarrow> RICH_ERROR + (string \<times> string \<times> nat)" where
  "FILE_loop maxLen line [] cap =
     (if length line \<ge> maxLen then Inl (Io_Error ''Maximum line length exceeded'')
      else Inr (line, [], if length line \<ge> cap then expandCapacity maxLen cap (cap * 2) else cap))"
| "FILE_loop maxLen line (cc # fp) cap =
     (if length line \<ge> maxLen then Inl (Io_Error ''Maximum line length exceeded'')
      else let cap = (if length line \<ge> cap then expandCapacity maxLen cap (cap * 2) else cap)
           in if cc = NL then Inr (line @ [cc], fp, cap) else FILE_loop maxLen (line @ [cc]) fp cap)"

definition FILE_ReadLine :: "string \<Rightarrow> LINE_READER \<Rightarrow> RICH_ERROR + LINE_READER" where
  "FILE_ReadLine m_fp rd =
     (case FILE_loop (rd_maxLineLength rd) [] m_fp (rd_capacity rd) of
        Inl e \<Rightarrow> Inl e
      | Inr (line, fp, cap) \<Rightarrow> Inr (rd\<lparr> rd_line := line, rd_length := length line, rd_capacity := cap,
          rd_lineNum := rd_lineNum rd + 1, rd_input := FileInput fp \<rparr>))"

definition ReadLine :: "LINE_READER \<Rightarrow> RICH_ERROR + LINE_READER" where
  "ReadLine rd =
     (case rd_input rd of
        StringInput m_lines m_ndx \<Rightarrow> STRING_ReadLine m_lines m_ndx rd
      | FileInput m_fp \<Rightarrow> FILE_ReadLine m_fp rd)"

text \<open>What is left to read.\<close>

fun unread_input :: "INPUT \<Rightarrow> string" where
  "unread_input (StringInput m_lines m_ndx) = drop m_ndx m_lines"
| "unread_input (FileInput m_fp) = m_fp"

definition unread :: "LINE_READER \<Rightarrow> string" where
  "unread rd = unread_input (rd_input rd)"

section \<open>The output formatter\<close>

text \<open>The characters that make a token need quotes.\<close>

fun needs_quote :: "bool \<Rightarrow> string \<Rightarrow> bool" where
  "needs_quote isFirst [] = False"
| "needs_quote isFirst (c # cs) =
     (if c \<in> set [TAB, CHR '' '', CHR ''('', CHR '')'', CHR ''%'', CHR ''{'', CHR ''}''] then True
      else if \<not> isFirst \<and> c = CHR ''-'' then True
      else needs_quote False cs)"

definition GetQuoteChar :: "string \<Rightarrow> string \<Rightarrow> string" where
  "GetQuoteChar wrapee quote_char =
     (if wrapee \<noteq> [] \<and> hd wrapee = CHR ''#'' then quote_char
      else if wrapee = [] then quote_char
      else if needs_quote True wrapee then quote_char else [])"

fun Quotes_body :: "string \<Rightarrow> string" where
  "Quotes_body [] = []"
| "Quotes_body (c # cs) =
     (if c = NL then [BACKSLASH, CHR ''n'']
      else if c = CR then [BACKSLASH, CHR ''r'']
      else if c = BACKSLASH then [BACKSLASH, BACKSLASH]
      else if c = QUOTE then [BACKSLASH, QUOTE]
      else [c]) @ Quotes_body cs"

definition Quotes :: "string \<Rightarrow> string" where
  "Quotes aWrapee = QUOTE # Quotes_body aWrapee @ [QUOTE]"

text \<open>
  \<^verbatim>\<open>Print( nestLevel, ... )\<close> writes two blanks per level and then the formatted text, here given.
\<close>

definition NESTWIDTH :: nat where "NESTWIDTH = 2"

definition OUT_Print :: "nat \<Rightarrow> string \<Rightarrow> string \<Rightarrow> string \<times> nat" where
  "OUT_Print nestLevel text out =
     (let s = concat (replicate nestLevel (replicate NESTWIDTH (CHR '' ''))) @ text in (out @ s, length s))"

definition isspace :: "char \<Rightarrow> bool" where
  "isspace c \<longleftrightarrow> c \<in> set [CHR '' '', TAB, NL, CHR 0x0B, CHR 0x0C, CR]"

definition StripUseless :: "string \<Rightarrow> string" where
  "StripUseless m_mystring =
     filter (\<lambda>c. \<not> isspace c \<and> c \<noteq> CHR '')'' \<and> c \<noteq> CHR ''('' \<and> c \<noteq> QUOTE) m_mystring"

section \<open>Reading lines\<close>

lemma line_length_le: "line_length cs \<le> length cs"
  by (induction cs) auto

lemma line_length_min [simp]: "min (length cs) (line_length cs) = line_length cs"
  using line_length_le [of cs] by simp

lemma line_length_0 [simp]: "line_length cs = 0 \<longleftrightarrow> cs = []"
  by (cases cs) auto

lemma line_length_pos [simp]: "0 < line_length cs \<longleftrightarrow> cs \<noteq> []"
  by (cases cs) auto

lemma FILE_loop_append:
  assumes "FILE_loop maxLen line fp cap = Inr (line', fp', cap')"
  shows "line' = line @ take (line_length fp) fp \<and> fp' = drop (line_length fp) fp"
  using assms
proof (induction maxLen line fp cap rule: FILE_loop.induct)
  case (2 maxLen line cc fp cap)
  then show ?case by (auto simp: Let_def split: if_splits)
qed (auto split: if_splits)

text \<open>Whichever reader it is, a line read is the next line of its text.\<close>

lemma ReadLine_spec:
  assumes "ReadLine rd = Inr rd'"
  shows "rd_line rd' = take (line_length (unread rd)) (unread rd)" "rd_length rd' = line_length (unread rd)"
    "unread rd' = drop (line_length (unread rd)) (unread rd)" "rd_lineNum rd' = rd_lineNum rd + 1"
    "rd_maxLineLength rd' = rd_maxLineLength rd" "rd_source rd' = rd_source rd"
  using assms FILE_loop_append [of "rd_maxLineLength rd" "[]" "unread rd" "rd_capacity rd"] line_length_le [of "unread rd"]
  by (auto simp: ReadLine_def STRING_ReadLine_def FILE_ReadLine_def unread_def Let_def add.commute min_def
      split: INPUT.splits if_splits sum.splits prod.splits)

text \<open>No byte is written past the capacity of the buffer, which has room for the final nul.\<close>

definition buffer_ok :: "LINE_READER \<Rightarrow> bool" where
  "buffer_ok rd \<longleftrightarrow> 0 < rd_capacity rd \<and> rd_capacity rd \<le> rd_maxLineLength rd + 1 \<and>
     rd_length rd \<le> rd_capacity rd \<and> rd_length rd \<le> rd_maxLineLength rd"

lemma expandCapacity_grows:
  assumes "len < m" and "0 < cap" and "cap \<le> m + 1" and "cap \<le> len \<Longrightarrow> len = cap"
  shows "let c = (if cap \<le> len then expandCapacity m cap (cap * 2) else cap) in len < c \<and> c \<le> m + 1"
  using assms by (auto simp: expandCapacity_def Let_def)

lemma FILE_loop_buffer:
  assumes "FILE_loop m line fp cap = Inr (line', fp', cap')" and "0 < cap" "cap \<le> m + 1" "length line \<le> cap"
  shows "0 < cap' \<and> cap' \<le> m + 1 \<and> length line' \<le> cap' \<and> length line' \<le> m"
  using assms
proof (induction m line fp cap rule: FILE_loop.induct)
  case (1 m line cap)
  then show ?case using expandCapacity_grows [of "length line" m cap] by (auto simp: Let_def split: if_splits)
next
  case (2 m line cc fp cap)
  let ?c = "if cap \<le> length line then expandCapacity m cap (cap * 2) else cap"
  have len: "length line < m" using 2(2) by (auto split: if_splits)
  then have c: "length line < ?c" "?c \<le> m + 1" using expandCapacity_grows [of "length line" m cap] 2(3-5) by (auto simp: Let_def)
  show ?case
  proof (cases "cc = NL")
    case True
    then show ?thesis using 2(2) c len by (auto simp: Let_def split: if_splits)
  next
    case False
    then have "FILE_loop m (line @ [cc]) fp ?c = Inr (line', fp', cap')" using 2(2) len by (auto simp: Let_def not_le)
    then show ?thesis using 2(1) [OF _ refl False] c len by (auto simp: not_le)
  qed
qed

lemma ReadLine_buffer:
  assumes "ReadLine rd = Inr rd'" and "buffer_ok rd"
  shows "buffer_ok rd'"
proof (cases "rd_input rd")
  case (StringInput m_lines m_ndx)
  then show ?thesis using assms
    by (auto simp: ReadLine_def STRING_ReadLine_def buffer_ok_def Let_def expandCapacity_def split: if_splits)
next
  case (FileInput fp)
  from assms(1) obtain line fp' cap where
    l: "FILE_loop (rd_maxLineLength rd) [] fp (rd_capacity rd) = Inr (line, fp', cap)" "rd_line rd' = line"
    "rd_length rd' = length line" "rd_capacity rd' = cap" "rd_maxLineLength rd' = rd_maxLineLength rd"
    using FileInput by (auto simp: ReadLine_def FILE_ReadLine_def split: sum.splits)
  from FILE_loop_buffer [OF l(1)] assms(2) l(3-5) show ?thesis by (auto simp: buffer_ok_def)
qed

end
