(* ===== verification/DsnLexer.thy ===== *)
theory DsnLexer
  imports Richio "HOL-Library.Sublist"
begin

text \<open>
  \<open>DSNLEXER\<close> of \<^verbatim>\<open>include/dsnlexer.h\<close> and \<^verbatim>\<open>common/dsnlexer.cpp\<close>, the lexer of the s-expression files.

  The lexer holds a stack of line readers, the current one first, the line that it reads from as
  the text of the buffer with the offsets \<open>next\<close> and \<open>limit\<close>, its modes and the current token. A scan
  works on the rest of the line; the offset of a position is \<open>limit\<close> minus the length of what is
  left there. Tokens are \<^verbatim>\<open>int\<close>s, the syntactic ones negative. \<open>SyncLineReaderWith\<close>, which shares the
  buffer of another lexer, and the conversion to \<^verbatim>\<open>double\<close> are left out.
\<close>

section \<open>Tokens and characters\<close>

definition DSN_NONE :: int where "DSN_NONE = - 12"
definition DSN_BAR :: int where "DSN_BAR = - 11"
definition DSN_COMMENT :: int where "DSN_COMMENT = - 10"
definition DSN_STRING_QUOTE :: int where "DSN_STRING_QUOTE = - 9"
definition DSN_QUOTE_DEF :: int where "DSN_QUOTE_DEF = - 8"
definition DSN_DASH :: int where "DSN_DASH = - 7"
definition DSN_SYMBOL :: int where "DSN_SYMBOL = - 6"
definition DSN_NUMBER :: int where "DSN_NUMBER = - 5"
definition DSN_RIGHT :: int where "DSN_RIGHT = - 4"
definition DSN_LEFT :: int where "DSN_LEFT = - 3"
definition DSN_STRING :: int where "DSN_STRING = - 2"
definition DSN_EOF :: int where "DSN_EOF = - 1"

lemmas DSN_defs = DSN_NONE_def DSN_BAR_def DSN_COMMENT_def DSN_STRING_QUOTE_def DSN_QUOTE_DEF_def DSN_DASH_def
  DSN_SYMBOL_def DSN_NUMBER_def DSN_RIGHT_def DSN_LEFT_def DSN_STRING_def DSN_EOF_def

definition isSpace :: "char \<Rightarrow> bool" where
  "isSpace cc \<longleftrightarrow> cc \<in> set [CHR '' '', NL, CR, TAB, NUL]"

definition isDigit :: "char \<Rightarrow> bool" where
  "isDigit cc \<longleftrightarrow> of_char (CHR ''0'') \<le> (of_char cc :: nat) \<and> (of_char cc :: nat) \<le> of_char (CHR ''9'')"

definition isSep :: "char \<Rightarrow> bool" where
  "isSep cc \<longleftrightarrow> isSpace cc \<or> cc = CHR ''('' \<or> cc = CHR '')'' \<or> cc = CHR ''|''"

text \<open>The scan of a number: an optional sign, digits, a point and digits, an exponent.\<close>

definition skip_sign :: "string \<Rightarrow> string" where
  "skip_sign cp = (if cp \<noteq> [] \<and> hd cp \<in> set ''-+'' then tl cp else cp)"

definition isNumber :: "string \<Rightarrow> bool" where
  "isNumber cp =
     (let cp = skip_sign cp;
          saw = (takeWhile isDigit cp \<noteq> []); cp = dropWhile isDigit cp;
          (saw, cp) = (if cp \<noteq> [] \<and> hd cp = CHR ''.''
                       then (saw \<or> takeWhile isDigit (tl cp) \<noteq> [], dropWhile isDigit (tl cp)) else (saw, cp));
          (saw, cp) = (if saw \<and> cp \<noteq> [] \<and> hd cp \<in> set ''Ee''
                       then let cp = skip_sign (tl cp) in (takeWhile isDigit cp \<noteq> [], dropWhile isDigit cp)
                       else (saw, cp))
      in saw \<and> cp = [])"

section \<open>State\<close>

record DSNLEXER =
  dl_readerStack :: "LINE_READER list"
  dl_start :: string
  dl_next :: nat
  dl_limit :: nat
  dl_specctraMode :: bool
  dl_stringDelimiter :: char
  dl_space_in_quoted_tokens :: bool
  dl_commentsAreTokens :: bool
  dl_prevTok :: int
  dl_curOffset :: int
  dl_curTok :: int
  dl_curText :: string
  dl_keywords :: "string list"
  dl_keywordsLookup :: "(string \<rightharpoonup> int) option"

definition DSNLEXER_init :: "DSNLEXER \<Rightarrow> DSNLEXER" where
  "DSNLEXER_init lx = lx\<lparr> dl_curTok := DSN_NONE, dl_prevTok := DSN_NONE, dl_stringDelimiter := QUOTE,
     dl_specctraMode := False, dl_space_in_quoted_tokens := False, dl_commentsAreTokens := False,
     dl_curOffset := 0 \<rparr>"

definition PushReader :: "LINE_READER \<Rightarrow> DSNLEXER \<Rightarrow> DSNLEXER" where
  "PushReader aLineReader lx = lx\<lparr> dl_readerStack := aLineReader # dl_readerStack lx,
     dl_start := rd_line aLineReader, dl_limit := 0, dl_next := 0 \<rparr>"

text \<open>Popping the last reader leaves \<open>next\<close> where it was, in the buffer of the popped reader.\<close>

definition PopReader :: "DSNLEXER \<Rightarrow> LINE_READER option \<times> DSNLEXER" where
  "PopReader lx =
     (case dl_readerStack lx of
        [] \<Rightarrow> (None, lx)
      | ret # rest \<Rightarrow> (Some ret,
          case rest of
            reader # _ \<Rightarrow> lx\<lparr> dl_readerStack := rest, dl_start := rd_line reader, dl_limit := 0, dl_next := 0 \<rparr>
          | [] \<Rightarrow> lx\<lparr> dl_readerStack := [], dl_start := [], dl_limit := 0 \<rparr>))"

definition DSNLEXER_blank :: "string list \<Rightarrow> (string \<rightharpoonup> int) option \<Rightarrow> DSNLEXER" where
  "DSNLEXER_blank aKeywordTable aKeywordMap =
     \<lparr> dl_readerStack = [], dl_start = [], dl_next = 0, dl_limit = 0, dl_specctraMode = False,
       dl_stringDelimiter = QUOTE, dl_space_in_quoted_tokens = False, dl_commentsAreTokens = False,
       dl_prevTok = DSN_NONE, dl_curOffset = 0, dl_curTok = DSN_NONE, dl_curText = [],
       dl_keywords = aKeywordTable, dl_keywordsLookup = aKeywordMap \<rparr>"

definition DSNLEXER_file :: "string list \<Rightarrow> (string \<rightharpoonup> int) option \<Rightarrow> string \<Rightarrow> string \<Rightarrow> DSNLEXER" where
  "DSNLEXER_file aKeywordTable aKeywordMap aFile aFilename =
     DSNLEXER_init (PushReader (FILE_LINE_READER_make aFile aFilename 0 LINE_READER_LINE_DEFAULT_MAX)
       (DSNLEXER_blank aKeywordTable aKeywordMap))"

definition DSNLEXER_text :: "string list \<Rightarrow> (string \<rightharpoonup> int) option \<Rightarrow> string \<Rightarrow> string \<Rightarrow> DSNLEXER" where
  "DSNLEXER_text aKeywordTable aKeywordMap aClipboardTxt aSource =
     DSNLEXER_init (PushReader
       (STRING_LINE_READER_make aClipboardTxt (if aSource = [] then ''clipboard'' else aSource))
       (DSNLEXER_blank aKeywordTable aKeywordMap))"

definition DSNLEXER_reader :: "string list \<Rightarrow> (string \<rightharpoonup> int) option \<Rightarrow> LINE_READER option \<Rightarrow> DSNLEXER" where
  "DSNLEXER_reader aKeywordTable aKeywordMap aLineReader =
     DSNLEXER_init ((case aLineReader of Some r \<Rightarrow> PushReader r | None \<Rightarrow> id)
       (DSNLEXER_blank aKeywordTable aKeywordMap))"

definition DSNLEXER_sexpr :: "string \<Rightarrow> string \<Rightarrow> DSNLEXER" where
  "DSNLEXER_sexpr aSExpression aSource =
     DSNLEXER_init (PushReader
       (STRING_LINE_READER_make aSExpression (if aSource = [] then ''clipboard'' else aSource))
       (DSNLEXER_blank [] None))"

definition SetSpecctraMode :: "bool \<Rightarrow> DSNLEXER \<Rightarrow> DSNLEXER" where
  "SetSpecctraMode aMode lx =
     (if aMode then lx\<lparr> dl_specctraMode := aMode, dl_space_in_quoted_tokens := True \<rparr>
      else lx\<lparr> dl_specctraMode := aMode, dl_space_in_quoted_tokens := False, dl_stringDelimiter := QUOTE \<rparr>)"

definition InitParserState :: "DSNLEXER \<Rightarrow> DSNLEXER" where
  "InitParserState lx =
     lx\<lparr> dl_curTok := DSN_NONE, dl_prevTok := DSN_NONE, dl_commentsAreTokens := False, dl_curOffset := 0 \<rparr>"

definition SetStringDelimiter :: "char \<Rightarrow> DSNLEXER \<Rightarrow> char \<times> DSNLEXER" where
  "SetStringDelimiter aStringDelimiter lx =
     (dl_stringDelimiter lx,
      if dl_specctraMode lx then lx\<lparr> dl_stringDelimiter := aStringDelimiter \<rparr> else lx)"

definition SetSpaceInQuotedTokens :: "bool \<Rightarrow> DSNLEXER \<Rightarrow> bool \<times> DSNLEXER" where
  "SetSpaceInQuotedTokens val lx =
     (dl_space_in_quoted_tokens lx,
      if dl_specctraMode lx then lx\<lparr> dl_space_in_quoted_tokens := val \<rparr> else lx)"

definition SetCommentsAreTokens :: "bool \<Rightarrow> DSNLEXER \<Rightarrow> bool \<times> DSNLEXER" where
  "SetCommentsAreTokens val lx = (dl_commentsAreTokens lx, lx\<lparr> dl_commentsAreTokens := val \<rparr>)"

definition isStringTerminator :: "DSNLEXER \<Rightarrow> char \<Rightarrow> bool" where
  "isStringTerminator lx cc \<longleftrightarrow>
     \<not> dl_space_in_quoted_tokens lx \<and> cc = CHR '' '' \<or> cc = dl_stringDelimiter lx"

text \<open>The keywords are C strings: a text is looked up as far as its first nul.\<close>

definition findToken :: "DSNLEXER \<Rightarrow> string \<Rightarrow> int" where
  "findToken lx tok =
     (case dl_keywordsLookup lx of
        None \<Rightarrow> DSN_SYMBOL
      | Some m \<Rightarrow> (case m (takeWhile (\<lambda>c. c \<noteq> NUL) tok) of Some t \<Rightarrow> t | None \<Rightarrow> DSN_SYMBOL))"

definition GetCurStrAsToken :: "DSNLEXER \<Rightarrow> int" where
  "GetCurStrAsToken lx = findToken lx (dl_curText lx)"

definition DSN_Syntax :: "int \<Rightarrow> string" where
  "DSN_Syntax aTok =
     (if aTok = DSN_NONE then ''NONE''
      else if aTok = DSN_STRING_QUOTE then ''string_quote''
      else if aTok = DSN_QUOTE_DEF then ''quoted text delimiter''
      else if aTok = DSN_DASH then ''-''
      else if aTok = DSN_SYMBOL then ''symbol''
      else if aTok = DSN_NUMBER then ''number''
      else if aTok = DSN_RIGHT then '')''
      else if aTok = DSN_LEFT then ''(''
      else if aTok = DSN_STRING then ''quoted string''
      else if aTok = DSN_EOF then ''end of input''
      else if aTok = DSN_BAR then ''|''
      else ''???'')"

definition GetTokenText :: "DSNLEXER \<Rightarrow> int \<Rightarrow> string" where
  "GetTokenText lx aTok =
     (if aTok < 0 then DSN_Syntax aTok
      else if nat aTok < length (dl_keywords lx) then dl_keywords lx ! nat aTok
      else ''token too big'')"

definition GetTokenString :: "DSNLEXER \<Rightarrow> int \<Rightarrow> string" where
  "GetTokenString lx aTok = [CHR 0x27] @ GetTokenText lx aTok @ [CHR 0x27]"

definition DSN_IsSymbol :: "int \<Rightarrow> bool" where
  "DSN_IsSymbol aTok \<longleftrightarrow> aTok = DSN_SYMBOL \<or> aTok = DSN_STRING \<or> aTok \<ge> 0"

text \<open>The line number and the offset that an error reports; without a reader there is no line.\<close>

definition CurLineNumber :: "DSNLEXER \<Rightarrow> nat" where
  "CurLineNumber lx = (case dl_readerStack lx of [] \<Rightarrow> 0 | reader # _ \<Rightarrow> rd_lineNum reader)"

definition CurOffset :: "DSNLEXER \<Rightarrow> int" where
  "CurOffset lx = dl_curOffset lx + 1"

definition parse_error :: "string \<Rightarrow> DSNLEXER \<Rightarrow> RICH_ERROR" where
  "parse_error msg lx = Parse_Error msg (CurLineNumber lx) (CurOffset lx)"

definition DSN_Expecting :: "int \<Rightarrow> DSNLEXER \<Rightarrow> RICH_ERROR" where
  "DSN_Expecting aTok lx = parse_error (''Expecting '' @ GetTokenString lx aTok) lx"

definition DSN_Expecting_text :: "string \<Rightarrow> DSNLEXER \<Rightarrow> RICH_ERROR" where
  "DSN_Expecting_text text lx = parse_error (''Expecting '' @ [CHR 0x27] @ text @ [CHR 0x27]) lx"

definition DSN_Unexpected :: "int \<Rightarrow> DSNLEXER \<Rightarrow> RICH_ERROR" where
  "DSN_Unexpected aTok lx = parse_error (''Unexpected '' @ GetTokenString lx aTok) lx"

definition DSN_Unexpected_text :: "string \<Rightarrow> DSNLEXER \<Rightarrow> RICH_ERROR" where
  "DSN_Unexpected_text text lx = parse_error (''Unexpected '' @ [CHR 0x27] @ text @ [CHR 0x27]) lx"

definition DSN_Duplicate :: "int \<Rightarrow> DSNLEXER \<Rightarrow> RICH_ERROR" where
  "DSN_Duplicate aTok lx = parse_error (GetTokenString lx aTok @ '' is a duplicate'') lx"

section \<open>Scanning one token\<close>

definition isxdigit :: "char \<Rightarrow> bool" where
  "isxdigit c \<longleftrightarrow> c \<in> set ''0123456789abcdefABCDEF''"

definition isOctal :: "char \<Rightarrow> bool" where
  "isOctal c \<longleftrightarrow> c \<in> set ''01234567''"

definition digit_value :: "char \<Rightarrow> nat" where
  "digit_value c =
     (if c \<in> set ''0123456789'' then of_char c - 48
      else if c \<in> set ''abcdef'' then of_char c - 87 else of_char c - 55)"

text \<open>\<^verbatim>\<open>(char) strtoul( digits, nullptr, base )\<close>\<close>

definition strtoul_char :: "nat \<Rightarrow> string \<Rightarrow> char" where
  "strtoul_char base ds = char_of (foldl (\<lambda>n c. n * base + digit_value c) 0 ds mod 256)"

text \<open>What follows a backslash: the character it stands for and the rest.\<close>

fun unescape :: "char \<Rightarrow> string \<Rightarrow> char \<times> string" where
  "unescape e r =
     (if e = QUOTE \<or> e = BACKSLASH then (e, r)
      else if e = CHR ''a'' then (CHR 0x07, r)
      else if e = CHR ''b'' then (CHR 0x08, r)
      else if e = CHR ''f'' then (CHR 0x0C, r)
      else if e = CHR ''n'' then (NL, r)
      else if e = CHR ''r'' then (CR, r)
      else if e = CHR ''t'' then (TAB, r)
      else if e = CHR ''v'' then (CHR 0x0B, r)
      else if e = CHR ''x'' then
        (let ds = takeWhile isxdigit (take 2 r)
         in (if ds \<noteq> [] then strtoul_char 16 ds else CHR ''x'', drop (length ds) r))
      else
        (let ds = takeWhile isOctal (take 3 (e # r))
         in (if ds \<noteq> [] then strtoul_char 8 ds else BACKSLASH, drop (length ds) (e # r))))"

lemma unescape_length: "length (snd (unescape e r)) \<le> Suc (length r)"
  by (auto simp: Let_def)

text \<open>The loop over a quoted string: its text and the rest, or the text so far when the line ends.\<close>

function string_loop :: "string \<Rightarrow> string \<Rightarrow> string + (string \<times> string)" where
  "string_loop acc [] = Inl acc"
| "string_loop acc (c # r) =
     (if c = BACKSLASH then
        (case r of
           [] \<Rightarrow> Inl acc
         | e # r' \<Rightarrow> (case unescape e r' of (ch, rest) \<Rightarrow> string_loop (acc @ [ch]) rest))
      else if c = QUOTE then Inr (acc, r)
      else string_loop (acc @ [c]) r)"
  by pat_completeness auto
termination
proof (relation "measure (\<lambda>(acc, s). length s)", goal_cases)
  case (2 acc c r e r' ch rest)
  then have "rest = snd (unescape e r')" by (metis snd_conv)
  then show ?case using 2 unescape_length [of e r'] by (auto simp del: unescape.simps)
qed auto

type_synonym scanned = "int \<times> string \<times> string"

definition scan_plain :: "DSNLEXER \<Rightarrow> string \<Rightarrow> scanned" where
  "scan_plain lx cur =
     (let text = takeWhile (\<lambda>c. \<not> isSep c) cur
      in (if isNumber text then DSN_NUMBER
          else if dl_specctraMode lx \<and> text = ''string_quote'' then DSN_STRING_QUOTE
          else findToken lx text,
          text, dropWhile (\<lambda>c. \<not> isSep c) cur))"

definition delimiter_msg :: string where
  "delimiter_msg = ''String delimiter must be a single character of '' @ [CHR 0x27] @ '', '' @ [BACKSLASH, QUOTE] @ '', or $''"

text \<open>
  The token that starts at \<open>cur\<close>, a non-empty rest of the line that does not start with a blank:
  token, text and what is left of the line.
\<close>

definition scan_token :: "DSNLEXER \<Rightarrow> string \<Rightarrow> RICH_ERROR + scanned" where
  "scan_token lx cur =
     (let c = hd cur; off = dl_limit lx - length cur
      in if c = CHR ''('' then Inr (DSN_LEFT, [c], tl cur)
         else if c = CHR '')'' then Inr (DSN_RIGHT, [c], tl cur)
         else if c = CHR ''|'' then Inr (DSN_BAR, [c], tl cur)
         else if \<not> dl_specctraMode lx then
           (if c = dl_stringDelimiter lx
            then (case string_loop [] (tl cur) of
                    Inl acc \<Rightarrow> Inl (Parse_Error ''Un-terminated delimited string'' (CurLineNumber lx)
                                     (int off + 1 + int (length acc)))
                  | Inr (text, rest) \<Rightarrow> Inr (DSN_STRING, text, rest))
            else Inr (scan_plain lx cur))
         else if c = CHR ''-'' \<and> off > 0 \<and> \<not> isSpace (dl_start lx ! (off - 1)) then Inr (DSN_DASH, ''-'', tl cur)
         else if dl_prevTok lx = DSN_STRING_QUOTE then
           (if c \<notin> set [CHR 0x27, CHR ''$'', QUOTE] then Inl (parse_error delimiter_msg lx)
            else if tl cur \<noteq> [] \<and> \<not> isSep (hd (tl cur)) then Inl (parse_error delimiter_msg lx)
            else Inr (DSN_QUOTE_DEF, [c], tl cur))
         else if c = dl_stringDelimiter lx then
           (case dropWhile (\<lambda>c. \<not> isStringTerminator lx c) (tl cur) of
              [] \<Rightarrow> Inl (parse_error ''Un-terminated delimited string'' lx)
            | _ # rest \<Rightarrow> Inr (DSN_STRING, takeWhile (\<lambda>c. \<not> isStringTerminator lx c) (tl cur), rest))
         else Inr (scan_plain lx cur))"

section \<open>\<open>NextTok\<close>\<close>

definition dsn_readLine :: "DSNLEXER \<Rightarrow> RICH_ERROR + (nat \<times> DSNLEXER)" where
  "dsn_readLine lx =
     (case dl_readerStack lx of
        [] \<Rightarrow> Inr (0, lx)
      | reader # rest \<Rightarrow> (case ReadLine reader of
          Inl e \<Rightarrow> Inl e
        | Inr reader' \<Rightarrow> Inr (rd_length reader', lx\<lparr> dl_readerStack := reader' # rest, dl_start := rd_line reader',
            dl_next := 0, dl_limit := rd_length reader' \<rparr>)))"

text \<open>What reading lines up to a token ends with: the end of the input, a comment, the rest of a line.\<close>

datatype found = At_eof | At_comment | At_token string

definition lexer_unread :: "DSNLEXER \<Rightarrow> string" where
  "lexer_unread lx = (case dl_readerStack lx of [] \<Rightarrow> [] | reader # _ \<Rightarrow> unread reader)"

lemma dsn_readLine_unread:
  assumes "dsn_readLine lx = Inr (len, lx')" and "len \<noteq> 0"
  shows "length (lexer_unread lx') < length (lexer_unread lx)"
proof -
  from assms obtain reader rest reader' where r: "dl_readerStack lx = reader # rest" "ReadLine reader = Inr reader'"
    "len = rd_length reader'" "dl_readerStack lx' = reader' # rest"
    by (auto simp: dsn_readLine_def split: list.splits sum.splits)
  from ReadLine_spec(2,3) [OF r(2)] r(3) assms(2) have
    "unread reader' = drop len (unread reader)" "0 < len" "unread reader \<noteq> []" by auto
  then show ?thesis using r(1,4) by (simp add: lexer_unread_def)
qed

text \<open>What a line holds: a comment, a token, or nothing, so that the next line is read.\<close>

definition line_found :: "DSNLEXER \<Rightarrow> found option" where
  "line_found lx =
     (let cur = dropWhile isSpace (take (dl_limit lx) (dl_start lx))
      in if cur \<noteq> [] \<and> hd cur = CHR ''#''
         then if dl_commentsAreTokens lx then Some At_comment else None
         else if cur = [] then None
         else Some (At_token cur))"

function dsn_L_read :: "DSNLEXER \<Rightarrow> RICH_ERROR + (DSNLEXER \<times> found)" where
  "dsn_L_read lx =
     (case dsn_readLine lx of
        Inl e \<Rightarrow> Inl e
      | Inr (len, lx') \<Rightarrow>
          if len = 0 then Inr (lx', At_eof)
          else (case line_found lx' of None \<Rightarrow> dsn_L_read lx' | Some f \<Rightarrow> Inr (lx', f)))"
  by pat_completeness auto
termination
  by (relation "measure (\<lambda>lx. length (lexer_unread lx))") (auto dest: dsn_readLine_unread)

text \<open>The line of a comment without the characters at its end.\<close>

definition strip_eol :: "string \<Rightarrow> string" where
  "strip_eol s = rev (dropWhile (\<lambda>c. c = NL \<or> c = CR) (rev s))"

text \<open>
  \<open>NextTok\<close> in two steps: finding the start of the token, in this line or a later one, and scanning it.
  At the end of the input \<open>next\<close> stays what it was.
\<close>

definition find_start :: "DSNLEXER \<Rightarrow> RICH_ERROR + (DSNLEXER \<times> found)" where
  "find_start lx =
     (let cur = dropWhile isSpace (drop (dl_next lx) (take (dl_limit lx) (dl_start lx)))
      in if cur = [] then dsn_L_read lx else Inr (lx, At_token cur))"

fun found_exit :: "nat \<Rightarrow> DSNLEXER \<Rightarrow> found \<Rightarrow> RICH_ERROR + (int \<times> DSNLEXER)" where
  "found_exit head lx At_eof =
     Inr (DSN_EOF, lx\<lparr> dl_curTok := DSN_EOF, dl_curOffset := 0, dl_next := head \<rparr>)"
| "found_exit head lx At_comment =
     (let text = strip_eol (take (dl_limit lx) (dl_start lx))
      in Inr (DSN_COMMENT, lx\<lparr> dl_limit := length text, dl_curText := text, dl_curTok := DSN_COMMENT,
           dl_curOffset := 0, dl_next := length text \<rparr>))"
| "found_exit head lx (At_token cur) =
     (case scan_token lx cur of
        Inl e \<Rightarrow> Inl e
      | Inr (tok, text, rest) \<Rightarrow> Inr (tok, lx\<lparr> dl_curText := text, dl_curTok := tok,
          dl_curOffset := int (dl_limit lx - length cur) + (if tok = DSN_STRING then 1 else 0),
          dl_next := dl_limit lx - length rest \<rparr>))"

definition NextTok :: "DSNLEXER \<Rightarrow> RICH_ERROR + (int \<times> DSNLEXER)" where
  "NextTok lx =
     (let head = dl_next lx; lx = lx\<lparr> dl_prevTok := dl_curTok lx \<rparr>
      in if dl_curTok lx = DSN_EOF then Inr (DSN_EOF, lx\<lparr> dl_curOffset := int head \<rparr>)
         else (case find_start lx of
                 Inl e \<Rightarrow> Inl e
               | Inr (lx, f) \<Rightarrow> found_exit head lx f))"

section \<open>Required tokens\<close>

definition Need :: "int \<Rightarrow> DSNLEXER \<Rightarrow> RICH_ERROR + DSNLEXER" where
  "Need aTok lx =
     (case NextTok lx of
        Inl e \<Rightarrow> Inl e
      | Inr (tok, lx) \<Rightarrow> if tok \<noteq> aTok then Inl (DSN_Expecting aTok lx) else Inr lx)"

definition NeedLEFT :: "DSNLEXER \<Rightarrow> RICH_ERROR + DSNLEXER" where
  "NeedLEFT = Need DSN_LEFT"

definition NeedRIGHT :: "DSNLEXER \<Rightarrow> RICH_ERROR + DSNLEXER" where
  "NeedRIGHT = Need DSN_RIGHT"

definition NeedBAR :: "DSNLEXER \<Rightarrow> RICH_ERROR + DSNLEXER" where
  "NeedBAR = Need DSN_BAR"

definition NeedSYMBOL :: "DSNLEXER \<Rightarrow> RICH_ERROR + (int \<times> DSNLEXER)" where
  "NeedSYMBOL lx =
     (case NextTok lx of
        Inl e \<Rightarrow> Inl e
      | Inr (tok, lx) \<Rightarrow> if \<not> DSN_IsSymbol tok then Inl (DSN_Expecting DSN_SYMBOL lx) else Inr (tok, lx))"

definition NeedSYMBOLorNUMBER :: "DSNLEXER \<Rightarrow> RICH_ERROR + (int \<times> DSNLEXER)" where
  "NeedSYMBOLorNUMBER lx =
     (case NextTok lx of
        Inl e \<Rightarrow> Inl e
      | Inr (tok, lx) \<Rightarrow> if \<not> DSN_IsSymbol tok \<and> tok \<noteq> DSN_NUMBER then Inl (DSN_Expecting_text ''a symbol or number'' lx)
          else Inr (tok, lx))"

definition NeedNUMBER :: "string \<Rightarrow> DSNLEXER \<Rightarrow> RICH_ERROR + (int \<times> DSNLEXER)" where
  "NeedNUMBER aExpectation lx =
     (case NextTok lx of
        Inl e \<Rightarrow> Inl e
      | Inr (tok, lx) \<Rightarrow> if tok \<noteq> DSN_NUMBER
          then Inl (parse_error (''need a number for '' @ [CHR 0x27] @ aExpectation @ [CHR 0x27]) lx)
          else Inr (tok, lx))"

text \<open>A run of comments; the fuel bounds the number of tokens.\<close>

fun comment_loop :: "nat \<Rightarrow> string list \<Rightarrow> DSNLEXER \<Rightarrow> (RICH_ERROR + (string list \<times> DSNLEXER)) option" where
  "comment_loop 0 ret lx = None"
| "comment_loop (Suc fuel) ret lx =
     (case NextTok lx of
        Inl e \<Rightarrow> Some (Inl e)
      | Inr (tok, lx) \<Rightarrow>
          if tok = DSN_COMMENT then comment_loop fuel (ret @ [dl_curText lx]) lx else Some (Inr (ret, lx)))"

text \<open>\<^verbatim>\<open>nullptr\<close> when there is no comment. An exception leaves the setting changed.\<close>

definition ReadCommentLines :: "nat \<Rightarrow> DSNLEXER \<Rightarrow> (RICH_ERROR + (string list option \<times> DSNLEXER)) option" where
  "ReadCommentLines fuel lx =
     (case SetCommentsAreTokens True lx of
        (cmt_setting, lx) \<Rightarrow>
          (case comment_loop fuel [] lx of
             None \<Rightarrow> None
           | Some (Inl e) \<Rightarrow> Some (Inl e)
           | Some (Inr (ret, lx)) \<Rightarrow>
               Some (Inr (if ret = [] then None else Some ret, snd (SetCommentsAreTokens cmt_setting lx)))))"

section \<open>Every token consumes input\<close>

lemma suffix_tl: "suffix (tl s) s"
  by (cases s) (auto simp: suffix_def)

lemma suffix_drop_length: "suffix ys xs \<Longrightarrow> drop (length xs - length ys) xs = ys"
  by (auto simp: suffix_def)

lemma unescape_drop: "\<exists>n. snd (unescape e r) = drop n (e # r)"
proof -
  have "snd (unescape e r) = r \<or> (\<exists>n. snd (unescape e r) = drop n r) \<or> (\<exists>n. snd (unescape e r) = drop n (e # r))"
    unfolding unescape.simps Let_def by (simp only: if_distrib [of snd] snd_conv split: if_split) blast
  then show ?thesis
  proof (elim disjE exE)
    assume "snd (unescape e r) = r"
    then show ?thesis by (intro exI [of _ 1]) (simp del: unescape.simps)
  next
    fix n assume "snd (unescape e r) = drop n r"
    then show ?thesis by (intro exI [of _ "Suc n"]) (simp del: unescape.simps)
  qed blast
qed

lemma suffix_unescape: "suffix (snd (unescape e r)) (e # r)"
  using unescape_drop [of e r] suffix_drop by metis

lemma string_loop_suffix: "string_loop acc s = Inr (text, rest) \<Longrightarrow> suffix rest s \<and> rest \<noteq> s"
proof (induction acc s rule: string_loop.induct)
  case (2 acc c r)
  show ?case
  proof (cases "c = BACKSLASH")
    case True
    with 2(3) obtain e r' where r: "r = e # r'" by (cases r) auto
    obtain ch s' where u: "unescape e r' = (ch, s')" by fastforce
    then have "string_loop (acc @ [ch]) s' = Inr (text, rest)" using 2(3) True r by (simp del: unescape.simps)
    from 2(1) [OF True r u [symmetric] this] have "suffix rest s'" by simp
    moreover have "suffix s' (e # r')" using suffix_unescape [of e r'] u by (simp del: unescape.simps)
    ultimately have "suffix rest r" unfolding r by (rule suffix_order.trans)
    then show ?thesis by (auto simp: suffix_def)
  next
    case False
    then show ?thesis using 2 by (cases "c = QUOTE") (auto simp: suffix_def)
  qed
qed auto

lemma scan_plain_suffix:
  assumes "cur \<noteq> []" and "\<not> isSep (hd cur)"
  shows "suffix (snd (snd (scan_plain lx cur))) cur \<and> snd (snd (scan_plain lx cur)) \<noteq> cur"
proof -
  have "length (dropWhile (\<lambda>c. \<not> isSep c) cur) < length cur"
    using assms length_dropWhile_le [of _ "tl cur"] by (cases cur) (auto simp: less_Suc_eq_le)
  then show ?thesis by (auto simp: scan_plain_def Let_def suffix_dropWhile)
qed

lemma suffix_shorter: "suffix ys xs \<Longrightarrow> ys \<noteq> xs \<Longrightarrow> length ys < length xs"
  by (auto simp: suffix_def)

lemma scan_token_suffix:
  assumes "scan_token lx cur = Inr (tok, text, rest)" and "cur \<noteq> []" and "\<not> isSpace (hd cur)"
  shows "suffix rest cur \<and> length rest < length cur"
proof -
  have tl: "suffix (tl cur) cur" "length (tl cur) < length cur" using suffix_tl assms(2) by auto
  have plain: "suffix rest cur \<and> length rest < length cur" if "scan_plain lx cur = (tok, text, rest)"
    "hd cur \<noteq> CHR ''(''" "hd cur \<noteq> CHR '')''" "hd cur \<noteq> CHR ''|''"
  proof -
    have "\<not> isSep (hd cur)" using that(2-4) assms(3) by (simp add: isSep_def)
    from scan_plain_suffix [OF assms(2) this, of lx] that(1) show ?thesis by (simp add: suffix_shorter)
  qed
  have quoted: "suffix rest cur \<and> length rest < length cur" if "suffix rest (tl cur)"
    using suffix_order.trans [OF that tl(1)] suffix_length_le [OF that] tl(2) by simp
  have drop: "suffix rest (tl cur)" if "dropWhile P (tl cur) = x # rest" for P x
    using suffix_dropWhile [of P "tl cur"] that by (metis suffix_ConsD)
  let ?c = "hd cur" and ?off = "dl_limit lx - length cur"
  consider "?c \<in> {CHR ''('', CHR '')'', CHR ''|''}"
    | "?c \<notin> {CHR ''('', CHR '')'', CHR ''|''}" "\<not> dl_specctraMode lx" "?c = dl_stringDelimiter lx"
    | "?c \<notin> {CHR ''('', CHR '')'', CHR ''|''}" "\<not> dl_specctraMode lx" "?c \<noteq> dl_stringDelimiter lx"
    | "?c \<notin> {CHR ''('', CHR '')'', CHR ''|''}" "dl_specctraMode lx" by blast
  then show ?thesis
  proof cases
    case 1
    then have "rest = tl cur" using assms(1) by (auto simp: scan_token_def Let_def split: if_splits)
    with tl show ?thesis by simp
  next
    case 2
    then have "string_loop [] (tl cur) = Inr (text, rest)"
      using assms(1) by (simp add: scan_token_def Let_def split: sum.splits prod.splits)
    from string_loop_suffix [OF this] show ?thesis by (intro quoted) blast
  next
    case 3
    then show ?thesis using assms(1) by (intro plain) (simp_all add: scan_token_def Let_def)
  next
    case 4
    show ?thesis
    proof (cases "?c = CHR ''-'' \<and> ?off > 0 \<and> \<not> isSpace (dl_start lx ! (?off - 1)) \<or> dl_prevTok lx = DSN_STRING_QUOTE")
      case True
      then have "rest = tl cur" using 4 assms(1) by (auto simp: scan_token_def Let_def split: if_splits)
      with tl show ?thesis by simp
    next
      case False
      show ?thesis
      proof (cases "?c = dl_stringDelimiter lx")
        case True
        then obtain x where "dropWhile (\<lambda>c. \<not> isStringTerminator lx c) (tl cur) = x # rest"
          using 4 False assms(1) by (auto simp: scan_token_def Let_def split: list.splits)
        then show ?thesis by (intro quoted drop)
      next
        case not: False
        then have "scan_plain lx cur = (tok, text, rest)" using 4 False assms(1) by (auto simp: scan_token_def Let_def)
        then show ?thesis using 4(1) by (intro plain) simp_all
      qed
    qed
  qed
qed

text \<open>What the lexer has not yet read: the rest of the line and what the reader still has.\<close>

definition remaining :: "DSNLEXER \<Rightarrow> string" where
  "remaining lx = drop (dl_next lx) (take (dl_limit lx) (dl_start lx)) @ lexer_unread lx"

text \<open>A lexer whose line is that of its reader: the offsets are inside the line.\<close>

definition lexer_wf :: "DSNLEXER \<Rightarrow> bool" where
  "lexer_wf lx \<longleftrightarrow> dl_limit lx \<le> length (dl_start lx)"

lemma dsn_readLine_line:
  assumes "dsn_readLine lx = Inr (len, lx')"
  shows "lexer_unread lx = (if dl_readerStack lx = [] then [] else dl_start lx' @ lexer_unread lx')"
    and "dl_readerStack lx \<noteq> [] \<Longrightarrow> dl_start lx' = take (line_length (lexer_unread lx)) (lexer_unread lx) \<and>
      len = line_length (lexer_unread lx) \<and> dl_limit lx' = length (dl_start lx') \<and> dl_next lx' = 0 \<and>
      length (dl_start lx') = len"
    and "dl_readerStack lx = [] \<Longrightarrow> lx' = lx \<and> len = 0"
    and "dl_readerStack lx' = [] \<longleftrightarrow> dl_readerStack lx = []"
    and "dl_curTok lx' = dl_curTok lx" "dl_specctraMode lx' = dl_specctraMode lx"
      "dl_stringDelimiter lx' = dl_stringDelimiter lx" "dl_keywordsLookup lx' = dl_keywordsLookup lx"
      "dl_commentsAreTokens lx' = dl_commentsAreTokens lx" "dl_prevTok lx' = dl_prevTok lx"
proof -
  have "(dl_readerStack lx = [] \<and> lx' = lx \<and> len = 0) \<or> (\<exists>reader rest reader'. dl_readerStack lx = reader # rest \<and>
      ReadLine reader = Inr reader' \<and> len = rd_length reader' \<and>
      lx' = lx\<lparr> dl_readerStack := reader' # rest, dl_start := rd_line reader', dl_next := 0, dl_limit := rd_length reader' \<rparr>)"
    using assms by (auto simp: dsn_readLine_def split: list.splits sum.splits)
  then show "lexer_unread lx = (if dl_readerStack lx = [] then [] else dl_start lx' @ lexer_unread lx')"
    and "dl_readerStack lx \<noteq> [] \<Longrightarrow> dl_start lx' = take (line_length (lexer_unread lx)) (lexer_unread lx) \<and>
      len = line_length (lexer_unread lx) \<and> dl_limit lx' = length (dl_start lx') \<and> dl_next lx' = 0 \<and>
      length (dl_start lx') = len"
    and "dl_readerStack lx = [] \<Longrightarrow> lx' = lx \<and> len = 0"
    and "dl_readerStack lx' = [] \<longleftrightarrow> dl_readerStack lx = []"
    and "dl_curTok lx' = dl_curTok lx" "dl_specctraMode lx' = dl_specctraMode lx"
      "dl_stringDelimiter lx' = dl_stringDelimiter lx" "dl_keywordsLookup lx' = dl_keywordsLookup lx"
      "dl_commentsAreTokens lx' = dl_commentsAreTokens lx" "dl_prevTok lx' = dl_prevTok lx"
    using ReadLine_spec by (auto simp: lexer_unread_def)
qed

text \<open>Reading up to a token: the end only when nothing is left, otherwise a position in the new line.\<close>

declare dsn_L_read.simps [simp del]

lemma dsn_L_read_found:
  assumes "dsn_L_read lx = Inr (lx', f)"
  shows "(f = At_eof \<longrightarrow> dl_readerStack lx' = [] \<or> lexer_unread lx' = []) \<and>
    (f \<noteq> At_eof \<longrightarrow> dl_limit lx' = length (dl_start lx') \<and> dl_next lx' = 0 \<and> dl_start lx' \<noteq> [] \<and>
      length (dl_start lx' @ lexer_unread lx') \<le> length (lexer_unread lx)) \<and>
    (\<forall>cur. f = At_token cur \<longrightarrow> cur \<noteq> [] \<and> cur = dropWhile isSpace (dl_start lx')) \<and>
    dl_curTok lx' = dl_curTok lx \<and> (lexer_wf lx \<longrightarrow> lexer_wf lx')"
  using assms
proof (induction lx rule: dsn_L_read.induct)
  case (1 lx)
  from 1(2) obtain len lx1 where r: "dsn_readLine lx = Inr (len, lx1)" by (auto simp: dsn_L_read.simps [of lx] split: sum.splits)
  note L = dsn_readLine_line [OF r]
  show ?case
  proof (cases "len = 0")
    case True
    then have "lx' = lx1" "f = At_eof" using 1(2) r by (auto simp: dsn_L_read.simps [of lx])
    then show ?thesis using L True by (cases "dl_readerStack lx = []") (auto simp: lexer_wf_def lexer_unread_def)
  next
    case len: False
    then have stack: "dl_readerStack lx \<noteq> []" using L(3) by auto
    have line: "take (dl_limit lx1) (dl_start lx1) = dl_start lx1" "dl_limit lx1 = length (dl_start lx1)" "dl_next lx1 = 0"
      "dl_start lx1 \<noteq> []" using L(2) [OF stack] len by auto
    have un: "lexer_unread lx = dl_start lx1 @ lexer_unread lx1" using L(1) stack by simp
    show ?thesis
    proof (cases "line_found lx1")
      case None
      then have "dsn_L_read lx1 = Inr (lx', f)" using 1(2) r len by (simp add: dsn_L_read.simps [of lx])
      from 1(1) [OF r refl len None this] show ?thesis using L(5) un line by (auto simp: lexer_wf_def)
    next
      case (Some g)
      then have "lx' = lx1" "f = g" using 1(2) r len by (simp_all add: dsn_L_read.simps [of lx])
      moreover have "g \<noteq> At_eof" "\<forall>cur. g = At_token cur \<longrightarrow> cur \<noteq> [] \<and> cur = dropWhile isSpace (dl_start lx1)"
        using Some line(1) by (auto simp: line_found_def Let_def split: if_splits)
      ultimately show ?thesis using line un L(5) by (auto simp: lexer_wf_def)
    qed
  qed
qed

end
