(* ===== verification/DsnRoundtrip.thy ===== *)
theory DsnRoundtrip
  imports DsnLexer
begin

text \<open>
  What the lexer of \<^verbatim>\<open>common/dsnlexer.cpp\<close> does with a whole text: reading it token by token ends, and a
  text of tokens that \<open>OUTPUTFORMATTER\<close> of \<^verbatim>\<open>common/richio.cpp\<close> wrote is read back token by token.
\<close>

lemma while_split:
  assumes "list_all P s" and "r = [] \<or> \<not> P (hd r)"
  shows "takeWhile P (s @ r) = s" "dropWhile P (s @ r) = r"
  using assms by (induction s; cases r; auto)+

section \<open>Reading to the end\<close>

lemma hd_dropWhile_space: "dropWhile isSpace s \<noteq> [] \<Longrightarrow> \<not> isSpace (hd (dropWhile isSpace s))"
  using hd_dropWhile by blast

text \<open>Every token but the end shortens what remains.\<close>

lemma NextTok_progress:
  assumes "NextTok lx = Inr (tok, lx')" and "lexer_wf lx"
  shows "lexer_wf lx' \<and> dl_curTok lx' = tok \<and> (tok \<noteq> DSN_EOF \<longrightarrow> length (remaining lx') < length (remaining lx))"
proof (cases "dl_curTok lx = DSN_EOF")
  case True
  then show ?thesis using assms by (auto simp: NextTok_def Let_def lexer_wf_def)
next
  case False
  let ?rest = "drop (dl_next lx) (take (dl_limit lx) (dl_start lx))" and ?lx = "lx\<lparr> dl_prevTok := dl_curTok lx \<rparr>"
  have un: "lexer_unread ?lx = lexer_unread lx" by (simp add: lexer_unread_def)
  from assms(1) False obtain l f where f: "find_start ?lx = Inr (l, f)" "found_exit (dl_next lx) l f = Inr (tok, lx')"
    by (auto simp: NextTok_def Let_def split: sum.splits)
  have wf: "lexer_wf l \<and> (\<forall>cur. f = At_token cur \<longrightarrow> cur \<noteq> [] \<and> \<not> isSpace (hd cur) \<and>
      suffix cur (take (dl_limit l) (dl_start l)) \<and> length (cur @ lexer_unread l) \<le> length (remaining lx)) \<and>
    (f = At_comment \<longrightarrow> dl_start l \<noteq> [] \<and> length (dl_start l @ lexer_unread l) \<le> length (remaining lx))"
  proof (cases "dropWhile isSpace ?rest = []")
    case True
    then have R: "dsn_L_read ?lx = Inr (l, f)" using f(1) by (simp add: find_start_def del: dropWhile_eq_Nil_conv)
    note F = dsn_L_read_found [OF R]
    have "lexer_wf ?lx" using assms(2) by (simp add: lexer_wf_def)
    moreover have "length (lexer_unread lx) \<le> length (remaining lx)" by (simp add: remaining_def)
    ultimately show ?thesis using F un hd_dropWhile_space [of "dl_start l"]
      suffix_dropWhile [of isSpace "dl_start l"] length_dropWhile_le [of isSpace "dl_start l"] by auto
  next
    case nonblank: False
    then have lf: "l = ?lx" "f = At_token (dropWhile isSpace ?rest)"
      using f(1) by (simp_all add: find_start_def del: dropWhile_eq_Nil_conv)
    have "suffix (dropWhile isSpace ?rest) (take (dl_limit lx) (dl_start lx))"
      using suffix_dropWhile suffix_drop suffix_order.trans by blast
    moreover have "length (dropWhile isSpace ?rest) \<le> length ?rest" by (rule length_dropWhile_le)
    ultimately show ?thesis
      using lf nonblank assms(2) hd_dropWhile_space [OF nonblank] un
      by (simp add: lexer_wf_def remaining_def)
  qed
  show ?thesis
  proof (cases f)
    case At_eof
    then show ?thesis using f(2) wf by (auto simp: lexer_wf_def)
  next
    case At_comment
    let ?t = "strip_eol (take (dl_limit l) (dl_start l))"
    have r: "tok = DSN_COMMENT" "lx' = l\<lparr> dl_limit := length ?t, dl_curText := ?t, dl_curTok := DSN_COMMENT,
        dl_curOffset := 0, dl_next := length ?t \<rparr>"
      using f(2) At_comment by (simp_all add: Let_def)
    have "length ?t \<le> length (take (dl_limit l) (dl_start l))"
      unfolding strip_eol_def using length_dropWhile_le [of _ "rev (take (dl_limit l) (dl_start l))"] by simp
    then have "length ?t \<le> length (dl_start l)" by simp
    moreover have "length (lexer_unread l) < length (remaining lx)"
      using wf At_comment length_greater_0_conv [of "dl_start l"] unfolding length_append by linarith
    moreover have "remaining lx' = lexer_unread l" using r by (simp add: remaining_def lexer_unread_def)
    ultimately show ?thesis using r by (simp add: lexer_wf_def)
  next
    case (At_token cur)
    have w: "cur \<noteq> []" "\<not> isSpace (hd cur)" "suffix cur (take (dl_limit l) (dl_start l))"
      "length (cur @ lexer_unread l) \<le> length (remaining lx)" using wf At_token by auto
    from f(2) At_token obtain str rest where s: "scan_token l cur = Inr (tok, str, rest)"
      "lx' = l\<lparr> dl_curText := str, dl_curTok := tok,
          dl_curOffset := int (dl_limit l - length cur) + (if tok = DSN_STRING then 1 else 0),
          dl_next := dl_limit l - length rest \<rparr>"
      by (auto split: sum.splits)
    from scan_token_suffix [OF s(1) w(1,2)] have rest: "suffix rest cur" "length rest < length cur" by auto
    have len: "dl_limit l = length (take (dl_limit l) (dl_start l))" using wf by (simp add: lexer_wf_def)
    have "suffix rest (take (dl_limit l) (dl_start l))" using rest(1) w(3) by (rule suffix_order.trans)
    from suffix_drop_length [OF this] len have "drop (dl_limit l - length rest) (take (dl_limit l) (dl_start l)) = rest" by simp
    then have "remaining lx' = rest @ lexer_unread l" using s(2) by (simp add: remaining_def lexer_unread_def)
    then show ?thesis using s(2) rest(2) w(4) wf by (simp add: lexer_wf_def)
  qed
qed

text \<open>All tokens up to the end of the input with their texts.\<close>

fun lex_all :: "nat \<Rightarrow> DSNLEXER \<Rightarrow> (RICH_ERROR + (int \<times> string) list) option" where
  "lex_all 0 lx = None"
| "lex_all (Suc fuel) lx =
     (case NextTok lx of
        Inl e \<Rightarrow> Some (Inl e)
      | Inr (tok, lx) \<Rightarrow>
          if tok = DSN_EOF then Some (Inr [])
          else (case lex_all fuel lx of
                  None \<Rightarrow> None
                | Some (Inl e) \<Rightarrow> Some (Inl e)
                | Some (Inr ts) \<Rightarrow> Some (Inr ((tok, dl_curText lx) # ts))))"

text \<open>
  C13. Reading tokens ends on every input: in either mode and from any position, calling \<open>NextTok\<close> until
  it returns the end of the input ends, in the end or in an error, after no more tokens than there
  are bytes left; and a loop that reads comment lines ends as well.
\<close>

theorem NextTok_reaches_end:
  assumes "lexer_wf lx" and "length (remaining lx) < fuel"
  shows "(\<exists>r. lex_all fuel lx = Some r \<and> (case r of Inl e \<Rightarrow> True | Inr ts \<Rightarrow> length ts < fuel)) \<and>
    (\<exists>r. comment_loop fuel ret lx = Some r)"
proof -
  have "\<exists>r. lex_all fuel lx = Some r \<and> (case r of Inl e \<Rightarrow> True | Inr ts \<Rightarrow> length ts < fuel)"
    using assms
  proof (induction fuel arbitrary: lx)
    case (Suc fuel)
    show ?case
    proof (cases "NextTok lx")
      case (Inr p)
      obtain tok lx' where p: "p = (tok, lx')" by fastforce
      note N = NextTok_progress [OF Inr [unfolded p] Suc.prems(1)]
      show ?thesis
      proof (cases "tok = DSN_EOF")
        case False
        with N Suc.prems(2) have "lexer_wf lx'" "length (remaining lx') < fuel" by auto
        from Suc.IH [OF this] obtain r where r: "lex_all fuel lx' = Some r" "case r of Inl e \<Rightarrow> True | Inr ts \<Rightarrow> length ts < fuel"
          by blast
        then show ?thesis using Inr p False by (cases r) auto
      qed (use Inr p in auto)
    qed auto
  qed simp
  moreover have "\<exists>r. comment_loop fuel ret lx = Some r"
    using assms
  proof (induction fuel arbitrary: lx ret)
    case (Suc fuel)
    show ?case
    proof (cases "NextTok lx")
      case (Inr p)
      obtain tok lx' where p: "p = (tok, lx')" by fastforce
      note N = NextTok_progress [OF Inr [unfolded p] Suc.prems(1)]
      show ?thesis
      proof (cases "tok = DSN_COMMENT")
        case True
        with N Suc.prems(2) have "lexer_wf lx'" "length (remaining lx') < fuel" by (auto simp: DSN_defs)
        from Suc.IH [OF this] Inr p True show ?thesis by auto
      qed (use Inr p in auto)
    qed auto
  qed simp
  ultimately show ?thesis by blast
qed

theorem NextTok_reaches_end_witness:
  "\<exists>r. lex_all 4 (DSNLEXER_text [] None ''(a)'' []) = Some r"
proof -
  have "remaining (DSNLEXER_text [] None ''(a)'' []) = ''(a)''" "lexer_wf (DSNLEXER_text [] None ''(a)'' [])"
    by (simp_all add: remaining_def lexer_unread_def lexer_wf_def DSNLEXER_text_def DSNLEXER_init_def PushReader_def
        DSNLEXER_blank_def STRING_LINE_READER_make_def LINE_READER_make_def unread_def)
  with NextTok_reaches_end [of "DSNLEXER_text [] None ''(a)'' []" 4 "[]"] show ?thesis by auto
qed

section \<open>Numbers\<close>

text \<open>
  The numbers of the lexer: an optional sign, then digits, of which there is at least one, with at
  most one point before, among or after them, then an exponent with an optional sign and at least
  one digit.
\<close>

definition all_digits :: "string \<Rightarrow> bool" where
  "all_digits ds \<longleftrightarrow> list_all isDigit ds"

definition is_sign :: "string \<Rightarrow> bool" where
  "is_sign s \<longleftrightarrow> s \<in> {[], ''-'', ''+''}"

definition exp_form :: "string \<Rightarrow> bool" where
  "exp_form ex \<longleftrightarrow> ex = [] \<or>
     (\<exists>e sg ds. ex = e # sg @ ds \<and> e \<in> set ''Ee'' \<and> is_sign sg \<and> all_digits ds \<and> ds \<noteq> [])"

definition number_form :: "string \<Rightarrow> bool" where
  "number_form s \<longleftrightarrow> (\<exists>sg int_part frac ex. s = sg @ int_part @ frac @ ex \<and> is_sign sg \<and> all_digits int_part \<and>
     (frac = [] \<or> (\<exists>ds. frac = CHR ''.'' # ds \<and> all_digits ds)) \<and>
     (int_part \<noteq> [] \<or> (\<exists>d ds. frac = CHR ''.'' # d # ds)) \<and> exp_form ex)"

lemma takeWhile_digits: "all_digits (takeWhile isDigit s)"
  by (auto simp: all_digits_def list_all_iff dest: set_takeWhileD)

lemma all_digits_simps [simp]: "all_digits []" "all_digits (c # cs) = (isDigit c \<and> all_digits cs)"
  "all_digits (cs @ ds) = (all_digits cs \<and> all_digits ds)"
  by (simp_all add: all_digits_def)

lemmas digits_while = while_split [of isDigit, folded all_digits_def]

lemma not_digit [simp]: "\<not> isDigit (CHR ''.'')" "\<not> isDigit (CHR ''e'')" "\<not> isDigit (CHR ''E'')" "\<not> isDigit (CHR ''-'')" "\<not> isDigit (CHR ''+'')"
  by (simp_all add: isDigit_def)

lemma skip_sign_split: "\<exists>sg. is_sign sg \<and> cp = sg @ skip_sign cp"
  by (cases cp) (auto simp: skip_sign_def is_sign_def)

lemma skip_sign_app:
  assumes "is_sign sg" and "r = [] \<or> hd r \<notin> set ''-+''"
  shows "skip_sign (sg @ r) = r"
  using assms by (auto simp: is_sign_def skip_sign_def)

lemma split_digits: "s = takeWhile isDigit s @ dropWhile isDigit s"
  by simp

definition scan_frac :: "bool \<Rightarrow> string \<Rightarrow> bool \<times> string" where
  "scan_frac saw cp = (if cp \<noteq> [] \<and> hd cp = CHR ''.''
     then (saw \<or> takeWhile isDigit (tl cp) \<noteq> [], dropWhile isDigit (tl cp)) else (saw, cp))"

definition scan_exp :: "bool \<Rightarrow> string \<Rightarrow> bool \<times> string" where
  "scan_exp saw cp = (if saw \<and> cp \<noteq> [] \<and> hd cp \<in> set ''Ee''
     then let cp = skip_sign (tl cp) in (takeWhile isDigit cp \<noteq> [], dropWhile isDigit cp) else (saw, cp))"

lemma isNumber_scan:
  "isNumber s = (let cp = skip_sign s; (saw, cp) = scan_frac (takeWhile isDigit cp \<noteq> []) (dropWhile isDigit cp);
     (saw, cp) = scan_exp saw cp in saw \<and> cp = [])"
  unfolding isNumber_def scan_frac_def scan_exp_def Let_def ..

lemma scan_exp_iff: "(case scan_exp True cp of (saw, r) \<Rightarrow> saw \<and> r = []) \<longleftrightarrow> exp_form cp"
proof
  assume a: "case scan_exp True cp of (saw, r) \<Rightarrow> saw \<and> r = []"
  show "exp_form cp"
  proof (cases cp)
    case (Cons e r)
    with a have e: "e \<in> set ''Ee''" "takeWhile isDigit (skip_sign r) \<noteq> []" "dropWhile isDigit (skip_sign r) = []"
      by (auto simp: scan_exp_def Let_def split: if_splits)
    obtain sg where "is_sign sg" "r = sg @ skip_sign r" using skip_sign_split by blast
    moreover have "all_digits (skip_sign r)" "skip_sign r \<noteq> []"
      using e(2,3) by (auto simp: all_digits_def list_all_iff)
    ultimately show ?thesis using Cons e(1) unfolding exp_form_def by blast
  qed (simp add: exp_form_def)
next
  assume "exp_form cp"
  then consider "cp = []" | e sg ds where "cp = e # sg @ ds" "e \<in> set ''Ee''" "is_sign sg" "all_digits ds" "ds \<noteq> []"
    unfolding exp_form_def by blast
  then show "case scan_exp True cp of (saw, r) \<Rightarrow> saw \<and> r = []"
  proof cases
    case 2
    have "hd ds \<notin> set ''-+''" using 2(4,5) not_digit by (cases ds) auto
    then have "skip_sign (sg @ ds) = ds" using 2(3) by (simp add: skip_sign_app)
    moreover have "takeWhile isDigit ds = ds" "dropWhile isDigit ds = []" using digits_while [OF 2(4), of "[]"] by simp_all
    ultimately show ?thesis using 2 by (simp add: scan_exp_def Let_def del: dropWhile_eq_Nil_conv takeWhile_eq_all_conv)
  qed (simp add: scan_exp_def)
qed

lemma scan_exp_False: "scan_exp False cp = (False, cp)"
  by (simp add: scan_exp_def)

lemma exp_form_hd: "exp_form ex \<Longrightarrow> ex = [] \<or> \<not> isDigit (hd ex) \<and> hd ex \<noteq> CHR ''.''"
  by (auto simp: exp_form_def)

text \<open>
  C32. The lexer takes a text for a number exactly when it has the form of one; that is the form of the
  regular expression in the code but for numbers such as \<open>1.\<close> or \<open>1.e5\<close>, with no digit after the
  point, which the lexer accepts too.
\<close>

theorem isNumber_iff: "isNumber s \<longleftrightarrow> number_form s"
proof
  assume a: "isNumber s"
  obtain sg where sg: "is_sign sg" "s = sg @ skip_sign s" using skip_sign_split by blast
  let ?t = "skip_sign s"
  let ?ip = "takeWhile isDigit ?t" and ?r = "dropWhile isDigit ?t"
  obtain saw cp where f: "scan_frac (?ip \<noteq> []) ?r = (saw, cp)" by fastforce
  from a f have "case scan_exp saw cp of (saw, r) \<Rightarrow> saw \<and> r = []" by (simp add: isNumber_scan Let_def)
  then have saw: "saw" and ex: "exp_form cp" using scan_exp_iff [of cp] scan_exp_False [of cp] by (cases saw; auto)+
  show "number_form s"
  proof (cases "?r \<noteq> [] \<and> hd ?r = CHR ''.''")
    case True
    let ?ds = "takeWhile isDigit (tl ?r)"
    have "cp = dropWhile isDigit (tl ?r)" "?ip \<noteq> [] \<or> ?ds \<noteq> []" using f True saw by (auto simp: scan_frac_def)
    moreover have "?r = CHR ''.'' # ?ds @ dropWhile isDigit (tl ?r)" using True by (cases ?r) auto
    ultimately have "s = sg @ ?ip @ (CHR ''.'' # ?ds) @ cp" "?ip \<noteq> [] \<or> (\<exists>d ds. CHR ''.'' # ?ds = CHR ''.'' # d # ds)"
      using sg(2) split_digits [of ?t] by (simp, metis list.exhaust)
    then show ?thesis unfolding number_form_def using sg(1) takeWhile_digits ex
      by (intro exI [of _ sg] exI [of _ ?ip] exI [of _ "CHR ''.'' # ?ds"] exI [of _ cp]) blast
  next
    case False
    then have "cp = ?r" "?ip \<noteq> []" using f saw by (auto simp: scan_frac_def split: if_splits)
    then have "s = sg @ ?ip @ [] @ cp" using sg(2) split_digits [of ?t] by simp
    then show ?thesis unfolding number_form_def using sg(1) takeWhile_digits ex \<open>?ip \<noteq> []\<close> by blast
  qed
next
  assume "number_form s"
  then obtain sg ip frac ex where s: "s = sg @ ip @ frac @ ex" "is_sign sg" "all_digits ip"
    "frac = [] \<or> (\<exists>ds. frac = CHR ''.'' # ds \<and> all_digits ds)" "ip \<noteq> [] \<or> (\<exists>d ds. frac = CHR ''.'' # d # ds)" "exp_form ex"
    unfolding number_form_def by (elim exE conjE) (rule that)
  have hex: "ex = [] \<or> \<not> isDigit (hd ex) \<and> hd ex \<noteq> CHR ''.''" using s(6) by (rule exp_form_hd)
  have "hd (ip @ frac @ ex) \<notin> set ''-+''"
  proof (cases ip)
    case Nil
    then obtain d ds where "frac = CHR ''.'' # d # ds" using s(5) by blast
    then show ?thesis using Nil by simp
  next
    case (Cons d ds)
    then have "isDigit d" using s(3) by simp
    then have "d \<noteq> CHR ''-''" "d \<noteq> CHR ''+''" using not_digit by blast+
    then show ?thesis using Cons by simp
  qed
  then have sk: "skip_sign s = ip @ frac @ ex" unfolding s(1) using s(2) by (intro skip_sign_app) auto
  have hf: "frac @ ex = [] \<or> \<not> isDigit (hd (frac @ ex))" using s(4) hex by (cases frac) auto
  note d = digits_while [OF s(3) hf]
  show "isNumber s"
  proof (cases "frac = []")
    case True
    then have "scan_frac (ip \<noteq> []) (frac @ ex) = (True, ex)" using s(5) hex by (auto simp: scan_frac_def)
    then show ?thesis using scan_exp_iff [of ex] s(6) sk d by (simp add: isNumber_scan Let_def)
  next
    case False
    then obtain ds where ds: "frac = CHR ''.'' # ds" "all_digits ds" using s(4) by blast
    have "ex = [] \<or> \<not> isDigit (hd ex)" using hex by blast
    from digits_while [OF ds(2) this] have "scan_frac (ip \<noteq> []) (frac @ ex) = (True, ex)"
      using ds(1) s(5) by (auto simp: scan_frac_def)
    then show ?thesis using scan_exp_iff [of ex] s(6) sk d by (simp add: isNumber_scan Let_def)
  qed
qed

section \<open>Reading back what was written\<close>

text \<open>The tokens of a file: brackets, quoted strings and bare symbols, as they are written.\<close>

datatype file_token = F_left | F_right | F_string string | F_bare string

fun token_text :: "file_token \<Rightarrow> string" where
  "token_text F_left = ''(''"
| "token_text F_right = '')''"
| "token_text (F_string s) = Quotes s"
| "token_text (F_bare s) = s"

text \<open>A bare symbol has no separator and does not start like a comment or a string.\<close>

fun token_ok :: "file_token \<Rightarrow> bool" where
  "token_ok (F_bare s) \<longleftrightarrow> s \<noteq> [] \<and> list_all (\<lambda>c. \<not> isSep c) s \<and> hd s \<noteq> CHR ''#'' \<and> hd s \<noteq> QUOTE"
| "token_ok t \<longleftrightarrow> True"

fun token_read :: "(string \<rightharpoonup> int) option \<Rightarrow> file_token \<Rightarrow> int \<times> string" where
  "token_read kw F_left = (DSN_LEFT, ''('')"
| "token_read kw F_right = (DSN_RIGHT, '')'')"
| "token_read kw (F_string s) = (DSN_STRING, s)"
| "token_read kw (F_bare s) =
     (if isNumber s then DSN_NUMBER
      else case kw of None \<Rightarrow> DSN_SYMBOL | Some m \<Rightarrow> (case m s of Some t \<Rightarrow> t | None \<Rightarrow> DSN_SYMBOL), s)"

text \<open>A text: each token after some blanks, which may be line ends, then blanks.\<close>

fun layout :: "(string \<times> file_token) list \<Rightarrow> string \<Rightarrow> string" where
  "layout [] end_ws = end_ws"
| "layout ((ws, t) # ts) end_ws = ws @ token_text t @ layout ts end_ws"

text \<open>After a bare symbol a string or another bare symbol needs a blank.\<close>

fun layout_ok :: "(string \<times> file_token) list \<Rightarrow> bool" where
  "layout_ok [] \<longleftrightarrow> True"
| "layout_ok [(ws, t)] \<longleftrightarrow> list_all isSpace ws \<and> token_ok t"
| "layout_ok ((ws, t) # (ws', t') # ts) \<longleftrightarrow> list_all isSpace ws \<and> token_ok t \<and> layout_ok ((ws', t') # ts) \<and>
     (case t of F_bare s \<Rightarrow> ws' \<noteq> [] \<or> t' \<in> {F_left, F_right} | _ \<Rightarrow> True)"

lemma string_loop_Quotes: "string_loop acc (Quotes_body s @ QUOTE # r) = Inr (acc @ s, r)"
  by (induction s arbitrary: acc) auto

definition kicad_mode :: "DSNLEXER \<Rightarrow> bool" where
  "kicad_mode lx \<longleftrightarrow> \<not> dl_specctraMode lx \<and> dl_stringDelimiter lx = QUOTE"

lemma scan_token_reads:
  assumes "kicad_mode lx" and "token_ok t" and "cur = token_text t @ tail"
    and "\<forall>s. t = F_bare s \<longrightarrow> tail = [] \<or> isSep (hd tail)"
  shows "scan_token lx cur = Inr (fst (token_read (dl_keywordsLookup lx) t), snd (token_read (dl_keywordsLookup lx) t), tail)"
proof (cases t)
  case (F_string s)
  then have "cur = QUOTE # Quotes_body s @ QUOTE # tail" using assms(3) by (simp add: Quotes_def)
  then show ?thesis using F_string assms(1) string_loop_Quotes [of "[]" s tail]
    by (simp add: scan_token_def kicad_mode_def Let_def)
next
  case (F_bare s)
  then have s: "s \<noteq> []" "list_all (\<lambda>c. \<not> isSep c) s" "hd s \<noteq> QUOTE" "cur = s @ tail" using assms(2,3) by simp_all
  have "\<not> isSep (hd cur)" using s by (cases s) auto
  moreover have "takeWhile (\<lambda>c. \<not> isSep c) cur = s \<and> dropWhile (\<lambda>c. \<not> isSep c) cur = tail"
    unfolding s(4) using while_split [OF s(2), of tail] assms(4) F_bare by simp
  moreover have "hd cur \<noteq> QUOTE" using s by (cases s) auto
  moreover have "findToken lx s = (case dl_keywordsLookup lx of None \<Rightarrow> DSN_SYMBOL
      | Some m \<Rightarrow> (case m s of Some t \<Rightarrow> t | None \<Rightarrow> DSN_SYMBOL))"
  proof -
    have "takeWhile (\<lambda>c. c \<noteq> NUL) s = s" using s(2) by (auto simp: list_all_iff isSep_def isSpace_def)
    then show ?thesis unfolding findToken_def by (rule ssubst) (rule refl)
  qed
  ultimately show ?thesis using F_bare assms(1)
    by (auto simp: scan_token_def scan_plain_def kicad_mode_def Let_def isSep_def)
qed (use assms in \<open>simp_all add: scan_token_def Let_def\<close>)

lemma FILE_loop_ok:
  assumes "length line + length fp < maxLen"
  shows "\<exists>r. FILE_loop maxLen line fp cap = Inr r"
  using assms by (induction maxLen line fp cap rule: FILE_loop.induct) (auto simp: Let_def)

lemma ReadLine_ok:
  assumes "length (unread rd) < rd_maxLineLength rd"
  shows "\<exists>rd'. ReadLine rd = Inr rd'"
proof (cases "rd_input rd")
  case (StringInput m_lines m_ndx)
  then show ?thesis using assms line_length_le [of "drop m_ndx m_lines"]
    by (auto simp: ReadLine_def STRING_ReadLine_def unread_def Let_def)
next
  case (FileInput fp)
  have "\<exists>r. FILE_loop (rd_maxLineLength rd) [] fp (rd_capacity rd) = Inr r"
    by (rule FILE_loop_ok) (use FileInput assms in \<open>simp add: unread_def\<close>)
  then obtain r where "FILE_loop (rd_maxLineLength rd) [] fp (rd_capacity rd) = Inr r" by blast
  then show ?thesis using FileInput by (cases r) (simp add: ReadLine_def FILE_ReadLine_def)
qed

lemma line_ends: "drop (line_length u) u \<noteq> [] \<Longrightarrow> last (take (line_length u) u) = NL"
  by (induction u) (auto split: if_splits)

lemma dropWhile_line:
  "dropWhile P (xs @ ys) = (if dropWhile P xs = [] then dropWhile P ys else dropWhile P xs @ ys)"
  by (induction xs) auto

text \<open>The reader can still read: what it has left fits a line.\<close>

definition readable :: "DSNLEXER \<Rightarrow> bool" where
  "readable lx \<longleftrightarrow> (case dl_readerStack lx of [] \<Rightarrow> False | rd # _ \<Rightarrow> length (unread rd) < rd_maxLineLength rd)"

definition same_modes :: "DSNLEXER \<Rightarrow> DSNLEXER \<Rightarrow> bool" where
  "same_modes lx lx' \<longleftrightarrow> dl_specctraMode lx' = dl_specctraMode lx \<and> dl_stringDelimiter lx' = dl_stringDelimiter lx \<and>
     dl_keywordsLookup lx' = dl_keywordsLookup lx \<and> dl_curTok lx' = dl_curTok lx"

lemma readable_readLine:
  assumes "readable lx"
  obtains lx' where "dsn_readLine lx = Inr (line_length (lexer_unread lx), lx')" "readable lx'" "same_modes lx lx'"
    "dl_start lx' = take (line_length (lexer_unread lx)) (lexer_unread lx)"
    "lexer_unread lx' = drop (line_length (lexer_unread lx)) (lexer_unread lx)"
    "dl_limit lx' = length (dl_start lx')"
proof -
  from assms obtain rd st where rd: "dl_readerStack lx = rd # st" "length (unread rd) < rd_maxLineLength rd"
    by (auto simp: readable_def split: list.splits)
  from ReadLine_ok [OF rd(2)] obtain rd' where rd': "ReadLine rd = Inr rd'" by blast
  note S = ReadLine_spec [OF rd']
  let ?lx = "lx\<lparr> dl_readerStack := rd' # st, dl_start := rd_line rd', dl_next := 0, dl_limit := rd_length rd' \<rparr>"
  have "dsn_readLine lx = Inr (line_length (lexer_unread lx), ?lx)"
    using rd rd' S by (simp add: dsn_readLine_def lexer_unread_def)
  moreover have "readable ?lx" using rd S by (simp add: readable_def)
  ultimately show thesis using that [of ?lx] rd S by (simp add: same_modes_def lexer_unread_def)
qed

lemma same_modes_trans: "same_modes a b \<Longrightarrow> same_modes b c \<Longrightarrow> same_modes a c"
  by (simp add: same_modes_def)

text \<open>The start of the token of \<open>s\<close>, a text without leading blanks, has been found.\<close>

definition found_at :: "DSNLEXER \<Rightarrow> string \<Rightarrow> DSNLEXER \<Rightarrow> found \<Rightarrow> bool" where
  "found_at lx s lx' f \<longleftrightarrow> same_modes lx lx' \<and>
     (if s = [] then f = At_eof
      else \<exists>cur. f = At_token cur \<and> cur \<noteq> [] \<and> suffix cur (dl_start lx') \<and> dl_limit lx' = length (dl_start lx') \<and>
        cur @ lexer_unread lx' = s \<and> readable lx' \<and> (lexer_unread lx' \<noteq> [] \<longrightarrow> last cur = NL))"

lemma found_at_trans: "same_modes lx lx1 \<Longrightarrow> found_at lx1 s lx' f \<Longrightarrow> found_at lx s lx' f"
  using same_modes_trans by (simp add: found_at_def)

lemma dsn_L_read_reads:
  assumes "readable lx" and "dropWhile isSpace (lexer_unread lx) = [] \<or> hd (dropWhile isSpace (lexer_unread lx)) \<noteq> CHR ''#''"
  shows "\<exists>lx' f. dsn_L_read lx = Inr (lx', f) \<and> found_at lx (dropWhile isSpace (lexer_unread lx)) lx' f"
  using assms
proof (induction lx rule: dsn_L_read.induct)
  case (1 lx)
  let ?u = "lexer_unread lx"
  obtain lx1 where r: "dsn_readLine lx = Inr (line_length ?u, lx1)" "readable lx1" "same_modes lx lx1"
    "dl_start lx1 = take (line_length ?u) ?u" "lexer_unread lx1 = drop (line_length ?u) ?u" "dl_limit lx1 = length (dl_start lx1)"
    by (rule readable_readLine [OF 1(2)])
  show ?case
  proof (cases "?u = []")
    case True
    then show ?thesis using r by (simp add: dsn_L_read.simps [of lx] found_at_def)
  next
    case False
    let ?cur = "dropWhile isSpace (dl_start lx1)"
    have split: "?u = dl_start lx1 @ lexer_unread lx1" unfolding r(4,5) by simp
    have drop: "dropWhile isSpace ?u = (if ?cur = [] then dropWhile isSpace (lexer_unread lx1) else ?cur @ lexer_unread lx1)"
      by (subst split) (rule dropWhile_line)
    have len: "line_length ?u \<noteq> 0" using False by simp
    show ?thesis
    proof (cases "?cur = []")
      case True
      then have lf: "line_found lx1 = None" by (simp add: line_found_def r(6))
      then have nxt: "dsn_L_read lx = dsn_L_read lx1" using r(1) len by (simp add: dsn_L_read.simps [of lx])
      have "dropWhile isSpace (lexer_unread lx1) = [] \<or> hd (dropWhile isSpace (lexer_unread lx1)) \<noteq> CHR ''#''"
        using 1(3) drop True by simp
      from 1(1) [OF r(1) refl len lf r(2) this] show ?thesis
        using nxt found_at_trans [OF r(3)] drop True by auto
    next
      case cur: False
      have "dropWhile isSpace ?u = ?cur @ lexer_unread lx1" unfolding drop if_not_P [OF cur] ..
      with 1(3) cur have "hd ?cur \<noteq> CHR ''#''" by (simp add: hd_append del: dropWhile_eq_Nil_conv)
      then have "line_found lx1 = Some (At_token ?cur)"
        using cur by (simp add: line_found_def r(6) Let_def del: dropWhile_eq_Nil_conv)
      then have "dsn_L_read lx = Inr (lx1, At_token ?cur)" using r(1) len by (simp add: dsn_L_read.simps [of lx])
      moreover have "last ?cur = NL" if "lexer_unread lx1 \<noteq> []"
      proof -
        have "last (dl_start lx1) = NL" using that line_ends [of ?u] r(4,5) by simp
        moreover have "last ?cur = last (dl_start lx1)"
          using cur suffix_dropWhile [of isSpace "dl_start lx1"] by (metis last_appendR suffix_def)
        ultimately show ?thesis by simp
      qed
      ultimately show ?thesis using r cur drop
        by (simp add: found_at_def suffix_dropWhile del: dropWhile_eq_Nil_conv)
    qed
  qed
qed

text \<open>The state between two tokens of a text.\<close>

definition reading :: "DSNLEXER \<Rightarrow> bool" where
  "reading lx \<longleftrightarrow> kicad_mode lx \<and> readable lx \<and> dl_curTok lx \<noteq> DSN_EOF \<and> dl_limit lx = length (dl_start lx) \<and>
     (lexer_unread lx \<noteq> [] \<longrightarrow> drop (dl_next lx) (dl_start lx) = [] \<or> last (drop (dl_next lx) (dl_start lx)) = NL)"

lemma find_start_reads:
  assumes "reading lx" and "dropWhile isSpace (remaining lx) = [] \<or> hd (dropWhile isSpace (remaining lx)) \<noteq> CHR ''#''"
  shows "\<exists>lx' f. find_start lx = Inr (lx', f) \<and> found_at lx (dropWhile isSpace (remaining lx)) lx' f"
proof -
  let ?rest = "drop (dl_next lx) (dl_start lx)"
  have rem: "dropWhile isSpace (remaining lx) = (if dropWhile isSpace ?rest = [] then dropWhile isSpace (lexer_unread lx)
      else dropWhile isSpace ?rest @ lexer_unread lx)"
    using assms(1) unfolding remaining_def reading_def by (simp add: dropWhile_line del: dropWhile_eq_Nil_conv)
  have lim: "take (dl_limit lx) (dl_start lx) = dl_start lx" using assms(1) by (simp add: reading_def)
  show ?thesis
  proof (cases "dropWhile isSpace ?rest = []")
    case True
    then have "find_start lx = dsn_L_read lx" by (simp add: find_start_def lim)
    moreover have eq: "dropWhile isSpace (remaining lx) = dropWhile isSpace (lexer_unread lx)" unfolding rem if_P [OF True] ..
    moreover have "readable lx" using assms(1) by (simp add: reading_def)
    ultimately show ?thesis using dsn_L_read_reads [of lx] assms(2) by presburger
  next
    case False
    have s: "suffix (dropWhile isSpace ?rest) (dl_start lx)"
      using suffix_dropWhile suffix_drop suffix_order.trans by blast
    have "last (dropWhile isSpace ?rest) = last ?rest"
      using False suffix_dropWhile [of isSpace ?rest] by (metis last_appendR suffix_def)
    moreover have "?rest \<noteq> []" using False by auto
    moreover have "find_start lx = Inr (lx, At_token (dropWhile isSpace ?rest))"
      using False by (simp add: find_start_def lim del: dropWhile_eq_Nil_conv)
    ultimately show ?thesis using assms(1) rem False s
      by (simp add: reading_def found_at_def same_modes_def del: dropWhile_eq_Nil_conv)
  qed
qed

lemma Quotes_no_NL: "NL \<notin> set (Quotes s)"
proof -
  have "NL \<notin> set (Quotes_body s)" by (induction s) auto
  then show ?thesis by (simp add: Quotes_def)
qed

lemma token_text_facts:
  assumes "token_ok t"
  shows "token_text t \<noteq> []" "\<not> isSpace (hd (token_text t))" "hd (token_text t) \<noteq> CHR ''#''" "NL \<notin> set (token_text t)"
proof -
  have "token_text t \<noteq> [] \<and> \<not> isSpace (hd (token_text t)) \<and> hd (token_text t) \<noteq> CHR ''#'' \<and> NL \<notin> set (token_text t)"
  proof (cases t)
    case (F_string s)
    then show ?thesis using Quotes_no_NL [of s] by (simp add: Quotes_def isSpace_def)
  next
    case (F_bare s)
    have "isSep NL" by (simp add: isSep_def isSpace_def)
    with F_bare assms show ?thesis by (cases s) (auto simp: isSep_def list_all_iff)
  qed (simp_all add: isSpace_def)
  then show "token_text t \<noteq> []" "\<not> isSpace (hd (token_text t))" "hd (token_text t) \<noteq> CHR ''#''" "NL \<notin> set (token_text t)"
    by auto
qed

definition keywords_ok :: "(string \<rightharpoonup> int) option \<Rightarrow> bool" where
  "keywords_ok kw \<longleftrightarrow> (\<forall>m s t. kw = Some m \<longrightarrow> m s = Some t \<longrightarrow> 0 \<le> t)"

lemma token_read_not_EOF:
  assumes "keywords_ok kw"
  shows "fst (token_read kw t) \<noteq> DSN_EOF"
proof (cases t)
  case (F_bare s)
  have "m s \<noteq> Some (- 1)" if "kw = Some m" for m
    using assms that unfolding keywords_ok_def by (metis neg_0_le_iff_le not_one_le_zero)
  then show ?thesis using F_bare by (auto simp: DSN_defs split: option.splits)
qed (simp_all add: DSN_defs)

lemma NextTok_reads:
  assumes "reading lx" and "remaining lx = ws @ token_text t @ tail" and "list_all isSpace ws" and "token_ok t"
    and "\<forall>s. t = F_bare s \<longrightarrow> tail = [] \<or> isSep (hd tail)" and "keywords_ok (dl_keywordsLookup lx)"
  shows "\<exists>lx'. NextTok lx = Inr (fst (token_read (dl_keywordsLookup lx) t), lx') \<and>
    dl_curText lx' = snd (token_read (dl_keywordsLookup lx) t) \<and> remaining lx' = tail \<and> reading lx' \<and>
    dl_keywordsLookup lx' = dl_keywordsLookup lx"
proof -
  let ?l = "lx\<lparr> dl_prevTok := dl_curTok lx \<rparr>"
  note f = token_text_facts [OF assms(4)]
  have l: "reading ?l" "remaining ?l = remaining lx"
    using assms(1) by (simp_all add: reading_def kicad_mode_def readable_def remaining_def lexer_unread_def)
  have s: "dropWhile isSpace (remaining ?l) = token_text t @ tail"
    unfolding l(2) assms(2) using while_split(2) [OF assms(3), of "token_text t @ tail"] f(1,2) by simp
  have "hd (dropWhile isSpace (remaining ?l)) \<noteq> CHR ''#''" unfolding s using f(1,3) by simp
  from find_start_reads [OF l(1)] this obtain l1 fd where
    fs: "find_start ?l = Inr (l1, fd)" "found_at ?l (token_text t @ tail) l1 fd" unfolding s by blast
  from fs(2) f(1) obtain cur where cur: "fd = At_token cur" "cur \<noteq> []" "suffix cur (dl_start l1)"
    "dl_limit l1 = length (dl_start l1)" "cur @ lexer_unread l1 = token_text t @ tail" "readable l1"
    "lexer_unread l1 \<noteq> [] \<longrightarrow> last cur = NL" and m: "same_modes ?l l1" by (auto simp: found_at_def)
  obtain tail' where t': "cur = token_text t @ tail'" "tail = tail' @ lexer_unread l1"
  proof -
    from cur(5) consider us where "cur = token_text t @ us" "us @ lexer_unread l1 = tail"
      | us where "cur @ us = token_text t" "lexer_unread l1 = us @ tail"
      unfolding append_eq_append_conv2 by blast
    then show thesis
    proof cases
      case 2
      have "us = []"
      proof (rule ccontr)
        assume "us \<noteq> []"
        then have "last cur = NL" using cur(7) 2(2) by simp
        then have "NL \<in> set (token_text t)" using cur(2) 2(1) last_in_set [of cur] by (metis Un_iff set_append)
        with f(4) show False by blast
      qed
      with 2 show thesis using that [of "[]"] by simp
    qed (use that in auto)
  qed
  have km: "kicad_mode l1" "dl_keywordsLookup l1 = dl_keywordsLookup lx"
    using m assms(1) by (auto simp: same_modes_def reading_def kicad_mode_def)
  have bare: "\<forall>s. t = F_bare s \<longrightarrow> tail' = [] \<or> isSep (hd tail')" using assms(5) t'(2) by (cases tail') auto
  let ?r = "token_read (dl_keywordsLookup lx) t"
  let ?lx' = "l1\<lparr> dl_curText := snd ?r, dl_curTok := fst ?r,
          dl_curOffset := int (dl_limit l1 - length cur) + (if fst ?r = DSN_STRING then 1 else 0),
          dl_next := dl_limit l1 - length tail' \<rparr>"
  have scan: "scan_token l1 cur = Inr (fst ?r, snd ?r, tail')"
    using scan_token_reads [OF km(1) assms(4) t'(1) bare] km(2) by simp
  have "dl_curTok ?l \<noteq> DSN_EOF" using assms(1) by (simp add: reading_def)
  then have "NextTok lx = Inr (fst ?r, ?lx')"
    using fs(1) cur(1) scan by (simp add: NextTok_def Let_def)
  moreover have "suffix tail' (dl_start l1)" using cur(3) t'(1) by (auto simp: suffix_def)
  then have rest: "drop (dl_limit l1 - length tail') (dl_start l1) = tail'"
    unfolding cur(4) by (rule suffix_drop_length)
  then have "remaining ?lx' = tail" using t'(2) cur(4) by (simp add: remaining_def lexer_unread_def)
  moreover have "reading ?lx'"
    using km(1) cur(4,6,7) rest token_read_not_EOF [OF assms(6)] t'(1)
    by (auto simp: reading_def kicad_mode_def readable_def lexer_unread_def last_append split: if_splits)
  ultimately show ?thesis using km(2) by (intro exI [of _ ?lx']) simp
qed

lemma NextTok_at_end:
  assumes "reading lx" and "list_all isSpace (remaining lx)"
  shows "\<exists>lx'. NextTok lx = Inr (DSN_EOF, lx')"
proof -
  let ?l = "lx\<lparr> dl_prevTok := dl_curTok lx \<rparr>"
  have l: "reading ?l" "remaining ?l = remaining lx"
    using assms(1) by (simp_all add: reading_def kicad_mode_def readable_def remaining_def lexer_unread_def)
  have s: "dropWhile isSpace (remaining ?l) = []" using assms(2) l(2) by (simp add: list_all_iff)
  from find_start_reads [OF l(1)] s obtain l1 fd where "find_start ?l = Inr (l1, fd)" "found_at ?l [] l1 fd" by metis
  moreover have "dl_curTok ?l \<noteq> DSN_EOF" using assms(1) by (simp add: reading_def)
  ultimately show ?thesis by (simp add: NextTok_def Let_def found_at_def)
qed

lemma lex_all_layout:
  assumes "reading lx" and "remaining lx = layout ts end_ws" and "layout_ok ts" and "list_all isSpace end_ws"
    and "keywords_ok (dl_keywordsLookup lx)" and "length ts < fuel"
  shows "lex_all fuel lx = Some (Inr (map (\<lambda>(ws, t). token_read (dl_keywordsLookup lx) t) ts))"
  using assms
proof (induction ts arbitrary: lx fuel)
  case Nil
  then obtain n where "fuel = Suc n" by (cases fuel) auto
  with NextTok_at_end [of lx] Nil show ?case by auto
next
  case (Cons p ts)
  obtain ws t where p: "p = (ws, t)" by fastforce
  obtain n where n: "fuel = Suc n" "length ts < n" using Cons.prems(6) by (cases fuel) auto
  have ok: "list_all isSpace ws" "token_ok t" "layout_ok ts"
    using Cons.prems(3) p by (cases ts; auto)+
  have bare: "\<forall>s. t = F_bare s \<longrightarrow> layout ts end_ws = [] \<or> isSep (hd (layout ts end_ws))"
  proof (intro allI impI)
    fix s assume t: "t = F_bare s"
    show "layout ts end_ws = [] \<or> isSep (hd (layout ts end_ws))"
    proof (cases ts)
      case Nil
      then show ?thesis using Cons.prems(4) by (cases end_ws) (auto simp: isSep_def)
    next
      case (Cons q ts')
      obtain ws' t' where q: "q = (ws', t')" by fastforce
      have "list_all isSpace ws'" "ws' \<noteq> [] \<or> t' \<in> {F_left, F_right}"
        using Cons.prems(3) Cons p q t by (cases ts'; auto)+
      then show ?thesis using Cons q by (cases ws') (auto simp: isSep_def)
    qed
  qed
  have "remaining lx = ws @ token_text t @ layout ts end_ws" using Cons.prems(2) p by simp
  from NextTok_reads [OF Cons.prems(1) this ok(1,2) bare Cons.prems(5)] obtain lx' where
    lx': "NextTok lx = Inr (fst (token_read (dl_keywordsLookup lx) t), lx')"
    "dl_curText lx' = snd (token_read (dl_keywordsLookup lx) t)" "remaining lx' = layout ts end_ws" "reading lx'"
    "dl_keywordsLookup lx' = dl_keywordsLookup lx" by blast
  from Cons.IH [OF lx'(4,3) ok(3) Cons.prems(4) _ n(2)] Cons.prems(5) lx'(5)
  have "lex_all n lx' = Some (Inr (map (\<lambda>(ws, t). token_read (dl_keywordsLookup lx) t) ts))" by simp
  with lx' token_read_not_EOF [OF Cons.prems(5), of t] n(1) p show ?case by simp
qed

lemma text_layout_read:
  assumes "layout_ok ts" and "list_all isSpace end_ws" and "keywords_ok kw"
    and "length (layout ts end_ws) < 1000000" and "length ts < fuel"
  shows "lex_all fuel (DSNLEXER_text names kw (layout ts end_ws) source) =
    Some (Inr (map (\<lambda>(ws, t). token_read kw t) ts))"
proof -
  let ?lx = "DSNLEXER_text names kw (layout ts end_ws) source"
  have "reading ?lx"
    using assms(4) by (simp add: reading_def kicad_mode_def readable_def DSNLEXER_text_def DSNLEXER_init_def
        PushReader_def DSNLEXER_blank_def STRING_LINE_READER_make_def LINE_READER_make_def unread_def
        LINE_READER_LINE_DEFAULT_MAX_def DSN_defs lexer_unread_def)
  moreover have "remaining ?lx = layout ts end_ws" "dl_keywordsLookup ?lx = kw"
    by (simp_all add: remaining_def lexer_unread_def DSNLEXER_text_def DSNLEXER_init_def PushReader_def
        DSNLEXER_blank_def STRING_LINE_READER_make_def LINE_READER_make_def unread_def)
  ultimately show ?thesis using lex_all_layout [of ?lx ts end_ws fuel] assms by simp
qed

text \<open>
  C12. A file that was written is read back: when each bracket, each string as \<open>Quotes\<close> writes it and each
  bare symbol stands after blanks and line ends of any kind, with a blank between a bare symbol
  and a following string or symbol, the lexer returns exactly these tokens with their texts, whatever
  the bytes of the strings, and then the end of the input.
\<close>

theorem lexer_reads_written:
  assumes "layout_ok ts" and "list_all isSpace end_ws" and "keywords_ok kw"
    and "length (layout ts end_ws) < 1000000" and "length ts < fuel"
  shows "lex_all fuel (DSNLEXER_text names kw (layout ts end_ws) source) =
    Some (Inr (map (\<lambda>(ws, t). token_read kw t) ts))"
  using assms by (rule text_layout_read)

theorem lexer_reads_written_witness:
  "lex_all 6 (DSNLEXER_text [] None ''(net 1.5 \"a b\")'' []) =
    Some (Inr [(DSN_LEFT, ''(''), (DSN_SYMBOL, ''net''), (DSN_NUMBER, ''1.5''), (DSN_STRING, ''a b''), (DSN_RIGHT, '')'')])"
  using lexer_reads_written [of "[([], F_left), ([], F_bare ''net''), ('' '', F_bare ''1.5''), ('' '', F_string ''a b''), ([], F_right)]"
      "[]" None 6 "[]" "[]"]
  by (simp add: Quotes_def keywords_ok_def isSep_def isSpace_def isNumber_def skip_sign_def isDigit_def Let_def)

end
