(* ===== verification/Prettify.thy ===== *)
theory Prettify
  imports DsnRoundtrip
begin

text \<open>
  \<open>KICAD_FORMAT::Prettify\<close> of \<^verbatim>\<open>common/io/kicad/kicad_io_utils.cpp\<close>, which lays out a finished file anew: the
  loop over the text with its local variables as a record. The theorem shows that the new layout has
  the same tokens.
\<close>

section \<open>The loop\<close>

definition isWhitespace :: "char \<Rightarrow> bool" where
  "isWhitespace aChar \<longleftrightarrow> aChar = CHR '' '' \<or> aChar = TAB \<or> aChar = NL \<or> aChar = CR"

text \<open>The next character that is not blank; a nul at the end of the text.\<close>

definition nextNonWhitespace :: "string \<Rightarrow> char" where
  "nextNonWhitespace rest = (case dropWhile isWhitespace rest of [] \<Rightarrow> NUL | c # _ \<Rightarrow> c)"

definition isXY :: "string \<Rightarrow> bool" where
  "isXY rest = (take 3 (drop 1 rest) = ''xy '')"

record PRETTY =
  p_formatted :: string
  p_listDepth :: nat
  p_lastNonWhitespace :: char
  p_inQuote :: bool
  p_hasInsertedSpace :: bool
  p_inMultiLineList :: bool
  p_inXY :: bool
  p_column :: nat
  p_backslashCount :: nat

definition PRETTY_init :: PRETTY where
  "PRETTY_init = \<lparr> p_formatted = [], p_listDepth = 0, p_lastNonWhitespace = NUL, p_inQuote = False,
     p_hasInsertedSpace = False, p_inMultiLineList = False, p_inXY = False, p_column = 0,
     p_backslashCount = 0 \<rparr>"

definition xySpecialCaseColumnLimit :: nat where "xySpecialCaseColumnLimit = 99"
definition consecutiveTokenWrapThreshold :: nat where "consecutiveTokenWrapThreshold = 72"

text \<open>A line end and the indentation, one tab per level.\<close>

definition new_line :: "nat \<Rightarrow> string" where
  "new_line depth = NL # replicate depth TAB"

definition pretty_space :: "char \<Rightarrow> PRETTY \<Rightarrow> PRETTY" where
  "pretty_space next p =
     (if \<not> p_hasInsertedSpace p \<and> p_listDepth p > 0 \<and> p_lastNonWhitespace p \<noteq> CHR ''('' \<and>
         next \<noteq> CHR '')'' \<and> next \<noteq> CHR ''(''
      then (if p_inXY p \<or> p_column p < consecutiveTokenWrapThreshold
            then p\<lparr> p_formatted := p_formatted p @ '' '', p_column := p_column p + 1 \<rparr>
            else p\<lparr> p_formatted := p_formatted p @ new_line (p_listDepth p), p_column := p_listDepth p,
                   p_inMultiLineList := True \<rparr>)\<lparr> p_hasInsertedSpace := True \<rparr>
      else p)"

definition pretty_open :: "bool \<Rightarrow> PRETTY \<Rightarrow> PRETTY" where
  "pretty_open currentIsXY p =
     (if p_listDepth p = 0
      then p\<lparr> p_formatted := p_formatted p @ ''('', p_column := p_column p + 1 \<rparr>
      else if p_inXY p \<and> currentIsXY \<and> p_column p < xySpecialCaseColumnLimit
      then p\<lparr> p_formatted := p_formatted p @ '' ('', p_column := p_column p + 2 \<rparr>
      else p\<lparr> p_formatted := p_formatted p @ new_line (p_listDepth p) @ ''('', p_column := p_listDepth p + 1 \<rparr>)
     \<lparr> p_inXY := currentIsXY, p_listDepth := p_listDepth p + 1 \<rparr>"

definition pretty_close :: "PRETTY \<Rightarrow> PRETTY" where
  "pretty_close p =
     (let p = p\<lparr> p_listDepth := p_listDepth p - 1 \<rparr>
      in if p_lastNonWhitespace p = CHR '')'' \<or> p_inMultiLineList p
         then p\<lparr> p_formatted := p_formatted p @ new_line (p_listDepth p) @ '')'', p_column := p_listDepth p + 1,
                p_inMultiLineList := False \<rparr>
         else p\<lparr> p_formatted := p_formatted p @ '')'', p_column := p_column p + 1 \<rparr>)"

definition pretty_char :: "char \<Rightarrow> char \<Rightarrow> PRETTY \<Rightarrow> PRETTY" where
  "pretty_char aQuoteChar c p =
     (let p = (if c = BACKSLASH then p\<lparr> p_backslashCount := p_backslashCount p + 1 \<rparr>
               else if c = aQuoteChar \<and> even (p_backslashCount p) then p\<lparr> p_inQuote := \<not> p_inQuote p \<rparr> else p);
          p = (if c \<noteq> BACKSLASH then p\<lparr> p_backslashCount := 0 \<rparr> else p)
      in p\<lparr> p_formatted := p_formatted p @ [c], p_column := p_column p + 1 \<rparr>)"

definition pretty_step :: "char \<Rightarrow> char \<Rightarrow> string \<Rightarrow> PRETTY \<Rightarrow> PRETTY" where
  "pretty_step aQuoteChar c rest p =
     (let next = nextNonWhitespace (c # rest)
      in if isWhitespace c \<and> \<not> p_inQuote p then pretty_space next p
         else let p = p\<lparr> p_hasInsertedSpace := False \<rparr>;
                  p = (if c = CHR ''('' \<and> \<not> p_inQuote p then pretty_open (isXY (c # rest)) p
                       else if c = CHR '')'' \<and> \<not> p_inQuote p then pretty_close p
                       else pretty_char aQuoteChar c p)
              in p\<lparr> p_lastNonWhitespace := c \<rparr>)"

fun pretty_loop :: "char \<Rightarrow> string \<Rightarrow> PRETTY \<Rightarrow> PRETTY" where
  "pretty_loop aQuoteChar [] p = p"
| "pretty_loop aQuoteChar (c # rest) p = pretty_loop aQuoteChar rest (pretty_step aQuoteChar c rest p)"

definition Prettify :: "string \<Rightarrow> char \<Rightarrow> string" where
  "Prettify aSource aQuoteChar = p_formatted (pretty_loop aQuoteChar aSource PRETTY_init) @ [NL]"

section \<open>The same tokens\<close>

text \<open>
  \<open>spaced b ts\<close>: the layout of \<open>ts\<close> is good after a bare symbol (\<open>b\<close>) or after another token. \<open>pretty_ok n ts\<close>:
  blanks as \<open>Prettify\<close> knows them, no quote and no backslash outside of strings, and strings and symbols
  only inside of a list, where \<open>n\<close> lists are open.
\<close>

fun is_bare :: "file_token \<Rightarrow> bool" where
  "is_bare (F_bare s) = True"
| "is_bare _ = False"

fun spaced :: "bool \<Rightarrow> (string \<times> file_token) list \<Rightarrow> bool" where
  "spaced b [] \<longleftrightarrow> True"
| "spaced b ((ws, t) # ts) \<longleftrightarrow> list_all isSpace ws \<and> token_ok t \<and> (b \<longrightarrow> ws \<noteq> [] \<or> t \<in> {F_left, F_right}) \<and>
     spaced (is_bare t) ts"

fun pretty_ok :: "nat \<Rightarrow> (string \<times> file_token) list \<Rightarrow> bool" where
  "pretty_ok n [] \<longleftrightarrow> True"
| "pretty_ok n ((ws, t) # ts) \<longleftrightarrow> list_all isWhitespace ws \<and>
     (case t of
        F_left \<Rightarrow> pretty_ok (n + 1) ts
      | F_right \<Rightarrow> pretty_ok (n - 1) ts
      | F_string s \<Rightarrow> 0 < n \<and> pretty_ok n ts
      | F_bare s \<Rightarrow> 0 < n \<and> QUOTE \<notin> set s \<and> BACKSLASH \<notin> set s \<and> pretty_ok n ts)"

lemma layout_ok_spaced: "layout_ok ts = spaced False ts"
proof (induction ts rule: layout_ok.induct)
  case (3 ws t ws' t' ts)
  then show ?case by (cases t) auto
qed auto

lemma layout_append: "layout (ts @ us) end_ws = layout ts [] @ layout us end_ws"
  by (induction ts) auto

lemma isWhitespace_isSpace: "isWhitespace c \<Longrightarrow> isSpace c"
  by (auto simp: isWhitespace_def isSpace_def)

lemma new_line_blank: "list_all isWhitespace (new_line n)" "new_line n \<noteq> []"
  by (simp_all add: new_line_def isWhitespace_def list_all_iff)

text \<open>The state between two tokens.\<close>

definition between :: "PRETTY \<Rightarrow> bool" where
  "between p \<longleftrightarrow> \<not> p_inQuote p \<and> p_backslashCount p = 0"

lemma nextNonWhitespace_skip:
  assumes "list_all isWhitespace ws" and "\<not> isWhitespace c"
  shows "nextNonWhitespace (ws @ c # r) = c"
  using while_split(2) [OF assms(1), of "c # r"] assms(2) by (simp add: nextNonWhitespace_def)

text \<open>A run of blanks before a token leaves no blank or, if the token may need one, one blank or line end.\<close>

lemma pretty_blanks:
  assumes "list_all isWhitespace ws" and "between p" and "nextNonWhitespace (ws @ r) = c"
    and "\<And>vs. suffix vs ws \<Longrightarrow> nextNonWhitespace (vs @ r) = c"
  shows "\<exists>pend p'. pretty_loop q (ws @ r) p = pretty_loop q r p' \<and> list_all isWhitespace pend \<and>
    p_formatted p' = p_formatted p @ pend \<and> between p' \<and> p_listDepth p' = p_listDepth p \<and>
    p_lastNonWhitespace p' = p_lastNonWhitespace p \<and>
    (c \<in> {CHR ''('', CHR '')''} \<longrightarrow> pend = []) \<and>
    (pend \<noteq> [] \<longrightarrow> p_hasInsertedSpace p') \<and> (pend = [] \<longrightarrow> p_hasInsertedSpace p' = p_hasInsertedSpace p) \<and>
    (ws \<noteq> [] \<and> 0 < p_listDepth p \<and> p_lastNonWhitespace p \<noteq> CHR ''('' \<and> c \<notin> {CHR ''('', CHR '')''} \<longrightarrow>
       pend \<noteq> [] \<or> p_hasInsertedSpace p)"
  using assms
proof (induction ws arbitrary: p)
  case Nil
  then show ?case by (intro exI [of _ "[]"] exI [of _ p]) simp
next
  case (Cons b ws)
  have b: "isWhitespace b" "list_all isWhitespace ws" using Cons.prems(1) by auto
  let ?p = "pretty_space c p"
  have step: "pretty_step q b (ws @ r) p = ?p"
    using b(1) Cons.prems(2,3) by (simp add: pretty_step_def between_def)
  have nx: "nextNonWhitespace (vs @ r) = c" if "suffix vs ws" for vs
    using Cons.prems(4) [OF suffix_ConsI [OF that]] .
  have bt: "between ?p" "p_listDepth ?p = p_listDepth p" "p_lastNonWhitespace ?p = p_lastNonWhitespace p"
    using Cons.prems(2) by (auto simp: pretty_space_def between_def)
  obtain pend p' where IH: "pretty_loop q (ws @ r) ?p = pretty_loop q r p'" "list_all isWhitespace pend"
    "p_formatted p' = p_formatted ?p @ pend" "between p'" "p_listDepth p' = p_listDepth ?p"
    "p_lastNonWhitespace p' = p_lastNonWhitespace ?p" "c \<in> {CHR ''('', CHR '')''} \<longrightarrow> pend = []"
    "pend \<noteq> [] \<longrightarrow> p_hasInsertedSpace p'" "pend = [] \<longrightarrow> p_hasInsertedSpace p' = p_hasInsertedSpace ?p"
    "ws \<noteq> [] \<and> 0 < p_listDepth ?p \<and> p_lastNonWhitespace ?p \<noteq> CHR ''('' \<and> c \<notin> {CHR ''('', CHR '')''} \<longrightarrow>
       pend \<noteq> [] \<or> p_hasInsertedSpace ?p"
    using Cons.IH [OF b(2) bt(1) nx [of ws] nx] by blast
  have sp: "p_formatted ?p = p_formatted p @ (if p_hasInsertedSpace p = p_hasInsertedSpace ?p then []
      else if p_inXY p \<or> p_column p < consecutiveTokenWrapThreshold then '' '' else new_line (p_listDepth p))"
    "p_hasInsertedSpace p \<longrightarrow> p_hasInsertedSpace ?p"
    "p_hasInsertedSpace ?p \<longleftrightarrow> p_hasInsertedSpace p \<or> 0 < p_listDepth p \<and> p_lastNonWhitespace p \<noteq> CHR ''('' \<and> c \<noteq> CHR '')'' \<and> c \<noteq> CHR ''(''"
    by (auto simp: pretty_space_def)
  let ?ins = "if p_hasInsertedSpace p = p_hasInsertedSpace ?p then []
      else if p_inXY p \<or> p_column p < consecutiveTokenWrapThreshold then '' '' else new_line (p_listDepth p)"
  have "list_all isWhitespace ?ins" using new_line_blank by (simp add: isWhitespace_def)
  then show ?case using IH sp step bt
    by (intro exI [of _ "?ins @ pend"] exI [of _ p']) (auto simp: new_line_blank)
qed

text \<open>A character that is copied.\<close>

lemma step_char:
  assumes "\<not> p_inQuote p \<longrightarrow> \<not> isWhitespace c \<and> c \<noteq> CHR ''('' \<and> c \<noteq> CHR '')''"
  shows "pretty_step q c r p = (pretty_char q c (p\<lparr> p_hasInsertedSpace := False \<rparr>))\<lparr> p_lastNonWhitespace := c \<rparr>"
proof (cases "p_inQuote p")
  case True
  then show ?thesis by (simp add: pretty_step_def Let_def)
next
  case False
  with assms have "\<not> isWhitespace c" "c \<noteq> CHR ''(''" "c \<noteq> CHR '')''" by simp_all
  then show ?thesis by (simp add: pretty_step_def Let_def)
qed

lemma pretty_char_frame [simp]:
  "p_formatted (pretty_char q c p) = p_formatted p @ [c]" "p_listDepth (pretty_char q c p) = p_listDepth p"
  "p_hasInsertedSpace (pretty_char q c p) = p_hasInsertedSpace p"
  "p_inQuote (pretty_char q c p) = (if c \<noteq> BACKSLASH \<and> c = q \<and> even (p_backslashCount p) then \<not> p_inQuote p else p_inQuote p)"
  "p_backslashCount (pretty_char q c p) = (if c = BACKSLASH then Suc (p_backslashCount p) else 0)"
  by (simp_all add: pretty_char_def Let_def)

lemma pretty_bare:
  assumes "list_all (\<lambda>c. \<not> isSep c \<and> c \<noteq> QUOTE \<and> c \<noteq> BACKSLASH) s" and "s \<noteq> []" and "between p"
  shows "\<exists>p'. pretty_loop QUOTE (s @ r) p = pretty_loop QUOTE r p' \<and> p_formatted p' = p_formatted p @ s \<and>
    between p' \<and> p_listDepth p' = p_listDepth p \<and> p_lastNonWhitespace p' \<noteq> CHR ''('' \<and> \<not> p_hasInsertedSpace p'"
  using assms
proof (induction s arbitrary: p)
  case (Cons c s)
  have c: "\<not> isWhitespace c" "c \<noteq> CHR ''(''" "c \<noteq> CHR '')''" "c \<noteq> QUOTE" "c \<noteq> BACKSLASH"
    using Cons.prems(1) isWhitespace_isSpace [of c] by (auto simp: isSep_def)
  let ?p = "pretty_step QUOTE c (s @ r) p"
  have p: "p_formatted ?p = p_formatted p @ [c]" "between ?p" "p_listDepth ?p = p_listDepth p"
    "p_lastNonWhitespace ?p = c" "\<not> p_hasInsertedSpace ?p"
    using c Cons.prems(3) step_char [of p c QUOTE "s @ r"] by (auto simp: between_def)
  show ?case
  proof (cases "s = []")
    case True
    then show ?thesis using p c(2) by (intro exI [of _ ?p]) auto
  next
    case False
    then show ?thesis using Cons.IH [of ?p] Cons.prems(1) p by auto
  qed
qed simp

lemma pretty_string_body:
  assumes "p_inQuote p" and "even (p_backslashCount p)"
  shows "\<exists>p'. pretty_loop QUOTE (Quotes_body s @ r) p = pretty_loop QUOTE r p' \<and>
    p_formatted p' = p_formatted p @ Quotes_body s \<and> p_inQuote p' \<and> even (p_backslashCount p') \<and>
    p_listDepth p' = p_listDepth p"
  using assms
proof (induction s arbitrary: p)
  case (Cons c s)
  have quoted: "pretty_step QUOTE d v p' = (pretty_char QUOTE d (p'\<lparr> p_hasInsertedSpace := False \<rparr>))\<lparr> p_lastNonWhitespace := d \<rparr>"
    if "p_inQuote p'" for d v p'
    using that by (intro step_char) simp
  have "\<exists>p1. pretty_loop QUOTE (Quotes_body (c # s) @ r) p = pretty_loop QUOTE (Quotes_body s @ r) p1 \<and>
    p_formatted p1 @ Quotes_body s = p_formatted p @ Quotes_body (c # s) \<and> p_inQuote p1 \<and>
    even (p_backslashCount p1) \<and> p_listDepth p1 = p_listDepth p"
    using Cons.prems by (auto simp: quoted)
  then obtain p1 where p1: "pretty_loop QUOTE (Quotes_body (c # s) @ r) p = pretty_loop QUOTE (Quotes_body s @ r) p1"
    "p_formatted p1 @ Quotes_body s = p_formatted p @ Quotes_body (c # s)" "p_inQuote p1"
    "even (p_backslashCount p1)" "p_listDepth p1 = p_listDepth p" by blast
  from Cons.IH [OF p1(3,4)] p1 show ?case by metis
qed (simp, blast)

lemma pretty_string:
  assumes "between p"
  shows "\<exists>p'. pretty_loop QUOTE (Quotes s @ r) p = pretty_loop QUOTE r p' \<and> p_formatted p' = p_formatted p @ Quotes s \<and>
    between p' \<and> p_listDepth p' = p_listDepth p \<and> \<not> p_hasInsertedSpace p'"
proof -
  have q: "\<not> isWhitespace QUOTE" by (simp add: isWhitespace_def)
  let ?p = "pretty_step QUOTE QUOTE (Quotes_body s @ QUOTE # r) p"
  have p: "p_formatted ?p = p_formatted p @ [QUOTE]" "p_inQuote ?p" "even (p_backslashCount ?p)" "p_listDepth ?p = p_listDepth p"
    using assms q by (auto simp: step_char between_def)
  from pretty_string_body [OF p(2,3), of s "QUOTE # r"] obtain p' where
    p': "pretty_loop QUOTE (Quotes_body s @ QUOTE # r) ?p = pretty_loop QUOTE (QUOTE # r) p'"
    "p_formatted p' = p_formatted ?p @ Quotes_body s" "p_inQuote p'" "even (p_backslashCount p')"
    "p_listDepth p' = p_listDepth ?p" by blast
  then show ?thesis using p q
    by (intro exI [of _ "pretty_step QUOTE QUOTE r p'"]) (auto simp: Quotes_def step_char between_def)
qed

text \<open>A token is copied, a bracket after a blank or a line end or none.\<close>

fun depth_after :: "file_token \<Rightarrow> nat \<Rightarrow> nat" where
  "depth_after F_left n = n + 1"
| "depth_after F_right n = n - 1"
| "depth_after _ n = n"

lemma isXY_first: "\<not> isWhitespace (CHR ''('')" "\<not> isWhitespace (CHR '')'')"
  by (simp_all add: isWhitespace_def)

lemma pretty_token:
  assumes "between p" and "token_ok t" and "\<forall>s. t = F_bare s \<longrightarrow> QUOTE \<notin> set s \<and> BACKSLASH \<notin> set s"
  shows "\<exists>pre p'. pretty_loop QUOTE (token_text t @ r) p = pretty_loop QUOTE r p' \<and>
    p_formatted p' = p_formatted p @ pre @ token_text t \<and> list_all isWhitespace pre \<and> between p' \<and>
    (t \<notin> {F_left, F_right} \<longrightarrow> pre = []) \<and> p_listDepth p' = depth_after t (p_listDepth p) \<and>
    (is_bare t \<longrightarrow> p_lastNonWhitespace p' \<noteq> CHR ''('') \<and> \<not> p_hasInsertedSpace p'"
proof (cases t)
  case F_left
  let ?p = "pretty_step QUOTE (CHR ''('') r p"
  have "\<exists>pre. p_formatted ?p = p_formatted p @ pre @ ''('' \<and> list_all isWhitespace pre"
    using assms(1) new_line_blank(1) [of "p_listDepth p"]
    by (auto simp: pretty_step_def pretty_open_def between_def isXY_first Let_def)
      (auto simp: isWhitespace_def intro!: exI [of _ "'' ''"])
  then obtain pre where "p_formatted ?p = p_formatted p @ pre @ ''(''" "list_all isWhitespace pre" by blast
  moreover have "between ?p" "p_listDepth ?p = p_listDepth p + 1" "\<not> p_hasInsertedSpace ?p"
    using assms(1) by (auto simp: pretty_step_def pretty_open_def between_def isXY_first Let_def)
  ultimately show ?thesis using F_left by (intro exI [of _ pre] exI [of _ ?p]) auto
next
  case F_right
  let ?p = "pretty_step QUOTE (CHR '')'') r p"
  have "\<exists>pre. p_formatted ?p = p_formatted p @ pre @ '')'' \<and> list_all isWhitespace pre"
    using assms(1) new_line_blank(1)
    by (auto simp: pretty_step_def pretty_close_def between_def isXY_first Let_def)
  then obtain pre where "p_formatted ?p = p_formatted p @ pre @ '')''" "list_all isWhitespace pre" by blast
  moreover have "between ?p" "p_listDepth ?p = p_listDepth p - 1" "\<not> p_hasInsertedSpace ?p"
    using assms(1) by (auto simp: pretty_step_def pretty_close_def between_def isXY_first Let_def)
  ultimately show ?thesis using F_right by (intro exI [of _ pre] exI [of _ ?p]) auto
next
  case (F_string s)
  from pretty_string [OF assms(1), of s r] F_string show ?thesis by auto
next
  case (F_bare s)
  then have "list_all (\<lambda>c. \<not> isSep c \<and> c \<noteq> QUOTE \<and> c \<noteq> BACKSLASH) s" "s \<noteq> []"
    using assms(2,3) by (auto simp: list_all_iff)
  from pretty_bare [OF this assms(1), of r] F_bare show ?thesis by auto
qed

lemma nextNonWhitespace_token:
  assumes "list_all isWhitespace ws" and "token_ok t"
  shows "nextNonWhitespace (ws @ token_text t @ r) = hd (token_text t)"
proof -
  have f: "token_text t \<noteq> []" "\<not> isSpace (hd (token_text t))" using token_text_facts [OF assms(2)] by blast+
  then have "\<not> isWhitespace (hd (token_text t))" using isWhitespace_isSpace by blast
  from nextNonWhitespace_skip [OF assms(1) this, of "tl (token_text t) @ r"] f(1) show ?thesis
    by (cases "token_text t") auto
qed

lemma list_all_suffix: "suffix vs ws \<Longrightarrow> list_all P ws \<Longrightarrow> list_all P vs"
  by (auto simp: suffix_def)

text \<open>The first character of a token tells the brackets apart.\<close>

lemma token_hd_bracket: "token_ok t \<Longrightarrow> hd (token_text t) \<in> {CHR ''('', CHR '')''} \<longleftrightarrow> t \<in> {F_left, F_right}"
  by (cases t) (auto simp: Quotes_def isSep_def neq_Nil_conv)

lemma pretty_loop_layout:
  assumes "between p" and "\<not> p_hasInsertedSpace p" and "b \<longrightarrow> p_lastNonWhitespace p \<noteq> CHR ''(''"
    and "spaced b ts" and "pretty_ok (p_listDepth p) ts" and "list_all isWhitespace end_ws"
  shows "\<exists>ts' end'. p_formatted (pretty_loop QUOTE (layout ts end_ws) p) = p_formatted p @ layout ts' end' \<and>
    spaced b ts' \<and> list_all isSpace end' \<and> map snd ts' = map snd ts"
  using assms
proof (induction ts arbitrary: p b)
  case Nil
  have "nextNonWhitespace vs = NUL" if "suffix vs end_ws" for vs
    using list_all_suffix [OF that Nil(6)] while_split(2) [of isWhitespace vs "[]"]
    by (simp add: nextNonWhitespace_def del: dropWhile_eq_Nil_conv)
  from pretty_blanks [OF Nil(6) Nil(1), of "[]" NUL QUOTE] this obtain pend p' where
    "pretty_loop QUOTE (end_ws @ []) p = pretty_loop QUOTE [] p'" "list_all isWhitespace pend"
    "p_formatted p' = p_formatted p @ pend" by auto
  then show ?case using isWhitespace_isSpace by (intro exI [of _ "[]"] exI [of _ pend]) (auto simp: list_all_iff)
next
  case (Cons wt ts)
  obtain ws t where wt: "wt = (ws, t)" by fastforce
  have ok: "list_all isWhitespace ws" "token_ok t" "b \<longrightarrow> ws \<noteq> [] \<or> t \<in> {F_left, F_right}" "spaced (is_bare t) ts"
    and po: "pretty_ok (depth_after t (p_listDepth p)) ts" "t \<notin> {F_left, F_right} \<longrightarrow> 0 < p_listDepth p"
      "\<forall>s. t = F_bare s \<longrightarrow> QUOTE \<notin> set s \<and> BACKSLASH \<notin> set s"
    using Cons.prems(4,5) wt by (auto split: file_token.splits)
  let ?r = "layout ts end_ws" and ?c = "hd (token_text t)"
  have nx: "nextNonWhitespace (vs @ token_text t @ ?r) = ?c" if "suffix vs ws" for vs
    using nextNonWhitespace_token [OF list_all_suffix [OF that ok(1)] ok(2)] .
  from pretty_blanks [OF ok(1) Cons.prems(1) nx nx] obtain pend p1 where
    p1: "pretty_loop QUOTE (ws @ token_text t @ ?r) p = pretty_loop QUOTE (token_text t @ ?r) p1"
    "list_all isWhitespace pend" "p_formatted p1 = p_formatted p @ pend" "between p1" "p_listDepth p1 = p_listDepth p"
    "ws \<noteq> [] \<and> 0 < p_listDepth p \<and> p_lastNonWhitespace p \<noteq> CHR ''('' \<and> ?c \<notin> {CHR ''('', CHR '')''} \<longrightarrow>
       pend \<noteq> [] \<or> p_hasInsertedSpace p" by (metis suffix_order.refl)
  from pretty_token [OF p1(4) ok(2) po(3), of ?r] obtain pre p2 where
    p2: "pretty_loop QUOTE (token_text t @ ?r) p1 = pretty_loop QUOTE ?r p2"
    "p_formatted p2 = p_formatted p1 @ pre @ token_text t" "list_all isWhitespace pre" "between p2"
    "p_listDepth p2 = depth_after t (p_listDepth p1)" "is_bare t \<longrightarrow> p_lastNonWhitespace p2 \<noteq> CHR ''(''"
    "\<not> p_hasInsertedSpace p2" by blast
  have "pretty_ok (p_listDepth p2) ts" using po(1) p1(5) p2(5) by simp
  from Cons.IH [OF p2(4,7,6) ok(4) this Cons.prems(6)] obtain ts' end' where
    ts': "p_formatted (pretty_loop QUOTE ?r p2) = p_formatted p2 @ layout ts' end'" "spaced (is_bare t) ts'"
    "list_all isSpace end'" "map snd ts' = map snd ts" by blast
  have "list_all isSpace (pend @ pre)" using p1(2) p2(3) isWhitespace_isSpace by (auto simp: list_all_iff)
  moreover have "b \<longrightarrow> pend @ pre \<noteq> [] \<or> t \<in> {F_left, F_right}"
    using Cons.prems(2,3) ok(3) po(2) p1(6) token_hd_bracket [OF ok(2)] by auto
  ultimately have "spaced b ((pend @ pre, t) # ts')" using ok(2) ts'(2) by simp
  moreover have "p_formatted (pretty_loop QUOTE (layout (wt # ts) end_ws) p) = p_formatted p @ layout ((pend @ pre, t) # ts') end'"
    using wt p1(1,3) p2(1,2) ts'(1) by simp
  ultimately show ?case using ts'(3,4) wt by (intro exI [of _ "(pend @ pre, t) # ts'"] exI [of _ end']) simp
qed

lemma Prettify_layout:
  assumes "layout_ok ts" and "pretty_ok 0 ts" and "list_all isWhitespace end_ws"
  shows "\<exists>ts' end'. Prettify (layout ts end_ws) QUOTE = layout ts' end' \<and> layout_ok ts' \<and>
    list_all isSpace end' \<and> map snd ts' = map snd ts"
proof -
  have "spaced False ts" using assms(1) by (simp add: layout_ok_spaced)
  from pretty_loop_layout [of PRETTY_init False ts end_ws] this assms(2,3) obtain ts' end' where
    ts': "p_formatted (pretty_loop QUOTE (layout ts end_ws) PRETTY_init) = layout ts' end'" "spaced False ts'"
    "list_all isSpace end'" "map snd ts' = map snd ts" by (auto simp: PRETTY_init_def between_def)
  have "layout us e @ [NL] = layout us (e @ [NL])" for us e by (induction us) auto
  then show ?thesis using ts' by (intro exI [of _ ts'] exI [of _ "end' @ [NL]"])
      (simp add: Prettify_def layout_ok_spaced isSpace_def)
qed

text \<open>
  C14. Laying out a file anew does not change what is read from it: when strings and symbols stand in a
  list, the lexer returns from the prettified text the same tokens with the same texts as from the
  original, strings with any bytes included.
\<close>

theorem Prettify_same_tokens:
  assumes "layout_ok ts" and "pretty_ok 0 ts" and "list_all isWhitespace end_ws" and "keywords_ok kw"
    and "length (layout ts end_ws) < 1000000" and "length (Prettify (layout ts end_ws) QUOTE) < 1000000"
    and "length ts < fuel"
  shows "\<exists>tokens. lex_all fuel (DSNLEXER_text names kw (layout ts end_ws) source) = Some (Inr tokens) \<and>
    lex_all fuel (DSNLEXER_text names kw (Prettify (layout ts end_ws) QUOTE) source) = Some (Inr tokens)"
proof -
  have all: "lex_all fuel (DSNLEXER_text names kw (layout us e) source) = Some (Inr (map (token_read kw) (map snd us)))"
    if "layout_ok us" "list_all isSpace e" "length (layout us e) < 1000000" "length us < fuel" for us e
  proof -
    obtain lx where lx: "lx = DSNLEXER_text names kw (layout us e) source" by blast
    have "lex_all fuel lx = Some (Inr (map (\<lambda>(ws, t). token_read kw t) us))"
      unfolding lx using text_layout_read [OF that(1,2) assms(4) that(3,4)] .
    then show ?thesis unfolding lx by (simp add: comp_def split_def)
  qed
  have "list_all isSpace end_ws" using assms(3) isWhitespace_isSpace by (auto simp: list_all_iff)
  note source = all [OF assms(1) this assms(5,7)]
  from Prettify_layout [OF assms(1-3)] obtain ts' end' where
    p: "Prettify (layout ts end_ws) QUOTE = layout ts' end'" "layout_ok ts'" "list_all isSpace end'" "map snd ts' = map snd ts"
    by blast
  have "length ts' = length ts" using arg_cong [OF p(4), of length] by simp
  then show ?thesis using source all [OF p(2,3)] assms(6,7) p(1,4) by simp
qed

theorem Prettify_same_tokens_witness:
  "\<exists>tokens. lex_all 9 (DSNLEXER_text [] None ''(net (code 1)\"a b\" )'' []) = Some (Inr tokens) \<and>
    lex_all 9 (DSNLEXER_text [] None (Prettify ''(net (code 1)\"a b\" )'' QUOTE) []) = Some (Inr tokens)"
proof -
  let ?ts = "[([], F_left), ([], F_bare ''net''), ('' '', F_left), ([], F_bare ''code''), ('' '', F_bare ''1''),
    ([], F_right), ([], F_string ''a b''), ('' '', F_right)]"
  have l: "layout ?ts [] = ''(net (code 1)\"a b\" )''" by (simp add: Quotes_def)
  have "length (Prettify (layout ?ts []) QUOTE) < 40" unfolding l by code_simp
  then have p: "length (Prettify (layout ?ts []) QUOTE) < 1000000" by (rule less_trans) simp
  have "\<exists>tokens. lex_all 9 (DSNLEXER_text [] None (layout ?ts []) []) = Some (Inr tokens) \<and>
    lex_all 9 (DSNLEXER_text [] None (Prettify (layout ?ts []) QUOTE) []) = Some (Inr tokens)"
    by (rule Prettify_same_tokens [OF _ _ _ _ _ p])
      (simp_all add: Quotes_def keywords_ok_def isSep_def isSpace_def isWhitespace_def)
  then show ?thesis unfolding l by simp
qed

end
