(* ===== verification/CnItems.thy ===== *)
theory CnItems
  imports LSet LayerRange
begin

text \<open>
  The items of the connectivity of a board: \<^verbatim>\<open>pcbnew/connectivity/connectivity_items.h\<close> and \<^verbatim>\<open>.cpp\<close>.

  A \<open>CN_ITEM\<close> stands for a pad, track, arc, via or shape of the board, or for one outline of the fill of a
  zone on one layer. Objects are shared by pointer and mutated in place, so there is a store for the
  board's items, one for the connectivity items and one for their anchors, all in the record
  \<open>CN_WORLD\<close>; a new object gets the next address. A board item is a record of what this code asks of it.
  The R-tree over the bounding boxes is the list of the items in it.
\<close>

section \<open>Data\<close>

text \<open>The types of the items of a board, a part of the enumeration \<open>KICAD_T\<close>.\<close>

datatype KICAD_T =
    PCB_FOOTPRINT_T | PCB_PAD_T | PCB_SHAPE_T | PCB_REFERENCE_IMAGE_T | PCB_FIELD_T
    | PCB_GENERATOR_T | PCB_TEXT_T | PCB_TEXTBOX_T | PCB_TABLE_T | PCB_TABLECELL_T
    | PCB_TRACE_T | PCB_VIA_T | PCB_ARC_T | PCB_MARKER_T | PCB_DIMENSION_T | PCB_DIM_ALIGNED_T
    | PCB_DIM_LEADER_T | PCB_DIM_CENTER_T | PCB_DIM_RADIAL_T | PCB_DIM_ORTHOGONAL_T
    | PCB_TARGET_T | PCB_ZONE_T | PCB_ITEM_LIST_T | PCB_NETINFO_T | PCB_GROUP_T

datatype PAD_ATTRIB = PTH | SMD | CONN | NPTH

text \<open>
  What the code asks of a board item: its type, its net, its ends (the position of a pad or via is the
  first one), where the shape of a pad is, the connection points of a shape, its layers, and for the fill of a zone the outlines on
  each layer. \<open>bi_connected\<close> is \<open>IsConnected\<close>; a footprint has pads.
\<close>

record BOARD_CITEM =
  bi_type :: KICAD_T
  bi_net :: int
  bi_start :: "int \<times> int"
  bi_end :: "int \<times> int"
  bi_shape_pos :: "int \<times> int"
  bi_points :: "(int \<times> int) list"
  bi_layer :: int
  bi_layer_set :: lset
  bi_bottom_layer :: int
  bi_on_copper :: bool
  bi_connected :: bool
  bi_attribute :: PAD_ATTRIB
  bi_free :: bool
  bi_just_added :: bool
  bi_footprint :: "nat option"
  bi_pads :: "nat list"
  bi_outlines :: "int \<Rightarrow> (int \<times> int) list list"

record CN_ANCHOR =
  an_pos :: "int \<times> int"
  an_item :: "nat option"
  an_tag :: int
  an_noline :: bool
  an_cluster :: "nat option"

text \<open>A \<open>CN_ZONE_LAYER\<close> is an item with the layer and the number of its outline.\<close>

record CN_ITEM =
  ci_parent :: nat
  ci_connected :: "nat list"
  ci_anchors :: "nat list"
  ci_layers :: LAYER_RANGE
  ci_canChangeNet :: bool
  ci_visited :: bool
  ci_valid :: bool
  ci_dirty :: bool
  ci_zone_layer :: "(int \<times> nat) option"

record CN_WORLD =
  cn_board :: "nat \<Rightarrow> BOARD_CITEM"
  cn_enabled :: lset
  cn_item :: "nat \<Rightarrow> CN_ITEM"
  cn_anchor :: "nat \<Rightarrow> CN_ANCHOR"
  cn_next_item :: nat
  cn_next_anchor :: nat
  cn_items :: "nat list"
  cn_index :: "nat list"
  cn_list_dirty :: bool
  cn_has_invalid :: bool
  cn_item_map :: "nat \<rightharpoonup> nat list"
  cn_dirty_nets :: "bool list"

text \<open>The board item of an item and the net of an item; \<open>-1\<close> for an item that was removed.\<close>

definition cn_parent :: "CN_WORLD \<Rightarrow> nat \<Rightarrow> BOARD_CITEM" where
  "cn_parent w i = cn_board w (ci_parent (cn_item w i))"

definition cn_Net :: "CN_WORLD \<Rightarrow> nat \<Rightarrow> int" where
  "cn_Net w i = (if \<not> ci_valid (cn_item w i) then - 1 else bi_net (cn_parent w i))"

definition upd_item :: "nat \<Rightarrow> (CN_ITEM \<Rightarrow> CN_ITEM) \<Rightarrow> CN_WORLD \<Rightarrow> CN_WORLD" where
  "upd_item i f w = w\<lparr> cn_item := (cn_item w)(i := f (cn_item w i)) \<rparr>"

definition SetVisited :: "bool \<Rightarrow> nat \<Rightarrow> CN_WORLD \<Rightarrow> CN_WORLD" where
  "SetVisited aVisited i w = upd_item i (\<lambda>it. it\<lparr> ci_visited := aVisited \<rparr>) w"

definition SetValid :: "bool \<Rightarrow> nat \<Rightarrow> CN_WORLD \<Rightarrow> CN_WORLD" where
  "SetValid aValid i w = upd_item i (\<lambda>it. it\<lparr> ci_valid := aValid \<rparr>) w"

text \<open>The connected items are kept in the order of their addresses, each once.\<close>

definition lower_bound :: "nat list \<Rightarrow> nat \<Rightarrow> nat list \<times> nat list" where
  "lower_bound xs b = (takeWhile (\<lambda>x. x < b) xs, dropWhile (\<lambda>x. x < b) xs)"

definition cn_Connect :: "nat \<Rightarrow> nat \<Rightarrow> CN_WORLD \<Rightarrow> CN_WORLD" where
  "cn_Connect i b w =
     (case lower_bound (ci_connected (cn_item w i)) b of
        (before, rest) \<Rightarrow>
          if rest \<noteq> [] \<and> hd rest = b then w
          else upd_item i (\<lambda>it. it\<lparr> ci_connected := before @ b # rest \<rparr>) w)"

definition item_RemoveInvalidRefs :: "nat \<Rightarrow> CN_WORLD \<Rightarrow> CN_WORLD" where
  "item_RemoveInvalidRefs i w =
     upd_item i (\<lambda>it. it\<lparr> ci_connected := filter (\<lambda>c. ci_valid (cn_item w c)) (ci_connected it) \<rparr>) w"

definition anchor_Valid :: "CN_WORLD \<Rightarrow> nat \<Rightarrow> bool" where
  "anchor_Valid w a = (case an_item (cn_anchor w a) of None \<Rightarrow> False | Some i \<Rightarrow> ci_valid (cn_item w i))"

definition anchor_Dirty :: "CN_WORLD \<Rightarrow> nat \<Rightarrow> bool" where
  "anchor_Dirty w a \<longleftrightarrow> \<not> anchor_Valid w a \<or>
     (case an_item (cn_anchor w a) of None \<Rightarrow> True | Some i \<Rightarrow> ci_dirty (cn_item w i))"

definition cn_AnchorCount :: "CN_WORLD \<Rightarrow> nat \<Rightarrow> nat" where
  "cn_AnchorCount w i =
     (let it = cn_item w i; p = cn_parent w i
      in if \<not> ci_valid it then 0
         else case ci_zone_layer it of
           Some (layer, sub) \<Rightarrow>
             if sub < length (bi_outlines p layer) \<and> bi_outlines p layer ! sub \<noteq> [] then 1 else 0
         | None \<Rightarrow>
             if bi_type p \<in> {PCB_TRACE_T, PCB_ARC_T} then 2
             else if bi_type p = PCB_SHAPE_T then length (ci_anchors it)
             else 1)"

definition HasSingleConnection :: "CN_WORLD \<Rightarrow> nat \<Rightarrow> bool" where
  "HasSingleConnection w i = (length (filter (\<lambda>c. ci_valid (cn_item w c)) (ci_connected (cn_item w i))) = 1)"

section \<open>\<open>CN_LIST\<close>\<close>

definition CN_ITEM_make :: "nat \<Rightarrow> bool \<Rightarrow> CN_ITEM" where
  "CN_ITEM_make aParent aCanChangeNet =
     \<lparr> ci_parent = aParent, ci_connected = [], ci_anchors = [],
       ci_layers = LAYER_RANGE_make 0 (pcb_num PCB_LAYER_ID_COUNT), ci_canChangeNet = aCanChangeNet,
       ci_visited = False, ci_valid = True, ci_dirty = True, ci_zone_layer = None \<rparr>"

text \<open>\<^verbatim>\<open>new CN_ITEM\<close>: the address and the world with the object.\<close>

definition new_item :: "CN_ITEM \<Rightarrow> CN_WORLD \<Rightarrow> nat \<times> CN_WORLD" where
  "new_item it w = (cn_next_item w,
     w\<lparr> cn_item := (cn_item w)(cn_next_item w := it), cn_next_item := cn_next_item w + 1 \<rparr>)"

definition AddAnchor :: "nat \<Rightarrow> int \<times> int \<Rightarrow> CN_WORLD \<Rightarrow> CN_WORLD" where
  "AddAnchor i aPos w =
     (let a = cn_next_anchor w
      in upd_item i (\<lambda>it. it\<lparr> ci_anchors := ci_anchors it @ [a] \<rparr>)
           (w\<lparr> cn_anchor := (cn_anchor w)(a := \<lparr> an_pos = aPos, an_item = Some i, an_tag = - 1,
                an_noline = False, an_cluster = None \<rparr>), cn_next_anchor := a + 1 \<rparr>))"

definition SetLayers :: "LAYER_RANGE \<Rightarrow> nat \<Rightarrow> CN_WORLD \<Rightarrow> CN_WORLD" where
  "SetLayers aLayers i w = upd_item i (\<lambda>it. it\<lparr> ci_layers := aLayers \<rparr>) w"

definition list_insert :: "nat \<Rightarrow> CN_WORLD \<Rightarrow> CN_WORLD" where
  "list_insert i w = w\<lparr> cn_items := cn_items w @ [i], cn_index := cn_index w @ [i], cn_list_dirty := True \<rparr>"

text \<open>The first copper layer of a pad that is on one side; \<open>None\<close> is a read past the set.\<close>

fun first_layer :: "lset \<Rightarrow> nat list \<Rightarrow> int option option" where
  "first_layer lmsk [] = Some None"
| "first_layer lmsk (i # is) =
     (case BASE_SET_at lmsk i of
        None \<Rightarrow> None
      | Some b \<Rightarrow> if b \<noteq> 0 then Some (Some (int i)) else first_layer lmsk is)"

text \<open>Each \<open>Add\<close> returns the new item; a pad that is not on copper gives none.\<close>

definition list_Add_pad :: "nat \<Rightarrow> CN_WORLD \<Rightarrow> (nat option \<times> CN_WORLD) option" where
  "list_Add_pad pad w =
     (let p = cn_board w pad
      in if \<not> bi_on_copper p then Some (None, w)
         else (case new_item (CN_ITEM_make pad False) w of
           (i, w) \<Rightarrow>
             let w = SetLayers (LAYER_RANGE_make (pcb_num F_Cu) (pcb_num B_Cu)) i (AddAnchor i (bi_shape_pos p) w)
             in if bi_attribute p \<in> {SMD, NPTH, CONN}
                then (case first_layer (bi_layer_set p) [0..<Suc (nat MAX_CU_LAYERS)] of
                        None \<Rightarrow> None
                      | Some None \<Rightarrow> Some (Some i, list_insert i w)
                      | Some (Some l) \<Rightarrow> Some (Some i, list_insert i (SetLayers (LAYER_RANGE_make l l) i w)))
                else Some (Some i, list_insert i w)))"

definition list_Add_track :: "nat \<Rightarrow> CN_WORLD \<Rightarrow> nat option \<times> CN_WORLD" where
  "list_Add_track track w =
     (let p = cn_board w track
      in case new_item (CN_ITEM_make track True) w of
           (i, w) \<Rightarrow> (Some i, list_insert i (SetLayers (LAYER_RANGE_make (bi_layer p) (bi_layer p)) i
             (AddAnchor i (bi_end p) (AddAnchor i (bi_start p) w)))))"

definition list_Add_arc :: "nat \<Rightarrow> CN_WORLD \<Rightarrow> nat option \<times> CN_WORLD" where
  "list_Add_arc aArc w =
     (let p = cn_board w aArc
      in case new_item (CN_ITEM_make aArc True) w of
           (i, w) \<Rightarrow> (Some i, list_insert i (SetLayers (LAYER_RANGE_make (bi_layer p) (bi_layer p)) i
             (AddAnchor i (bi_end p) (AddAnchor i (bi_start p) w)))))"

definition list_Add_via :: "nat \<Rightarrow> CN_WORLD \<Rightarrow> nat option \<times> CN_WORLD" where
  "list_Add_via via w =
     (let p = cn_board w via
      in case new_item (CN_ITEM_make via (\<not> bi_free p)) w of
           (i, w) \<Rightarrow> (Some i, list_insert i (SetLayers (LAYER_RANGE_make (bi_layer p) (bi_bottom_layer p)) i
             (AddAnchor i (bi_start p) w))))"

definition list_Add_shape :: "nat \<Rightarrow> CN_WORLD \<Rightarrow> nat option \<times> CN_WORLD" where
  "list_Add_shape shape w =
     (let p = cn_board w shape
      in case new_item (CN_ITEM_make shape True) w of
           (i, w) \<Rightarrow> (Some i, list_insert i (SetLayers (LAYER_RANGE_make (bi_layer p) (bi_layer p)) i
             (fold (AddAnchor i) (bi_points p) w))))"

definition CN_ZONE_LAYER_make :: "nat \<Rightarrow> int \<Rightarrow> nat \<Rightarrow> CN_ITEM" where
  "CN_ZONE_LAYER_make aParent aLayer aSubpolyIndex =
     (CN_ITEM_make aParent False)\<lparr> ci_layers := LAYER_RANGE_single aLayer,
       ci_zone_layer := Some (aLayer, aSubpolyIndex) \<rparr>"

definition list_Add_outline :: "nat \<Rightarrow> int \<Rightarrow> nat \<Rightarrow> CN_WORLD \<Rightarrow> nat \<times> CN_WORLD" where
  "list_Add_outline zone aLayer j w =
     (case new_item (CN_ZONE_LAYER_make zone aLayer j) w of
        (i, w) \<Rightarrow> (i, list_insert i (fold (AddAnchor i) (bi_outlines (cn_board w zone) aLayer ! j) w)))"

definition list_Add_zone :: "nat \<Rightarrow> int \<Rightarrow> CN_WORLD \<Rightarrow> nat list \<times> CN_WORLD" where
  "list_Add_zone zone aLayer w =
     fold (\<lambda>j (rv, w). case list_Add_outline zone aLayer j w of (i, w) \<Rightarrow> (rv @ [i], w))
       [0..<length (bi_outlines (cn_board w zone) aLayer)] ([], w)"

text \<open>The removed items, and the world without them in the list and in the index.\<close>

definition RemoveInvalidItems :: "CN_WORLD \<Rightarrow> nat list \<times> CN_WORLD" where
  "RemoveInvalidItems w =
     (if \<not> cn_has_invalid w then ([], w)
      else let garbage = filter (\<lambda>i. \<not> ci_valid (cn_item w i)) (cn_items w)
           in (garbage, w\<lparr> cn_items := filter (\<lambda>i. ci_valid (cn_item w i)) (cn_items w),
                 cn_index := filter (\<lambda>i. i \<notin> set garbage) (cn_index w), cn_has_invalid := False \<rparr>))"

definition list_ClearDirtyFlags :: "CN_WORLD \<Rightarrow> CN_WORLD" where
  "list_ClearDirtyFlags w =
     (fold (\<lambda>i. upd_item i (\<lambda>it. it\<lparr> ci_dirty := False \<rparr>)) (cn_items w) w)\<lparr> cn_list_dirty := False \<rparr>"

text \<open>Deleting an item leaves its anchors without an item.\<close>

definition delete_item :: "nat \<Rightarrow> CN_WORLD \<Rightarrow> CN_WORLD" where
  "delete_item i w =
     w\<lparr> cn_anchor := (\<lambda>a. if a \<in> set (ci_anchors (cn_item w i)) then (cn_anchor w a)\<lparr> an_item := None \<rparr> else cn_anchor w a) \<rparr>"

section \<open>\<open>CN_CLUSTER\<close>\<close>

record CN_CLUSTER =
  cl_conflicting :: bool
  cl_originNet :: int
  cl_originPad :: "nat option"
  cl_items :: "nat list"
  cl_netRanks :: "int \<rightharpoonup> nat"

definition CN_CLUSTER_make :: CN_CLUSTER where
  "CN_CLUSTER_make = \<lparr> cl_conflicting = False, cl_originNet = - 1, cl_originPad = None, cl_items = [],
     cl_netRanks = Map.empty \<rparr>"

definition HasValidNet :: "CN_CLUSTER \<Rightarrow> bool" where
  "HasValidNet c \<longleftrightarrow> cl_originNet c > 0"

definition IsOrphaned :: "CN_CLUSTER \<Rightarrow> bool" where
  "IsOrphaned c \<longleftrightarrow> cl_originPad c = None"

definition cluster_Contains :: "CN_CLUSTER \<Rightarrow> nat \<Rightarrow> bool" where
  "cluster_Contains c aItem \<longleftrightarrow> aItem \<in> set (cl_items c)"

definition cluster_Contains_parent :: "CN_WORLD \<Rightarrow> CN_CLUSTER \<Rightarrow> nat \<Rightarrow> bool" where
  "cluster_Contains_parent w c aItem \<longleftrightarrow>
     list_ex (\<lambda>i. ci_valid (cn_item w i) \<and> ci_parent (cn_item w i) = aItem) (cl_items c)"

text \<open>\<^verbatim>\<open>m_netRanks[n]\<close> of an unordered map: 0 for a net that is not there.\<close>

definition rank_of :: "CN_CLUSTER \<Rightarrow> int \<Rightarrow> nat" where
  "rank_of c n = (case cl_netRanks c n of None \<Rightarrow> 0 | Some r \<Rightarrow> r)"

definition rank_pad :: "nat \<Rightarrow> int \<Rightarrow> CN_CLUSTER \<Rightarrow> CN_CLUSTER" where
  "rank_pad item netCode c =
     (let rank = (case cl_netRanks c netCode of None \<Rightarrow> 1 | Some r \<Rightarrow> r + 1);
          c = c\<lparr> cl_netRanks := (cl_netRanks c)(netCode \<mapsto> rank) \<rparr>;
          c = (if cl_originPad c = None \<or> rank > rank_of c (cl_originNet c)
               then c\<lparr> cl_originPad := Some item, cl_originNet := netCode \<rparr> else c)
      in if cl_originPad c \<noteq> None \<and> netCode \<noteq> cl_originNet c then c\<lparr> cl_conflicting := True \<rparr> else c)"

definition cluster_Add :: "CN_WORLD \<Rightarrow> nat \<Rightarrow> CN_CLUSTER \<Rightarrow> CN_CLUSTER" where
  "cluster_Add w item c =
     (let c = c\<lparr> cl_items := cl_items c @ [item] \<rparr>; netCode = cn_Net w item
      in if netCode \<le> 0 then c
         else let c = (if cl_originNet c \<le> 0
                       then c\<lparr> cl_originNet := netCode, cl_netRanks := (cl_netRanks c)(netCode \<mapsto> 0) \<rparr> else c)
              in if bi_type (cn_parent w item) = PCB_PAD_T \<and> \<not> bi_free (cn_parent w item)
                 then rank_pad item netCode c else c)"

end
