(* ===== verification/CnAlgo.thy ===== *)
theory CnAlgo
  imports CnItems
begin

text \<open>
  \<open>CN_CONNECTIVITY_ALGO\<close> and \<open>CN_VISITOR\<close> of \<^verbatim>\<open>pcbnew/connectivity/connectivity_algo.h\<close> and \<^verbatim>\<open>.cpp\<close>: adding
  and removing board items, the search for connections, the search for clusters and the
  propagation of nets.

  The geometry of shapes and zone fills is a parameter, the record \<open>CN_GEOMETRY\<close>. The search for
  connections visits the items one after the other; the code does it in a pool of threads under a lock
  per item. There is no progress reporter.
  \<open>None\<close> is a failed assertion, an access out of bounds or a loop that does not end.
\<close>

section \<open>Nets that changed\<close>

definition MarkNetAsDirty :: "int \<Rightarrow> CN_WORLD \<Rightarrow> CN_WORLD" where
  "MarkNetAsDirty aNet w =
     (if aNet < 0 then w
      else let n = nat aNet; nets = cn_dirty_nets w;
               nets = (if length nets \<le> n
                       then take (length nets - 1) nets @ replicate (n + 1 - (length nets - 1)) True
                       else nets)
           in w\<lparr> cn_dirty_nets := nets[n := True] \<rparr>)"

text \<open>The flag of a net; \<open>None\<close> is a read past the vector.\<close>

definition IsNetDirty :: "int \<Rightarrow> CN_WORLD \<Rightarrow> bool option" where
  "IsNetDirty aNet w =
     (if aNet < 0 then Some False
      else if nat aNet < length (cn_dirty_nets w) then Some (cn_dirty_nets w ! nat aNet) else None)"

definition nets_ClearDirtyFlags :: "CN_WORLD \<Rightarrow> CN_WORLD" where
  "nets_ClearDirtyFlags w = w\<lparr> cn_dirty_nets := map (\<lambda>_. False) (cn_dirty_nets w) \<rparr>"

definition markItemNetAsDirty :: "nat \<Rightarrow> CN_WORLD \<Rightarrow> CN_WORLD" where
  "markItemNetAsDirty aItem w =
     (let b = cn_board w aItem
      in if bi_connected b then MarkNetAsDirty (bi_net b) w
         else if bi_type b = PCB_FOOTPRINT_T
         then fold (\<lambda>pad w. MarkNetAsDirty (bi_net (cn_board w pad)) w) (bi_pads b) w
         else w)"

section \<open>Adding and removing board items\<close>

text \<open>\<^verbatim>\<open>m_itemMap[aItem].MarkItemsAsInvalid()\<close> and \<^verbatim>\<open>m_itemMap.erase( aItem )\<close>.\<close>

definition drop_entry :: "nat \<Rightarrow> CN_WORLD \<Rightarrow> CN_WORLD" where
  "drop_entry aItem w =
     (let w = fold (SetValid False) (case cn_item_map w aItem of None \<Rightarrow> [] | Some is \<Rightarrow> is) w
      in w\<lparr> cn_item_map := (cn_item_map w)(aItem := None) \<rparr>)"

definition algo_Remove :: "nat \<Rightarrow> CN_WORLD \<Rightarrow> bool \<times> CN_WORLD" where
  "algo_Remove aItem w =
     (let b = cn_board w aItem; w = markItemNetAsDirty aItem w
      in if bi_type b = PCB_FOOTPRINT_T
         then (True, (fold drop_entry (bi_pads b) w)\<lparr> cn_list_dirty := True, cn_has_invalid := True \<rparr>)
         else if bi_type b \<in> {PCB_PAD_T, PCB_TRACE_T, PCB_ARC_T, PCB_VIA_T, PCB_ZONE_T, PCB_SHAPE_T}
         then (True, (drop_entry aItem w)\<lparr> cn_list_dirty := True, cn_has_invalid := True \<rparr>)
         else (False, w))"

definition alreadyAdded :: "nat \<Rightarrow> CN_WORLD \<Rightarrow> bool" where
  "alreadyAdded item w \<longleftrightarrow> (case cn_item_map w item of None \<Rightarrow> False | Some is \<Rightarrow> is \<noteq> [])"

text \<open>The template \<open>add\<close>: an entry for the new item, empty when there is none.\<close>

definition add_entry :: "nat \<Rightarrow> nat option \<times> CN_WORLD \<Rightarrow> CN_WORLD" where
  "add_entry brditem r =
     (case r of (i, w) \<Rightarrow> w\<lparr> cn_item_map := (cn_item_map w)(brditem \<mapsto> (case i of None \<Rightarrow> [] | Some i \<Rightarrow> [i])) \<rparr>)"

fun add_pads :: "nat list \<Rightarrow> CN_WORLD \<Rightarrow> (bool \<times> CN_WORLD) option" where
  "add_pads [] w = Some (True, w)"
| "add_pads (pad # pads) w =
     (if alreadyAdded pad w then Some (False, w)
      else (case list_Add_pad pad w of None \<Rightarrow> None | Some r \<Rightarrow> add_pads pads (add_entry pad r)))"

definition add_zone :: "nat \<Rightarrow> CN_WORLD \<Rightarrow> CN_WORLD option" where
  "add_zone zone w =
     (case BASE_SET_and (cn_enabled w) (bi_layer_set (cn_board w zone)) of
        None \<Rightarrow> None
      | Some layerset \<Rightarrow> Some (LSET_RunOnLayers layerset
          (\<lambda>layer w. case list_Add_zone zone layer w of
             (zitems, w) \<Rightarrow> w\<lparr> cn_item_map := (cn_item_map w)(zone \<mapsto>
               (case cn_item_map w zone of None \<Rightarrow> [] | Some is \<Rightarrow> is) @ zitems) \<rparr>)
          (w\<lparr> cn_item_map := (cn_item_map w)(zone \<mapsto> []) \<rparr>)))"

definition algo_Add :: "nat \<Rightarrow> CN_WORLD \<Rightarrow> (bool \<times> CN_WORLD) option" where
  "algo_Add aItem w =
     (let b = cn_board w aItem; done = (\<lambda>w. Some (True, markItemNetAsDirty aItem w))
      in if \<not> bi_on_copper b then Some (False, w)
         else case bi_type b of
           PCB_NETINFO_T \<Rightarrow> done (MarkNetAsDirty (bi_net b) w)
         | PCB_FOOTPRINT_T \<Rightarrow>
             if bi_just_added b then Some (False, w)
             else (case add_pads (bi_pads b) w of
                     None \<Rightarrow> None | Some (False, w) \<Rightarrow> Some (False, w) | Some (True, w) \<Rightarrow> done w)
         | PCB_PAD_T \<Rightarrow>
             if (case bi_footprint b of None \<Rightarrow> False | Some fp \<Rightarrow> bi_just_added (cn_board w fp)) \<or> alreadyAdded aItem w
             then Some (False, w)
             else (case list_Add_pad aItem w of None \<Rightarrow> None | Some r \<Rightarrow> done (add_entry aItem r))
         | PCB_TRACE_T \<Rightarrow> if alreadyAdded aItem w then Some (False, w) else done (add_entry aItem (list_Add_track aItem w))
         | PCB_ARC_T \<Rightarrow> if alreadyAdded aItem w then Some (False, w) else done (add_entry aItem (list_Add_arc aItem w))
         | PCB_VIA_T \<Rightarrow> if alreadyAdded aItem w then Some (False, w) else done (add_entry aItem (list_Add_via aItem w))
         | PCB_SHAPE_T \<Rightarrow>
             if alreadyAdded aItem w \<or> \<not> IsCopperLayer (bi_layer b) then Some (False, w)
             else done (add_entry aItem (list_Add_shape aItem w))
         | PCB_ZONE_T \<Rightarrow>
             if alreadyAdded aItem w then Some (False, w)
             else (case add_zone aItem w of None \<Rightarrow> None | Some w \<Rightarrow> done w)
         | _ \<Rightarrow> Some (False, w))"

definition ItemExists :: "nat \<Rightarrow> CN_WORLD \<Rightarrow> bool" where
  "ItemExists aItem w \<longleftrightarrow> cn_item_map w aItem \<noteq> None"

section \<open>Searching connections\<close>

text \<open>
  What the geometry says: the items whose boxes meet the box of an item, whether a board item is on a
  layer, is flashed there or must not connect to zones there, and what points and shapes collide.
\<close>

record CN_GEOMETRY =
  g_nearby :: "CN_WORLD \<Rightarrow> nat \<Rightarrow> nat list"
  g_on_layer :: "nat \<Rightarrow> int \<Rightarrow> bool"
  g_no_zone :: "nat \<Rightarrow> int \<Rightarrow> bool"
  g_flashed :: "nat \<Rightarrow> int \<Rightarrow> bool"
  g_boxes_meet :: "nat \<Rightarrow> nat \<Rightarrow> bool"
  g_in_box :: "nat \<Rightarrow> int \<times> int \<Rightarrow> bool"
  g_zone_contains :: "nat \<Rightarrow> int \<times> int \<Rightarrow> bool"
  g_zone_collides :: "nat \<Rightarrow> nat \<Rightarrow> int \<Rightarrow> bool \<Rightarrow> bool"
  g_collides :: "int \<Rightarrow> nat \<times> bool \<Rightarrow> nat \<times> bool \<Rightarrow> bool"

definition connect_both :: "nat \<Rightarrow> nat \<Rightarrow> CN_WORLD \<Rightarrow> CN_WORLD" where
  "connect_both a b w = cn_Connect b a (cn_Connect a b w)"

definition zone_outline :: "CN_WORLD \<Rightarrow> nat \<Rightarrow> (int \<times> int) list" where
  "zone_outline w i = (case ci_zone_layer (cn_item w i) of
     None \<Rightarrow> [] | Some (layer, sub) \<Rightarrow> bi_outlines (cn_parent w i) layer ! sub)"

definition cn_GetAnchor :: "CN_WORLD \<Rightarrow> nat \<Rightarrow> nat \<Rightarrow> int \<times> int" where
  "cn_GetAnchor w i n =
     (let it = cn_item w i; p = cn_parent w i
      in if \<not> ci_valid it then (0, 0)
         else if ci_zone_layer it \<noteq> None then zone_outline w i ! 0
         else if bi_type p \<in> {PCB_PAD_T, PCB_VIA_T} then bi_start p
         else if bi_type p \<in> {PCB_TRACE_T, PCB_ARC_T} then (if n = 0 then bi_start p else bi_end p)
         else if bi_type p = PCB_SHAPE_T \<and> n < length (ci_anchors it) then an_pos (cn_anchor w (ci_anchors it ! n))
         else (0, 0))"

definition zone_layer :: "CN_WORLD \<Rightarrow> nat \<Rightarrow> int" where
  "zone_layer w i = (case ci_zone_layer (cn_item w i) of None \<Rightarrow> 0 | Some (layer, sub) \<Rightarrow> layer)"

definition checkZoneItemConnection :: "CN_GEOMETRY \<Rightarrow> nat \<Rightarrow> nat \<Rightarrow> CN_WORLD \<Rightarrow> CN_WORLD" where
  "checkZoneItemConnection g aZoneLayer aItem w =
     (let layer = zone_layer w aZoneLayer; p = ci_parent (cn_item w aItem); ty = bi_type (cn_parent w aItem)
      in if \<not> g_on_layer g p layer then w
         else if ty \<in> {PCB_PAD_T, PCB_VIA_T} \<and> g_no_zone g p layer then w
         else if list_ex (\<lambda>i. g_zone_contains g aZoneLayer (cn_GetAnchor w aItem i)) [0..<cn_AnchorCount w aItem]
         then connect_both aZoneLayer aItem w
         else if g_zone_collides g aZoneLayer p layer (ty \<in> {PCB_VIA_T, PCB_PAD_T})
         then connect_both aZoneLayer aItem w
         else w)"

definition checkZoneZoneConnection :: "CN_GEOMETRY \<Rightarrow> nat \<Rightarrow> nat \<Rightarrow> CN_WORLD \<Rightarrow> CN_WORLD" where
  "checkZoneZoneConnection g aZoneLayerA aZoneLayerB w =
     (if zone_layer w aZoneLayerB \<noteq> zone_layer w aZoneLayerA then w
      else if \<not> g_boxes_meet g aZoneLayerA aZoneLayerB then w
      else if list_ex (\<lambda>p. g_in_box g aZoneLayerB p \<and> g_zone_contains g aZoneLayerB p) (zone_outline w aZoneLayerA) \<or>
              list_ex (\<lambda>p. g_in_box g aZoneLayerA p \<and> g_zone_contains g aZoneLayerA p) (zone_outline w aZoneLayerB)
      then connect_both aZoneLayerA aZoneLayerB w
      else w)"

text \<open>Whether the shape of a pad or via is taken as flashed on a layer.\<close>

definition always_flashed :: "CN_GEOMETRY \<Rightarrow> CN_WORLD \<Rightarrow> nat \<Rightarrow> int \<Rightarrow> bool" where
  "always_flashed g w i layer \<longleftrightarrow>
     bi_type (cn_parent w i) \<in> {PCB_PAD_T, PCB_VIA_T} \<and> \<not> g_flashed g (ci_parent (cn_item w i)) layer"

definition visit :: "CN_GEOMETRY \<Rightarrow> nat \<Rightarrow> nat \<Rightarrow> CN_WORLD \<Rightarrow> CN_WORLD option" where
  "visit g m_item aCandidate w =
     (let c = cn_item w aCandidate; m = cn_item w m_item;
          zoneA = (bi_type (cn_parent w aCandidate) = PCB_ZONE_T); zoneB = (bi_type (cn_parent w m_item) = PCB_ZONE_T)
      in if \<not> ci_valid c \<or> \<not> ci_valid m then Some w
         else if ci_parent c = ci_parent m then Some w
         else if \<not> ci_canChangeNet c \<and> \<not> ci_canChangeNet m \<and> cn_Net w aCandidate \<noteq> cn_Net w m_item then Some w
         else if ci_dirty c \<and> aCandidate < m_item then Some w
         else if zoneA \<and> zoneB then Some (checkZoneZoneConnection g m_item aCandidate w)
         else if zoneA then Some (checkZoneItemConnection g aCandidate m_item w)
         else if zoneB then Some (checkZoneItemConnection g m_item aCandidate w)
         else (case BASE_SET_and (bi_layer_set (cn_parent w aCandidate)) (bi_layer_set (cn_parent w m_item)) of
                 None \<Rightarrow> None
               | Some commonLayers \<Rightarrow> Some
                   (if list_ex (\<lambda>ii. BASE_SET_test commonLayers ii \<and>
                         g_collides g (int ii) (ci_parent c, always_flashed g w aCandidate (int ii))
                           (ci_parent m, always_flashed g w m_item (int ii))) [0..<length commonLayers]
                    then connect_both m_item aCandidate w else w)))"

definition search_item :: "CN_GEOMETRY \<Rightarrow> nat \<Rightarrow> CN_WORLD \<Rightarrow> CN_WORLD option" where
  "search_item g i w = fold_opt (visit g i) (g_nearby g w i) w"

definition algo_RemoveInvalidRefs :: "CN_WORLD \<Rightarrow> CN_WORLD" where
  "algo_RemoveInvalidRefs w = fold item_RemoveInvalidRefs (cn_items w) w"

definition searchConnections :: "CN_GEOMETRY \<Rightarrow> CN_WORLD \<Rightarrow> CN_WORLD option" where
  "searchConnections g w = do {
     let w = algo_RemoveInvalidRefs w;
     let (garbage, w) = RemoveInvalidItems w;
     let w = fold delete_item garbage w;
     let dirtyItems = filter (\<lambda>i. ci_dirty (cn_item w i)) (cn_items w);
     w \<leftarrow> (if cn_list_dirty w then fold_opt (search_item g) dirtyItems w else Some w);
     Some (list_ClearDirtyFlags w)
   }"

section \<open>Clusters\<close>

datatype CLUSTER_SEARCH_MODE = CSM_PROPAGATE | CSM_CONNECTIVITY_CHECK | CSM_RATSNEST

definition withoutZones :: "KICAD_T list" where
  "withoutZones = [PCB_TRACE_T, PCB_ARC_T, PCB_PAD_T, PCB_VIA_T, PCB_FOOTPRINT_T, PCB_SHAPE_T]"

definition withZones :: "KICAD_T list" where
  "withZones = [PCB_TRACE_T, PCB_ARC_T, PCB_PAD_T, PCB_VIA_T, PCB_ZONE_T, PCB_FOOTPRINT_T, PCB_SHAPE_T]"

definition in_search :: "bool \<Rightarrow> KICAD_T list \<Rightarrow> int \<Rightarrow> nat option \<Rightarrow> CN_WORLD \<Rightarrow> nat \<Rightarrow> bool" where
  "in_search withinAnyNet aTypes aSingleNet rootItem w aItem \<longleftrightarrow>
     \<not> (withinAnyNet \<and> cn_Net w aItem \<le> 0) \<and> ci_valid (cn_item w aItem) \<and>
     \<not> (aSingleNet \<ge> 0 \<and> cn_Net w aItem \<noteq> aSingleNet) \<and>
     (bi_type (cn_parent w aItem) \<in> set aTypes \<or> rootItem = Some aItem)"

text \<open>The neighbours of an item that the search goes on to: they are marked and appended to the queue.\<close>

definition push_neighbour :: "bool \<Rightarrow> nat \<Rightarrow> nat \<Rightarrow> CN_WORLD \<times> nat list \<Rightarrow> CN_WORLD \<times> nat list" where
  "push_neighbour withinAnyNet root n s =
     (case s of (w, Q) \<Rightarrow>
        if withinAnyNet \<and> cn_Net w n \<noteq> cn_Net w root then (w, Q)
        else if \<not> ci_visited (cn_item w n) \<and> ci_valid (cn_item w n) then (SetVisited True n w, Q @ [n])
        else (w, Q))"

partial_function (option) bfs :: "bool \<Rightarrow> nat \<Rightarrow> nat list \<Rightarrow> CN_CLUSTER \<Rightarrow> CN_WORLD \<Rightarrow> (CN_CLUSTER \<times> CN_WORLD) option" where
  "bfs withinAnyNet root Q cluster w =
     (case Q of
        [] \<Rightarrow> Some (cluster, w)
      | current # Q \<Rightarrow>
          (case fold (push_neighbour withinAnyNet root) (ci_connected (cn_item w current)) (w, Q) of
             (w', Q') \<Rightarrow> bfs withinAnyNet root Q' (cluster_Add w current cluster) w'))"

text \<open>The items of the search in the order of their addresses; a root stays in the set until it is met again.\<close>

fun clusters_loop :: "bool \<Rightarrow> nat list \<Rightarrow> CN_WORLD \<Rightarrow> (CN_CLUSTER list \<times> CN_WORLD) option" where
  "clusters_loop withinAnyNet [] w = Some ([], w)"
| "clusters_loop withinAnyNet (root # item_set) w =
     (if ci_visited (cn_item w root) then clusters_loop withinAnyNet item_set w
      else (case bfs withinAnyNet root [root] CN_CLUSTER_make (SetVisited True root w) of
              None \<Rightarrow> None
            | Some (cluster, w) \<Rightarrow>
                (case clusters_loop withinAnyNet item_set w of
                   None \<Rightarrow> None | Some (cs, w) \<Rightarrow> Some (cluster # cs, w))))"

definition SearchClusters_types ::
    "CN_GEOMETRY \<Rightarrow> CLUSTER_SEARCH_MODE \<Rightarrow> KICAD_T list \<Rightarrow> int \<Rightarrow> nat option \<Rightarrow> CN_WORLD \<Rightarrow> (CN_CLUSTER list \<times> CN_WORLD) option" where
  "SearchClusters_types g aMode aTypes aSingleNet rootItem w = do {
     let withinAnyNet = (aMode \<noteq> CSM_PROPAGATE);
     w \<leftarrow> (if cn_list_dirty w then searchConnections g w else Some w);
     let found = filter (in_search withinAnyNet aTypes aSingleNet rootItem w) (cn_items w);
     let w = fold (SetVisited False) found w;
     (clusters, w) \<leftarrow> clusters_loop withinAnyNet (sort (remdups found)) w;
     Some (sort_key cl_originNet clusters, w)
   }"

definition SearchClusters :: "CN_GEOMETRY \<Rightarrow> CLUSTER_SEARCH_MODE \<Rightarrow> CN_WORLD \<Rightarrow> (CN_CLUSTER list \<times> CN_WORLD) option" where
  "SearchClusters g aMode w =
     SearchClusters_types g aMode (if aMode = CSM_PROPAGATE then withoutZones else withZones) (- 1) None w"

section \<open>Propagating nets\<close>

definition SetNetCode :: "nat \<Rightarrow> int \<Rightarrow> CN_WORLD \<Rightarrow> CN_WORLD" where
  "SetNetCode p net w = w\<lparr> cn_board := (cn_board w)(p := (cn_board w p)\<lparr> bi_net := net \<rparr>) \<rparr>"

text \<open>The board items that the commit is told of are collected, last one first.\<close>

definition propagate_item :: "CN_CLUSTER \<Rightarrow> nat \<Rightarrow> nat list \<times> CN_WORLD \<Rightarrow> nat list \<times> CN_WORLD" where
  "propagate_item cluster i s =
     (case s of (modified, w) \<Rightarrow>
        let it = cn_item w i; net = bi_net (cn_parent w i)
        in if ci_valid it \<and> ci_canChangeNet it \<and> net \<noteq> cl_originNet cluster
           then (ci_parent it # modified, SetNetCode (ci_parent it) (cl_originNet cluster)
                   (MarkNetAsDirty (cl_originNet cluster) (MarkNetAsDirty net w)))
           else (modified, w))"

definition propagate_cluster :: "CN_CLUSTER \<Rightarrow> nat list \<times> CN_WORLD \<Rightarrow> nat list \<times> CN_WORLD" where
  "propagate_cluster cluster s =
     (if cl_conflicting cluster then s
      else if HasValidNet cluster then fold (propagate_item cluster) (cl_items cluster) s
      else s)"

definition propagateConnections :: "CN_CLUSTER list \<Rightarrow> nat list \<times> CN_WORLD \<Rightarrow> nat list \<times> CN_WORLD" where
  "propagateConnections m_connClusters s = fold propagate_cluster m_connClusters s"

definition PropagateNets :: "CN_GEOMETRY \<Rightarrow> CN_WORLD \<Rightarrow> (CN_CLUSTER list \<times> nat list \<times> CN_WORLD) option" where
  "PropagateNets g w = do {
     (m_connClusters, w) \<leftarrow> SearchClusters g CSM_PROPAGATE w;
     Some (m_connClusters, propagateConnections m_connClusters ([], w))
   }"

end
