(* ===== verification/SpanningForest.thy ===== *)
theory SpanningForest
  imports Main
begin

text \<open>
  Connectedness of a set of edges, the number of its components, and the forest that a pass over a list
  of edges keeps when it drops each edge whose ends are connected already. The forest connects what
  the edges connect and, when the list is sorted, has the least weight among the lists that do. Shared
  by the theories on the ratsnest and on the clusters of \<^verbatim>\<open>pcbnew\<close>.
\<close>

section \<open>Connectedness\<close>

definition linked_by :: "('v \<times> 'v) set \<Rightarrow> ('v \<times> 'v) set" where
  "linked_by E = (E \<union> E\<inverse>)\<^sup>*"

lemma linked_refl [simp, intro]: "(v, v) \<in> linked_by E"
  by (simp add: linked_by_def)

lemma linked_edge: "(a, b) \<in> E \<Longrightarrow> (a, b) \<in> linked_by E"
  by (auto simp: linked_by_def)

lemma linked_sym: "(a, b) \<in> linked_by E \<Longrightarrow> (b, a) \<in> linked_by E"
  unfolding linked_by_def by (rule symD [OF sym_rtrancl]) (auto simp: sym_def)

lemma linked_trans [trans]: "(a, b) \<in> linked_by E \<Longrightarrow> (b, c) \<in> linked_by E \<Longrightarrow> (a, c) \<in> linked_by E"
  unfolding linked_by_def by (rule rtrancl_trans)

lemma linked_least:
  assumes "E \<subseteq> linked_by F"
  shows "linked_by E \<subseteq> linked_by F"
proof -
  have "E\<inverse> \<subseteq> linked_by F"
  proof
    fix x assume "x \<in> E\<inverse>"
    then obtain a b where "x = (b, a)" "(a, b) \<in> E" by auto
    then show "x \<in> linked_by F" using assms linked_sym [of a b F] by auto
  qed
  then have "E \<union> E\<inverse> \<subseteq> linked_by F" using assms by simp
  then have "(E \<union> E\<inverse>)\<^sup>* \<subseteq> (F \<union> F\<inverse>)\<^sup>*" unfolding linked_by_def by (rule rtrancl_subset_rtrancl)
  then show ?thesis by (simp only: linked_by_def)
qed

lemma linked_subset: "E \<subseteq> linked_by E"
  using linked_edge by (rule subrelI)

lemma linked_mono: "E \<subseteq> F \<Longrightarrow> linked_by E \<subseteq> linked_by F"
  using linked_subset [of F] by (intro linked_least) simp

lemma linked_insert:
  "(i, j) \<in> linked_by (insert (a, b) E) \<longleftrightarrow> (i, j) \<in> linked_by E \<or>
    (i, a) \<in> linked_by E \<and> (b, j) \<in> linked_by E \<or> (i, b) \<in> linked_by E \<and> (a, j) \<in> linked_by E"
    (is "?l \<longleftrightarrow> ?r i j")
proof
  let ?F = "insert (a, b) E"
  have mono: "linked_by E \<subseteq> linked_by ?F" by (rule linked_mono) blast
  have ab: "(a, b) \<in> linked_by ?F" "(b, a) \<in> linked_by ?F"
    using linked_edge [of a b ?F] linked_sym [of a b ?F] by simp_all
  show "?r i j \<Longrightarrow> ?l"
  proof (elim disjE conjE)
    assume "(i, a) \<in> linked_by E" "(b, j) \<in> linked_by E"
    then have "(i, a) \<in> linked_by ?F" "(b, j) \<in> linked_by ?F" using mono by blast+
    then show ?l using linked_trans [OF linked_trans [OF _ ab(1)]] by blast
  next
    assume "(i, b) \<in> linked_by E" "(a, j) \<in> linked_by E"
    then have "(i, b) \<in> linked_by ?F" "(a, j) \<in> linked_by ?F" using mono by blast+
    then show ?l using linked_trans [OF linked_trans [OF _ ab(2)]] by blast
  qed (use mono in blast)
  assume ?l
  then have "(i, j) \<in> (?F \<union> ?F\<inverse>)\<^sup>*" by (simp add: linked_by_def)
  then show "?r i j"
  proof (induction rule: rtrancl_induct)
    case (step y z)
    consider "(y, z) \<in> E" | "(z, y) \<in> E" | "y = a" "z = b" | "y = b" "z = a"
      using step.hyps(2) by auto
    then show ?case
    proof cases
      case 1
      then have "(y, z) \<in> linked_by E" by (rule linked_edge)
      then show ?thesis using step.IH linked_trans [of _ y E z] by blast
    next
      case 2
      then have "(y, z) \<in> linked_by E" using linked_edge linked_sym by fast
      then show ?thesis using step.IH linked_trans [of _ y E z] by blast
    next
      case 3
      then show ?thesis using step.IH linked_refl [of b E] linked_sym [of b a E] linked_trans [of i b E a] linked_trans [of i a E b] by blast
    next
      case 4
      then show ?thesis using step.IH linked_refl [of a E] linked_sym [of a b E] linked_trans [of i b E a] linked_trans [of i a E b] by blast
    qed
  qed simp
qed

lemma linked_insert_same:
  assumes "(a, b) \<in> linked_by E"
  shows "linked_by (insert (a, b) E) = linked_by E"
proof
  show "linked_by (insert (a, b) E) \<subseteq> linked_by E"
    using linked_subset [of E] assms by (intro linked_least) simp
  show "linked_by E \<subseteq> linked_by (insert (a, b) E)" by (rule linked_mono) blast
qed

section \<open>Components\<close>

definition comp_of :: "('v \<times> 'v) set \<Rightarrow> 'v \<Rightarrow> 'v set" where
  "comp_of E v = {u. (v, u) \<in> linked_by E}"

lemma comp_of_eq: "comp_of E u = comp_of E v \<longleftrightarrow> (u, v) \<in> linked_by E"
proof
  assume "comp_of E u = comp_of E v"
  then have "v \<in> comp_of E u" by (simp add: comp_of_def)
  then show "(u, v) \<in> linked_by E" by (simp add: comp_of_def)
next
  assume uv: "(u, v) \<in> linked_by E"
  show "comp_of E u = comp_of E v"
    using linked_trans [OF uv] linked_trans [OF linked_sym [OF uv]] by (auto simp: comp_of_def)
qed

definition comps :: "'v set \<Rightarrow> ('v \<times> 'v) set \<Rightarrow> 'v set set" where
  "comps V E = comp_of E ` V"

lemma finite_comps: "finite V \<Longrightarrow> finite (comps V E)"
  by (simp add: comps_def)

lemma comps_insert:
  assumes "finite V" and "a \<in> V" "b \<in> V"
  shows "card (comps V (insert (a, b) E)) + (if (a, b) \<in> linked_by E then 0 else 1) = card (comps V E)"
proof (cases "(a, b) \<in> linked_by E")
  case True
  then show ?thesis by (simp add: comps_def comp_of_def linked_insert_same)
next
  case False
  let ?A = "comp_of E a" and ?B = "comp_of E b"
  have c: "comp_of (insert (a, b) E) v = (if comp_of E v \<in> {?A, ?B} then ?A \<union> ?B else comp_of E v)" for v
  proof -
    have "comp_of (insert (a, b) E) v = comp_of E v \<union> (if (v, a) \<in> linked_by E then ?B else {}) \<union>
        (if (v, b) \<in> linked_by E then ?A else {})"
      by (auto simp: comp_of_def linked_insert)
    then show ?thesis using comp_of_eq [of E v a] comp_of_eq [of E v b] by auto
  qed
  have AB: "?A \<in> comps V E" "?B \<in> comps V E" "?A \<noteq> ?B"
    using assms False by (auto simp: comps_def comp_of_eq)
  have "comps V (insert (a, b) E) = insert (?A \<union> ?B) (comps V E - {?A, ?B})"
    using assms(2) unfolding comps_def c by auto
  moreover have "?A \<union> ?B \<notin> comps V E"
  proof
    assume "?A \<union> ?B \<in> comps V E"
    then obtain v where v: "?A \<union> ?B = comp_of E v" by (auto simp: comps_def)
    have "a \<in> ?A" "b \<in> ?B" by (simp_all add: comp_of_def)
    then have "(v, a) \<in> linked_by E" "(v, b) \<in> linked_by E" using v by (auto simp: comp_of_def)
    then show False using False linked_sym [of v a E] linked_trans [of a v E b] by blast
  qed
  moreover have "card (comps V E - {?A, ?B}) = card (comps V E) - 2" "2 \<le> card (comps V E)"
    using AB finite_comps [OF assms(1), of E] card_mono [of "comps V E" "{?A, ?B}"] by (auto simp: card_Diff_subset)
  ultimately show ?thesis using False finite_comps [OF assms(1), of E] by simp
qed

lemma comps_antimono:
  assumes "finite V" and "E \<subseteq> linked_by F"
  shows "card (comps V F) \<le> card (comps V E)"
proof -
  have sub: "linked_by E \<subseteq> linked_by F" by (rule linked_least) (rule assms(2))
  have "comp_of F v = \<Union> (comp_of F ` comp_of E v)" for v
  proof -
    have "comp_of F u = comp_of F v" if "u \<in> comp_of E v" for u
    proof -
      have "(v, u) \<in> linked_by E" using that by (simp add: comp_of_def)
      then have "(v, u) \<in> linked_by F" using sub by (rule rev_subsetD)
      from linked_sym [OF this] show ?thesis by (simp add: comp_of_eq)
    qed
    then have "\<Union> (comp_of F ` comp_of E v) = (\<Union>u \<in> comp_of E v. comp_of F v)" by (rule SUP_cong [OF refl])
    also have "\<dots> = comp_of F v"
    proof -
      have "v \<in> comp_of E v" by (simp add: comp_of_def)
      then show ?thesis by (intro SUP_eq_const) auto
    qed
    finally show ?thesis ..
  qed
  then have "comps V F = (\<lambda>C. \<Union> (comp_of F ` C)) ` comps V E" unfolding comps_def image_image by (rule image_cong [OF refl])
  then show ?thesis using card_image_le [OF finite_comps [OF assms(1)]] by simp
qed

section \<open>The forest of a list of edges\<close>

fun forest :: "('e \<Rightarrow> 'v \<times> 'v) \<Rightarrow> ('v \<times> 'v) set \<Rightarrow> 'e list \<Rightarrow> 'e list" where
  "forest ends E [] = []"
| "forest ends E (e # es) =
     (if ends e \<in> linked_by E then forest ends (insert (ends e) E) es
      else e # forest ends (insert (ends e) E) es)"

lemma forest_subset: "set (forest ends E es) \<subseteq> set es"
  by (induction es arbitrary: E) auto

lemma forest_count:
  assumes "finite V" and "ends ` set es \<subseteq> V \<times> V"
  shows "card (comps V (E \<union> ends ` set es)) + length (forest ends E es) = card (comps V E)"
  using assms
proof (induction es arbitrary: E)
  case (Cons e es)
  obtain a b where e: "ends e = (a, b)" by fastforce
  have ab: "a \<in> V" "b \<in> V" using Cons.prems(2) e by auto
  have "card (comps V (insert (a, b) E \<union> ends ` set es)) + length (forest ends (insert (a, b) E) es) =
      card (comps V (insert (a, b) E))"
    using Cons.IH [of "insert (a, b) E"] Cons.prems e by simp
  with comps_insert [OF Cons.prems(1) ab, of E] e show ?case by (auto split: if_splits)
qed simp

lemma forest_linked: "linked_by (E \<union> ends ` set (forest ends E es)) = linked_by (E \<union> ends ` set es)"
proof (induction es arbitrary: E)
  case (Cons e es)
  obtain a b where e: "ends e = (a, b)" by fastforce
  let ?f = "ends ` set (forest ends (insert (a, b) E) es)"
  have IH: "linked_by (insert (a, b) E \<union> ?f) = linked_by (insert (a, b) E \<union> ends ` set es)" by (rule Cons.IH)
  show ?case
  proof (cases "(a, b) \<in> linked_by E")
    case True
    then have "(a, b) \<in> linked_by (E \<union> ?f)" using linked_mono [of E "E \<union> ?f"] by blast
    then have "linked_by (insert (a, b) (E \<union> ?f)) = linked_by (E \<union> ?f)" by (rule linked_insert_same)
    then show ?thesis using True e IH by simp
  next
    case False
    then show ?thesis using e IH by simp
  qed
qed simp

lemma forest_filter:
  assumes "sorted (map wt es)"
  shows "filter (\<lambda>e. wt e \<le> w) (forest ends E es) = forest ends E (filter (\<lambda>e. wt e \<le> w) es)"
  using assms
proof (induction es arbitrary: E)
  case (Cons e es)
  show ?case
  proof (cases "wt e \<le> w")
    case False
    then have "\<forall>x \<in> set (e # es). \<not> wt x \<le> w" using Cons.prems by auto
    moreover then have "\<forall>x \<in> set (forest ends E (e # es)). \<not> wt x \<le> w"
      using forest_subset [of ends E "e # es"] by blast
    ultimately have "filter (\<lambda>e. wt e \<le> w) (e # es) = []" "filter (\<lambda>e. wt e \<le> w) (forest ends E (e # es)) = []"
      unfolding filter_empty_conv by blast+
    then show ?thesis by simp
  qed (use Cons in auto)
qed simp

section \<open>Least weight\<close>

lemma sum_list_by_threshold:
  assumes "\<forall>e \<in> set es. wt e \<le> (W :: nat)"
  shows "sum_list (map wt es) = (\<Sum>w < W. length (filter (\<lambda>e. w < wt e) es))"
  using assms
proof (induction es)
  case (Cons e es)
  have "wt e = card {w. w < wt e}" by simp
  also have "{w. w < wt e} = {w \<in> {..< W}. w < wt e}" using Cons.prems by auto
  also have "card \<dots> = (\<Sum>w < W. if w < wt e then 1 else 0)" by (simp add: sum.If_cases Int_def)
  finally have "wt e = (\<Sum>w < W. if w < wt e then 1 else 0)" .
  then have "sum_list (map wt (e # es)) = (\<Sum>w < W. (if w < wt e then 1 else 0) + length (filter (\<lambda>e. w < wt e) es))"
    using Cons by (simp add: sum.distrib)
  also have "\<dots> = (\<Sum>w < W. length (filter (\<lambda>e. w < wt e) (e # es)))" by (rule sum.cong) auto
  finally show ?case .
qed simp

lemma length_filter_split: "length (filter (\<lambda>e. wt e \<le> w) es) + length (filter (\<lambda>e. (w :: nat) < wt e) es) = length es"
  using sum_length_filter_compl [of "\<lambda>e. wt e \<le> w" es] by (simp add: not_le)

lemma comps_filter:
  assumes "finite V" and "ends ` set F \<subseteq> V \<times> V"
  shows "card (comps V (ends ` set (filter P F))) \<le> card (comps V (ends ` set F)) + length (filter (\<lambda>e. \<not> P e) F)"
proof -
  have "card (comps V (E \<union> ends ` set G)) + length G \<ge> card (comps V E)" if "ends ` set G \<subseteq> V \<times> V" for E G
    using that
  proof (induction G arbitrary: E)
    case (Cons e G)
    obtain a b where e: "ends e = (a, b)" by fastforce
    have "a \<in> V" "b \<in> V" using Cons.prems e by auto
    then have "card (comps V E) \<le> card (comps V (insert (a, b) E)) + 1" using comps_insert [OF assms(1), of a b E] by (auto split: if_splits)
    then show ?case using Cons.IH [of "insert (a, b) E"] Cons.prems e by auto
  qed simp
  from this [of "filter (\<lambda>e. \<not> P e) F" "ends ` set (filter P F)"] assms(2)
  have "card (comps V (ends ` set (filter P F))) \<le>
      card (comps V (ends ` set (filter P F) \<union> ends ` set (filter (\<lambda>e. \<not> P e) F))) + length (filter (\<lambda>e. \<not> P e) F)"
    by auto
  moreover have "ends ` set (filter P F) \<union> ends ` set (filter (\<lambda>e. \<not> P e) F) = ends ` set F" by auto
  ultimately show ?thesis by simp
qed

lemma forest_minimal:
  assumes "finite V" and "ends ` set es \<subseteq> V \<times> V" and "sorted (map wt es)"
    and "set F \<subseteq> set es" and "linked_by (ends ` set F) = linked_by (ends ` set es)"
  shows "sum_list (map wt (forest ends {} es)) \<le> (sum_list (map wt F) :: nat)"
proof -
  let ?K = "forest ends {} es" and ?c = "\<lambda>E. card (comps V E)" and ?W = "Max (insert 0 (wt ` set es))"
  have V: "ends ` set F \<subseteq> V \<times> V" using assms(2,4) by blast
  have le: "length (filter (\<lambda>e. w < wt e) ?K) \<le> length (filter (\<lambda>e. w < wt e) F)" for w
  proof -
    let ?low = "filter (\<lambda>e. wt e \<le> w)"
    have sub: "ends ` set (?low es) \<subseteq> V \<times> V" using assms(2) by auto
    have "?c (ends ` set es) + length ?K = ?c {}" "?c (ends ` set (?low es)) + length (?low ?K) = ?c {}"
      using forest_count [OF assms(1,2), of "{}"] forest_count [OF assms(1) sub, of "{}"]
      by (simp_all add: forest_filter [OF assms(3)])
    then have "?c (ends ` set es) + length (filter (\<lambda>e. w < wt e) ?K) = ?c (ends ` set (?low es))"
      using length_filter_split [of wt w ?K] by linarith
    moreover have "?c (ends ` set (?low es)) \<le> ?c (ends ` set (?low F))"
      using assms(4) linked_edge by (intro comps_antimono [OF assms(1)]) (auto intro!: linked_edge)
    moreover have "?c (ends ` set (?low F)) \<le> ?c (ends ` set F) + length (filter (\<lambda>e. w < wt e) F)"
      using comps_filter [OF assms(1) V, of "\<lambda>e. wt e \<le> w"] by (simp add: not_le)
    moreover have "?c (ends ` set F) = ?c (ends ` set es)"
      using assms(5) by (simp add: comps_def comp_of_def)
    ultimately show ?thesis by linarith
  qed
  have "\<forall>e \<in> set es. wt e \<le> ?W" by simp
  then have W: "\<forall>e \<in> set ?K. wt e \<le> ?W" "\<forall>e \<in> set F. wt e \<le> ?W"
    using forest_subset [of ends "{}" es] assms(4) by blast+
  show ?thesis unfolding sum_list_by_threshold [OF W(1)] sum_list_by_threshold [OF W(2)]
    by (rule sum_mono) (rule le)
qed

end
