(* ===== verification/CnClusters.thy ===== *)
theory CnClusters
  imports CnAlgo SpanningForest
begin

text \<open>
  The clusters that \<open>CN_CONNECTIVITY_ALGO::SearchClusters\<close> of \<^verbatim>\<open>pcbnew/connectivity/connectivity_algo.cpp\<close> finds:
  they are the components of the graph of the valid items, and what a cluster says of its nets.
\<close>

section \<open>Marks\<close>

text \<open>The search changes nothing but the marks: \<open>vis\<close> are the marked items, \<open>unmarked\<close> the world without marks.\<close>

definition vis :: "CN_WORLD \<Rightarrow> nat set" where
  "vis w = {i. ci_visited (cn_item w i)}"

definition unmarked :: "CN_WORLD \<Rightarrow> CN_WORLD" where
  "unmarked w = w\<lparr> cn_item := (\<lambda>i. (cn_item w i)\<lparr> ci_visited := False \<rparr>) \<rparr>"

lemma unmarked_SetVisited [simp]: "unmarked (SetVisited b n w) = unmarked w"
proof -
  have "(\<lambda>i. (cn_item (SetVisited b n w) i)\<lparr> ci_visited := False \<rparr>) = (\<lambda>i. (cn_item w i)\<lparr> ci_visited := False \<rparr>)"
    by (rule ext) (simp add: SetVisited_def upd_item_def)
  then show ?thesis by (simp add: unmarked_def) (simp add: SetVisited_def upd_item_def)
qed

lemma vis_SetVisited [simp]: "vis (SetVisited b n w) = (if b then insert n (vis w) else vis w - {n})"
  by (auto simp: vis_def SetVisited_def upd_item_def)

lemma unmarked_fields:
  "ci_parent (cn_item (unmarked w) i) = ci_parent (cn_item w i)"
  "ci_connected (cn_item (unmarked w) i) = ci_connected (cn_item w i)"
  "ci_valid (cn_item (unmarked w) i) = ci_valid (cn_item w i)"
  "ci_canChangeNet (cn_item (unmarked w) i) = ci_canChangeNet (cn_item w i)"
  by (simp_all add: unmarked_def)

lemma unmarked_world:
  "cn_board (unmarked w) = cn_board w" "cn_items (unmarked w) = cn_items w"
  "cn_list_dirty (unmarked w) = cn_list_dirty w"
  by (simp_all add: unmarked_def)

lemma unmarked_parent: "cn_parent (unmarked w) = cn_parent w"
  by (rule ext) (simp add: cn_parent_def unmarked_fields unmarked_world)

lemma unmarked_Net: "cn_Net (unmarked w) = cn_Net w"
  by (rule ext) (simp add: cn_Net_def unmarked_fields unmarked_parent)

lemma unmarked_cluster_Add: "cluster_Add (unmarked w) = cluster_Add w"
  unfolding cluster_Add_def [abs_def] unmarked_Net unmarked_parent ..

lemma same_fields:
  assumes "unmarked w = unmarked w'"
  shows "ci_parent (cn_item w i) = ci_parent (cn_item w' i)" "ci_connected (cn_item w i) = ci_connected (cn_item w' i)"
    "ci_valid (cn_item w i) = ci_valid (cn_item w' i)" "ci_canChangeNet (cn_item w i) = ci_canChangeNet (cn_item w' i)"
  using unmarked_fields [of w i] unmarked_fields [of w' i] unfolding assms by simp_all

lemma same_world:
  assumes "unmarked w = unmarked w'"
  shows "cn_parent w = cn_parent w'" "cn_Net w = cn_Net w'" "cn_board w = cn_board w'" "cn_items w = cn_items w'"
    "cluster_Add w = cluster_Add w'" "cn_list_dirty w = cn_list_dirty w'"
  using unmarked_parent [of w] unmarked_parent [of w'] unmarked_Net [of w] unmarked_Net [of w'] unmarked_world [of w]
    unmarked_world [of w'] unmarked_cluster_Add [of w] unmarked_cluster_Add [of w'] unfolding assms by simp_all

section \<open>One search\<close>

text \<open>The search goes from an item to its valid neighbours, within a net to those of the same net.\<close>

definition hop :: "bool \<Rightarrow> CN_WORLD \<Rightarrow> nat \<Rightarrow> nat \<Rightarrow> bool" where
  "hop withinAnyNet w i n \<longleftrightarrow> n \<in> set (ci_connected (cn_item w i)) \<and> ci_valid (cn_item w n) \<and>
     (withinAnyNet \<longrightarrow> cn_Net w n = cn_Net w i)"

lemma hop_same: "unmarked w = unmarked w' \<Longrightarrow> hop b w = hop b w'"
  by (simp add: hop_def same_fields [of w w'] same_world [of w w'] fun_eq_iff)

lemma push_neighbours:
  assumes "fold (push_neighbour b root) ns (w, Q) = (w', Q')"
  shows "\<exists>new. Q' = Q @ new \<and> distinct new \<and> vis w' = vis w \<union> set new \<and> unmarked w' = unmarked w \<and>
    set new = {n \<in> set ns. ci_valid (cn_item w n) \<and> (b \<longrightarrow> cn_Net w n = cn_Net w root) \<and> n \<notin> vis w}"
  using assms
proof (induction ns arbitrary: w Q)
  case (Cons n ns)
  let ?ok = "\<lambda>n. ci_valid (cn_item w n) \<and> (b \<longrightarrow> cn_Net w n = cn_Net w root)"
  show ?case
  proof (cases "?ok n \<and> n \<notin> vis w")
    case True
    then have "push_neighbour b root n (w, Q) = (SetVisited True n w, Q @ [n])"
      by (simp add: push_neighbour_def vis_def)
    then have "fold (push_neighbour b root) ns (SetVisited True n w, Q @ [n]) = (w', Q')" using Cons.prems by simp
    from Cons.IH [OF this] obtain new where new: "Q' = (Q @ [n]) @ new" "distinct new"
      "vis w' = vis (SetVisited True n w) \<union> set new" "unmarked w' = unmarked (SetVisited True n w)"
      "set new = {m \<in> set ns. ci_valid (cn_item (SetVisited True n w) m) \<and>
        (b \<longrightarrow> cn_Net (SetVisited True n w) m = cn_Net (SetVisited True n w) root) \<and> m \<notin> vis (SetVisited True n w)}"
      by blast
    have "set new = {m \<in> set ns. ?ok m \<and> m \<notin> insert n (vis w)}"
      unfolding new(5) by (simp add: same_fields [OF unmarked_SetVisited] same_world [OF unmarked_SetVisited])
    then show ?thesis using new(1-4) True by (intro exI [of _ "n # new"]) auto
  next
    case False
    then have "push_neighbour b root n (w, Q) = (w, Q)" by (auto simp: push_neighbour_def vis_def)
    then have "fold (push_neighbour b root) ns (w, Q) = (w', Q')" using Cons.prems by simp
    from Cons.IH [OF this] False show ?thesis by auto
  qed
qed auto

text \<open>The same, but past the items of \<open>X\<close>.\<close>

definition hop_off :: "nat set \<Rightarrow> bool \<Rightarrow> CN_WORLD \<Rightarrow> nat \<Rightarrow> nat \<Rightarrow> bool" where
  "hop_off X b w i n \<longleftrightarrow> hop b w i n \<and> n \<notin> X"

lemma hop_off_empty: "hop_off {} = hop"
  by (simp add: hop_off_def fun_eq_iff)

lemma hop_off_same: "unmarked w = unmarked w' \<Longrightarrow> hop_off X b w = hop_off X b w'"
  using hop_same [of w w' b] by (simp add: hop_off_def fun_eq_iff)

text \<open>
  From a queue the search returns with the items it has met: those of the queue, those that can be
  reached from it, and none that was marked before. It never enters an item of \<open>X\<close> when all of those
  are marked.
\<close>

lemma bfs_from_off:
  assumes "finite U" and "\<And>i n. i \<in> U \<Longrightarrow> hop_off X b w0 i n \<Longrightarrow> n \<in> U"
    and "unmarked w = unmarked w0" and "vis w = V0 \<union> set L \<union> set Q" and "distinct (L @ Q)"
    and "(set L \<union> set Q) \<inter> V0 = {}" and "set L \<union> set Q \<subseteq> U"
    and "\<forall>i \<in> set L \<union> set Q. (root, i) \<in> {(i, n). hop_off X b w0 i n}\<^sup>* \<and> (b \<longrightarrow> cn_Net w0 i = cn_Net w0 root)"
    and "\<forall>i \<in> set L. \<forall>n. hop_off X b w0 i n \<longrightarrow> n \<in> vis w" and X: "X \<subseteq> V0"
  shows "\<exists>L' w'. bfs b root Q (fold (cluster_Add w0) L CN_CLUSTER_make) w =
      Some (fold (cluster_Add w0) L' CN_CLUSTER_make, w') \<and> unmarked w' = unmarked w0 \<and>
    vis w' = V0 \<union> set L' \<and> distinct L' \<and> set L' \<inter> V0 = {} \<and> set L \<union> set Q \<subseteq> set L' \<and> set L' \<subseteq> U \<and>
    (\<forall>i \<in> set L'. (root, i) \<in> {(i, n). hop_off X b w0 i n}\<^sup>* \<and> (\<forall>n. hop_off X b w0 i n \<longrightarrow> n \<in> V0 \<union> set L'))"
  using assms(3-9)
proof (induction "card (U - vis w) + length Q" arbitrary: L Q w rule: less_induct)
  case less
  show ?case
  proof (cases Q)
    case Nil
    then show ?thesis using less.prems by (intro exI [of _ L] exI [of _ w]) (auto simp: bfs.simps)
  next
    case (Cons c Q1)
    obtain w' Q' where f: "fold (push_neighbour b root) (ci_connected (cn_item w c)) (w, Q1) = (w', Q')" by fastforce
    from push_neighbours [OF f] obtain new where new: "Q' = Q1 @ new" "distinct new" "vis w' = vis w \<union> set new"
      "unmarked w' = unmarked w" "set new = {n \<in> set (ci_connected (cn_item w c)). ci_valid (cn_item w n) \<and>
        (b \<longrightarrow> cn_Net w n = cn_Net w root) \<and> n \<notin> vis w}" by blast
    have c: "c \<in> U" "(root, c) \<in> {(i, n). hop_off X b w0 i n}\<^sup>*" "b \<longrightarrow> cn_Net w0 c = cn_Net w0 root"
      using less.prems(5,6) Cons by auto
    have hop: "{n. hop_off X b w0 c n \<and> n \<notin> vis w} = set new"
      unfolding new(5) using c(3) X less.prems(2) by (auto simp: hop_off_def hop_def same_fields [OF less.prems(1)] same_world [OF less.prems(1)])
    have U: "set new \<subseteq> U" using assms(2) [OF c(1)] hop by blast
    have reach: "(root, n) \<in> {(i, n). hop_off X b w0 i n}\<^sup>* \<and> (b \<longrightarrow> cn_Net w0 n = cn_Net w0 root)" if "n \<in> set new" for n
    proof -
      have h: "hop_off X b w0 c n" using that hop by blast
      then have "(root, n) \<in> {(i, n). hop_off X b w0 i n}\<^sup>*" using c(2) by (auto intro: rtrancl_into_rtrancl)
      moreover have "b \<longrightarrow> cn_Net w0 n = cn_Net w0 root" using h c(3) by (simp add: hop_off_def hop_def)
      ultimately show ?thesis by blast
    qed
    have "card (U - vis w') + length Q' < card (U - vis w) + length Q"
    proof -
      have fin: "finite (U - vis w)" using assms(1) by simp
      have "U - vis w' = (U - vis w) - set new" using new(3) by blast
      moreover have "set new \<subseteq> U - vis w" using U hop by blast
      ultimately have "card (U - vis w') = card (U - vis w) - card (set new)" "card (set new) \<le> card (U - vis w)"
        using card_Diff_subset [of "set new"] card_mono [OF fin] by auto
      then show ?thesis using Cons new(1) distinct_card [OF new(2)] by simp
    qed
    moreover have "unmarked w' = unmarked w0" using new(4) less.prems(1) by simp
    moreover have "vis w' = V0 \<union> set (L @ [c]) \<union> set Q'" using new(1,3) less.prems(2) Cons by auto
    moreover have "distinct ((L @ [c]) @ Q')"
      using less.prems(2,3) Cons new(1,2) hop by auto
    moreover have "(set (L @ [c]) \<union> set Q') \<inter> V0 = {}" using less.prems(2,4) Cons new(1) hop by auto
    moreover have "set (L @ [c]) \<union> set Q' \<subseteq> U" using less.prems(5) Cons new(1) U by auto
    moreover have "\<forall>i \<in> set (L @ [c]) \<union> set Q'. (root, i) \<in> {(i, n). hop_off X b w0 i n}\<^sup>* \<and> (b \<longrightarrow> cn_Net w0 i = cn_Net w0 root)"
      using less.prems(6) Cons new(1) reach by auto
    moreover have "\<forall>i \<in> set (L @ [c]). \<forall>n. hop_off X b w0 i n \<longrightarrow> n \<in> vis w'"
      using less.prems(7) new(3) hop by auto
    ultimately obtain L' v where r: "bfs b root Q' (fold (cluster_Add w0) (L @ [c]) CN_CLUSTER_make) w' =
        Some (fold (cluster_Add w0) L' CN_CLUSTER_make, v) \<and> unmarked v = unmarked w0 \<and>
      vis v = V0 \<union> set L' \<and> distinct L' \<and> set L' \<inter> V0 = {} \<and> set (L @ [c]) \<union> set Q' \<subseteq> set L' \<and> set L' \<subseteq> U \<and>
      (\<forall>i \<in> set L'. (root, i) \<in> {(i, n). hop_off X b w0 i n}\<^sup>* \<and> (\<forall>n. hop_off X b w0 i n \<longrightarrow> n \<in> V0 \<union> set L'))"
      using less.hyps [of w' Q' "L @ [c]"] by blast
    have "bfs b root Q (fold (cluster_Add w0) L CN_CLUSTER_make) w =
        bfs b root Q' (fold (cluster_Add w0) (L @ [c]) CN_CLUSTER_make) w'"
      using Cons f by (subst bfs.simps) (simp add: same_world(5) [OF less.prems(1)])
    then show ?thesis using r Cons new(1) by (intro exI [of _ L'] exI [of _ v]) auto
  qed
qed

lemmas bfs_from = bfs_from_off [where X = "{}", unfolded hop_off_empty, OF _ _ _ _ _ _ _ _ _ empty_subsetI]

section \<open>All clusters\<close>

text \<open>
  The items of a search \<open>S\<close> are closed when every neighbour is among them and neighbours are mutual;
  \<open>edges_of\<close> is their graph.
\<close>

definition edges_of :: "bool \<Rightarrow> CN_WORLD \<Rightarrow> nat set \<Rightarrow> (nat \<times> nat) set" where
  "edges_of b w S = {(i, n). i \<in> S \<and> hop b w i n}"

definition search_closed :: "bool \<Rightarrow> CN_WORLD \<Rightarrow> nat set \<Rightarrow> bool" where
  "search_closed b w S \<longleftrightarrow> finite S \<and> (\<forall>i \<in> S. \<forall>n. hop b w i n \<longrightarrow> n \<in> S \<and> hop b w n i)"

text \<open>Past the items of \<open>X\<close>.\<close>

definition edges_off :: "nat set \<Rightarrow> bool \<Rightarrow> CN_WORLD \<Rightarrow> nat set \<Rightarrow> (nat \<times> nat) set" where
  "edges_off X b w S = {(i, n). i \<in> S \<and> hop_off X b w i n}"

definition closed_off :: "nat set \<Rightarrow> bool \<Rightarrow> CN_WORLD \<Rightarrow> nat set \<Rightarrow> bool" where
  "closed_off X b w S \<longleftrightarrow> finite S \<and> (\<forall>i \<in> S. \<forall>n. hop_off X b w i n \<longrightarrow> n \<in> S \<and> hop_off X b w n i)"

lemma off_empty: "edges_off {} = edges_of" "closed_off {} = search_closed"
  by (simp_all add: edges_off_def edges_of_def closed_off_def search_closed_def hop_off_empty fun_eq_iff)

lemma closed_offD:
  assumes "closed_off X b w S" and "i \<in> S" and "hop_off X b w i n"
  shows "n \<in> S" "hop_off X b w n i"
  using assms unfolding closed_off_def by blast+

lemma linked_edges_off:
  assumes "closed_off X b w S"
  shows "linked_by (edges_off X b w S) = (edges_off X b w S)\<^sup>*"
proof -
  have "(edges_off X b w S)\<inverse> = edges_off X b w S"
    unfolding edges_off_def using closed_offD [OF assms] by blast
  then show ?thesis by (simp add: linked_by_def)
qed

lemmas search_closedD = closed_offD [where X = "{}", unfolded off_empty hop_off_empty]

lemma comp_of_closed_off:
  assumes "closed_off X b w S" and "r \<in> S"
  shows "comp_of (edges_off X b w S) r \<subseteq> S"
proof
  fix u assume "u \<in> comp_of (edges_off X b w S) r"
  then have "(r, u) \<in> (edges_off X b w S)\<^sup>*" by (simp add: comp_of_def linked_edges_off [OF assms(1)])
  then show "u \<in> S"
    by (induction rule: rtrancl_induct) (use assms(2) closed_offD(1) [OF assms(1)] in \<open>auto simp: edges_off_def\<close>)
qed

lemmas comp_of_closed = comp_of_closed_off [where X = "{}", unfolded off_empty]

text \<open>A search from an item that is not marked finds its component.\<close>

lemma bfs_component_off:
  assumes "closed_off X b w S" and "root \<in> S" and "root \<notin> vis w"
    and "\<forall>i \<in> vis w \<inter> S. \<forall>n. hop_off X b w i n \<longrightarrow> n \<in> vis w" and "X \<subseteq> vis w"
  shows "\<exists>L w'. bfs b root [root] CN_CLUSTER_make (SetVisited True root w) =
      Some (fold (cluster_Add w) L CN_CLUSTER_make, w') \<and> unmarked w' = unmarked w \<and> distinct L \<and>
    set L = comp_of (edges_off X b w S) root \<and> vis w' = vis w \<union> set L"
proof -
  have "\<exists>L' w'. bfs b root [root] (fold (cluster_Add w) [] CN_CLUSTER_make) (SetVisited True root w) =
      Some (fold (cluster_Add w) L' CN_CLUSTER_make, w') \<and> unmarked w' = unmarked w \<and>
    vis w' = vis w \<union> set L' \<and> distinct L' \<and> set L' \<inter> vis w = {} \<and> set [] \<union> set [root] \<subseteq> set L' \<and> set L' \<subseteq> S \<and>
    (\<forall>i \<in> set L'. (root, i) \<in> {(i, n). hop_off X b w i n}\<^sup>* \<and> (\<forall>n. hop_off X b w i n \<longrightarrow> n \<in> vis w \<union> set L'))"
  proof (rule bfs_from_off [where X = X])
    show "finite S" using assms(1) by (simp add: closed_off_def)
    show "\<And>i n. i \<in> S \<Longrightarrow> hop_off X b w i n \<Longrightarrow> n \<in> S" using closed_offD(1) [OF assms(1)] .
  qed (use assms(2,3,5) in auto)
  then obtain L w' where L: "bfs b root [root] CN_CLUSTER_make (SetVisited True root w) =
      Some (fold (cluster_Add w) L CN_CLUSTER_make, w')" "unmarked w' = unmarked w" "vis w' = vis w \<union> set L" "distinct L"
    "set L \<inter> vis w = {}" "root \<in> set L" "set L \<subseteq> S"
    "\<And>i. i \<in> set L \<Longrightarrow> (root, i) \<in> {(i, n). hop_off X b w i n}\<^sup>*" "\<And>i n. i \<in> set L \<Longrightarrow> hop_off X b w i n \<Longrightarrow> n \<in> vis w \<union> set L" by auto
  let ?E = "edges_off X b w S"
  have "(root, i) \<in> ?E\<^sup>*" if "(root, i) \<in> {(i, n). hop_off X b w i n}\<^sup>*" for i
  proof -
    have "(root, i) \<in> ?E\<^sup>* \<and> i \<in> S"
      using that
    proof (induction rule: rtrancl_induct)
      case (step y z)
      then have "(y, z) \<in> ?E" "z \<in> S" using closed_offD(1) [OF assms(1), of y z] by (auto simp: edges_off_def)
      then show ?case using step.IH by (auto intro: rtrancl_into_rtrancl)
    qed (simp add: assms(2))
    then show ?thesis ..
  qed
  then have "set L \<subseteq> comp_of ?E root" using L(8) by (auto simp: comp_of_def linked_edges_off [OF assms(1)])
  moreover have "u \<in> set L" if "u \<in> comp_of ?E root" for u
  proof -
    have "(root, u) \<in> ?E\<^sup>*" using that by (simp add: comp_of_def linked_edges_off [OF assms(1)])
    then show ?thesis
    proof (induction rule: rtrancl_induct)
      case (step y z)
      then have h: "y \<in> S" "hop_off X b w y z" by (simp_all add: edges_off_def)
      note z = closed_offD [OF assms(1) h]
      have "z \<notin> vis w" using assms(4) z step.IH L(5) by blast
      then show ?case using L(9) [OF step.IH h(2)] by simp
    qed (rule L(6))
  qed
  ultimately have "set L = comp_of ?E root" by blast
  with L show ?thesis by (intro exI [of _ L] exI [of _ w']) simp
qed

text \<open>A cluster holds the items of a component in the order in which the search met them.\<close>

definition cluster_of :: "CN_WORLD \<Rightarrow> nat list \<Rightarrow> CN_CLUSTER" where
  "cluster_of w L = fold (cluster_Add w) L CN_CLUSTER_make"

lemma cluster_of_same: "unmarked w = unmarked w' \<Longrightarrow> cluster_of w = cluster_of w'"
  unfolding cluster_of_def [abs_def] by (drule same_world(5)) simp

lemma cl_items_Add [simp]: "cl_items (cluster_Add w i c) = cl_items c @ [i]"
  by (simp add: cluster_Add_def rank_pad_def Let_def)

lemma cl_items_of [simp]: "cl_items (cluster_of w L) = L"
proof -
  have "cl_items (fold (cluster_Add w) L c) = cl_items c @ L" for c
    by (induction L arbitrary: c) simp_all
  then show ?thesis by (simp add: cluster_of_def CN_CLUSTER_make_def)
qed

lemma clusters_loop_off:
  assumes "closed_off X b w0 S" and "unmarked w = unmarked w0" and "set xs \<subseteq> S" and "X \<subseteq> vis w"
    and "\<forall>i \<in> vis w \<inter> S. \<forall>n. hop_off X b w0 i n \<longrightarrow> n \<in> vis w"
  shows "\<exists>Ls w'. clusters_loop b xs w = Some (map (cluster_of w0) Ls, w') \<and> unmarked w' = unmarked w0 \<and>
    list_all distinct Ls \<and> distinct (map set Ls) \<and>
    set (map set Ls) = comp_of (edges_off X b w0 S) ` (set xs - vis w)"
  using assms(2-5)
proof (induction xs arbitrary: w)
  case Nil
  then show ?case by (intro exI [of _ "[]"] exI [of _ w]) simp
next
  case (Cons root xs)
  let ?E = "edges_off X b w0 S"
  show ?case
  proof (cases "root \<in> vis w")
    case True
    then have "clusters_loop b (root # xs) w = clusters_loop b xs w" by (simp add: vis_def)
    moreover have "set (root # xs) - vis w = set xs - vis w" using True by auto
    ultimately show ?thesis using Cons.IH [OF Cons.prems(1) _ Cons.prems(3,4)] Cons.prems(2) by simp
  next
    case False
    have same: "hop_off X b w = hop_off X b w0" "edges_off X b w S = ?E" "closed_off X b w S"
      using assms(1) unfolding edges_off_def closed_off_def hop_off_same [OF Cons.prems(1)] by blast+
    have root: "root \<in> S" using Cons.prems(2) by simp
    from bfs_component_off [OF same(3) root False] Cons.prems(3,4) same(1,2) obtain L w1 where
      b: "bfs b root [root] CN_CLUSTER_make (SetVisited True root w) = Some (cluster_of w L, w1)"
      "unmarked w1 = unmarked w" "distinct L" "set L = comp_of ?E root" "vis w1 = vis w \<union> set L"
      unfolding cluster_of_def by auto
    have rL: "root \<in> set L" using b(4) by (simp add: comp_of_def)
    have LS: "set L \<subseteq> S" using b(4) comp_of_closed_off [OF assms(1) root] by simp
    have disj: "set L \<inter> vis w = {}"
    proof -
      have "u \<notin> vis w" if "(root, u) \<in> ?E\<^sup>*" for u
        using that
      proof (induction rule: rtrancl_induct)
        case (step y z)
        then have "y \<in> S" "hop_off X b w0 y z" by (simp_all add: edges_off_def)
        note closed_offD [OF assms(1) this]
        then show ?case using Cons.prems(4) step.IH by blast
      qed (rule False)
      then show ?thesis using b(4) by (auto simp: comp_of_def linked_edges_off [OF assms(1)])
    qed
    have closed: "n \<in> vis w1" if "i \<in> vis w1 \<inter> S" "hop_off X b w0 i n" for i n
    proof (cases "i \<in> vis w")
      case True
      then show ?thesis using that Cons.prems(4) b(5) by blast
    next
      case False
      then have "(root, i) \<in> ?E\<^sup>*" using that(1) b(4,5) by (auto simp: comp_of_def linked_edges_off [OF assms(1)])
      moreover have "(i, n) \<in> ?E" using that by (simp add: edges_off_def)
      ultimately have "(root, n) \<in> ?E\<^sup>*" by (rule rtrancl_into_rtrancl)
      then show ?thesis using b(4,5) by (simp add: comp_of_def linked_edges_off [OF assms(1)])
    qed
    have u1: "unmarked w1 = unmarked w0" using b(2) Cons.prems(1) by simp
    have s1: "set xs \<subseteq> S" "X \<subseteq> vis w1" using Cons.prems(2,3) b(5) by auto
    from Cons.IH [OF u1 s1] closed obtain Ls w' where IH:
      "clusters_loop b xs w1 = Some (map (cluster_of w0) Ls, w')" "unmarked w' = unmarked w0" "list_all distinct Ls"
      "distinct (map set Ls)" "set (map set Ls) = comp_of ?E ` (set xs - vis w1)" by blast
    have img: "comp_of ?E ` (set (root # xs) - vis w) = insert (set L) (comp_of ?E ` (set xs - vis w1))"
    proof -
      let ?l = "set (root # xs) \<inter> set L"
      have "set (root # xs) - vis w = ?l \<union> (set xs - vis w1)" using b(5) disj rL by auto
      moreover have "comp_of ?E i = set L" if "i \<in> set L" for i
        using that b(4) comp_of_eq [of ?E root i] by (auto simp: comp_of_def)
      then have "comp_of ?E ` ?l = {set L}" using rL by auto
      ultimately show ?thesis by (simp only: image_Un) simp
    qed
    have "set L \<notin> comp_of ?E ` (set xs - vis w1)"
    proof
      assume "set L \<in> comp_of ?E ` (set xs - vis w1)"
      then obtain v where v: "set L = comp_of ?E v" "v \<notin> vis w1" by auto
      have "v \<in> comp_of ?E v" by (simp add: comp_of_def)
      then show False using v b(5) by blast
    qed
    then have "distinct (map set (L # Ls))" "list_all distinct (L # Ls)" using IH(3,4,5) b(3) by simp_all
    moreover have "clusters_loop b (root # xs) w = Some (map (cluster_of w0) (L # Ls), w')"
      using False b(1) IH(1) cluster_of_same [OF Cons.prems(1)] by (simp add: vis_def)
    moreover have "set (map set (L # Ls)) = comp_of ?E ` (set (root # xs) - vis w)" using IH(5) img by simp
    ultimately show ?thesis using IH(2) by blast
  qed
qed

text \<open>A search that starts from every item finds all components.\<close>

lemma clusters_loop_components:
  assumes "search_closed b w0 S" and "unmarked w = unmarked w0" and "set xs \<subseteq> S" and "S - set xs \<subseteq> vis w"
    and "\<forall>i \<in> vis w \<inter> S. \<forall>n. hop b w0 i n \<longrightarrow> n \<in> vis w"
  shows "\<exists>Ls w'. clusters_loop b xs w = Some (map (cluster_of w0) Ls, w') \<and> unmarked w' = unmarked w0 \<and>
    list_all distinct Ls \<and> distinct (map set Ls) \<and> set (map set Ls) = comp_of (edges_of b w0 S) ` (S - vis w)"
proof -
  have "set xs - vis w = S - vis w" using assms(3,4) by blast
  then show ?thesis
    using clusters_loop_off [of "{}" b w0 S w xs, unfolded off_empty hop_off_empty, OF assms(1-3) empty_subsetI assms(5)] by simp
qed

end
