(* ===== verification/CnPropagate.thy ===== *)
theory CnPropagate
  imports CnClusters "HOL-Library.Multiset"
begin

text \<open>
  The state of the connectivity that its operations keep (\<open>cn_inv\<close>), the clusters found in such a state,
  the nets of a cluster, and the propagation of nets to the items of a cluster:
  \<^verbatim>\<open>pcbnew/connectivity/connectivity_algo.cpp\<close> and \<^verbatim>\<open>connectivity_items.cpp\<close>.
\<close>

section \<open>Invariant\<close>

text \<open>
  The items of the list are in the index, each once, of the kinds that \<open>Add\<close> makes; connections of
  valid items are mutual; a valid item is in the entry of its board item, and an item whose net can
  change is the only one of its board item, which is not a zone.
\<close>

definition cn_inv :: "CN_WORLD \<Rightarrow> bool" where
  "cn_inv w \<longleftrightarrow> distinct (cn_items w) \<and> set (cn_index w) = set (cn_items w) \<and>
     (\<forall>i \<in> set (cn_items w). i < cn_next_item w \<and> (\<forall>n \<in> set (ci_connected (cn_item w i)). n < cn_next_item w) \<and>
        bi_type (cn_parent w i) \<in> set withZones) \<and>
     (\<forall>i \<in> set (cn_items w). \<forall>n \<in> set (ci_connected (cn_item w i)).
        ci_valid (cn_item w i) \<and> ci_valid (cn_item w n) \<longrightarrow> n \<in> set (cn_items w) \<and> i \<in> set (ci_connected (cn_item w n))) \<and>
     (\<forall>i \<in> set (cn_items w). ci_valid (cn_item w i) \<longrightarrow>
        (\<exists>is. cn_item_map w (ci_parent (cn_item w i)) = Some is \<and> i \<in> set is \<and> (ci_canChangeNet (cn_item w i) \<longrightarrow> is = [i]))) \<and>
     (\<forall>i \<in> set (cn_items w). ci_canChangeNet (cn_item w i) \<longrightarrow> bi_type (cn_parent w i) \<noteq> PCB_ZONE_T)"

lemma cn_invD:
  assumes "cn_inv w" and "i \<in> set (cn_items w)"
  shows "i < cn_next_item w" "n \<in> set (ci_connected (cn_item w i)) \<Longrightarrow> n < cn_next_item w" "bi_type (cn_parent w i) \<in> set withZones"
    "n \<in> set (ci_connected (cn_item w i)) \<Longrightarrow> ci_valid (cn_item w i) \<Longrightarrow> ci_valid (cn_item w n) \<Longrightarrow> n \<in> set (cn_items w)"
    "n \<in> set (ci_connected (cn_item w i)) \<Longrightarrow> ci_valid (cn_item w i) \<Longrightarrow> ci_valid (cn_item w n) \<Longrightarrow> i \<in> set (ci_connected (cn_item w n))"
    "ci_valid (cn_item w i) \<Longrightarrow> \<exists>is. cn_item_map w (ci_parent (cn_item w i)) = Some is \<and> i \<in> set is \<and> (ci_canChangeNet (cn_item w i) \<longrightarrow> is = [i])"
    "ci_canChangeNet (cn_item w i) \<Longrightarrow> bi_type (cn_parent w i) \<noteq> PCB_ZONE_T"
  using assms unfolding cn_inv_def by blast+

lemma changeable_parent:
  assumes "cn_inv w" and "i \<in> set (cn_items w)" "j \<in> set (cn_items w)" and "ci_valid (cn_item w i)" "ci_valid (cn_item w j)"
    and "ci_canChangeNet (cn_item w i)" and "ci_parent (cn_item w i) = ci_parent (cn_item w j)"
  shows "i = j"
proof -
  obtain xs where "cn_item_map w (ci_parent (cn_item w i)) = Some xs" "xs = [i]"
    using cn_invD(6) [OF assms(1,2,4)] assms(6) by blast
  moreover obtain js where "cn_item_map w (ci_parent (cn_item w j)) = Some js" "j \<in> set js"
    using cn_invD(6) [OF assms(1,3,5)] by blast
  ultimately show ?thesis using assms(7) by simp
qed

section \<open>The clusters of a board\<close>

definition search_items :: "CLUSTER_SEARCH_MODE \<Rightarrow> CN_WORLD \<Rightarrow> nat set" where
  "search_items aMode w = {i \<in> set (cn_items w). ci_valid (cn_item w i) \<and> (aMode \<noteq> CSM_PROPAGATE \<longrightarrow> cn_Net w i > 0)}"

definition cluster_edges :: "CLUSTER_SEARCH_MODE \<Rightarrow> CN_WORLD \<Rightarrow> (nat \<times> nat) set" where
  "cluster_edges aMode w = edges_of (aMode \<noteq> CSM_PROPAGATE) w (search_items aMode w)"

lemma search_items_closed:
  assumes "cn_inv w"
  shows "search_closed (aMode \<noteq> CSM_PROPAGATE) w (search_items aMode w)"
  unfolding search_closed_def
proof (intro conjI ballI allI impI)
  fix i n assume "i \<in> search_items aMode w" and h: "hop (aMode \<noteq> CSM_PROPAGATE) w i n"
  then have i: "i \<in> set (cn_items w)" "ci_valid (cn_item w i)" "aMode \<noteq> CSM_PROPAGATE \<longrightarrow> cn_Net w i > 0"
    by (auto simp: search_items_def)
  have n: "n \<in> set (ci_connected (cn_item w i))" "ci_valid (cn_item w n)" "aMode \<noteq> CSM_PROPAGATE \<longrightarrow> cn_Net w n = cn_Net w i"
    using h by (auto simp: hop_def)
  show "n \<in> search_items aMode w" using cn_invD(4) [OF assms i(1) n(1) i(2) n(2)] i(3) n by (auto simp: search_items_def)
  show "hop (aMode \<noteq> CSM_PROPAGATE) w n i" using cn_invD(5) [OF assms i(1) n(1) i(2) n(2)] i(2) n(3) by (auto simp: hop_def)
qed (simp add: search_items_def)

lemma cluster_items:
  assumes "cn_inv w" and "C \<in> comps (search_items aMode w) (cluster_edges aMode w)"
  shows "C \<subseteq> search_items aMode w"
proof -
  obtain r where "r \<in> search_items aMode w" "C = comp_of (cluster_edges aMode w) r" using assms(2) by (auto simp: comps_def)
  with comp_of_closed [OF search_items_closed [OF assms(1)], of r aMode] show ?thesis by (simp add: cluster_edges_def)
qed

lemma fold_SetVisited:
  "unmarked (fold (SetVisited False) xs w) = unmarked w" "vis (fold (SetVisited False) xs w) = vis w - set xs"
  by (induction xs arbitrary: w) auto

text \<open>The items that a search within one net starts from; a negative net is any net.\<close>

definition net_items :: "CLUSTER_SEARCH_MODE \<Rightarrow> int \<Rightarrow> CN_WORLD \<Rightarrow> nat set" where
  "net_items aMode aSingleNet w = {i \<in> search_items aMode w. aSingleNet \<ge> 0 \<longrightarrow> cn_Net w i = aSingleNet}"

lemma net_items_closed:
  assumes "cn_inv w" and "aMode = CSM_PROPAGATE \<longrightarrow> aSingleNet < 0"
  shows "search_closed (aMode \<noteq> CSM_PROPAGATE) w (net_items aMode aSingleNet w)"
proof -
  let ?b = "aMode \<noteq> CSM_PROPAGATE"
  have fin: "finite (net_items aMode aSingleNet w)" by (simp add: net_items_def search_items_def)
  have "n \<in> net_items aMode aSingleNet w \<and> hop ?b w n i" if i: "i \<in> net_items aMode aSingleNet w" and h: "hop ?b w i n" for i n
  proof -
    have "i \<in> search_items aMode w" using i by (simp add: net_items_def)
    note n = search_closedD [OF search_items_closed [OF assms(1)] this h]
    have "aSingleNet \<ge> 0 \<longrightarrow> cn_Net w n = aSingleNet"
      using i h assms(2) by (auto simp: net_items_def hop_def)
    then show ?thesis using n by (simp add: net_items_def)
  qed
  then show ?thesis using fin unfolding search_closed_def by blast
qed

lemma SearchClusters_types_found:
  assumes "cn_inv w" and "\<not> cn_list_dirty w" and "\<forall>i \<in> set (cn_items w). bi_type (cn_parent w i) \<in> set aTypes"
    and "aMode = CSM_PROPAGATE \<longrightarrow> aSingleNet < 0"
  shows "\<exists>Ls w'. SearchClusters_types g aMode aTypes aSingleNet rootItem w =
      Some (sort_key cl_originNet (map (cluster_of w) Ls), w') \<and> unmarked w' = unmarked w \<and>
    list_all distinct Ls \<and> distinct (map set Ls) \<and>
    set (map set Ls) = comps (net_items aMode aSingleNet w) (edges_of (aMode \<noteq> CSM_PROPAGATE) w (net_items aMode aSingleNet w))"
proof -
  let ?b = "aMode \<noteq> CSM_PROPAGATE" and ?S = "net_items aMode aSingleNet w"
  let ?found = "filter (in_search ?b aTypes aSingleNet rootItem w) (cn_items w)"
  have S: "set ?found = ?S" using assms(3) by (auto simp: net_items_def search_items_def in_search_def)
  let ?w = "fold (SetVisited False) ?found w"
  have u: "unmarked ?w = unmarked w" and v: "vis ?w \<inter> ?S = {}" using S by (auto simp: fold_SetVisited)
  have "set (sort (remdups ?found)) \<subseteq> ?S" "?S - set (sort (remdups ?found)) \<subseteq> vis ?w" using S by auto
  moreover have "\<forall>i \<in> vis ?w \<inter> ?S. \<forall>n. hop ?b w i n \<longrightarrow> n \<in> vis ?w" using v by blast
  ultimately obtain Ls w' where L: "clusters_loop ?b (sort (remdups ?found)) ?w = Some (map (cluster_of w) Ls, w')"
    "unmarked w' = unmarked w" "list_all distinct Ls" "distinct (map set Ls)"
    "set (map set Ls) = comp_of (edges_of ?b w ?S) ` (?S - vis ?w)"
    using clusters_loop_components [OF net_items_closed [OF assms(1,4)] u] by blast
  have "?S - vis ?w = ?S" using v by blast
  then have "set (map set Ls) = comps ?S (edges_of ?b w ?S)" using L(5) by (simp add: comps_def)
  moreover have "SearchClusters_types g aMode aTypes aSingleNet rootItem w = Some (sort_key cl_originNet (map (cluster_of w) Ls), w')"
    using L(1) assms(2) by (simp add: SearchClusters_types_def Let_def)
  ultimately show ?thesis using L(2-4) by blast
qed

lemma SearchClusters_found:
  assumes "cn_inv w" and "\<not> cn_list_dirty w" and "aMode \<noteq> CSM_PROPAGATE"
  shows "\<exists>Ls w'. SearchClusters g aMode w = Some (sort_key cl_originNet (map (cluster_of w) Ls), w') \<and> unmarked w' = unmarked w \<and>
    list_all distinct Ls \<and> distinct (map set Ls) \<and>
    set (map set Ls) = comps (search_items aMode w) (cluster_edges aMode w)"
proof -
  have ty: "\<forall>i \<in> set (cn_items w). bi_type (cn_parent w i) \<in> set (if aMode = CSM_PROPAGATE then withoutZones else withZones)"
    using cn_invD(3) [OF assms(1)] assms(3) by simp
  have all: "net_items aMode (- 1) w = search_items aMode w" by (simp add: net_items_def)
  have "aMode = CSM_PROPAGATE \<longrightarrow> (- 1 :: int) < 0" by simp
  from SearchClusters_types_found [OF assms(1,2) ty this, of g None] show ?thesis
    unfolding SearchClusters_def cluster_edges_def all .
qed

text \<open>
  A search that propagates nets starts from the items that are no zones and clears their marks only. It
  goes through zones as well, but not through those that are still marked from an earlier search: it
  sees the valid items without these (\<open>live_items\<close>) and starts from those that \<open>starts_search\<close>. The
  other searches start from all items and clear all marks.
\<close>

definition is_zone_item :: "CN_WORLD \<Rightarrow> nat \<Rightarrow> bool" where
  "is_zone_item w i \<longleftrightarrow> bi_type (cn_parent w i) = PCB_ZONE_T"

definition live_items :: "CLUSTER_SEARCH_MODE \<Rightarrow> CN_WORLD \<Rightarrow> nat set" where
  "live_items aMode w = {i \<in> search_items aMode w. aMode = CSM_PROPAGATE \<and> is_zone_item w i \<longrightarrow> \<not> ci_visited (cn_item w i)}"

definition live_edges :: "CLUSTER_SEARCH_MODE \<Rightarrow> CN_WORLD \<Rightarrow> (nat \<times> nat) set" where
  "live_edges aMode w = {(i, n) \<in> cluster_edges aMode w. i \<in> live_items aMode w \<and> n \<in> live_items aMode w}"

definition starts_search :: "CLUSTER_SEARCH_MODE \<Rightarrow> CN_WORLD \<Rightarrow> nat \<Rightarrow> bool" where
  "starts_search aMode w i \<longleftrightarrow> (aMode = CSM_PROPAGATE \<longrightarrow> \<not> is_zone_item w i)"

definition live_comps :: "CLUSTER_SEARCH_MODE \<Rightarrow> CN_WORLD \<Rightarrow> nat set set" where
  "live_comps aMode w = {C \<in> comps (live_items aMode w) (live_edges aMode w). \<exists>i \<in> C. starts_search aMode w i}"

text \<open>Without a zone that is still marked these are the components of all valid items.\<close>

definition no_stale_zone :: "CN_WORLD \<Rightarrow> bool" where
  "no_stale_zone w \<longleftrightarrow> (\<forall>i \<in> set (cn_items w). is_zone_item w i \<longrightarrow> \<not> ci_visited (cn_item w i))"

lemma live_all:
  assumes "cn_inv w" and "aMode = CSM_PROPAGATE \<longrightarrow> no_stale_zone w"
  shows "live_items aMode w = search_items aMode w" "live_edges aMode w = cluster_edges aMode w"
proof -
  show l: "live_items aMode w = search_items aMode w"
    using assms(2) by (auto simp: live_items_def search_items_def no_stale_zone_def)
  show "live_edges aMode w = cluster_edges aMode w"
    using search_closedD(1) [OF search_items_closed [OF assms(1)]] unfolding live_edges_def l
    by (auto simp: cluster_edges_def edges_of_def)
qed

lemma live_comps_all:
  assumes "cn_inv w"
  shows "aMode \<noteq> CSM_PROPAGATE \<Longrightarrow> live_comps aMode w = comps (search_items aMode w) (cluster_edges aMode w)"
    and "no_stale_zone w \<Longrightarrow> live_comps CSM_PROPAGATE w =
      {C \<in> comps (search_items CSM_PROPAGATE w) (cluster_edges CSM_PROPAGATE w). \<exists>i \<in> C. \<not> is_zone_item w i}"
proof -
  have "\<exists>i. i \<in> C" if "C \<in> comps V E" for C :: "nat set" and V E
    using that by (auto simp: comps_def comp_of_def)
  then show "aMode \<noteq> CSM_PROPAGATE \<Longrightarrow> live_comps aMode w = comps (search_items aMode w) (cluster_edges aMode w)"
    using live_all [OF assms, of aMode] unfolding live_comps_def starts_search_def by auto
  show "no_stale_zone w \<Longrightarrow> live_comps CSM_PROPAGATE w =
      {C \<in> comps (search_items CSM_PROPAGATE w) (cluster_edges CSM_PROPAGATE w). \<exists>i \<in> C. \<not> is_zone_item w i}"
    using live_all [OF assms, of CSM_PROPAGATE] unfolding live_comps_def starts_search_def by simp
qed

definition stale_zones :: "CLUSTER_SEARCH_MODE \<Rightarrow> CN_WORLD \<Rightarrow> nat set" where
  "stale_zones aMode w = {i \<in> search_items aMode w. aMode = CSM_PROPAGATE \<and> is_zone_item w i \<and> ci_visited (cn_item w i)}"

lemma live_closed:
  assumes "cn_inv w"
  shows "closed_off (stale_zones aMode w) (aMode \<noteq> CSM_PROPAGATE) w (live_items aMode w)"
    and "edges_off (stale_zones aMode w) (aMode \<noteq> CSM_PROPAGATE) w (live_items aMode w) = live_edges aMode w"
proof -
  let ?b = "aMode \<noteq> CSM_PROPAGATE" and ?X = "stale_zones aMode w"
  have live: "i \<in> live_items aMode w \<longleftrightarrow> i \<in> search_items aMode w \<and> i \<notin> ?X" for i
    by (auto simp: live_items_def stale_zones_def)
  note closed = search_closedD [OF search_items_closed [OF assms]]
  have "n \<in> live_items aMode w \<and> hop_off ?X ?b w n i" if "i \<in> live_items aMode w" "hop_off ?X ?b w i n" for i n
    using that closed [of i aMode n] unfolding live hop_off_def by blast
  moreover have "finite (live_items aMode w)" by (simp add: live_items_def search_items_def)
  ultimately show "closed_off ?X ?b w (live_items aMode w)" unfolding closed_off_def by blast
  show "edges_off ?X ?b w (live_items aMode w) = live_edges aMode w"
    using closed unfolding edges_off_def live_edges_def cluster_edges_def edges_of_def hop_off_def live by blast
qed

lemma SearchClusters_live:
  assumes "cn_inv w" and "\<not> cn_list_dirty w"
  shows "\<exists>Ls w'. SearchClusters g aMode w = Some (sort_key cl_originNet (map (cluster_of w) Ls), w') \<and> unmarked w' = unmarked w \<and>
    list_all distinct Ls \<and> distinct (map set Ls) \<and> set (map set Ls) = live_comps aMode w"
proof -
  let ?b = "aMode \<noteq> CSM_PROPAGATE" and ?S = "live_items aMode w" and ?X = "stale_zones aMode w" and ?E = "live_edges aMode w"
  let ?types = "if aMode = CSM_PROPAGATE then withoutZones else withZones"
  let ?found = "filter (in_search ?b ?types (- 1) None w) (cn_items w)"
  have ty: "bi_type (cn_parent w i) \<in> set ?types \<longleftrightarrow> starts_search aMode w i" if "i \<in> set (cn_items w)" for i
    using cn_invD(3) [OF assms(1) that] by (auto simp: starts_search_def is_zone_item_def withZones_def withoutZones_def)
  have found: "set ?found = {i \<in> ?S. starts_search aMode w i}"
    using ty by (auto simp: live_items_def search_items_def in_search_def starts_search_def)
  let ?w = "fold (SetVisited False) ?found w"
  have u: "unmarked ?w = unmarked w" and v: "vis ?w = vis w - set ?found" by (simp_all add: fold_SetVisited)
  have none: "vis ?w \<inter> ?S = {}"
    unfolding v found by (auto simp: live_items_def starts_search_def vis_def)
  have X: "?X \<subseteq> vis ?w" unfolding v found by (auto simp: stale_zones_def live_items_def vis_def)
  have sub: "set (sort (remdups ?found)) \<subseteq> ?S" using found by auto
  have closed: "\<forall>i \<in> vis ?w \<inter> ?S. \<forall>n. hop_off ?X ?b w i n \<longrightarrow> n \<in> vis ?w" using none by blast
  obtain Ls w' where L: "clusters_loop ?b (sort (remdups ?found)) ?w = Some (map (cluster_of w) Ls, w')"
    "unmarked w' = unmarked w" "list_all distinct Ls" "distinct (map set Ls)"
    "set (map set Ls) = comp_of ?E ` (set (sort (remdups ?found)) - vis ?w)"
    using clusters_loop_off [OF live_closed(1) [OF assms(1)] u sub X closed] unfolding live_closed(2) [OF assms(1)] by blast
  have "set (sort (remdups ?found)) - vis ?w = {i \<in> ?S. starts_search aMode w i}" using found none by auto
  moreover have "comp_of ?E ` {i \<in> ?S. starts_search aMode w i} = live_comps aMode w"
  proof (intro equalityI subsetI)
    fix C assume "C \<in> comp_of ?E ` {i \<in> ?S. starts_search aMode w i}"
    then obtain i where "i \<in> ?S" "starts_search aMode w i" "C = comp_of ?E i" by blast
    moreover have "i \<in> comp_of ?E i" by (simp add: comp_of_def)
    ultimately show "C \<in> live_comps aMode w" by (auto simp: live_comps_def comps_def)
  next
    fix C assume "C \<in> live_comps aMode w"
    then obtain r i where C: "r \<in> ?S" "C = comp_of ?E r" "i \<in> C" "starts_search aMode w i"
      by (auto simp: live_comps_def comps_def)
    have "i \<in> ?S" using comp_of_closed_off [OF live_closed(1) [OF assms(1)] C(1)] C(2,3)
      unfolding live_closed(2) [OF assms(1)] by blast
    moreover have "(r, i) \<in> linked_by ?E" using C(2,3) by (simp add: comp_of_def)
    then have "C = comp_of ?E i" unfolding C(2) by (simp only: comp_of_eq)
    ultimately show "C \<in> comp_of ?E ` {i \<in> ?S. starts_search aMode w i}" using C(4) by blast
  qed
  ultimately have "set (map set Ls) = live_comps aMode w" using L(5) by simp
  moreover have "SearchClusters g aMode w = Some (sort_key cl_originNet (map (cluster_of w) Ls), w')"
    using L(1) assms(2) by (simp add: SearchClusters_def SearchClusters_types_def Let_def)
  ultimately show ?thesis using L(2-4) by blast
qed

lemma live_comps_items:
  assumes "cn_inv w" and "C \<in> live_comps aMode w"
  shows "C \<subseteq> search_items aMode w" "C \<in> comps (live_items aMode w) (live_edges aMode w)"
proof -
  show C: "C \<in> comps (live_items aMode w) (live_edges aMode w)" using assms(2) by (simp add: live_comps_def)
  then obtain r where "r \<in> live_items aMode w" "C = comp_of (live_edges aMode w) r" by (auto simp: comps_def)
  with comp_of_closed_off [OF live_closed(1) [OF assms(1)], of r aMode] have "C \<subseteq> live_items aMode w"
    unfolding live_closed(2) [OF assms(1)] by simp
  then show "C \<subseteq> search_items aMode w" by (auto simp: live_items_def)
qed

section \<open>The nets of a cluster\<close>

definition counted_pad :: "CN_WORLD \<Rightarrow> nat \<Rightarrow> bool" where
  "counted_pad w i \<longleftrightarrow> cn_Net w i > 0 \<and> bi_type (cn_parent w i) = PCB_PAD_T \<and> \<not> bi_free (cn_parent w i)"

definition pad_nets :: "CN_WORLD \<Rightarrow> nat set \<Rightarrow> int set" where
  "pad_nets w C = cn_Net w ` {i \<in> C. counted_pad w i}"

definition cluster_inv :: "CN_WORLD \<Rightarrow> nat set \<Rightarrow> CN_CLUSTER \<Rightarrow> bool" where
  "cluster_inv w C c \<longleftrightarrow> (cl_originPad c = None \<longleftrightarrow> pad_nets w C = {}) \<and>
     (pad_nets w C \<noteq> {} \<longrightarrow> cl_originNet c \<in> pad_nets w C) \<and>
     (cl_originNet c > 0 \<longrightarrow> (\<exists>i \<in> C. cn_Net w i = cl_originNet c)) \<and>
     ((\<exists>i \<in> C. cn_Net w i > 0) \<longrightarrow> cl_originNet c > 0) \<and>
     (cl_conflicting c \<longleftrightarrow> (\<exists>m \<in> pad_nets w C. \<exists>n \<in> pad_nets w C. m \<noteq> n)) \<and>
     (\<forall>n. n \<in> pad_nets w C \<longleftrightarrow> rank_of c n > 0)"

lemma pad_nets_insert: "pad_nets w (insert i C) = (if counted_pad w i then insert (cn_Net w i) (pad_nets w C) else pad_nets w C)"
  by (auto simp: pad_nets_def)

lemma pad_nets_pos: "n \<in> pad_nets w C \<Longrightarrow> n > 0"
  by (auto simp: pad_nets_def counted_pad_def)

lemma rank_pad_inv:
  fixes w i
  defines "n \<equiv> cn_Net w i"
  assumes "cluster_inv w C c'" and "counted_pad w i"
    and c: "c = (if cl_originNet c' \<le> 0 then c'\<lparr> cl_originNet := n, cl_netRanks := (cl_netRanks c')(n \<mapsto> 0) \<rparr> else c')"
  shows "cluster_inv w (insert i C) (rank_pad i n c)"
proof -
  have n: "cn_Net w i = n" by (simp add: n_def)
  have P: "pad_nets w (insert i C) = insert n (pad_nets w C)" using assms(3) n by (simp add: pad_nets_insert)
  have npos: "n > 0" using assms(3) n by (simp add: counted_pad_def)
  have inv: "cl_originPad c' = None \<longleftrightarrow> pad_nets w C = {}" "pad_nets w C \<noteq> {} \<Longrightarrow> cl_originNet c' \<in> pad_nets w C"
    "cl_originNet c' > 0 \<Longrightarrow> \<exists>i \<in> C. cn_Net w i = cl_originNet c'"
    "cl_conflicting c' \<longleftrightarrow> (\<exists>m \<in> pad_nets w C. \<exists>n \<in> pad_nets w C. m \<noteq> n)" "\<And>n. n \<in> pad_nets w C \<longleftrightarrow> rank_of c' n > 0"
    using assms(2) by (auto simp: cluster_inv_def)
  have none: "cl_originNet c' \<le> 0 \<Longrightarrow> pad_nets w C = {}" using inv(2) pad_nets_pos [of "cl_originNet c'" w C] by fastforce
  have cc: "cl_originPad c = cl_originPad c'" "cl_conflicting c = cl_conflicting c'" "cl_originNet c > 0"
    "\<And>m. rank_of c m = rank_of c' m"
    using npos none inv(5) by (auto simp: c rank_of_def split: if_splits)
  have org: "pad_nets w C \<noteq> {} \<Longrightarrow> cl_originNet c = cl_originNet c' \<and> cl_originNet c \<in> pad_nets w C"
    using inv(2) none by (auto simp: c)
  have orgC: "\<exists>j \<in> insert i C. cn_Net w j = cl_originNet c"
    using inv(3) n by (auto simp: c)
  let ?r = "rank_pad i n c"
  have rk: "rank_of ?r m = (if m = n then rank_of c n + 1 else rank_of c m)" for m
    by (simp add: rank_pad_def rank_of_def Let_def split: option.splits)
  show ?thesis
  proof (cases "pad_nets w C = {}")
    case True
    then have "?r = c\<lparr> cl_netRanks := cl_netRanks ?r, cl_originPad := Some i, cl_originNet := n \<rparr>"
      using inv(1) cc(1) by (simp add: rank_pad_def Let_def)
    then have f: "cl_originPad ?r = Some i" "cl_originNet ?r = n" "cl_conflicting ?r = cl_conflicting c"
      by (metis CN_CLUSTER.ext_inject CN_CLUSTER.surjective CN_CLUSTER.update_convs)+
    have "\<And>m. m \<in> insert n (pad_nets w C) \<longleftrightarrow> rank_of ?r m > 0"
      using rk True inv(5) cc(4) by auto
    moreover have "\<not> cl_conflicting ?r" using f(3) cc(2) inv(4) True by simp
    ultimately show ?thesis unfolding cluster_inv_def P True f(1,2) using npos n by auto
  next
    case False
    have o: "cl_originPad c \<noteq> None" using inv(1) cc(1) False by simp
    have orgP: "cl_originNet c \<in> pad_nets w C" "rank_of c (cl_originNet c) > 0" using org [OF False] inv(5) cc(4) by auto
    let ?up = "(case cl_netRanks c n of None \<Rightarrow> 1 | Some r \<Rightarrow> r + 1) > rank_of (c\<lparr> cl_netRanks := (cl_netRanks c)(n \<mapsto> (case cl_netRanks c n of None \<Rightarrow> 1 | Some r \<Rightarrow> r + 1)) \<rparr>) (cl_originNet c)"
    have f: "cl_originPad ?r \<noteq> None" "cl_originNet ?r = (if ?up then n else cl_originNet c)"
      "cl_conflicting ?r \<longleftrightarrow> cl_conflicting c \<or> \<not> ?up \<and> n \<noteq> cl_originNet c"
      using o by (auto simp: rank_pad_def Let_def)
    have up: "?up \<Longrightarrow> n \<in> pad_nets w C"
    proof -
      assume u: ?up
      then have "n \<noteq> cl_originNet c" by (auto simp: rank_of_def)
      then have "rank_of c (cl_originNet c) < (case cl_netRanks c n of None \<Rightarrow> 1 | Some r \<Rightarrow> r + 1)"
        using u by (simp add: rank_of_def)
      then have "rank_of c n > 0" using orgP(2) by (auto simp: rank_of_def split: option.splits)
      then show ?thesis using inv(5) cc(4) by simp
    qed
    have rks: "\<And>m. m \<in> insert n (pad_nets w C) \<longleftrightarrow> rank_of ?r m > 0" using rk inv(5) cc(4) by auto
    have conf: "cl_conflicting ?r \<longleftrightarrow> (\<exists>m \<in> insert n (pad_nets w C). \<exists>k \<in> insert n (pad_nets w C). m \<noteq> k)"
    proof (cases ?up)
      case True
      then have "insert n (pad_nets w C) = pad_nets w C" using up by blast
      then show ?thesis using True f(3) inv(4) cc(2) by simp
    next
      case notup: False
      show ?thesis
      proof (cases "n = cl_originNet c")
        case True
        then have "insert n (pad_nets w C) = pad_nets w C" using orgP(1) by blast
        then show ?thesis using True f(3) inv(4) cc(2) by simp
      next
        case False
        then show ?thesis using notup f(3) orgP(1) by blast
      qed
    qed
    have "\<exists>j \<in> insert i C. cn_Net w j = cl_originNet ?r" using f(2) orgC n by auto
    moreover have "cl_originNet ?r > 0" "cl_originNet ?r \<in> insert n (pad_nets w C)" using f(2) cc(3) npos orgP(1) by auto
    ultimately show ?thesis unfolding cluster_inv_def P using f(1) rks conf by blast
  qed
qed

lemma cluster_Add_inv:
  assumes "cluster_inv w C c"
  shows "cluster_inv w (insert i C) (cluster_Add w i c)"
proof -
  let ?c = "c\<lparr> cl_items := cl_items c @ [i] \<rparr>" and ?n = "cn_Net w i"
  have r: "rank_of ?c = rank_of c" by (simp add: rank_of_def fun_eq_iff)
  have eq: "cl_originPad ?c = cl_originPad c" "cl_originNet ?c = cl_originNet c" "cl_conflicting ?c = cl_conflicting c" by simp_all
  have c: "cluster_inv w C ?c" using assms unfolding cluster_inv_def r eq .
  show ?thesis
  proof (cases "?n \<le> 0")
    case True
    then have "cluster_Add w i c = ?c" by (simp add: cluster_Add_def Let_def)
    moreover have "\<not> counted_pad w i" using True by (simp add: counted_pad_def)
    ultimately show ?thesis using c True by (auto simp: cluster_inv_def pad_nets_insert)
  next
    case False
    let ?d = "if cl_originNet ?c \<le> 0 then ?c\<lparr> cl_originNet := ?n, cl_netRanks := (cl_netRanks ?c)(?n \<mapsto> 0) \<rparr> else ?c"
    show ?thesis
    proof (cases "counted_pad w i")
      case True
      then have "cluster_Add w i c = rank_pad i ?n ?d" using False by (simp add: cluster_Add_def counted_pad_def Let_def)
      then show ?thesis using rank_pad_inv [OF c True refl] by simp
    next
      case notpad: False
      then have e: "cluster_Add w i c = ?d" using False by (auto simp: cluster_Add_def counted_pad_def Let_def)
      have P: "pad_nets w (insert i C) = pad_nets w C" using notpad by (simp add: pad_nets_insert)
      have none: "cl_originNet ?c \<le> 0 \<Longrightarrow> pad_nets w C = {}"
        using c pad_nets_pos [of "cl_originNet ?c" w C] by (fastforce simp: cluster_inv_def)
      have inv: "cl_originPad ?c = None \<longleftrightarrow> pad_nets w C = {}" "pad_nets w C \<noteq> {} \<Longrightarrow> cl_originNet ?c \<in> pad_nets w C"
        "cl_originNet ?c > 0 \<Longrightarrow> \<exists>i \<in> C. cn_Net w i = cl_originNet ?c"
        "cl_conflicting ?c \<longleftrightarrow> (\<exists>m \<in> pad_nets w C. \<exists>n \<in> pad_nets w C. m \<noteq> n)" "\<And>n. n \<in> pad_nets w C \<longleftrightarrow> rank_of ?c n > 0"
        using c unfolding cluster_inv_def by blast+
      have rk: "\<And>m. m \<in> pad_nets w C \<longleftrightarrow> rank_of ?d m > 0"
        using none inv(5) by (auto simp: rank_of_def split: if_splits)
      have f: "cl_originPad ?d = cl_originPad ?c" "cl_conflicting ?d = cl_conflicting ?c" "cl_originNet ?d > 0" using False by auto
      have o: "pad_nets w C \<noteq> {} \<Longrightarrow> cl_originNet ?d \<in> pad_nets w C" using none inv(2) by (cases "cl_originNet ?c \<le> 0") auto
      have "\<exists>j \<in> insert i C. cn_Net w j = cl_originNet ?d" using inv(3) by auto
      then show ?thesis unfolding e cluster_inv_def P using f o rk inv(1,4) by simp
    qed
  qed
qed

lemma cluster_of_inv: "cluster_inv w (set L) (cluster_of w L)"
proof -
  have "cluster_inv w (C \<union> set L) (fold (cluster_Add w) L c)" if "cluster_inv w C c" for C c
    using that
  proof (induction L arbitrary: C c)
    case (Cons i L)
    from Cons.IH [OF cluster_Add_inv [OF Cons.prems]] show ?case by simp
  qed simp
  moreover have "cluster_inv w {} CN_CLUSTER_make"
    by (simp add: cluster_inv_def CN_CLUSTER_make_def pad_nets_def rank_of_def)
  ultimately show ?thesis unfolding cluster_of_def by fastforce
qed


section \<open>Propagation\<close>

text \<open>The net of every board item after the items of a list have taken the origin net of a cluster.\<close>

definition takes_net :: "CN_WORLD \<Rightarrow> nat set \<Rightarrow> nat set" where
  "takes_net w C = (\<lambda>i. ci_parent (cn_item w i)) ` {i \<in> C. ci_valid (cn_item w i) \<and> ci_canChangeNet (cn_item w i)}"

definition net_at :: "CN_WORLD \<Rightarrow> nat \<Rightarrow> int" where
  "net_at w p = bi_net (cn_board w p)"

definition same_but_nets :: "CN_WORLD \<Rightarrow> CN_WORLD \<Rightarrow> bool" where
  "same_but_nets w w' \<longleftrightarrow> cn_item w' = cn_item w \<and> cn_items w' = cn_items w \<and> cn_index w' = cn_index w \<and>
     cn_item_map w' = cn_item_map w \<and> cn_next_item w' = cn_next_item w \<and> cn_list_dirty w' = cn_list_dirty w \<and>
     cn_anchor w' = cn_anchor w \<and>
     (\<forall>p. \<exists>n. cn_board w' p = (cn_board w p)\<lparr> bi_net := n \<rparr>)"

lemma set_own_net: "\<exists>n. (b :: BOARD_CITEM) = b\<lparr> bi_net := n \<rparr>"
  by (intro exI [of _ "bi_net b"]) simp

lemma same_but_nets_refl: "same_but_nets w w"
  by (simp add: same_but_nets_def set_own_net)

lemma same_but_nets_trans:
  assumes "same_but_nets u v" and "same_but_nets v w"
  shows "same_but_nets u w"
proof -
  have "\<exists>n. cn_board w p = (cn_board u p)\<lparr> bi_net := n \<rparr>" for p
  proof -
    obtain m where "cn_board v p = (cn_board u p)\<lparr> bi_net := m \<rparr>" using assms(1) by (auto simp: same_but_nets_def)
    moreover obtain n where "cn_board w p = (cn_board v p)\<lparr> bi_net := n \<rparr>" using assms(2) by (auto simp: same_but_nets_def)
    ultimately show ?thesis by (intro exI [of _ n]) simp
  qed
  then show ?thesis using assms by (auto simp: same_but_nets_def)
qed

lemma MarkNetAsDirty_reads [simp]:
  "cn_board (MarkNetAsDirty n w) = cn_board w" "cn_item (MarkNetAsDirty n w) = cn_item w"
  "same_but_nets w (MarkNetAsDirty n w)"
  using same_but_nets_refl by (auto simp: MarkNetAsDirty_def same_but_nets_def Let_def)

lemma propagate_item_effect:
  "case propagate_item c i (ms, w) of (ms', w') \<Rightarrow> same_but_nets w w' \<and>
    (\<forall>p. net_at w' p = (if p \<in> takes_net w {i} then cl_originNet c else net_at w p)) \<and>
    set ms' = set ms \<union> {p. net_at w' p \<noteq> net_at w p}"
proof -
  let ?p = "ci_parent (cn_item w i)" and ?n = "bi_net (cn_parent w i)"
  let ?w = "SetNetCode ?p (cl_originNet c) (MarkNetAsDirty (cl_originNet c) (MarkNetAsDirty ?n w))"
  have at: "net_at w ?p = ?n" by (simp add: net_at_def cn_parent_def)
  show ?thesis
  proof (cases "ci_valid (cn_item w i) \<and> ci_canChangeNet (cn_item w i)")
    case False
    then have "takes_net w {i} = {}" by (auto simp: takes_net_def)
    then show ?thesis using False same_but_nets_refl by (auto simp: propagate_item_def Let_def)
  next
    case True
    then have t: "takes_net w {i} = {?p}" by (auto simp: takes_net_def)
    show ?thesis
    proof (cases "?n = cl_originNet c")
      case same: True
      then show ?thesis using t at same_but_nets_refl by (simp add: propagate_item_def Let_def)
    next
      case False
      have r: "propagate_item c i (ms, w) = (?p # ms, ?w)" using True False by (simp add: propagate_item_def Let_def)
      have n: "net_at ?w p = (if p \<in> takes_net w {i} then cl_originNet c else net_at w p)" for p
        using t by (simp add: net_at_def SetNetCode_def)
      have "{p. net_at ?w p \<noteq> net_at w p} = {?p}" using n t at False by auto
      moreover have "same_but_nets (MarkNetAsDirty (cl_originNet c) (MarkNetAsDirty ?n w)) ?w"
        by (auto simp: same_but_nets_def SetNetCode_def set_own_net)
      then have "same_but_nets w ?w" by (meson MarkNetAsDirty_reads(3) same_but_nets_trans)
      ultimately show ?thesis unfolding r using n by auto
    qed
  qed
qed

lemma takes_net_same: "cn_item w' = cn_item w \<Longrightarrow> takes_net w' = takes_net w"
  by (simp add: takes_net_def fun_eq_iff)

lemma takes_net_insert: "takes_net w (insert i C) = takes_net w {i} \<union> takes_net w C"
  by (auto simp: takes_net_def)

lemma propagate_items_effect:
  "case fold (propagate_item c) L (ms, w) of (ms', w') \<Rightarrow> same_but_nets w w' \<and>
    (\<forall>p. net_at w' p = (if p \<in> takes_net w (set L) then cl_originNet c else net_at w p)) \<and>
    set ms' = set ms \<union> {p. net_at w' p \<noteq> net_at w p}"
proof (induction L arbitrary: ms w)
  case Nil
  then show ?case using same_but_nets_refl by (simp add: takes_net_def)
next
  case (Cons i L)
  obtain ms1 w1 where 1: "propagate_item c i (ms, w) = (ms1, w1)" by fastforce
  obtain ms2 w2 where 2: "fold (propagate_item c) L (ms1, w1) = (ms2, w2)" by fastforce
  have e1: "same_but_nets w w1" "\<forall>p. net_at w1 p = (if p \<in> takes_net w {i} then cl_originNet c else net_at w p)"
    "set ms1 = set ms \<union> {p. net_at w1 p \<noteq> net_at w p}"
    using propagate_item_effect [where c = c and i = i and ms = ms and w = w] 1 by simp_all
  have e2: "same_but_nets w1 w2" "\<forall>p. net_at w2 p = (if p \<in> takes_net w1 (set L) then cl_originNet c else net_at w1 p)"
    "set ms2 = set ms1 \<union> {p. net_at w2 p \<noteq> net_at w1 p}"
    using Cons.IH [where ms = ms1 and w = w1] 2 by simp_all
  have t: "takes_net w1 = takes_net w" using e1(1) by (intro takes_net_same) (simp add: same_but_nets_def)
  have n: "net_at w2 p = (if p \<in> takes_net w (set (i # L)) then cl_originNet c else net_at w p)" for p
    using e1(2) e2(2) t by (auto simp: takes_net_insert [of w i "set L"])
  have "set ms2 = set ms \<union> {p. net_at w2 p \<noteq> net_at w p}"
  proof -
    have "(net_at w1 p \<noteq> net_at w p \<or> net_at w2 p \<noteq> net_at w1 p) = (net_at w2 p \<noteq> net_at w p)" for p
      using n [of p] e1(2) e2(2) t by (auto simp: takes_net_insert [of w i "set L"])
    then have "{p. net_at w1 p \<noteq> net_at w p} \<union> {p. net_at w2 p \<noteq> net_at w1 p} = {p. net_at w2 p \<noteq> net_at w p}" by blast
    then show ?thesis using e1(3) e2(3) by (simp add: Un_assoc)
  qed
  then show ?case using 1 2 n same_but_nets_trans [OF e1(1) e2(1)] by simp
qed

text \<open>The net that a cluster gives to its items that can change, if it gives one.\<close>

definition gives :: "CN_CLUSTER \<Rightarrow> int option" where
  "gives c = (if cl_conflicting c \<or> \<not> HasValidNet c then None else Some (cl_originNet c))"

lemma propagate_cluster_effect:
  "case propagate_cluster c (ms, w) of (ms', w') \<Rightarrow> same_but_nets w w' \<and>
    (\<forall>p. net_at w' p = (case gives c of None \<Rightarrow> net_at w p
       | Some n \<Rightarrow> if p \<in> takes_net w (set (cl_items c)) then n else net_at w p)) \<and>
    set ms' = set ms \<union> {p. net_at w' p \<noteq> net_at w p}"
  using propagate_items_effect [where c = c and L = "cl_items c" and ms = ms and w = w] same_but_nets_refl [of w]
  by (auto simp: propagate_cluster_def gives_def)

text \<open>When the items of different clusters stand for different board items, every cluster has its effect.\<close>

lemma propagateConnections_effect:
  assumes "distinct (map (\<lambda>c. set (cl_items c)) cs)"
    and "\<forall>c \<in> set cs. \<forall>d \<in> set cs. takes_net w (set (cl_items c)) \<inter> takes_net w (set (cl_items d)) \<noteq> {} \<longrightarrow>
      set (cl_items c) = set (cl_items d)"
  shows "case propagateConnections cs (ms, w) of (ms', w') \<Rightarrow> same_but_nets w w' \<and>
    (\<forall>c \<in> set cs. \<forall>p \<in> takes_net w (set (cl_items c)). net_at w' p = (case gives c of None \<Rightarrow> net_at w p | Some n \<Rightarrow> n)) \<and>
    (\<forall>p. (\<forall>c \<in> set cs. p \<notin> takes_net w (set (cl_items c))) \<longrightarrow> net_at w' p = net_at w p) \<and>
    set ms' = set ms \<union> {p. net_at w' p \<noteq> net_at w p}"
  using assms
proof (induction cs arbitrary: ms w)
  case Nil
  then show ?case using same_but_nets_refl by (simp add: propagateConnections_def)
next
  case (Cons c cs)
  obtain ms1 w1 where 1: "propagate_cluster c (ms, w) = (ms1, w1)" by fastforce
  obtain ms2 w2 where 2: "propagateConnections cs (ms1, w1) = (ms2, w2)" by fastforce
  have e1: "same_but_nets w w1" "\<forall>p. net_at w1 p = (case gives c of None \<Rightarrow> net_at w p
       | Some n \<Rightarrow> if p \<in> takes_net w (set (cl_items c)) then n else net_at w p)"
    "set ms1 = set ms \<union> {p. net_at w1 p \<noteq> net_at w p}"
    using propagate_cluster_effect [where c = c and ms = ms and w = w] 1 by simp_all
  have t: "takes_net w1 = takes_net w" using e1(1) by (intro takes_net_same) (simp add: same_but_nets_def)
  have d: "distinct (map (\<lambda>c. set (cl_items c)) cs)" using Cons.prems(1) by simp
  have own: "\<forall>c \<in> set cs. \<forall>d \<in> set cs. takes_net w1 (set (cl_items c)) \<inter> takes_net w1 (set (cl_items d)) \<noteq> {} \<longrightarrow>
      set (cl_items c) = set (cl_items d)"
    using Cons.prems(2) t by simp
  have e2: "same_but_nets w1 w2" "\<forall>c \<in> set cs. \<forall>p \<in> takes_net w (set (cl_items c)). net_at w2 p = (case gives c of None \<Rightarrow> net_at w1 p | Some n \<Rightarrow> n)"
    "\<forall>p. (\<forall>c \<in> set cs. p \<notin> takes_net w (set (cl_items c))) \<longrightarrow> net_at w2 p = net_at w1 p"
    "set ms2 = set ms1 \<union> {p. net_at w2 p \<noteq> net_at w1 p}"
    using Cons.IH [OF d own, of ms1] 2 t by simp_all
  have only: "p \<notin> takes_net w (set (cl_items d))" if "p \<in> takes_net w (set (cl_items c))" "d \<in> set cs" for p d
  proof -
    have "set (cl_items c) \<noteq> set (cl_items d)" using Cons.prems(1) that(2) by auto
    then show ?thesis using Cons.prems(2) that by auto
  qed
  have nc: "net_at w2 p = (case gives c of None \<Rightarrow> net_at w p | Some n \<Rightarrow> n)" if "p \<in> takes_net w (set (cl_items c))" for p
    using only [OF that] e2(3) e1(2) that by (simp split: option.splits)
  have no: "net_at w1 p = net_at w p" if "p \<notin> takes_net w (set (cl_items c))" for p
    using e1(2) that by (simp split: option.splits)
  have nd: "net_at w2 p = (case gives d of None \<Rightarrow> net_at w p | Some n \<Rightarrow> n)" if "d \<in> set cs" "p \<in> takes_net w (set (cl_items d))" for d p
    using that e2(2) only no by (cases "p \<in> takes_net w (set (cl_items c))") (auto split: option.splits)
  have rest: "net_at w2 p = net_at w p" if "\<forall>d \<in> set (c # cs). p \<notin> takes_net w (set (cl_items d))" for p
    using that e2(3) no by simp
  have "set ms2 = set ms \<union> {p. net_at w2 p \<noteq> net_at w p}"
  proof -
    have "(net_at w1 p \<noteq> net_at w p \<or> net_at w2 p \<noteq> net_at w1 p) = (net_at w2 p \<noteq> net_at w p)" for p
    proof (cases "p \<in> takes_net w (set (cl_items c))")
      case True
      then show ?thesis using only e2(3) by auto
    qed (use no in auto)
    then have "{p. net_at w1 p \<noteq> net_at w p} \<union> {p. net_at w2 p \<noteq> net_at w1 p} = {p. net_at w2 p \<noteq> net_at w p}" by blast
    then show ?thesis using e1(3) e2(4) by (simp add: Un_assoc)
  qed
  moreover have "propagateConnections (c # cs) (ms, w) = (ms2, w2)" using 1 2 by (simp add: propagateConnections_def)
  ultimately show ?case using nc nd rest same_but_nets_trans [OF e1(1) e2(1)] by auto
qed


lemma mset_sort_key_map: "mset (map f (sort_key k xs)) = mset (map f xs)"
  by (simp add: mset_map)

lemma comps_disjoint:
  assumes "C \<in> comps V E" and "D \<in> comps V E" and "i \<in> C" "i \<in> D"
  shows "C = D"
proof -
  obtain u v where uv: "C = comp_of E u" "D = comp_of E v" using assms(1,2) by (auto simp: comps_def)
  have "(u, i) \<in> linked_by E" "(v, i) \<in> linked_by E" using assms(3,4) uv by (simp_all add: comp_of_def)
  then show ?thesis using uv by (simp add: comp_of_eq [symmetric])
qed

text \<open>
  What a component of connected items agrees on: nothing when two of its pads have different nets or
  no item has a net; otherwise the net of one of its items, that of its pads if it has any.
\<close>

definition component_net :: "CN_WORLD \<Rightarrow> nat set \<Rightarrow> int option \<Rightarrow> bool" where
  "component_net w C r \<longleftrightarrow> (case r of
     None \<Rightarrow> (\<exists>m \<in> pad_nets w C. \<exists>n \<in> pad_nets w C. m \<noteq> n) \<or> (\<forall>i \<in> C. cn_Net w i \<le> 0)
   | Some n \<Rightarrow> n > 0 \<and> (\<exists>i \<in> C. cn_Net w i = n) \<and> pad_nets w C \<subseteq> {n})"

lemma gives_component_net: "component_net w (set L) (gives (cluster_of w L))"
proof -
  have inv: "pad_nets w (set L) \<noteq> {} \<longrightarrow> cl_originNet (cluster_of w L) \<in> pad_nets w (set L)"
    "cl_originNet (cluster_of w L) > 0 \<longrightarrow> (\<exists>i \<in> set L. cn_Net w i = cl_originNet (cluster_of w L))"
    "(\<exists>i \<in> set L. cn_Net w i > 0) \<longrightarrow> cl_originNet (cluster_of w L) > 0"
    "cl_conflicting (cluster_of w L) \<longleftrightarrow> (\<exists>m \<in> pad_nets w (set L). \<exists>n \<in> pad_nets w (set L). m \<noteq> n)"
    using cluster_of_inv [of w L] unfolding cluster_inv_def by blast+
  show ?thesis
  proof (cases "cl_conflicting (cluster_of w L)")
    case True
    then show ?thesis using inv(4) by (simp add: component_net_def gives_def)
  next
    case False
    show ?thesis
    proof (cases "cl_originNet (cluster_of w L) > 0")
      case True
      moreover have "pad_nets w (set L) \<subseteq> {cl_originNet (cluster_of w L)}" using inv(1,4) False by blast
      ultimately show ?thesis using inv(2) False by (simp add: component_net_def gives_def HasValidNet_def)
    next
      case no: False
      then have "\<forall>i \<in> set L. cn_Net w i \<le> 0" using inv(3) by (auto simp: not_less)
      then show ?thesis using no by (simp add: component_net_def gives_def HasValidNet_def)
    qed
  qed
qed

lemma takes_net_iff:
  assumes "cn_inv w" and "i \<in> set (cn_items w)" "ci_valid (cn_item w i)"
    and "C \<subseteq> set (cn_items w)"
  shows "ci_parent (cn_item w i) \<in> takes_net w C \<longleftrightarrow> i \<in> C \<and> ci_canChangeNet (cn_item w i)"
proof
  assume "ci_parent (cn_item w i) \<in> takes_net w C"
  then obtain j where j: "j \<in> C" "ci_valid (cn_item w j)" "ci_canChangeNet (cn_item w j)"
    "ci_parent (cn_item w j) = ci_parent (cn_item w i)" by (auto simp: takes_net_def)
  have "j = i" using changeable_parent [OF assms(1) _ assms(2) j(2) assms(3) j(3,4)] j(1) assms(4) by blast
  then show "i \<in> C \<and> ci_canChangeNet (cn_item w i)" using j by simp
qed (use assms(3) in \<open>auto simp: takes_net_def\<close>)

lemma PropagateNets_effect:
  assumes "cn_inv w" and "\<not> cn_list_dirty w"
  shows "\<exists>cs ms w1 w'. PropagateNets g w = Some (cs, ms, w') \<and> unmarked w1 = unmarked w \<and> same_but_nets w1 w' \<and>
    (\<forall>C \<in> live_comps CSM_PROPAGATE w. \<exists>r. component_net w C r \<and>
       (\<forall>i \<in> C. net_at w' (ci_parent (cn_item w i)) = (if ci_canChangeNet (cn_item w i)
          then case r of None \<Rightarrow> net_at w (ci_parent (cn_item w i)) | Some n \<Rightarrow> n
          else net_at w (ci_parent (cn_item w i))))) \<and>
    set ms = {p. net_at w' p \<noteq> net_at w p}"
proof -
  let ?S = "search_items CSM_PROPAGATE w" and ?K = "live_comps CSM_PROPAGATE w"
  from SearchClusters_live [OF assms(1,2), of g CSM_PROPAGATE] obtain Ls w1 where
    L: "SearchClusters g CSM_PROPAGATE w = Some (sort_key cl_originNet (map (cluster_of w) Ls), w1)" "unmarked w1 = unmarked w"
    "distinct (map set Ls)" "set (map set Ls) = ?K" by auto
  let ?cs = "sort_key cl_originNet (map (cluster_of w) Ls)"
  have "mset (map (\<lambda>c. set (cl_items c)) ?cs) = mset (map set Ls)"
    unfolding mset_sort_key_map by (simp add: comp_def)
  then have d: "distinct (map (\<lambda>c. set (cl_items c)) ?cs)" using L(3) mset_eq_imp_distinct_iff by blast
  have S: "C \<subseteq> ?S" if "C \<in> ?K" for C
    by (rule live_comps_items(1) [OF assms(1) that])
  have item: "cn_items w1 = cn_items w" "takes_net w1 = takes_net w" "net_at w1 = net_at w"
    using same_world [OF L(2)] same_fields [OF L(2)] by (simp_all add: takes_net_def fun_eq_iff net_at_def)
  have comp: "set (cl_items c) \<in> ?K \<and> (\<exists>L. c = cluster_of w L)" if "c \<in> set ?cs" for c
    using that L(4) by auto
  have own: "\<forall>c \<in> set ?cs. \<forall>d \<in> set ?cs. takes_net w1 (set (cl_items c)) \<inter> takes_net w1 (set (cl_items d)) \<noteq> {} \<longrightarrow>
      set (cl_items c) = set (cl_items d)"
  proof (intro ballI impI)
    fix c d assume cd: "c \<in> set ?cs" "d \<in> set ?cs" "takes_net w1 (set (cl_items c)) \<inter> takes_net w1 (set (cl_items d)) \<noteq> {}"
    note C = comp [OF cd(1)] comp [OF cd(2)]
    from cd(3) item(2) obtain i where i: "i \<in> set (cl_items c)" "ci_valid (cn_item w i)"
      "ci_parent (cn_item w i) \<in> takes_net w (set (cl_items d))" by (auto simp: takes_net_def)
    have sub: "set (cl_items c) \<subseteq> set (cn_items w)" "set (cl_items d) \<subseteq> set (cn_items w)"
      using S C by (auto simp: search_items_def)
    then have "i \<in> set (cn_items w)" using i(1) by blast
    from takes_net_iff [OF assms(1) this i(2) sub(2)] i(3) have "i \<in> set (cl_items d)" by blast
    then show "set (cl_items c) = set (cl_items d)"
      using comps_disjoint [OF live_comps_items(2) [OF assms(1) conjunct1 [OF C(1)]] live_comps_items(2) [OF assms(1) conjunct1 [OF C(2)]] i(1)]
      by blast
  qed
  obtain ms w' where P: "propagateConnections ?cs ([], w1) = (ms, w')" by fastforce
  have e: "same_but_nets w1 w'" "\<forall>c \<in> set ?cs. \<forall>p \<in> takes_net w (set (cl_items c)). net_at w' p = (case gives c of None \<Rightarrow> net_at w p | Some n \<Rightarrow> n)"
    "\<forall>p. (\<forall>c \<in> set ?cs. p \<notin> takes_net w (set (cl_items c))) \<longrightarrow> net_at w' p = net_at w p"
    "set ms = {p. net_at w' p \<noteq> net_at w p}"
    using propagateConnections_effect [OF d own, of "[]", unfolded item P] by simp_all
  have "\<exists>r. component_net w C r \<and>
       (\<forall>i \<in> C. net_at w' (ci_parent (cn_item w i)) = (if ci_canChangeNet (cn_item w i)
          then case r of None \<Rightarrow> net_at w (ci_parent (cn_item w i)) | Some n \<Rightarrow> n
          else net_at w (ci_parent (cn_item w i))))" if C: "C \<in> ?K" for C
  proof -
    from C L(4) obtain M where M: "C = set M" "M \<in> set Ls" by auto
    let ?c = "cluster_of w M"
    have c: "?c \<in> set ?cs" using M(2) by simp
    have "net_at w' (ci_parent (cn_item w i)) = (if ci_canChangeNet (cn_item w i)
          then case gives ?c of None \<Rightarrow> net_at w (ci_parent (cn_item w i)) | Some n \<Rightarrow> n
          else net_at w (ci_parent (cn_item w i)))" if i: "i \<in> C" for i
    proof -
      have iS: "i \<in> set (cn_items w)" "ci_valid (cn_item w i)" using S [OF C] i by (auto simp: search_items_def)
      show ?thesis
      proof (cases "ci_canChangeNet (cn_item w i)")
        case True
        then have "ci_parent (cn_item w i) \<in> takes_net w (set (cl_items ?c))" using i iS(2) M(1) by (auto simp: takes_net_def)
        with bspec [OF bspec [OF e(2) c]] have "net_at w' (ci_parent (cn_item w i)) =
            (case gives ?c of None \<Rightarrow> net_at w (ci_parent (cn_item w i)) | Some n \<Rightarrow> n)" by blast
        then show ?thesis using True by simp
      next
        case False
        have "ci_parent (cn_item w i) \<notin> takes_net w (set (cl_items d))" if "d \<in> set ?cs" for d
        proof -
          have "set (cl_items d) \<subseteq> set (cn_items w)" using S comp [OF that] by (auto simp: search_items_def)
          then show ?thesis using takes_net_iff [OF assms(1) iS] False by blast
        qed
        then have "net_at w' (ci_parent (cn_item w i)) = net_at w (ci_parent (cn_item w i))" using e(3) by blast
        then show ?thesis using False by simp
      qed
    qed
    then show ?thesis using gives_component_net [of w M] M(1) by blast
  qed
  moreover have "PropagateNets g w = Some (?cs, ms, w')" using L(1) P by (simp add: PropagateNets_def)
  ultimately show ?thesis using L(2) e(1,4) by blast
qed

end
