(* ===== verification/CnReach.thy ===== *)
theory CnReach
  imports CnPropagate
begin

text \<open>
  The states that \<open>CN_CONNECTIVITY_ALGO\<close> (\<^verbatim>\<open>pcbnew/connectivity/connectivity_algo.cpp\<close>) reaches from an empty
  one by adding and removing board items, searching and propagating nets, while the nets of the board
  may change otherwise: all of them satisfy \<open>cn_inv\<close>.
\<close>

section \<open>What the invariant reads\<close>

definition same_board :: "CN_WORLD \<Rightarrow> CN_WORLD \<Rightarrow> bool" where
  "same_board w w' \<longleftrightarrow> (\<forall>p. bi_type (cn_board w' p) = bi_type (cn_board w p) \<and> bi_pads (cn_board w' p) = bi_pads (cn_board w p))"

lemma same_board_trans: "same_board u v \<Longrightarrow> same_board v w \<Longrightarrow> same_board u w"
  by (simp add: same_board_def)

definition same_core :: "CN_WORLD \<Rightarrow> CN_WORLD \<Rightarrow> bool" where
  "same_core w w' \<longleftrightarrow> cn_items w' = cn_items w \<and> cn_index w' = cn_index w \<and> cn_next_item w' = cn_next_item w \<and>
     cn_item_map w' = cn_item_map w \<and>
     same_board w w' \<and>
     (\<forall>i. ci_parent (cn_item w' i) = ci_parent (cn_item w i) \<and> ci_connected (cn_item w' i) = ci_connected (cn_item w i) \<and>
        ci_valid (cn_item w' i) = ci_valid (cn_item w i) \<and> ci_canChangeNet (cn_item w' i) = ci_canChangeNet (cn_item w i))"

lemma same_core_refl [simp]: "same_core w w"
  by (simp add: same_core_def same_board_def)

lemma same_core_trans: "same_core u v \<Longrightarrow> same_core v w \<Longrightarrow> same_core u w"
  by (simp add: same_core_def same_board_def)

lemma same_core_inv:
  assumes "same_core w w'" and "cn_inv w"
  shows "cn_inv w'"
proof -
  have eq: "cn_items w' = cn_items w" "cn_index w' = cn_index w" "cn_next_item w' = cn_next_item w"
    "cn_item_map w' = cn_item_map w" "\<And>i. bi_type (cn_parent w' i) = bi_type (cn_parent w i)"
    "\<And>i. ci_parent (cn_item w' i) = ci_parent (cn_item w i)" "\<And>i. ci_connected (cn_item w' i) = ci_connected (cn_item w i)"
    "\<And>i. ci_valid (cn_item w' i) = ci_valid (cn_item w i)" "\<And>i. ci_canChangeNet (cn_item w' i) = ci_canChangeNet (cn_item w i)"
    using assms(1) by (simp_all add: same_core_def same_board_def cn_parent_def)
  show ?thesis using assms(2) unfolding cn_inv_def eq .
qed

lemma same_core_upd:
  assumes "ci_parent (f (cn_item w i)) = ci_parent (cn_item w i)" "ci_connected (f (cn_item w i)) = ci_connected (cn_item w i)"
    "ci_valid (f (cn_item w i)) = ci_valid (cn_item w i)" "ci_canChangeNet (f (cn_item w i)) = ci_canChangeNet (cn_item w i)"
  shows "same_core w (upd_item i f w)"
  using assms by (simp add: same_core_def same_board_def upd_item_def)

lemma same_core_fold:
  assumes "\<And>x w. same_core w (f x w)"
  shows "same_core w (fold f xs w)"
  by (induction xs arbitrary: w) (auto intro: same_core_trans assms)

lemma same_core_unmarked: "unmarked w' = unmarked w \<Longrightarrow> same_core w w'"
proof -
  assume u: "unmarked w' = unmarked w"
  have "same_core w (unmarked w)" "same_core w' (unmarked w')" by (simp_all add: same_core_def same_board_def unmarked_def)
  then show ?thesis unfolding u by (simp add: same_core_def same_board_def)
qed

lemma same_core_simple:
  "same_core w (SetLayers l i w)" "same_core w (AddAnchor i a w)" "same_core w (MarkNetAsDirty n w)"
  "same_core w (delete_item i w)" "same_core w (SetNetCode p n w)"
  "same_core w (nets_ClearDirtyFlags w)" "same_core w (w\<lparr> cn_list_dirty := b \<rparr>)" "same_core w (w\<lparr> cn_has_invalid := b \<rparr>)"
  by (simp_all add: same_core_def same_board_def SetLayers_def AddAnchor_def MarkNetAsDirty_def delete_item_def SetNetCode_def
      nets_ClearDirtyFlags_def upd_item_def Let_def)

lemma same_core_markItem: "same_core w (markItemNetAsDirty p w)"
  by (auto simp: markItemNetAsDirty_def Let_def intro!: same_core_simple same_core_fold)

lemma same_core_ClearDirty: "same_core w (list_ClearDirtyFlags w)"
proof -
  have "same_core w (fold (\<lambda>i. upd_item i (\<lambda>it. it\<lparr> ci_dirty := False \<rparr>)) (cn_items w) w)"
    by (intro same_core_fold same_core_upd) simp_all
  then show ?thesis unfolding list_ClearDirtyFlags_def using same_core_simple(7) same_core_trans by blast
qed

section \<open>Adding\<close>

definition entry :: "(nat \<rightharpoonup> nat list) \<Rightarrow> nat \<Rightarrow> nat list" where
  "entry m p = (case m p of None \<Rightarrow> [] | Some is \<Rightarrow> is)"

definition with_map :: "(nat \<rightharpoonup> nat list) \<Rightarrow> CN_WORLD \<Rightarrow> CN_WORLD" where
  "with_map m w = w\<lparr> cn_item_map := m \<rparr>"

lemma same_core_with_map: "same_core w w' \<Longrightarrow> same_core (with_map m w) (with_map m w')"
  by (simp add: same_core_def same_board_def with_map_def)

text \<open>A new item without connections, in the list, in the index and in the entry of its board item.\<close>

lemma insert_item_inv:
  assumes "cn_inv (with_map m w)" and "ci_connected it = []" and "ci_valid it"
    and "bi_type (cn_board w (ci_parent it)) \<in> set withZones"
    and "ci_canChangeNet it \<Longrightarrow> entry m (ci_parent it) = [] \<and> bi_type (cn_board w (ci_parent it)) \<noteq> PCB_ZONE_T"
    and "\<not> ci_canChangeNet it \<Longrightarrow> entry m (ci_parent it) = [] \<or> bi_type (cn_board w (ci_parent it)) = PCB_ZONE_T"
    and "new_item it w = (i, w1)" and "same_core w1 w2"
  shows "cn_inv (with_map (m(ci_parent it \<mapsto> entry m (ci_parent it) @ [i])) (list_insert i w2))"
proof -
  let ?p = "ci_parent it" and ?w = "with_map m w"
  let ?m = "m(?p \<mapsto> entry m ?p @ [i])"
  let ?v = "with_map ?m (list_insert i w1)"
  note inv = cn_invD [OF assms(1)]
  have i: "i = cn_next_item w" "w1 = w\<lparr> cn_item := (cn_item w)(i := it), cn_next_item := i + 1 \<rparr>"
    using assms(7) by (auto simp: new_item_def)
  have old: "cn_items ?w = cn_items w" "cn_item ?w = cn_item w" "cn_index ?w = cn_index w" "cn_next_item ?w = i"
    "cn_parent ?w = cn_parent w" "cn_item_map ?w = m"
    using i(1) by (simp_all add: with_map_def cn_parent_def fun_eq_iff)
  have lt: "j \<noteq> i" "\<And>n. n \<in> set (ci_connected (cn_item w j)) \<Longrightarrow> n \<noteq> i" if "j \<in> set (cn_items w)" for j
    using inv(1,2) [of j] that old by auto
  have new: "cn_items ?v = cn_items w @ [i]" "cn_index ?v = cn_index w @ [i]" "cn_next_item ?v = i + 1" "cn_item_map ?v = ?m"
    "cn_item ?v = (cn_item w)(i := it)" "cn_board ?v = cn_board w"
    using i(2) by (simp_all add: with_map_def list_insert_def)
  have pa: "cn_parent ?v j = (if j = i then cn_board w ?p else cn_parent w j)" for j
    using new by (simp add: cn_parent_def)
  have "cn_inv ?v"
    unfolding cn_inv_def
  proof (intro conjI ballI impI)
    show "distinct (cn_items ?v)" using assms(1) lt(1) new(1) old(1) by (auto simp: cn_inv_def)
    show "set (cn_index ?v) = set (cn_items ?v)" using assms(1) new old by (simp add: cn_inv_def)
  next
    fix j assume j: "j \<in> set (cn_items ?v)"
    show "j < cn_next_item ?v" using j new inv(1) [of j] old by auto
    show "bi_type (cn_parent ?v j) \<in> set withZones" using j new pa inv(3) [of j] old assms(4) by auto
    show "n < cn_next_item ?v" if "n \<in> set (ci_connected (cn_item ?v j))" for n
      using that j new inv(2) [of j n] old assms(2) by (cases "j = i") auto
    show "bi_type (cn_parent ?v j) \<noteq> PCB_ZONE_T" if "ci_canChangeNet (cn_item ?v j)"
      using that j new pa inv(7) [of j] old assms(5) by (cases "j = i") auto
    {
      fix n assume n: "n \<in> set (ci_connected (cn_item ?v j))" "ci_valid (cn_item ?v j) \<and> ci_valid (cn_item ?v n)"
      then have ji: "j \<noteq> i" using new assms(2) by auto
      then have jw: "j \<in> set (cn_items w)" using j new by auto
      have ni: "n \<noteq> i" using lt(2) [OF jw] n(1) new(5) ji by auto
      show "n \<in> set (cn_items ?v)" "j \<in> set (ci_connected (cn_item ?v n))"
        using inv(4,5) [of j n] jw n new ji ni old by auto
    }
    assume v: "ci_valid (cn_item ?v j)"
    show "\<exists>is. cn_item_map ?v (ci_parent (cn_item ?v j)) = Some is \<and> j \<in> set is \<and> (ci_canChangeNet (cn_item ?v j) \<longrightarrow> is = [j])"
    proof (cases "j = i")
      case True
      then show ?thesis using new assms(5) by simp
    next
      case False
      then have jw: "j \<in> set (cn_items w)" "ci_valid (cn_item w j)" using j v new by auto
      from inv(6) [of j] jw old obtain xs where xs: "m (ci_parent (cn_item w j)) = Some xs" "j \<in> set xs"
        "ci_canChangeNet (cn_item w j) \<longrightarrow> xs = [j]" by auto
      show ?thesis
      proof (cases "ci_parent (cn_item w j) = ?p")
        case True
        then have e: "entry m ?p = xs" using xs(1) by (simp add: entry_def)
        then have "entry m ?p \<noteq> []" using xs(2) by auto
        then have "bi_type (cn_board w ?p) = PCB_ZONE_T" using assms(5,6) by blast
        then have "\<not> ci_canChangeNet (cn_item w j)" using inv(7) [of j] jw(1) old True by (auto simp: cn_parent_def)
        then show ?thesis using True False e xs(2) new by auto
      qed (use False xs new in auto)
    qed
  qed
  moreover have "same_core ?v (with_map ?m (list_insert i w2))"
    using assms(8) by (simp add: same_core_def same_board_def with_map_def list_insert_def)
  ultimately show ?thesis using same_core_inv by blast
qed

text \<open>The operations of the list as a new item whose anchors and layers do not matter here.\<close>

lemma list_Adds_new:
  "\<exists>w2. list_Add_track p w = (Some (cn_next_item w), list_insert (cn_next_item w) w2) \<and> same_core (snd (new_item (CN_ITEM_make p True) w)) w2"
  "\<exists>w2. list_Add_via p w = (Some (cn_next_item w), list_insert (cn_next_item w) w2) \<and> same_core (snd (new_item (CN_ITEM_make p (\<not> bi_free (cn_board w p))) w)) w2"
  "\<exists>w2. list_Add_shape p w = (Some (cn_next_item w), list_insert (cn_next_item w) w2) \<and> same_core (snd (new_item (CN_ITEM_make p True) w)) w2"
  "\<exists>w2. list_Add_arc p w = (Some (cn_next_item w), list_insert (cn_next_item w) w2) \<and> same_core (snd (new_item (CN_ITEM_make p True) w)) w2"
  "\<exists>w2. list_Add_outline p l j w = (cn_next_item w, list_insert (cn_next_item w) w2) \<and> same_core (snd (new_item (CN_ZONE_LAYER_make p l j) w)) w2"
  by (auto simp: list_Add_track_def list_Add_arc_def list_Add_via_def list_Add_shape_def list_Add_outline_def new_item_def Let_def
      intro!: exI conjI same_core_simple same_core_fold intro: same_core_trans)

lemma list_Add_pad_new:
  assumes "list_Add_pad p w = Some (r, w')"
  shows "r = None \<and> w' = w \<or>
    (\<exists>w2. r = Some (cn_next_item w) \<and> w' = list_insert (cn_next_item w) w2 \<and> same_core (snd (new_item (CN_ITEM_make p False) w)) w2)"
  using assms
  by (auto simp: list_Add_pad_def new_item_def Let_def split: if_splits option.splits
      intro!: exI conjI same_core_simple same_core_fold intro: same_core_trans)


text \<open>An item of a board item that had none.\<close>

lemma add_entry_inv:
  assumes "cn_inv w" and "\<not> alreadyAdded p w" and "bi_type (cn_board w p) \<in> set withZones" "bi_type (cn_board w p) \<noteq> PCB_ZONE_T"
    and "same_core (snd (new_item (CN_ITEM_make p b) w)) w2"
  shows "cn_inv (add_entry p (Some (cn_next_item w), list_insert (cn_next_item w) w2))"
proof -
  let ?it = "CN_ITEM_make p b"
  have it: "ci_parent ?it = p" "ci_connected ?it = []" "ci_valid ?it" by (simp_all add: CN_ITEM_make_def)
  have e: "entry (cn_item_map w) p = []" using assms(2) by (auto simp: alreadyAdded_def entry_def split: option.splits)
  have w: "with_map (cn_item_map w) w = w" by (simp add: with_map_def)
  have m: "cn_item_map w2 = cn_item_map w" using assms(5) by (simp add: same_core_def new_item_def)
  have n: "new_item ?it w = (cn_next_item w, snd (new_item ?it w))" by (simp add: new_item_def)
  have "cn_inv (with_map ((cn_item_map w)(p \<mapsto> [] @ [cn_next_item w])) (list_insert (cn_next_item w) w2))"
    by (rule insert_item_inv [OF _ it(2,3) _ _ _ n assms(5), of "cn_item_map w", unfolded it(1) e w])
      (simp_all add: assms(1,3,4))
  then show ?thesis by (simp add: add_entry_def with_map_def list_insert_def m)
qed

lemma empty_entry_inv:
  assumes "cn_inv w" and "\<not> alreadyAdded p w"
  shows "cn_inv (w\<lparr> cn_item_map := (cn_item_map w)(p \<mapsto> []) \<rparr>)"
proof -
  have ne: "ci_parent (cn_item w i) \<noteq> p" if "i \<in> set (cn_items w)" "ci_valid (cn_item w i)" for i
    using cn_invD(6) [OF assms(1) that] assms(2) by (auto simp: alreadyAdded_def)
  let ?v = "w\<lparr> cn_item_map := (cn_item_map w)(p \<mapsto> []) \<rparr>"
  have eq: "cn_items ?v = cn_items w" "cn_item ?v = cn_item w" "cn_index ?v = cn_index w" "cn_next_item ?v = cn_next_item w"
    "cn_parent ?v = cn_parent w" by (simp_all add: cn_parent_def fun_eq_iff)
  have "\<exists>is. cn_item_map ?v (ci_parent (cn_item w i)) = Some is \<and> i \<in> set is \<and> (ci_canChangeNet (cn_item w i) \<longrightarrow> is = [i])"
    if "i \<in> set (cn_items w)" "ci_valid (cn_item w i)" for i
    using cn_invD(6) [OF assms(1) that] ne [OF that] by auto
  then show ?thesis using assms(1) unfolding cn_inv_def eq by blast
qed

lemma add_pad_inv:
  assumes "cn_inv w" and "\<not> alreadyAdded p w" and "bi_type (cn_board w p) = PCB_PAD_T" and "list_Add_pad p w = Some r"
  shows "cn_inv (add_entry p r)"
proof -
  obtain o1 w1 where r: "r = (o1, w1)" by fastforce
  show ?thesis
    using list_Add_pad_new [OF assms(4) [unfolded r]]
  proof (elim disjE exE conjE)
    assume "o1 = None" "w1 = w"
    then show ?thesis using empty_entry_inv [OF assms(1,2)] r by (simp add: add_entry_def)
  next
    fix w2 assume "o1 = Some (cn_next_item w)" "w1 = list_insert (cn_next_item w) w2"
      "same_core (snd (new_item (CN_ITEM_make p False) w)) w2"
    then show ?thesis using add_entry_inv [OF assms(1,2)] assms(3) r by (simp add: withZones_def)
  qed
qed

section \<open>Zones\<close>

text \<open>The outlines of a zone on a layer are items of the same entry.\<close>

lemma list_Add_outline_inv:
  assumes "cn_inv (with_map (m(p \<mapsto> xs)) w)" and "bi_type (cn_board w p) = PCB_ZONE_T"
    and "list_Add_outline p l j w = (i, w')"
  shows "cn_inv (with_map (m(p \<mapsto> xs @ [i])) w') \<and> cn_item_map w' = cn_item_map w \<and> same_board w w'"
proof -
  let ?it = "CN_ZONE_LAYER_make p l j"
  have it: "ci_parent ?it = p" "ci_connected ?it = []" "ci_valid ?it" "\<not> ci_canChangeNet ?it"
    by (simp_all add: CN_ZONE_LAYER_make_def CN_ITEM_make_def)
  have n: "new_item ?it w = (cn_next_item w, snd (new_item ?it w))" by (simp add: new_item_def)
  obtain w2 where w2: "i = cn_next_item w" "w' = list_insert i w2" "same_core (snd (new_item ?it w)) w2"
    using list_Adds_new(5) [of p l j w] assms(3) by auto
  have e: "entry (m(p \<mapsto> xs)) p = xs" by (simp add: entry_def)
  have "cn_inv (with_map ((m(p \<mapsto> xs))(p \<mapsto> xs @ [i])) (list_insert i w2))"
    unfolding w2(1) by (rule insert_item_inv [OF assms(1) it(2,3) _ _ _ n w2(3), unfolded it(1) e])
      (use it(4) assms(2) in \<open>simp_all add: withZones_def\<close>)
  moreover have "cn_item_map w2 = cn_item_map w \<and> same_board w w2"
    using w2(3) by (simp add: same_core_def same_board_def new_item_def)
  ultimately show ?thesis by (simp add: w2(2) list_insert_def same_board_def)
qed

lemma list_Add_outlines_inv:
  assumes "cn_inv (with_map (m(p \<mapsto> xs @ rv)) w)" and "bi_type (cn_board w p) = PCB_ZONE_T"
    and "fold (\<lambda>j (rv, w). case list_Add_outline p l j w of (i, w) \<Rightarrow> (rv @ [i], w)) js (rv, w) = (rv', w')"
  shows "cn_inv (with_map (m(p \<mapsto> xs @ rv')) w') \<and> cn_item_map w' = cn_item_map w \<and> same_board w w'"
  using assms
proof (induction js arbitrary: rv w)
  case (Cons j js)
  obtain i w1 where o1: "list_Add_outline p l j w = (i, w1)" by fastforce
  note step = list_Add_outline_inv [OF Cons.prems(1,2) o1]
  have "fold (\<lambda>j (rv, w). case list_Add_outline p l j w of (i, w) \<Rightarrow> (rv @ [i], w)) js (rv @ [i], w1) = (rv', w')"
    using Cons.prems(3) o1 by simp
  moreover have "cn_inv (with_map (m(p \<mapsto> xs @ rv @ [i])) w1)" "bi_type (cn_board w1 p) = PCB_ZONE_T"
    using step Cons.prems(2) by (simp_all add: same_board_def)
  ultimately have "cn_inv (with_map (m(p \<mapsto> xs @ rv')) w') \<and> cn_item_map w' = cn_item_map w1 \<and> same_board w1 w'"
    using Cons.IH by blast
  with step show ?case using same_board_trans [of w w1 w'] by metis
qed (simp add: same_board_def)

lemma add_zone_inv:
  assumes "cn_inv w" and "\<not> alreadyAdded p w" and "bi_type (cn_board w p) = PCB_ZONE_T" and "add_zone p w = Some w'"
  shows "cn_inv w' \<and> same_board w w'"
proof -
  let ?w0 = "w\<lparr> cn_item_map := (cn_item_map w)(p \<mapsto> []) \<rparr>"
  let ?f = "\<lambda>layer w. case list_Add_zone p layer w of
             (zitems, w) \<Rightarrow> w\<lparr> cn_item_map := (cn_item_map w)(p \<mapsto>
               (case cn_item_map w p of None \<Rightarrow> [] | Some is \<Rightarrow> is) @ zitems) \<rparr>"
  have step: "cn_inv (?f l v) \<and> same_board v (?f l v) \<and> cn_item_map (?f l v) p \<noteq> None"
    if v: "cn_inv v" "bi_type (cn_board v p) = PCB_ZONE_T" and some: "cn_item_map v p \<noteq> None" for l v
  proof -
    obtain xs where xs: "cn_item_map v p = Some xs" using some by blast
    obtain zs v1 where z: "list_Add_zone p l v = (zs, v1)" by fastforce
    have m: "(cn_item_map v)(p \<mapsto> xs) = cn_item_map v" using xs by (simp add: fun_upd_idem)
    have "cn_inv (with_map ((cn_item_map v)(p \<mapsto> xs @ [])) v)" using v(1) m by (simp add: with_map_def)
    from list_Add_outlines_inv [OF this v(2) z [unfolded list_Add_zone_def]]
    have "cn_inv (with_map ((cn_item_map v)(p \<mapsto> xs @ zs)) v1) \<and> cn_item_map v1 = cn_item_map v \<and> same_board v v1" .
    then show ?thesis using z xs by (simp add: with_map_def same_board_def)
  qed
  let ?P = "\<lambda>v. cn_inv v \<and> bi_type (cn_board v p) = PCB_ZONE_T \<and> cn_item_map v p \<noteq> None \<and> same_board w v"
  have P: "?P (if c then ?f l v else v)" if "?P v" for c l v
  proof -
    have "same_board w (?f l v)" using that step [of v l] same_board_trans [of w v "?f l v"] by blast
    moreover have "bi_type (cn_board (?f l v) p) = bi_type (cn_board w p)" using \<open>same_board w (?f l v)\<close> unfolding same_board_def by blast
    ultimately have "?P (?f l v)" using that step [of v l] unfolding assms(3) by blast
    then show ?thesis using that by (cases c) (simp_all only: if_True if_False simp_thms)
  qed
  obtain s where w': "w' = fold (\<lambda>l v. if BASE_SET_test s l then ?f (int l) v else v) [0..<length s] ?w0"
    using assms(4) unfolding add_zone_def LSET_RunOnLayers_def by (auto split: option.splits)
  have "?P ?w0" using empty_entry_inv [OF assms(1,2)] assms(3) by (simp add: same_board_def)
  then have "?P w'" unfolding w' by (rule fold_invariant [where Q = "\<lambda>_. True", OF TrueI]) (rule P)
  then show ?thesis by blast
qed


section \<open>The operations\<close>

text \<open>The pads of a footprint are pads.\<close>

definition board_ok :: "CN_WORLD \<Rightarrow> bool" where
  "board_ok w \<longleftrightarrow> (\<forall>fp. \<forall>p \<in> set (bi_pads (cn_board w fp)). bi_type (cn_board w p) = PCB_PAD_T)"

definition reach_inv :: "CN_WORLD \<Rightarrow> bool" where
  "reach_inv w \<longleftrightarrow> cn_inv w \<and> board_ok w"

lemma board_ok_same: "same_board w w' \<Longrightarrow> board_ok w \<Longrightarrow> board_ok w'"
  by (simp add: board_ok_def same_board_def)

lemma same_core_board: "same_core w w' \<Longrightarrow> same_board w w'"
  by (simp add: same_core_def)

lemma same_core_reach: "same_core w w' \<Longrightarrow> reach_inv w \<Longrightarrow> reach_inv w'"
  unfolding reach_inv_def using same_core_inv board_ok_same same_core_board by blast

lemma same_board_new:
  assumes "same_core (snd (new_item it w)) w2"
  shows "same_board w (add_entry p (Some i, list_insert i w2))"
  using assms by (simp add: same_core_def same_board_def new_item_def add_entry_def list_insert_def)

lemma add_pad_board:
  assumes "list_Add_pad p w = Some r"
  shows "same_board w (add_entry p r)"
proof -
  obtain o1 w1 where r: "r = (o1, w1)" by fastforce
  show ?thesis
    using list_Add_pad_new [OF assms [unfolded r]]
  proof (elim disjE exE conjE)
    assume "o1 = None" "w1 = w"
    then show ?thesis using r by (simp add: add_entry_def same_board_def)
  next
    fix w2 assume "o1 = Some (cn_next_item w)" "w1 = list_insert (cn_next_item w) w2"
      "same_core (snd (new_item (CN_ITEM_make p False) w)) w2"
    then show ?thesis using same_board_new r by simp
  qed
qed

lemma add_pads_inv:
  assumes "reach_inv w" and "\<forall>p \<in> set pads. bi_type (cn_board w p) = PCB_PAD_T" and "add_pads pads w = Some (b, w')"
  shows "reach_inv w'"
  using assms
proof (induction pads arbitrary: w)
  case (Cons p pads)
  show ?case
  proof (cases "alreadyAdded p w")
    case False
    then obtain r where r: "list_Add_pad p w = Some r" "add_pads pads (add_entry p r) = Some (b, w')"
      using Cons.prems(3) by (auto split: option.splits)
    note board = add_pad_board [OF r(1)]
    have "cn_inv (add_entry p r)" using add_pad_inv [OF _ False _ r(1)] Cons.prems(1,2) by (simp add: reach_inv_def)
    moreover have "board_ok (add_entry p r)" using board_ok_same [OF board] Cons.prems(1) by (simp add: reach_inv_def)
    moreover have "\<forall>p' \<in> set pads. bi_type (cn_board (add_entry p r) p') = PCB_PAD_T"
      using board Cons.prems(2) by (simp add: same_board_def)
    ultimately show ?thesis using Cons.IH [of "add_entry p r"] r(2) by (simp add: reach_inv_def)
  qed (use Cons.prems in simp)
qed simp

lemma add_one_reach:
  assumes "reach_inv w" and "\<not> alreadyAdded p w" and "bi_type (cn_board w p) \<in> set withZones" "bi_type (cn_board w p) \<noteq> PCB_ZONE_T"
    and "\<exists>w2. r = (Some (cn_next_item w), list_insert (cn_next_item w) w2) \<and> same_core (snd (new_item (CN_ITEM_make p b) w)) w2"
  shows "reach_inv (markItemNetAsDirty p (add_entry p r))"
proof -
  obtain w2 where w2: "r = (Some (cn_next_item w), list_insert (cn_next_item w) w2)"
    "same_core (snd (new_item (CN_ITEM_make p b) w)) w2" using assms(5) by blast
  have "cn_inv (add_entry p r)"
    unfolding w2(1) using add_entry_inv [OF _ assms(2-4) w2(2)] assms(1) by (simp add: reach_inv_def)
  moreover have "board_ok (add_entry p r)"
    unfolding w2(1) using board_ok_same [OF same_board_new [OF w2(2)]] assms(1) by (simp add: reach_inv_def)
  ultimately show ?thesis using same_core_reach [OF same_core_markItem] by (simp add: reach_inv_def)
qed

lemma algo_Add_inv:
  assumes "reach_inv w" and "algo_Add p w = Some (b, w')"
  shows "reach_inv w'"
proof -
  note mark = same_core_reach [OF same_core_markItem]
  note defs = algo_Add_def Let_def
  let ?ty = "bi_type (cn_board w p)"
  show ?thesis
  proof (cases "\<not> bi_on_copper (cn_board w p)")
    case False
    note prem = assms(2) [unfolded defs if_not_P [OF False]]
    show ?thesis
    proof (cases "alreadyAdded p w \<and> ?ty \<notin> {PCB_NETINFO_T, PCB_FOOTPRINT_T}")
      case True
      then have "w' = w" using prem by (cases ?ty) auto
      then show ?thesis using assms(1) by simp
    next
      case new: False
      note one = add_one_reach [OF assms(1)]
      show ?thesis
      proof (cases ?ty)
        case PCB_NETINFO_T
        then show ?thesis
          using prem mark [OF same_core_reach [OF same_core_simple(3) assms(1)]] by auto
      next
        case PCB_FOOTPRINT_T
        then have "w' = w \<or> (\<exists>c w1. add_pads (bi_pads (cn_board w p)) w = Some (c, w1) \<and> (w' = w1 \<or> w' = markItemNetAsDirty p w1))"
          using prem by (auto split: if_splits option.splits prod.splits bool.splits)
        moreover have "\<forall>q \<in> set (bi_pads (cn_board w p)). bi_type (cn_board w q) = PCB_PAD_T"
          using assms(1) by (simp add: reach_inv_def board_ok_def)
        ultimately show ?thesis using assms(1) add_pads_inv [OF assms(1)] mark by blast
      next
        case PCB_PAD_T
        then have "w' = w \<or> (\<exists>r. list_Add_pad p w = Some r \<and> w' = markItemNetAsDirty p (add_entry p r))"
          using prem by (auto split: if_splits option.splits)
        moreover have "reach_inv (add_entry p r)" if "list_Add_pad p w = Some r" for r
          using add_pad_inv [OF _ _ PCB_PAD_T that] board_ok_same [OF add_pad_board [OF that]] assms(1) new PCB_PAD_T
          by (simp add: reach_inv_def)
        ultimately show ?thesis using assms(1) mark by blast
      next
        case PCB_TRACE_T
        then show ?thesis using prem new one [OF _ _ _ list_Adds_new(1)] by (auto simp: withZones_def)
      next
        case PCB_ARC_T
        then show ?thesis using prem new one [OF _ _ _ list_Adds_new(4)] by (auto simp: withZones_def)
      next
        case PCB_VIA_T
        then show ?thesis using prem new one [OF _ _ _ list_Adds_new(2)] by (auto simp: withZones_def)
      next
        case PCB_SHAPE_T
        then show ?thesis using prem new one [OF _ _ _ list_Adds_new(3)] assms(1) by (auto simp: withZones_def split: if_splits)
      next
        case PCB_ZONE_T
        then obtain w1 where w1: "add_zone p w = Some w1" "w' = markItemNetAsDirty p w1"
          using prem new by (auto split: option.splits)
        have "cn_inv w1 \<and> same_board w w1" using add_zone_inv [OF _ _ PCB_ZONE_T w1(1)] assms(1) new PCB_ZONE_T by (simp add: reach_inv_def)
        then have "reach_inv w1" using board_ok_same [of w w1] assms(1) by (simp add: reach_inv_def)
        then show ?thesis using mark w1(2) by simp
      qed (use prem assms(1) in simp_all)
    qed
  qed (use assms in \<open>simp add: defs\<close>)
qed


lemma cn_invI:
  assumes "distinct (cn_items w)" "set (cn_index w) = set (cn_items w)"
    and "\<And>i. i \<in> set (cn_items w) \<Longrightarrow> i < cn_next_item w \<and> bi_type (cn_parent w i) \<in> set withZones"
    and "\<And>i n. i \<in> set (cn_items w) \<Longrightarrow> n \<in> set (ci_connected (cn_item w i)) \<Longrightarrow> n < cn_next_item w"
    and "\<And>i n. i \<in> set (cn_items w) \<Longrightarrow> n \<in> set (ci_connected (cn_item w i)) \<Longrightarrow> ci_valid (cn_item w i) \<Longrightarrow> ci_valid (cn_item w n) \<Longrightarrow>
      n \<in> set (cn_items w) \<and> i \<in> set (ci_connected (cn_item w n))"
    and "\<And>i. i \<in> set (cn_items w) \<Longrightarrow> ci_valid (cn_item w i) \<Longrightarrow>
      \<exists>is. cn_item_map w (ci_parent (cn_item w i)) = Some is \<and> i \<in> set is \<and> (ci_canChangeNet (cn_item w i) \<longrightarrow> is = [i])"
    and "\<And>i. i \<in> set (cn_items w) \<Longrightarrow> ci_canChangeNet (cn_item w i) \<Longrightarrow> bi_type (cn_parent w i) \<noteq> PCB_ZONE_T"
  shows "cn_inv w"
  unfolding cn_inv_def using assms by blast

lemma cn_inv_lists: "cn_inv w \<Longrightarrow> distinct (cn_items w) \<and> set (cn_index w) = set (cn_items w)"
  by (simp add: cn_inv_def)

lemma fold_SetValid:
  "cn_item (fold (SetValid False) xs w) = (\<lambda>i. if i \<in> set xs then (cn_item w i)\<lparr> ci_valid := False \<rparr> else cn_item w i)"
  by (induction xs arbitrary: w) (auto simp: SetValid_def upd_item_def fun_eq_iff)

lemma fold_SetValid_world:
  "cn_items (fold (SetValid False) xs w) = cn_items w" "cn_index (fold (SetValid False) xs w) = cn_index w"
  "cn_next_item (fold (SetValid False) xs w) = cn_next_item w" "cn_item_map (fold (SetValid False) xs w) = cn_item_map w"
  "cn_board (fold (SetValid False) xs w) = cn_board w"
  by (induction xs arbitrary: w) (simp_all add: SetValid_def upd_item_def)

lemma drop_entry_inv:
  assumes "cn_inv w"
  shows "cn_inv (drop_entry p w)"
proof -
  let ?xs = "entry (cn_item_map w) p" and ?v = "drop_entry p w"
  have drop: "drop_entry p w = (fold (SetValid False) ?xs w)\<lparr> cn_item_map := (cn_item_map w)(p := None) \<rparr>"
    by (simp add: drop_entry_def entry_def fold_SetValid_world Let_def)
  have eq: "cn_items ?v = cn_items w" "cn_index ?v = cn_index w" "cn_next_item ?v = cn_next_item w"
    "\<And>i. ci_parent (cn_item ?v i) = ci_parent (cn_item w i)" "\<And>i. ci_connected (cn_item ?v i) = ci_connected (cn_item w i)"
    "\<And>i. ci_canChangeNet (cn_item ?v i) = ci_canChangeNet (cn_item w i)" "\<And>i. cn_parent ?v i = cn_parent w i"
    by (simp_all add: drop fold_SetValid fold_SetValid_world cn_parent_def)
  have valid: "ci_valid (cn_item ?v i) \<longleftrightarrow> ci_valid (cn_item w i) \<and> i \<notin> set ?xs" for i
    by (simp add: drop fold_SetValid)
  have map: "cn_item_map ?v = (cn_item_map w)(p := None)" by (simp add: drop)
  note inv = cn_invD [OF assms]
  show ?thesis
  proof (rule cn_invI; unfold eq)
    show "distinct (cn_items w)" "set (cn_index w) = set (cn_items w)" using cn_inv_lists [OF assms] by blast+
  next
    fix i n assume "i \<in> set (cn_items w)" "n \<in> set (ci_connected (cn_item w i))" "ci_valid (cn_item ?v i)" "ci_valid (cn_item ?v n)"
    then show "n \<in> set (cn_items w) \<and> i \<in> set (ci_connected (cn_item w n))" using inv(4,5) [of i n] valid by blast
  next
    fix i assume i: "i \<in> set (cn_items w)" and v: "ci_valid (cn_item ?v i)"
    then obtain xs where xs: "cn_item_map w (ci_parent (cn_item w i)) = Some xs" "i \<in> set xs" "ci_canChangeNet (cn_item w i) \<longrightarrow> xs = [i]"
      using inv(6) valid by blast
    moreover have "ci_parent (cn_item w i) \<noteq> p" using xs(1,2) v valid by (auto simp: entry_def)
    ultimately show "\<exists>is. cn_item_map ?v (ci_parent (cn_item w i)) = Some is \<and> i \<in> set is \<and> (ci_canChangeNet (cn_item w i) \<longrightarrow> is = [i])"
      by (simp add: map)
  qed (use inv(1,2,3,7) in blast)+
qed

lemma drop_entry_board: "same_board w (drop_entry p w)"
  by (simp add: drop_entry_def same_board_def fold_SetValid_world Let_def)

lemma drop_entry_reach: "reach_inv w \<Longrightarrow> reach_inv (drop_entry p w)"
  unfolding reach_inv_def using drop_entry_inv board_ok_same [OF drop_entry_board] by blast

lemma algo_Remove_inv:
  assumes "reach_inv w"
  shows "reach_inv (snd (algo_Remove p w))"
proof -
  let ?w = "markItemNetAsDirty p w"
  have r: "reach_inv ?w" by (rule same_core_reach [OF same_core_markItem assms])
  have "reach_inv (fold drop_entry ps ?w)" for ps
    by (rule fold_invariant [where Q = "\<lambda>_. True"]) (simp_all add: r drop_entry_reach)
  moreover have "reach_inv v \<Longrightarrow> reach_inv (v\<lparr> cn_list_dirty := b, cn_has_invalid := c \<rparr>)" for v b c
    by (rule same_core_reach [of v]) (simp_all add: same_core_def same_board_def)
  ultimately show ?thesis using r drop_entry_reach [OF r] by (simp add: algo_Remove_def Let_def)
qed

section \<open>Searching\<close>

lemma cn_Connect_item:
  "set (ci_connected (cn_item (cn_Connect i b w) j)) = (if j = i then insert b (set (ci_connected (cn_item w j))) else set (ci_connected (cn_item w j)))"
  "ci_parent (cn_item (cn_Connect i b w) j) = ci_parent (cn_item w j)" "ci_valid (cn_item (cn_Connect i b w) j) = ci_valid (cn_item w j)"
  "ci_canChangeNet (cn_item (cn_Connect i b w) j) = ci_canChangeNet (cn_item w j)"
proof -
  let ?c = "ci_connected (cn_item w i)" and ?p = "\<lambda>x. x < b"
  have "set ?c = set (takeWhile ?p ?c) \<union> set (dropWhile ?p ?c)" by (metis set_append takeWhile_dropWhile_id)
  moreover have "b \<in> set ?c" if "dropWhile ?p ?c \<noteq> []" "hd (dropWhile ?p ?c) = b"
    using that by (metis hd_in_set set_dropWhileD)
  ultimately show "set (ci_connected (cn_item (cn_Connect i b w) j)) =
      (if j = i then insert b (set (ci_connected (cn_item w j))) else set (ci_connected (cn_item w j)))"
    by (auto simp: cn_Connect_def lower_bound_def upd_item_def simp del: dropWhile_eq_Nil_conv)
qed (auto simp: cn_Connect_def lower_bound_def upd_item_def)

lemma cn_Connect_world:
  "cn_items (cn_Connect i b w) = cn_items w" "cn_index (cn_Connect i b w) = cn_index w" "cn_next_item (cn_Connect i b w) = cn_next_item w"
  "cn_item_map (cn_Connect i b w) = cn_item_map w" "cn_board (cn_Connect i b w) = cn_board w"
  by (auto simp: cn_Connect_def lower_bound_def upd_item_def)

lemma connect_both_inv:
  assumes "cn_inv w" and "a \<in> set (cn_items w)" "b \<in> set (cn_items w)"
  shows "cn_inv (connect_both a b w)" "same_board w (connect_both a b w)" "cn_items (connect_both a b w) = cn_items w"
    "cn_index (connect_both a b w) = cn_index w"
proof -
  let ?v = "connect_both a b w"
  have world: "cn_items ?v = cn_items w" "cn_index ?v = cn_index w" "cn_next_item ?v = cn_next_item w" "cn_item_map ?v = cn_item_map w"
    "cn_board ?v = cn_board w" by (simp_all add: connect_both_def cn_Connect_world)
  have item: "ci_parent (cn_item ?v j) = ci_parent (cn_item w j)" "ci_valid (cn_item ?v j) = ci_valid (cn_item w j)"
    "ci_canChangeNet (cn_item ?v j) = ci_canChangeNet (cn_item w j)" for j by (simp_all add: connect_both_def cn_Connect_item)
  have conn: "n \<in> set (ci_connected (cn_item ?v j)) \<longleftrightarrow> n \<in> set (ci_connected (cn_item w j)) \<or> j = a \<and> n = b \<or> j = b \<and> n = a" for n j
    by (auto simp: connect_both_def cn_Connect_item)
  have parent: "cn_parent ?v = cn_parent w" by (simp add: cn_parent_def fun_eq_iff world item)
  note inv = cn_invD [OF assms(1)]
  show "cn_inv ?v"
  proof (rule cn_invI; unfold world item parent)
    show "distinct (cn_items w)" "set (cn_index w) = set (cn_items w)" using cn_inv_lists [OF assms(1)] by blast+
  next
    fix i n assume i: "i \<in> set (cn_items w)" and n: "n \<in> set (ci_connected (cn_item ?v i))"
    show "n < cn_next_item w" using n inv(1) [OF assms(2)] inv(1) [OF assms(3)] inv(2) [OF i] unfolding conn by blast
    assume "ci_valid (cn_item w i)" "ci_valid (cn_item w n)"
    then show "n \<in> set (cn_items w) \<and> i \<in> set (ci_connected (cn_item ?v n))"
      using n assms(2,3) inv(4,5) [OF i] unfolding conn by blast
  qed (use inv(1,3,6,7) in blast)+
  show "same_board w ?v" by (simp add: same_board_def world)
qed (simp_all add: connect_both_def cn_Connect_world)


lemma fold_opt_keeps:
  assumes "\<And>x v v'. x \<in> set xs \<Longrightarrow> P v \<Longrightarrow> f x v = Some v' \<Longrightarrow> P v'" and "P w" and "fold_opt f xs w = Some w'"
  shows "P w'"
  using assms by (induction xs arbitrary: w) (auto split: bind_splits)

lemma visit_connects:
  assumes "visit g m c w = Some w'"
  shows "w' \<in> {w, connect_both m c w, connect_both c m w}"
  using assms by (auto simp: visit_def checkZoneZoneConnection_def checkZoneItemConnection_def Let_def
      split: if_splits option.splits)

text \<open>The tree over the bounding boxes yields the items in it.\<close>

definition nearby_ok :: "CN_GEOMETRY \<Rightarrow> bool" where
  "nearby_ok g \<longleftrightarrow> (\<forall>w i. set (g_nearby g w i) \<subseteq> set (cn_index w))"

definition same_lists :: "CN_WORLD \<Rightarrow> CN_WORLD \<Rightarrow> bool" where
  "same_lists w v \<longleftrightarrow> cn_inv v \<and> same_board w v \<and> cn_items v = cn_items w \<and> cn_index v = cn_index w"

lemma visit_inv:
  assumes "same_lists w v" and "m \<in> set (cn_items w)" "c \<in> set (cn_items w)" and "visit g m c v = Some v'"
  shows "same_lists w v'"
proof -
  have both: "same_lists w (connect_both a b v)" if "a \<in> set (cn_items w)" "b \<in> set (cn_items w)" for a b
    using connect_both_inv [of v a b] that assms(1) same_board_trans [of w v "connect_both a b v"] by (simp add: same_lists_def)
  show ?thesis using visit_connects [OF assms(4)] both [OF assms(2,3)] both [OF assms(3,2)] assms(1) by blast
qed

lemma search_item_inv:
  assumes "nearby_ok g" and "same_lists w v" and "i \<in> set (cn_items w)" and "search_item g i v = Some v'"
  shows "same_lists w v'"
proof (rule fold_opt_keeps [where P = "same_lists w"])
  show "fold_opt (visit g i) (g_nearby g v i) v = Some v'" using assms(4) by (simp add: search_item_def)
  fix c u u' assume c: "c \<in> set (g_nearby g v i)" and u: "same_lists w u" "visit g i c u = Some u'"
  have "c \<in> set (cn_index v)" using assms(1) c unfolding nearby_ok_def by blast
  then have "c \<in> set (cn_items w)" using assms(2) cn_inv_lists [of v] unfolding same_lists_def by metis
  then show "same_lists w u'" using visit_inv [OF u(1) assms(3) _ u(2)] by blast
qed (rule assms(2))

lemma RemoveInvalidRefs_inv:
  assumes "cn_inv w"
  shows "cn_inv (item_RemoveInvalidRefs i w)"
proof -
  let ?v = "item_RemoveInvalidRefs i w"
  have world: "cn_items ?v = cn_items w" "cn_index ?v = cn_index w" "cn_next_item ?v = cn_next_item w" "cn_item_map ?v = cn_item_map w"
    "cn_board ?v = cn_board w" by (simp_all add: item_RemoveInvalidRefs_def upd_item_def)
  have item: "ci_parent (cn_item ?v j) = ci_parent (cn_item w j)" "ci_valid (cn_item ?v j) = ci_valid (cn_item w j)"
    "ci_canChangeNet (cn_item ?v j) = ci_canChangeNet (cn_item w j)" for j by (simp_all add: item_RemoveInvalidRefs_def upd_item_def)
  have conn: "n \<in> set (ci_connected (cn_item ?v j)) \<longleftrightarrow> n \<in> set (ci_connected (cn_item w j)) \<and> (j = i \<longrightarrow> ci_valid (cn_item w n))" for n j
    by (auto simp: item_RemoveInvalidRefs_def upd_item_def)
  have parent: "cn_parent ?v = cn_parent w" by (simp add: cn_parent_def fun_eq_iff world item)
  note inv = cn_invD [OF assms]
  show ?thesis
  proof (rule cn_invI; unfold world item parent conn)
    show "distinct (cn_items w)" "set (cn_index w) = set (cn_items w)" using cn_inv_lists [OF assms] by blast+
  next
    fix j n assume "j \<in> set (cn_items w)" "n \<in> set (ci_connected (cn_item w j)) \<and> (j = i \<longrightarrow> ci_valid (cn_item w n))"
      "ci_valid (cn_item w j)" "ci_valid (cn_item w n)"
    then show "n \<in> set (cn_items w) \<and> j \<in> set (ci_connected (cn_item w n)) \<and> (n = i \<longrightarrow> ci_valid (cn_item w j))"
      using inv(4,5) [of j n] by blast
  qed (use inv(1,2,3,6,7) in blast)+
qed

lemma RemoveInvalidItems_inv:
  assumes "cn_inv w" and "RemoveInvalidItems w = (garbage, w')"
  shows "cn_inv w' \<and> same_board w w'"
proof (cases "cn_has_invalid w")
  case True
  let ?P = "\<lambda>i. ci_valid (cn_item w i)"
  have world: "cn_items w' = filter ?P (cn_items w)" "cn_next_item w' = cn_next_item w" "cn_item_map w' = cn_item_map w"
    "cn_index w' = filter (\<lambda>i. i \<notin> set (filter (\<lambda>i. \<not> ?P i) (cn_items w))) (cn_index w)"
    "cn_board w' = cn_board w" "cn_item w' = cn_item w"
    using assms(2) True by (auto simp: RemoveInvalidItems_def Let_def)
  have parent: "cn_parent w' = cn_parent w" by (simp add: cn_parent_def fun_eq_iff world)
  note inv = cn_invD [OF assms(1)]
  have "cn_inv w'"
  proof (rule cn_invI; unfold world parent set_filter mem_Collect_eq)
    show "distinct (filter ?P (cn_items w))" using cn_inv_lists [OF assms(1)] by simp
    show "{x \<in> set (cn_index w). \<not> (x \<in> set (cn_items w) \<and> \<not> ?P x)} = {x \<in> set (cn_items w). ?P x}"
      using cn_inv_lists [OF assms(1)] by blast
  next
    fix j n assume "j \<in> set (cn_items w) \<and> ?P j" "n \<in> set (ci_connected (cn_item w j))" "?P n"
    then show "(n \<in> set (cn_items w) \<and> ?P n) \<and> j \<in> set (ci_connected (cn_item w n))" using inv(4,5) [of j n] by blast
  qed (use inv(1,2,3,6,7) in blast)+
  then show ?thesis by (simp add: same_board_def world)
qed (use assms in \<open>simp add: RemoveInvalidItems_def same_board_def\<close>)

lemma searchConnections_inv:
  assumes "nearby_ok g" and "reach_inv w" and "searchConnections g w = Some w'"
  shows "reach_inv w' \<and> \<not> cn_list_dirty w'"
proof -
  let ?w1 = "algo_RemoveInvalidRefs w"
  obtain garbage w2 where w2: "RemoveInvalidItems ?w1 = (garbage, w2)" by fastforce
  let ?w3 = "fold delete_item garbage w2"
  have "cn_inv ?w1 \<and> same_board w ?w1"
    unfolding algo_RemoveInvalidRefs_def
  proof (rule fold_invariant [where Q = "\<lambda>_. True" and P = "\<lambda>v. cn_inv v \<and> same_board w v"])
    show "cn_inv w \<and> same_board w w" using assms(2) by (simp add: reach_inv_def same_board_def)
    show "cn_inv (item_RemoveInvalidRefs i v) \<and> same_board w (item_RemoveInvalidRefs i v)" if "cn_inv v \<and> same_board w v" for i v
      using that RemoveInvalidRefs_inv by (simp add: same_board_def item_RemoveInvalidRefs_def upd_item_def)
  qed simp
  then have "cn_inv w2 \<and> same_board w w2" using RemoveInvalidItems_inv [OF _ w2] same_board_trans [of w ?w1 w2] by blast
  moreover have "same_core w2 ?w3" by (rule same_core_fold) (rule same_core_simple)
  ultimately have w3: "same_lists ?w3 ?w3" "same_board w ?w3"
    using same_core_inv [of w2 ?w3] same_board_trans [of w w2 ?w3] same_core_board [of w2 ?w3]
    by (auto simp: same_lists_def same_board_def)
  obtain w4 where w4: "w' = list_ClearDirtyFlags w4"
    "(if cn_list_dirty ?w3 then fold_opt (search_item g) (filter (\<lambda>i. ci_dirty (cn_item ?w3 i)) (cn_items ?w3)) ?w3 else Some ?w3) = Some w4"
    using assms(3) w2 by (auto simp: searchConnections_def Let_def split: bind_splits)
  have "same_lists ?w3 w4"
  proof (cases "cn_list_dirty ?w3")
    case True
    then have f: "fold_opt (search_item g) (filter (\<lambda>i. ci_dirty (cn_item ?w3 i)) (cn_items ?w3)) ?w3 = Some w4" using w4(2) by simp
    show ?thesis
      by (rule fold_opt_keeps [where P = "same_lists ?w3", OF _ w3(1) f]) (auto intro: search_item_inv [OF assms(1)])
  qed (use w4(2) w3(1) in simp)
  then have "reach_inv w4"
    using board_ok_same [OF same_board_trans [OF w3(2), of w4]] assms(2) by (simp add: same_lists_def reach_inv_def)
  then have "reach_inv w'" unfolding w4(1) by (rule same_core_reach [OF same_core_ClearDirty])
  then show ?thesis unfolding w4(1) by (simp add: list_ClearDirtyFlags_def)
qed


lemma bfs_unmarked:
  assumes "bfs b root Q c w = Some r"
  shows "unmarked (snd r) = unmarked w"
proof (rule bfs.raw_induct [where P = "\<lambda>b root Q c w r. unmarked (snd r) = unmarked w", OF _ assms])
  fix f b root Q c w r
  assume IH: "\<And>b root Q c w r. f b root Q c w = Some r \<Longrightarrow> unmarked (snd r) = unmarked w"
    and eq: "(case Q of [] \<Rightarrow> Some (c, w)
      | current # Q \<Rightarrow>
          (case fold (push_neighbour b root) (ci_connected (cn_item w current)) (w, Q) of
             (w', Q') \<Rightarrow> f b root Q' (cluster_Add w current c) w')) = Some r"
  show "unmarked (snd r) = unmarked w"
  proof (cases Q)
    case Nil
    then show ?thesis using eq by auto
  next
    case (Cons i Q1)
    obtain w1 Q2 where f: "fold (push_neighbour b root) (ci_connected (cn_item w i)) (w, Q1) = (w1, Q2)" by fastforce
    then have "unmarked w1 = unmarked w" using push_neighbours [OF f] by blast
    then show ?thesis using eq Cons f IH by simp
  qed
qed

lemma clusters_loop_unmarked: "clusters_loop b xs w = Some (cs, w') \<Longrightarrow> unmarked w' = unmarked w"
proof (induction b xs w arbitrary: cs w' rule: clusters_loop.induct)
  case (2 b root xs w)
  then show ?case
    using bfs_unmarked [of b root "[root]" CN_CLUSTER_make "SetVisited True root w"]
    by (fastforce split: if_splits option.splits)
qed simp

lemma SearchClusters_inv:
  assumes "nearby_ok g" and "reach_inv w" and "SearchClusters_types g aMode aTypes aSingleNet rootItem w = Some (cs, w')"
  shows "reach_inv w' \<and> \<not> cn_list_dirty w'"
proof -
  let ?b = "aMode \<noteq> CSM_PROPAGATE"
  obtain w1 where w1: "(if cn_list_dirty w then searchConnections g w else Some w) = Some w1"
    and w': "\<exists>xs w2. unmarked w2 = unmarked w1 \<and> (\<exists>cs. clusters_loop ?b xs w2 = Some (cs, w'))"
    using assms(3) fold_SetVisited(1) by (fastforce simp: SearchClusters_types_def Let_def split: bind_splits)
  have r: "reach_inv w1 \<and> \<not> cn_list_dirty w1"
    using w1 assms(2) searchConnections_inv [OF assms(1,2)] by (auto split: if_splits)
  have u: "unmarked w' = unmarked w1" using w' clusters_loop_unmarked by metis
  then show ?thesis using r same_core_reach [OF same_core_unmarked [OF u]] same_world(6) [OF u] by blast
qed

lemma propagate_same_core: "same_core w (snd (propagateConnections cs (ms, w)))"
proof -
  have mark: "same_core w v \<Longrightarrow> same_core w (SetNetCode p n (MarkNetAsDirty n (MarkNetAsDirty m v)))" for v p m n
    by (rule same_core_trans [OF same_core_trans [OF same_core_trans]]) (assumption | rule same_core_simple)+
  have item: "same_core w (snd s) \<Longrightarrow> same_core w (snd (propagate_item c i s))" for c i s
    by (auto simp: propagate_item_def Let_def mark split: prod.split)
  have cluster: "same_core w (snd s) \<Longrightarrow> same_core w (snd (propagate_cluster c s))" for c s
    unfolding propagate_cluster_def
    by (simp, intro impI, rule fold_invariant [where Q = "\<lambda>_. True" and P = "\<lambda>s. same_core w (snd s)"]) (simp_all add: item)
  show ?thesis
    unfolding propagateConnections_def
    by (rule fold_invariant [where Q = "\<lambda>_. True" and P = "\<lambda>s. same_core w (snd s)"]) (simp_all add: cluster)
qed

lemma PropagateNets_inv:
  assumes "nearby_ok g" and "reach_inv w" and "PropagateNets g w = Some (cs, ms, w')"
  shows "reach_inv w'"
proof -
  obtain w1 where w1: "SearchClusters g CSM_PROPAGATE w = Some (cs, w1)" "propagateConnections cs ([], w1) = (ms, w')"
    using assms(3) by (auto simp: PropagateNets_def split: bind_splits)
  have "reach_inv w1" using SearchClusters_inv [OF assms(1,2)] w1(1) unfolding SearchClusters_def by blast
  then show ?thesis using same_core_reach [OF propagate_same_core [of w1 cs "[]"]] w1(2) by simp
qed

section \<open>The reachable states\<close>

text \<open>
  The operations in any order; between them the board may change in any way that keeps the types of
  its items and the pads of its footprints.
\<close>

inductive cn_step :: "CN_GEOMETRY \<Rightarrow> CN_WORLD \<Rightarrow> CN_WORLD \<Rightarrow> bool" for g where
  step_Add: "algo_Add p w = Some (b, w') \<Longrightarrow> cn_step g w w'"
| step_Remove: "algo_Remove p w = (b, w') \<Longrightarrow> cn_step g w w'"
| step_MarkNet: "cn_step g w (MarkNetAsDirty n w)"
| step_ClearNets: "cn_step g w (nets_ClearDirtyFlags w)"
| step_SearchClusters: "SearchClusters_types g aMode aTypes aSingleNet rootItem w = Some (cs, w') \<Longrightarrow> cn_step g w w'"
| step_PropagateNets: "PropagateNets g w = Some (cs, ms, w') \<Longrightarrow> cn_step g w w'"
| step_board: "same_board w (w\<lparr> cn_board := b \<rparr>) \<Longrightarrow> cn_step g w (w\<lparr> cn_board := b \<rparr>)"

inductive cn_reach :: "CN_GEOMETRY \<Rightarrow> CN_WORLD \<Rightarrow> CN_WORLD \<Rightarrow> bool" for g w0 where
  reach_start: "cn_reach g w0 w0"
| reach_step: "cn_reach g w0 w \<Longrightarrow> cn_step g w w' \<Longrightarrow> cn_reach g w0 w'"

definition CN_WORLD_make :: "(nat \<Rightarrow> BOARD_CITEM) \<Rightarrow> lset \<Rightarrow> CN_WORLD" where
  "CN_WORLD_make board enabled =
     \<lparr> cn_board = board, cn_enabled = enabled, cn_item = (\<lambda>_. CN_ITEM_make 0 False),
       cn_anchor = (\<lambda>_. \<lparr> an_pos = (0, 0), an_item = None, an_tag = - 1, an_noline = False, an_cluster = None \<rparr>),
       cn_next_item = 0, cn_next_anchor = 0, cn_items = [], cn_index = [], cn_list_dirty = False, cn_has_invalid = False,
       cn_item_map = Map.empty, cn_dirty_nets = [] \<rparr>"

lemma cn_step_inv:
  assumes "nearby_ok g" and "cn_step g w w'" and "reach_inv w"
  shows "reach_inv w'"
  using assms(2,3)
proof cases
  case (step_Remove p b)
  then show ?thesis using algo_Remove_inv [OF assms(3), of p] by simp
next
  case (step_board b)
  then have "same_core w w'" by (simp add: same_core_def)
  then show ?thesis using same_core_reach assms(3) by blast
next
  case (step_MarkNet n)
  then show ?thesis using same_core_reach [OF same_core_simple(3) assms(3)] by simp
next
  case step_ClearNets
  then show ?thesis using same_core_reach [OF same_core_simple(6) assms(3)] by simp
qed (use algo_Add_inv SearchClusters_inv [OF assms(1)] PropagateNets_inv [OF assms(1)] assms(3) in blast)+

lemma cn_reach_inv:
  assumes "nearby_ok g" and "cn_reach g w0 w" and "reach_inv w0"
  shows "reach_inv w"
  using assms(2,3) by (induction rule: cn_reach.induct) (auto intro: cn_step_inv [OF assms(1)])

lemma CN_WORLD_make_inv: "cn_inv (CN_WORLD_make board enabled)"
  by (simp add: cn_inv_def CN_WORLD_make_def)


end
