(* ===== verification/CnProps.thy ===== *)
theory CnProps
  imports CnReach
begin

text \<open>
  What holds of the connectivity in all states that \<open>CN_CONNECTIVITY_ALGO\<close> reaches
  (\<^verbatim>\<open>pcbnew/connectivity/connectivity_algo.cpp\<close>), with a small board as an example.
\<close>

section \<open>Properties\<close>

lemma reach_from_empty:
  assumes "nearby_ok g" and "board_ok (CN_WORLD_make board enabled)" and "cn_reach g (CN_WORLD_make board enabled) w"
  shows "reach_inv w"
  using cn_reach_inv [OF assms(1,3)] assms(2) CN_WORLD_make_inv by (simp add: reach_inv_def)

text \<open>The world in which the clusters are sought.\<close>

definition searched :: "CN_GEOMETRY \<Rightarrow> CN_WORLD \<Rightarrow> CN_WORLD option" where
  "searched g w = (if cn_list_dirty w then searchConnections g w else Some w)"

lemma searched_inv:
  assumes "nearby_ok g" and "reach_inv w" and "searched g w = Some w1"
  shows "cn_inv w1" "\<not> cn_list_dirty w1" "SearchClusters g aMode w = SearchClusters g aMode w1" "PropagateNets g w = PropagateNets g w1"
proof -
  have r: "reach_inv w1 \<and> \<not> cn_list_dirty w1"
    using assms(2,3) searchConnections_inv [OF assms(1,2)] by (auto simp: searched_def split: if_splits)
  then show "cn_inv w1" "\<not> cn_list_dirty w1" by (simp_all add: reach_inv_def)
  have s: "SearchClusters g m w = SearchClusters g m w1" for m
    using assms(3) r by (auto simp: SearchClusters_def SearchClusters_types_def searched_def Let_def split: if_splits)
  show "SearchClusters g aMode w = SearchClusters g aMode w1" by (rule s)
  show "PropagateNets g w = PropagateNets g w1" by (simp add: PropagateNets_def s)
qed

text \<open>
  A board with a pad of net 1 and two tracks without a net, of which the first one touches the pad.
\<close>

definition demo_board :: "nat \<Rightarrow> BOARD_CITEM" where
  "demo_board p =
     \<lparr> bi_type = (if p = 0 then PCB_PAD_T else PCB_TRACE_T), bi_net = (if p = 0 then 1 else 0), bi_start = (0, 0), bi_end = (9, 0), bi_shape_pos = (0, 0),
       bi_points = [], bi_layer = 0, bi_layer_set = [1], bi_bottom_layer = 0, bi_on_copper = True, bi_connected = True,
       bi_attribute = PTH, bi_free = False, bi_just_added = False, bi_footprint = None, bi_pads = [], bi_outlines = (\<lambda>_. []) \<rparr>"

definition demo_geometry :: CN_GEOMETRY where
  "demo_geometry =
     \<lparr> g_nearby = (\<lambda>w i. cn_index w), g_on_layer = (\<lambda>_ _. True), g_no_zone = (\<lambda>_ _. False), g_flashed = (\<lambda>_ _. True),
       g_boxes_meet = (\<lambda>_ _. True), g_in_box = (\<lambda>_ _. True), g_zone_contains = (\<lambda>_ _. False),
       g_zone_collides = (\<lambda>_ _ _ _. False), g_collides = (\<lambda>_ a b. fst a + fst b = 1) \<rparr>"

definition demo_item :: "nat \<Rightarrow> nat list \<Rightarrow> nat list \<Rightarrow> bool \<Rightarrow> bool \<Rightarrow> CN_ITEM" where
  "demo_item p conn anchors dirty visited =
     \<lparr> ci_parent = p, ci_connected = conn, ci_anchors = anchors, ci_layers = LAYER_RANGE_make 0 (if p = 0 then 31 else 0),
       ci_canChangeNet = (p \<noteq> 0), ci_visited = visited, ci_valid = True, ci_dirty = dirty, ci_zone_layer = None \<rparr>"

definition demo_anchors :: "nat \<Rightarrow> CN_ANCHOR" where
  "demo_anchors a =
     \<lparr> an_pos = (if a \<in> {2, 4} then (9, 0) else (0, 0)), an_item = (if a < 5 then Some ((a + 1) div 2) else None), an_tag = - 1,
       an_noline = False, an_cluster = None \<rparr>"

definition demo_state :: "(nat \<Rightarrow> CN_ITEM) \<Rightarrow> bool \<Rightarrow> CN_WORLD" where
  "demo_state items dirty =
     \<lparr> cn_board = demo_board, cn_enabled = [1], cn_item = items, cn_anchor = demo_anchors, cn_next_item = 3, cn_next_anchor = 5,
       cn_items = [0, 1, 2], cn_index = [0, 1, 2], cn_list_dirty = dirty, cn_has_invalid = False,
       cn_item_map = [0 \<mapsto> [0], 1 \<mapsto> [1], 2 \<mapsto> [2]], cn_dirty_nets = [True, True] \<rparr>"

definition demo_items :: "bool \<Rightarrow> bool \<Rightarrow> nat \<Rightarrow> CN_ITEM" where
  "demo_items found visited i =
     (if i = 0 then demo_item 0 (if found then [1] else []) [0] (\<not> found) visited
      else if i = 1 then demo_item 1 (if found then [0] else []) [1, 2] (\<not> found) visited
      else if i = 2 then demo_item 2 [] [3, 4] (\<not> found) visited else CN_ITEM_make 0 False)"

definition demo_world :: CN_WORLD where
  "demo_world = demo_state (demo_items False False) True"

definition demo_searched :: CN_WORLD where
  "demo_searched = demo_state (demo_items True False) False"

lemmas demo_defs = CN_WORLD_make_def algo_Add_def demo_board_def alreadyAdded_def list_Add_pad_def list_Add_track_def
  new_item_def CN_ITEM_make_def AddAnchor_def SetLayers_def upd_item_def add_entry_def list_insert_def markItemNetAsDirty_def
  MarkNetAsDirty_def Let_def LAYER_RANGE_make_def 
lemmas demo_world_defs = demo_world_def demo_searched_def demo_state_def demo_items_def demo_item_def demo_anchors_def demo_board_def

lemma demo_Adds: "\<exists>w1 w2 w3. algo_Add 0 (CN_WORLD_make demo_board [1]) = Some (True, w1) \<and> algo_Add 1 w1 = Some (True, w2) \<and>
   algo_Add 2 w2 = Some (True, w3) \<and> w3 = demo_world"
  apply (simp add: demo_defs)
  by (auto simp add: demo_world_defs LAYER_RANGE_make_def CN_ITEM_make_def fun_eq_iff)

lemma demo_search: "searchConnections demo_geometry demo_world = Some demo_searched"
  by (simp add: searchConnections_def algo_RemoveInvalidRefs_def demo_world_defs item_RemoveInvalidRefs_def upd_item_def RemoveInvalidItems_def
   search_item_def demo_geometry_def visit_def cn_parent_def cn_Net_def BASE_SET_and_def BASE_SET_test_def list_ClearDirtyFlags_def connect_both_def cn_Connect_def lower_bound_def Let_def CN_ITEM_make_def LAYER_RANGE_make_def)
   (auto simp: demo_items_def demo_item_def LAYER_RANGE_make_def fun_eq_iff) 

lemma demo_ok: "nearby_ok demo_geometry" "board_ok (CN_WORLD_make demo_board [1])"
  by (simp_all add: nearby_ok_def demo_geometry_def board_ok_def CN_WORLD_make_def demo_board_def)

lemma demo_reach: "cn_reach demo_geometry (CN_WORLD_make demo_board [1]) demo_world"
  using demo_Adds by (metis reach_start reach_step step_Add)

lemma demo_searched: "searched demo_geometry demo_world = Some demo_searched"
  using demo_search by (simp add: searched_def demo_world_def demo_state_def)

declare bfs.simps [code]

lemma demo_clusters:
  "map cl_items (fst (the (SearchClusters demo_geometry CSM_PROPAGATE demo_searched))) = [[2], [0, 1]]" "no_stale_zone demo_searched"
  by code_simp+

lemma demo_propagate:
  "fst (snd (the (PropagateNets demo_geometry demo_searched))) = [1]"
  "net_at (snd (snd (the (PropagateNets demo_geometry demo_searched)))) 1 = 1"
  "net_at (snd (snd (the (PropagateNets demo_geometry demo_searched)))) 2 = 0"
  by code_simp+

lemma demo_same:
  "SearchClusters demo_geometry aMode demo_world = SearchClusters demo_geometry aMode demo_searched"
  "PropagateNets demo_geometry demo_world = PropagateNets demo_geometry demo_searched"
  using searched_inv(3,4) [OF demo_ok(1) reach_from_empty [OF demo_ok demo_reach] demo_searched] by blast+

text \<open>
  A pad, a zone and a track, connected in this order. The first search goes through the zone, the second
  one does not: it is not among the items whose marks are cleared.
\<close>

definition demo_zone_world :: CN_WORLD where
  "demo_zone_world = (demo_state (\<lambda>i.
     if i = 0 then demo_item 0 [1] [0] False False
     else if i = 1 then (demo_item 1 [0, 2] [1, 2] False False)\<lparr> ci_canChangeNet := False, ci_zone_layer := Some (0, 0) \<rparr>
     else demo_item 2 [1] [3, 4] False False) False)
     \<lparr> cn_board := (\<lambda>p. (demo_board p)\<lparr> bi_type := [PCB_PAD_T, PCB_ZONE_T, PCB_TRACE_T] ! p, bi_net := [1, 1, 0] ! p \<rparr>) \<rparr>"

lemma SearchClusters_stale_mark:
  "case SearchClusters demo_geometry CSM_PROPAGATE demo_zone_world of None \<Rightarrow> False | Some (cs, w) \<Rightarrow>
     map cl_items cs = [[0, 1, 2]] \<and>
     (case SearchClusters demo_geometry CSM_PROPAGATE w of None \<Rightarrow> False | Some (cs, w) \<Rightarrow> map cl_items cs = [[2], [0]])"
  by code_simp

text \<open>
  C7. In every state that is reached from an empty one by adding and removing board items, searching
  clusters and propagating nets, while the board changes in between, each item of the list is there
  once, two valid items are connected only mutually and both are in the list, each valid item is in the
  entry of its board item, and an item whose net can change is alone in that entry.
\<close>

theorem cn_reach_mutual:
  assumes "nearby_ok g" and "board_ok (CN_WORLD_make board enabled)" and "cn_reach g (CN_WORLD_make board enabled) w"
  shows "distinct (cn_items w) \<and>
    (\<forall>i \<in> set (cn_items w). \<forall>n \<in> set (ci_connected (cn_item w i)).
       ci_valid (cn_item w i) \<and> ci_valid (cn_item w n) \<longrightarrow> n \<in> set (cn_items w) \<and> i \<in> set (ci_connected (cn_item w n))) \<and>
    (\<forall>i \<in> set (cn_items w). ci_valid (cn_item w i) \<longrightarrow>
       (\<exists>is. cn_item_map w (ci_parent (cn_item w i)) = Some is \<and> i \<in> set is \<and> (ci_canChangeNet (cn_item w i) \<longrightarrow> is = [i])))"
  using reach_from_empty [OF assms] unfolding reach_inv_def cn_inv_def by blast

definition demo_found :: CN_WORLD where
  "demo_found = snd (the (SearchClusters demo_geometry CSM_PROPAGATE demo_searched))"

lemma demo_found_reach: "cn_reach demo_geometry (CN_WORLD_make demo_board [1]) demo_found"
proof -
  have "SearchClusters demo_geometry CSM_PROPAGATE demo_searched \<noteq> None" by code_simp
  then have "SearchClusters demo_geometry CSM_PROPAGATE demo_world = Some (fst (the (SearchClusters demo_geometry CSM_PROPAGATE demo_searched)), demo_found)"
    unfolding demo_same(1) demo_found_def by auto
  then show ?thesis unfolding SearchClusters_def using reach_step [OF demo_reach step_SearchClusters] by blast
qed

lemma demo_found_state:
  "map (\<lambda>i. ci_connected (cn_item demo_found i)) (cn_items demo_found) = [[1], [0], []]"
  "map (\<lambda>i. ci_valid (cn_item demo_found i)) [0, 1, 2] = [True, True, True]" "cn_items demo_found = [0, 1, 2]"
  by code_simp+

theorem cn_reach_mutual_witness:
  "1 \<in> set (ci_connected (cn_item demo_found 0)) \<and> 0 \<in> set (ci_connected (cn_item demo_found 1)) \<and>
   (\<exists>is. cn_item_map demo_found (ci_parent (cn_item demo_found 1)) = Some is \<and> 1 \<in> set is)"
proof -
  have "0 \<in> set (cn_items demo_found)" "1 \<in> set (cn_items demo_found)" "1 \<in> set (ci_connected (cn_item demo_found 0))"
    "ci_valid (cn_item demo_found 0)" "ci_valid (cn_item demo_found 1)"
    using demo_found_state by simp_all
  then show ?thesis using cn_reach_mutual [OF demo_ok demo_found_reach] by blast
qed

text \<open>
  C4. The search for clusters always returns, and it returns exactly the connected components of the valid
  items (within a net, when nets are not propagated), each once, each item in it once, sorted by net.
  When nets are propagated, this is the component of every item that is no zone, in the graph without
  the zones that an earlier search has left marked (\<open>live_comps\<close>): what only such a zone joins comes
  out as several clusters (\<open>SearchClusters_stale_mark\<close>). If no zone is still marked, in particular
  if the board has none, they are the components of the whole graph but those of zones alone.
\<close>

theorem SearchClusters_components:
  assumes "nearby_ok g" and "board_ok (CN_WORLD_make board enabled)" and "cn_reach g (CN_WORLD_make board enabled) w"
    and "searched g w = Some w1"
  shows "\<exists>cs w'. SearchClusters g aMode w = Some (cs, w') \<and> sorted (map cl_originNet cs) \<and>
    distinct (map (\<lambda>c. set (cl_items c)) cs) \<and> list_all (\<lambda>c. distinct (cl_items c)) cs \<and>
    set (map (\<lambda>c. set (cl_items c)) cs) = live_comps aMode w1 \<and>
    (aMode \<noteq> CSM_PROPAGATE \<longrightarrow> live_comps aMode w1 = comps (search_items aMode w1) (cluster_edges aMode w1)) \<and>
    (no_stale_zone w1 \<longrightarrow> live_comps CSM_PROPAGATE w1 =
       {C \<in> comps (search_items CSM_PROPAGATE w1) (cluster_edges CSM_PROPAGATE w1). \<exists>i \<in> C. \<not> is_zone_item w1 i}) \<and>
    unmarked w' = unmarked w1"
proof -
  note inv = searched_inv [OF assms(1) reach_from_empty [OF assms(1-3)] assms(4)]
  from SearchClusters_live [OF inv(1,2), of g aMode] obtain Ls w' where L:
    "SearchClusters g aMode w1 = Some (sort_key cl_originNet (map (cluster_of w1) Ls), w')" "unmarked w' = unmarked w1"
    "list_all distinct Ls" "distinct (map set Ls)" "set (map set Ls) = live_comps aMode w1" by blast
  note plain = live_comps_all [OF inv(1)]
  let ?cs = "sort_key cl_originNet (map (cluster_of w1) Ls)"
  have "mset (map (\<lambda>c. set (cl_items c)) ?cs) = mset (map set Ls)"
    unfolding mset_sort_key_map by (simp add: comp_def)
  then have sets: "distinct (map (\<lambda>c. set (cl_items c)) ?cs)" "set (map (\<lambda>c. set (cl_items c)) ?cs) = set (map set Ls)"
    using L(4) mset_eq_imp_distinct_iff mset_eq_setD by blast+
  show ?thesis
  proof (intro exI conjI impI)
    show "SearchClusters g aMode w = Some (?cs, w')" unfolding inv(3) by (rule L(1))
    show "sorted (map cl_originNet ?cs)" by simp
    show "list_all (\<lambda>c. distinct (cl_items c)) ?cs" using L(3) by (simp add: list_all_iff)
    show "set (map (\<lambda>c. set (cl_items c)) ?cs) = live_comps aMode w1" unfolding sets(2) by (rule L(5))
  qed (fact sets(1) L(2) plain)+
qed

theorem SearchClusters_components_witness:
  "set (map set [[2], [0, 1 :: nat]]) = {C \<in> comps (search_items CSM_PROPAGATE demo_searched)
     (cluster_edges CSM_PROPAGATE demo_searched). \<exists>i \<in> C. \<not> is_zone_item demo_searched i}"
proof -
  note t = SearchClusters_components [OF demo_ok demo_reach demo_searched, of CSM_PROPAGATE]
  from t obtain cs w' where cs: "SearchClusters demo_geometry CSM_PROPAGATE demo_world = Some (cs, w')"
    "set (map (\<lambda>c. set (cl_items c)) cs) = live_comps CSM_PROPAGATE demo_searched" by (elim exE conjE)
  have live: "live_comps CSM_PROPAGATE demo_searched = {C \<in> comps (search_items CSM_PROPAGATE demo_searched)
     (cluster_edges CSM_PROPAGATE demo_searched). \<exists>i \<in> C. \<not> is_zone_item demo_searched i}"
    using t demo_clusters(2) by (elim exE conjE) (drule mp, assumption, assumption)
  have "map set (map cl_items cs) = map (\<lambda>c. set (cl_items c)) cs" by simp
  moreover have "map cl_items cs = [[2], [0, 1]]" using cs(1) demo_clusters(1) demo_same(1) by simp
  ultimately show ?thesis using cs(2) unfolding live by metis
qed

text \<open>
  C6. Propagating nets returns; in each connected component either two pads disagree or no item has a net,
  and no net changes, or the items whose nets can change get the net of one of the items, which is that
  of the pads when there are any. The items with another net than before are those the commit is told of.
  The components are those that the search for propagation finds (C4): of the items that are no zones,
  in the graph without the zones that an earlier search has left marked, so that a net is not
  propagated through such a zone; without one they are the components of the whole graph.
\<close>

theorem PropagateNets_components:
  assumes "nearby_ok g" and "board_ok (CN_WORLD_make board enabled)" and "cn_reach g (CN_WORLD_make board enabled) w"
    and "searched g w = Some w1"
  shows "\<exists>cs ms w'. PropagateNets g w = Some (cs, ms, w') \<and>
    (\<forall>C \<in> live_comps CSM_PROPAGATE w1. \<exists>r. component_net w1 C r \<and>
       (\<forall>i \<in> C. net_at w' (ci_parent (cn_item w1 i)) = (if ci_canChangeNet (cn_item w1 i)
          then case r of None \<Rightarrow> net_at w1 (ci_parent (cn_item w1 i)) | Some n \<Rightarrow> n
          else net_at w1 (ci_parent (cn_item w1 i))))) \<and>
    (no_stale_zone w1 \<longrightarrow> live_comps CSM_PROPAGATE w1 =
       {C \<in> comps (search_items CSM_PROPAGATE w1) (cluster_edges CSM_PROPAGATE w1). \<exists>i \<in> C. \<not> is_zone_item w1 i}) \<and>
    set ms = {p. net_at w' p \<noteq> net_at w1 p}"
proof -
  note inv = searched_inv [OF assms(1) reach_from_empty [OF assms(1-3)] assms(4)]
  from PropagateNets_effect [OF inv(1,2), of g] obtain cs ms w' where P: "PropagateNets g w1 = Some (cs, ms, w')"
    "\<forall>C \<in> live_comps CSM_PROPAGATE w1. \<exists>r. component_net w1 C r \<and>
       (\<forall>i \<in> C. net_at w' (ci_parent (cn_item w1 i)) = (if ci_canChangeNet (cn_item w1 i)
          then case r of None \<Rightarrow> net_at w1 (ci_parent (cn_item w1 i)) | Some n \<Rightarrow> n
          else net_at w1 (ci_parent (cn_item w1 i))))" "set ms = {p. net_at w' p \<noteq> net_at w1 p}"
    by (elim exE conjE)
  show ?thesis
  proof (intro exI conjI impI)
    show "PropagateNets g w = Some (cs, ms, w')" unfolding inv(4) by (rule P(1))
  qed (fact P(2,3) live_comps_all(2) [OF inv(1)])+
qed

theorem PropagateNets_components_witness:
  "\<exists>cs ms w'. PropagateNets demo_geometry demo_world = Some (cs, ms, w') \<and> set ms = {p. net_at w' p \<noteq> net_at demo_searched p} \<and>
     ms = [1] \<and> net_at w' 1 = 1 \<and> net_at w' 2 = 0"
proof -
  obtain cs ms w' where "PropagateNets demo_geometry demo_world = Some (cs, ms, w')"
    "set ms = {p. net_at w' p \<noteq> net_at demo_searched p}"
    using PropagateNets_components [OF demo_ok demo_reach demo_searched] by (elim exE conjE)
  then show ?thesis using demo_propagate demo_same(2) by simp
qed

end
