(* ===== verification/CnAnchors.thy ===== *)
theory CnAnchors
  imports CnProps
begin

text \<open>
  The anchors of the items of the connectivity (\<^verbatim>\<open>pcbnew/connectivity/connectivity_items.h\<close>): in every state that
  \<open>CN_CONNECTIVITY_ALGO\<close> reaches they belong to the item that has them, so two items share none.
\<close>

section \<open>Invariant\<close>

definition anchors_on :: "nat set \<Rightarrow> CN_WORLD \<Rightarrow> bool" where
  "anchors_on S w \<longleftrightarrow> (\<forall>i \<in> S. i < cn_next_item w \<and> distinct (ci_anchors (cn_item w i)) \<and>
     (\<forall>a \<in> set (ci_anchors (cn_item w i)). a < cn_next_anchor w \<and> an_item (cn_anchor w a) = Some i))"

text \<open>Items that were not searched yet are there only when the list says so.\<close>

definition anchors_inv :: "CN_WORLD \<Rightarrow> bool" where
  "anchors_inv w \<longleftrightarrow> anchors_on (set (cn_items w)) w \<and> (cn_list_dirty w \<or> (\<forall>i \<in> set (cn_items w). \<not> ci_dirty (cn_item w i)))"

definition same_anchors :: "CN_WORLD \<Rightarrow> CN_WORLD \<Rightarrow> bool" where
  "same_anchors w w' \<longleftrightarrow> cn_items w' = cn_items w \<and> cn_next_item w' = cn_next_item w \<and> cn_next_anchor w' = cn_next_anchor w \<and>
     cn_anchor w' = cn_anchor w \<and> (cn_list_dirty w \<longrightarrow> cn_list_dirty w') \<and>
     (\<forall>i. ci_anchors (cn_item w' i) = ci_anchors (cn_item w i) \<and> ci_dirty (cn_item w' i) = ci_dirty (cn_item w i))"

lemma same_anchors_refl [simp]: "same_anchors w w"
  by (simp add: same_anchors_def)

lemma same_anchors_trans: "same_anchors u v \<Longrightarrow> same_anchors v w \<Longrightarrow> same_anchors u w"
  by (simp add: same_anchors_def)

lemma same_anchors_inv: "same_anchors w w' \<Longrightarrow> anchors_inv w \<Longrightarrow> anchors_inv w'"
  by (auto simp: same_anchors_def anchors_inv_def anchors_on_def)

lemma same_anchors_upd:
  assumes "ci_anchors (f (cn_item w i)) = ci_anchors (cn_item w i)" "ci_dirty (f (cn_item w i)) = ci_dirty (cn_item w i)"
  shows "same_anchors w (upd_item i f w)"
  using assms by (simp add: same_anchors_def upd_item_def)

lemma same_anchors_fold:
  assumes "\<And>x w. same_anchors w (f x w)"
  shows "same_anchors w (fold f xs w)"
  by (induction xs arbitrary: w) (auto intro: same_anchors_trans assms)

lemma same_anchors_fold_opt:
  assumes "\<And>x w w'. f x w = Some w' \<Longrightarrow> same_anchors w w'" and "fold_opt f xs w = Some w'"
  shows "same_anchors w w'"
  by (rule fold_opt_keeps [where P = "same_anchors w", OF _ same_anchors_refl assms(2)]) (use assms(1) same_anchors_trans in blast)

lemma same_anchors_simple:
  "same_anchors w (SetLayers l i w)" "same_anchors w (MarkNetAsDirty n w)" "same_anchors w (SetValid b i w)"
  "same_anchors w (SetNetCode p n w)" "same_anchors w (nets_ClearDirtyFlags w)" "same_anchors w (w\<lparr> cn_has_invalid := b \<rparr>)"
  "same_anchors w (w\<lparr> cn_item_map := m \<rparr>)" "same_anchors w (w\<lparr> cn_board := bd \<rparr>)" "same_anchors w (w\<lparr> cn_list_dirty := True \<rparr>)"
  "same_anchors w (cn_Connect i j w)" "same_anchors w (item_RemoveInvalidRefs i w)"
  by (simp_all add: same_anchors_def SetLayers_def MarkNetAsDirty_def SetValid_def SetNetCode_def nets_ClearDirtyFlags_def upd_item_def
      cn_Connect_def item_RemoveInvalidRefs_def Let_def split: prod.split)

lemma same_anchors_markItem: "same_anchors w (markItemNetAsDirty p w)"
  by (auto simp: markItemNetAsDirty_def Let_def intro!: same_anchors_simple same_anchors_fold)

lemma same_anchors_unmarked: "unmarked w' = unmarked w \<Longrightarrow> same_anchors w w'"
proof -
  assume u: "unmarked w' = unmarked w"
  have "same_anchors w (unmarked w)" "same_anchors (unmarked w') w'" by (simp_all add: same_anchors_def unmarked_def)
  then show ?thesis unfolding u by (rule same_anchors_trans)
qed

section \<open>Adding\<close>

lemma anchors_on_new:
  assumes "anchors_on S w" and "ci_anchors it = []" and "new_item it w = (i, w1)"
  shows "anchors_on (insert i S) w1"
  using assms by (auto simp: anchors_on_def new_item_def)

lemma anchors_on_AddAnchor:
  assumes "anchors_on S w" and "i \<in> S"
  shows "anchors_on S (AddAnchor i p w)"
  using assms by (fastforce simp: anchors_on_def AddAnchor_def upd_item_def Let_def)

lemma anchors_on_AddAnchors: "anchors_on S w \<Longrightarrow> i \<in> S \<Longrightarrow> anchors_on S (fold (AddAnchor i) ps w)"
  by (induction ps arbitrary: w) (auto intro: anchors_on_AddAnchor)

lemma anchors_on_same: "same_anchors w w' \<Longrightarrow> anchors_on S w \<Longrightarrow> anchors_on S w'"
  by (simp add: same_anchors_def anchors_on_def)

lemma anchors_inv_insert:
  assumes "anchors_on (insert i (set (cn_items w))) w"
  shows "anchors_inv (list_insert i w)"
  using assms by (simp add: anchors_inv_def list_insert_def anchors_on_def)

lemma AddAnchors_items: "cn_items (fold (AddAnchor i) ps w) = cn_items w"
  by (induction ps arbitrary: w) (simp_all add: AddAnchor_def upd_item_def Let_def)

text \<open>Every \<open>Add\<close> of the list makes an item, then its anchors, and inserts it.\<close>

lemma anchors_inv_added:
  assumes "anchors_inv w" and "ci_anchors it = []" and "new_item it w = (i, w1)" and "same_anchors (fold (AddAnchor i) ps w1) w2"
  shows "anchors_inv (list_insert i w2)"
proof -
  have "cn_items w1 = cn_items w" using assms(3) by (auto simp: new_item_def)
  then have "cn_items w2 = cn_items w" using assms(4) by (simp add: same_anchors_def AddAnchors_items)
  moreover have "anchors_on (insert i (set (cn_items w))) w2"
    using anchors_on_new [OF _ assms(2,3)] assms(1) by (intro anchors_on_same [OF assms(4)] anchors_on_AddAnchors) (simp_all add: anchors_inv_def)
  ultimately show ?thesis by (intro anchors_inv_insert) simp
qed

lemma CN_ITEM_make_anchors: "ci_anchors (CN_ITEM_make p b) = []" "ci_anchors (CN_ZONE_LAYER_make p l j) = []"
  by (simp_all add: CN_ITEM_make_def CN_ZONE_LAYER_make_def)

lemma list_Adds_anchors:
  assumes "anchors_inv w"
  shows "anchors_inv (snd (list_Add_track p w))" "anchors_inv (snd (list_Add_arc p w))" "anchors_inv (snd (list_Add_via p w))"
    "anchors_inv (snd (list_Add_shape p w))" "anchors_inv (snd (list_Add_outline p l j w))"
proof -
  note add = anchors_inv_added [OF assms CN_ITEM_make_anchors(1)] 
  let ?b = "cn_board w p"
  show "anchors_inv (snd (list_Add_track p w))"
    using add [OF surjective_pairing, of p True "[bi_start ?b, bi_end ?b]", OF same_anchors_simple(1)] by (simp add: list_Add_track_def new_item_def Let_def)
  show "anchors_inv (snd (list_Add_arc p w))"
    using add [OF surjective_pairing, of p True "[bi_start ?b, bi_end ?b]", OF same_anchors_simple(1)] by (simp add: list_Add_arc_def new_item_def Let_def)
  show "anchors_inv (snd (list_Add_via p w))"
    using add [OF surjective_pairing, of p "\<not> bi_free ?b" "[bi_start ?b]", OF same_anchors_simple(1)] by (simp add: list_Add_via_def new_item_def Let_def)
  show "anchors_inv (snd (list_Add_shape p w))"
    using add [OF surjective_pairing, of p True "bi_points ?b", OF same_anchors_simple(1)] by (simp add: list_Add_shape_def new_item_def Let_def)
  show "anchors_inv (snd (list_Add_outline p l j w))"
    using anchors_inv_added [OF assms CN_ITEM_make_anchors(2) surjective_pairing same_anchors_refl, of p l j "bi_outlines ?b l ! j"]
    by (simp add: list_Add_outline_def new_item_def)
qed

lemma list_Add_pad_anchors:
  assumes "anchors_inv w" and "list_Add_pad p w = Some (r, w')"
  shows "anchors_inv w'"
proof (cases "bi_on_copper (cn_board w p)")
  case True
  let ?i = "cn_next_item w" and ?w1 = "snd (new_item (CN_ITEM_make p False) w)"
  let ?v = "AddAnchor ?i (bi_shape_pos (cn_board w p)) ?w1" and ?all = "LAYER_RANGE_make (pcb_num F_Cu) (pcb_num B_Cu)"
  have "\<exists>l. w' = list_insert ?i (SetLayers ?all ?i ?v) \<or> w' = list_insert ?i (SetLayers l ?i (SetLayers ?all ?i ?v))"
    using assms(2) True by (simp add: list_Add_pad_def new_item_def Let_def split: if_splits option.splits) auto
  then obtain w2 where w2: "w' = list_insert ?i w2" "same_anchors (fold (AddAnchor ?i) [bi_shape_pos (cn_board w p)] ?w1) w2"
    unfolding fold_simps using same_anchors_simple(1) [of ?v] same_anchors_trans [OF same_anchors_simple(1) same_anchors_simple(1), of ?v] by metis
  have "new_item (CN_ITEM_make p False) w = (?i, ?w1)" by (simp add: new_item_def)
  then show ?thesis unfolding w2(1) by (rule anchors_inv_added [OF assms(1) CN_ITEM_make_anchors(1) _ w2(2)])
qed (use assms in \<open>simp add: list_Add_pad_def\<close>)

lemma add_entry_anchors: "anchors_inv w \<Longrightarrow> anchors_inv (add_entry p (r, w))"
  using same_anchors_inv [OF same_anchors_simple(7)] by (simp add: add_entry_def)

lemma add_pads_anchors:
  assumes "anchors_inv w" and "add_pads pads w = Some (b, w')"
  shows "anchors_inv w'"
  using assms
proof (induction pads arbitrary: w)
  case (Cons p pads)
  show ?case
  proof (cases "alreadyAdded p w")
    case False
    then obtain r v where "list_Add_pad p w = Some (r, v)" "add_pads pads (add_entry p (r, v)) = Some (b, w')"
      using Cons.prems(2) by (auto split: option.splits)
    then show ?thesis using Cons.IH list_Add_pad_anchors [OF Cons.prems(1)] add_entry_anchors by blast
  qed (use Cons.prems in simp)
qed simp

lemma add_zone_anchors:
  assumes "anchors_inv w" and "add_zone p w = Some w'"
  shows "anchors_inv w'"
proof -
  have outline: "anchors_inv (snd (fold (\<lambda>j (rv, w). case list_Add_outline p l j w of (i, w) \<Rightarrow> (rv @ [i], w)) js s))" if "anchors_inv (snd s)" for l js s
    using that list_Adds_anchors(5)
    by (intro fold_invariant [where Q = "\<lambda>_. True" and P = "\<lambda>s. anchors_inv (snd s)"]) (auto split: prod.splits, metis snd_conv)
  have zone: "anchors_inv (snd (list_Add_zone p l v))" if "anchors_inv v" for l v using outline that by (simp add: list_Add_zone_def)
  have step: "anchors_inv (case list_Add_zone p l v of (zitems, w) \<Rightarrow> w\<lparr> cn_item_map := m w zitems \<rparr>)" if "anchors_inv v" for l v m
    using zone [OF that, of l] same_anchors_inv [OF same_anchors_simple(7)] by (cases "list_Add_zone p l v") simp
  have start: "anchors_inv (w\<lparr> cn_item_map := (cn_item_map w)(p \<mapsto> []) \<rparr>)" using same_anchors_inv [OF same_anchors_simple(7) assms(1)] .
  obtain s where w': "w' = LSET_RunOnLayers s (\<lambda>layer w. case list_Add_zone p layer w of
      (zitems, w) \<Rightarrow> w\<lparr> cn_item_map := (cn_item_map w)(p \<mapsto> (case cn_item_map w p of None \<Rightarrow> [] | Some is \<Rightarrow> is) @ zitems) \<rparr>)
      (w\<lparr> cn_item_map := (cn_item_map w)(p \<mapsto> []) \<rparr>)"
    using assms(2) by (auto simp: add_zone_def split: option.splits)
  show ?thesis
    unfolding w' LSET_RunOnLayers_def
    by (rule fold_invariant [where Q = "\<lambda>_. True" and P = anchors_inv, OF TrueI start])
      (simp only: split: if_split, intro conjI impI, erule step, assumption)
qed

lemma algo_Add_anchors:
  assumes "anchors_inv w" and "algo_Add p w = Some (b, w')"
  shows "anchors_inv w'"
proof -
  note mark = same_anchors_inv [OF same_anchors_markItem]
  have one: "anchors_inv (add_entry p r)" if "anchors_inv (snd r)" for r using add_entry_anchors that by (cases r) simp
  have pad: "anchors_inv (add_entry p r)" if "list_Add_pad p w = Some r" for r
    using list_Add_pad_anchors [OF assms(1)] that one by (cases r) auto
  note adds = list_Adds_anchors [OF assms(1)] and prem = assms(2) [unfolded algo_Add_def Let_def]
  show ?thesis
  proof (cases "bi_type (cn_board w p)")
    case PCB_NETINFO_T
    then show ?thesis using prem mark [OF same_anchors_inv [OF same_anchors_simple(2) assms(1)]] assms(1) by (auto split: if_splits)
  next
    case PCB_FOOTPRINT_T
    then have "w' = w \<or> (\<exists>c w1. add_pads (bi_pads (cn_board w p)) w = Some (c, w1) \<and> (w' = w1 \<or> w' = markItemNetAsDirty p w1))"
      using prem by (auto split: if_splits option.splits prod.splits bool.splits)
    then show ?thesis using assms(1) add_pads_anchors [OF assms(1)] mark by blast
  next
    case PCB_PAD_T
    then have "w' = w \<or> (\<exists>r. list_Add_pad p w = Some r \<and> w' = markItemNetAsDirty p (add_entry p r))"
      using prem by (auto split: if_splits option.splits)
    then show ?thesis using assms(1) pad mark by blast
  next
    case PCB_ZONE_T
    then have "w' = w \<or> (\<exists>v. add_zone p w = Some v \<and> w' = markItemNetAsDirty p v)"
      using prem by (auto split: if_splits option.splits)
    then show ?thesis using assms(1) add_zone_anchors [OF assms(1)] mark by blast
  next
    case PCB_TRACE_T
    then show ?thesis using prem mark [OF one [OF adds(1)]] assms(1) by (auto split: if_splits)
  next
    case PCB_ARC_T
    then show ?thesis using prem mark [OF one [OF adds(2)]] assms(1) by (auto split: if_splits)
  next
    case PCB_VIA_T
    then show ?thesis using prem mark [OF one [OF adds(3)]] assms(1) by (auto split: if_splits)
  next
    case PCB_SHAPE_T
    then show ?thesis using prem mark [OF one [OF adds(4)]] assms(1) by (auto split: if_splits)
  qed (use prem assms(1) in \<open>auto split: if_splits\<close>)
qed

section \<open>Removing and searching\<close>

lemma drop_entry_anchors: "same_anchors w (drop_entry p w)"
proof -
  have "same_anchors w (fold (SetValid False) xs w)" for xs by (rule same_anchors_fold) (rule same_anchors_simple)
  then show ?thesis unfolding drop_entry_def Let_def using same_anchors_trans [OF _ same_anchors_simple(7)] by blast
qed

lemma algo_Remove_anchors:
  assumes "anchors_inv w"
  shows "anchors_inv (snd (algo_Remove p w))"
proof -
  let ?m = "markItemNetAsDirty p w"
  have m: "same_anchors w ?m" by (rule same_anchors_markItem)
  have d: "same_anchors w (v\<lparr> cn_list_dirty := True, cn_has_invalid := True \<rparr>)" if "same_anchors w v" for v
    using that by (simp add: same_anchors_def)
  have f: "same_anchors w (fold drop_entry ps ?m)" for ps
    by (rule same_anchors_trans [OF m], rule same_anchors_fold, rule drop_entry_anchors)
  have "same_anchors w (snd (algo_Remove p w))"
    using m d [OF f] d [OF same_anchors_trans [OF m drop_entry_anchors]] by (simp add: algo_Remove_def Let_def)
  then show ?thesis using same_anchors_inv assms by blast
qed

lemma delete_items:
  "fold delete_item gs w = w\<lparr> cn_anchor := (\<lambda>a. if \<exists>g \<in> set gs. a \<in> set (ci_anchors (cn_item w g))
     then (cn_anchor w a)\<lparr> an_item := None \<rparr> else cn_anchor w a) \<rparr>"
  by (induction gs arbitrary: w) (auto simp: delete_item_def fun_eq_iff)

lemma garbage_anchors:
  assumes "anchors_inv w" and "RemoveInvalidItems w = (garbage, w')"
  shows "anchors_inv (fold delete_item garbage w')"
proof (cases "cn_has_invalid w")
  case True
  let ?P = "\<lambda>i. ci_valid (cn_item w i)"
  have g: "garbage = filter (\<lambda>i. \<not> ?P i) (cn_items w)" and w': "cn_items w' = filter ?P (cn_items w)" "cn_item w' = cn_item w"
    "cn_anchor w' = cn_anchor w" "cn_next_item w' = cn_next_item w" "cn_next_anchor w' = cn_next_anchor w" "cn_list_dirty w' = cn_list_dirty w"
    using assms(2) True by (auto simp: RemoveInvalidItems_def Let_def)
  have other: "\<not> (\<exists>h \<in> set garbage. a \<in> set (ci_anchors (cn_item w h)))"
    if "i \<in> set (cn_items w)" "?P i" "a \<in> set (ci_anchors (cn_item w i))" for i a
  proof
    assume "\<exists>h \<in> set garbage. a \<in> set (ci_anchors (cn_item w h))"
    then obtain h where h: "h \<in> set (cn_items w)" "\<not> ?P h" "a \<in> set (ci_anchors (cn_item w h))" by (auto simp: g)
    then have "an_item (cn_anchor w a) = Some h" "an_item (cn_anchor w a) = Some i"
      using assms(1) that(1,3) unfolding anchors_inv_def anchors_on_def by blast+
    then show False using h(2) that(2) by simp
  qed
  have "anchors_on (set (cn_items w')) (fold delete_item garbage w')"
    using assms(1) other unfolding delete_items anchors_on_def anchors_inv_def by (simp add: w') blast
  then show ?thesis using assms(1) unfolding anchors_inv_def delete_items by (auto simp: w')
next
  case False
  then show ?thesis using assms by (auto simp: RemoveInvalidItems_def)
qed

lemma same_anchors_connect: "same_anchors w (connect_both i j w)"
  using same_anchors_trans [OF same_anchors_simple(10) same_anchors_simple(10)] by (simp add: connect_both_def)

lemma visit_anchors: "visit g i c w = Some w' \<Longrightarrow> same_anchors w w'"
  by (auto simp: visit_def Let_def checkZoneItemConnection_def checkZoneZoneConnection_def same_anchors_connect
      split: if_splits option.splits)

lemma searchConnections_anchors:
  assumes "anchors_inv w" and "searchConnections g w = Some w'"
  shows "anchors_inv w'"
proof -
  let ?w1 = "algo_RemoveInvalidRefs w"
  obtain garbage w2 where w2: "RemoveInvalidItems ?w1 = (garbage, w2)" by fastforce
  let ?w3 = "fold delete_item garbage w2"
  have "anchors_inv ?w1"
    unfolding algo_RemoveInvalidRefs_def by (rule same_anchors_inv [OF same_anchors_fold assms(1)], rule same_anchors_simple)
  then have w3: "anchors_inv ?w3" using garbage_anchors [OF _ w2] by blast
  obtain w4 where w4: "w' = list_ClearDirtyFlags w4"
    "(if cn_list_dirty ?w3 then fold_opt (search_item g) (filter (\<lambda>i. ci_dirty (cn_item ?w3 i)) (cn_items ?w3)) ?w3 else Some ?w3) = Some w4"
    using assms(2) w2 by (auto simp: searchConnections_def Let_def split: bind_splits)
  have search: "search_item g i v = Some v' \<Longrightarrow> same_anchors v v'" for i v v'
    unfolding search_item_def by (rule same_anchors_fold_opt) (rule visit_anchors)
  have "same_anchors ?w3 w4"
    using w4(2) same_anchors_fold_opt [of "search_item g", OF search] by (auto split: if_splits)
  then have a: "anchors_inv w4" using same_anchors_inv w3 by blast
  have clear: "fold (\<lambda>i. upd_item i (\<lambda>it. it\<lparr> ci_dirty := False \<rparr>)) is v =
      v\<lparr> cn_item := (\<lambda>i. if i \<in> set is then (cn_item v i)\<lparr> ci_dirty := False \<rparr> else cn_item v i) \<rparr>" for "is" v
    by (induction "is" arbitrary: v) (auto simp: upd_item_def fun_eq_iff)
  show ?thesis using a unfolding w4(1) list_ClearDirtyFlags_def clear by (simp add: anchors_inv_def anchors_on_def)
qed

lemma SearchClusters_anchors:
  assumes "anchors_inv w" and "SearchClusters_types g aMode aTypes aSingleNet rootItem w = Some (cs, w')"
  shows "anchors_inv w'"
proof -
  obtain w1 where w1: "(if cn_list_dirty w then searchConnections g w else Some w) = Some w1"
    and w': "\<exists>xs w2. unmarked w2 = unmarked w1 \<and> (\<exists>cs. clusters_loop (aMode \<noteq> CSM_PROPAGATE) xs w2 = Some (cs, w'))"
    using assms(2) fold_SetVisited(1) by (fastforce simp: SearchClusters_types_def Let_def split: bind_splits)
  have "anchors_inv w1" using w1 assms(1) searchConnections_anchors by (auto split: if_splits)
  moreover have "unmarked w' = unmarked w1" using w' clusters_loop_unmarked by metis
  ultimately show ?thesis using same_anchors_inv same_anchors_unmarked by blast
qed

lemma propagate_anchors: "same_anchors w (snd (propagateConnections cs (ms, w)))"
proof -
  have mark: "same_anchors w v \<Longrightarrow> same_anchors w (SetNetCode p n (MarkNetAsDirty n (MarkNetAsDirty m v)))" for v p m n
    by (rule same_anchors_trans [OF same_anchors_trans [OF same_anchors_trans]]) (assumption | rule same_anchors_simple)+
  have item: "same_anchors w (snd s) \<Longrightarrow> same_anchors w (snd (propagate_item c i s))" for c i s
    by (auto simp: propagate_item_def Let_def mark split: prod.split)
  have cluster: "same_anchors w (snd s) \<Longrightarrow> same_anchors w (snd (propagate_cluster c s))" for c s
    unfolding propagate_cluster_def
    by (simp, intro impI, rule fold_invariant [where Q = "\<lambda>_. True" and P = "\<lambda>s. same_anchors w (snd s)"]) (simp_all add: item)
  show ?thesis
    unfolding propagateConnections_def
    by (rule fold_invariant [where Q = "\<lambda>_. True" and P = "\<lambda>s. same_anchors w (snd s)"]) (simp_all add: cluster)
qed

lemma PropagateNets_anchors:
  assumes "anchors_inv w" and "PropagateNets g w = Some (cs, ms, w')"
  shows "anchors_inv w'"
proof -
  obtain w1 where w1: "SearchClusters g CSM_PROPAGATE w = Some (cs, w1)" "propagateConnections cs ([], w1) = (ms, w')"
    using assms(2) by (auto simp: PropagateNets_def split: bind_splits)
  have "anchors_inv w1" using SearchClusters_anchors [OF assms(1)] w1(1) unfolding SearchClusters_def by blast
  then show ?thesis using same_anchors_inv [OF propagate_anchors [of w1 cs "[]"]] w1(2) by simp
qed

section \<open>Searches return\<close>

text \<open>Whatever the marks are, a search over items that hold all their valid neighbours ends.\<close>

lemma clusters_loop_returns:
  assumes "finite U" and "\<And>i n. i \<in> U \<Longrightarrow> hop b w0 i n \<Longrightarrow> n \<in> U" and "unmarked w = unmarked w0" and "set xs \<subseteq> U"
  shows "\<exists>cs w'. clusters_loop b xs w = Some (cs, w')"
  using assms(3,4)
proof (induction xs arbitrary: w)
  case (Cons root xs)
  show ?case
  proof (cases "ci_visited (cn_item w root)")
    case True
    then show ?thesis using Cons by simp
  next
    case False
    have hop: "hop b w = hop b w0" using hop_same [OF Cons.prems(1)] .
    have "\<exists>c w1. bfs b root [root] CN_CLUSTER_make (SetVisited True root w) = Some (c, w1)"
    proof -
      have "root \<notin> vis w" "root \<in> U" using False Cons.prems(2) by (simp_all add: vis_def)
      then show ?thesis
        using bfs_from [of U b w "SetVisited True root w" "vis w" "[]" "[root]" root] assms(1,2) by (simp add: hop) blast
    qed
    then obtain c w1 where b: "bfs b root [root] CN_CLUSTER_make (SetVisited True root w) = Some (c, w1)" by blast
    have "unmarked w1 = unmarked w0" using bfs_unmarked [OF b] Cons.prems(1) by simp
    then show ?thesis using Cons.IH [of w1] Cons.prems(2) False b by auto
  qed
qed simp

end
