(* ===== verification/CnBuild.thy ===== *)
theory CnBuild
  imports CnReach
begin

text \<open>
  The rest of \<open>CN_CONNECTIVITY_ALGO\<close> (\<^verbatim>\<open>pcbnew/connectivity/connectivity_algo.h\<close> and \<^verbatim>\<open>.cpp\<close>): building the
  connectivity of a whole board, looking up entries, and the search for isolated zone islands, with
  the invariant for what has been built.
\<close>

section \<open>Entries\<close>

text \<open>\<^verbatim>\<open>m_itemMap[ aItem ]\<close> makes an empty entry when there is none.\<close>

definition ItemEntry :: "nat \<Rightarrow> CN_WORLD \<Rightarrow> nat list \<times> CN_WORLD" where
  "ItemEntry aItem w = (case cn_item_map w aItem of
     Some is \<Rightarrow> (is, w) | None \<Rightarrow> ([], w\<lparr> cn_item_map := (cn_item_map w)(aItem \<mapsto> []) \<rparr>))"

definition entry_Link :: "nat \<Rightarrow> nat \<Rightarrow> CN_WORLD \<Rightarrow> CN_WORLD" where
  "entry_Link aItem i w =
     (case ItemEntry aItem w of (is, w) \<Rightarrow> w\<lparr> cn_item_map := (cn_item_map w)(aItem \<mapsto> is @ [i]) \<rparr>)"

definition list_Clear :: "CN_WORLD \<Rightarrow> CN_WORLD" where
  "list_Clear w = (fold delete_item (cn_items w) w)\<lparr> cn_items := [], cn_index := [] \<rparr>"

definition algo_Clear :: "CN_WORLD \<Rightarrow> CN_WORLD" where
  "algo_Clear w = list_Clear (w\<lparr> cn_item_map := Map.empty \<rparr>)"

definition ForEachAnchor :: "(CN_ANCHOR \<Rightarrow> CN_ANCHOR) \<Rightarrow> CN_WORLD \<Rightarrow> CN_WORLD" where
  "ForEachAnchor aFunc w =
     fold (\<lambda>item w. fold (\<lambda>a w. w\<lparr> cn_anchor := (cn_anchor w)(a := aFunc (cn_anchor w a)) \<rparr>) (ci_anchors (cn_item w item)) w)
       (cn_items w) w"

section \<open>Building\<close>

text \<open>The items of the outlines of a zone; unlike those of \<open>Add\<close> they get no anchors.\<close>

definition build_outline :: "nat \<Rightarrow> int \<Rightarrow> nat \<Rightarrow> nat list \<times> CN_WORLD \<Rightarrow> nat list \<times> CN_WORLD" where
  "build_outline zone layer j s =
     (case s of (zitems, w) \<Rightarrow> case new_item (CN_ZONE_LAYER_make zone layer j) w of (i, w) \<Rightarrow> (zitems @ [i], w))"

definition build_zone :: "nat \<Rightarrow> nat list \<times> CN_WORLD \<Rightarrow> (nat list \<times> CN_WORLD) option" where
  "build_zone zone s =
     (case s of (zitems, w) \<Rightarrow>
        if \<not> bi_on_copper (cn_board w zone) then Some s
        else do {
          let w = markItemNetAsDirty zone (w\<lparr> cn_item_map := (cn_item_map w)(zone \<mapsto> []) \<rparr>);
          layerset \<leftarrow> BASE_SET_and (cn_enabled w) (bi_layer_set (cn_board w zone));
          cu \<leftarrow> LSET_AllCuMask MAX_CU_LAYERS;
          layerset \<leftarrow> BASE_SET_and layerset cu;
          Some (LSET_RunOnLayers layerset
            (\<lambda>layer s. fold (build_outline zone layer) [0..<length (bi_outlines (cn_board (snd s) zone) layer)] s) (zitems, w))
        })"

definition build_link :: "nat \<Rightarrow> CN_WORLD \<Rightarrow> CN_WORLD" where
  "build_link zitem w = entry_Link (ci_parent (cn_item w zitem)) zitem (list_insert zitem w)"

definition algo_Adds :: "nat list \<Rightarrow> CN_WORLD \<Rightarrow> CN_WORLD option" where
  "algo_Adds items w = fold_opt (\<lambda>item w. map_option snd (algo_Add item w)) items w"

definition algo_Build :: "nat list \<Rightarrow> nat list \<Rightarrow> nat list \<Rightarrow> nat list \<Rightarrow> CN_WORLD \<Rightarrow> CN_WORLD option" where
  "algo_Build zones tracks footprints drawings w = do {
     (zitems, w) \<leftarrow> fold_opt build_zone zones ([], w);
     let w = fold build_link zitems w;
     w \<leftarrow> algo_Adds tracks w;
     w \<leftarrow> algo_Adds (concat (map (\<lambda>footprint. bi_pads (cn_board w footprint)) footprints)) w;
     algo_Adds (filter (\<lambda>d. bi_type (cn_board w d) = PCB_SHAPE_T \<and> bi_on_copper (cn_board w d)) drawings) w
   }"

definition algo_LocalBuild :: "nat list \<Rightarrow> CN_WORLD \<Rightarrow> CN_WORLD option" where
  "algo_LocalBuild aLocalItems w =
     algo_Adds (filter (\<lambda>item. bi_type (cn_board w item) \<in>
       {PCB_TRACE_T, PCB_ARC_T, PCB_VIA_T, PCB_PAD_T, PCB_FOOTPRINT_T, PCB_SHAPE_T}) aLocalItems) w"

section \<open>Isolated islands\<close>

record ISOLATED_ISLANDS =
  is_IsolatedOutlines :: "nat list"
  is_SingleConnectionOutlines :: "nat list"

definition SubpolyIndex :: "CN_WORLD \<Rightarrow> nat \<Rightarrow> nat" where
  "SubpolyIndex w i = (case ci_zone_layer (cn_item w i) of None \<Rightarrow> 0 | Some (layer, sub) \<Rightarrow> sub)"

definition island_item :: "CN_WORLD \<Rightarrow> nat \<Rightarrow> int \<Rightarrow> CN_CLUSTER \<Rightarrow> nat \<Rightarrow> ISOLATED_ISLANDS \<Rightarrow> ISOLATED_ISLANDS" where
  "island_item w zone layer cluster item layerIslands =
     (if ci_parent (cn_item w item) = zone \<and> lr_start (ci_layers (cn_item w item)) = layer
      then if IsOrphaned cluster
           then layerIslands\<lparr> is_IsolatedOutlines := is_IsolatedOutlines layerIslands @ [SubpolyIndex w item] \<rparr>
           else if HasSingleConnection w item
           then layerIslands\<lparr> is_SingleConnectionOutlines := is_SingleConnectionOutlines layerIslands @ [SubpolyIndex w item] \<rparr>
           else layerIslands
      else layerIslands)"

definition fill_layer :: "CN_WORLD \<Rightarrow> CN_CLUSTER list \<Rightarrow> nat \<Rightarrow> int \<times> ISOLATED_ISLANDS \<Rightarrow> int \<times> ISOLATED_ISLANDS" where
  "fill_layer w m_connClusters zone s =
     (case s of (layer, layerIslands) \<Rightarrow>
        if bi_outlines (cn_board w zone) layer = [] then s
        else (layer, fold (\<lambda>cluster. fold (island_item w zone layer cluster) (cl_items cluster)) m_connClusters layerIslands))"

definition FillIsolatedIslandsMap ::
    "CN_GEOMETRY \<Rightarrow> (nat \<times> (int \<times> ISOLATED_ISLANDS) list) list \<Rightarrow> bool \<Rightarrow> CN_WORLD \<Rightarrow>
     ((nat \<times> (int \<times> ISOLATED_ISLANDS) list) list \<times> CN_CLUSTER list \<times> CN_WORLD) option" where
  "FillIsolatedIslandsMap g aMap aConnectivityAlreadyRebuilt w = do {
     w \<leftarrow> (if aConnectivityAlreadyRebuilt then Some w
           else fold_opt (\<lambda>(zone, islands) w. map_option snd (algo_Add zone (snd (algo_Remove zone w)))) aMap w);
     (m_connClusters, w) \<leftarrow> SearchClusters g CSM_CONNECTIVITY_CHECK w;
     Some (map (\<lambda>(zone, zoneIslands). (zone, map (fill_layer w m_connClusters zone) zoneIslands)) aMap, m_connClusters, w)
   }"

section \<open>The invariant\<close>

lemma ItemEntry_inv:
  assumes "reach_inv w"
  shows "reach_inv (snd (ItemEntry p w))"
proof (cases "cn_item_map w p")
  case None
  then have "\<not> alreadyAdded p w" by (simp add: alreadyAdded_def)
  with empty_entry_inv [of w p] assms have "cn_inv (w\<lparr> cn_item_map := (cn_item_map w)(p \<mapsto> []) \<rparr>)" by (simp add: reach_inv_def)
  then show ?thesis using None assms by (simp add: ItemEntry_def reach_inv_def board_ok_def)
qed (use assms in \<open>simp add: ItemEntry_def\<close>)

lemma algo_Adds_inv:
  assumes "reach_inv w" and "algo_Adds items w = Some w'"
  shows "reach_inv w'"
  using assms(2) unfolding algo_Adds_def
proof (rule fold_opt_keeps [where P = reach_inv, OF _ assms(1), rotated])
  fix x v v' assume "reach_inv v" "map_option snd (algo_Add x v) = Some v'"
  then show "reach_inv v'" using algo_Add_inv [of v x] by (cases "algo_Add x v") auto
qed

lemma algo_Clear_inv:
  assumes "board_ok w"
  shows "reach_inv (algo_Clear w)"
proof -
  have "cn_board (fold delete_item is v) = cn_board v" for "is" v
    by (induction "is" arbitrary: v) (simp_all add: delete_item_def)
  then show ?thesis using assms by (simp add: algo_Clear_def list_Clear_def reach_inv_def cn_inv_def board_ok_def)
qed

text \<open>The items of the zones of a board, first made, then put into the list and their entries one by one.\<close>

definition build_inv :: "nat list \<Rightarrow> CN_WORLD \<Rightarrow> bool" where
  "build_inv zitems w \<longleftrightarrow> distinct (cn_items w @ zitems) \<and> cn_index w = cn_items w \<and>
     (\<forall>i \<in> set (cn_items w) \<union> set zitems. i < cn_next_item w \<and> ci_connected (cn_item w i) = [] \<and> ci_valid (cn_item w i) \<and>
        \<not> ci_canChangeNet (cn_item w i) \<and> bi_type (cn_parent w i) = PCB_ZONE_T) \<and>
     (\<forall>i \<in> set (cn_items w). i \<in> set (entry (cn_item_map w) (ci_parent (cn_item w i))))"

lemma build_inv_cn_inv:
  assumes "build_inv [] w"
  shows "cn_inv w"
proof (rule cn_invI)
  fix i assume i: "i \<in> set (cn_items w)"
  then have "i \<in> set (entry (cn_item_map w) (ci_parent (cn_item w i)))" "\<not> ci_canChangeNet (cn_item w i)"
    using assms by (auto simp: build_inv_def)
  then show "\<exists>is. cn_item_map w (ci_parent (cn_item w i)) = Some is \<and> i \<in> set is \<and> (ci_canChangeNet (cn_item w i) \<longrightarrow> is = [i])"
    by (cases "cn_item_map w (ci_parent (cn_item w i))") (simp_all add: entry_def)
qed (use assms in \<open>auto simp: build_inv_def withZones_def\<close>)

lemma entry_Link_map: "cn_item_map (entry_Link p i w) = (cn_item_map w)(p \<mapsto> entry (cn_item_map w) p @ [i])"
  by (simp add: entry_Link_def ItemEntry_def entry_def split: option.split)

lemma entry_Link_world:
  "cn_items (entry_Link p i w) = cn_items w" "cn_index (entry_Link p i w) = cn_index w" "cn_item (entry_Link p i w) = cn_item w"
  "cn_next_item (entry_Link p i w) = cn_next_item w" "cn_board (entry_Link p i w) = cn_board w"
  by (simp_all add: entry_Link_def ItemEntry_def split: option.split)

lemma build_link_inv:
  assumes "build_inv (i # zitems) w"
  shows "build_inv zitems (build_link i w) \<and> cn_board (build_link i w) = cn_board w"
proof -
  let ?v = "build_link i w"
  have eq: "cn_items ?v = cn_items w @ [i]" "cn_index ?v = cn_index w @ [i]" "cn_item ?v = cn_item w" "cn_next_item ?v = cn_next_item w"
    "cn_board ?v = cn_board w" by (simp_all add: build_link_def entry_Link_world list_insert_def)
  have map: "cn_item_map ?v = (cn_item_map w)(ci_parent (cn_item w i) \<mapsto> entry (cn_item_map w) (ci_parent (cn_item w i)) @ [i])"
    by (simp add: build_link_def entry_Link_map list_insert_def)
  have "cn_parent ?v = cn_parent w" by (simp add: cn_parent_def fun_eq_iff eq)
  moreover have "j \<in> set (entry (cn_item_map ?v) (ci_parent (cn_item w j)))" if "j \<in> set (cn_items w @ [i])" for j
    using that assms by (auto simp: map entry_def build_inv_def)
  ultimately show ?thesis using assms unfolding build_inv_def eq by auto
qed

lemma build_links_inv:
  "build_inv zitems w \<Longrightarrow> build_inv [] (fold build_link zitems w) \<and> cn_board (fold build_link zitems w) = cn_board w"
  by (induction zitems arbitrary: w) (use build_link_inv in fastforce)+


definition make_inv :: "nat list \<times> CN_WORLD \<Rightarrow> bool" where
  "make_inv s \<longleftrightarrow> build_inv (fst s) (snd s) \<and> cn_items (snd s) = []"

lemma build_outline_inv:
  assumes "make_inv s" and "bi_type (cn_board (snd s) zone) = PCB_ZONE_T"
  shows "make_inv (build_outline zone layer j s) \<and> cn_board (snd (build_outline zone layer j s)) = cn_board (snd s)"
proof -
  obtain zitems w where s: "s = (zitems, w)" by fastforce
  let ?i = "cn_next_item w" and ?it = "CN_ZONE_LAYER_make zone layer j"
  let ?v = "w\<lparr> cn_item := (cn_item w)(?i := ?it), cn_next_item := ?i + 1 \<rparr>"
  have b: "build_outline zone layer j s = (zitems @ [?i], ?v)" by (simp add: s build_outline_def new_item_def)
  have lt: "z < ?i" if "z \<in> set zitems" for z using assms(1) that by (auto simp: s make_inv_def build_inv_def)
  then have "?i \<notin> set zitems" "\<And>z. z \<in> set zitems \<Longrightarrow> z \<noteq> ?i" by auto
  then show ?thesis
    using assms lt unfolding b
    by (auto simp: s make_inv_def build_inv_def cn_parent_def CN_ZONE_LAYER_make_def CN_ITEM_make_def less_SucI)
qed

lemma build_zone_inv:
  assumes "make_inv s" and "bi_type (cn_board (snd s) zone) = PCB_ZONE_T" and "build_zone zone s = Some s'"
  shows "make_inv s' \<and> cn_board (snd s') = cn_board (snd s)"
proof (cases "bi_on_copper (cn_board (snd s) zone)")
  case True
  obtain zitems w where s: "s = (zitems, w)" by fastforce
  let ?w = "markItemNetAsDirty zone (w\<lparr> cn_item_map := (cn_item_map w)(zone \<mapsto> []) \<rparr>)"
  let ?P = "\<lambda>t. make_inv t \<and> cn_board (snd t) = cn_board w"
  have mark: "cn_item (markItemNetAsDirty p v) = cn_item v \<and> cn_items (markItemNetAsDirty p v) = cn_items v \<and>
      cn_index (markItemNetAsDirty p v) = cn_index v \<and> cn_next_item (markItemNetAsDirty p v) = cn_next_item v \<and>
      cn_board (markItemNetAsDirty p v) = cn_board v" for p v
  proof -
    have one: "cn_item (MarkNetAsDirty n v) = cn_item v \<and> cn_items (MarkNetAsDirty n v) = cn_items v \<and>
        cn_index (MarkNetAsDirty n v) = cn_index v \<and> cn_next_item (MarkNetAsDirty n v) = cn_next_item v \<and>
        cn_board (MarkNetAsDirty n v) = cn_board v" for n v by (simp add: MarkNetAsDirty_def Let_def)
    have "(\<lambda>u. cn_item u = cn_item v \<and> cn_items u = cn_items v \<and> cn_index u = cn_index v \<and> cn_next_item u = cn_next_item v \<and>
        cn_board u = cn_board v) (fold (\<lambda>pad w. MarkNetAsDirty (bi_net (cn_board w pad)) w) ps v)" for ps
      by (rule fold_invariant [where Q = "\<lambda>_. True"]) (simp_all add: one)
    then show ?thesis using one by (simp add: markItemNetAsDirty_def Let_def)
  qed
  obtain ls where s': "s' = LSET_RunOnLayers ls
      (\<lambda>layer s. fold (build_outline zone layer) [0..<length (bi_outlines (cn_board (snd s) zone) layer)] s) (zitems, ?w)"
    using assms(3) True by (auto simp: s build_zone_def Let_def bind_Some_iff)
  have start: "?P (zitems, ?w)" using assms(1) mark by (simp add: s make_inv_def build_inv_def cn_parent_def)
  have step: "?P (build_outline zone l j t)" if "?P t" for l j t
    using build_outline_inv [of t zone l j] that assms(2) by (simp add: s)
  have "?P (fold (build_outline zone l) js t)" if "?P t" for l js t
    by (rule fold_invariant [where Q = "\<lambda>_. True" and P = ?P]) (use that step in blast)+
  then have "?P s'"
    unfolding s' LSET_RunOnLayers_def by (intro fold_invariant [where Q = "\<lambda>_. True" and P = ?P]) (use start in auto)
  then show ?thesis by (simp add: s)
qed (use assms in \<open>simp add: build_zone_def split: prod.splits\<close>)

text \<open>Building from an empty connectivity gives a state of the invariant.\<close>

lemma algo_Build_inv:
  assumes "algo_Build zones tracks footprints drawings (CN_WORLD_make board enabled) = Some w"
    and "\<forall>z \<in> set zones. bi_type (board z) = PCB_ZONE_T" and "board_ok (CN_WORLD_make board enabled)"
  shows "reach_inv w"
proof -
  let ?w0 = "CN_WORLD_make board enabled"
  obtain zitems w1 w3 w4 where w1: "fold_opt build_zone zones ([], ?w0) = Some (zitems, w1)"
    and w3: "algo_Adds tracks (fold build_link zitems w1) = Some w3"
    and w4: "algo_Adds (concat (map (\<lambda>footprint. bi_pads (cn_board w3 footprint)) footprints)) w3 = Some w4"
    and w: "algo_Adds (filter (\<lambda>d. bi_type (cn_board w4 d) = PCB_SHAPE_T \<and> bi_on_copper (cn_board w4 d)) drawings) w4 = Some w"
    using assms(1) by (auto simp: algo_Build_def Let_def bind_Some_iff)
  let ?P = "\<lambda>t. make_inv t \<and> cn_board (snd t) = board"
  have "?P (zitems, w1)"
  proof (rule fold_opt_keeps [where P = ?P, OF _ _ w1])
    show "?P ([], ?w0)" by (simp add: make_inv_def build_inv_def CN_WORLD_make_def)
    show "?P s'" if "z \<in> set zones" "?P s" "build_zone z s = Some s'" for z s s'
      using build_zone_inv [of s z s'] that assms(2) by simp
  qed
  then have "build_inv zitems w1" "cn_board w1 = board" by (simp_all add: make_inv_def)
  with build_links_inv [of zitems w1] build_inv_cn_inv have "cn_inv (fold build_link zitems w1)"
    "cn_board (fold build_link zitems w1) = board" by auto
  then have "reach_inv (fold build_link zitems w1)" using assms(3) by (simp add: reach_inv_def board_ok_def CN_WORLD_make_def)
  then show ?thesis using algo_Adds_inv w3 w4 w by blast
qed

end
