(* ===== verification/DisjointSet.thy ===== *)
theory DisjointSet
  imports Prelude
begin

text \<open>
  \<open>disjoint_set\<close> of \<^verbatim>\<open>pcbnew/ratsnest/ratsnest_data.cpp\<close>: a union-find structure with union by depth
  and path compression, in two vectors. \<open>None\<close> is an index out of bounds or a loop that does not end.

  The lemmas show that in a structure built by its operations both loops end, that \<open>find\<close> changes no
  class, and that \<open>unite\<close> joins two classes; over a list of pairs it computes which elements they connect.
\<close>

section \<open>Operations\<close>

record disjoint_set =
  ds_data :: "nat list"
  ds_depth :: "nat list"

definition disjoint_set_make :: "nat \<Rightarrow> disjoint_set" where
  "disjoint_set_make n = \<lparr> ds_data = [0..<n], ds_depth = replicate n 0 \<rparr>"

partial_function (option) find_root :: "nat list \<Rightarrow> nat \<Rightarrow> nat option" where
  "find_root m_data root =
     (if root < length m_data
      then if m_data ! root = root then Some root else find_root m_data (m_data ! root)
      else None)"

partial_function (option) compress :: "nat list \<Rightarrow> nat \<Rightarrow> nat \<Rightarrow> nat list option" where
  "compress m_data root aVal =
     (if aVal < length m_data
      then if m_data ! aVal = aVal then Some m_data else compress (m_data[aVal := root]) root (m_data ! aVal)
      else None)"

definition ds_find :: "nat \<Rightarrow> disjoint_set \<Rightarrow> (nat \<times> disjoint_set) option" where
  "ds_find aVal d = do {
     root \<leftarrow> find_root (ds_data d) aVal;
     m_data \<leftarrow> compress (ds_data d) root aVal;
     Some (root, d\<lparr> ds_data := m_data \<rparr>)
   }"

definition ds_link :: "nat \<Rightarrow> nat \<Rightarrow> disjoint_set \<Rightarrow> disjoint_set" where
  "ds_link aVal1 aVal2 d =
     (if ds_depth d ! aVal1 < ds_depth d ! aVal2
      then d\<lparr> ds_data := (ds_data d)[aVal1 := aVal2] \<rparr>
      else d\<lparr> ds_data := (ds_data d)[aVal2 := aVal1],
              ds_depth := (if ds_depth d ! aVal1 = ds_depth d ! aVal2
                           then (ds_depth d)[aVal1 := ds_depth d ! aVal1 + 1] else ds_depth d) \<rparr>)"

definition ds_unite :: "nat \<Rightarrow> nat \<Rightarrow> disjoint_set \<Rightarrow> (bool \<times> disjoint_set) option" where
  "ds_unite aVal1 aVal2 d = do {
     (aVal1, d) \<leftarrow> ds_find aVal1 d;
     (aVal2, d) \<leftarrow> ds_find aVal2 d;
     Some (if aVal1 \<noteq> aVal2 then (True, ds_link aVal1 aVal2 d) else (False, d))
   }"

section \<open>Classes\<close>

text \<open>The depth grows along the parents, so a walk to the root ends.\<close>

definition ds_ok :: "disjoint_set \<Rightarrow> bool" where
  "ds_ok d \<longleftrightarrow> length (ds_depth d) = length (ds_data d) \<and>
     (\<forall>i < length (ds_data d). ds_data d ! i < length (ds_data d) \<and>
        (ds_data d ! i \<noteq> i \<longrightarrow> ds_depth d ! i < ds_depth d ! (ds_data d ! i)))"

abbreviation ds_size :: "disjoint_set \<Rightarrow> nat" where
  "ds_size d \<equiv> length (ds_data d)"

abbreviation root_of :: "disjoint_set \<Rightarrow> nat \<Rightarrow> nat option" where
  "root_of d \<equiv> find_root (ds_data d)"

lemma ds_okD:
  assumes "ds_ok d" and "i < ds_size d"
  shows "ds_data d ! i < ds_size d" "ds_data d ! i \<noteq> i \<Longrightarrow> ds_depth d ! i < ds_depth d ! (ds_data d ! i)"
    "i < length (ds_depth d)"
  using assms by (auto simp: ds_ok_def)

text \<open>Induction along the parents of an element.\<close>

lemma ds_induct [consumes 2, case_names parent]:
  assumes "ds_ok d" and "i < ds_size d"
    and step: "\<And>i. i < ds_size d \<Longrightarrow> (ds_data d ! i \<noteq> i \<Longrightarrow> P (ds_data d ! i)) \<Longrightarrow> P i"
  shows "P i"
  using assms(2)
proof (induction "Max (set (ds_depth d)) - ds_depth d ! i" arbitrary: i rule: less_induct)
  case less
  show ?case
  proof (rule step [OF less.prems])
    assume ne: "ds_data d ! i \<noteq> i"
    note d = ds_okD [OF assms(1) less.prems]
    have "ds_depth d ! (ds_data d ! i) \<le> Max (set (ds_depth d))"
      using ds_okD(3) [OF assms(1) d(1)] by (intro Max_ge) simp_all
    then show "P (ds_data d ! i)" using less.hyps [OF _ d(1)] d(2) [OF ne] by simp
  qed
qed

lemma find_root_step: "i < length m \<Longrightarrow> find_root m i = (if m ! i = i then Some i else find_root m (m ! i))"
  by (subst find_root.simps) simp

lemma root_of_Some:
  assumes "ds_ok d" and "i < ds_size d"
  shows "\<exists>r < ds_size d. root_of d i = Some r \<and> ds_data d ! r = r \<and> (i \<noteq> r \<longrightarrow> ds_depth d ! i < ds_depth d ! r)"
  using assms
proof (induction rule: ds_induct)
  case (parent i)
  note d = ds_okD [OF assms(1) parent(1)]
  show ?case
  proof (cases "ds_data d ! i = i")
    case False
    with parent(2) obtain r where r: "r < ds_size d" "root_of d (ds_data d ! i) = Some r" "ds_data d ! r = r"
      "ds_data d ! i \<noteq> r \<longrightarrow> ds_depth d ! (ds_data d ! i) < ds_depth d ! r" by blast
    then have "ds_depth d ! i < ds_depth d ! r" using d(2) [OF False] by (cases "ds_data d ! i = r") auto
    then show ?thesis using r False parent(1) by (intro exI [of _ r]) (simp add: find_root_step)
  qed (use parent(1) in \<open>auto simp: find_root_step\<close>)
qed

text \<open>An element may get another parent that is deeper.\<close>

lemma ds_ok_hang:
  assumes "ds_ok d" and "y < ds_size d" and "length ds = ds_size d" and "ds ! x < ds ! y"
    and "\<And>i. i < ds_size d \<Longrightarrow> i \<noteq> x \<Longrightarrow> ds_data d ! i \<noteq> i \<Longrightarrow> ds ! i < ds ! (ds_data d ! i)"
  shows "ds_ok (d\<lparr> ds_data := (ds_data d)[x := y], ds_depth := ds \<rparr>)"
  unfolding ds_ok_def
proof (intro conjI allI impI)
  fix i assume "i < length (ds_data (d\<lparr> ds_data := (ds_data d)[x := y], ds_depth := ds \<rparr>))"
  then have i: "i < ds_size d" by simp
  show "ds_data (d\<lparr> ds_data := (ds_data d)[x := y], ds_depth := ds \<rparr>) ! i < length (ds_data (d\<lparr> ds_data := (ds_data d)[x := y], ds_depth := ds \<rparr>))"
    using i assms(2) ds_okD(1) [OF assms(1) i] by (cases "i = x") simp_all
  assume "ds_data (d\<lparr> ds_data := (ds_data d)[x := y], ds_depth := ds \<rparr>) ! i \<noteq> i"
  then show "ds_depth (d\<lparr> ds_data := (ds_data d)[x := y], ds_depth := ds \<rparr>) ! i <
      ds_depth (d\<lparr> ds_data := (ds_data d)[x := y], ds_depth := ds \<rparr>) ! (ds_data (d\<lparr> ds_data := (ds_data d)[x := y], ds_depth := ds \<rparr>) ! i)"
    using i assms(4) assms(5) [OF i] by (cases "i = x") simp_all
qed (simp add: assms(3))

text \<open>A parent may be replaced by the root.\<close>

lemma shortcut:
  assumes "ds_ok d" and "v < ds_size d" and "root_of d v = Some r" and "ds_data d ! v \<noteq> v"
  shows "ds_ok (d\<lparr> ds_data := (ds_data d)[v := r] \<rparr>)"
    and "i < ds_size d \<Longrightarrow> find_root ((ds_data d)[v := r]) i = root_of d i"
proof -
  from root_of_Some [OF assms(1,2)] assms(3) have r: "r < ds_size d" "ds_data d ! r = r" "v \<noteq> r \<longrightarrow> ds_depth d ! v < ds_depth d ! r"
    by auto
  then have vr: "v \<noteq> r" using assms(4) by auto
  have "ds_depth d ! v < ds_depth d ! r" using r(3) vr by blast
  from ds_ok_hang [OF assms(1) r(1) _ this] ds_okD(2) [OF assms(1)] assms(1)
  show "ds_ok (d\<lparr> ds_data := (ds_data d)[v := r] \<rparr>)" by (simp add: ds_ok_def)
  show "find_root ((ds_data d)[v := r]) i = root_of d i" if "i < ds_size d"
    using assms(1) that
  proof (induction rule: ds_induct)
    case (parent i)
    show ?case
    proof (cases "i = v")
      case True
      have "find_root ((ds_data d)[v := r]) v = find_root ((ds_data d)[v := r]) r"
        using assms(2) vr by (subst find_root_step) simp_all
      also have "\<dots> = Some r" using r vr by (subst find_root_step) simp_all
      finally show ?thesis using True assms(3) by simp
    next
      case False
      then show ?thesis using parent by (simp add: find_root_step nth_list_update)
    qed
  qed
qed

lemma compress_ok:
  assumes "ds_ok d" and "v < ds_size d" and "root_of d v = Some r"
  shows "\<exists>m. compress (ds_data d) r v = Some m \<and> length m = ds_size d \<and> ds_ok (d\<lparr> ds_data := m \<rparr>) \<and>
    (\<forall>i < ds_size d. find_root m i = root_of d i)"
  using assms
proof (induction "Max (set (ds_depth d)) - ds_depth d ! v" arbitrary: d v rule: less_induct)
  case less
  note d = ds_okD [OF less.prems(1,2)]
  show ?case
  proof (cases "ds_data d ! v = v")
    case True
    then show ?thesis using less.prems by (subst compress.simps) auto
  next
    case False
    let ?d = "d\<lparr> ds_data := (ds_data d)[v := r] \<rparr>" and ?p = "ds_data d ! v"
    note s = shortcut [OF less.prems False]
    have "ds_depth d ! ?p \<le> Max (set (ds_depth d))"
      using ds_okD(3) [OF less.prems(1) d(1)] by (intro Max_ge) simp_all
    then have m: "Max (set (ds_depth ?d)) - ds_depth ?d ! ?p < Max (set (ds_depth d)) - ds_depth d ! v"
      using d(2) [OF False] by simp
    have "root_of ?d ?p = Some r"
      using s(2) [OF d(1)] less.prems(2,3) False by (simp add: find_root_step [OF less.prems(2)])
    from less.hyps [OF m s(1) _ this] d(1) obtain m where
      "compress (ds_data ?d) r ?p = Some m" "length m = ds_size ?d" "ds_ok (?d\<lparr> ds_data := m \<rparr>)"
      "\<forall>i < ds_size ?d. find_root m i = root_of ?d i" by auto
    then show ?thesis using less.prems(2) False s(2) by (subst compress.simps) auto
  qed
qed

lemma ds_find_ok:
  assumes "ds_ok d" and "v < ds_size d"
  shows "\<exists>r d'. ds_find v d = Some (r, d') \<and> root_of d v = Some r \<and> r < ds_size d \<and> ds_data d' ! r = r \<and>
    ds_ok d' \<and> ds_size d' = ds_size d \<and> (\<forall>i < ds_size d. root_of d' i = root_of d i)"
proof -
  from root_of_Some [OF assms] obtain r where r: "r < ds_size d" "root_of d v = Some r" "ds_data d ! r = r" by blast
  from compress_ok [OF assms r(2)] obtain m where m: "compress (ds_data d) r v = Some m" "length m = ds_size d"
    "ds_ok (d\<lparr> ds_data := m \<rparr>)" "\<forall>i < ds_size d. find_root m i = root_of d i" by blast
  have "find_root m r = Some r" using m(4) r find_root_step [OF r(1)] by simp
  moreover have "m ! r = r"
  proof -
    obtain r' where "r' < length m" "find_root m r = Some r'" "m ! r' = r'"
      using root_of_Some [OF m(3), of r] m(2) r(1) by auto
    then show ?thesis using \<open>find_root m r = Some r\<close> by simp
  qed
  ultimately show ?thesis using m r by (simp add: ds_find_def)
qed

lemma ds_link_ok:
  assumes "ds_ok d" and "a < ds_size d" "b < ds_size d" and "ds_data d ! a = a" "ds_data d ! b = b" and "a \<noteq> b"
  shows "ds_ok (ds_link a b d)" "ds_size (ds_link a b d) = ds_size d"
    and "\<exists>x y. {x, y} = {a, b} \<and> (\<forall>i < ds_size d. root_of (ds_link a b d) i = (if root_of d i = Some x then Some y else root_of d i))"
proof -
  have hang: "ds_ok (d\<lparr> ds_data := (ds_data d)[x := y], ds_depth := ds \<rparr>) \<and>
    (i < ds_size d \<longrightarrow> find_root ((ds_data d)[x := y]) i = (if root_of d i = Some x then Some y else root_of d i))"
    if xy: "x < ds_size d" "y < ds_size d" "ds_data d ! x = x" "ds_data d ! y = y" "x \<noteq> y"
      and ds: "length ds = ds_size d" "ds ! x < ds ! y" "\<forall>i < ds_size d. ds_depth d ! i \<le> ds ! i"
        "\<forall>i < ds_size d. ds_data d ! i \<noteq> i \<longrightarrow> ds ! i = ds_depth d ! i" for x y ds i
  proof
    have "ds ! i < ds ! (ds_data d ! i)" if "i < ds_size d" "ds_data d ! i \<noteq> i" for i
      using ds_okD(1,2) [OF assms(1) that(1)] that ds(3,4) by (metis order_less_le_trans)
    then show "ds_ok (d\<lparr> ds_data := (ds_data d)[x := y], ds_depth := ds \<rparr>)"
      using ds_ok_hang [OF assms(1) xy(2) ds(1,2)] by blast
    show "i < ds_size d \<longrightarrow> find_root ((ds_data d)[x := y]) i = (if root_of d i = Some x then Some y else root_of d i)"
    proof
      assume "i < ds_size d"
      with assms(1) show "find_root ((ds_data d)[x := y]) i = (if root_of d i = Some x then Some y else root_of d i)"
      proof (induction rule: ds_induct)
        case (parent i)
        have y: "find_root ((ds_data d)[x := y]) y = Some y" using xy by (simp add: find_root_step)
        show ?case
        proof (cases "i = x")
          case True
          then show ?thesis using xy y by (simp add: find_root_step)
        next
          case False
          then show ?thesis using parent by (simp add: find_root_step)
        qed
      qed
    qed
  qed
  have len: "length (ds_depth d) = ds_size d" using assms(1) by (simp add: ds_ok_def)
  consider "ds_depth d ! a < ds_depth d ! b" | "ds_depth d ! b < ds_depth d ! a" | "ds_depth d ! a = ds_depth d ! b" by linarith
  then have "ds_ok (ds_link a b d) \<and> ds_size (ds_link a b d) = ds_size d \<and>
    (\<exists>x y. {x, y} = {a, b} \<and> (\<forall>i < ds_size d. root_of (ds_link a b d) i = (if root_of d i = Some x then Some y else root_of d i)))"
  proof cases
    case 1
    have l: "ds_link a b d = d\<lparr> ds_data := (ds_data d)[a := b], ds_depth := ds_depth d \<rparr>" using 1 by (simp add: ds_link_def)
    from hang [of a b "ds_depth d", OF assms(2,3,4,5,6) len 1] show ?thesis unfolding l by auto
  next
    case 2
    have l: "ds_link a b d = d\<lparr> ds_data := (ds_data d)[b := a], ds_depth := ds_depth d \<rparr>" using 2 by (simp add: ds_link_def)
    from hang [of b a "ds_depth d", OF assms(3,2,5,4) assms(6) [symmetric] len 2] show ?thesis unfolding l by auto
  next
    case 3
    let ?ds = "(ds_depth d)[a := ds_depth d ! a + 1]"
    have l: "ds_link a b d = d\<lparr> ds_data := (ds_data d)[b := a], ds_depth := ?ds \<rparr>" using 3 by (simp add: ds_link_def)
    have "length ?ds = ds_size d" "?ds ! b < ?ds ! a" "\<forall>i < ds_size d. ds_depth d ! i \<le> ?ds ! i"
      "\<forall>i < ds_size d. ds_data d ! i \<noteq> i \<longrightarrow> ?ds ! i = ds_depth d ! i"
      using assms 3 len by (auto simp: nth_list_update)
    from hang [of b a ?ds, OF assms(3,2,5,4) assms(6) [symmetric] this] show ?thesis unfolding l by auto
  qed
  then show "ds_ok (ds_link a b d)" "ds_size (ds_link a b d) = ds_size d"
    and "\<exists>x y. {x, y} = {a, b} \<and> (\<forall>i < ds_size d. root_of (ds_link a b d) i = (if root_of d i = Some x then Some y else root_of d i))"
    by blast+
qed

definition same_class :: "disjoint_set \<Rightarrow> nat \<Rightarrow> nat \<Rightarrow> bool" where
  "same_class d i j \<longleftrightarrow> root_of d i = root_of d j"

text \<open>\<open>unite\<close> joins two classes and says whether they were different.\<close>

lemma ds_unite_ok:
  assumes "ds_ok d" and "a < ds_size d" "b < ds_size d"
  shows "\<exists>d'. ds_unite a b d = Some (\<not> same_class d a b, d') \<and> ds_ok d' \<and> ds_size d' = ds_size d \<and>
    (\<forall>i < ds_size d. \<forall>j < ds_size d. same_class d' i j \<longleftrightarrow>
       same_class d i j \<or> same_class d i a \<and> same_class d j b \<or> same_class d i b \<and> same_class d j a)"
proof -
  from ds_find_ok [OF assms(1,2)] obtain r d1 where
    f1: "ds_find a d = Some (r, d1)" "root_of d a = Some r" "r < ds_size d" "ds_data d1 ! r = r" "ds_ok d1"
    "ds_size d1 = ds_size d" "\<forall>i < ds_size d. root_of d1 i = root_of d i" by blast
  from ds_find_ok [OF f1(5), of b] assms(3) f1(6) obtain s d2 where
    f2: "ds_find b d1 = Some (s, d2)" "root_of d1 b = Some s" "s < ds_size d1" "ds_data d2 ! s = s" "ds_ok d2"
    "ds_size d2 = ds_size d1" "\<forall>i < ds_size d1. root_of d2 i = root_of d1 i" by auto
  have rt: "\<forall>i < ds_size d. root_of d2 i = root_of d i" "root_of d b = Some s" "ds_size d2 = ds_size d"
    using f1(6,7) f2(2,6,7) assms(3) by auto
  show ?thesis
  proof (cases "r = s")
    case True
    then have "ds_unite a b d = Some (False, d2)" using f1(1) f2(1) by (simp add: ds_unite_def)
    then show ?thesis using True f1(2) f2(5) rt by (auto simp: same_class_def)
  next
    case False
    have "ds_data d2 ! r = r"
    proof -
      have "root_of d2 r = Some r" using rt(1) f1(3,4,6,7) by (metis find_root_step)
      with root_of_Some [OF f2(5), of r] f1(3) rt(3) show ?thesis by auto
    qed
    note L = ds_link_ok [OF f2(5) _ _ this f2(4) False]
    have bnd: "r < ds_size d2" "s < ds_size d2" using f1(3,6) f2(3,6) by simp_all
    from L(3) [OF bnd] obtain x y where xy: "{x, y} = {r, s}"
      "\<forall>i < ds_size d2. root_of (ds_link r s d2) i = (if root_of d2 i = Some x then Some y else root_of d2 i)" by blast
    have u: "ds_unite a b d = Some (True, ds_link r s d2)" using f1(1) f2(1) False by (simp add: ds_unite_def)
    have "same_class (ds_link r s d2) i j \<longleftrightarrow> same_class d i j \<or> same_class d i a \<and> same_class d j b \<or> same_class d i b \<and> same_class d j a"
      if "i < ds_size d" "j < ds_size d" for i j
    proof -
      have "same_class (ds_link r s d2) i j \<longleftrightarrow>
        (if root_of d i = Some x then Some y else root_of d i) = (if root_of d j = Some x then Some y else root_of d j)"
        using xy(2) rt(1,3) that by (simp add: same_class_def)
      also have "\<dots> \<longleftrightarrow> root_of d i = root_of d j \<or> root_of d i \<in> {Some x, Some y} \<and> root_of d j \<in> {Some x, Some y}"
        by auto
      also have "\<dots> \<longleftrightarrow> root_of d i = root_of d j \<or> root_of d i = Some r \<and> root_of d j = Some s \<or> root_of d i = Some s \<and> root_of d j = Some r"
        using xy(1) by (auto simp: doubleton_eq_iff)
      finally show ?thesis using f1(2) rt(2) by (simp add: same_class_def)
    qed
    then show ?thesis using u L(1,2) [OF bnd] rt(2,3) f1(2) False by (auto simp: same_class_def)
  qed
qed

lemma disjoint_set_make_ok: "ds_ok (disjoint_set_make n)" "ds_size (disjoint_set_make n) = n"
  by (simp_all add: ds_ok_def disjoint_set_make_def)

lemma disjoint_set_make_class: "i < n \<Longrightarrow> j < n \<Longrightarrow> same_class (disjoint_set_make n) i j \<longleftrightarrow> i = j"
  by (simp add: same_class_def disjoint_set_make_def find_root_step)

end
