(* ===== verification/Ratsnest.thy ===== *)
theory Ratsnest
  imports CnAlgo DisjointSet SpanningForest
begin

text \<open>
  The ratsnest of a net, class \<open>RN_NET\<close> of \<^verbatim>\<open>pcbnew/ratsnest/ratsnest_data.h\<close> and \<^verbatim>\<open>.cpp\<close>: the nodes of a
  net are the anchors of its items, the board edges join the anchors of a cluster, and the ratsnest
  is what a spanning tree of least weight has beyond them.

  The triangulation of the nodes is a library (delaunator) and the length of a line is computed in
  floating point: both are parameters, the record \<open>RN_PARAMS\<close>. Coordinates are integers; the code
  subtracts them at 32 bits and squares at 64, where the overflow of a signed integer has no meaning.
  \<open>None\<close> is an access out of bounds. Edges of equal weight are sorted stably. \<open>OptimizeRNEdges\<close> is left out.
\<close>

section \<open>Edges and nodes\<close>

record CN_EDGE =
  ed_source :: "nat option"
  ed_target :: "nat option"
  ed_weight :: nat
  ed_visible :: bool

definition CN_EDGE_make :: "nat \<Rightarrow> nat \<Rightarrow> nat \<Rightarrow> CN_EDGE" where
  "CN_EDGE_make aSource aTarget aWeight =
     \<lparr> ed_source = Some aSource, ed_target = Some aTarget, ed_weight = aWeight, ed_visible = True \<rparr>"

definition edge_RemoveInvalidRefs :: "CN_WORLD \<Rightarrow> CN_EDGE \<Rightarrow> CN_EDGE" where
  "edge_RemoveInvalidRefs w e =
     (let keep = (\<lambda>node. case node of None \<Rightarrow> None | Some a \<Rightarrow> if anchor_Valid w a then Some a else None)
      in e\<lparr> ed_source := keep (ed_source e), ed_target := keep (ed_target e) \<rparr>)"

record RN_NET =
  rn_nodes :: "nat list"
  rn_boardEdges :: "CN_EDGE list"
  rn_rnEdges :: "CN_EDGE list"
  rn_dirty :: bool

record RN_PARAMS =
  rp_diag :: "int \<Rightarrow> int"
  rp_hypot :: "int \<Rightarrow> int \<Rightarrow> int"
  rp_triangles :: "(int \<times> int) list \<Rightarrow> nat list"
  rp_halfedges :: "(int \<times> int) list \<Rightarrow> nat option list"

definition an_Pos :: "CN_WORLD \<Rightarrow> nat \<Rightarrow> int \<times> int" where
  "an_Pos w a = an_pos (cn_anchor w a)"

definition upd_anchor :: "nat \<Rightarrow> (CN_ANCHOR \<Rightarrow> CN_ANCHOR) \<Rightarrow> CN_WORLD \<Rightarrow> CN_WORLD" where
  "upd_anchor a f w = w\<lparr> cn_anchor := (cn_anchor w)(a := f (cn_anchor w a)) \<rparr>"

definition SetTag :: "int \<Rightarrow> nat \<Rightarrow> CN_WORLD \<Rightarrow> CN_WORLD" where
  "SetTag aTag a w = upd_anchor a (\<lambda>an. an\<lparr> an_tag := aTag \<rparr>) w"

definition SetCluster :: "nat \<Rightarrow> nat \<Rightarrow> CN_WORLD \<Rightarrow> CN_WORLD" where
  "SetCluster aCluster a w = upd_anchor a (\<lambda>an. an\<lparr> an_cluster := Some aCluster \<rparr>) w"

text \<open>\<open>CN_PTR_CMP\<close>, and the insertion into a multiset that it orders: behind the equal ones.\<close>

definition CN_PTR_CMP :: "CN_WORLD \<Rightarrow> nat \<Rightarrow> nat \<Rightarrow> bool" where
  "CN_PTR_CMP w a b \<longleftrightarrow>
     (if fst (an_Pos w a) = fst (an_Pos w b) then snd (an_Pos w a) < snd (an_Pos w b)
      else fst (an_Pos w a) < fst (an_Pos w b))"

definition nodes_insert :: "CN_WORLD \<Rightarrow> nat \<Rightarrow> nat list \<Rightarrow> nat list" where
  "nodes_insert w a ns = takeWhile (\<lambda>b. \<not> CN_PTR_CMP w a b) ns @ a # dropWhile (\<lambda>b. \<not> CN_PTR_CMP w a b) ns"

definition EuclideanNorm :: "RN_PARAMS \<Rightarrow> int \<times> int \<Rightarrow> int" where
  "EuclideanNorm p v =
     (if \<bar>fst v\<bar> = \<bar>snd v\<bar> then rp_diag p \<bar>fst v\<bar>
      else if fst v = 0 then \<bar>snd v\<bar>
      else if snd v = 0 then \<bar>fst v\<bar>
      else rp_hypot p (fst v) (snd v))"

definition v_minus :: "int \<times> int \<Rightarrow> int \<times> int \<Rightarrow> int \<times> int" where
  "v_minus a b = (fst a - fst b, snd a - snd b)"

definition v_Cross :: "int \<times> int \<Rightarrow> int \<times> int \<Rightarrow> int" where
  "v_Cross a b = fst a * snd b - snd a * fst b"

definition SquaredEuclideanNorm :: "int \<times> int \<Rightarrow> int" where
  "SquaredEuclideanNorm v = fst v * fst v + snd v * snd v"

text \<open>The distance of two anchors as an unsigned integer.\<close>

definition anchor_Dist :: "RN_PARAMS \<Rightarrow> CN_WORLD \<Rightarrow> nat \<Rightarrow> nat \<Rightarrow> nat" where
  "anchor_Dist p w a b = nat (EuclideanNorm p (v_minus (an_Pos w a) (an_Pos w b)) mod 2 ^ 32)"

section \<open>The spanning tree\<close>

fun set_tags :: "nat \<Rightarrow> nat list \<Rightarrow> CN_WORLD \<Rightarrow> CN_WORLD" where
  "set_tags i [] w = w"
| "set_tags i (node # nodes) w = set_tags (i + 1) nodes (SetTag (int i) node w)"

text \<open>A missing or dirty node fails an assertion and the edge is skipped.\<close>

definition kruskal_edge :: "CN_WORLD \<Rightarrow> CN_EDGE \<Rightarrow> disjoint_set \<times> CN_EDGE list \<Rightarrow> (disjoint_set \<times> CN_EDGE list) option" where
  "kruskal_edge w tmp s =
     (case (s, ed_source tmp, ed_target tmp) of
        ((dset, m_rnEdges), Some source, Some target) \<Rightarrow>
          if anchor_Dirty w source \<or> anchor_Dirty w target then Some s
          else if an_tag (cn_anchor w source) < 0 \<or> an_tag (cn_anchor w target) < 0 then None
          else (case ds_unite (nat (an_tag (cn_anchor w source))) (nat (an_tag (cn_anchor w target))) dset of
                  None \<Rightarrow> None
                | Some (joined, dset) \<Rightarrow>
                    Some (dset, if joined \<and> ed_weight tmp > 0 then m_rnEdges @ [tmp] else m_rnEdges))
      | _ \<Rightarrow> Some s)"

definition kruskalMST :: "CN_EDGE list \<Rightarrow> RN_NET \<Rightarrow> CN_WORLD \<Rightarrow> (RN_NET \<times> CN_WORLD) option" where
  "kruskalMST aEdges net w = do {
     let dset = disjoint_set_make (length (rn_nodes net));
     let w = set_tags 0 (rn_nodes net) w;
     (dset, m_rnEdges) \<leftarrow> fold_opt (kruskal_edge w) aEdges (dset, []);
     Some (net\<lparr> rn_rnEdges := m_rnEdges \<rparr>, w)
   }"

section \<open>The triangulation\<close>

definition areNodesColinear :: "CN_WORLD \<Rightarrow> nat list \<Rightarrow> bool" where
  "areNodesColinear w aNodes \<longleftrightarrow> length aNodes \<le> 2 \<or>
     (let p0 = an_Pos w (aNodes ! 0); v0 = v_minus (an_Pos w (aNodes ! 1)) p0
      in list_all (\<lambda>i. v_Cross v0 (v_minus (an_Pos w (aNodes ! i)) p0) = 0) [2..<length aNodes])"

text \<open>One anchor for each position, and the nodes at each of them.\<close>

definition add_to_chain :: "CN_WORLD \<Rightarrow> nat \<Rightarrow> nat list \<times> nat list list \<Rightarrow> nat list \<times> nat list list" where
  "add_to_chain w n s =
     (case s of (anchors, anchorChains) \<Rightarrow>
        if anchors = [] \<or> an_Pos w (last anchors) \<noteq> an_Pos w n then (anchors @ [n], anchorChains @ [[n]])
        else (anchors, butlast anchorChains @ [last anchorChains @ [n]]))"

definition consecutive :: "'a list \<Rightarrow> ('a \<times> 'a) list" where
  "consecutive xs = zip xs (tl xs)"

definition cluster_key :: "CN_WORLD \<Rightarrow> nat \<Rightarrow> nat" where
  "cluster_key w a = (case an_cluster (cn_anchor w a) of None \<Rightarrow> 0 | Some c \<Rightarrow> c + 1)"

definition chain_edges :: "CN_WORLD \<Rightarrow> nat list \<Rightarrow> CN_EDGE list" where
  "chain_edges w chain =
     map (\<lambda>(prevNode, curNode). CN_EDGE_make prevNode curNode
            (if an_cluster (cn_anchor w prevNode) \<noteq> an_cluster (cn_anchor w curNode) then 1 else 0))
       (consecutive (sort_key (cluster_key w) chain))"

definition triangle_pairs :: "nat list \<Rightarrow> (nat \<times> nat) list" where
  "triangle_pairs triangles =
     concat (map (\<lambda>i. [(triangles ! (3 * i), triangles ! (3 * i + 1)), (triangles ! (3 * i + 1), triangles ! (3 * i + 2)),
                       (triangles ! (3 * i + 2), triangles ! (3 * i))]) [0..<length triangles div 3])"

definition halfedge_pairs :: "nat list \<Rightarrow> nat option list \<Rightarrow> (nat \<times> nat) list" where
  "halfedge_pairs triangles halfedges =
     concat (map (\<lambda>i. case halfedges ! i of None \<Rightarrow> [] | Some h \<Rightarrow> [(triangles ! i, triangles ! h)]) [0..<length halfedges])"

definition Triangulate :: "RN_PARAMS \<Rightarrow> CN_WORLD \<Rightarrow> nat list \<Rightarrow> CN_EDGE list" where
  "Triangulate p w m_allNodes =
     (case fold (add_to_chain w) m_allNodes ([], []) of (anchors, anchorChains) \<Rightarrow>
        let addEdge = (\<lambda>(src, dst). CN_EDGE_make src dst (anchor_Dist p w src dst));
            node_pts = map (an_Pos w) anchors;
            triangles = rp_triangles p node_pts
        in if length anchors < 2 then []
           else (if areNodesColinear w anchors then map addEdge (consecutive anchors)
                 else map (\<lambda>(i, j). addEdge (anchors ! i, anchors ! j))
                        (triangle_pairs triangles @ halfedge_pairs triangles (rp_halfedges p node_pts)))
                @ concat (map (chain_edges w) anchorChains))"

section \<open>The net\<close>

definition RN_NET_make :: RN_NET where
  "RN_NET_make = \<lparr> rn_nodes = [], rn_boardEdges = [], rn_rnEdges = [], rn_dirty = True \<rparr>"

definition rn_compute :: "RN_PARAMS \<Rightarrow> RN_NET \<Rightarrow> CN_WORLD \<Rightarrow> (RN_NET \<times> CN_WORLD) option" where
  "rn_compute p net w =
     (if length (rn_nodes net) \<le> 2
      then (if rn_boardEdges net = [] \<and> length (rn_nodes net) = 2
            then let source = rn_nodes net ! 0; target = rn_nodes net ! 1
                 in Some (net\<lparr> rn_rnEdges := [CN_EDGE_make source target 0] \<rparr>, SetTag 1 target (SetTag 0 source w))
            else Some (net\<lparr> rn_rnEdges := [] \<rparr>, fold (SetTag 0) (rn_nodes net) w))
      else let m_allNodes = fold (nodes_insert w) (rn_nodes net) [];
               triangEdges = Triangulate p w m_allNodes @ rn_boardEdges net
           in kruskalMST (sort_key ed_weight triangEdges) net w)"

definition UpdateNet :: "RN_PARAMS \<Rightarrow> RN_NET \<Rightarrow> CN_WORLD \<Rightarrow> (RN_NET \<times> CN_WORLD) option" where
  "UpdateNet p net w = map_option (\<lambda>(net, w). (net\<lparr> rn_dirty := False \<rparr>, w)) (rn_compute p net w)"

definition rn_RemoveInvalidRefs :: "CN_WORLD \<Rightarrow> RN_NET \<Rightarrow> RN_NET" where
  "rn_RemoveInvalidRefs w net =
     net\<lparr> rn_rnEdges := map (edge_RemoveInvalidRefs w) (rn_rnEdges net),
          rn_boardEdges := map (edge_RemoveInvalidRefs w) (rn_boardEdges net) \<rparr>"

definition rn_Clear :: "RN_NET \<Rightarrow> RN_NET" where
  "rn_Clear net = net\<lparr> rn_rnEdges := [], rn_boardEdges := [], rn_nodes := [], rn_dirty := True \<rparr>"

definition add_anchor :: "nat \<Rightarrow> nat \<Rightarrow> nat option \<times> RN_NET \<times> CN_WORLD \<Rightarrow> nat option \<times> RN_NET \<times> CN_WORLD" where
  "add_anchor aCluster a s =
     (case s of (firstAnchor, net, w) \<Rightarrow>
        let w = SetCluster aCluster a w; net = net\<lparr> rn_nodes := nodes_insert w a (rn_nodes net) \<rparr>
        in case firstAnchor of
             None \<Rightarrow> (Some a, net, w)
           | Some f \<Rightarrow>
               (firstAnchor, if f \<noteq> a then net\<lparr> rn_boardEdges := rn_boardEdges net @ [CN_EDGE_make f a 0] \<rparr> else net, w))"

text \<open>Of the outline of a zone only the first anchor is a node.\<close>

definition node_anchors :: "CN_WORLD \<Rightarrow> nat \<Rightarrow> nat list" where
  "node_anchors w item =
     (let anchors = ci_anchors (cn_item w item)
      in if ci_zone_layer (cn_item w item) \<noteq> None then take 1 anchors else anchors)"

definition AddCluster :: "nat \<Rightarrow> nat list \<Rightarrow> RN_NET \<Rightarrow> CN_WORLD \<Rightarrow> RN_NET \<times> CN_WORLD" where
  "AddCluster aCluster items net w =
     snd (fold (\<lambda>item s. fold (add_anchor aCluster) (node_anchors w item) s) items (None, net, w))"

section \<open>The nearest pair of two nets\<close>

definition ECOORD_MAX :: int where
  "ECOORD_MAX = 2 ^ 63 - 1"

record NEAREST =
  nr_rv :: bool
  nr_distMax_sq :: int
  nr_pos1 :: "int \<times> int"
  nr_pos2 :: "int \<times> int"

definition nr_verify :: "CN_WORLD \<Rightarrow> nat \<Rightarrow> nat \<Rightarrow> NEAREST \<Rightarrow> NEAREST" where
  "nr_verify w aTestNode1 aTestNode2 s =
     (let dist_sq = SquaredEuclideanNorm (v_minus (an_Pos w aTestNode1) (an_Pos w aTestNode2))
      in if dist_sq < nr_distMax_sq s
         then \<lparr> nr_rv = True, nr_distMax_sq = dist_sq, nr_pos1 = an_Pos w aTestNode1, nr_pos2 = an_Pos w aTestNode2 \<rparr>
         else s)"

text \<open>A scan of the nodes on one side, up to the first one whose \<open>x\<close> is too far away.\<close>

fun nr_scan :: "CN_WORLD \<Rightarrow> nat \<Rightarrow> nat list \<Rightarrow> NEAREST \<Rightarrow> NEAREST" where
  "nr_scan w nodeA [] s = s"
| "nr_scan w nodeA (nodeB # nodes) s =
     (if an_noline (cn_anchor w nodeB) then nr_scan w nodeA nodes s
      else let d = fst (an_Pos w nodeA) - fst (an_Pos w nodeB)
           in if d * d > nr_distMax_sq s then s
              else nr_scan w nodeA nodes (nr_verify w nodeA nodeB s))"

definition nr_node :: "CN_WORLD \<Rightarrow> nat list \<Rightarrow> nat \<Rightarrow> NEAREST \<Rightarrow> NEAREST" where
  "nr_node w m_nodes nodeA s =
     (if an_noline (cn_anchor w nodeA) then s
      else let before = takeWhile (\<lambda>b. CN_PTR_CMP w b nodeA) m_nodes; rest = dropWhile (\<lambda>b. CN_PTR_CMP w b nodeA) m_nodes
           in nr_scan w nodeA (rev before) (nr_scan w nodeA rest s))"

definition NearestBicoloredPair ::
    "CN_WORLD \<Rightarrow> RN_NET \<Rightarrow> RN_NET \<Rightarrow> int \<times> int \<Rightarrow> int \<times> int \<Rightarrow> bool \<times> (int \<times> int) \<times> (int \<times> int)" where
  "NearestBicoloredPair w net aOtherNet aPos1 aPos2 =
     (let s = fold (nr_node w (rn_nodes net)) (rn_nodes aOtherNet)
                \<lparr> nr_rv = False, nr_distMax_sq = ECOORD_MAX, nr_pos1 = aPos1, nr_pos2 = aPos2 \<rparr>
      in (nr_rv s, nr_pos1 s, nr_pos2 s))"

end
