(* ===== verification/RatsnestOpt.thy ===== *)
theory RatsnestOpt
  imports Ratsnest "HOL-Library.Signed_Division"
begin

text \<open>
  The ends of the lines of a ratsnest at zones, \<open>RN_NET::OptimizeRNEdges\<close> of
  \<^verbatim>\<open>pcbnew/ratsnest/ratsnest_data.cpp\<close>, and which anchors dangle, from
  \<^verbatim>\<open>pcbnew/connectivity/connectivity_items.cpp\<close>. Hit tests and the closest segments of two outlines are
  parameters, the record \<open>RN_GEOMETRY\<close>. Pairs of outlines that are equally far are sorted stably.
\<close>

record RN_GEOMETRY =
  rg_HitTest :: "nat \<Rightarrow> int \<times> int \<Rightarrow> int \<Rightarrow> bool"
  rg_HitTestFilledArea :: "nat \<Rightarrow> int \<Rightarrow> int \<times> int \<Rightarrow> int \<Rightarrow> bool"
  rg_width :: "nat \<Rightarrow> int"
  rg_filled :: "nat \<Rightarrow> bool"
  rg_ClosestSegments :: "(int \<times> int) list \<Rightarrow> (int \<times> int) list \<Rightarrow> ((int \<times> int) \<times> (int \<times> int)) option"

section \<open>What is connected at an anchor\<close>

definition item_Layer :: "CN_WORLD \<Rightarrow> nat \<Rightarrow> int" where
  "item_Layer w i = lr_start (ci_layers (cn_item w i))"

definition hits_at :: "RN_GEOMETRY \<Rightarrow> CN_WORLD \<Rightarrow> int \<times> int \<Rightarrow> int \<Rightarrow> nat \<Rightarrow> bool" where
  "hits_at rg w pos accuracy i \<longleftrightarrow>
     (if bi_type (cn_parent w i) = PCB_ZONE_T
      then rg_HitTestFilledArea rg (ci_parent (cn_item w i)) (item_Layer w i) pos accuracy
      else rg_HitTest rg (ci_parent (cn_item w i)) pos accuracy)"

definition connected_at :: "RN_GEOMETRY \<Rightarrow> CN_WORLD \<Rightarrow> nat \<Rightarrow> int \<times> int \<Rightarrow> int \<Rightarrow> nat" where
  "connected_at rg w i pos accuracy = length (filter (hits_at rg w pos accuracy) (ci_connected (cn_item w i)))"

text \<open>\<open>None\<close> is a missing item, or the failed assertion of \<open>Parent\<close>.\<close>

definition IsDangling :: "RN_GEOMETRY \<Rightarrow> CN_WORLD \<Rightarrow> nat \<Rightarrow> bool option" where
  "IsDangling rg w a =
     (if an_cluster (cn_anchor w a) = None then Some True
      else case an_item (cn_anchor w a) of
        None \<Rightarrow> None
      | Some i \<Rightarrow>
          let p = ci_parent (cn_item w i); ty = bi_type (cn_board w p); connected_count = length (ci_connected (cn_item w i));
              accuracy = (if ty \<in> {PCB_TRACE_T, PCB_ARC_T} \<or> ty = PCB_SHAPE_T \<and> \<not> rg_filled rg p then rg_width rg p sdiv 2 else 0)
          in if \<not> ci_valid (cn_item w i) then None
             else if ty = PCB_VIA_T then Some (connected_count < 2)
             else if cn_AnchorCount w i = 1 then Some (connected_count < 1)
             else Some (connected_at rg w i (an_Pos w a) accuracy < 1))"

definition ConnectedItemsCount :: "RN_GEOMETRY \<Rightarrow> CN_WORLD \<Rightarrow> nat \<Rightarrow> nat option" where
  "ConnectedItemsCount rg w a =
     (if an_cluster (cn_anchor w a) = None then Some 0
      else map_option (\<lambda>i. connected_at rg w i (an_Pos w a) 0) (an_item (cn_anchor w a)))"

section \<open>One line between an anchor and a zone\<close>

text \<open>The new anchor belongs to an item but is not among the anchors of that item.\<close>

definition make_anchor :: "int \<times> int \<Rightarrow> nat \<Rightarrow> CN_WORLD \<Rightarrow> nat \<times> CN_WORLD" where
  "make_anchor aPos i w =
     (let a = cn_next_anchor w
      in (a, w\<lparr> cn_anchor := (cn_anchor w)(a := \<lparr> an_pos = aPos, an_item = Some i, an_tag = - 1, an_noline = False,
                an_cluster = None \<rparr>), cn_next_anchor := a + 1 \<rparr>))"

definition closer_point :: "int \<times> int \<Rightarrow> nat \<Rightarrow> int \<times> int \<Rightarrow> int \<times> ((int \<times> int) \<times> nat) option \<Rightarrow> int \<times> ((int \<times> int) \<times> nat) option" where
  "closer_point aPos i pt s =
     (let dist_sq = SquaredEuclideanNorm (v_minus pt aPos) in if dist_sq < fst s then (dist_sq, Some (pt, i)) else s)"

definition zone_on :: "CN_WORLD \<Rightarrow> nat \<Rightarrow> lset \<Rightarrow> nat \<Rightarrow> bool" where
  "zone_on w anchorItem aLayerSet i \<longleftrightarrow> cn_Net w anchorItem = cn_Net w i \<and> ci_zone_layer (cn_item w i) \<noteq> None \<and>
     BASE_SET_test aLayerSet (nat (item_Layer w i))"

definition optimizeZoneAnchor :: "CN_WORLD \<Rightarrow> int \<times> int \<Rightarrow> lset \<Rightarrow> int \<times> int \<Rightarrow> nat \<Rightarrow> ((int \<times> int) \<times> nat) option" where
  "optimizeZoneAnchor w aPos aLayerSet anchorPos anchorItem =
     snd (fold (\<lambda>i s. if zone_on w anchorItem aLayerSet i then fold (closer_point aPos i) (zone_outline w i) s else s)
       (ci_connected (cn_item w anchorItem)) (SquaredEuclideanNorm (v_minus anchorPos aPos), None))"

section \<open>One line between two zones\<close>

definition outline_box :: "(int \<times> int) list \<Rightarrow> (int \<times> int) \<times> (int \<times> int)" where
  "outline_box ps = (case ps of [] \<Rightarrow> ((0, 0), (0, 0)) | p0 # _ \<Rightarrow>
     fold (\<lambda>p (lo, hi). ((min (fst lo) (fst p), min (snd lo) (snd p)), (max (fst hi) (fst p), max (snd hi) (snd p)))) ps (p0, p0))"

text \<open>\<^verbatim>\<open>BBox().GetCenter()\<close>; the size is never negative.\<close>

definition outline_center :: "(int \<times> int) list \<Rightarrow> int \<times> int" where
  "outline_center ps = (case outline_box ps of (lo, hi) \<Rightarrow>
     (fst lo + (fst hi - fst lo) div 2, snd lo + (snd hi - snd lo) div 2))"

definition zone_centers :: "CN_WORLD \<Rightarrow> nat list \<Rightarrow> (int \<times> int) option list" where
  "zone_centers w is = map (\<lambda>i. if ci_zone_layer (cn_item w i) = None then None else Some (outline_center (zone_outline w i))) is"

definition pairsToTest :: "(int \<times> int) option list \<Rightarrow> (int \<times> int) option list \<Rightarrow> (int \<times> nat \<times> nat) list" where
  "pairsToTest centersA centersB =
     concat (map (\<lambda>ia. concat (map (\<lambda>ib.
       (case (centersA ! ia, centersB ! ib) of
          (Some pA, Some pB) \<Rightarrow> [(SquaredEuclideanNorm (v_minus pB pA), ia, ib)] | _ \<Rightarrow> []))
       [0..<length centersB])) [0..<length centersA])"

definition optimize_pair ::
    "RN_GEOMETRY \<Rightarrow> nat list \<Rightarrow> nat list \<Rightarrow> int \<times> nat \<times> nat \<Rightarrow> CN_EDGE \<times> CN_WORLD \<Rightarrow> CN_EDGE \<times> CN_WORLD" where
  "optimize_pair rg connectedItemsA connectedItemsB pair s =
     (case (pair, s) of ((_, idA, idB), (edge, w)) \<Rightarrow>
        let zoneLayerA = connectedItemsA ! idA; zoneLayerB = connectedItemsB ! idB
        in if zoneLayerA = zoneLayerB then s
           else case rg_ClosestSegments rg (zone_outline w zoneLayerA) (zone_outline w zoneLayerB) of
             None \<Rightarrow> s
           | Some (ptA, ptB) \<Rightarrow>
               let (a, w) = make_anchor ptA zoneLayerA w; (b, w) = make_anchor ptB zoneLayerB w
               in (edge\<lparr> ed_source := Some a, ed_target := Some b \<rparr>, w))"

definition c_polyPairsLimit :: nat where
  "c_polyPairsLimit = 3"

definition optimizeZoneToZoneAnchors :: "RN_GEOMETRY \<Rightarrow> nat \<Rightarrow> nat \<Rightarrow> CN_EDGE \<Rightarrow> CN_WORLD \<Rightarrow> CN_EDGE \<times> CN_WORLD" where
  "optimizeZoneToZoneAnchors rg itemA itemB edge w =
     (let connectedItemsA = ci_connected (cn_item w itemA); connectedItemsB = ci_connected (cn_item w itemB)
      in fold (optimize_pair rg connectedItemsA connectedItemsB)
           (take c_polyPairsLimit (sort_key fst (pairsToTest (zone_centers w connectedItemsA) (zone_centers w connectedItemsB))))
           (edge, w))"

section \<open>All lines of a net\<close>

definition optimize_edge :: "RN_GEOMETRY \<Rightarrow> CN_EDGE \<Rightarrow> CN_WORLD \<Rightarrow> CN_EDGE \<times> CN_WORLD" where
  "optimize_edge rg edge w =
     (case (ed_source edge, ed_target edge) of
        (Some source, Some target) \<Rightarrow>
          (case (an_item (cn_anchor w source), an_item (cn_anchor w target)) of
             (Some sourceItem, Some targetItem) \<Rightarrow>
               if anchor_Dirty w source \<or> anchor_Dirty w target then (edge, w)
               else if ConnectedItemsCount rg w source = Some 0
               then (case optimizeZoneAnchor w (an_Pos w source) (bi_layer_set (cn_parent w sourceItem)) (an_Pos w target) targetItem of
                       None \<Rightarrow> (edge, w)
                     | Some (pt, i) \<Rightarrow> let (a, w) = make_anchor pt i w in (edge\<lparr> ed_target := Some a \<rparr>, w))
               else if ConnectedItemsCount rg w target = Some 0
               then (case optimizeZoneAnchor w (an_Pos w target) (bi_layer_set (cn_parent w targetItem)) (an_Pos w source) sourceItem of
                       None \<Rightarrow> (edge, w)
                     | Some (pt, i) \<Rightarrow> let (a, w) = make_anchor pt i w in (edge\<lparr> ed_source := Some a \<rparr>, w))
               else optimizeZoneToZoneAnchors rg sourceItem targetItem edge w
           | _ \<Rightarrow> (edge, w))
      | _ \<Rightarrow> (edge, w))"

fun optimize_edges :: "RN_GEOMETRY \<Rightarrow> CN_EDGE list \<Rightarrow> CN_WORLD \<Rightarrow> CN_EDGE list \<times> CN_WORLD" where
  "optimize_edges rg [] w = ([], w)"
| "optimize_edges rg (e # es) w =
     (case optimize_edge rg e w of (e, w) \<Rightarrow> case optimize_edges rg es w of (es, w) \<Rightarrow> (e # es, w))"

definition OptimizeRNEdges :: "RN_GEOMETRY \<Rightarrow> RN_NET \<Rightarrow> CN_WORLD \<Rightarrow> RN_NET \<times> CN_WORLD" where
  "OptimizeRNEdges rg net w =
     (case optimize_edges rg (rn_rnEdges net) w of (es, w) \<Rightarrow> (net\<lparr> rn_rnEdges := es \<rparr>, w))"

end
