(* ===== verification/CnData.thy ===== *)
theory CnData
  imports CnBuild RatsnestOpt
begin

text \<open>
  \<open>CONNECTIVITY_DATA\<close> of \<^verbatim>\<open>pcbnew/connectivity/connectivity_data.h\<close> and \<^verbatim>\<open>.cpp\<close>: the connectivity of a board
  with the ratsnest of each of its nets, kept up to date. This theory has the operations that change it.

  The search for connections drops the ends of ratsnest lines at removed items before it deletes these
  items, so each operation that searches does so first. Nets are updated in order; the code does it in a
  pool of threads. Locks are always free, and there is no progress reporter and no commit: the board
  items a commit is told of are returned. \<open>None\<close> is an access out of bounds.
\<close>

section \<open>State\<close>

record RN_DYNAMIC_LINE =
  dl_netCode :: int
  dl_a :: "int \<times> int"
  dl_b :: "int \<times> int"

text \<open>\<open>cd_next_cluster\<close> is the address of the next cluster of a ratsnest.\<close>

record CN_DATA =
  cd_world :: CN_WORLD
  cd_connClusters :: "CN_CLUSTER list"
  cd_ratsnestClusters :: "CN_CLUSTER list"
  cd_next_cluster :: nat
  cd_nets :: "RN_NET list"
  cd_dynamicRatsnest :: "RN_DYNAMIC_LINE list"
  cd_skipRatsnestUpdate :: bool
  cd_netcodeMap :: "int \<rightharpoonup> string"

record CN_PARAMS =
  pm_geometry :: CN_GEOMETRY
  pm_ratsnest :: RN_PARAMS
  pm_hits :: RN_GEOMETRY

definition CONNECTIVITY_DATA_make :: "(nat \<Rightarrow> BOARD_CITEM) \<Rightarrow> lset \<Rightarrow> CN_DATA" where
  "CONNECTIVITY_DATA_make board enabled =
     \<lparr> cd_world = CN_WORLD_make board enabled, cd_connClusters = [], cd_ratsnestClusters = [], cd_next_cluster = 0,
       cd_nets = [], cd_dynamicRatsnest = [], cd_skipRatsnestUpdate = False, cd_netcodeMap = Map.empty \<rparr>"

definition with_world :: "CN_WORLD \<Rightarrow> CN_DATA \<Rightarrow> CN_DATA" where
  "with_world w d = d\<lparr> cd_world := w \<rparr>"

section \<open>Board items\<close>

definition data_Add :: "nat \<Rightarrow> CN_DATA \<Rightarrow> (bool \<times> CN_DATA) option" where
  "data_Add aItem d = map_option (\<lambda>(_, w). (True, with_world w d)) (algo_Add aItem (cd_world d))"

definition data_Remove :: "nat \<Rightarrow> CN_DATA \<Rightarrow> bool \<times> CN_DATA" where
  "data_Remove aItem d = (True, with_world (snd (algo_Remove aItem (cd_world d))) d)"

definition data_Update :: "nat \<Rightarrow> CN_DATA \<Rightarrow> (bool \<times> CN_DATA) option" where
  "data_Update aItem d = data_Add aItem (snd (data_Remove aItem d))"

definition data_Move :: "int \<times> int \<Rightarrow> CN_DATA \<Rightarrow> CN_DATA" where
  "data_Move aDelta d =
     with_world (ForEachAnchor (\<lambda>an. an\<lparr> an_pos := (fst (an_pos an) + fst aDelta, snd (an_pos an) + snd aDelta) \<rparr>) (cd_world d)) d"

definition data_MarkItemNetAsDirty :: "nat \<Rightarrow> CN_DATA \<Rightarrow> CN_DATA" where
  "data_MarkItemNetAsDirty aItem d =
     (let w = cd_world d; b = cn_board w aItem;
          w = (if bi_type b = PCB_FOOTPRINT_T then fold (\<lambda>pad w. MarkNetAsDirty (bi_net (cn_board w pad)) w) (bi_pads b) w else w);
          w = (if bi_connected b then MarkNetAsDirty (bi_net b) w else w)
      in with_world w d)"

text \<open>
  The types that are a \<open>BOARD_CONNECTED_ITEM\<close>, and the items \<open>BlockRatsnestItems\<close> is asked for, with the
  pads of a footprint instead of it.
\<close>

definition connected_types :: "KICAD_T list" where
  "connected_types = [PCB_PAD_T, PCB_TRACE_T, PCB_ARC_T, PCB_VIA_T, PCB_ZONE_T, PCB_SHAPE_T, PCB_TEXTBOX_T, PCB_TABLECELL_T]"

definition ratsnest_items :: "CN_WORLD \<Rightarrow> nat list \<Rightarrow> nat list" where
  "ratsnest_items w aItems =
     concat (map (\<lambda>item. if bi_type (cn_board w item) = PCB_FOOTPRINT_T then bi_pads (cn_board w item)
                          else if bi_type (cn_board w item) \<in> set connected_types then [item] else []) aItems)"

definition SetNoLine :: "bool \<Rightarrow> CN_ANCHOR \<Rightarrow> CN_ANCHOR" where
  "SetNoLine aEnable an = an\<lparr> an_noline := aEnable \<rparr>"

definition BlockRatsnestItems :: "nat list \<Rightarrow> CN_DATA \<Rightarrow> CN_DATA" where
  "BlockRatsnestItems aItems d =
     with_world (fold (\<lambda>item w. if ItemExists item w
         then fold (\<lambda>i w. fold (\<lambda>a w. upd_anchor a (SetNoLine True) w) (ci_anchors (cn_item w i)) w) (fst (ItemEntry item w)) w
         else w) (ratsnest_items (cd_world d) aItems) (cd_world d)) d"

section \<open>The ratsnest\<close>

definition data_RemoveInvalidRefs :: "CN_DATA \<Rightarrow> CN_DATA" where
  "data_RemoveInvalidRefs d =
     d\<lparr> cd_world := algo_RemoveInvalidRefs (cd_world d), cd_nets := map (rn_RemoveInvalidRefs (cd_world d)) (cd_nets d) \<rparr>"

text \<open>What a search of clusters does to the nets before it deletes items.\<close>

definition before_search :: "CN_DATA \<Rightarrow> CN_DATA" where
  "before_search d = (if cn_list_dirty (cd_world d) then data_RemoveInvalidRefs d else d)"

definition data_PropagateNets :: "CN_PARAMS \<Rightarrow> CN_DATA \<Rightarrow> (nat list \<times> CN_DATA) option" where
  "data_PropagateNets pm d = do {
     let d = before_search d;
     (clusters, modified, w) \<leftarrow> PropagateNets (pm_geometry pm) (cd_world d);
     Some (modified, d\<lparr> cd_world := w, cd_connClusters := clusters \<rparr>)
   }"

definition GetClusters :: "CN_PARAMS \<Rightarrow> CN_DATA \<Rightarrow> CN_DATA option" where
  "GetClusters pm d = do {
     let d = before_search d;
     (clusters, w) \<leftarrow> SearchClusters (pm_geometry pm) CSM_RATSNEST (cd_world d);
     Some (d\<lparr> cd_world := w, cd_ratsnestClusters := clusters \<rparr>)
   }"

definition GetDirtyClusters :: "CN_DATA \<Rightarrow> CN_CLUSTER list option" where
  "GetDirtyClusters d =
     fold_opt (\<lambda>cl aClusters. map_option (\<lambda>dirty. if dirty then aClusters @ [cl] else aClusters) (IsNetDirty (cl_originNet cl) (cd_world d)))
       (cd_ratsnestClusters d) []"

text \<open>One more net than the nets that are marked; the nets behind these are cleared when there are more.\<close>

definition resize_nets :: "nat \<Rightarrow> RN_NET list \<Rightarrow> RN_NET list" where
  "resize_nets lastNet nets =
     (if lastNet \<ge> length nets then nets @ replicate (lastNet + 1 - length nets) RN_NET_make
      else take lastNet nets @ map rn_Clear (drop lastNet nets))"

definition clear_dirty_nets :: "CN_WORLD \<Rightarrow> RN_NET list \<Rightarrow> RN_NET list" where
  "clear_dirty_nets w nets =
     map (\<lambda>(i, net). if i < length (cn_dirty_nets w) \<and> cn_dirty_nets w ! i then rn_Clear net else net) (enumerate 0 nets)"

definition kept_island :: "CN_WORLD \<Rightarrow> CN_CLUSTER \<Rightarrow> bool" where
  "kept_island w c \<longleftrightarrow> IsOrphaned c \<and> length (cl_items c) = 1 \<and> ci_zone_layer (cn_item w (hd (cl_items c))) \<noteq> None"

definition addRatsnestCluster :: "nat \<Rightarrow> CN_CLUSTER \<Rightarrow> RN_NET list \<times> CN_WORLD \<Rightarrow> (RN_NET list \<times> CN_WORLD) option" where
  "addRatsnestCluster address c s =
     (case s of (nets, w) \<Rightarrow>
        if cl_originNet c < 0 \<or> nat (cl_originNet c) \<ge> length nets then None
        else case AddCluster address (cl_items c) (nets ! nat (cl_originNet c)) w of
          (net, w) \<Rightarrow> Some (nets[nat (cl_originNet c) := net], w))"

definition add_cluster :: "nat \<times> CN_CLUSTER \<Rightarrow> RN_NET list \<times> CN_WORLD \<Rightarrow> (RN_NET list \<times> CN_WORLD) option" where
  "add_cluster ac s =
     (case ac of (address, c) \<Rightarrow>
        if kept_island (snd s) c then Some s
        else case IsNetDirty (cl_originNet c) (snd s) of
          None \<Rightarrow> None | Some False \<Rightarrow> Some s | Some True \<Rightarrow> addRatsnestCluster address c s)"

definition on_net :: "(RN_NET \<Rightarrow> CN_WORLD \<Rightarrow> (RN_NET \<times> CN_WORLD) option) \<Rightarrow> nat \<Rightarrow> RN_NET list \<times> CN_WORLD \<Rightarrow> (RN_NET list \<times> CN_WORLD) option" where
  "on_net f i s = (case s of (nets, w) \<Rightarrow> map_option (\<lambda>(net, w). (nets[i := net], w)) (f (nets ! i) w))"

definition updateRatsnest :: "CN_PARAMS \<Rightarrow> CN_DATA \<Rightarrow> CN_DATA option" where
  "updateRatsnest pm d = do {
     dirty_nets \<leftarrow> (if cd_nets d = [] then None
       else Some (filter (\<lambda>i. rn_dirty (cd_nets d ! i) \<and> length (rn_nodes (cd_nets d ! i)) > 0) [1..<length (cd_nets d)]));
     s \<leftarrow> fold_opt (on_net (UpdateNet (pm_ratsnest pm))) dirty_nets (cd_nets d, cd_world d);
     (nets, w) \<leftarrow> fold_opt (on_net (\<lambda>net w. Some (OptimizeRNEdges (pm_hits pm) net w))) dirty_nets s;
     Some (d\<lparr> cd_nets := nets, cd_world := w \<rparr>)
   }"

definition internalRecalculateRatsnest :: "CN_PARAMS \<Rightarrow> CN_DATA \<Rightarrow> (nat list \<times> CN_DATA) option" where
  "internalRecalculateRatsnest pm d = do {
     (modified, d) \<leftarrow> data_PropagateNets pm d;
     let lastNet = length (cn_dirty_nets (cd_world d));
     let d = d\<lparr> cd_nets := resize_nets lastNet (cd_nets d) \<rparr>;
     d \<leftarrow> GetClusters pm d;
     let clusters = cd_ratsnestClusters d;
     (nets, w) \<leftarrow> fold_opt add_cluster (enumerate (cd_next_cluster d) clusters)
       (clear_dirty_nets (cd_world d) (cd_nets d), cd_world d);
     let d = d\<lparr> cd_nets := nets, cd_world := nets_ClearDirtyFlags w, cd_next_cluster := cd_next_cluster d + length clusters \<rparr>;
     d \<leftarrow> (if cd_skipRatsnestUpdate d then Some d else updateRatsnest pm d);
     Some (modified, d)
   }"

definition RecalculateRatsnest :: "CN_PARAMS \<Rightarrow> CN_DATA \<Rightarrow> (nat list \<times> CN_DATA) option" where
  "RecalculateRatsnest pm d = internalRecalculateRatsnest pm d"

definition ClearRatsnest :: "CN_DATA \<Rightarrow> CN_DATA" where
  "ClearRatsnest d = d\<lparr> cd_nets := map rn_Clear (cd_nets d) \<rparr>"

section \<open>Building\<close>

text \<open>A new \<open>CN_CONNECTIVITY_ALGO\<close>; deleting the old one deletes its items.\<close>

definition algo_reset :: "CN_WORLD \<Rightarrow> CN_WORLD" where
  "algo_reset w = (algo_Clear w)\<lparr> cn_list_dirty := False, cn_has_invalid := False, cn_dirty_nets := [] \<rparr>"

definition RefreshNetcodeMap :: "(int \<times> string) list \<Rightarrow> CN_DATA \<Rightarrow> CN_DATA" where
  "RefreshNetcodeMap nets d = d\<lparr> cd_netcodeMap := fold (\<lambda>(code, name) m. m(code \<mapsto> name)) nets Map.empty \<rparr>"

definition GetNetNameForNetCode :: "int \<Rightarrow> CN_DATA \<Rightarrow> string option" where
  "GetNetNameForNetCode nc d = cd_netcodeMap d nc"

definition HasNetNameForNetCode :: "int \<Rightarrow> CN_DATA \<Rightarrow> bool" where
  "HasNetNameForNetCode nc d \<longleftrightarrow> cd_netcodeMap d nc \<noteq> None"

record CN_BOARD =
  bd_zones :: "nat list"
  bd_tracks :: "nat list"
  bd_footprints :: "nat list"
  bd_drawings :: "nat list"
  bd_netinfo :: "(int \<times> string) list"

definition data_Build :: "CN_PARAMS \<Rightarrow> CN_BOARD \<Rightarrow> CN_DATA \<Rightarrow> (bool \<times> CN_DATA) option" where
  "data_Build pm aBoard d = do {
     w \<leftarrow> algo_Build (bd_zones aBoard) (bd_tracks aBoard) (bd_footprints aBoard) (bd_drawings aBoard) (algo_reset (cd_world d));
     let d = d\<lparr> cd_world := w, cd_connClusters := [], cd_ratsnestClusters := [] \<rparr>;
     let d = RefreshNetcodeMap (bd_netinfo aBoard) d;
     (modified, d) \<leftarrow> internalRecalculateRatsnest pm d;
     Some (True, d)
   }"

text \<open>The connectivity of some items of the board of another one; the search of the new one also drops the
  ends of the lines of the other one at items that were removed.\<close>

definition data_LocalBuild :: "CN_PARAMS \<Rightarrow> CN_DATA \<Rightarrow> nat list \<Rightarrow> CN_DATA \<Rightarrow> (CN_DATA \<times> CN_DATA) option" where
  "data_LocalBuild pm aGlobal aLocalItems d = do {
     w \<leftarrow> algo_LocalBuild aLocalItems (algo_reset (cd_world d));
     let d = d\<lparr> cd_world := w, cd_connClusters := [], cd_ratsnestClusters := [] \<rparr>;
     let aGlobal = (if cn_list_dirty w then data_RemoveInvalidRefs aGlobal else aGlobal);
     (modified, d) \<leftarrow> internalRecalculateRatsnest pm d;
     Some (aGlobal\<lparr> cd_world := (cd_world aGlobal)\<lparr> cn_board := cn_board (cd_world d) \<rparr> \<rparr>, d)
   }"

definition CONNECTIVITY_DATA_local :: "CN_PARAMS \<Rightarrow> CN_DATA \<Rightarrow> nat list \<Rightarrow> bool \<Rightarrow> (CN_DATA \<times> CN_DATA) option" where
  "CONNECTIVITY_DATA_local pm aGlobal aLocalItems aSkipRatsnestUpdate =
     data_LocalBuild pm aGlobal aLocalItems
       ((CONNECTIVITY_DATA_make (cn_board (cd_world aGlobal)) (cn_enabled (cd_world aGlobal)))
          \<lparr> cd_skipRatsnestUpdate := aSkipRatsnestUpdate \<rparr>)"

section \<open>Isolated islands\<close>

definition data_FillIsolatedIslandsMap ::
    "CN_PARAMS \<Rightarrow> (nat \<times> (int \<times> ISOLATED_ISLANDS) list) list \<Rightarrow> bool \<Rightarrow> CN_DATA \<Rightarrow>
     ((nat \<times> (int \<times> ISOLATED_ISLANDS) list) list \<times> CN_DATA) option" where
  "data_FillIsolatedIslandsMap pm aMap aConnectivityAlreadyRebuilt d = do {
     w \<leftarrow> (if aConnectivityAlreadyRebuilt then Some (cd_world d)
           else fold_opt (\<lambda>(zone, islands) w. map_option snd (algo_Add zone (snd (algo_Remove zone w)))) aMap (cd_world d));
     let d = before_search (with_world w d);
     (aMap, clusters, w) \<leftarrow> FillIsolatedIslandsMap (pm_geometry pm) aMap True (cd_world d);
     Some (aMap, d\<lparr> cd_world := w, cd_connClusters := clusters \<rparr>)
   }"

section \<open>The ratsnest of moving items\<close>

definition HideLocalRatsnest :: "CN_DATA \<Rightarrow> CN_DATA" where
  "HideLocalRatsnest d = d\<lparr> cd_dynamicRatsnest := [] \<rparr>"

definition ClearLocalRatsnest :: "CN_DATA \<Rightarrow> CN_DATA" where
  "ClearLocalRatsnest d = HideLocalRatsnest (with_world (ForEachAnchor (SetNoLine False) (cd_world d)) d)"

end
