(* ===== verification/RatsnestNearest.thy ===== *)
theory RatsnestNearest
  imports Ratsnest
begin

text \<open>
  \<open>RN_NET::NearestBicoloredPair\<close> of \<^verbatim>\<open>pcbnew/ratsnest/ratsnest_data.cpp\<close>: the sweep over the sorted nodes finds a
  pair of least distance among all pairs. The nodes of a net are always sorted.
\<close>

section \<open>The order of the nodes\<close>

definition nodes_sorted :: "CN_WORLD \<Rightarrow> nat list \<Rightarrow> bool" where
  "nodes_sorted w = sorted_wrt (\<lambda>a b. \<not> CN_PTR_CMP w b a)"

lemma CN_PTR_CMP_linear:
  "\<not> CN_PTR_CMP w a a" "CN_PTR_CMP w a b \<Longrightarrow> \<not> CN_PTR_CMP w b a"
  "CN_PTR_CMP w a b \<Longrightarrow> \<not> CN_PTR_CMP w c b \<Longrightarrow> CN_PTR_CMP w a c"
  by (auto simp: CN_PTR_CMP_def split: if_splits)

lemma not_CMP_trans: "\<not> CN_PTR_CMP w b a \<Longrightarrow> \<not> CN_PTR_CMP w c b \<Longrightarrow> \<not> CN_PTR_CMP w c a"
  by (auto simp: CN_PTR_CMP_def split: if_splits)

lemma CN_PTR_CMP_x:
  "CN_PTR_CMP w b a \<Longrightarrow> fst (an_Pos w b) \<le> fst (an_Pos w a)" "\<not> CN_PTR_CMP w c b \<Longrightarrow> fst (an_Pos w b) \<le> fst (an_Pos w c)"
  by (auto simp: CN_PTR_CMP_def split: if_splits)

lemma sorted_split:
  assumes "nodes_sorted w ns" and "P = (\<lambda>b. \<not> CN_PTR_CMP w a b) \<or> P = (\<lambda>b. CN_PTR_CMP w b a)"
  shows "(\<forall>b \<in> set (takeWhile P ns). P b) \<and> (\<forall>b \<in> set (dropWhile P ns). \<not> P b)"
  using assms(1)
proof (induction ns)
  case (Cons n ns)
  show ?case
  proof (cases "P n")
    case False
    then have "\<not> P m" if "m \<in> set ns" for m
    proof -
      have nm: "\<not> CN_PTR_CMP w m n" using Cons.prems that by (simp add: nodes_sorted_def)
      show ?thesis
        using assms(2)
      proof
        assume P: "P = (\<lambda>b. \<not> CN_PTR_CMP w a b)"
        then show ?thesis using False CN_PTR_CMP_linear(3) [OF _ nm, of a] by simp
      next
        assume P: "P = (\<lambda>b. CN_PTR_CMP w b a)"
        then show ?thesis using False not_CMP_trans [OF _ nm, of a] by simp
      qed
    qed
    then show ?thesis using False by simp
  next
    case True
    have "nodes_sorted w ns" using Cons.prems by (simp add: nodes_sorted_def)
    from Cons.IH [OF this] True show ?thesis unfolding takeWhile.simps dropWhile.simps if_P [OF True] set_simps by blast
  qed
qed simp

lemma set_split: "set ns = set (takeWhile P ns) \<union> set (dropWhile P ns)"
  by (metis set_append takeWhile_dropWhile_id)

lemma nodes_insert_set [simp]: "set (nodes_insert w a ns) = insert a (set ns)"
  using set_split [of ns "\<lambda>b. \<not> CN_PTR_CMP w a b"] by (auto simp: nodes_insert_def)

lemma nodes_insert_sorted:
  assumes "nodes_sorted w ns"
  shows "nodes_sorted w (nodes_insert w a ns)"
proof -
  let ?P = "\<lambda>b. \<not> CN_PTR_CMP w a b"
  note split = sorted_split [OF assms, of ?P a]
  have "sorted_wrt (\<lambda>a b. \<not> CN_PTR_CMP w b a) (takeWhile ?P ns @ dropWhile ?P ns)" using assms by (simp add: nodes_sorted_def)
  then have parts: "sorted_wrt (\<lambda>a b. \<not> CN_PTR_CMP w b a) (takeWhile ?P ns)" "sorted_wrt (\<lambda>a b. \<not> CN_PTR_CMP w b a) (dropWhile ?P ns)"
    "\<forall>x \<in> set (takeWhile ?P ns). \<forall>y \<in> set (dropWhile ?P ns). \<not> CN_PTR_CMP w y x" unfolding sorted_wrt_append by blast+
  have lo: "\<forall>b \<in> set (takeWhile ?P ns). \<not> CN_PTR_CMP w a b" and hi: "\<forall>b \<in> set (dropWhile ?P ns). \<not> CN_PTR_CMP w b a"
    using split CN_PTR_CMP_linear(2) [of w a] by blast+
  show ?thesis
    unfolding nodes_insert_def nodes_sorted_def sorted_wrt_append sorted_wrt.simps set_simps using parts lo hi by blast
qed

lemma nodes_insert_all: "nodes_sorted w (fold (nodes_insert w) ns []) \<and> set (fold (nodes_insert w) ns []) = set ns"
proof -
  have "nodes_sorted w ms \<Longrightarrow> nodes_sorted w (fold (nodes_insert w) ns ms) \<and> set (fold (nodes_insert w) ns ms) = set ns \<union> set ms" for ms
    by (induction ns arbitrary: ms) (simp_all add: nodes_insert_sorted)
  from this [of "[]"] show ?thesis by (simp add: nodes_sorted_def)
qed

section \<open>The sweep\<close>

definition dist_sq :: "CN_WORLD \<Rightarrow> nat \<Rightarrow> nat \<Rightarrow> int" where
  "dist_sq w a b = SquaredEuclideanNorm (v_minus (an_Pos w a) (an_Pos w b))"

definition dx_sq :: "CN_WORLD \<Rightarrow> nat \<Rightarrow> nat \<Rightarrow> int" where
  "dx_sq w a b = (fst (an_Pos w a) - fst (an_Pos w b)) * (fst (an_Pos w a) - fst (an_Pos w b))"

lemma dx_le_dist: "dx_sq w a b \<le> dist_sq w a b"
  by (simp add: dx_sq_def dist_sq_def SquaredEuclideanNorm_def v_minus_def)

definition open_nodes :: "CN_WORLD \<Rightarrow> nat list \<Rightarrow> nat set" where
  "open_nodes w ns = {b \<in> set ns. \<not> an_noline (cn_anchor w b)}"

text \<open>The state after a set of pairs: nothing closer is left among them, and what was found is one of them.\<close>

definition nearest_of :: "CN_WORLD \<Rightarrow> NEAREST \<Rightarrow> (nat \<times> nat) set \<Rightarrow> NEAREST \<Rightarrow> bool" where
  "nearest_of w s P s' \<longleftrightarrow> nr_distMax_sq s' \<le> nr_distMax_sq s \<and> (\<forall>(a, b) \<in> P. nr_distMax_sq s' \<le> dist_sq w a b) \<and>
     (s' = s \<or> nr_rv s' \<and> (\<exists>(a, b) \<in> P. nr_pos1 s' = an_Pos w a \<and> nr_pos2 s' = an_Pos w b \<and>
        nr_distMax_sq s' = dist_sq w a b \<and> dist_sq w a b < nr_distMax_sq s))"

lemma nearest_of_refl: "nearest_of w s {} s"
  by (simp add: nearest_of_def)

lemma nearest_of_trans:
  assumes "nearest_of w s P t" and "nearest_of w t Q u"
  shows "nearest_of w s (P \<union> Q) u"
proof -
  have "nr_distMax_sq u \<le> dist_sq w a b" if "(a, b) \<in> P \<union> Q" for a b
    using that assms order_trans [of "nr_distMax_sq u" "nr_distMax_sq t"] unfolding nearest_of_def by blast
  moreover have "u = s \<or> nr_rv u \<and> (\<exists>(a, b) \<in> P \<union> Q. nr_pos1 u = an_Pos w a \<and> nr_pos2 u = an_Pos w b \<and>
        nr_distMax_sq u = dist_sq w a b \<and> dist_sq w a b < nr_distMax_sq s)"
    using assms less_le_trans [of _ "nr_distMax_sq t" "nr_distMax_sq s"] unfolding nearest_of_def by blast
  moreover have "nr_distMax_sq u \<le> nr_distMax_sq s" using assms unfolding nearest_of_def by linarith
  ultimately show ?thesis unfolding nearest_of_def by blast
qed

lemma nr_verify_nearest: "nearest_of w s {(a, b)} (nr_verify w a b s)"
  by (simp add: nearest_of_def nr_verify_def Let_def dist_sq_def)

lemma nr_scan_nearest:
  assumes "sorted_wrt (\<lambda>b c. dx_sq w a b \<le> dx_sq w a c) ns"
  shows "nearest_of w s ({a} \<times> open_nodes w ns) (nr_scan w a ns s)"
  using assms
proof (induction ns arbitrary: s)
  case (Cons n ns)
  have IH: "nearest_of w t ({a} \<times> open_nodes w ns) (nr_scan w a ns t)" for t using Cons by simp
  consider "an_noline (cn_anchor w n)" | "\<not> an_noline (cn_anchor w n)" "dx_sq w a n > nr_distMax_sq s"
    | "\<not> an_noline (cn_anchor w n)" "dx_sq w a n \<le> nr_distMax_sq s" by linarith
  then show ?case
  proof cases
    case 1
    then have "open_nodes w (n # ns) = open_nodes w ns" by (auto simp: open_nodes_def)
    then show ?thesis using 1 IH by simp
  next
    case 2
    have "nr_distMax_sq s \<le> dist_sq w a b" if "b \<in> set (n # ns)" for b
    proof -
      have "dx_sq w a n \<le> dx_sq w a b" using that Cons.prems by auto
      then show ?thesis using 2(2) dx_le_dist [of w a b] by linarith
    qed
    then show ?thesis using 2 by (auto simp: nearest_of_def open_nodes_def dx_sq_def Let_def)
  next
    case 3
    have "open_nodes w (n # ns) = insert n (open_nodes w ns)" using 3(1) by (auto simp: open_nodes_def)
    then have "{a} \<times> open_nodes w (n # ns) = {(a, n)} \<union> {a} \<times> open_nodes w ns" by auto
    moreover have "nr_scan w a (n # ns) s = nr_scan w a ns (nr_verify w a n s)" using 3 by (simp add: dx_sq_def Let_def)
    ultimately show ?thesis using nearest_of_trans [OF nr_verify_nearest IH] by simp
  qed
qed (simp add: open_nodes_def nearest_of_refl)

lemma square_mono: "0 \<le> (x :: int) \<Longrightarrow> x \<le> y \<Longrightarrow> x * x \<le> y * y"
  by (simp add: mult_mono)

text \<open>On both sides of a node the distance in \<open>x\<close> grows.\<close>

lemma sweep_sides:
  assumes "nodes_sorted w ns"
  shows "sorted_wrt (\<lambda>b c. dx_sq w a b \<le> dx_sq w a c) (dropWhile (\<lambda>b. CN_PTR_CMP w b a) ns)"
    and "sorted_wrt (\<lambda>b c. dx_sq w a b \<le> dx_sq w a c) (rev (takeWhile (\<lambda>b. CN_PTR_CMP w b a) ns))"
proof -
  let ?P = "\<lambda>b. CN_PTR_CMP w b a" and ?x = "\<lambda>b. fst (an_Pos w b)"
  have "sorted_wrt (\<lambda>b c. \<not> CN_PTR_CMP w c b) (takeWhile ?P ns @ dropWhile ?P ns)" using assms by (simp add: nodes_sorted_def)
  then have "sorted_wrt (\<lambda>b c. \<not> CN_PTR_CMP w c b) (takeWhile ?P ns)" "sorted_wrt (\<lambda>b c. \<not> CN_PTR_CMP w c b) (dropWhile ?P ns)"
    unfolding sorted_wrt_append by blast+
  then have s: "sorted_wrt (\<lambda>b c. ?x b \<le> ?x c) (takeWhile ?P ns)" "sorted_wrt (\<lambda>b c. ?x b \<le> ?x c) (dropWhile ?P ns)"
    by - (erule sorted_wrt_mono_rel [rotated], erule CN_PTR_CMP_x(2))+
  note split = sorted_split [OF assms, of ?P a]
  have x: "?x b \<le> ?x a" if "b \<in> set (takeWhile ?P ns)" for b using that split CN_PTR_CMP_x(1) by blast
  have y: "?x a \<le> ?x b" if "b \<in> set (dropWhile ?P ns)" for b using that split CN_PTR_CMP_x(2) by blast
  show "sorted_wrt (\<lambda>b c. dx_sq w a b \<le> dx_sq w a c) (dropWhile ?P ns)"
  proof (rule sorted_wrt_mono_rel [OF _ s(2)])
    fix b c assume "b \<in> set (dropWhile ?P ns)" "c \<in> set (dropWhile ?P ns)" "?x b \<le> ?x c"
    then show "dx_sq w a b \<le> dx_sq w a c"
      using y square_mono [of "?x b - ?x a" "?x c - ?x a"] by (simp add: dx_sq_def algebra_simps)
  qed
  have "sorted_wrt (\<lambda>b c. dx_sq w a c \<le> dx_sq w a b) (takeWhile ?P ns)"
  proof (rule sorted_wrt_mono_rel [OF _ s(1)])
    fix b c assume "b \<in> set (takeWhile ?P ns)" "c \<in> set (takeWhile ?P ns)" "?x b \<le> ?x c"
    then show "dx_sq w a c \<le> dx_sq w a b"
      using x square_mono [of "?x a - ?x c" "?x a - ?x b"] by (simp add: dx_sq_def)
  qed
  then show "sorted_wrt (\<lambda>b c. dx_sq w a b \<le> dx_sq w a c) (rev (takeWhile ?P ns))"
    by (simp add: sorted_wrt_rev)
qed

lemma nr_node_nearest:
  assumes "nodes_sorted w ns"
  shows "nearest_of w s (open_nodes w [a] \<times> open_nodes w ns) (nr_node w ns a s)"
proof (cases "an_noline (cn_anchor w a)")
  case False
  let ?P = "\<lambda>b. CN_PTR_CMP w b a"
  have "open_nodes w (dropWhile ?P ns) \<union> open_nodes w (rev (takeWhile ?P ns)) = open_nodes w ns"
    using set_split [of ns ?P] by (auto simp: open_nodes_def)
  then have "open_nodes w [a] \<times> open_nodes w ns =
      {a} \<times> open_nodes w (dropWhile ?P ns) \<union> {a} \<times> open_nodes w (rev (takeWhile ?P ns))"
    using False by (auto simp: open_nodes_def)
  then show ?thesis
    using nearest_of_trans [OF nr_scan_nearest [OF sweep_sides(1) [OF assms]] nr_scan_nearest [OF sweep_sides(2) [OF assms]]] False
    by (simp add: nr_node_def Let_def)
next
  case True
  then have "open_nodes w [a] = {}" by (auto simp: open_nodes_def)
  then show ?thesis using True by (simp add: nr_node_def nearest_of_refl)
qed

lemma nr_nodes_nearest:
  assumes "nodes_sorted w ns"
  shows "nearest_of w s (open_nodes w as \<times> open_nodes w ns) (fold (nr_node w ns) as s)"
proof (induction as arbitrary: s)
  case (Cons a as)
  have "open_nodes w (a # as) = open_nodes w [a] \<union> open_nodes w as" by (auto simp: open_nodes_def)
  then have "open_nodes w (a # as) \<times> open_nodes w ns = open_nodes w [a] \<times> open_nodes w ns \<union> open_nodes w as \<times> open_nodes w ns" by auto
  then show ?case using nearest_of_trans [OF nr_node_nearest [OF assms] Cons.IH] by simp
qed (simp add: open_nodes_def nearest_of_refl)

section \<open>Property\<close>

text \<open>Positions in which no distance overflows.\<close>

definition pos_bounded :: "CN_WORLD \<Rightarrow> nat \<Rightarrow> bool" where
  "pos_bounded w a \<longleftrightarrow> \<bar>fst (an_Pos w a)\<bar> < 2 ^ 30 \<and> \<bar>snd (an_Pos w a)\<bar> < 2 ^ 30"

lemma dist_bounded:
  assumes "pos_bounded w a" "pos_bounded w b"
  shows "dist_sq w a b < ECOORD_MAX"
proof -
  let ?x = "\<bar>fst (an_Pos w a) - fst (an_Pos w b)\<bar>" and ?y = "\<bar>snd (an_Pos w a) - snd (an_Pos w b)\<bar>"
  have "?x \<le> 2 ^ 31 - 2" "?y \<le> 2 ^ 31 - 2" using assms by (auto simp: pos_bounded_def abs_le_iff abs_less_iff)
  then have "?x * ?x \<le> (2 ^ 31 - 2) * (2 ^ 31 - 2)" "?y * ?y \<le> (2 ^ 31 - 2) * (2 ^ 31 - 2)"
    by (intro square_mono; simp)+
  then show ?thesis by (simp add: dist_sq_def SquaredEuclideanNorm_def v_minus_def ECOORD_MAX_def)
qed

text \<open>A net with four nodes at the corners of a square, two of which the board connects.\<close>

definition demo_anchor :: "nat \<Rightarrow> CN_ANCHOR" where
  "demo_anchor a =
     \<lparr> an_pos = ([(0, 0), (10, 0), (10, 10), (0, 10)] ! a), an_item = Some 0, an_tag = - 1, an_noline = False,
       an_cluster = Some a \<rparr>"

definition demo_rn_world :: CN_WORLD where
  "demo_rn_world =
     \<lparr> cn_board = undefined, cn_enabled = [], cn_item = (\<lambda>_. (CN_ITEM_make 0 False)\<lparr> ci_dirty := False \<rparr>),
       cn_anchor = demo_anchor, cn_next_item = 1, cn_next_anchor = 4, cn_items = [], cn_index = [], cn_list_dirty = False,
       cn_has_invalid = False, cn_item_map = Map.empty, cn_dirty_nets = [] \<rparr>"

definition demo_net :: RN_NET where
  "demo_net = \<lparr> rn_nodes = [0, 1, 2, 3], rn_boardEdges = [CN_EDGE_make 0 1 0], rn_rnEdges = [], rn_dirty = True \<rparr>"

text \<open>
  C9. The sweep answers yes exactly when both nets have a node that lines may go to, and then its
  answer is a pair of such nodes whose distance is least among all pairs; otherwise the positions
  are left as they were.
\<close>

theorem NearestBicoloredPair_nearest:
  assumes "nodes_sorted w (rn_nodes net)" and "\<forall>a \<in> set (rn_nodes net) \<union> set (rn_nodes aOtherNet). pos_bounded w a"
    and "NearestBicoloredPair w net aOtherNet aPos1 aPos2 = (rv, q1, q2)"
  shows "(rv \<longleftrightarrow> open_nodes w (rn_nodes aOtherNet) \<noteq> {} \<and> open_nodes w (rn_nodes net) \<noteq> {}) \<and>
    (if rv then \<exists>a \<in> open_nodes w (rn_nodes aOtherNet). \<exists>b \<in> open_nodes w (rn_nodes net). q1 = an_Pos w a \<and> q2 = an_Pos w b \<and>
       (\<forall>c \<in> open_nodes w (rn_nodes aOtherNet). \<forall>d \<in> open_nodes w (rn_nodes net). dist_sq w a b \<le> dist_sq w c d)
     else q1 = aPos1 \<and> q2 = aPos2)"
proof -
  let ?s = "\<lparr> nr_rv = False, nr_distMax_sq = ECOORD_MAX, nr_pos1 = aPos1, nr_pos2 = aPos2 \<rparr>"
  let ?A = "open_nodes w (rn_nodes aOtherNet)" and ?B = "open_nodes w (rn_nodes net)"
  define s where "s = fold (nr_node w (rn_nodes net)) (rn_nodes aOtherNet) ?s"
  have n: "nearest_of w ?s (?A \<times> ?B) s" unfolding s_def by (rule nr_nodes_nearest [OF assms(1)])
  have r: "rv = nr_rv s" "q1 = nr_pos1 s" "q2 = nr_pos2 s"
    using assms(3) by (simp_all add: NearestBicoloredPair_def Let_def s_def)
  have bound: "dist_sq w a b < ECOORD_MAX" if "a \<in> ?A" "b \<in> ?B" for a b
    using that assms(2) dist_bounded by (auto simp: open_nodes_def)
  from n consider "s = ?s" | a b where "nr_rv s" "a \<in> ?A" "b \<in> ?B" "nr_pos1 s = an_Pos w a" "nr_pos2 s = an_Pos w b"
    "nr_distMax_sq s = dist_sq w a b" unfolding nearest_of_def by auto
  then show ?thesis
  proof cases
    case 1
    have "False" if "a \<in> ?A" "b \<in> ?B" for a b
      using n bound [OF that] that 1 by (force simp: nearest_of_def)
    then show ?thesis using 1 r by auto
  next
    case 2
    have "dist_sq w a b \<le> dist_sq w c d" if "c \<in> ?A" "d \<in> ?B" for c d
      using n that 2(6) by (auto simp: nearest_of_def)
    then show ?thesis using 2 r by auto
  qed
qed

theorem NearestBicoloredPair_nearest_witness:
  "NearestBicoloredPair demo_rn_world (demo_net\<lparr> rn_nodes := [0, 3] \<rparr>) (demo_net\<lparr> rn_nodes := [1] \<rparr>) (7, 7) (7, 7) = (True, (10, 0), (0, 0)) \<and>
   dist_sq demo_rn_world 1 0 \<le> dist_sq demo_rn_world 1 3"
proof -
  let ?n = "demo_net\<lparr> rn_nodes := [0, 3] \<rparr>" and ?m = "demo_net\<lparr> rn_nodes := [1] \<rparr>"
  have pos: "an_Pos demo_rn_world 0 = (0, 0)" "an_Pos demo_rn_world 1 = (10, 0)" "an_Pos demo_rn_world 3 = (0, 10)"
    by (simp_all add: an_Pos_def demo_rn_world_def demo_anchor_def)
  have line: "\<not> an_noline (cn_anchor demo_rn_world a)" for a by (simp add: demo_rn_world_def demo_anchor_def)
  have r: "NearestBicoloredPair demo_rn_world ?n ?m (7, 7) (7, 7) = (True, (10, 0), (0, 0))"
    using pos line by (simp add: NearestBicoloredPair_def nr_node_def nr_verify_def CN_PTR_CMP_def SquaredEuclideanNorm_def v_minus_def
        ECOORD_MAX_def Let_def)
  moreover have "nodes_sorted demo_rn_world (rn_nodes ?n)" using pos by (simp add: nodes_sorted_def CN_PTR_CMP_def)
  moreover have "\<forall>a \<in> set (rn_nodes ?n) \<union> set (rn_nodes ?m). pos_bounded demo_rn_world a" using pos by (simp add: pos_bounded_def)
  ultimately have "\<exists>a \<in> open_nodes demo_rn_world [1]. \<exists>b \<in> open_nodes demo_rn_world [0, 3]. (10, 0) = an_Pos demo_rn_world a \<and>
      (0, 0) = an_Pos demo_rn_world b \<and> (\<forall>c \<in> open_nodes demo_rn_world [1]. \<forall>d \<in> open_nodes demo_rn_world [0, 3].
        dist_sq demo_rn_world a b \<le> dist_sq demo_rn_world c d)"
    using NearestBicoloredPair_nearest [of demo_rn_world ?n ?m] by fastforce
  moreover have "open_nodes demo_rn_world [1] = {1}" "open_nodes demo_rn_world [0, 3] = {0, 3}" using line by (auto simp: open_nodes_def)
  ultimately show ?thesis using r pos by auto
qed

end
