(* ===== verification/RatsnestTree.thy ===== *)
theory RatsnestTree
  imports RatsnestNearest
begin

text \<open>
  \<open>RN_NET::kruskalMST\<close> and \<open>RN_NET::compute\<close> of \<^verbatim>\<open>pcbnew/ratsnest/ratsnest_data.cpp\<close>: the ratsnest with the edges
  that cost nothing connects what all the edges connect, at the least weight; with the triangulation
  of the library it connects all nodes of the net.
\<close>

section \<open>Tags\<close>

lemma set_tags_world:
  "cn_item (set_tags i ns w) = cn_item w" "cn_items (set_tags i ns w) = cn_items w" "cn_board (set_tags i ns w) = cn_board w"
  "an_item (cn_anchor (set_tags i ns w) a) = an_item (cn_anchor w a)" "an_pos (cn_anchor (set_tags i ns w) a) = an_pos (cn_anchor w a)"
  "an_cluster (cn_anchor (set_tags i ns w) a) = an_cluster (cn_anchor w a)"
  by (induction ns arbitrary: i w) (simp_all add: SetTag_def upd_anchor_def)

lemma set_tags_Dirty: "anchor_Dirty (set_tags i ns w) a = anchor_Dirty w a"
  by (simp add: anchor_Dirty_def anchor_Valid_def set_tags_world split: option.split)

lemma set_tags_other: "a \<notin> set ns \<Longrightarrow> cn_anchor (set_tags i ns w) a = cn_anchor w a"
  by (induction ns arbitrary: i w) (simp_all add: SetTag_def upd_anchor_def)

lemma set_tags_nth:
  assumes "distinct ns" and "k < length ns"
  shows "an_tag (cn_anchor (set_tags i ns w) (ns ! k)) = int (i + k)"
  using assms
proof (induction ns arbitrary: i k w)
  case (Cons n ns)
  show ?case
  proof (cases k)
    case 0
    then show ?thesis using Cons.prems(1) by (simp add: set_tags_other SetTag_def upd_anchor_def)
  next
    case (Suc j)
    then show ?thesis using Cons.IH [of j "i + 1"] Cons.prems by simp
  qed
qed simp

section \<open>The spanning tree\<close>

text \<open>An edge between two nodes that are there.\<close>

definition edge_ok :: "CN_WORLD \<Rightarrow> nat set \<Rightarrow> CN_EDGE \<Rightarrow> bool" where
  "edge_ok w V e \<longleftrightarrow> (case (ed_source e, ed_target e) of
     (Some s, Some t) \<Rightarrow> s \<in> V \<and> t \<in> V \<and> \<not> anchor_Dirty w s \<and> \<not> anchor_Dirty w t
   | _ \<Rightarrow> False)"

definition ends :: "CN_EDGE \<Rightarrow> nat \<times> nat" where
  "ends e = (the (ed_source e), the (ed_target e))"

lemma ends_make [simp]: "ends (CN_EDGE_make a b n) = (a, b)"
  by (simp add: ends_def CN_EDGE_make_def)

lemma edge_okD:
  assumes "edge_ok w V e"
  shows "ed_source e = Some (fst (ends e))" "ed_target e = Some (snd (ends e))" "fst (ends e) \<in> V" "snd (ends e) \<in> V"
    "\<not> anchor_Dirty w (fst (ends e))" "\<not> anchor_Dirty w (snd (ends e))"
  using assms by (auto simp: edge_ok_def ends_def split: option.splits)

lemma edge_ok_ends: "\<forall>e \<in> set es. edge_ok w V e \<Longrightarrow> ends ` set es \<subseteq> V \<times> V"
  using edge_okD(3,4) by (metis image_subsetI mem_Times_iff)

text \<open>The classes of the disjoint set are what the edges so far connect.\<close>

definition classes_linked :: "(nat \<Rightarrow> nat) \<Rightarrow> nat set \<Rightarrow> disjoint_set \<Rightarrow> (nat \<times> nat) set \<Rightarrow> bool" where
  "classes_linked tg V d E \<longleftrightarrow> ds_ok d \<and> (\<forall>a \<in> V. tg a < ds_size d) \<and>
     (\<forall>a \<in> V. \<forall>b \<in> V. same_class d (tg a) (tg b) \<longleftrightarrow> (a, b) \<in> linked_by E)"

lemma classes_unite:
  assumes "classes_linked tg V d E" and "a \<in> V" "b \<in> V"
  shows "\<exists>d'. ds_unite (tg a) (tg b) d = Some ((a, b) \<notin> linked_by E, d') \<and> classes_linked tg V d' (insert (a, b) E)"
proof -
  have d: "ds_ok d" "\<And>x. x \<in> V \<Longrightarrow> tg x < ds_size d" "\<And>x y. x \<in> V \<Longrightarrow> y \<in> V \<Longrightarrow> same_class d (tg x) (tg y) \<longleftrightarrow> (x, y) \<in> linked_by E"
    using assms(1) by (auto simp: classes_linked_def)
  from ds_unite_ok [OF d(1) d(2) [OF assms(2)] d(2) [OF assms(3)]] obtain d' where
    u: "ds_unite (tg a) (tg b) d = Some (\<not> same_class d (tg a) (tg b), d')" "ds_ok d'" "ds_size d' = ds_size d"
    "\<And>i j. i < ds_size d \<Longrightarrow> j < ds_size d \<Longrightarrow> same_class d' i j \<longleftrightarrow>
       same_class d i j \<or> same_class d i (tg a) \<and> same_class d j (tg b) \<or> same_class d i (tg b) \<and> same_class d j (tg a)" by blast
  have "same_class d' (tg x) (tg y) \<longleftrightarrow> (x, y) \<in> linked_by (insert (a, b) E)" if "x \<in> V" "y \<in> V" for x y
    unfolding u(4) [OF d(2) [OF that(1)] d(2) [OF that(2)]] linked_insert d(3) [OF that] d(3) [OF that(1) assms(2)]
      d(3) [OF that(1) assms(3)] d(3) [OF that(2) assms(2)] d(3) [OF that(2) assms(3)]
    using linked_sym [of y a E] linked_sym [of a y E] linked_sym [of y b E] linked_sym [of b y E] by blast
  then show ?thesis using u(1,2,3) d(2) d(3) [OF assms(2,3)] by (simp add: classes_linked_def)
qed

lemma kruskal_loop:
  assumes "\<forall>a \<in> V. an_tag (cn_anchor w a) = int (tg a)" and "\<forall>e \<in> set es. edge_ok w V e" and "classes_linked tg V d E"
  shows "\<exists>d'. fold_opt (kruskal_edge w) es (d, acc) = Some (d', acc @ filter (\<lambda>e. ed_weight e > 0) (forest ends E es))"
  using assms(2,3)
proof (induction es arbitrary: d E acc)
  case (Cons e es)
  let ?a = "fst (ends e)" and ?b = "snd (ends e)"
  have ok: "edge_ok w V e" using Cons.prems(1) by simp
  note e = edge_okD [OF ok]
  from classes_unite [OF Cons.prems(2) e(3,4)] obtain d1 where
    u: "ds_unite (tg ?a) (tg ?b) d = Some ((?a, ?b) \<notin> linked_by E, d1)" "classes_linked tg V d1 (insert (?a, ?b) E)" by blast
  let ?acc = "if (?a, ?b) \<notin> linked_by E \<and> ed_weight e > 0 then acc @ [e] else acc"
  have "kruskal_edge w e (d, acc) = Some (d1, ?acc)"
    using assms(1) e u(1) by (simp add: kruskal_edge_def)
  moreover have "\<forall>e \<in> set es. edge_ok w V e" using Cons.prems(1) by simp
  ultimately show ?case using Cons.IH [OF _ u(2), of ?acc] by auto
qed simp

lemma kruskalMST_forest:
  assumes "distinct (rn_nodes net)" and "\<forall>e \<in> set es. edge_ok w (set (rn_nodes net)) e"
  shows "kruskalMST es net w =
    Some (net\<lparr> rn_rnEdges := filter (\<lambda>e. ed_weight e > 0) (forest ends {} es) \<rparr>, set_tags 0 (rn_nodes net) w)"
proof -
  let ?ns = "rn_nodes net" and ?w = "set_tags 0 (rn_nodes net) w"
  define tg where "tg = the_inv_into {..<length ?ns} (nth ?ns)"
  have tg: "tg (?ns ! k) = k" if "k < length ?ns" for k
    using that inj_on_nth [OF assms(1)] by (simp add: tg_def the_inv_into_f_f)
  have idx: "\<exists>k < length ?ns. a = ?ns ! k" if "a \<in> set ?ns" for a using that by (metis in_set_conv_nth)
  have tags: "\<forall>a \<in> set ?ns. an_tag (cn_anchor ?w a) = int (tg a)"
    using idx set_tags_nth [OF assms(1), of _ 0 w] tg by force
  have "same_class (disjoint_set_make (length ?ns)) (tg a) (tg b) \<longleftrightarrow> (a, b) \<in> linked_by {}" if "a \<in> set ?ns" "b \<in> set ?ns" for a b
    using idx [OF that(1)] idx [OF that(2)] tg assms(1)
    by (auto simp: disjoint_set_make_class linked_by_def nth_eq_iff_index_eq)
  then have "classes_linked tg (set ?ns) (disjoint_set_make (length ?ns)) {}"
    using idx tg disjoint_set_make_ok [of "length ?ns"] by (force simp: classes_linked_def)
  moreover have "\<forall>e \<in> set es. edge_ok ?w (set ?ns) e"
    using assms(2) unfolding edge_ok_def set_tags_Dirty .
  ultimately show ?thesis
    using kruskal_loop [OF tags, of es "disjoint_set_make (length ?ns)" "{}" "[]"] by (auto simp: kruskalMST_def Let_def)
qed

text \<open>What the edges that cost nothing connect is there already.\<close>

definition zero_edges :: "CN_EDGE list \<Rightarrow> CN_EDGE set" where
  "zero_edges es = {e \<in> set es. ed_weight e = 0}"

lemma forest_weights: "sum_list (map ed_weight (filter (\<lambda>e. ed_weight e > 0) es)) = sum_list (map ed_weight es)"
  by (induction es) auto

lemma forest_zero_linked:
  "linked_by (ends ` (set (filter (\<lambda>e. ed_weight e > 0) (forest ends {} es)) \<union> zero_edges es)) = linked_by (ends ` set es)"
proof (rule antisym)
  let ?rn = "set (filter (\<lambda>e. ed_weight e > 0) (forest ends {} es))"
  have "?rn \<union> zero_edges es \<subseteq> set es" using forest_subset [of ends "{}" es] by (auto simp: zero_edges_def)
  then show "linked_by (ends ` (?rn \<union> zero_edges es)) \<subseteq> linked_by (ends ` set es)" by (intro linked_mono image_mono)
  have "set (forest ends {} es) \<subseteq> ?rn \<union> zero_edges es" using forest_subset [of ends "{}" es] by (auto simp: zero_edges_def)
  then have "linked_by (ends ` set (forest ends {} es)) \<subseteq> linked_by (ends ` (?rn \<union> zero_edges es))" by (intro linked_mono image_mono)
  then show "linked_by (ends ` set es) \<subseteq> linked_by (ends ` (?rn \<union> zero_edges es))"
    using forest_linked [of "{}" ends es] by simp
qed


section \<open>The triangulation connects the nodes\<close>

text \<open>
  What the library promises: for points that are distinct and not on a line, indices of points in
  groups of three, a half edge for each or none, and the edges of the triangles connect all points.
\<close>

definition colinear :: "(int \<times> int) list \<Rightarrow> bool" where
  "colinear ps \<longleftrightarrow> (\<forall>i < length ps. v_Cross (v_minus (ps ! 1) (ps ! 0)) (v_minus (ps ! i) (ps ! 0)) = 0)"

definition delaunay_ok :: "RN_PARAMS \<Rightarrow> bool" where
  "delaunay_ok p \<longleftrightarrow> (\<forall>ps. distinct ps \<and> \<not> colinear ps \<longrightarrow>
     length (rp_halfedges p ps) = length (rp_triangles p ps) \<and>
     (\<forall>t \<in> set (rp_triangles p ps). t < length ps) \<and>
     (\<forall>h \<in> set (rp_halfedges p ps). \<forall>i. h = Some i \<longrightarrow> i < length (rp_triangles p ps)) \<and>
     (\<forall>i < length ps. \<forall>j < length ps. (i, j) \<in> linked_by (set (triangle_pairs (rp_triangles p ps)))))"

lemma linked_image:
  assumes "(u, v) \<in> linked_by E" and "\<And>a b. (a, b) \<in> E \<Longrightarrow> (f a, f b) \<in> linked_by F"
  shows "(f u, f v) \<in> linked_by F"
proof -
  have "(u, v) \<in> (E \<union> E\<inverse>)\<^sup>*" using assms(1) by (simp add: linked_by_def)
  then show ?thesis
  proof (induction rule: rtrancl_induct)
    case (step y z)
    then have "(f y, f z) \<in> linked_by F" using assms(2) [of y z] assms(2) [of z y] linked_sym [of "f z" "f y" F] by blast
    then show ?case using step.IH linked_trans [of "f u" "f y" F "f z"] by blast
  qed simp
qed

lemma consecutive_linked:
  assumes "set (consecutive xs) \<subseteq> linked_by F" and "a \<in> set xs" "b \<in> set xs"
  shows "(a, b) \<in> linked_by F"
proof -
  have "(hd xs, c) \<in> linked_by F" if "c \<in> set xs" for c
    using assms(1) that
  proof (induction xs rule: induct_list012)
    case (3 x y zs)
    have "set (consecutive (y # zs)) \<subseteq> linked_by F" "(x, y) \<in> linked_by F" using 3(3) by (auto simp: consecutive_def)
    then show ?case using 3(2,4) linked_trans [of x y F c] by auto
  qed simp_all
  then show ?thesis using assms(2,3) linked_sym [of "hd xs" a F] linked_trans [of a "hd xs" F b] by blast
qed

lemma chain_edges_linked:
  assumes "ends ` set (chain_edges w chain) \<subseteq> F" and "a \<in> set chain" "b \<in> set chain"
  shows "(a, b) \<in> linked_by F"
proof (rule consecutive_linked)
  have "map ends (chain_edges w chain) = consecutive (sort_key (cluster_key w) chain)"
    by (simp add: chain_edges_def comp_def case_prod_unfold ends_make)
  then have "set (consecutive (sort_key (cluster_key w) chain)) \<subseteq> ends ` set (chain_edges w chain)"
    by (metis order_refl set_map)
  then show "set (consecutive (sort_key (cluster_key w) chain)) \<subseteq> linked_by F" using assms(1) linked_subset [of F] by blast
qed (use assms in simp_all)

text \<open>The anchors have strictly increasing positions, and each chain holds the nodes at one of them.\<close>

definition chain_at :: "CN_WORLD \<Rightarrow> nat \<Rightarrow> nat list \<Rightarrow> bool" where
  "chain_at w a c \<longleftrightarrow> c \<noteq> [] \<and> hd c = a \<and> (\<forall>x \<in> set c. an_Pos w x = an_Pos w a)"

definition chains_ok :: "CN_WORLD \<Rightarrow> nat list \<Rightarrow> nat list \<times> nat list list \<Rightarrow> bool" where
  "chains_ok w ns s \<longleftrightarrow> (case s of (anchors, cs) \<Rightarrow>
     concat cs = ns \<and> sorted_wrt (CN_PTR_CMP w) anchors \<and> list_all2 (chain_at w) anchors cs)"

lemma chain_anchors: "list_all2 (chain_at w) anchors cs \<Longrightarrow> set anchors \<subseteq> set (concat cs)"
  by (induction rule: list_all2_induct) (auto simp: chain_at_def)

lemma CN_PTR_CMP_trans: "CN_PTR_CMP w a b \<Longrightarrow> CN_PTR_CMP w b c \<Longrightarrow> CN_PTR_CMP w a c"
  by (auto simp: CN_PTR_CMP_def split: if_splits)

lemma CN_PTR_CMP_total: "\<not> CN_PTR_CMP w b a \<Longrightarrow> an_Pos w a \<noteq> an_Pos w b \<Longrightarrow> CN_PTR_CMP w a b"
  by (auto simp: CN_PTR_CMP_def prod_eq_iff split: if_splits)

lemma add_to_chain_ok:
  assumes "chains_ok w ns s" and "nodes_sorted w (ns @ [n])"
  shows "chains_ok w (ns @ [n]) (add_to_chain w n s)"
proof -
  obtain anchors cs where s: "s = (anchors, cs)" by fastforce
  have ok: "concat cs = ns" "sorted_wrt (CN_PTR_CMP w) anchors" "list_all2 (chain_at w) anchors cs"
    using assms(1) s by (simp_all add: chains_ok_def)
  show ?thesis
  proof (cases "anchors = []")
    case True
    then show ?thesis using ok s by (simp add: add_to_chain_def chains_ok_def chain_at_def)
  next
    case False
    then obtain as a where a: "anchors = as @ [a]" by (metis append_butlast_last_id)
    then obtain bs c where c: "cs = bs @ [c]" "list_all2 (chain_at w) as bs" "chain_at w a c"
      using ok(3) by (auto simp: list_all2_append1 list_all2_Cons1)
    show ?thesis
    proof (cases "an_Pos w a = an_Pos w n")
      case True
      then have "chain_at w a (c @ [n])" using c(3) by (simp add: chain_at_def)
      then show ?thesis using True ok a c s by (simp add: add_to_chain_def chains_ok_def list_all2_appendI)
    next
      case new: False
      have "a \<in> set ns" using chain_anchors [OF ok(3)] ok(1) a by auto
      then have "CN_PTR_CMP w a n" using assms(2) CN_PTR_CMP_total [OF _ new] by (simp add: nodes_sorted_def sorted_wrt_append)
      then have "\<forall>b \<in> set anchors. CN_PTR_CMP w b n" using ok(2) a CN_PTR_CMP_trans [of w _ a n] by (auto simp: sorted_wrt_append)
      then have "sorted_wrt (CN_PTR_CMP w) (anchors @ [n])" using ok(2) by (simp add: sorted_wrt_append)
      moreover have "list_all2 (chain_at w) (anchors @ [n]) (cs @ [[n]])"
        using ok(3) by (rule list_all2_appendI) (simp add: chain_at_def)
      moreover have "add_to_chain w n s = (anchors @ [n], cs @ [[n]])" using new a s by (simp add: add_to_chain_def)
      ultimately show ?thesis using ok(1) by (simp add: chains_ok_def)
    qed
  qed
qed

lemma chains_ok_fold:
  assumes "nodes_sorted w ns"
  shows "chains_ok w ns (fold (add_to_chain w) ns ([], []))"
  using assms
proof (induction ns rule: rev_induct)
  case (snoc n ns)
  then have "nodes_sorted w ns" by (simp add: nodes_sorted_def sorted_wrt_append)
  then show ?case using add_to_chain_ok [OF snoc.IH snoc.prems] by simp
qed (simp add: chains_ok_def)

lemma CMP_distinct: "sorted_wrt (CN_PTR_CMP w) anchors \<Longrightarrow> distinct (map (an_Pos w) anchors)"
  by (induction anchors) (auto simp: CN_PTR_CMP_def)

section \<open>The edges of the triangulation\<close>

text \<open>The pairs of anchors that the triangulation joins, on a line or not.\<close>

definition anchor_pairs :: "RN_PARAMS \<Rightarrow> CN_WORLD \<Rightarrow> nat list \<Rightarrow> (nat \<times> nat) list" where
  "anchor_pairs p w anchors =
     (let node_pts = map (an_Pos w) anchors; triangles = rp_triangles p node_pts
      in if areNodesColinear w anchors then consecutive anchors
         else map (\<lambda>(i, j). (anchors ! i, anchors ! j))
                (triangle_pairs triangles @ halfedge_pairs triangles (rp_halfedges p node_pts)))"

lemma Triangulate_eq:
  assumes "fold (add_to_chain w) ns ([], []) = (anchors, cs)" and "2 \<le> length anchors"
  shows "Triangulate p w ns = map (\<lambda>(src, dst). CN_EDGE_make src dst (anchor_Dist p w src dst)) (anchor_pairs p w anchors) @
    concat (map (chain_edges w) cs)"
  using assms by (simp add: Triangulate_def anchor_pairs_def Let_def comp_def case_prod_unfold)

lemma not_colinear:
  assumes "\<not> areNodesColinear w anchors"
  shows "\<not> colinear (map (an_Pos w) anchors)"
proof -
  obtain i where "2 \<le> i" "i < length anchors"
    "v_Cross (v_minus (an_Pos w (anchors ! 1)) (an_Pos w (anchors ! 0))) (v_minus (an_Pos w (anchors ! i)) (an_Pos w (anchors ! 0))) \<noteq> 0"
    using assms by (auto simp: areNodesColinear_def Let_def list_all_iff)
  moreover have "1 < length anchors" "0 < length anchors" using calculation(1,2) by linarith+
  ultimately show ?thesis by (auto simp: colinear_def intro!: exI [of _ i])
qed

lemma consecutive_set: "set (consecutive xs) \<subseteq> set xs \<times> set xs"
  by (cases xs) (auto simp: consecutive_def dest: set_zip_leftD set_zip_rightD)

lemma triangle_index: "(i, j) \<in> set (triangle_pairs ts) \<Longrightarrow> i \<in> set ts \<and> j \<in> set ts"
  by (auto simp: triangle_pairs_def)

lemma halfedge_index:
  assumes "(i, j) \<in> set (halfedge_pairs ts hs)" and "length hs = length ts" and "\<forall>h \<in> set hs. \<forall>i. h = Some i \<longrightarrow> i < length ts"
  shows "i \<in> set ts \<and> j \<in> set ts"
  using assms by (auto simp: halfedge_pairs_def split: option.splits) (metis nth_mem)+


lemma chain_of_node:
  assumes "chains_ok w ns (anchors, cs)" and "a \<in> set ns"
  shows "\<exists>c \<in> set cs. a \<in> set c \<and> hd c \<in> set c \<and> hd c \<in> set anchors \<and> an_Pos w a = an_Pos w (hd c)"
proof -
  obtain c where c: "c \<in> set cs" "a \<in> set c" using assms by (auto simp: chains_ok_def)
  then obtain i where i: "i < length cs" "c = cs ! i" by (metis in_set_conv_nth)
  have l: "list_all2 (chain_at w) anchors cs" using assms(1) by (simp add: chains_ok_def)
  then have ch: "chain_at w (anchors ! i) c" "i < length anchors" using i by (auto simp: list_all2_conv_all_nth)
  have "c \<noteq> []" using c(2) by auto
  then have "hd c \<in> set c" by simp
  moreover have "hd c = anchors ! i" "an_Pos w a = an_Pos w (anchors ! i)" using ch(1) c(2) unfolding chain_at_def by blast+
  ultimately show ?thesis using c ch(2) by (intro bexI [of _ c]) simp_all
qed

lemma two_anchors:
  assumes "chains_ok w ns (anchors, cs)" and "a \<in> set ns" "b \<in> set ns" and "an_Pos w a \<noteq> an_Pos w b"
  shows "2 \<le> length anchors"
proof -
  obtain x y where "x \<in> set anchors" "y \<in> set anchors" "an_Pos w x = an_Pos w a" "an_Pos w y = an_Pos w b"
    using chain_of_node [OF assms(1,2)] chain_of_node [OF assms(1,3)] by metis
  then have xy: "{x, y} \<subseteq> set anchors" "x \<noteq> y" using assms(4) by auto
  have "card {x, y} \<le> card (set anchors)" using xy(1) by (intro card_mono) simp_all
  moreover have "card {x, y} = 2" using xy(2) by simp
  ultimately show ?thesis using card_length [of anchors] by linarith
qed

lemma delaunay_okD:
  assumes "delaunay_ok p" and "distinct ps \<and> \<not> colinear ps"
  shows "length (rp_halfedges p ps) = length (rp_triangles p ps)" "\<forall>t \<in> set (rp_triangles p ps). t < length ps"
    "\<forall>h \<in> set (rp_halfedges p ps). \<forall>i. h = Some i \<longrightarrow> i < length (rp_triangles p ps)"
    "\<forall>i < length ps. \<forall>j < length ps. (i, j) \<in> linked_by (set (triangle_pairs (rp_triangles p ps)))"
  using assms unfolding delaunay_ok_def by blast+

lemma anchor_pairs_ok:
  assumes "delaunay_ok p" and "sorted_wrt (CN_PTR_CMP w) anchors"
  shows "set (anchor_pairs p w anchors) \<subseteq> set anchors \<times> set anchors"
    and "\<forall>a \<in> set anchors. \<forall>b \<in> set anchors. (a, b) \<in> linked_by (set (anchor_pairs p w anchors))"
proof -
  let ?pts = "map (an_Pos w) anchors"
  let ?ts = "rp_triangles p ?pts" and ?hs = "rp_halfedges p ?pts"
  let ?pairs = "triangle_pairs ?ts @ halfedge_pairs ?ts ?hs" and ?f = "\<lambda>(i, j). (anchors ! i, anchors ! j)"
  show "set (anchor_pairs p w anchors) \<subseteq> set anchors \<times> set anchors"
    and "\<forall>a \<in> set anchors. \<forall>b \<in> set anchors. (a, b) \<in> linked_by (set (anchor_pairs p w anchors))"
  proof (atomize (full), cases "areNodesColinear w anchors")
    case True
    have "consecutive anchors = anchor_pairs p w anchors" using True by (simp add: anchor_pairs_def)
    then show "set (anchor_pairs p w anchors) \<subseteq> set anchors \<times> set anchors \<and>
        (\<forall>a \<in> set anchors. \<forall>b \<in> set anchors. (a, b) \<in> linked_by (set (anchor_pairs p w anchors)))"
      using consecutive_set [of anchors] consecutive_linked [of anchors "set (consecutive anchors)"] linked_subset by metis
  next
    case False
    then have eq: "anchor_pairs p w anchors = map ?f ?pairs" by (simp add: anchor_pairs_def Let_def)
    have "distinct ?pts \<and> \<not> colinear ?pts" using CMP_distinct [OF assms(2)] not_colinear [OF False] by simp
    note d = delaunay_okD [OF assms(1) this, unfolded length_map]
    have "i < length anchors \<and> j < length anchors" if "(i, j) \<in> set ?pairs" for i j
    proof -
      have "i \<in> set ?ts \<and> j \<in> set ?ts"
        using that triangle_index [of i j ?ts] halfedge_index [OF _ d(1,3), of i j] unfolding set_append Un_iff by blast
      then show ?thesis using d(2) by blast
    qed
    note index = this
    define prs where "prs = ?pairs"
    have pr: "anchor_pairs p w anchors = map ?f prs" unfolding eq prs_def ..
    have "?f q \<in> set anchors \<times> set anchors" if "q \<in> set prs" for q
    proof -
      obtain i j where q: "q = (i, j)" by fastforce
      then have "i < length anchors" "j < length anchors" using index that unfolding prs_def by blast+
      then show ?thesis by (simp add: q)
    qed
    then have sub: "set (anchor_pairs p w anchors) \<subseteq> set anchors \<times> set anchors" unfolding pr by auto
    have lk: "(a, b) \<in> linked_by (set (anchor_pairs p w anchors))" if "a \<in> set anchors" "b \<in> set anchors" for a b
    proof -
      obtain i j where ij: "i < length anchors" "j < length anchors" "a = anchors ! i" "b = anchors ! j"
        using \<open>a \<in> set anchors\<close> \<open>b \<in> set anchors\<close> by (metis in_set_conv_nth)
      have "(anchors ! i, anchors ! j) \<in> linked_by (set (anchor_pairs p w anchors))"
      proof (rule linked_image [where f = "nth anchors" and E = "set (triangle_pairs ?ts)"])
        show "(i, j) \<in> linked_by (set (triangle_pairs ?ts))" using d(4) ij(1,2) by blast
        fix k l assume "(k, l) \<in> set (triangle_pairs ?ts)"
        then have "(k, l) \<in> set prs" by (simp add: prs_def)
        then have "(anchors ! k, anchors ! l) \<in> set (anchor_pairs p w anchors)" unfolding pr by force
        then show "(anchors ! k, anchors ! l) \<in> linked_by (set (anchor_pairs p w anchors))" by (rule linked_edge)
      qed
      then show ?thesis using ij by simp
    qed
    show "set (anchor_pairs p w anchors) \<subseteq> set anchors \<times> set anchors \<and>
        (\<forall>a \<in> set anchors. \<forall>b \<in> set anchors. (a, b) \<in> linked_by (set (anchor_pairs p w anchors)))"
      using sub lk by blast
  qed
qed


text \<open>The library gives every line between different points a length.\<close>

definition norm_ok :: "RN_PARAMS \<Rightarrow> bool" where
  "norm_ok p \<longleftrightarrow> (\<forall>d > 0. 0 < rp_diag p d \<and> rp_diag p d < 2 ^ 31) \<and>
     (\<forall>x y. x \<noteq> 0 \<and> y \<noteq> 0 \<longrightarrow> 0 < rp_hypot p x y \<and> rp_hypot p x y < 2 ^ 31)"

lemma anchor_Dist_pos:
  assumes "norm_ok p" and "pos_bounded w a" "pos_bounded w b" and "an_Pos w a \<noteq> an_Pos w b"
  shows "anchor_Dist p w a b > 0"
proof -
  let ?v = "v_minus (an_Pos w a) (an_Pos w b)"
  have v: "\<bar>fst ?v\<bar> < 2 ^ 31" "\<bar>snd ?v\<bar> < 2 ^ 31" using assms(2,3) by (auto simp: pos_bounded_def v_minus_def)
  have nz: "fst ?v \<noteq> 0 \<or> snd ?v \<noteq> 0" using assms(4) by (auto simp: v_minus_def prod_eq_iff)
  have "0 < EuclideanNorm p ?v \<and> EuclideanNorm p ?v < 2 ^ 31"
  proof -
    have diag: "0 < rp_diag p d \<and> rp_diag p d < 2 ^ 31" if "d > 0" for d using assms(1) that unfolding norm_ok_def by blast
    have hyp: "0 < rp_hypot p x y \<and> rp_hypot p x y < 2 ^ 31" if "x \<noteq> 0" "y \<noteq> 0" for x y
      using assms(1) that unfolding norm_ok_def by blast
    show ?thesis
      using nz v diag [of "\<bar>fst ?v\<bar>"] hyp [of "fst ?v" "snd ?v"] by (auto simp: EuclideanNorm_def split: if_splits)
  qed
  then have "EuclideanNorm p ?v mod 2 ^ 32 = EuclideanNorm p ?v" by (intro mod_pos_pos_trivial) simp_all
  then show ?thesis using \<open>0 < EuclideanNorm p ?v \<and> EuclideanNorm p ?v < 2 ^ 31\<close> by (simp add: anchor_Dist_def)
qed

lemma anchor_pairs_distinct_pos:
  assumes "chains_ok w ns (anchors, cs)" and "a \<in> set anchors" "b \<in> set anchors" and "a \<noteq> b"
  shows "an_Pos w a \<noteq> an_Pos w b"
proof -
  have "distinct (map (an_Pos w) anchors)" using assms(1) CMP_distinct by (simp add: chains_ok_def)
  then show ?thesis using assms(2-4) by (auto simp: distinct_map inj_on_def)
qed


section \<open>The net\<close>

text \<open>The nodes of a net that the ratsnest is computed for.\<close>

definition net_ok :: "CN_WORLD \<Rightarrow> RN_NET \<Rightarrow> bool" where
  "net_ok w net \<longleftrightarrow> distinct (rn_nodes net) \<and> (\<forall>a \<in> set (rn_nodes net). pos_bounded w a \<and> \<not> anchor_Dirty w a) \<and>
     (\<forall>e \<in> set (rn_boardEdges net). edge_ok w (set (rn_nodes net)) e \<and> ed_weight e = 0)"

definition candidate_edges :: "RN_PARAMS \<Rightarrow> CN_WORLD \<Rightarrow> RN_NET \<Rightarrow> CN_EDGE list" where
  "candidate_edges p w net = Triangulate p w (fold (nodes_insert w) (rn_nodes net) []) @ rn_boardEdges net"

definition same_cluster :: "CN_WORLD \<Rightarrow> (nat \<times> nat) set" where
  "same_cluster w = {(a, b). an_cluster (cn_anchor w a) = an_cluster (cn_anchor w b)}"

lemma Triangulate_ok:
  assumes "delaunay_ok p" and "norm_ok p" and "nodes_sorted w ns" and "\<forall>a \<in> set ns. pos_bounded w a \<and> \<not> anchor_Dirty w a"
  shows "\<forall>e \<in> set (Triangulate p w ns). edge_ok w (set ns) e \<and> (ed_weight e = 0 \<longrightarrow> ends e \<in> same_cluster w)"
    and "a \<in> set ns \<Longrightarrow> b \<in> set ns \<Longrightarrow> an_Pos w a \<noteq> an_Pos w b \<Longrightarrow>
      \<forall>c \<in> set ns. \<forall>d \<in> set ns. (c, d) \<in> linked_by (ends ` set (Triangulate p w ns))"
proof -
  obtain anchors cs where f: "fold (add_to_chain w) ns ([], []) = (anchors, cs)" by fastforce
  have ok: "chains_ok w ns (anchors, cs)" using chains_ok_fold [OF assms(3)] f by simp
  have cs: "concat cs = ns" "sorted_wrt (CN_PTR_CMP w) anchors" using ok by (simp_all add: chains_ok_def)
  have an: "set anchors \<subseteq> set ns" using ok chain_anchors [of w anchors cs] by (simp add: chains_ok_def)
  note pairs = anchor_pairs_ok [OF assms(1) cs(2)]
  have edge: "edge_ok w (set ns) (CN_EDGE_make x y n)" if "x \<in> set ns" "y \<in> set ns" for x y n
    using that assms(4) by (simp add: edge_ok_def CN_EDGE_make_def)
  show "\<forall>e \<in> set (Triangulate p w ns). edge_ok w (set ns) e \<and> (ed_weight e = 0 \<longrightarrow> ends e \<in> same_cluster w)"
  proof (cases "2 \<le> length anchors")
    case True
    have one: "edge_ok w (set ns) e \<and> (ed_weight e = 0 \<longrightarrow> ends e \<in> same_cluster w)"
      if xy0: "(x, y) \<in> set (anchor_pairs p w anchors)" and e: "e = CN_EDGE_make x y (anchor_Dist p w x y)" for x y e
    proof -
      have xy: "x \<in> set anchors" "y \<in> set anchors" using xy0 pairs(1) by auto
      then have b: "x \<in> set ns" "y \<in> set ns" using an by blast+
      have "x = y" if "anchor_Dist p w x y = 0"
        using that anchor_Dist_pos [OF assms(2), of w x y] assms(4) b anchor_pairs_distinct_pos [OF ok xy] by fastforce
      then show ?thesis using e edge [OF b] by (auto simp: CN_EDGE_make_def ends_def same_cluster_def)
    qed
    have two: "edge_ok w (set ns) e \<and> (ed_weight e = 0 \<longrightarrow> ends e \<in> same_cluster w)"
      if c: "c \<in> set cs" and ce: "e \<in> set (chain_edges w c)" for c e
    proof -
      obtain x y where e: "(x, y) \<in> set (consecutive (sort_key (cluster_key w) c))"
        "e = CN_EDGE_make x y (if an_cluster (cn_anchor w x) \<noteq> an_cluster (cn_anchor w y) then 1 else 0)"
        using ce by (auto simp: chain_edges_def)
      then have "x \<in> set c" "y \<in> set c" using consecutive_set [of "sort_key (cluster_key w) c"] by auto
      then have "x \<in> set ns" "y \<in> set ns" using c cs(1) by auto
      then show ?thesis using e(2) edge by (auto simp: CN_EDGE_make_def ends_def same_cluster_def split: if_splits)
    qed
    show ?thesis unfolding Triangulate_eq [OF f True] using one two by auto
  next
    case False
    then have "Triangulate p w ns = []" using f by (simp add: Triangulate_def Let_def)
    then show ?thesis by simp
  qed
  assume "a \<in> set ns" "b \<in> set ns" "an_Pos w a \<noteq> an_Pos w b"
  note eq = Triangulate_eq [OF f two_anchors [OF ok this], of p]
  let ?F = "ends ` set (Triangulate p w ns)"
  have "set (anchor_pairs p w anchors) \<subseteq> ?F" unfolding eq by (force simp: image_iff)
  then have lk: "(x, y) \<in> linked_by ?F" if "x \<in> set anchors" "y \<in> set anchors" for x y
    using pairs(2) that linked_mono by blast
  have ch: "(x, y) \<in> linked_by ?F" if "c \<in> set cs" "x \<in> set c" "y \<in> set c" for c x y
    using chain_edges_linked [of w c ?F x y] that unfolding eq by (auto simp: image_Un)
  show "\<forall>c \<in> set ns. \<forall>d \<in> set ns. (c, d) \<in> linked_by ?F"
  proof (intro ballI)
    fix x y assume "x \<in> set ns" "y \<in> set ns"
    then obtain u v where "(x, u) \<in> linked_by ?F" "u \<in> set anchors" "(y, v) \<in> linked_by ?F" "v \<in> set anchors"
      using chain_of_node [OF ok] ch by metis
    then show "(x, y) \<in> linked_by ?F"
      using lk linked_trans [of x u ?F v] linked_trans [of x v ?F y] linked_sym [of y v ?F] by blast
  qed
qed


lemma candidate_edges_ok:
  assumes "delaunay_ok p" and "norm_ok p" and "net_ok w net"
  shows "\<forall>e \<in> set (candidate_edges p w net). edge_ok w (set (rn_nodes net)) e"
    and "zero_edges (candidate_edges p w net) \<subseteq> set (rn_boardEdges net) \<union> {e. ends e \<in> same_cluster w}"
proof -
  let ?ns = "fold (nodes_insert w) (rn_nodes net) []"
  have ns: "nodes_sorted w ?ns" "set ?ns = set (rn_nodes net)" using nodes_insert_all by blast+
  have "\<forall>a \<in> set ?ns. pos_bounded w a \<and> \<not> anchor_Dirty w a" using assms(3) ns(2) by (simp add: net_ok_def)
  note T = Triangulate_ok(1) [OF assms(1,2) ns(1) this, unfolded ns(2)]
  then show "\<forall>e \<in> set (candidate_edges p w net). edge_ok w (set (rn_nodes net)) e"
    using assms(3) by (auto simp: candidate_edges_def net_ok_def)
  show "zero_edges (candidate_edges p w net) \<subseteq> set (rn_boardEdges net) \<union> {e. ends e \<in> same_cluster w}"
    using T by (auto simp: zero_edges_def candidate_edges_def)
qed

lemma rn_compute_kruskal:
  "\<not> length (rn_nodes net) \<le> 2 \<Longrightarrow> rn_compute p net w = kruskalMST (sort_key ed_weight (candidate_edges p w net)) net w"
  by (simp add: rn_compute_def candidate_edges_def Let_def)

text \<open>Three or more nodes at one position get no ratsnest at all, whatever their clusters.\<close>

lemma rn_compute_same_position:
  assumes "\<not> length (rn_nodes net) \<le> 2" and "\<forall>a \<in> set (rn_nodes net). an_Pos w a = q" and "rn_boardEdges net = []"
  shows "\<exists>w'. rn_compute p net w = Some (net\<lparr> rn_rnEdges := [] \<rparr>, w')"
proof -
  let ?ns = "fold (nodes_insert w) (rn_nodes net) []"
  obtain anchors cs where f: "fold (add_to_chain w) ?ns ([], []) = (anchors, cs)" by fastforce
  have ns: "nodes_sorted w ?ns" "set ?ns = set (rn_nodes net)" using nodes_insert_all by blast+
  have ok: "chains_ok w ?ns (anchors, cs)" using chains_ok_fold [OF ns(1)] f by simp
  then have "set anchors \<subseteq> set ?ns" using chain_anchors [of w anchors cs] by (simp add: chains_ok_def)
  then have "\<not> 2 \<le> length anchors"
    using ok assms(2) ns(2) by (cases anchors; cases "tl anchors") (auto simp: chains_ok_def CN_PTR_CMP_def)
  then have "candidate_edges p w net = []" using f assms(3) by (simp add: candidate_edges_def Triangulate_def Let_def)
  then show ?thesis by (simp add: rn_compute_kruskal [OF assms(1)] kruskalMST_def Let_def)
qed

section \<open>Properties\<close>

text \<open>A triangulation that joins the first point to all others.\<close>

definition demo_params :: RN_PARAMS where
  "demo_params =
     \<lparr> rp_diag = (\<lambda>d. 1000), rp_hypot = (\<lambda>x y. 1000),
       rp_triangles = (\<lambda>ps. concat (map (\<lambda>i. [0, i, i]) [0..<length ps])),
       rp_halfedges = (\<lambda>ps. replicate (3 * length ps) None) \<rparr>"

lemma demo_params_ok: "delaunay_ok demo_params" "norm_ok demo_params"
proof -
  have len: "length (concat (map (\<lambda>i. [0, i, i]) [0..<n])) = 3 * n" for n :: nat
    by (induction n) simp_all
  have nth: "concat (map (\<lambda>i. [0, i, i]) [0..<n]) ! (3 * i) = 0 \<and> concat (map (\<lambda>i. [0, i, i]) [0..<n]) ! (3 * i + 1) = i" if "i < n" for i n :: nat
    using that
  proof (induction n)
    case (Suc n)
    then show ?case using len [of n] by (cases "i < n") (auto simp: nth_append less_Suc_eq)
  qed simp
  have z: "(0, i) \<in> linked_by (set (triangle_pairs (rp_triangles demo_params ps)))" if i: "i < length ps" for i ps
  proof (rule linked_edge)
    show "(0, i) \<in> set (triangle_pairs (rp_triangles demo_params ps))"
      using i nth [OF i] len [of "length ps"] by (auto simp: triangle_pairs_def demo_params_def intro!: bexI [of _ i])
  qed
  have lk: "(i, j) \<in> linked_by (set (triangle_pairs (rp_triangles demo_params ps)))" if "i < length ps" "j < length ps" for i j ps
    using linked_trans [OF linked_sym [OF z [OF that(1)]] z [OF that(2)]] .
  show "delaunay_ok demo_params"
    unfolding delaunay_ok_def
  proof (intro allI impI conjI ballI)
    fix ps t assume "distinct ps \<and> \<not> colinear ps" "t \<in> set (rp_triangles demo_params ps)"
    then show "t < length ps" by (auto simp: demo_params_def split: if_splits)
  next
    fix ps h i assume "h \<in> set (rp_halfedges demo_params ps)" "h = Some i"
    then show "i < length (rp_triangles demo_params ps)" by (simp add: demo_params_def)
  qed (use lk len in \<open>simp_all add: demo_params_def\<close>)
  show "norm_ok demo_params" by (simp add: norm_ok_def demo_params_def)
qed

lemma demo_net_ok: "net_ok demo_rn_world demo_net"
  by (simp add: net_ok_def demo_net_def pos_bounded_def an_Pos_def anchor_Dirty_def anchor_Valid_def edge_ok_def CN_EDGE_make_def
      demo_rn_world_def demo_anchor_def CN_ITEM_make_def eval_nat_numeral)

lemma kruskalMST_spans:
  assumes "distinct (rn_nodes net)" and "\<forall>e \<in> set es. edge_ok w (set (rn_nodes net)) e" and "sorted (map ed_weight es)"
  shows "\<exists>rn. kruskalMST es net w = Some (net\<lparr> rn_rnEdges := rn \<rparr>, set_tags 0 (rn_nodes net) w) \<and>
    set rn \<subseteq> {e \<in> set es. ed_weight e > 0} \<and>
    linked_by (ends ` (set rn \<union> zero_edges es)) = linked_by (ends ` set es) \<and>
    (\<forall>F. set F \<subseteq> set es \<and> linked_by (ends ` set F) = linked_by (ends ` set es) \<longrightarrow>
       sum_list (map ed_weight rn) \<le> sum_list (map ed_weight F))"
proof -
  let ?rn = "filter (\<lambda>e. ed_weight e > 0) (forest ends {} es)"
  have V: "ends ` set es \<subseteq> set (rn_nodes net) \<times> set (rn_nodes net)" by (rule edge_ok_ends [OF assms(2)])
  have "sum_list (map ed_weight ?rn) \<le> sum_list (map ed_weight F)"
    if "set F \<subseteq> set es \<and> linked_by (ends ` set F) = linked_by (ends ` set es)" for F
    using forest_minimal [OF finite_set V assms(3)] that unfolding forest_weights by blast
  moreover have "set ?rn \<subseteq> {e \<in> set es. ed_weight e > 0}" using forest_subset [of ends "{}" es] by auto
  ultimately show ?thesis
    using kruskalMST_forest [OF assms(1,2)] forest_zero_linked [of es] by (intro exI [of _ ?rn]) simp
qed

text \<open>
  The ratsnest of three or more nodes: lines among the candidates that, with the edges of the board and the
  clusters, connect all nodes when these are not all at one position.
\<close>

lemma rn_compute_spans:
  assumes "delaunay_ok p" and "norm_ok p" and "net_ok w net" and "\<not> length (rn_nodes net) \<le> 2"
  shows "\<exists>rn. rn_compute p net w = Some (net\<lparr> rn_rnEdges := rn \<rparr>, set_tags 0 (rn_nodes net) w) \<and>
    set rn \<subseteq> set (candidate_edges p w net) \<and>
    (\<forall>a \<in> set (rn_nodes net). \<forall>b \<in> set (rn_nodes net). an_Pos w a \<noteq> an_Pos w b \<longrightarrow>
       (\<forall>c \<in> set (rn_nodes net). \<forall>d \<in> set (rn_nodes net).
          (c, d) \<in> linked_by (ends ` set rn \<union> ends ` set (rn_boardEdges net) \<union> same_cluster w)) \<and>
       (\<forall>F. set F \<subseteq> set (candidate_edges p w net) \<and>
            (\<forall>c \<in> set (rn_nodes net). \<forall>d \<in> set (rn_nodes net). (c, d) \<in> linked_by (ends ` set F)) \<longrightarrow>
          sum_list (map ed_weight rn) \<le> sum_list (map ed_weight F)))"
proof -
  let ?es = "candidate_edges p w net" and ?ns = "fold (nodes_insert w) (rn_nodes net) []" and ?V = "set (rn_nodes net)"
  let ?s = "sort_key ed_weight ?es"
  have d: "distinct (rn_nodes net)" using assms(3) by (simp add: net_ok_def)
  note cand = candidate_edges_ok [OF assms(1-3)]
  have es: "\<forall>e \<in> set ?s. edge_ok w ?V e" "sorted (map ed_weight ?s)" using cand(1) by simp_all
  from kruskalMST_spans [OF d es] obtain rn where k: "kruskalMST ?s net w = Some (net\<lparr> rn_rnEdges := rn \<rparr>, set_tags 0 (rn_nodes net) w)"
    "set rn \<subseteq> set ?s" "linked_by (ends ` (set rn \<union> zero_edges ?s)) = linked_by (ends ` set ?s)"
    "\<And>F. set F \<subseteq> set ?s \<Longrightarrow> linked_by (ends ` set F) = linked_by (ends ` set ?s) \<Longrightarrow>
       sum_list (map ed_weight rn) \<le> sum_list (map ed_weight F)" by blast
  have ns: "nodes_sorted w ?ns" "set ?ns = ?V" using nodes_insert_all by blast+
  have ok: "\<forall>a \<in> set ?ns. pos_bounded w a \<and> \<not> anchor_Dirty w a" using assms(3) ns(2) by (simp add: net_ok_def)
  have V: "ends ` set ?es \<subseteq> ?V \<times> ?V" by (rule edge_ok_ends [OF cand(1)])
  let ?G = "ends ` set rn \<union> ends ` set (rn_boardEdges net) \<union> same_cluster w"
  have "zero_edges ?s = zero_edges ?es" by (simp add: zero_edges_def)
  then have "ends ` (set rn \<union> zero_edges ?s) \<subseteq> ?G" using cand(2) by blast
  then have G: "linked_by (ends ` set ?s) \<subseteq> linked_by ?G" using linked_mono k(3) by metis
  have "(\<forall>c \<in> ?V. \<forall>d \<in> ?V. (c, d) \<in> linked_by ?G) \<and>
      (\<forall>F. set F \<subseteq> set ?es \<and> (\<forall>c \<in> ?V. \<forall>d \<in> ?V. (c, d) \<in> linked_by (ends ` set F)) \<longrightarrow>
          sum_list (map ed_weight rn) \<le> sum_list (map ed_weight F))"
    if ab: "a \<in> ?V" "b \<in> ?V" "an_Pos w a \<noteq> an_Pos w b" for a b
  proof -
    note T = Triangulate_ok(2) [OF assms(1,2) ns(1) ok, unfolded ns(2), OF ab]
    have "linked_by (ends ` set (Triangulate p w ?ns)) \<subseteq> linked_by (ends ` set ?es)"
      by (rule linked_mono) (auto simp: candidate_edges_def)
    then have all: "(x, y) \<in> linked_by (ends ` set ?es)" if "x \<in> ?V" "y \<in> ?V" for x y using T that by blast
    have "sum_list (map ed_weight rn) \<le> sum_list (map ed_weight F)"
      if F: "set F \<subseteq> set ?es" "\<forall>c \<in> ?V. \<forall>d \<in> ?V. (c, d) \<in> linked_by (ends ` set F)" for F
    proof (rule k(4))
      have "linked_by (ends ` set F) \<subseteq> linked_by (ends ` set ?es)" using F(1) by (intro linked_mono image_mono)
      moreover have "ends ` set ?es \<subseteq> linked_by (ends ` set F)" using V F(2) by auto
      then have "linked_by (ends ` set ?es) \<subseteq> linked_by (ends ` set F)" by (rule linked_least)
      ultimately show "linked_by (ends ` set F) = linked_by (ends ` set ?s)" by simp
    qed (use F in simp)
    then show ?thesis using all G by (simp only: set_sort) blast
  qed
  then show ?thesis using k(1,2) rn_compute_kruskal [OF assms(4)] by (intro exI [of _ rn]) simp
qed

text \<open>
  C8. Over edges sorted by weight between nodes that are there, the spanning tree returns; the ratsnest
  consists of edges that cost something; with the edges that cost nothing it connects exactly what all
  the edges connect; and its weight is least among all choices of edges that connect as much.
\<close>

theorem kruskalMST_least:
  assumes "distinct (rn_nodes net)" and "\<forall>e \<in> set es. edge_ok w (set (rn_nodes net)) e" and "sorted (map ed_weight es)"
  shows "\<exists>net' w'. kruskalMST es net w = Some (net', w') \<and>
    set (rn_rnEdges net') \<subseteq> {e \<in> set es. ed_weight e > 0} \<and>
    linked_by (ends ` (set (rn_rnEdges net') \<union> zero_edges es)) = linked_by (ends ` set es) \<and>
    (\<forall>F. set F \<subseteq> set es \<and> linked_by (ends ` set F) = linked_by (ends ` set es) \<longrightarrow>
       sum_list (map ed_weight (rn_rnEdges net')) \<le> sum_list (map ed_weight F))"
  using kruskalMST_spans [OF assms] by fastforce


definition demo_edges :: "CN_EDGE list" where
  "demo_edges = [CN_EDGE_make 0 1 0, CN_EDGE_make 1 2 3, CN_EDGE_make 0 2 4, CN_EDGE_make 2 3 5]"

lemma demo_edges_ok: "\<forall>e \<in> set demo_edges. edge_ok demo_rn_world (set (rn_nodes demo_net)) e" "sorted (map ed_weight demo_edges)"
  by (simp_all add: demo_edges_def edge_ok_def CN_EDGE_make_def demo_net_def anchor_Dirty_def anchor_Valid_def demo_rn_world_def
      demo_anchor_def CN_ITEM_make_def)

theorem kruskalMST_least_witness:
  "\<exists>net' w'. kruskalMST demo_edges demo_net demo_rn_world = Some (net', w') \<and>
    sum_list (map ed_weight (rn_rnEdges net')) \<le> sum_list (map ed_weight demo_edges)"
proof -
  have "distinct (rn_nodes demo_net)" by (simp add: demo_net_def)
  from kruskalMST_least [OF this demo_edges_ok] show ?thesis by blast
qed

text \<open>
  C5. For a net with three or more nodes at two or more positions the ratsnest is computed, and its lines,
  with the edges of the board and the nodes of the same cluster, connect all nodes of the net. No
  other choice of lines among the triangulation and the board that connects all nodes weighs less.
\<close>

theorem rn_compute_connects:
  assumes "delaunay_ok p" and "norm_ok p" and "net_ok w net" and "\<not> length (rn_nodes net) \<le> 2"
    and "a \<in> set (rn_nodes net)" "b \<in> set (rn_nodes net)" "an_Pos w a \<noteq> an_Pos w b"
  shows "\<exists>net' w'. rn_compute p net w = Some (net', w') \<and>
    (\<forall>c \<in> set (rn_nodes net). \<forall>d \<in> set (rn_nodes net).
       (c, d) \<in> linked_by (ends ` set (rn_rnEdges net') \<union> ends ` set (rn_boardEdges net) \<union> same_cluster w)) \<and>
    (\<forall>F. set F \<subseteq> set (candidate_edges p w net) \<and>
         (\<forall>c \<in> set (rn_nodes net). \<forall>d \<in> set (rn_nodes net). (c, d) \<in> linked_by (ends ` set F)) \<longrightarrow>
       sum_list (map ed_weight (rn_rnEdges net')) \<le> sum_list (map ed_weight F))"
proof -
  obtain rn where "rn_compute p net w = Some (net\<lparr> rn_rnEdges := rn \<rparr>, set_tags 0 (rn_nodes net) w)"
    and "(\<forall>c \<in> set (rn_nodes net). \<forall>d \<in> set (rn_nodes net).
       (c, d) \<in> linked_by (ends ` set rn \<union> ends ` set (rn_boardEdges net) \<union> same_cluster w)) \<and>
    (\<forall>F. set F \<subseteq> set (candidate_edges p w net) \<and>
         (\<forall>c \<in> set (rn_nodes net). \<forall>d \<in> set (rn_nodes net). (c, d) \<in> linked_by (ends ` set F)) \<longrightarrow>
       sum_list (map ed_weight rn) \<le> sum_list (map ed_weight F))"
    using rn_compute_spans [OF assms(1-4)] assms(5-7) by metis
  then show ?thesis by (intro exI [of _ "net\<lparr> rn_rnEdges := rn \<rparr>"] exI [of _ "set_tags 0 (rn_nodes net) w"]) simp
qed

theorem rn_compute_connects_witness:
  "\<exists>net' w'. rn_compute demo_params demo_net demo_rn_world = Some (net', w') \<and>
    (0, 3) \<in> linked_by (ends ` set (rn_rnEdges net') \<union> ends ` set (rn_boardEdges demo_net) \<union> same_cluster demo_rn_world)"
proof -
  have "\<not> length (rn_nodes demo_net) \<le> 2" "0 \<in> set (rn_nodes demo_net)" "3 \<in> set (rn_nodes demo_net)"
    "an_Pos demo_rn_world 0 \<noteq> an_Pos demo_rn_world 3"
    by (simp_all add: demo_net_def an_Pos_def demo_rn_world_def demo_anchor_def)
  from rn_compute_connects [OF demo_params_ok demo_net_ok this] this(2,3) show ?thesis by blast
qed

end
