(* ===== verification/CnNodes.thy ===== *)
theory CnNodes
  imports CnAnchors CnData RatsnestTree "HOL-Library.Multiset"
begin

text \<open>
  The nodes and board edges that \<open>CONNECTIVITY_DATA\<close> (\<^verbatim>\<open>pcbnew/connectivity/connectivity_data.cpp\<close>) gives to the
  nets from the clusters of the board: the nodes of a net are the anchors of the items of its clusters, and the
  board edges of a cluster are a star.
\<close>

section \<open>One cluster\<close>

lemma nodes_insert_mset: "mset (nodes_insert w a ns) = add_mset a (mset ns)"
proof -
  have "mset (takeWhile P ns) + mset (dropWhile P ns) = mset ns" for P
    by (metis mset_append takeWhile_dropWhile_id)
  then show ?thesis by (simp add: nodes_insert_def)
qed

definition cluster_anchors :: "CN_WORLD \<Rightarrow> CN_CLUSTER \<Rightarrow> nat list" where
  "cluster_anchors w c = concat (map (node_anchors w) (cl_items c))"

definition star :: "nat list \<Rightarrow> CN_EDGE list" where
  "star as = map (\<lambda>a. CN_EDGE_make (hd as) a 0) (tl as)"

text \<open>Two worlds that differ in the clusters of anchors only, given by \<open>f\<close>.\<close>

definition with_clusters :: "(nat \<Rightarrow> nat option) \<Rightarrow> CN_WORLD \<Rightarrow> CN_WORLD" where
  "with_clusters f w = w\<lparr> cn_anchor := (\<lambda>a. (cn_anchor w a)\<lparr> an_cluster := f a \<rparr>) \<rparr>"

definition clusters_in :: "CN_WORLD \<Rightarrow> nat \<Rightarrow> nat option" where
  "clusters_in w a = an_cluster (cn_anchor w a)"

lemma with_clusters_id: "with_clusters (clusters_in w) w = w"
  by (simp add: with_clusters_def clusters_in_def)

lemma with_clusters_twice: "with_clusters f (with_clusters g w) = with_clusters f w"
  by (simp add: with_clusters_def)

lemma with_clusters_world:
  "cn_item (with_clusters f w) = cn_item w" "cn_items (with_clusters f w) = cn_items w" "cn_board (with_clusters f w) = cn_board w"
  "cn_dirty_nets (with_clusters f w) = cn_dirty_nets w" "clusters_in (with_clusters f w) = f"
  by (simp_all add: with_clusters_def clusters_in_def fun_eq_iff)

lemma add_anchors:
  assumes "distinct as"
  shows "\<exists>nodes. fold (add_anchor c) as (None, net, w) =
    ((if as = [] then None else Some (hd as)), net\<lparr> rn_nodes := nodes, rn_boardEdges := rn_boardEdges net @ star as \<rparr>,
     with_clusters (\<lambda>a. if a \<in> set as then Some c else clusters_in w a) w) \<and> mset nodes = mset as + mset (rn_nodes net)"
  using assms
proof (induction as rule: rev_induct)
  case Nil
  have "with_clusters (\<lambda>a. if a \<in> set [] then Some c else clusters_in w a) w = w" using with_clusters_id by simp
  then show ?case by (intro exI [of _ "rn_nodes net"]) (simp add: star_def)
next
  case (snoc a as)
  let ?f = "\<lambda>xs b. if b \<in> set xs then Some c else clusters_in w b"
  from snoc obtain nodes where f: "fold (add_anchor c) as (None, net, w) =
    ((if as = [] then None else Some (hd as)), net\<lparr> rn_nodes := nodes, rn_boardEdges := rn_boardEdges net @ star as \<rparr>, with_clusters (?f as) w)"
    "mset nodes = mset as + mset (rn_nodes net)" by auto
  have w: "SetCluster c a (with_clusters (?f as) w) = with_clusters (?f (as @ [a])) w"
    by (simp add: SetCluster_def upd_anchor_def with_clusters_def fun_eq_iff)
  let ?ns = "nodes_insert (with_clusters (?f (as @ [a])) w) a nodes"
  have "fold (add_anchor c) (as @ [a]) (None, net, w) =
    (Some (hd (as @ [a])), net\<lparr> rn_nodes := ?ns, rn_boardEdges := rn_boardEdges net @ star (as @ [a]) \<rparr>, with_clusters (?f (as @ [a])) w)"
  proof (cases "as = []")
    case True
    then have "nodes = rn_nodes net" using arg_cong [where f = "\<lambda>s. rn_nodes (fst (snd s))", OF f(1)] by simp
    then show ?thesis using True w by (simp add: add_anchor_def Let_def star_def with_clusters_id)
  next
    case False
    then have "hd as \<noteq> a" using snoc.prems by auto
    then show ?thesis unfolding fold_append comp_def f(1) using False w by (simp add: add_anchor_def Let_def star_def)
  qed
  moreover have "mset ?ns = mset (as @ [a]) + mset (rn_nodes net)" using f(2) nodes_insert_mset by simp
  ultimately show ?case by (intro exI [of _ ?ns]) simp
qed

lemma AddCluster_nodes:
  assumes "distinct (cluster_anchors w c)"
  shows "\<exists>nodes. AddCluster address (cl_items c) net w =
    (net\<lparr> rn_nodes := nodes, rn_boardEdges := rn_boardEdges net @ star (cluster_anchors w c) \<rparr>,
     with_clusters (\<lambda>a. if a \<in> set (cluster_anchors w c) then Some address else clusters_in w a) w) \<and>
    mset nodes = mset (cluster_anchors w c) + mset (rn_nodes net)"
proof -
  have "fold (\<lambda>item s. fold (add_anchor address) (node_anchors w item) s) xs s = fold (add_anchor address) (concat (map (node_anchors w) xs)) s" for xs s
    by (induction xs arbitrary: s) simp_all
  then show ?thesis using add_anchors [OF assms, of address net w] by (auto simp: AddCluster_def cluster_anchors_def)
qed

section \<open>All clusters\<close>

text \<open>The clusters that become nodes of a net.\<close>

definition dirty_net :: "CN_WORLD \<Rightarrow> nat \<Rightarrow> bool" where
  "dirty_net w n \<longleftrightarrow> n < length (cn_dirty_nets w) \<and> cn_dirty_nets w ! n"

definition added_to :: "CN_WORLD \<Rightarrow> nat \<Rightarrow> CN_CLUSTER \<Rightarrow> bool" where
  "added_to w n c \<longleftrightarrow> \<not> kept_island w c \<and> cl_originNet c = int n \<and> dirty_net w n"

definition groups :: "CN_WORLD \<Rightarrow> nat \<Rightarrow> CN_CLUSTER list \<Rightarrow> nat list list" where
  "groups w n cs = map (cluster_anchors w) (filter (added_to w n) cs)"

lemma node_anchors_clusters: "node_anchors (with_clusters f w) = node_anchors w"
  by (simp add: fun_eq_iff node_anchors_def with_clusters_world)

lemma same_clusters_world:
  "cluster_anchors (with_clusters f w) = cluster_anchors w" "kept_island (with_clusters f w) = kept_island w"
  "dirty_net (with_clusters f w) = dirty_net w" "added_to (with_clusters f w) = added_to w" "groups (with_clusters f w) = groups w"
proof -
  show c: "cluster_anchors (with_clusters f w) = cluster_anchors w" by (simp add: fun_eq_iff cluster_anchors_def node_anchors_clusters)
  show a: "added_to (with_clusters f w) = added_to w"
    by (simp add: fun_eq_iff added_to_def kept_island_def dirty_net_def with_clusters_world)
  show "groups (with_clusters f w) = groups w" by (simp add: fun_eq_iff groups_def c a)
qed (simp_all add: fun_eq_iff kept_island_def dirty_net_def with_clusters_world)

text \<open>A net with more nodes and board edges.\<close>

definition net_with :: "nat list list \<Rightarrow> RN_NET \<Rightarrow> RN_NET \<Rightarrow> bool" where
  "net_with gs net net' \<longleftrightarrow> mset (rn_nodes net') = mset (concat gs) + mset (rn_nodes net) \<and>
     rn_boardEdges net' = rn_boardEdges net @ concat (map star gs) \<and> rn_rnEdges net' = rn_rnEdges net \<and> rn_dirty net' = rn_dirty net"

lemma net_with_Nil: "net_with [] net net"
  by (simp add: net_with_def)

lemma net_with_Cons: "net_with [g] net net' \<Longrightarrow> net_with gs net' net'' \<Longrightarrow> net_with (g # gs) net net''"
  by (simp add: net_with_def)

lemma add_clusters:
  assumes "\<forall>c \<in> set cs. 0 \<le> cl_originNet c \<and> cl_originNet c < int (length (cn_dirty_nets w)) \<and> cl_originNet c < int (length nets)"
    and "distinct (concat (map (cluster_anchors w) cs))"
  shows "\<exists>nets' f. fold_opt add_cluster (enumerate k cs) (nets, w) = Some (nets', with_clusters f w) \<and> length nets' = length nets \<and>
    (\<forall>n < length nets. net_with (groups w n cs) (nets ! n) (nets' ! n)) \<and>
    (\<forall>a. a \<notin> \<Union> (set ` cluster_anchors w ` set cs) \<longrightarrow> f a = clusters_in w a) \<and>
    (\<forall>i < length cs. \<forall>n. added_to w n (cs ! i) \<longrightarrow> (\<forall>a \<in> set (cluster_anchors w (cs ! i)). f a = Some (k + i)))"
  using assms
proof (induction cs arbitrary: k nets w)
  case Nil
  have "fold_opt add_cluster (enumerate k []) (nets, w) = Some (nets, with_clusters (clusters_in w) w)" using with_clusters_id by simp
  then show ?case by (intro exI [of _ nets] exI [of _ "clusters_in w"]) (simp add: groups_def net_with_Nil)
next
  case (Cons c cs)
  let ?n = "nat (cl_originNet c)" and ?A = "cluster_anchors w c"
  have c: "0 \<le> cl_originNet c" "?n < length (cn_dirty_nets w)" "?n < length nets" "int ?n = cl_originNet c" using Cons.prems(1) by auto
  have dist: "distinct ?A" "distinct (concat (map (cluster_anchors w) cs))" "set ?A \<inter> \<Union> (set ` cluster_anchors w ` set cs) = {}"
    using Cons.prems(2) by auto
  show ?case
  proof (cases "\<exists>n. added_to w n c")
    case False
    then have "add_cluster (k, c) (nets, w) = Some (nets, w)"
      using c by (auto simp: add_cluster_def added_to_def dirty_net_def IsNetDirty_def)
    moreover have "groups w n (c # cs) = groups w n cs" for n using False by (simp add: groups_def)
    moreover obtain nets' f where r: "fold_opt add_cluster (enumerate (Suc k) cs) (nets, w) = Some (nets', with_clusters f w)" "length nets' = length nets"
      "\<forall>n < length nets. net_with (groups w n cs) (nets ! n) (nets' ! n)"
      "\<forall>a. a \<notin> \<Union> (set ` cluster_anchors w ` set cs) \<longrightarrow> f a = clusters_in w a"
      "\<forall>i < length cs. \<forall>n. added_to w n (cs ! i) \<longrightarrow> (\<forall>a \<in> set (cluster_anchors w (cs ! i)). f a = Some (Suc k + i))"
      using Cons.IH [of w nets "Suc k"] Cons.prems(1) dist(2) by auto
    moreover have "\<forall>i < length (c # cs). \<forall>n. added_to w n ((c # cs) ! i) \<longrightarrow> (\<forall>a \<in> set (cluster_anchors w ((c # cs) ! i)). f a = Some (k + i))"
    proof (intro allI impI)
      fix i n assume "i < length (c # cs)" "added_to w n ((c # cs) ! i)"
      then show "\<forall>a \<in> set (cluster_anchors w ((c # cs) ! i)). f a = Some (k + i)" using False r(5) by (cases i) auto
    qed
    ultimately show ?thesis by (intro exI [of _ nets'] exI [of _ f]) simp
  next
    case True
    then have add: "added_to w ?n c" by (auto simp: added_to_def)
    then have here: "added_to w n c \<longleftrightarrow> n = ?n" for n using c by (auto simp: added_to_def)
    let ?g = "\<lambda>a. if a \<in> set ?A then Some k else clusters_in w a"
    obtain nodes where nodes: "AddCluster k (cl_items c) (nets ! ?n) w =
        ((nets ! ?n)\<lparr> rn_nodes := nodes, rn_boardEdges := rn_boardEdges (nets ! ?n) @ star ?A \<rparr>, with_clusters ?g w)"
      "mset nodes = mset ?A + mset (rn_nodes (nets ! ?n))" using AddCluster_nodes [OF dist(1)] by blast
    define net1 where "net1 = (nets ! ?n)\<lparr> rn_nodes := nodes, rn_boardEdges := rn_boardEdges (nets ! ?n) @ star ?A \<rparr>"
    have net1: "net_with [?A] (nets ! ?n) net1" using nodes(2) by (simp add: net1_def net_with_def)
    have step: "add_cluster (k, c) (nets, w) = Some (nets[?n := net1], with_clusters ?g w)"
      using add c(2,3) nodes(1) linorder_not_less [THEN iffD2, OF c(1)]
      by (simp add: add_cluster_def added_to_def dirty_net_def IsNetDirty_def addRatsnestCluster_def net1_def)
    let ?w1 = "with_clusters ?g w"
    obtain nets' f where r: "fold_opt add_cluster (enumerate (Suc k) cs) (nets[?n := net1], ?w1) = Some (nets', with_clusters f ?w1)"
      "length nets' = length nets" "\<forall>n < length nets. net_with (groups w n cs) (nets[?n := net1] ! n) (nets' ! n)"
      "\<forall>a. a \<notin> \<Union> (set ` cluster_anchors w ` set cs) \<longrightarrow> f a = ?g a"
      "\<forall>i < length cs. \<forall>n. added_to w n (cs ! i) \<longrightarrow> (\<forall>a \<in> set (cluster_anchors w (cs ! i)). f a = Some (Suc k + i))"
      using Cons.IH [of ?w1 "nets[?n := net1]" "Suc k"] Cons.prems(1) dist(2) by (auto simp: same_clusters_world with_clusters_world)
    have "net_with (groups w n (c # cs)) (nets ! n) (nets' ! n)" if "n < length nets" for n
    proof (cases "n = ?n")
      case True
      then have "groups w n (c # cs) = ?A # groups w n cs" using add by (simp add: groups_def)
      moreover have "net_with (groups w ?n cs) (nets[?n := net1] ! ?n) (nets' ! ?n)" using r(3) c(3) by blast
      then have "net_with (groups w ?n cs) net1 (nets' ! ?n)" using c(3) by simp
      ultimately show ?thesis using net_with_Cons [OF net1] True by simp
    next
      case False
      then have "groups w n (c # cs) = groups w n cs" using here by (simp add: groups_def)
      moreover have "net_with (groups w n cs) (nets[?n := net1] ! n) (nets' ! n)" using r(3) that by blast
      ultimately show ?thesis using False by simp
    qed
    moreover have "f a = Some (k + i)" if "i < length (c # cs)" "added_to w n ((c # cs) ! i)" "a \<in> set (cluster_anchors w ((c # cs) ! i))" for i n a
    proof (cases i)
      case 0
      then have "a \<notin> \<Union> (set ` cluster_anchors w ` set cs)" using that(3) dist(3) by auto
      then show ?thesis using r(4) that(3) 0 by simp
    next
      case (Suc j)
      then show ?thesis using r(5) that by auto
    qed
    moreover have "\<forall>a. a \<notin> \<Union> (set ` cluster_anchors w ` set (c # cs)) \<longrightarrow> f a = clusters_in w a" using r(4) by auto
    ultimately show ?thesis
      using step r(1,2) by (intro exI [of _ nets'] exI [of _ f]) (simp add: with_clusters_twice)
  qed
qed

end
