(* ===== verification/CnRecalc.thy ===== *)
theory CnRecalc
  imports CnNodes
begin

text \<open>
  Recalculating the ratsnest of the nets that changed (\<^verbatim>\<open>pcbnew/connectivity/connectivity_data.cpp\<close>,
  \<^verbatim>\<open>pcbnew/ratsnest/ratsnest_data.cpp\<close>): every such net is updated, its lines keep to its nodes, and moving their ends
  to zones keeps what they connect.
\<close>

section \<open>Updating one net\<close>

definition with_tags :: "(nat \<Rightarrow> int) \<Rightarrow> CN_WORLD \<Rightarrow> CN_WORLD" where
  "with_tags f w = w\<lparr> cn_anchor := (\<lambda>a. (cn_anchor w a)\<lparr> an_tag := f a \<rparr>) \<rparr>"

lemma with_tags_twice: "with_tags f (with_tags g w) = with_tags f w"
  by (simp add: with_tags_def)

lemma with_tags_id: "\<exists>f. with_tags f w = w"
  by (rule exI [of _ "\<lambda>a. an_tag (cn_anchor w a)"]) (simp add: with_tags_def)

lemma with_tags_world:
  "cn_item (with_tags f w) = cn_item w" "cn_items (with_tags f w) = cn_items w" "cn_board (with_tags f w) = cn_board w"
  "cn_next_anchor (with_tags f w) = cn_next_anchor w" "an_item (cn_anchor (with_tags f w) a) = an_item (cn_anchor w a)"
  "an_pos (cn_anchor (with_tags f w) a) = an_pos (cn_anchor w a)" "an_cluster (cn_anchor (with_tags f w) a) = an_cluster (cn_anchor w a)"
  by (simp_all add: with_tags_def)

lemma with_tags_same:
  "an_Pos (with_tags f w) = an_Pos w" "anchor_Dirty (with_tags f w) = anchor_Dirty w" "net_ok (with_tags f w) = net_ok w"
  "edge_ok (with_tags f w) = edge_ok w" "same_cluster (with_tags f w) = same_cluster w"
proof -
  show p: "an_Pos (with_tags f w) = an_Pos w" and d: "anchor_Dirty (with_tags f w) = anchor_Dirty w"
    and s: "same_cluster (with_tags f w) = same_cluster w"
    by (simp_all add: fun_eq_iff an_Pos_def anchor_Dirty_def anchor_Valid_def same_cluster_def with_tags_world split: option.split)
  show e: "edge_ok (with_tags f w) = edge_ok w" unfolding edge_ok_def [abs_def] d ..
  show "net_ok (with_tags f w) = net_ok w" by (simp add: fun_eq_iff net_ok_def pos_bounded_def p d e)
qed

lemma SetTag_with: "SetTag n a w = with_tags (\<lambda>b. if b = a then n else an_tag (cn_anchor w b)) w"
  by (simp add: SetTag_def upd_anchor_def with_tags_def fun_eq_iff)

lemma set_tags_with: "\<exists>f. set_tags i ns w = with_tags f w"
proof (induction ns arbitrary: i w)
  case (Cons n ns)
  then show ?case using SetTag_with with_tags_twice by (metis set_tags.simps(2))
qed (simp add: with_tags_id [THEN exE], metis with_tags_id)

lemma fold_SetTag_with: "\<exists>f. fold (SetTag n) ns w = with_tags f w"
proof (induction ns arbitrary: w)
  case Nil
  then show ?case using with_tags_id by (metis fold_simps(1))
next
  case (Cons a ns)
  then show ?case using SetTag_with with_tags_twice by (metis fold_simps(2))
qed

definition spread :: "CN_WORLD \<Rightarrow> RN_NET \<Rightarrow> bool" where
  "spread w net \<longleftrightarrow> length (rn_nodes net) \<le> 2 \<or> (\<exists>a \<in> set (rn_nodes net). \<exists>b \<in> set (rn_nodes net). an_Pos w a \<noteq> an_Pos w b)"

definition links :: "CN_WORLD \<Rightarrow> RN_NET \<Rightarrow> CN_EDGE list \<Rightarrow> (nat \<times> nat) set" where
  "links w net es = linked_by (ends ` set es \<union> ends ` set (rn_boardEdges net) \<union> same_cluster w)"

text \<open>A net that is ready has no board edge from a node to itself.\<close>

definition net_ready :: "CN_WORLD \<Rightarrow> RN_NET \<Rightarrow> bool" where
  "net_ready w net \<longleftrightarrow> net_ok w net \<and> (\<forall>e \<in> set (rn_boardEdges net). fst (ends e) \<noteq> snd (ends e))"

definition lines_ok :: "CN_WORLD \<Rightarrow> RN_NET \<Rightarrow> CN_EDGE list \<Rightarrow> bool" where
  "lines_ok w net es \<longleftrightarrow> (\<forall>e \<in> set es. edge_ok w (set (rn_nodes net)) e) \<and>
     (spread w net \<longrightarrow> set (rn_nodes net) \<times> set (rn_nodes net) \<subseteq> links w net es)"

lemma two_nodes:
  assumes "net_ready w net" and "rn_nodes net = [a, b]"
  shows "lines_ok w net (if rn_boardEdges net = [] then [CN_EDGE_make a b 0] else [])"
proof -
  let ?es = "if rn_boardEdges net = [] then [CN_EDGE_make a b 0] else []"
  have ok: "\<not> anchor_Dirty w a" "\<not> anchor_Dirty w b" using assms by (auto simp: net_ready_def net_ok_def)
  have "(a, b) \<in> links w net ?es \<or> (b, a) \<in> links w net ?es"
  proof (cases "rn_boardEdges net = []")
    case True
    then show ?thesis by (auto simp: links_def intro!: linked_edge)
  next
    case False
    then obtain e where e: "e \<in> set (rn_boardEdges net)" by fastforce
    then have ee: "edge_ok w {a, b} e" "fst (ends e) \<noteq> snd (ends e)" using assms by (auto simp: net_ready_def net_ok_def)
    then have "fst (ends e) \<in> {a, b}" "snd (ends e) \<in> {a, b}" "fst (ends e) \<noteq> snd (ends e)" using edge_okD(3,4) [OF ee(1)] ee(2) by simp_all
    then have "ends e = (a, b) \<or> ends e = (b, a)" by (metis insert_iff singleton_iff empty_iff prod.collapse)
    moreover have "ends e \<in> links w net ?es" unfolding links_def using e by (intro subsetD [OF linked_subset]) auto
    ultimately show ?thesis by auto
  qed
  moreover have sym: "(y, x) \<in> links w net ?es" if "(x, y) \<in> links w net ?es" for x y
    using that unfolding links_def by (rule linked_sym)
  ultimately have "(a, b) \<in> links w net ?es" "(b, a) \<in> links w net ?es" by (metis sym)+
  moreover have "(x, x) \<in> links w net ?es" for x by (simp add: links_def linked_by_def)
  ultimately have "set (rn_nodes net) \<times> set (rn_nodes net) \<subseteq> links w net ?es" using assms(2) by auto
  moreover have "\<forall>e \<in> set ?es. edge_ok w (set (rn_nodes net)) e" using ok assms(2) by (simp add: edge_ok_def CN_EDGE_make_def)
  ultimately show ?thesis by (simp add: lines_ok_def)
qed

lemma update_net:
  assumes "delaunay_ok p" and "norm_ok p" and "net_ready w net"
  shows "\<exists>es f. UpdateNet p net w = Some (net\<lparr> rn_rnEdges := es, rn_dirty := False \<rparr>, with_tags f w) \<and> lines_ok w net es"
proof (cases "length (rn_nodes net) \<le> 2")
  case small: True
  show ?thesis
  proof (cases "length (rn_nodes net) = 2")
    case True
    then obtain a b where ab: "rn_nodes net = [a, b]" by (auto simp: length_Suc_conv numeral_2_eq_2)
    obtain f where f: "fold (SetTag 0) [a, b] w = with_tags f w" using fold_SetTag_with by blast
    have g: "SetTag 1 b (SetTag 0 a w) = with_tags (\<lambda>x. if x = b then 1 else if x = a then 0 else an_tag (cn_anchor w x)) w"
      by (simp add: SetTag_def upd_anchor_def with_tags_def fun_eq_iff)
    show ?thesis
      using two_nodes [OF assms(3) ab] f g ab
      by (cases "rn_boardEdges net = []") (auto simp: UpdateNet_def rn_compute_def Let_def)
  next
    case False
    then have "\<exists>xs. rn_nodes net = xs \<and> length xs < 2" using small by auto
    then have same: "c = d" if "c \<in> set (rn_nodes net)" "d \<in> set (rn_nodes net)" for c d
      using that by (auto simp: less_Suc_eq length_Suc_conv numeral_2_eq_2)
    obtain f where "fold (SetTag 0) (rn_nodes net) w = with_tags f w" using fold_SetTag_with by blast
    then have "UpdateNet p net w = Some (net\<lparr> rn_rnEdges := [], rn_dirty := False \<rparr>, with_tags f w)"
      using small False by (simp add: UpdateNet_def rn_compute_def)
    moreover have "lines_ok w net []" using same by (auto simp: lines_ok_def links_def linked_by_def)
    ultimately show ?thesis by blast
  qed
next
  case False
  have ok: "net_ok w net" using assms(3) by (simp add: net_ready_def)
  from rn_compute_spans [OF assms(1,2) ok False] obtain rn where rn:
    "rn_compute p net w = Some (net\<lparr> rn_rnEdges := rn \<rparr>, set_tags 0 (rn_nodes net) w)" "set rn \<subseteq> set (candidate_edges p w net)"
    "\<And>a b c d. a \<in> set (rn_nodes net) \<Longrightarrow> b \<in> set (rn_nodes net) \<Longrightarrow> an_Pos w a \<noteq> an_Pos w b \<Longrightarrow> c \<in> set (rn_nodes net) \<Longrightarrow>
       d \<in> set (rn_nodes net) \<Longrightarrow> (c, d) \<in> linked_by (ends ` set rn \<union> ends ` set (rn_boardEdges net) \<union> same_cluster w)" by metis
  have "\<forall>e \<in> set rn. edge_ok w (set (rn_nodes net)) e" using rn(2) candidate_edges_ok(1) [OF assms(1,2) ok] by blast
  then have "lines_ok w net rn" using rn(3) False by (auto simp: lines_ok_def spread_def links_def)
  moreover obtain f where "set_tags 0 (rn_nodes net) w = with_tags f w" using set_tags_with by blast
  ultimately show ?thesis using rn(1) by (auto simp: UpdateNet_def)
qed

section \<open>Updating nets\<close>

definition updated :: "CN_WORLD \<Rightarrow> RN_NET \<Rightarrow> RN_NET \<Rightarrow> bool" where
  "updated w net net' \<longleftrightarrow> (\<exists>es. net' = net\<lparr> rn_rnEdges := es, rn_dirty := False \<rparr> \<and> lines_ok w net es)"

lemma with_tags_ready:
  "net_ready (with_tags f w) = net_ready w" "updated (with_tags f w) = updated w" "lines_ok (with_tags f w) = lines_ok w"
proof -
  show lines: "lines_ok (with_tags f w) = lines_ok w"
    by (simp add: fun_eq_iff lines_ok_def spread_def links_def with_tags_same)
  show "net_ready (with_tags f w) = net_ready w" "updated (with_tags f w) = updated w"
    by (simp_all add: fun_eq_iff net_ready_def updated_def with_tags_same lines)
qed

lemma update_nets:
  assumes "delaunay_ok p" and "norm_ok p" and "distinct ns" and "\<forall>i \<in> set ns. i < length nets \<and> net_ready w (nets ! i)"
  shows "\<exists>nets' f. fold_opt (on_net (UpdateNet p)) ns (nets, w) = Some (nets', with_tags f w) \<and> length nets' = length nets \<and>
    (\<forall>i. if i \<in> set ns then updated w (nets ! i) (nets' ! i) else nets' ! i = nets ! i)"
  using assms(3,4)
proof (induction ns arbitrary: nets w)
  case Nil
  obtain f where "with_tags f w = w" using with_tags_id by blast
  then show ?case by (intro exI [of _ nets] exI [of _ f]) simp
next
  case (Cons i ns)
  have i: "i < length nets" "net_ready w (nets ! i)" "i \<notin> set ns" using Cons.prems by auto
  obtain es f where u: "UpdateNet p (nets ! i) w = Some ((nets ! i)\<lparr> rn_rnEdges := es, rn_dirty := False \<rparr>, with_tags f w)"
    "lines_ok w (nets ! i) es" using update_net [OF assms(1,2) i(2)] by blast
  define net where "net = (nets ! i)\<lparr> rn_rnEdges := es, rn_dirty := False \<rparr>"
  have step: "on_net (UpdateNet p) i (nets, w) = Some (nets[i := net], with_tags f w)" using u(1) by (simp add: on_net_def net_def)
  have "\<forall>j \<in> set ns. j < length (nets[i := net]) \<and> net_ready (with_tags f w) (nets[i := net] ! j)"
  proof
    fix j assume j: "j \<in> set ns"
    then have "j \<noteq> i" using i(3) by blast
    then show "j < length (nets[i := net]) \<and> net_ready (with_tags f w) (nets[i := net] ! j)"
      using Cons.prems(2) j by (simp add: with_tags_ready)
  qed
  then have "\<exists>nets' g. fold_opt (on_net (UpdateNet p)) ns (nets[i := net], with_tags f w) = Some (nets', with_tags g (with_tags f w)) \<and>
      length nets' = length (nets[i := net]) \<and>
      (\<forall>j. if j \<in> set ns then updated (with_tags f w) (nets[i := net] ! j) (nets' ! j) else nets' ! j = nets[i := net] ! j)"
    using Cons.prems(1) by (intro Cons.IH) simp_all
  then obtain nets' g where r: "fold_opt (on_net (UpdateNet p)) ns (nets[i := net], with_tags f w) = Some (nets', with_tags g (with_tags f w))"
    "length nets' = length nets"
    "\<forall>j. if j \<in> set ns then updated w (nets[i := net] ! j) (nets' ! j) else nets' ! j = nets[i := net] ! j"
    unfolding with_tags_ready length_list_update by (elim exE conjE) (rule that)
  have "updated w (nets ! i) net" using u(2) by (auto simp: updated_def net_def)
  then have "if j \<in> set (i # ns) then updated w (nets ! j) (nets' ! j) else nets' ! j = nets ! j" for j
    using r(3) [rule_format, of j] i by (cases "j = i") auto
  then show ?case using step r(1,2) by (intro exI [of _ nets'] exI [of _ g]) (simp add: with_tags_twice)
qed

end
