(* ===== verification/CnLines.thy ===== *)
theory CnLines
  imports CnRecalc
begin

text \<open>
  Moving the ends of ratsnest lines to zones (\<open>RN_NET::OptimizeRNEdges\<close>,
  \<^verbatim>\<open>pcbnew/ratsnest/ratsnest_data.cpp\<close>): new anchors are made, none is changed, and the new end of a line
  is at an item that the old end touches.
\<close>

section \<open>New anchors\<close>

definition anchors_grow :: "CN_WORLD \<Rightarrow> CN_WORLD \<Rightarrow> bool" where
  "anchors_grow w w' \<longleftrightarrow> (\<exists>f n. w' = w\<lparr> cn_anchor := f, cn_next_anchor := n \<rparr> \<and> cn_next_anchor w \<le> n \<and>
     (\<forall>a < cn_next_anchor w. f a = cn_anchor w a))"

lemma anchors_grow_refl: "anchors_grow w w"
  unfolding anchors_grow_def by (intro exI [of _ "cn_anchor w"] exI [of _ "cn_next_anchor w"]) simp

lemma anchors_grow_trans:
  assumes "anchors_grow u v" and "anchors_grow v w"
  shows "anchors_grow u w"
proof -
  obtain f n where v: "v = u\<lparr> cn_anchor := f, cn_next_anchor := n \<rparr>" "cn_next_anchor u \<le> n" "\<forall>a < cn_next_anchor u. f a = cn_anchor u a"
    using assms(1) unfolding anchors_grow_def by blast
  obtain g m where w: "w = v\<lparr> cn_anchor := g, cn_next_anchor := m \<rparr>" "cn_next_anchor v \<le> m" "\<forall>a < cn_next_anchor v. g a = cn_anchor v a"
    using assms(2) unfolding anchors_grow_def by blast
  have "w = u\<lparr> cn_anchor := g, cn_next_anchor := m \<rparr>" using v(1) w(1) by simp
  moreover have "cn_next_anchor u \<le> m" "\<forall>a < cn_next_anchor u. g a = cn_anchor u a" using v w(2,3) by auto
  ultimately show ?thesis unfolding anchors_grow_def by blast
qed

lemma make_anchor_grow: "make_anchor p i w = (a, w') \<Longrightarrow> anchors_grow w w'"
  unfolding anchors_grow_def make_anchor_def Let_def
  by (intro exI [of _ "cn_anchor w'"] exI [of _ "cn_next_anchor w'"]) auto

lemma anchors_grow_world:
  assumes "anchors_grow w w'"
  shows "cn_item w' = cn_item w" "cn_items w' = cn_items w" "cn_board w' = cn_board w" "cn_dirty_nets w' = cn_dirty_nets w"
    "a < cn_next_anchor w \<Longrightarrow> cn_anchor w' a = cn_anchor w a" "cn_next_anchor w \<le> cn_next_anchor w'"
  using assms by (auto simp: anchors_grow_def)

section \<open>Lines between items\<close>

definition touching :: "CN_WORLD \<Rightarrow> (nat \<times> nat) set" where
  "touching w = {(i, j). i \<in> set (cn_items w) \<and> j \<in> set (ci_connected (cn_item w i))}"

definition line_between :: "CN_WORLD \<Rightarrow> CN_EDGE \<Rightarrow> nat \<Rightarrow> nat \<Rightarrow> bool" where
  "line_between w e i j \<longleftrightarrow> (\<exists>a b. ed_source e = Some a \<and> ed_target e = Some b \<and> a < cn_next_anchor w \<and> b < cn_next_anchor w \<and>
     an_item (cn_anchor w a) = Some i \<and> an_item (cn_anchor w b) = Some j)"

lemma touching_grow: "anchors_grow w w' \<Longrightarrow> touching w' = touching w"
  by (simp add: touching_def anchors_grow_world)

lemma line_between_grow: "anchors_grow w w' \<Longrightarrow> line_between w e i j \<Longrightarrow> line_between w' e i j"
  unfolding line_between_def using anchors_grow_world(5,6) by (metis less_le_trans)

lemma make_anchor_line:
  assumes "make_anchor p k w = (a, w')" and "line_between w e i j"
  shows "line_between w' (e\<lparr> ed_source := Some a \<rparr>) k j" "line_between w' (e\<lparr> ed_target := Some a \<rparr>) i k"
  using assms by (auto simp: make_anchor_def Let_def line_between_def less_Suc_eq)

text \<open>The line \<open>e'\<close> is as good as \<open>e\<close>.\<close>

definition near :: "CN_WORLD \<Rightarrow> CN_WORLD \<Rightarrow> CN_EDGE \<Rightarrow> CN_EDGE \<Rightarrow> bool" where
  "near w w' e e' \<longleftrightarrow> (\<forall>i \<in> set (cn_items w). \<forall>j \<in> set (cn_items w). line_between w e i j \<longrightarrow>
     (\<exists>i' j'. line_between w' e' i' j' \<and> (i, i') \<in> linked_by (touching w) \<and> (j, j') \<in> linked_by (touching w)))"

lemma near_refl: "anchors_grow w w' \<Longrightarrow> near w w' e e"
  unfolding near_def using line_between_grow linked_refl by blast

lemma near_grow:
  assumes "anchors_grow u v" and "near v w e e'" and "anchors_grow w x"
  shows "near u x e e'"
  unfolding near_def
proof (intro ballI impI)
  fix i j assume ij: "i \<in> set (cn_items u)" "j \<in> set (cn_items u)" "line_between u e i j"
  have "i \<in> set (cn_items v)" "j \<in> set (cn_items v)" "line_between v e i j"
    using ij anchors_grow_world(2) [OF assms(1)] line_between_grow [OF assms(1)] by simp_all
  then obtain i' j' where "line_between w e' i' j'" "(i, i') \<in> linked_by (touching v)" "(j, j') \<in> linked_by (touching v)"
    using assms(2) unfolding near_def by blast
  then show "\<exists>i' j'. line_between x e' i' j' \<and> (i, i') \<in> linked_by (touching u) \<and> (j, j') \<in> linked_by (touching u)"
    unfolding touching_grow [OF assms(1)] using line_between_grow [OF assms(3)] by blast
qed

section \<open>Optimising one line\<close>

lemma closest_connected:
  assumes "optimizeZoneAnchor w pos ls pos' i = Some (pt, k)"
  shows "k \<in> set (ci_connected (cn_item w i))"
proof -
  define Q where "Q s \<longleftrightarrow> (case snd s of None \<Rightarrow> True | Some x \<Rightarrow> snd x \<in> set (ci_connected (cn_item w i)))" for s :: "int \<times> ((int \<times> int) \<times> nat) option"
  have point: "Q (closer_point pos k pt s)" if "k \<in> set (ci_connected (cn_item w i))" "Q s" for k pt s
    using that by (simp add: Q_def closer_point_def Let_def)
  have points: "Q (fold (closer_point pos k) pts s)" if "k \<in> set (ci_connected (cn_item w i))" "Q s" for k pts s
    using that(2) by (induction pts arbitrary: s) (simp_all add: point [OF that(1)])
  have zones: "Q (fold (\<lambda>k s. if zone_on w i ls k then fold (closer_point pos k) (zone_outline w k) s else s) xs s)"
    if "set xs \<subseteq> set (ci_connected (cn_item w i))" "Q s" for xs s
    using that by (induction xs arbitrary: s) (simp_all add: points)
  have "Q (fold (\<lambda>k s. if zone_on w i ls k then fold (closer_point pos k) (zone_outline w k) s else s) (ci_connected (cn_item w i))
      (SquaredEuclideanNorm (v_minus pos' pos), None))" by (rule zones) (simp_all add: Q_def)
  then show ?thesis using assms by (simp add: Q_def optimizeZoneAnchor_def)
qed

lemma pairsToTest_bound: "(d, a, b) \<in> set (pairsToTest xs ys) \<Longrightarrow> a < length xs \<and> b < length ys"
  by (auto simp: pairsToTest_def split: option.splits)

text \<open>A state while the pairs of two zones are tried.\<close>

definition trying :: "CN_WORLD \<Rightarrow> nat \<Rightarrow> nat \<Rightarrow> CN_EDGE \<times> CN_WORLD \<Rightarrow> bool" where
  "trying w i j s \<longleftrightarrow> anchors_grow w (snd s) \<and> (\<exists>i' j'. line_between (snd s) (fst s) i' j' \<and>
     (i, i') \<in> linked_by (touching w) \<and> (j, j') \<in> linked_by (touching w))"

lemma optimize_pair_trying:
  assumes "trying w i j s" and "fst p < length A" "snd p < length B"
    and "\<And>k. k \<in> set A \<Longrightarrow> (i, k) \<in> touching w" and "\<And>k. k \<in> set B \<Longrightarrow> (j, k) \<in> touching w"
  shows "trying w i j (optimize_pair rg A B (d, p) s)"
proof -
  obtain e v where s: "s = (e, v)" by fastforce
  let ?k = "A ! fst p" and ?l = "B ! snd p"
  have k: "(i, ?k) \<in> linked_by (touching w)" "(j, ?l) \<in> linked_by (touching w)"
    using assms(2-5) by (auto intro!: linked_edge)
  show ?thesis
  proof (cases "?k = ?l \<or> rg_ClosestSegments rg (zone_outline v ?k) (zone_outline v ?l) = None")
    case True
    then have "optimize_pair rg A B (d, p) s = s" using s by (cases p) (auto simp: optimize_pair_def Let_def)
    then show ?thesis using assms(1) by simp
  next
    case False
    then obtain pts where "rg_ClosestSegments rg (zone_outline v ?k) (zone_outline v ?l) = Some pts" "?k \<noteq> ?l" by blast
    then obtain pa pb where pts: "?k \<noteq> ?l" "rg_ClosestSegments rg (zone_outline v ?k) (zone_outline v ?l) = Some (pa, pb)"
      by (metis surj_pair)
    obtain a v1 where a: "make_anchor pa ?k v = (a, v1)" by fastforce
    obtain b v2 where b: "make_anchor pb ?l v1 = (b, v2)" by fastforce
    have r: "optimize_pair rg A B (d, p) s = (e\<lparr> ed_source := Some a, ed_target := Some b \<rparr>, v2)"
      using pts a b s by (cases p) (simp add: optimize_pair_def Let_def)
    obtain i' j' where "line_between v e i' j'" using assms(1) s by (auto simp: trying_def)
    from make_anchor_line(2) [OF b make_anchor_line(1) [OF a this]]
    have "line_between v2 (e\<lparr> ed_source := Some a, ed_target := Some b \<rparr>) ?k ?l" by simp
    moreover have "anchors_grow w v2"
    proof (rule anchors_grow_trans)
      show "anchors_grow w v" using assms(1) s by (simp add: trying_def)
      show "anchors_grow v v2" using make_anchor_grow [OF a] make_anchor_grow [OF b] by (rule anchors_grow_trans)
    qed
    ultimately show ?thesis unfolding r trying_def using k by (intro conjI exI [of _ ?k] exI [of _ ?l]) simp_all
  qed
qed

lemma optimize_pairs_trying:
  assumes "trying w i j s" and "\<forall>x \<in> set ps. fst (snd x) < length A \<and> snd (snd x) < length B"
    and "\<And>k. k \<in> set A \<Longrightarrow> (i, k) \<in> touching w" and "\<And>k. k \<in> set B \<Longrightarrow> (j, k) \<in> touching w"
  shows "trying w i j (fold (optimize_pair rg A B) ps s)"
  using assms(1,2)
proof (induction ps arbitrary: s)
  case (Cons x ps)
  obtain d p where x: "x = (d, p)" by (cases x)
  have "trying w i j (optimize_pair rg A B (d, p) s)" using Cons.prems x by (intro optimize_pair_trying assms(3,4)) auto
  then show ?case using Cons x by simp
qed simp

lemma optimize_pair_grow: "anchors_grow w (snd s) \<Longrightarrow> anchors_grow w (snd (optimize_pair rg A B x s))"
  by (auto simp: optimize_pair_def Let_def split: prod.split option.split
      intro: anchors_grow_trans anchors_grow_trans [OF _ anchors_grow_trans] make_anchor_grow)

lemma zone_to_zone:
  shows "anchors_grow w (snd (optimizeZoneToZoneAnchors rg i j e w))"
    and "i \<in> set (cn_items w) \<Longrightarrow> j \<in> set (cn_items w) \<Longrightarrow> line_between w e i j \<Longrightarrow> trying w i j (optimizeZoneToZoneAnchors rg i j e w)"
proof -
  let ?A = "ci_connected (cn_item w i)" and ?B = "ci_connected (cn_item w j)"
  let ?ps = "take c_polyPairsLimit (sort_key fst (pairsToTest (zone_centers w ?A) (zone_centers w ?B)))"
  have "anchors_grow w (snd (fold (optimize_pair rg ?A ?B) xs s))" if "anchors_grow w (snd s)" for xs s
    using that by (induction xs arbitrary: s) (simp_all add: optimize_pair_grow)
  from this [of "(e, w)"] show "anchors_grow w (snd (optimizeZoneToZoneAnchors rg i j e w))"
    by (simp add: optimizeZoneToZoneAnchors_def Let_def anchors_grow_refl)
  assume i: "i \<in> set (cn_items w)" "j \<in> set (cn_items w)" "line_between w e i j"
  have "set ?ps \<subseteq> set (pairsToTest (zone_centers w ?A) (zone_centers w ?B))" using set_take_subset by fastforce
  then have b: "\<forall>x \<in> set ?ps. fst (snd x) < length ?A \<and> snd (snd x) < length ?B"
    using pairsToTest_bound by (fastforce simp: zone_centers_def)
  have "trying w i j (e, w)" using i(3) anchors_grow_refl by (auto simp: trying_def)
  then show "trying w i j (optimizeZoneToZoneAnchors rg i j e w)"
    unfolding optimizeZoneToZoneAnchors_def Let_def
    by (rule optimize_pairs_trying [OF _ b]) (simp_all add: touching_def i(1,2))
qed

lemma trying_line:
  assumes "line_between w' e' k l" and "anchors_grow w w'" and "(i, k) \<in> linked_by (touching w)" "(j, l) \<in> linked_by (touching w)"
  shows "trying w i j (e', w')"
  using assms by (auto simp: trying_def)

lemma new_end:
  assumes "optimizeZoneAnchor w pos ls pos' i = Some (pt, k)" and "i \<in> set (cn_items w)"
  shows "(i, k) \<in> linked_by (touching w)"
  using closest_connected [OF assms(1)] assms(2) by (auto simp: touching_def intro: linked_edge)

lemma optimize_edge_trying:
  assumes "i \<in> set (cn_items w)" "j \<in> set (cn_items w)" and "line_between w e i j"
  shows "trying w i j (optimize_edge rg e w)"
proof -
  obtain a b where e: "ed_source e = Some a" "ed_target e = Some b" "an_item (cn_anchor w a) = Some i" "an_item (cn_anchor w b) = Some j"
    using assms(3) by (auto simp: line_between_def)
  have keep: "trying w i j (e, w)" using assms(3) anchors_grow_refl by (auto simp: trying_def)
  have target: "trying w i j (case make_anchor pt k w of (a, w) \<Rightarrow> (e\<lparr> ed_target := Some a \<rparr>, w))"
    if "optimizeZoneAnchor w pos ls pos' j = Some (pt, k)" for pos ls pos' pt k
    using trying_line [OF make_anchor_line(2) [OF _ assms(3)] make_anchor_grow linked_refl new_end [OF that assms(2)]]
    by (simp split: prod.split)
  have source: "trying w i j (case make_anchor pt k w of (a, w) \<Rightarrow> (e\<lparr> ed_source := Some a \<rparr>, w))"
    if "optimizeZoneAnchor w pos ls pos' i = Some (pt, k)" for pos ls pos' pt k
    using trying_line [OF make_anchor_line(1) [OF _ assms(3)] make_anchor_grow new_end [OF that assms(1)] linked_refl]
    by (simp split: prod.split)
  show ?thesis
    unfolding optimize_edge_def e option.case prod.case Let_def
    using keep source target zone_to_zone(2) [OF assms] by (simp split: option.split)
qed

lemma optimize_edge_grow: "anchors_grow w (snd (optimize_edge rg e w))"
  using zone_to_zone(1) by (auto simp: optimize_edge_def Let_def anchors_grow_refl make_anchor_grow split: option.split prod.split)

lemma optimize_edge_near:
  assumes "optimize_edge rg e w = (e', w')"
  shows "anchors_grow w w'" "near w w' e e'"
proof -
  show "anchors_grow w w'" using optimize_edge_grow [of w rg e] assms by simp
  show "near w w' e e'"
    unfolding near_def using optimize_edge_trying [of _ w _ e rg] assms by (simp add: trying_def)
qed

section \<open>Optimising the lines of nets\<close>

lemma optimize_edges_near:
  assumes "optimize_edges rg es w = (es', w')"
  shows "anchors_grow w w' \<and> list_all2 (near w w') es es'"
  using assms
proof (induction es arbitrary: w es')
  case (Cons e es)
  obtain e1 w1 where e: "optimize_edge rg e w = (e1, w1)" by fastforce
  obtain es1 where es: "optimize_edges rg es w1 = (es1, w')" "es' = e1 # es1" using Cons.prems e by (auto split: prod.splits)
  note n = optimize_edge_near [OF e]
  have r: "anchors_grow w1 w'" "list_all2 (near w1 w') es es1" using Cons.IH [OF es(1)] by simp_all
  have "list_all2 (near w w') es es1" using near_grow [OF n(1) _ anchors_grow_refl] r(2) by (auto elim: list_all2_mono)
  moreover have "near w w' e e1" by (rule near_grow [OF anchors_grow_refl n(2) r(1)])
  ultimately show ?case using anchors_grow_trans [OF n(1) r(1)] es(2) by simp
qed (simp add: anchors_grow_refl)

definition optimised :: "CN_WORLD \<Rightarrow> CN_WORLD \<Rightarrow> RN_NET \<Rightarrow> RN_NET \<Rightarrow> bool" where
  "optimised w w' net net' \<longleftrightarrow> (\<exists>es. net' = net\<lparr> rn_rnEdges := es \<rparr> \<and> list_all2 (near w w') (rn_rnEdges net) es)"

lemma optimised_grow:
  assumes "anchors_grow u v" and "optimised v w net net'" and "anchors_grow w x"
  shows "optimised u x net net'"
  using assms(2) near_grow [OF assms(1) _ assms(3)] unfolding optimised_def by (metis list_all2_mono)

lemma optimise_nets:
  assumes "distinct ns" and "\<forall>i \<in> set ns. i < length nets"
  shows "\<exists>nets' w'. fold_opt (on_net (\<lambda>net w. Some (OptimizeRNEdges rg net w))) ns (nets, w) = Some (nets', w') \<and>
    anchors_grow w w' \<and> length nets' = length nets \<and>
    (\<forall>i. if i \<in> set ns then optimised w w' (nets ! i) (nets' ! i) else nets' ! i = nets ! i)"
  using assms
proof (induction ns arbitrary: nets w)
  case Nil
  show ?case by (intro exI [of _ nets] exI [of _ w]) (simp add: anchors_grow_refl)
next
  case (Cons i ns)
  obtain es w1 where e: "optimize_edges rg (rn_rnEdges (nets ! i)) w = (es, w1)" by fastforce
  define net where "net = (nets ! i)\<lparr> rn_rnEdges := es \<rparr>"
  note n = optimize_edges_near [OF e]
  have step: "on_net (\<lambda>net w. Some (OptimizeRNEdges rg net w)) i (nets, w) = Some (nets[i := net], w1)"
    using e by (simp add: on_net_def OptimizeRNEdges_def net_def)
  have i: "i < length nets" "i \<notin> set ns" using Cons.prems by auto
  have "\<exists>nets' w'. fold_opt (on_net (\<lambda>net w. Some (OptimizeRNEdges rg net w))) ns (nets[i := net], w1) = Some (nets', w') \<and>
    anchors_grow w1 w' \<and> length nets' = length (nets[i := net]) \<and>
    (\<forall>j. if j \<in> set ns then optimised w1 w' (nets[i := net] ! j) (nets' ! j) else nets' ! j = nets[i := net] ! j)"
    using Cons.prems by (intro Cons.IH) simp_all
  then obtain nets' w' where r: "fold_opt (on_net (\<lambda>net w. Some (OptimizeRNEdges rg net w))) ns (nets[i := net], w1) = Some (nets', w')"
    "anchors_grow w1 w'" "length nets' = length nets"
    "\<forall>j. if j \<in> set ns then optimised w1 w' (nets[i := net] ! j) (nets' ! j) else nets' ! j = nets[i := net] ! j"
    unfolding length_list_update by (elim exE conjE) (rule that)
  have "optimised w w1 (nets ! i) net" unfolding optimised_def net_def using n by (intro exI [of _ es]) simp
  then have here: "optimised w w' (nets ! i) net" by (rule optimised_grow [OF anchors_grow_refl _ r(2)])
  have "if j \<in> set (i # ns) then optimised w w' (nets ! j) (nets' ! j) else nets' ! j = nets ! j" for j
  proof (cases "j = i")
    case True
    then show ?thesis using r(4) [rule_format, of i] here i by simp
  next
    case False
    then show ?thesis
      using r(4) [rule_format, of j] optimised_grow [OF conjunct1 [OF n] _ anchors_grow_refl] by (auto split: if_splits)
  qed
  then show ?case using step r(1,3) anchors_grow_trans [OF conjunct1 [OF n] r(2)] by (intro exI [of _ nets'] exI [of _ w']) simp
qed

end
