(* ===== verification/CnIslands.thy ===== *)
theory CnIslands
  imports CnProps CnBuild
begin

text \<open>
  The islands of zones that \<open>CN_CONNECTIVITY_ALGO::FillIsolatedIslandsMap\<close> of
  \<^verbatim>\<open>pcbnew/connectivity/connectivity_algo.cpp\<close> finds: those whose component has no pad, and those with one connection.
\<close>

section \<open>One layer of a zone\<close>

definition island_match :: "CN_WORLD \<Rightarrow> nat \<Rightarrow> int \<Rightarrow> nat \<Rightarrow> bool" where
  "island_match w zone layer i \<longleftrightarrow> ci_parent (cn_item w i) = zone \<and> lr_start (ci_layers (cn_item w i)) = layer"

lemma island_items:
  "set (is_IsolatedOutlines (fold (island_item w zone layer c) xs r)) =
    set (is_IsolatedOutlines r) \<union> {SubpolyIndex w i | i. i \<in> set xs \<and> island_match w zone layer i \<and> IsOrphaned c}"
  "set (is_SingleConnectionOutlines (fold (island_item w zone layer c) xs r)) =
    set (is_SingleConnectionOutlines r) \<union>
    {SubpolyIndex w i | i. i \<in> set xs \<and> island_match w zone layer i \<and> \<not> IsOrphaned c \<and> HasSingleConnection w i}"
  by (induction xs arbitrary: r) (auto simp: island_item_def island_match_def)

lemma island_clusters:
  "set (is_IsolatedOutlines (fold (\<lambda>c. fold (island_item w zone layer c) (cl_items c)) cs r)) =
    set (is_IsolatedOutlines r) \<union> {SubpolyIndex w i | i c. c \<in> set cs \<and> i \<in> set (cl_items c) \<and> island_match w zone layer i \<and> IsOrphaned c}"
  "set (is_SingleConnectionOutlines (fold (\<lambda>c. fold (island_item w zone layer c) (cl_items c)) cs r)) =
    set (is_SingleConnectionOutlines r) \<union>
    {SubpolyIndex w i | i c. c \<in> set cs \<and> i \<in> set (cl_items c) \<and> island_match w zone layer i \<and> \<not> IsOrphaned c \<and> HasSingleConnection w i}"
proof (induction cs arbitrary: r)
  case (Cons c cs)
  case 1 show ?case unfolding fold_simps Cons(1) island_items by auto
  case 2 show ?case unfolding fold_simps Cons(2) island_items by auto
qed simp_all

text \<open>A cluster is orphaned when no item of its component is a pad with a net.\<close>

lemma cluster_of_orphaned: "IsOrphaned (cluster_of w L) \<longleftrightarrow> pad_nets w (set L) = {}"
  using cluster_of_inv [of w L] by (simp add: cluster_inv_def IsOrphaned_def)

section \<open>Property\<close>

text \<open>The component of an item within its net.\<close>

definition net_component :: "CN_WORLD \<Rightarrow> nat \<Rightarrow> nat set" where
  "net_component w i = comp_of (cluster_edges CSM_CONNECTIVITY_CHECK w) i"

definition islands :: "CN_WORLD \<Rightarrow> nat \<Rightarrow> int \<Rightarrow> nat set" where
  "islands w zone layer = {i \<in> search_items CSM_CONNECTIVITY_CHECK w. island_match w zone layer i}"

text \<open>
  C33. When the connectivity has been rebuilt, the search for islands returns, and on a layer of a zone that
  is filled it adds exactly the outlines whose component has no pad to the isolated ones, and
  exactly the other outlines with one connection to those.
\<close>

theorem FillIsolatedIslandsMap_islands:
  assumes "nearby_ok g" and "board_ok (CN_WORLD_make board enabled)" and "cn_reach g (CN_WORLD_make board enabled) w"
    and "searched g w = Some w1"
  shows "\<exists>cs w'. FillIsolatedIslandsMap g aMap True w = Some (map (\<lambda>(zone, isl). (zone, map (fill_layer w' cs zone) isl)) aMap, cs, w') \<and>
    (\<forall>zone layer old. bi_outlines (cn_board w1 zone) layer \<noteq> [] \<longrightarrow>
       set (is_IsolatedOutlines (snd (fill_layer w' cs zone (layer, old)))) = set (is_IsolatedOutlines old) \<union>
         SubpolyIndex w1 ` {i \<in> islands w1 zone layer. pad_nets w1 (net_component w1 i) = {}} \<and>
       set (is_SingleConnectionOutlines (snd (fill_layer w' cs zone (layer, old)))) = set (is_SingleConnectionOutlines old) \<union>
         SubpolyIndex w1 ` {i \<in> islands w1 zone layer. pad_nets w1 (net_component w1 i) \<noteq> {} \<and> HasSingleConnection w1 i})"
proof -
  let ?m = CSM_CONNECTIVITY_CHECK
  let ?S = "search_items ?m w1" and ?E = "cluster_edges ?m w1"
  note inv = searched_inv [OF assms(1) reach_from_empty [OF assms(1-3)] assms(4)]
  from SearchClusters_found [OF inv(1,2), of ?m g] obtain Ls w' where L:
    "SearchClusters g ?m w1 = Some (sort_key cl_originNet (map (cluster_of w1) Ls), w')" "unmarked w' = unmarked w1"
    "set (map set Ls) = comps ?S ?E" by auto
  define cs where "cs = sort_key cl_originNet (map (cluster_of w1) Ls)"
  have same: "ci_layers (cn_item w' i) = ci_layers (cn_item w1 i) \<and> ci_zone_layer (cn_item w' i) = ci_zone_layer (cn_item w1 i)" for i
  proof -
    have "ci_layers (cn_item (unmarked w') i) = ci_layers (cn_item (unmarked w1) i)"
      "ci_zone_layer (cn_item (unmarked w') i) = ci_zone_layer (cn_item (unmarked w1) i)" unfolding L(2) by (rule refl)+
    then show ?thesis by (simp add: unmarked_def)
  qed
  have eq: "island_match w' = island_match w1" "SubpolyIndex w' = SubpolyIndex w1" "HasSingleConnection w' = HasSingleConnection w1"
    "cn_board w' = cn_board w1"
    using same same_fields [OF L(2)] same_world(3) [OF L(2)]
    by (simp_all add: island_match_def SubpolyIndex_def HasSingleConnection_def fun_eq_iff)
  have mem: "(\<exists>c \<in> set cs. i \<in> set (cl_items c) \<and> P (IsOrphaned c)) \<longleftrightarrow> i \<in> ?S \<and> P (pad_nets w1 (net_component w1 i) = {})" for i P
  proof -
    have "(\<exists>c \<in> set cs. i \<in> set (cl_items c) \<and> P (IsOrphaned c)) \<longleftrightarrow> (\<exists>C \<in> set (map set Ls). i \<in> C \<and> P (pad_nets w1 C = {}))"
      by (simp add: cs_def cluster_of_orphaned)
    also have "\<dots> \<longleftrightarrow> (\<exists>r \<in> ?S. i \<in> comp_of ?E r \<and> P (pad_nets w1 (comp_of ?E r) = {}))"
      unfolding L(3) by (simp add: comps_def)
    also have "\<dots> \<longleftrightarrow> i \<in> ?S \<and> P (pad_nets w1 (net_component w1 i) = {})"
    proof
      assume "\<exists>r \<in> ?S. i \<in> comp_of ?E r \<and> P (pad_nets w1 (comp_of ?E r) = {})"
      then obtain r where r: "r \<in> ?S" "i \<in> comp_of ?E r" "P (pad_nets w1 (comp_of ?E r) = {})" by blast
      have "comp_of ?E r \<in> comps ?S ?E" using r(1) by (simp add: comps_def)
      then have "i \<in> ?S" using cluster_items [OF inv(1)] r(2) by blast
      moreover have "comp_of ?E r = comp_of ?E i" using r(2) comp_of_eq [of ?E r i] by (simp add: comp_of_def)
      ultimately show "i \<in> ?S \<and> P (pad_nets w1 (net_component w1 i) = {})" using r(3) by (simp add: net_component_def)
    next
      assume "i \<in> ?S \<and> P (pad_nets w1 (net_component w1 i) = {})"
      moreover have "i \<in> comp_of ?E i" by (simp add: comp_of_def)
      ultimately show "\<exists>r \<in> ?S. i \<in> comp_of ?E r \<and> P (pad_nets w1 (comp_of ?E r) = {})" by (auto simp: net_component_def)
    qed
    finally show ?thesis .
  qed
  have "FillIsolatedIslandsMap g aMap True w = Some (map (\<lambda>(zone, isl). (zone, map (fill_layer w' cs zone) isl)) aMap, cs, w')"
    using L(1) inv(3) [of ?m] by (simp add: FillIsolatedIslandsMap_def cs_def)
  moreover have "set (is_IsolatedOutlines (snd (fill_layer w' cs zone (layer, old)))) = set (is_IsolatedOutlines old) \<union>
         SubpolyIndex w1 ` {i \<in> islands w1 zone layer. pad_nets w1 (net_component w1 i) = {}} \<and>
       set (is_SingleConnectionOutlines (snd (fill_layer w' cs zone (layer, old)))) = set (is_SingleConnectionOutlines old) \<union>
         SubpolyIndex w1 ` {i \<in> islands w1 zone layer. pad_nets w1 (net_component w1 i) \<noteq> {} \<and> HasSingleConnection w1 i}"
    if "bi_outlines (cn_board w1 zone) layer \<noteq> []" for zone layer old
  proof -
    have fill: "fill_layer w' cs zone (layer, old) = (layer, fold (\<lambda>c. fold (island_item w' zone layer c) (cl_items c)) cs old)"
      using that eq(4) by (simp add: fill_layer_def)
    have isolated: "{SubpolyIndex w1 i | i c. c \<in> set cs \<and> i \<in> set (cl_items c) \<and> island_match w1 zone layer i \<and> IsOrphaned c} =
        SubpolyIndex w1 ` {i \<in> islands w1 zone layer. pad_nets w1 (net_component w1 i) = {}}"
      using mem [of _ "\<lambda>b. b"] unfolding islands_def by blast
    have single: "{SubpolyIndex w1 i | i c. c \<in> set cs \<and> i \<in> set (cl_items c) \<and> island_match w1 zone layer i \<and> \<not> IsOrphaned c \<and>
          HasSingleConnection w1 i} =
        SubpolyIndex w1 ` {i \<in> islands w1 zone layer. pad_nets w1 (net_component w1 i) \<noteq> {} \<and> HasSingleConnection w1 i}"
      using mem [of _ "\<lambda>b. \<not> b"] unfolding islands_def by blast
    show ?thesis unfolding fill snd_conv island_clusters eq isolated single by simp
  qed
  ultimately show ?thesis by blast
qed

text \<open>A zone with one outline and nothing else.\<close>

definition island_board :: "nat \<Rightarrow> BOARD_CITEM" where
  "island_board p = (demo_board p)\<lparr> bi_type := PCB_ZONE_T, bi_net := 1, bi_outlines := (\<lambda>l. if l = 0 then [[(0, 0), (5, 0), (0, 5)]] else []) \<rparr>"

definition island_item_at :: "bool \<Rightarrow> CN_ITEM" where
  "island_item_at dirty =
     \<lparr> ci_parent = 0, ci_connected = [], ci_anchors = [0, 1, 2], ci_layers = LAYER_RANGE_single 0, ci_canChangeNet = False,
       ci_visited = False, ci_valid = True, ci_dirty = dirty, ci_zone_layer = Some (0, 0) \<rparr>"

definition island_anchors :: "nat \<Rightarrow> CN_ANCHOR" where
  "island_anchors a = (if a < 3 then \<lparr> an_pos = (if a = 1 then (5, 0) else if a = 2 then (0, 5) else (0, 0)), an_item = Some 0, an_tag = - 1,
     an_noline = False, an_cluster = None \<rparr> else \<lparr> an_pos = (0, 0), an_item = None, an_tag = - 1, an_noline = False, an_cluster = None \<rparr>)"

definition island_state :: "bool \<Rightarrow> CN_WORLD" where
  "island_state dirty =
     \<lparr> cn_board = island_board, cn_enabled = [1], cn_item = (\<lambda>i. if i = 0 then island_item_at dirty else CN_ITEM_make 0 False),
       cn_anchor = island_anchors, cn_next_item = 1, cn_next_anchor = 3, cn_items = [0], cn_index = [0], cn_list_dirty = dirty,
       cn_has_invalid = False, cn_item_map = [0 \<mapsto> [0]], cn_dirty_nets = [True, True] \<rparr>"

definition island_world :: CN_WORLD where
  "island_world = island_state True"

definition island_searched :: CN_WORLD where
  "island_searched = island_state False"

definition island_map :: "(nat \<times> (int \<times> ISOLATED_ISLANDS) list) list" where
  "island_map = [(0, [(0, \<lparr> is_IsolatedOutlines = [], is_SingleConnectionOutlines = [] \<rparr>)])]"

lemma island_layers: "BASE_SET_and [1] [1] = Some [1]" "LSET_RunOnLayers [1] f w = f 0 w"
  by (simp_all add: BASE_SET_and_def LSET_RunOnLayers_def BASE_SET_test_def)

lemma island_outline:
  "list_Add_zone 0 0 ((CN_WORLD_make island_board [1])\<lparr> cn_item_map := [0 \<mapsto> []] \<rparr>) =
     ([0], island_world\<lparr> cn_item_map := [0 \<mapsto> []], cn_dirty_nets := [] \<rparr>)"
proof -
  have o: "bi_outlines (island_board 0) 0 = [[(0, 0), (5, 0), (0, 5)]]" by (simp add: island_board_def)
  show ?thesis
    by (simp add: list_Add_zone_def list_Add_outline_def o AddAnchor_def upd_item_def Let_def CN_WORLD_make_def CN_ZONE_LAYER_make_def
        CN_ITEM_make_def new_item_def list_insert_def island_world_def island_state_def)
      (auto simp: fun_eq_iff island_item_at_def island_anchors_def CN_ITEM_make_def)
qed

lemma island_Add: "algo_Add 0 (CN_WORLD_make island_board [1]) = Some (True, island_world)"
proof -
  let ?w = "CN_WORLD_make island_board [1]"
  have w: "cn_board ?w = island_board" "cn_enabled ?w = [1]" "cn_item_map ?w = Map.empty" by (simp_all add: CN_WORLD_make_def)
  have b: "bi_type (island_board 0) = PCB_ZONE_T" "bi_on_copper (island_board 0)" "bi_layer_set (island_board 0) = [1]"
    "bi_connected (island_board 0)" "bi_net (island_board 0) = 1" by (simp_all add: island_board_def demo_board_def)
  have "add_zone 0 ?w = Some (island_world\<lparr> cn_dirty_nets := [] \<rparr>)"
    using island_outline by (simp add: add_zone_def w b island_layers) (simp add: island_world_def island_state_def)
  then show ?thesis
    by (simp add: algo_Add_def w b alreadyAdded_def Let_def) (simp add: markItemNetAsDirty_def MarkNetAsDirty_def island_world_def island_state_def b)
qed

lemma island_search: "searched demo_geometry island_world = Some island_searched"
proof -
  have w: "cn_items island_world = [0]" "cn_list_dirty island_world" "\<not> cn_has_invalid island_world" "cn_index island_world = [0]"
    "ci_connected (cn_item island_world 0) = []" "ci_dirty (cn_item island_world 0)"
    by (simp_all add: island_world_def island_state_def island_item_at_def)
  have "algo_RemoveInvalidRefs island_world = island_world"
    by (simp add: algo_RemoveInvalidRefs_def w item_RemoveInvalidRefs_def upd_item_def)
      (simp add: island_world_def island_state_def island_item_at_def fun_eq_iff)
  moreover have "search_item demo_geometry 0 island_world = Some island_world"
    by (simp add: search_item_def demo_geometry_def w visit_def Let_def)
  moreover have "list_ClearDirtyFlags island_world = island_searched"
    by (simp add: list_ClearDirtyFlags_def w upd_item_def) (simp add: island_searched_def island_world_def island_state_def island_item_at_def fun_eq_iff)
  ultimately show ?thesis by (simp add: searched_def searchConnections_def w RemoveInvalidItems_def)
qed

lemma island_demo_map:
  "map (\<lambda>(zone, isl). map (\<lambda>(layer, s). is_IsolatedOutlines s) isl) (fst (the (FillIsolatedIslandsMap demo_geometry island_map True island_searched))) = [[[0]]]"
  by code_simp

theorem FillIsolatedIslandsMap_islands_witness:
  "SubpolyIndex island_searched ` {i \<in> islands island_searched 0 0. pad_nets island_searched (net_component island_searched i) = {}} = {0}"
proof -
  have ok: "board_ok (CN_WORLD_make island_board [1])" by (simp add: board_ok_def CN_WORLD_make_def island_board_def demo_board_def)
  have reach: "cn_reach demo_geometry (CN_WORLD_make island_board [1]) island_world"
    using island_Add by (metis reach_start reach_step step_Add)
  from FillIsolatedIslandsMap_islands [OF demo_ok(1) ok reach island_search, of island_map]
  obtain cs w' where f: "FillIsolatedIslandsMap demo_geometry island_map True island_world =
      Some (map (\<lambda>(zone, isl). (zone, map (fill_layer w' cs zone) isl)) island_map, cs, w')"
    and i: "\<forall>zone layer old. bi_outlines (cn_board island_searched zone) layer \<noteq> [] \<longrightarrow>
       set (is_IsolatedOutlines (snd (fill_layer w' cs zone (layer, old)))) = set (is_IsolatedOutlines old) \<union>
         SubpolyIndex island_searched ` {i \<in> islands island_searched zone layer. pad_nets island_searched (net_component island_searched i) = {}} \<and>
       set (is_SingleConnectionOutlines (snd (fill_layer w' cs zone (layer, old)))) = set (is_SingleConnectionOutlines old) \<union>
         SubpolyIndex island_searched ` {i \<in> islands island_searched zone layer.
           pad_nets island_searched (net_component island_searched i) \<noteq> {} \<and> HasSingleConnection island_searched i}"
    by (elim exE conjE) (rule that)
  let ?old = "\<lparr> is_IsolatedOutlines = [], is_SingleConnectionOutlines = [] \<rparr>"
  have eq: "FillIsolatedIslandsMap demo_geometry island_map True island_world = FillIsolatedIslandsMap demo_geometry island_map True island_searched"
    using searched_inv(3) [OF demo_ok(1) reach_from_empty [OF demo_ok(1) ok reach] island_search] by (simp add: FillIsolatedIslandsMap_def)
  have "map (\<lambda>(zone, isl). map (\<lambda>(layer, s). is_IsolatedOutlines s) isl) (map (\<lambda>(zone, isl). (zone, map (fill_layer w' cs zone) isl)) island_map) = [[[0]]]"
    using island_demo_map unfolding eq [symmetric] f by (simp del: map_map)
  then have "is_IsolatedOutlines (snd (fill_layer w' cs 0 (0, ?old))) = [0]" by (simp add: island_map_def case_prod_beta)
  moreover have "bi_outlines (cn_board island_searched 0) 0 \<noteq> []" by (simp add: island_searched_def island_state_def island_board_def)
  then have "set (is_IsolatedOutlines (snd (fill_layer w' cs 0 (0, ?old)))) = set (is_IsolatedOutlines ?old) \<union>
      SubpolyIndex island_searched ` {i \<in> islands island_searched 0 0. pad_nets island_searched (net_component island_searched i) = {}}"
    using i by blast
  ultimately show ?thesis by simp
qed

end
