(* ===== verification/CnFound.thy ===== *)
theory CnFound
  imports CnLines CnIslands
begin

text \<open>
  From the clusters of the board to the nets of the ratsnest (\<^verbatim>\<open>pcbnew/connectivity/connectivity_data.cpp\<close>):
  what the clusters found are, which nets they make ready, and what the lines of a net link.
\<close>

section \<open>Marks of nets\<close>

text \<open>Every net that an item has was marked once, so there is a flag for it.\<close>

definition nets_known :: "CN_WORLD \<Rightarrow> bool" where
  "nets_known w \<longleftrightarrow> (\<forall>i \<in> set (cn_items w). cn_Net w i < int (length (cn_dirty_nets w)))"

definition marks_grow :: "CN_WORLD \<Rightarrow> CN_WORLD \<Rightarrow> bool" where
  "marks_grow w w' \<longleftrightarrow> cn_item w' = cn_item w \<and> cn_items w' = cn_items w \<and> length (cn_dirty_nets w) \<le> length (cn_dirty_nets w') \<and>
     (\<forall>n. dirty_net w n \<longrightarrow> dirty_net w' n) \<and> (nets_known w \<longrightarrow> nets_known w') \<and> cn_list_dirty w' = cn_list_dirty w"

lemma marks_grow_refl: "marks_grow w w"
  by (simp add: marks_grow_def)

lemma marks_grow_trans: "marks_grow u v \<Longrightarrow> marks_grow v w \<Longrightarrow> marks_grow u w"
  by (simp add: marks_grow_def)

lemma MarkNetAsDirty_nets:
  "length (cn_dirty_nets w) \<le> length (cn_dirty_nets (MarkNetAsDirty n w))" "n < int (length (cn_dirty_nets (MarkNetAsDirty n w)))"
  "dirty_net w m \<Longrightarrow> dirty_net (MarkNetAsDirty n w) m"
  "cn_item (MarkNetAsDirty n w) = cn_item w" "cn_items (MarkNetAsDirty n w) = cn_items w" "cn_board (MarkNetAsDirty n w) = cn_board w"
  "cn_list_dirty (MarkNetAsDirty n w) = cn_list_dirty w"
  by (auto simp: MarkNetAsDirty_def Let_def dirty_net_def nth_append nth_list_update split: if_splits)

lemma MarkNetAsDirty_known: "nets_known w \<Longrightarrow> nets_known (MarkNetAsDirty n w)"
proof -
  have "cn_Net (MarkNetAsDirty n w) = cn_Net w" by (simp add: fun_eq_iff cn_Net_def cn_parent_def MarkNetAsDirty_nets)
  then show "nets_known w \<Longrightarrow> nets_known (MarkNetAsDirty n w)"
    unfolding nets_known_def MarkNetAsDirty_nets(5) using MarkNetAsDirty_nets(1) [of w n] by fastforce
qed

lemma SetNetCode_known:
  assumes "nets_known w" and "n < int (length (cn_dirty_nets w))"
  shows "nets_known (SetNetCode p n w)"
  using assms by (auto simp: nets_known_def SetNetCode_def cn_Net_def cn_parent_def)

lemma propagate_marks: "marks_grow w (snd (propagateConnections cs (ms, w)))"
proof -
  have one: "marks_grow v (SetNetCode p n (MarkNetAsDirty n (MarkNetAsDirty m v)))" for v p n m
  proof -
    let ?v = "MarkNetAsDirty n (MarkNetAsDirty m v)"
    have "nets_known (SetNetCode p n ?v)" if "nets_known v"
      by (rule SetNetCode_known [OF MarkNetAsDirty_known [OF MarkNetAsDirty_known [OF that]] MarkNetAsDirty_nets(2)])
    moreover have "dirty_net (SetNetCode p n ?v) k" if "dirty_net v k" for k
      using MarkNetAsDirty_nets(3) [OF MarkNetAsDirty_nets(3) [OF that]] by (simp add: dirty_net_def SetNetCode_def)
    moreover have "length (cn_dirty_nets v) \<le> length (cn_dirty_nets (SetNetCode p n ?v))"
      using le_trans [OF MarkNetAsDirty_nets(1) MarkNetAsDirty_nets(1)] by (simp add: SetNetCode_def)
    moreover have "cn_item (SetNetCode p n ?v) = cn_item v" "cn_items (SetNetCode p n ?v) = cn_items v"
      "cn_list_dirty (SetNetCode p n ?v) = cn_list_dirty v" by (simp_all add: SetNetCode_def MarkNetAsDirty_nets)
    ultimately show ?thesis unfolding marks_grow_def by blast
  qed
  have item: "marks_grow w (snd s) \<Longrightarrow> marks_grow w (snd (propagate_item c i s))" for c i s
    using marks_grow_trans [OF _ one] by (cases s) (simp add: propagate_item_def Let_def)
  have cluster: "marks_grow w (snd s) \<Longrightarrow> marks_grow w (snd (propagate_cluster c s))" for c s
    unfolding propagate_cluster_def
    by (simp, intro impI, rule fold_invariant [where Q = "\<lambda>_. True" and P = "\<lambda>s. marks_grow w (snd s)"]) (simp_all add: item)
  show ?thesis
    unfolding propagateConnections_def
    by (rule fold_invariant [where Q = "\<lambda>_. True" and P = "\<lambda>s. marks_grow w (snd s)"]) (simp_all add: cluster marks_grow_refl)
qed

section \<open>The clusters found\<close>

lemma same_unmarked_items:
  assumes "unmarked w' = unmarked w"
  shows "ci_zone_layer (cn_item w' i) = ci_zone_layer (cn_item w i)" "ci_anchors (cn_item w' i) = ci_anchors (cn_item w i)"
    "cn_dirty_nets w' = cn_dirty_nets w" "cn_anchor w' = cn_anchor w" "cn_next_anchor w' = cn_next_anchor w"
proof -
  have "cn_item (unmarked w') i = cn_item (unmarked w) i" using assms by simp
  then have "(cn_item w' i)\<lparr> ci_visited := False \<rparr> = (cn_item w i)\<lparr> ci_visited := False \<rparr>" by (simp add: unmarked_def)
  from arg_cong [where f = ci_zone_layer, OF this] arg_cong [where f = ci_anchors, OF this]
  show "ci_zone_layer (cn_item w' i) = ci_zone_layer (cn_item w i)" "ci_anchors (cn_item w' i) = ci_anchors (cn_item w i)" by simp_all
  have "cn_dirty_nets (unmarked w') = cn_dirty_nets (unmarked w)" "cn_anchor (unmarked w') = cn_anchor (unmarked w)"
    "cn_next_anchor (unmarked w') = cn_next_anchor (unmarked w)" using assms by simp_all
  then show "cn_dirty_nets w' = cn_dirty_nets w" "cn_anchor w' = cn_anchor w" "cn_next_anchor w' = cn_next_anchor w"
    by (simp_all add: unmarked_def)
qed

text \<open>An outline of a zone that touches no item of its net.\<close>

definition island :: "CN_WORLD \<Rightarrow> nat \<Rightarrow> bool" where
  "island w i \<longleftrightarrow> ci_zone_layer (cn_item w i) \<noteq> None \<and> \<not> counted_pad w i \<and> (\<forall>j. hop True w i j \<longrightarrow> j = i)"

definition found :: "CN_WORLD \<Rightarrow> CN_CLUSTER list \<Rightarrow> bool" where
  "found w cs \<longleftrightarrow> distinct (concat (map cl_items cs)) \<and>
     (\<forall>c \<in> set cs. \<forall>i \<in> set (cl_items c). i \<in> set (cn_items w) \<and> ci_valid (cn_item w i) \<and> cn_Net w i = cl_originNet c \<and> cn_Net w i > 0) \<and>
     (\<forall>c \<in> set cs. \<forall>i \<in> set (cl_items c). \<forall>j \<in> set (cl_items c). (i, j) \<in> linked_by (touching w)) \<and>
     (\<forall>i \<in> set (cn_items w). ci_valid (cn_item w i) \<and> cn_Net w i > 0 \<longrightarrow> (\<exists>c \<in> set cs. i \<in> set (cl_items c))) \<and>
     (\<forall>c \<in> set cs. kept_island w c \<longleftrightarrow> (\<exists>i. cl_items c = [i] \<and> island w i)) \<and>
     (\<forall>c \<in> set cs. \<forall>i \<in> set (cl_items c). island w i \<longrightarrow> cl_items c = [i]) \<and>
     (\<forall>c \<in> set cs. cl_items c \<noteq> [])"

lemma found_unmarked:
  assumes "unmarked w' = unmarked w" and "found w cs"
  shows "found w' cs"
proof -
  note f = same_fields [OF assms(1)] same_world [OF assms(1)] same_unmarked_items [OF assms(1)] hop_same [OF assms(1)]
  have e: "kept_island w' = kept_island w" "touching w' = touching w" "island w' = island w"
    by (simp_all add: fun_eq_iff kept_island_def touching_def island_def counted_pad_def f)
  show ?thesis using assms(2) unfolding found_def f e .
qed

text \<open>The components within one net, as the clusters that a search returns.\<close>

lemma component_item:
  assumes "search_closed True w S" and "C \<in> comps S (edges_of True w S)" and "i \<in> C"
  shows "C = comp_of (edges_of True w S) i" "i \<in> S"
proof -
  obtain r where r: "r \<in> S" "C = comp_of (edges_of True w S) r" using assms(2) by (auto simp: comps_def)
  then have "(r, i) \<in> linked_by (edges_of True w S)" using assms(3) by (simp add: comp_of_def)
  then show "C = comp_of (edges_of True w S) i" using r(2) by (simp add: comp_of_eq)
  show "i \<in> S" using comp_of_closed [OF assms(1) r(1)] r(2) assms(3) by blast
qed

lemma component_net_same:
  assumes "(i, j) \<in> linked_by (edges_of True w S)"
  shows "cn_Net w j = cn_Net w i"
  using assms unfolding linked_by_def
proof (induction rule: rtrancl_induct)
  case (step y z)
  then show ?case by (auto simp: edges_of_def hop_def)
qed simp

lemma component_single:
  assumes "search_closed True w S" and "i \<in> S"
  shows "comp_of (edges_of True w S) i = {i} \<longleftrightarrow> (\<forall>j. hop True w i j \<longrightarrow> j = i)"
proof
  assume c: "comp_of (edges_of True w S) i = {i}"
  show "\<forall>j. hop True w i j \<longrightarrow> j = i"
  proof (intro allI impI)
    fix j assume "hop True w i j"
    then have "(i, j) \<in> linked_by (edges_of True w S)" using assms(2) by (intro linked_edge) (simp add: edges_of_def)
    then show "j = i" using c by (auto simp: comp_of_def)
  qed
next
  assume h: "\<forall>j. hop True w i j \<longrightarrow> j = i"
  have "j = i" if "(i, j) \<in> linked_by (edges_of True w S)" for j
    using that unfolding linked_by_def
  proof (induction rule: rtrancl_induct)
    case (step y z)
    then have "hop True w i z \<or> hop True w z i \<and> z \<in> S" by (auto simp: edges_of_def)
    then show ?case using h search_closedD(2) [OF assms(1)] by blast
  qed simp
  then show "comp_of (edges_of True w S) i = {i}" by (auto simp: comp_of_def)
qed

lemma SearchClusters_ratsnest:
  assumes "cn_inv w" and "\<not> cn_list_dirty w"
  shows "\<exists>cs w'. SearchClusters g CSM_RATSNEST w = Some (cs, w') \<and> unmarked w' = unmarked w \<and> found w cs"
proof -
  let ?S = "search_items CSM_RATSNEST w" and ?E = "edges_of True w (search_items CSM_RATSNEST w)"
  have closed: "search_closed True w ?S" using search_items_closed [OF assms(1), of CSM_RATSNEST] by simp
  from SearchClusters_found [OF assms, of CSM_RATSNEST g] obtain Ls w' where L:
    "SearchClusters g CSM_RATSNEST w = Some (sort_key cl_originNet (map (cluster_of w) Ls), w')" "unmarked w' = unmarked w"
    "list_all distinct Ls" "distinct (map set Ls)" "set (map set Ls) = comps ?S ?E" by (auto simp: cluster_edges_def)
  let ?cs = "sort_key cl_originNet (map (cluster_of w) Ls)"
  have comp: "set L \<in> comps ?S ?E" if "L \<in> set Ls" for L using L(5) that by auto
  have cs: "c \<in> set ?cs \<longleftrightarrow> (\<exists>L \<in> set Ls. c = cluster_of w L)" for c by auto
  have ne: "L \<noteq> []" if "L \<in> set Ls" for L using comp [OF that] by (auto simp: comps_def comp_of_def)
  have linked: "(i, j) \<in> linked_by ?E" if "L \<in> set Ls" "i \<in> set L" "j \<in> set L" for L i j
    using component_item(1) [OF closed comp [OF that(1)] that(2)] that(3) by (simp add: comp_of_def)
  have dist: "distinct (concat (map cl_items ?cs))"
  proof -
    have "mset (map cl_items ?cs) = mset Ls" unfolding mset_sort_key_map by (simp add: comp_def)
    then have "image_mset mset (mset (map cl_items ?cs)) = image_mset mset (mset Ls)" by simp
    then have "mset (concat (map cl_items ?cs)) = mset (concat Ls)"
      unfolding mset_concat sum_mset_sum_list [symmetric] mset_map [symmetric] by simp
    moreover have "distinct (concat Ls)"
    proof (rule distinct_concat)
      show "distinct Ls" using L(4) by (simp add: distinct_map)
      show "distinct L" if "L \<in> set Ls" for L using L(3) that by (simp add: list_all_iff)
      show "set L \<inter> set M = {}" if "L \<in> set Ls" "M \<in> set Ls" "L \<noteq> M" for L M
      proof -
        have "set L \<noteq> set M" using L(4) that by (auto simp: distinct_map inj_on_def)
        then show ?thesis using comps_disjoint [OF comp comp] that(1,2) by blast
      qed
    qed
    ultimately show ?thesis using mset_eq_imp_distinct_iff by blast
  qed
  have origin: "cl_originNet (cluster_of w L) = cn_Net w i \<and> cn_Net w i > 0" if "L \<in> set Ls" "i \<in> set L" for L i
  proof -
    have i: "i \<in> ?S" using component_item(2) [OF closed comp [OF that(1)] that(2)] .
    then have pos: "cn_Net w i > 0" by (simp add: search_items_def)
    then have "cl_originNet (cluster_of w L) > 0" "cl_originNet (cluster_of w L) > 0 \<longrightarrow> (\<exists>j \<in> set L. cn_Net w j = cl_originNet (cluster_of w L))"
      using cluster_of_inv [of w L] that(2) unfolding cluster_inv_def by blast+
    then obtain j where j: "j \<in> set L" "cn_Net w j = cl_originNet (cluster_of w L)" by blast
    have "cn_Net w j = cn_Net w i" using component_net_same [OF linked [OF that j(1)]] .
    then show ?thesis using j(2) pos by simp
  qed
  have touch: "linked_by ?E \<subseteq> linked_by (touching w)"
    by (rule linked_mono) (auto simp: edges_of_def hop_def touching_def search_items_def)
  have single: "L = [i] \<longleftrightarrow> (\<forall>j. hop True w i j \<longrightarrow> j = i)" if "L \<in> set Ls" "i \<in> set L" for L i
  proof -
    have c: "set L = comp_of ?E i" "i \<in> ?S" using component_item [OF closed comp [OF that(1)] that(2)] by simp_all
    have "distinct L" using L(3) that(1) by (simp add: list_all_iff)
    then have "L = [i] \<longleftrightarrow> set L = {i}" using that(2) by (cases L; cases "tl L") auto
    then show ?thesis using component_single [OF closed c(2)] c(1) by simp
  qed
  have "found w ?cs"
    unfolding found_def
  proof (intro conjI ballI impI)
    show "distinct (concat (map cl_items ?cs))" by (rule dist)
  next
    fix c i assume "c \<in> set ?cs" "i \<in> set (cl_items c)"
    then obtain L where l: "L \<in> set Ls" "c = cluster_of w L" "i \<in> set L" using cs by auto
    have "i \<in> ?S" using component_item(2) [OF closed comp [OF l(1)] l(3)] .
    then show "i \<in> set (cn_items w)" "ci_valid (cn_item w i)" by (simp_all add: search_items_def)
    show "cn_Net w i = cl_originNet c" "cn_Net w i > 0" using origin [OF l(1,3)] l(2) by simp_all
    { fix j assume "j \<in> set (cl_items c)"
      then show "(i, j) \<in> linked_by (touching w)" using linked [OF l(1,3)] touch l(2) by auto }
    { assume "island w i"
      then show "cl_items c = [i]" using single [OF l(1,3)] l(2) by (simp add: island_def) }
  next
    fix i assume "i \<in> set (cn_items w)" "ci_valid (cn_item w i) \<and> 0 < cn_Net w i"
    then have "comp_of ?E i \<in> comps ?S ?E" by (simp add: comps_def search_items_def)
    then obtain L where "L \<in> set Ls" "set L = comp_of ?E i" unfolding L(5) [symmetric] by auto
    then show "\<exists>c \<in> set ?cs. i \<in> set (cl_items c)" using cs by (intro bexI [of _ "cluster_of w L"]) (auto simp: comp_of_def)
  next
    fix c assume c: "c \<in> set ?cs"
    then obtain L where l: "L \<in> set Ls" "c = cluster_of w L" using cs by auto
    show "cl_items c \<noteq> []" using ne l by simp
    show "kept_island w c \<longleftrightarrow> (\<exists>i. cl_items c = [i] \<and> island w i)"
    proof (cases "\<exists>i. L = [i]")
      case True
      then obtain i where i: "L = [i]" by blast
      have "pad_nets w {i} = {} \<longleftrightarrow> \<not> counted_pad w i" by (auto simp: pad_nets_def)
      then show ?thesis using single [OF l(1), of i] i l(2) by (auto simp: kept_island_def island_def cluster_of_orphaned)
    next
      case False
      then show ?thesis using l(2) by (auto simp: kept_island_def length_Suc_conv)
    qed
  qed
  then show ?thesis using L(1,2) by blast
qed

section \<open>The nets of the clusters\<close>

text \<open>The items and the anchors of one world are in the other one as well.\<close>

definition same_nodes :: "CN_WORLD \<Rightarrow> CN_WORLD \<Rightarrow> bool" where
  "same_nodes u v \<longleftrightarrow> cn_item v = cn_item u \<and> cn_items v = cn_items u \<and> cn_board v = cn_board u \<and> cn_next_anchor u \<le> cn_next_anchor v \<and>
     (\<forall>a < cn_next_anchor u. an_item (cn_anchor v a) = an_item (cn_anchor u a) \<and> an_pos (cn_anchor v a) = an_pos (cn_anchor u a))"

lemma same_nodes_trans: "same_nodes u v \<Longrightarrow> same_nodes v w \<Longrightarrow> same_nodes u w"
  by (simp add: same_nodes_def)

lemma same_nodes_simple:
  "same_nodes w (with_clusters f w)" "same_nodes w (with_tags g w)" "same_nodes w (nets_ClearDirtyFlags w)"
  by (simp_all add: same_nodes_def with_clusters_def with_tags_def nets_ClearDirtyFlags_def)

lemma same_nodes_grow: "anchors_grow w w' \<Longrightarrow> same_nodes w w'"
  by (simp add: same_nodes_def anchors_grow_world)

lemma distinct_concat_map:
  assumes "distinct xs" and "\<And>x. x \<in> set xs \<Longrightarrow> distinct (f x)" and "\<And>x a. x \<in> set xs \<Longrightarrow> a \<in> set (f x) \<Longrightarrow> g a = Some x"
  shows "distinct (concat (map f xs))"
  using assms
proof (induction xs)
  case (Cons x xs)
  have "set (f x) \<inter> set (concat (map f xs)) = {}"
  proof (rule ccontr)
    assume "set (f x) \<inter> set (concat (map f xs)) \<noteq> {}"
    then obtain a y where a: "a \<in> set (f x)" "y \<in> set xs" "a \<in> set (f y)" by auto
    have "g a = Some x" "g a = Some y" using Cons.prems(3) a by simp_all
    then show False using a(2) Cons.prems(1) by simp
  qed
  then show ?case using Cons by simp
qed simp

lemma distinct_concat_filter: "distinct (concat (map f xs)) \<Longrightarrow> distinct (concat (map f (filter P xs)))"
  by (induction xs) auto

lemma concat_map_concat: "concat (map f (concat xss)) = concat (map (\<lambda>xs. concat (map f xs)) xss)"
  by (induction xss) simp_all

lemma node_anchor:
  assumes "anchors_inv w" and "i \<in> set (cn_items w)"
  shows "distinct (node_anchors w i)" "a \<in> set (node_anchors w i) \<Longrightarrow> a < cn_next_anchor w"
    "a \<in> set (node_anchors w i) \<Longrightarrow> an_item (cn_anchor w a) = Some i" "a \<in> set (node_anchors w i) \<Longrightarrow> a \<in> set (ci_anchors (cn_item w i))"
proof -
  have sub: "set (node_anchors w i) \<subseteq> set (ci_anchors (cn_item w i))"
    using set_take_subset [of 1 "ci_anchors (cn_item w i)"] by (simp add: node_anchors_def Let_def)
  have a: "distinct (ci_anchors (cn_item w i))"
    "\<forall>a \<in> set (ci_anchors (cn_item w i)). a < cn_next_anchor w \<and> an_item (cn_anchor w a) = Some i"
    using assms by (auto simp: anchors_inv_def anchors_on_def)
  show "distinct (node_anchors w i)" using a(1) by (simp add: node_anchors_def Let_def)
  show "a \<in> set (node_anchors w i) \<Longrightarrow> a < cn_next_anchor w" "a \<in> set (node_anchors w i) \<Longrightarrow> an_item (cn_anchor w a) = Some i"
    "a \<in> set (node_anchors w i) \<Longrightarrow> a \<in> set (ci_anchors (cn_item w i))" using a(2) sub by blast+
qed

lemma foundD:
  assumes "found w cs"
  shows "distinct (concat (map cl_items cs))"
    "c \<in> set cs \<Longrightarrow> i \<in> set (cl_items c) \<Longrightarrow> i \<in> set (cn_items w) \<and> ci_valid (cn_item w i) \<and> cn_Net w i = cl_originNet c \<and> cn_Net w i > 0"
    "c \<in> set cs \<Longrightarrow> i \<in> set (cl_items c) \<Longrightarrow> j \<in> set (cl_items c) \<Longrightarrow> (i, j) \<in> linked_by (touching w)"
    "i \<in> set (cn_items w) \<Longrightarrow> ci_valid (cn_item w i) \<Longrightarrow> cn_Net w i > 0 \<Longrightarrow> \<exists>c \<in> set cs. i \<in> set (cl_items c)"
    "c \<in> set cs \<Longrightarrow> kept_island w c \<longleftrightarrow> (\<exists>i. cl_items c = [i] \<and> island w i)"
    "c \<in> set cs \<Longrightarrow> i \<in> set (cl_items c) \<Longrightarrow> island w i \<Longrightarrow> cl_items c = [i]"
    "c \<in> set cs \<Longrightarrow> cl_items c \<noteq> []"
  using assms unfolding found_def by blast+

lemma found_distinct:
  assumes "anchors_inv w" and "found w cs"
  shows "distinct (concat (map (cluster_anchors w) cs))" "distinct (concat (groups w n cs))"
proof -
  have items: "i \<in> set (cn_items w)" if "i \<in> set (concat (map cl_items cs))" for i
    using that foundD(2) [OF assms(2)] by auto
  have "distinct (concat (map (node_anchors w) (concat (map cl_items cs))))"
    by (rule distinct_concat_map [where g = "\<lambda>a. an_item (cn_anchor w a)"])
      (use foundD(1) [OF assms(2)] node_anchor(1,3) [OF assms(1) items] in blast)+
  then show d: "distinct (concat (map (cluster_anchors w) cs))"
    by (simp add: concat_map_concat comp_def cluster_anchors_def [abs_def])
  show "distinct (concat (groups w n cs))" unfolding groups_def by (rule distinct_concat_filter [OF d])
qed

lemma cluster_anchor:
  assumes "anchors_inv w" and "found w cs" and "c \<in> set cs" and "a \<in> set (cluster_anchors w c)"
  shows "\<exists>i \<in> set (cl_items c). i \<in> set (cn_items w) \<and> a \<in> set (node_anchors w i) \<and> an_item (cn_anchor w a) = Some i \<and> a < cn_next_anchor w"
  using assms(4) node_anchor(2,3) [OF assms(1)] foundD(2) [OF assms(2,3)] by (fastforce simp: cluster_anchors_def)

text \<open>A net with the nodes and the board edges of its clusters.\<close>

definition built :: "CN_WORLD \<Rightarrow> CN_CLUSTER list \<Rightarrow> nat \<Rightarrow> RN_NET \<Rightarrow> bool" where
  "built w cs n net \<longleftrightarrow> mset (rn_nodes net) = mset (concat (groups w n cs)) \<and> rn_boardEdges net = concat (map star (groups w n cs))"

definition net_items_of :: "CN_WORLD \<Rightarrow> nat \<Rightarrow> nat set" where
  "net_items_of w n = {i \<in> set (cn_items w). ci_valid (cn_item w i) \<and> cn_Net w i = int n \<and> \<not> island w i}"

lemma built_nodes:
  assumes "found w cs" and "built w cs n net" and "dirty_net w n" and "n > 0"
  shows "set (rn_nodes net) = (\<Union>i \<in> net_items_of w n. set (node_anchors w i))"
proof -
  have "set (rn_nodes net) = set (concat (groups w n cs))" using assms(2) unfolding built_def by (metis mset_eq_setD)
  also have "\<dots> = (\<Union>c \<in> {c \<in> set cs. added_to w n c}. \<Union>i \<in> set (cl_items c). set (node_anchors w i))"
    by (simp add: groups_def cluster_anchors_def)
  also have "\<dots> = (\<Union>i \<in> net_items_of w n. set (node_anchors w i))"
  proof -
    have fwd: "i \<in> net_items_of w n" if c: "c \<in> set cs" "added_to w n c" "i \<in> set (cl_items c)" for c i
    proof -
      have "\<not> island w i"
      proof
        assume "island w i"
        then have "kept_island w c" using foundD(5,6) [OF assms(1) c(1)] c(3) by blast
        then show False using c(2) by (simp add: added_to_def)
      qed
      then show ?thesis using foundD(2) [OF assms(1) c(1,3)] c(2) by (simp add: added_to_def net_items_of_def)
    qed
    have bwd: "\<exists>c \<in> set cs. added_to w n c \<and> i \<in> set (cl_items c)" if i: "i \<in> net_items_of w n" for i
    proof -
      obtain c where c: "c \<in> set cs" "i \<in> set (cl_items c)" using foundD(4) [OF assms(1), of i] i assms(4) by (auto simp: net_items_of_def)
      have "\<not> kept_island w c" using foundD(5) [OF assms(1) c(1)] c(2) i by (auto simp: net_items_of_def)
      moreover have "cl_originNet c = int n" using foundD(2) [OF assms(1) c] i by (simp add: net_items_of_def)
      ultimately show ?thesis using c assms(3) by (auto simp: added_to_def)
    qed
    show ?thesis
    proof (intro equalityI subsetI)
      fix a assume "a \<in> (\<Union>c \<in> {c \<in> set cs. added_to w n c}. \<Union>i \<in> set (cl_items c). set (node_anchors w i))"
      then obtain c i where "c \<in> set cs" "added_to w n c" "i \<in> set (cl_items c)" "a \<in> set (node_anchors w i)" by blast
      then show "a \<in> (\<Union>i \<in> net_items_of w n. set (node_anchors w i))" using fwd by (intro UN_I)
    next
      fix a assume "a \<in> (\<Union>i \<in> net_items_of w n. set (node_anchors w i))"
      then obtain i where i: "i \<in> net_items_of w n" "a \<in> set (node_anchors w i)" by blast
      from bwd [OF i(1)] obtain c where "c \<in> set cs" "added_to w n c" "i \<in> set (cl_items c)" by blast
      then show "a \<in> (\<Union>c \<in> {c \<in> set cs. added_to w n c}. \<Union>i \<in> set (cl_items c). set (node_anchors w i))"
        using i(2) by (intro UN_I [of c] UN_I [of i]) simp_all
    qed
  qed
  finally show ?thesis .
qed

text \<open>The edges of the board make a star, from the first anchor of a cluster to its other ones.\<close>

lemma star_edge:
  assumes "e \<in> set (star g)" and "distinct g"
  shows "\<exists>a b. e = CN_EDGE_make a b 0 \<and> a \<in> set g \<and> b \<in> set g \<and> a \<noteq> b"
  using assms by (cases g) (auto simp: star_def)

lemma built_ready:
  assumes "anchors_inv w" and "\<not> cn_list_dirty w" and "found w cs" and "built w cs n net" and "same_nodes w v"
    and "\<forall>i \<in> set (cn_items w). \<forall>a \<in> set (ci_anchors (cn_item w i)). pos_bounded w a"
  shows "net_ready v net"
proof -
  let ?gs = "groups w n cs"
  have nodes: "set (rn_nodes net) = set (concat ?gs)" "distinct (rn_nodes net)"
    using assms(4) found_distinct(2) [OF assms(1,3), of n] unfolding built_def by (metis mset_eq_setD, metis mset_eq_imp_distinct_iff)
  have ok: "pos_bounded v a \<and> \<not> anchor_Dirty v a" if "a \<in> set (rn_nodes net)" for a
  proof -
    from that nodes(1) obtain c where c: "c \<in> set cs" "a \<in> set (cluster_anchors w c)" by (auto simp: groups_def)
    from cluster_anchor [OF assms(1,3) c] obtain i where i: "i \<in> set (cl_items c)" "i \<in> set (cn_items w)" "a \<in> set (node_anchors w i)"
      "an_item (cn_anchor w a) = Some i" "a < cn_next_anchor w" by blast
    have "an_item (cn_anchor v a) = Some i" "an_pos (cn_anchor v a) = an_pos (cn_anchor w a)" "cn_item v i = cn_item w i"
      using assms(5) i(4,5) by (simp_all add: same_nodes_def)
    moreover have "pos_bounded w a" using assms(6) i(2) node_anchor(4) [OF assms(1) i(2,3)] by blast
    moreover have "ci_valid (cn_item w i)" using foundD(2) [OF assms(3) c(1) i(1)] by blast
    moreover have "\<not> ci_dirty (cn_item w i)" using assms(1,2) i(2) by (auto simp: anchors_inv_def)
    ultimately show ?thesis by (simp add: pos_bounded_def an_Pos_def anchor_Dirty_def anchor_Valid_def)
  qed
  have edge: "edge_ok v (set (rn_nodes net)) e \<and> ed_weight e = 0 \<and> fst (ends e) \<noteq> snd (ends e)" if "e \<in> set (rn_boardEdges net)" for e
  proof -
    from that assms(4) obtain g where g: "g \<in> set ?gs" "e \<in> set (star g)" by (auto simp: built_def)
    have "distinct g" using found_distinct(2) [OF assms(1,3), of n] g(1) by (auto simp: distinct_concat_iff)
    from star_edge [OF g(2) this] obtain a b where e: "e = CN_EDGE_make a b 0" "a \<in> set g" "b \<in> set g" "a \<noteq> b" by blast
    have "a \<in> set (rn_nodes net)" "b \<in> set (rn_nodes net)" using e g(1) nodes(1) by auto
    then show ?thesis using ok e(1,4) by (simp add: edge_ok_def CN_EDGE_make_def ends_def)
  qed
  show ?thesis unfolding net_ready_def net_ok_def using nodes(2) ok edge by blast
qed

section \<open>What the lines of a net link\<close>

lemma linked_within:
  assumes "(a, b) \<in> linked_by E" and "a \<in> T" and "\<And>x y. (x, y) \<in> E \<Longrightarrow> x \<in> T \<longleftrightarrow> y \<in> T"
  shows "b \<in> T"
  using assms(1,2) unfolding linked_by_def by (induction rule: rtrancl_induct) (use assms(3) in auto)

definition lines_between :: "CN_WORLD \<Rightarrow> CN_EDGE list \<Rightarrow> (nat \<times> nat) set" where
  "lines_between w es = {(i, j). \<exists>e \<in> set es. line_between w e i j}"

definition net_linked :: "CN_WORLD \<Rightarrow> RN_NET \<Rightarrow> (nat \<times> nat) set" where
  "net_linked w net = linked_by (touching w \<union> lines_between w (rn_rnEdges net))"

text \<open>The anchors of the clusters of a net, numbered from \<open>k\<close> on, know their cluster.\<close>

definition numbered :: "CN_WORLD \<Rightarrow> CN_CLUSTER list \<Rightarrow> nat \<Rightarrow> nat \<Rightarrow> CN_WORLD \<Rightarrow> bool" where
  "numbered w cs n k v \<longleftrightarrow> (\<forall>i < length cs. added_to w n (cs ! i) \<longrightarrow>
     (\<forall>a \<in> set (cluster_anchors w (cs ! i)). an_cluster (cn_anchor v a) = Some (k + i)))"

lemma built_node:
  assumes "anchors_inv w" and "found w cs" and "built w cs n net" and "same_nodes w v" and "a \<in> set (rn_nodes net)"
  shows "\<exists>p < length cs. \<exists>i \<in> set (cl_items (cs ! p)). added_to w n (cs ! p) \<and> a \<in> set (cluster_anchors w (cs ! p)) \<and>
    i \<in> set (cn_items w) \<and> an_item (cn_anchor v a) = Some i \<and> a < cn_next_anchor v"
proof -
  have "set (rn_nodes net) = set (concat (groups w n cs))" using assms(3) unfolding built_def by (metis mset_eq_setD)
  then obtain c where c: "c \<in> set cs" "added_to w n c" "a \<in> set (cluster_anchors w c)" using assms(5) by (auto simp: groups_def)
  then obtain p where p: "p < length cs" "cs ! p = c" by (auto simp: in_set_conv_nth)
  from cluster_anchor [OF assms(1,2) c(1,3)] obtain i where i: "i \<in> set (cl_items c)" "i \<in> set (cn_items w)"
    "an_item (cn_anchor w a) = Some i" "a < cn_next_anchor w" by blast
  have "an_item (cn_anchor v a) = Some i" "a < cn_next_anchor v" using assms(4) i(3,4) by (simp_all add: same_nodes_def)
  then show ?thesis using p c i by blast
qed

lemma same_number:
  assumes "anchors_inv w" and "found w cs" and "built w cs n net" and "same_nodes w v" and "numbered w cs n k v"
    and "a \<in> set (rn_nodes net)" "b \<in> set (rn_nodes net)" and "an_cluster (cn_anchor v a) = an_cluster (cn_anchor v b)"
    and "an_item (cn_anchor v a) = Some i" "an_item (cn_anchor v b) = Some j"
  shows "(i, j) \<in> linked_by (touching w)"
proof -
  note node = built_node [OF assms(1-4)]
  obtain p where p: "p < length cs" "i \<in> set (cl_items (cs ! p))" "added_to w n (cs ! p)" "a \<in> set (cluster_anchors w (cs ! p))"
    using node [OF assms(6)] assms(9) by auto
  obtain q where q: "q < length cs" "j \<in> set (cl_items (cs ! q))" "added_to w n (cs ! q)" "b \<in> set (cluster_anchors w (cs ! q))"
    using node [OF assms(7)] assms(10) by auto
  have "an_cluster (cn_anchor v a) = Some (k + p)" "an_cluster (cn_anchor v b) = Some (k + q)"
    using assms(5) p q unfolding numbered_def by blast+
  then have "p = q" using assms(8) by simp
  then show ?thesis using foundD(3) [OF assms(2), of "cs ! p" i j] p q by simp
qed

lemma links_items:
  assumes "anchors_inv w" and "found w cs" and "built w cs n net" and "same_nodes w v" and "numbered w cs n k v"
    and "\<forall>e \<in> set es. edge_ok v (set (rn_nodes net)) e" and "(a, b) \<in> links v net es"
    and "a \<in> set (rn_nodes net)" "b \<in> set (rn_nodes net)" and "an_item (cn_anchor v a) = Some i" "an_item (cn_anchor v b) = Some j"
  shows "(i, j) \<in> linked_by (touching w \<union> lines_between v es)"
proof -
  let ?N = "set (rn_nodes net)" and ?R = "linked_by (touching w \<union> lines_between v es)" and ?cl = "\<lambda>x. an_cluster (cn_anchor v x)"
  let ?it = "\<lambda>x. the (an_item (cn_anchor v x))"
  note node = built_node [OF assms(1-4)]
  have item: "an_item (cn_anchor v x) = Some (?it x)" "x < cn_next_anchor v" if "x \<in> ?N" for x using node [OF that] by auto
  have same: "(?it x, ?it y) \<in> ?R" if "x \<in> ?N" "y \<in> ?N" "?cl x = ?cl y" for x y
    using same_number [OF assms(1-5) that item(1) [OF that(1)] item(1) [OF that(2)]] linked_mono [of "touching w" "touching w \<union> lines_between v es"]
    by blast
  define T where "T = {x. \<exists>c \<in> ?N. (i, ?it c) \<in> ?R \<and> ?cl c = ?cl x}"
  have cl: "x \<in> T \<longleftrightarrow> y \<in> T" if "?cl x = ?cl y" for x y using that by (simp add: T_def)
  have T: "x \<in> T \<longleftrightarrow> (i, ?it x) \<in> ?R" if "x \<in> ?N" for x
  proof
    assume "x \<in> T"
    then obtain c where c: "c \<in> ?N" "(i, ?it c) \<in> ?R" "?cl c = ?cl x" by (auto simp: T_def)
    show "(i, ?it x) \<in> ?R" by (rule linked_trans [OF c(2) same [OF c(1) that c(3)]])
  qed (use that in \<open>auto simp: T_def\<close>)
  have "x \<in> T \<longleftrightarrow> y \<in> T" if xy: "(x, y) \<in> ends ` set es \<union> ends ` set (rn_boardEdges net) \<union> same_cluster v" for x y
    using xy
  proof (elim UnE)
    assume "(x, y) \<in> ends ` set es"
    then obtain e where e: "e \<in> set es" "ends e = (x, y)" by fastforce
    then have "edge_ok v ?N e" using assms(6) by blast
    then have s: "ed_source e = Some x" "ed_target e = Some y" "x \<in> ?N" "y \<in> ?N" using edge_okD [of v ?N e] e(2) by simp_all
    then have "line_between v e (?it x) (?it y)" using item by (simp add: line_between_def)
    then have "(?it x, ?it y) \<in> ?R" using e(1) by (intro linked_edge) (auto simp: lines_between_def)
    then have "(i, ?it x) \<in> ?R \<longleftrightarrow> (i, ?it y) \<in> ?R" using linked_trans [OF _ linked_sym] linked_trans by metis
    then show ?thesis using T s(3,4) by simp
  next
    assume "(x, y) \<in> ends ` set (rn_boardEdges net)"
    then obtain e where e: "e \<in> set (rn_boardEdges net)" "ends e = (x, y)" by fastforce
    then obtain c where c: "c \<in> set cs" "added_to w n c" "e \<in> set (star (cluster_anchors w c))" using assms(3) by (auto simp: built_def groups_def)
    then have d: "distinct (cluster_anchors w c)" using found_distinct(1) [OF assms(1,2)] by (auto simp: distinct_concat_iff)
    obtain p where p: "p < length cs" "cs ! p = c" using c(1) by (auto simp: in_set_conv_nth)
    from star_edge [OF c(3) d] e(2) have xy: "x \<in> set (cluster_anchors w c)" "y \<in> set (cluster_anchors w c)" by auto
    have "?cl x = Some (k + p)" "?cl y = Some (k + p)" using assms(5) p c(2) xy unfolding numbered_def by blast+
    then show ?thesis by (intro cl) simp
  next
    assume "(x, y) \<in> same_cluster v"
    then show ?thesis by (intro cl) (simp add: same_cluster_def)
  qed
  then have "b \<in> T" using linked_within [OF assms(7) [unfolded links_def], of T] T [OF assms(8)] assms(10) by simp
  then show ?thesis using T [OF assms(9)] assms(11) by simp
qed

lemma lines_kept:
  assumes "list_all2 (near v x) es es'" and "i \<in> set (cn_items v)" "j \<in> set (cn_items v)" and "(i, j) \<in> lines_between v es"
  shows "(i, j) \<in> linked_by (touching v \<union> lines_between x es')"
proof -
  let ?E = "touching v \<union> lines_between x es'"
  obtain p where p: "p < length es" "line_between v (es ! p) i j" using assms(4) by (auto simp: lines_between_def in_set_conv_nth)
  then have "near v x (es ! p) (es' ! p)" "p < length es'" using assms(1) by (simp_all add: list_all2_conv_all_nth)
  then obtain i' j' where k: "line_between x (es' ! p) i' j'" "(i, i') \<in> linked_by (touching v)" "(j, j') \<in> linked_by (touching v)"
    using assms(2,3) p(2) unfolding near_def by blast
  have m: "linked_by (touching v) \<subseteq> linked_by ?E" by (rule linked_mono) simp
  have l: "(i', j') \<in> linked_by ?E" using k(1) \<open>p < length es'\<close> by (intro linked_edge) (auto simp: lines_between_def)
  show ?thesis by (rule linked_trans [OF linked_trans [OF subsetD [OF m k(2)] l] linked_sym [OF subsetD [OF m k(3)]]])
qed

text \<open>The nodes of a net that is built, updated and optimised are linked.\<close>

lemma net_links:
  assumes "anchors_inv w" and "found w cs" and "built w cs n net" and "same_nodes w v" and "numbered w cs n k v"
    and "lines_ok v net es" and "spread v net" and "list_all2 (near v x) es es'" and "same_nodes v x"
    and "a \<in> set (rn_nodes net)" "b \<in> set (rn_nodes net)" and "an_item (cn_anchor x a) = Some i" "an_item (cn_anchor x b) = Some j"
  shows "(i, j) \<in> linked_by (touching x \<union> lines_between x es')"
proof -
  note node = built_node [OF assms(1-4)]
  have kept: "an_item (cn_anchor x c) = an_item (cn_anchor v c)" if "c \<in> set (rn_nodes net)" for c
    using node [OF that] assms(9) by (auto simp: same_nodes_def)
  have ij: "an_item (cn_anchor v a) = Some i" "an_item (cn_anchor v b) = Some j"
    using assms(12,13) kept [OF assms(10)] kept [OF assms(11)] by simp_all
  have e: "\<forall>e \<in> set es. edge_ok v (set (rn_nodes net)) e" "(a, b) \<in> links v net es"
    using assms(6,7,10,11) by (auto simp: lines_ok_def)
  have t: "touching v = touching w" "touching x = touching v" using assms(4,9) by (simp_all add: touching_def same_nodes_def)
  have "touching w \<union> lines_between v es \<subseteq> linked_by (touching x \<union> lines_between x es')"
  proof (intro Un_least subrelI)
    fix y z assume "(y, z) \<in> touching w"
    then show "(y, z) \<in> linked_by (touching x \<union> lines_between x es')" by (intro linked_edge) (simp add: t)
  next
    fix y z assume yz: "(y, z) \<in> lines_between v es"
    then obtain d where d: "d \<in> set es" "line_between v d y z" by (auto simp: lines_between_def)
    have "edge_ok v (set (rn_nodes net)) d" using e(1) d(1) by blast
    from edge_okD(1-4) [OF this] d(2) obtain p q where "p \<in> set (rn_nodes net)" "q \<in> set (rn_nodes net)"
      "an_item (cn_anchor v p) = Some y" "an_item (cn_anchor v q) = Some z" by (auto simp: line_between_def)
    then have "y \<in> set (cn_items v)" "z \<in> set (cn_items v)" using node assms(4) by (fastforce simp: same_nodes_def)+
    from lines_kept [OF assms(8) this yz] show "(y, z) \<in> linked_by (touching x \<union> lines_between x es')" by (simp add: t)
  qed
  then show ?thesis using links_items [OF assms(1-5) e assms(10,11) ij] linked_least by blast
qed

end
