(* ===== verification/CnQuery.thy ===== *)
theory CnQuery
  imports CnData
begin

text \<open>
  The questions \<open>CONNECTIVITY_DATA\<close> of \<^verbatim>\<open>pcbnew/connectivity/connectivity_data.cpp\<close> answers: what is connected to
  a board item, the items of a net, the lines of a ratsnest at some items, and whether the end of a
  track dangles. Looking up the entry of a board item makes an empty one when there is none.

  Shapes are parameters, the record \<open>CN_SHAPES\<close>: whether the shape of a board item meets a circle, whether
  the hull of a pad or via has a point, the distance of two points and where a board item is.
\<close>

record CN_SHAPES =
  sh_Collide :: "nat \<Rightarrow> int \<Rightarrow> int \<times> int \<Rightarrow> int \<Rightarrow> bool"
  sh_inside :: "nat \<Rightarrow> int \<times> int \<Rightarrow> bool"
  sh_zone_filled :: "nat \<Rightarrow> bool"
  sh_Distance :: "int \<times> int \<Rightarrow> int \<times> int \<Rightarrow> int"
  sh_GetPosition :: "nat \<Rightarrow> int \<times> int"
  sh_width :: "nat \<Rightarrow> int"
  sh_deleted :: "nat \<Rightarrow> bool"

section \<open>Counts\<close>

definition GetNetCount :: "CN_DATA \<Rightarrow> nat" where
  "GetNetCount d = length (cn_dirty_nets (cd_world d))"

definition GetRatsnestForNet :: "int \<Rightarrow> CN_DATA \<Rightarrow> RN_NET option" where
  "GetRatsnestForNet aNet d =
     (if aNet < 0 \<or> aNet \<ge> int (length (cd_nets d)) then None else Some (cd_nets d ! nat aNet))"

definition GetUnconnectedCount :: "bool \<Rightarrow> CN_DATA \<Rightarrow> nat" where
  "GetUnconnectedCount aVisibleOnly d =
     length (filter (\<lambda>edge. ed_visible edge \<or> \<not> aVisibleOnly) (concat (map rn_rnEdges (cd_nets d))))"

definition GetNodeCount :: "int \<Rightarrow> CN_DATA \<Rightarrow> nat" where
  "GetNodeCount aNet d =
     (if aNet < 0 then sum_list (map (\<lambda>net. length (rn_nodes net)) (cd_nets d))
      else if aNet < int (length (cd_nets d)) then length (rn_nodes (cd_nets d ! nat aNet))
      else 0)"

definition GetPadCount :: "int \<Rightarrow> CN_DATA \<Rightarrow> nat" where
  "GetPadCount aNet d =
     (let w = cd_world d
      in length (filter (\<lambda>pad. ci_valid (cn_item w pad) \<and> bi_type (cn_parent w pad) = PCB_PAD_T \<and>
           (aNet < 0 \<or> aNet = bi_net (cn_parent w pad))) (cn_items w)))"

text \<open>\<open>aFunc\<close> gives the edge back, and whether to go on.\<close>

fun run_on_edges :: "(CN_EDGE \<Rightarrow> 's \<Rightarrow> bool \<times> CN_EDGE \<times> 's) \<Rightarrow> CN_EDGE list \<Rightarrow> 's \<Rightarrow> bool \<times> CN_EDGE list \<times> 's" where
  "run_on_edges aFunc [] s = (True, [], s)"
| "run_on_edges aFunc (edge # edges) s =
     (case aFunc edge s of (go_on, edge, s) \<Rightarrow>
        if go_on then (case run_on_edges aFunc edges s of (b, edges, s) \<Rightarrow> (b, edge # edges, s))
        else (False, edge # edges, s))"

fun run_on_nets :: "(CN_EDGE \<Rightarrow> 's \<Rightarrow> bool \<times> CN_EDGE \<times> 's) \<Rightarrow> RN_NET list \<Rightarrow> 's \<Rightarrow> RN_NET list \<times> 's" where
  "run_on_nets aFunc [] s = ([], s)"
| "run_on_nets aFunc (net # nets) s =
     (case run_on_edges aFunc (rn_rnEdges net) s of (go_on, edges, s) \<Rightarrow>
        let net = net\<lparr> rn_rnEdges := edges \<rparr>
        in if go_on then (case run_on_nets aFunc nets s of (nets, s) \<Rightarrow> (net # nets, s)) else (net # nets, s))"

definition RunOnUnconnectedEdges :: "(CN_EDGE \<Rightarrow> 's \<Rightarrow> bool \<times> CN_EDGE \<times> 's) \<Rightarrow> CN_DATA \<Rightarrow> 's \<Rightarrow> CN_DATA \<times> 's" where
  "RunOnUnconnectedEdges aFunc d s = (case run_on_nets aFunc (cd_nets d) s of (nets, s) \<Rightarrow> (d\<lparr> cd_nets := nets \<rparr>, s))"

section \<open>Connected items\<close>

definition GetConnectedItems :: "CN_PARAMS \<Rightarrow> nat \<Rightarrow> KICAD_T list \<Rightarrow> bool \<Rightarrow> CN_DATA \<Rightarrow> (nat list \<times> CN_DATA) option" where
  "GetConnectedItems pm aItem aTypes aIgnoreNetcodes d = do {
     let searchMode = (if aIgnoreNetcodes then CSM_PROPAGATE else CSM_CONNECTIVITY_CHECK);
     let d = before_search d;
     (clusters, w) \<leftarrow> SearchClusters_types (pm_geometry pm) searchMode aTypes
       (if aIgnoreNetcodes then - 1 else bi_net (cn_board (cd_world d) aItem)) None (cd_world d);
     Some (concat (map (\<lambda>cl. map (\<lambda>i. ci_parent (cn_item w i)) (filter (\<lambda>i. ci_valid (cn_item w i)) (cl_items cl)))
       (filter (\<lambda>cl. cluster_Contains_parent w cl aItem) clusters)), with_world w d)
   }"

definition GetNetItems :: "int \<Rightarrow> KICAD_T list \<Rightarrow> CN_DATA \<Rightarrow> nat list" where
  "GetNetItems aNetCode aTypes d =
     (let w = cd_world d
      in sort (remdups (map (\<lambda>i. ci_parent (cn_item w i))
        (filter (\<lambda>i. ci_valid (cn_item w i) \<and> cn_Net w i = aNetCode \<and> bi_type (cn_parent w i) \<in> set aTypes) (cn_items w)))))"

text \<open>The items that the items of a board item are connected to, one after the other.\<close>

definition entry_connected :: "nat \<Rightarrow> CN_WORLD \<Rightarrow> nat list \<times> CN_WORLD" where
  "entry_connected aItem w =
     (case ItemEntry aItem w of (items, w) \<Rightarrow> (concat (map (\<lambda>i. ci_connected (cn_item w i)) items), w))"

definition connected_parents :: "KICAD_T list \<Rightarrow> nat list \<Rightarrow> CN_WORLD \<Rightarrow> nat list" where
  "connected_parents types connected w =
     map (\<lambda>i. ci_parent (cn_item w i)) (filter (\<lambda>i. ci_valid (cn_item w i) \<and> bi_type (cn_parent w i) \<in> set types) connected)"

definition GetConnectedTracks :: "nat \<Rightarrow> CN_DATA \<Rightarrow> nat list \<times> CN_DATA" where
  "GetConnectedTracks aItem d =
     (case entry_connected aItem (cd_world d) of (connected, w) \<Rightarrow>
        (sort (remdups (connected_parents [PCB_TRACE_T, PCB_VIA_T, PCB_ARC_T] connected w)), with_world w d))"

definition GetConnectedPads :: "nat \<Rightarrow> CN_DATA \<Rightarrow> nat list \<times> CN_DATA" where
  "GetConnectedPads aItem d =
     (case entry_connected aItem (cd_world d) of (connected, w) \<Rightarrow>
        (sort (remdups (connected_parents [PCB_PAD_T] connected w)), with_world w d))"

definition GetConnectedPadsAndVias :: "nat \<Rightarrow> nat list \<Rightarrow> nat list \<Rightarrow> CN_DATA \<Rightarrow> nat list \<times> nat list \<times> CN_DATA" where
  "GetConnectedPadsAndVias aItem pads vias d =
     (case entry_connected aItem (cd_world d) of (connected, w) \<Rightarrow>
        (pads @ connected_parents [PCB_PAD_T] connected w, vias @ connected_parents [PCB_VIA_T] connected w, with_world w d))"

definition GetConnectedItemsAtAnchor :: "nat \<Rightarrow> int \<times> int \<Rightarrow> KICAD_T list \<Rightarrow> int \<Rightarrow> CN_DATA \<Rightarrow> nat list \<times> CN_DATA" where
  "GetConnectedItemsAtAnchor aItem aAnchor aTypes aMaxError d =
     (let maxError_sq = aMaxError * aMaxError
      in case entry_connected aItem (cd_world d) of (connected, w) \<Rightarrow>
        (connected_parents aTypes
          (filter (\<lambda>i. list_ex (\<lambda>a. SquaredEuclideanNorm (v_minus (an_Pos w a) aAnchor) \<le> maxError_sq) (ci_anchors (cn_item w i))) connected) w,
         with_world w d))"

text \<open>A pad or via counts as connected to an island only when a corner of that is outside its hull.\<close>

definition IsConnectedOnLayer :: "CN_SHAPES \<Rightarrow> nat \<Rightarrow> int \<Rightarrow> KICAD_T list \<Rightarrow> CN_DATA \<Rightarrow> bool \<times> CN_DATA" where
  "IsConnectedOnLayer sh aItem aLayer aTypes d =
     (case entry_connected aItem (cd_world d) of (connected, w) \<Rightarrow>
        (list_ex (\<lambda>i.
           ci_valid (cn_item w i) \<and> LR_Overlaps_layer (ci_layers (cn_item w i)) aLayer \<and>
           (aTypes = [] \<or> bi_type (cn_parent w i) \<in> set aTypes) \<and> cn_Net w i = bi_net (cn_board w aItem) \<and>
           (if bi_type (cn_board w aItem) \<in> {PCB_PAD_T, PCB_VIA_T} \<and> ci_zone_layer (cn_item w i) \<noteq> None
            then sh_zone_filled sh (ci_parent (cn_item w i)) \<and>
                 list_ex (\<lambda>pt. \<not> sh_inside sh aItem pt) (bi_outlines (cn_parent w i) aLayer ! SubpolyIndex w i)
            else True)) connected, with_world w d))"

section \<open>Dangling ends\<close>

definition getMinDist :: "CN_SHAPES \<Rightarrow> CN_WORLD \<Rightarrow> nat \<Rightarrow> int \<times> int \<Rightarrow> int" where
  "getMinDist sh w aItem aPoint =
     (let b = cn_board w aItem
      in if bi_type b \<in> {PCB_TRACE_T, PCB_ARC_T} then min (sh_Distance sh (bi_start b) aPoint) (sh_Distance sh (bi_end b) aPoint)
         else sh_Distance sh (sh_GetPosition sh aItem) aPoint)"

text \<open>How often the ends of a track are hit so far; \<open>None\<close> when it is found not to dangle.\<close>

definition count_ends :: "CN_SHAPES \<Rightarrow> bool \<Rightarrow> nat \<Rightarrow> CN_WORLD \<Rightarrow> nat \<Rightarrow> nat \<times> nat \<Rightarrow> (nat \<times> nat) option" where
  "count_ends sh aIgnoreTracksInPads aTrack w i s =
     (case s of (start_count, end_count) \<Rightarrow>
        let t = cn_board w aTrack; item = ci_parent (cn_item w i); ty = bi_type (cn_board w item); accuracy = sh_width sh aTrack sdiv 2;
            hitStart = sh_Collide sh item (bi_layer t) (bi_start t) accuracy; hitEnd = sh_Collide sh item (bi_layer t) (bi_end t) accuracy;
            starts = hitStart \<and> (hitEnd \<longrightarrow> getMinDist sh w item (bi_start t) < getMinDist sh w item (bi_end t));
            start_count = (if starts then start_count + 1 else start_count);
            end_count = (if \<not> starts \<and> hitEnd then end_count + 1 else end_count)
        in if sh_deleted sh item then Some s
           else if hitStart \<and> hitEnd \<and> (ty = PCB_ZONE_T \<or> ty \<in> {PCB_PAD_T, PCB_VIA_T} \<and> aIgnoreTracksInPads) then None
           else if start_count > 0 \<and> end_count > 0 then None
           else Some (start_count, end_count))"

text \<open>Whether the connected items of a via that are not deleted are on one layer; \<open>-1\<close> is \<open>UNDEFINED_LAYER\<close>.\<close>

definition one_layer :: "CN_SHAPES \<Rightarrow> CN_WORLD \<Rightarrow> nat \<Rightarrow> int \<Rightarrow> int option" where
  "one_layer sh w i layer1 =
     (if sh_deleted sh (ci_parent (cn_item w i)) then Some layer1
      else if layer1 = pcb_num UNDEFINED_LAYER then Some (item_Layer w i)
      else if item_Layer w i \<noteq> layer1 then None else Some layer1)"

text \<open>Whether the track dangles, and at which end.\<close>

definition TestTrackEndpointDangling :: "CN_SHAPES \<Rightarrow> nat \<Rightarrow> bool \<Rightarrow> CN_DATA \<Rightarrow> (int \<times> int) option \<times> CN_DATA" where
  "TestTrackEndpointDangling sh aTrack aIgnoreTracksInPads d =
     (case ItemEntry aTrack (cd_world d) of (items, w) \<Rightarrow>
        let t = cn_board w aTrack; d = with_world w d
        in case items of
          [] \<Rightarrow> (None, d)
        | citem # _ \<Rightarrow>
            let connected = ci_connected (cn_item w citem)
            in if \<not> ci_valid (cn_item w citem) then (None, d)
               else if bi_type t \<in> {PCB_TRACE_T, PCB_ARC_T}
               then (case fold_opt (count_ends sh aIgnoreTracksInPads aTrack w) connected (0, 0) of
                       None \<Rightarrow> (None, d)
                     | Some (start_count, end_count) \<Rightarrow> (Some (if start_count = 0 then bi_start t else bi_end t), d))
               else if bi_type t = PCB_VIA_T
               then (if connected = [] then (Some (bi_start t), d)
                     else case fold_opt (one_layer sh w) connected (pcb_num UNDEFINED_LAYER) of
                       None \<Rightarrow> (None, d) | Some _ \<Rightarrow> (Some (bi_start t), d))
               else (None, d))"

section \<open>The lines at some items\<close>

text \<open>\<^verbatim>\<open>edge.GetSourceNode()\<close> and \<^verbatim>\<open>edge.GetTargetNode()\<close> when both are there and not dirty: their board items.\<close>

definition edge_parents :: "CN_WORLD \<Rightarrow> CN_EDGE \<Rightarrow> (nat \<times> nat) option" where
  "edge_parents w edge = do {
     srcNode \<leftarrow> ed_source edge;
     dstNode \<leftarrow> ed_target edge;
     src \<leftarrow> an_item (cn_anchor w srcNode);
     dst \<leftarrow> an_item (cn_anchor w dstNode);
     if anchor_Dirty w srcNode \<or> anchor_Dirty w dstNode then None
     else Some (ci_parent (cn_item w src), ci_parent (cn_item w dst))
   }"

definition lines_of_nets :: "(nat \<Rightarrow> nat \<Rightarrow> bool) \<Rightarrow> int list \<Rightarrow> CN_DATA \<Rightarrow> CN_EDGE list" where
  "lines_of_nets wanted nets d =
     concat (map (\<lambda>netcode. case GetRatsnestForNet netcode d of
          None \<Rightarrow> []
        | Some net \<Rightarrow> filter (\<lambda>edge. case edge_parents (cd_world d) edge of None \<Rightarrow> False | Some (src, dst) \<Rightarrow> wanted src dst) (rn_rnEdges net))
       nets)"

definition footprint_items :: "nat list \<Rightarrow> CN_WORLD \<Rightarrow> nat list" where
  "footprint_items aItems w =
     concat (map (\<lambda>item. if bi_type (cn_board w item) = PCB_FOOTPRINT_T then bi_pads (cn_board w item)
                          else if bi_connected (cn_board w item) then [item] else []) aItems)"

definition nets_of :: "nat list \<Rightarrow> CN_WORLD \<Rightarrow> int list" where
  "nets_of items w = sort (remdups (map (\<lambda>item. bi_net (cn_board w item)) items))"

definition GetRatsnestForItems :: "nat list \<Rightarrow> CN_DATA \<Rightarrow> CN_EDGE list" where
  "GetRatsnestForItems aItems d =
     (let item_set = footprint_items aItems (cd_world d)
      in lines_of_nets (\<lambda>src dst. src \<in> set item_set \<and> dst \<in> set item_set) (nets_of item_set (cd_world d)) d)"

definition GetRatsnestForPad :: "nat \<Rightarrow> CN_DATA \<Rightarrow> CN_EDGE list" where
  "GetRatsnestForPad aPad d =
     lines_of_nets (\<lambda>src dst. src = aPad \<or> dst = aPad) [bi_net (cn_board (cd_world d) aPad)] d"

definition GetRatsnestForComponent :: "nat \<Rightarrow> bool \<Rightarrow> CN_DATA \<Rightarrow> CN_EDGE list" where
  "GetRatsnestForComponent aComponent aSkipInternalConnections d =
     (let pads = bi_pads (cn_board (cd_world d) aComponent)
      in lines_of_nets (\<lambda>src dst.
           let srcFound = src \<in> set pads; dstFound = dst \<in> set pads
           in if srcFound \<and> dstFound \<and> \<not> aSkipInternalConnections then True
              else if srcFound \<or> dstFound then True else False) (nets_of pads (cd_world d)) d)"

section \<open>The ratsnest of moving items\<close>

text \<open>
  The anchors of two connectivities are different objects: in the world of both the anchor at an even
  address is the first one's, that at an odd address the second one's.
\<close>

definition both_worlds :: "CN_WORLD \<Rightarrow> CN_WORLD \<Rightarrow> CN_WORLD" where
  "both_worlds u v = u\<lparr> cn_anchor := (\<lambda>a. if even a then cn_anchor u (a div 2) else cn_anchor v (a div 2)) \<rparr>"

definition nearest_between :: "CN_WORLD \<Rightarrow> CN_WORLD \<Rightarrow> RN_NET \<Rightarrow> RN_NET \<Rightarrow> bool \<times> (int \<times> int) \<times> (int \<times> int)" where
  "nearest_between u v staticNet dynamicNet =
     NearestBicoloredPair (both_worlds u v) (staticNet\<lparr> rn_nodes := map (\<lambda>a. 2 * a) (rn_nodes staticNet) \<rparr>)
       (dynamicNet\<lparr> rn_nodes := map (\<lambda>a. 2 * a + 1) (rn_nodes dynamicNet) \<rparr>) (0, 0) (0, 0)"

text \<open>Nothing is computed for a net of which no node moves, or all do.\<close>

definition dynamic_line :: "CN_DATA \<Rightarrow> CN_DATA \<Rightarrow> nat \<Rightarrow> RN_DYNAMIC_LINE list" where
  "dynamic_line d aDynamicData nc =
     (let dynamicNet = cd_nets aDynamicData ! nc; staticNet = cd_nets d ! nc
      in if rn_nodes dynamicNet \<noteq> [] \<and> length (rn_nodes dynamicNet) \<noteq> length (rn_nodes staticNet)
         then (case nearest_between (cd_world d) (cd_world aDynamicData) staticNet dynamicNet of
                 (found, pos1, pos2) \<Rightarrow> if found then [\<lparr> dl_netCode = int nc, dl_a = pos1, dl_b = pos2 \<rparr>] else [])
         else [])"

definition internal_line :: "CN_SHAPES \<Rightarrow> int \<times> int \<Rightarrow> CN_DATA \<Rightarrow> CN_EDGE \<Rightarrow> RN_DYNAMIC_LINE list" where
  "internal_line sh aInternalOffset d edge =
     (let at = (\<lambda>p. (fst (sh_GetPosition sh p) + fst aInternalOffset, snd (sh_GetPosition sh p) + snd aInternalOffset))
      in case edge_parents (cd_world d) edge of
        None \<Rightarrow> [] | Some (src, dst) \<Rightarrow> [\<lparr> dl_netCode = 0, dl_a = at src, dl_b = at dst \<rparr>])"

definition ComputeLocalRatsnest :: "CN_SHAPES \<Rightarrow> nat list \<Rightarrow> CN_DATA option \<Rightarrow> int \<times> int \<Rightarrow> CN_DATA \<Rightarrow> CN_DATA" where
  "ComputeLocalRatsnest sh aItems aDynamicData aInternalOffset d =
     (case aDynamicData of
        None \<Rightarrow> d
      | Some dynamicData \<Rightarrow>
          let num_nets = min (length (cd_nets d)) (length (cd_nets dynamicData))
          in d\<lparr> cd_dynamicRatsnest := concat (map (dynamic_line d dynamicData) [1..<num_nets]) @
                  concat (map (internal_line sh aInternalOffset d) (GetRatsnestForItems aItems d)) \<rparr>)"

end
