(* ===== verification/CnQueryProps.thy ===== *)
theory CnQueryProps
  imports CnProps CnQuery
begin

text \<open>
  What \<open>CONNECTIVITY_DATA\<close> (\<^verbatim>\<open>pcbnew/connectivity/connectivity_data.cpp\<close>) answers is what its connectivity says.
\<close>

section \<open>Before a search\<close>

lemma RemoveInvalidRefs_fold:
  "fold item_RemoveInvalidRefs is w = w\<lparr> cn_item := (\<lambda>i. if i \<in> set is
     then (cn_item w i)\<lparr> ci_connected := filter (\<lambda>c. ci_valid (cn_item w c)) (ci_connected (cn_item w i)) \<rparr> else cn_item w i) \<rparr>"
proof (induction "is" arbitrary: w)
  case (Cons j js)
  have v: "ci_valid (cn_item (item_RemoveInvalidRefs j w) c) = ci_valid (cn_item w c)" for c
    by (simp add: item_RemoveInvalidRefs_def upd_item_def)
  show ?case unfolding fold_simps Cons v
    by (simp add: item_RemoveInvalidRefs_def upd_item_def fun_eq_iff)
qed simp

lemma RemoveInvalidRefs_twice: "algo_RemoveInvalidRefs (algo_RemoveInvalidRefs w) = algo_RemoveInvalidRefs w"
  unfolding algo_RemoveInvalidRefs_def RemoveInvalidRefs_fold by (simp add: fun_eq_iff conj_ac)

lemma RemoveInvalidRefs_world:
  "cn_list_dirty (algo_RemoveInvalidRefs w) = cn_list_dirty w" "cn_board (algo_RemoveInvalidRefs w) = cn_board w"
  "cn_items (algo_RemoveInvalidRefs w) = cn_items w"
  unfolding algo_RemoveInvalidRefs_def RemoveInvalidRefs_fold by simp_all

lemma searched_before:
  "searched g (cd_world (before_search d)) = searched g (cd_world d)"
  by (simp add: before_search_def data_RemoveInvalidRefs_def searched_def searchConnections_def RemoveInvalidRefs_twice RemoveInvalidRefs_world Let_def)

lemma before_search_board: "cn_board (cd_world (before_search d)) = cn_board (cd_world d)"
  by (simp add: before_search_def data_RemoveInvalidRefs_def RemoveInvalidRefs_world)

lemma SearchClusters_types_searched:
  assumes "searched g w = Some w1" and "\<not> cn_list_dirty w1"
  shows "SearchClusters_types g aMode aTypes aSingleNet rootItem w = SearchClusters_types g aMode aTypes aSingleNet rootItem w1"
  using assms by (auto simp: SearchClusters_types_def searched_def Let_def split: if_splits)

section \<open>Connected items\<close>

definition searched_mode :: "bool \<Rightarrow> CLUSTER_SEARCH_MODE" where
  "searched_mode aIgnoreNetcodes = (if aIgnoreNetcodes then CSM_PROPAGATE else CSM_CONNECTIVITY_CHECK)"

definition searched_net :: "bool \<Rightarrow> nat \<Rightarrow> CN_WORLD \<Rightarrow> int" where
  "searched_net aIgnoreNetcodes aItem w = (if aIgnoreNetcodes then - 1 else bi_net (cn_board w aItem))"

text \<open>The connected components of all valid items, or of those of a net.\<close>

definition net_comps :: "bool \<Rightarrow> int \<Rightarrow> CN_WORLD \<Rightarrow> nat set set" where
  "net_comps aIgnoreNetcodes net w =
     (let S = net_items (searched_mode aIgnoreNetcodes) net w in comps S (edges_of (\<not> aIgnoreNetcodes) w S))"

lemma net_comps_items:
  assumes "cn_inv w" and "aIgnoreNetcodes \<longrightarrow> net < 0" and "C \<in> net_comps aIgnoreNetcodes net w"
  shows "C \<subseteq> set (cn_items w) \<and> (\<forall>i \<in> C. ci_valid (cn_item w i))"
proof -
  let ?m = "searched_mode aIgnoreNetcodes"
  let ?S = "net_items ?m net w"
  have m: "(?m \<noteq> CSM_PROPAGATE) = (\<not> aIgnoreNetcodes)" by (simp add: searched_mode_def)
  have "?m = CSM_PROPAGATE \<longrightarrow> net < 0" using assms(2) m by blast
  note cl = net_items_closed [OF assms(1) this, unfolded m]
  obtain r where "r \<in> ?S" "C = comp_of (edges_of (\<not> aIgnoreNetcodes) w ?S) r"
    using assms(3) by (auto simp: net_comps_def Let_def comps_def)
  then have "C \<subseteq> ?S" using comp_of_closed [OF cl] by blast
  then show ?thesis by (auto simp: net_items_def search_items_def)
qed

text \<open>
  C34. The board items connected to a board item, when all kinds of items are asked for, are those of the
  connected components that have an item of it: of all valid items, or of those of its net.
\<close>

theorem GetConnectedItems_component:
  assumes "nearby_ok (pm_geometry pm)" and "reach_inv (cd_world d)" and "searched (pm_geometry pm) (cd_world d) = Some w1"
    and "\<forall>i \<in> set (cn_items w1). bi_type (cn_parent w1 i) \<in> set aTypes"
  shows "\<exists>rv d'. GetConnectedItems pm aItem aTypes aIgnoreNetcodes d = Some (rv, d') \<and>
    set rv = (\<Union>C \<in> {C \<in> net_comps aIgnoreNetcodes (searched_net aIgnoreNetcodes aItem (cd_world d)) w1.
      \<exists>i \<in> C. ci_parent (cn_item w1 i) = aItem}. (\<lambda>i. ci_parent (cn_item w1 i)) ` C)"
proof -
  let ?g = "pm_geometry pm" and ?m = "searched_mode aIgnoreNetcodes" and ?net = "searched_net aIgnoreNetcodes aItem (cd_world d)"
  let ?S = "net_items ?m ?net w1"
  note inv = searched_inv [OF assms(1-3)]
  have m: "(?m \<noteq> CSM_PROPAGATE) = (\<not> aIgnoreNetcodes)" by (simp add: searched_mode_def)
  have "?m = CSM_PROPAGATE \<longrightarrow> ?net < 0" by (simp add: searched_net_def searched_mode_def)
  from SearchClusters_types_found [OF inv(1,2) assms(4) this, of ?g None] obtain Ls w' where L:
    "SearchClusters_types ?g ?m aTypes ?net None w1 = Some (sort_key cl_originNet (map (cluster_of w1) Ls), w')" "unmarked w' = unmarked w1"
    "set (map set Ls) = net_comps aIgnoreNetcodes ?net w1" unfolding m net_comps_def Let_def by blast
  note same = same_fields [OF L(2)]
  have valid: "ci_valid (cn_item w1 j)" if "l \<in> set Ls" "j \<in> set l" for j l
  proof -
    have "set l \<in> net_comps aIgnoreNetcodes ?net w1" using that(1) L(3) by auto
    moreover have "aIgnoreNetcodes \<longrightarrow> ?net < 0" by (simp add: searched_net_def)
    ultimately show ?thesis using net_comps_items [OF inv(1), of aIgnoreNetcodes ?net] that(2) by blast
  qed
  define cs where "cs = sort_key cl_originNet (map (cluster_of w1) Ls)"
  let ?rv = "concat (map (\<lambda>cl. map (\<lambda>i. ci_parent (cn_item w' i)) (filter (\<lambda>i. ci_valid (cn_item w' i)) (cl_items cl)))
       (filter (\<lambda>cl. cluster_Contains_parent w' cl aItem) cs))"
  have "SearchClusters_types ?g ?m aTypes ?net None (cd_world (before_search d)) = Some (cs, w')"
    using SearchClusters_types_searched [of ?g "cd_world (before_search d)" w1] assms(3) inv(2) L(1) by (simp add: searched_before cs_def)
  then have get: "GetConnectedItems pm aItem aTypes aIgnoreNetcodes d = Some (?rv, with_world w' (before_search d))"
    by (simp add: GetConnectedItems_def before_search_board searched_net_def searched_mode_def Let_def split: if_splits)
  have one: "set (filter (\<lambda>i. ci_valid (cn_item w1 i)) l) = set l" if "l \<in> set Ls" for l using valid [OF that] by auto
  have has: "cluster_Contains_parent w' (cluster_of w1 l) aItem \<longleftrightarrow> (\<exists>i \<in> set l. ci_parent (cn_item w1 i) = aItem)" if "l \<in> set Ls" for l
    using valid [OF that] by (auto simp: cluster_Contains_parent_def same list_ex_iff)
  have "set ?rv = (\<Union>c \<in> {c \<in> set cs. cluster_Contains_parent w' c aItem}. (\<lambda>i. ci_parent (cn_item w1 i)) ` set (filter (\<lambda>i. ci_valid (cn_item w1 i)) (cl_items c)))"
    by (simp add: same)
  also have "\<dots> = (\<Union>l \<in> {l \<in> set Ls. cluster_Contains_parent w' (cluster_of w1 l) aItem}. (\<lambda>i. ci_parent (cn_item w1 i)) ` set (filter (\<lambda>i. ci_valid (cn_item w1 i)) l))"
    by (auto simp: cs_def)
  also have "\<dots> = (\<Union>l \<in> {l \<in> set Ls. \<exists>i \<in> set l. ci_parent (cn_item w1 i) = aItem}. (\<lambda>i. ci_parent (cn_item w1 i)) ` set l)"
    by (rule SUP_cong) (use has one in \<open>simp_all cong: conj_cong\<close>)
  also have "\<dots> = (\<Union>C \<in> {C \<in> set (map set Ls). \<exists>i \<in> C. ci_parent (cn_item w1 i) = aItem}. (\<lambda>i. ci_parent (cn_item w1 i)) ` C)" by auto
  finally show ?thesis using get unfolding L(3) by blast
qed

definition demo_params_cn :: CN_PARAMS where
  "demo_params_cn = \<lparr> pm_geometry = demo_geometry,
     pm_ratsnest = \<lparr> rp_diag = (\<lambda>x. x), rp_hypot = (\<lambda>x y. \<bar>x\<bar> + \<bar>y\<bar>), rp_triangles = (\<lambda>_. []), rp_halfedges = (\<lambda>_. []) \<rparr>,
     pm_hits = \<lparr> rg_HitTest = (\<lambda>_ _ _. False), rg_HitTestFilledArea = (\<lambda>_ _ _ _. False), rg_width = (\<lambda>_. 0), rg_filled = (\<lambda>_. False),
       rg_ClosestSegments = (\<lambda>_ _. None) \<rparr> \<rparr>"

definition demo_data :: CN_DATA where
  "demo_data = with_world demo_searched (CONNECTIVITY_DATA_make demo_board [1])"

lemma demo_connected:
  "map_option fst (GetConnectedItems demo_params_cn 0 withZones True demo_data) = Some [0, 1]"
  "list_all (\<lambda>i. bi_type (cn_parent demo_searched i) \<in> set withZones) (cn_items demo_searched)"
  by code_simp+

theorem GetConnectedItems_component_witness:
  "{0, 1} = (\<Union>C \<in> {C \<in> net_comps True (- 1) demo_searched. \<exists>i \<in> C. ci_parent (cn_item demo_searched i) = 0}.
     (\<lambda>i. ci_parent (cn_item demo_searched i)) ` C)"
proof -
  have "reach_inv demo_world" using reach_from_empty [OF demo_ok demo_reach] .
  then have inv: "reach_inv (cd_world demo_data)"
    using searchConnections_inv [OF demo_ok(1) _ demo_search] by (simp add: demo_data_def with_world_def)
  have s: "searched (pm_geometry demo_params_cn) (cd_world demo_data) = Some demo_searched"
    by (simp add: searched_def demo_data_def with_world_def demo_searched_def demo_state_def)
  have "\<forall>i \<in> set (cn_items demo_searched). bi_type (cn_parent demo_searched i) \<in> set withZones"
    using demo_connected(2) by (simp add: list_all_iff)
  from GetConnectedItems_component [OF _ inv s this, of 0 True] demo_ok(1) obtain rv d' where
    "GetConnectedItems demo_params_cn 0 withZones True demo_data = Some (rv, d')"
    "set rv = (\<Union>C \<in> {C \<in> net_comps True (- 1) demo_searched. \<exists>i \<in> C. ci_parent (cn_item demo_searched i) = 0}.
       (\<lambda>i. ci_parent (cn_item demo_searched i)) ` C)" by (auto simp: demo_params_cn_def searched_net_def)
  then show ?thesis using demo_connected(1) by simp
qed

section \<open>The lines of a component\<close>

text \<open>The flag that asks to leave out the lines within a component changes nothing.\<close>

lemma GetRatsnestForComponent_flag:
  "GetRatsnestForComponent aComponent aSkipInternalConnections d =
     lines_of_nets (\<lambda>src dst. src \<in> set (bi_pads (cn_board (cd_world d) aComponent)) \<or> dst \<in> set (bi_pads (cn_board (cd_world d) aComponent)))
       (nets_of (bi_pads (cn_board (cd_world d) aComponent)) (cd_world d)) d"
proof -
  have "(if a \<and> b \<and> \<not> s then True else if a \<or> b then True else False) = (a \<or> b)" for a b s by auto
  then show ?thesis by (simp add: GetRatsnestForComponent_def Let_def)
qed

end
