(* ===== verification/CnRatsnest.thy ===== *)
theory CnRatsnest
  imports CnFound CnQueryProps
begin

text \<open>
  The ratsnest of a board after \<open>CONNECTIVITY_DATA::RecalculateRatsnest\<close>
  (\<^verbatim>\<open>pcbnew/connectivity/connectivity_data.cpp\<close>): nets are propagated, clusters become nodes, the nets that
  changed get new lines, and these lines complete the net.
\<close>

section \<open>Invariant\<close>

definition idle :: "RN_NET \<Rightarrow> bool" where
  "idle net \<longleftrightarrow> (rn_dirty net \<longrightarrow> rn_nodes net = [] \<and> rn_boardEdges net = [])"

definition data_inv :: "CN_DATA \<Rightarrow> bool" where
  "data_inv d \<longleftrightarrow> reach_inv (cd_world d) \<and> anchors_inv (cd_world d) \<and> \<not> cd_skipRatsnestUpdate d \<and> (\<forall>net \<in> set (cd_nets d). idle net)"

lemma idle_Clear: "idle (rn_Clear net)" "idle RN_NET_make" "idle net \<Longrightarrow> idle (rn_RemoveInvalidRefs w net)"
  by (simp_all add: idle_def rn_Clear_def RN_NET_make_def rn_RemoveInvalidRefs_def)

lemma before_search_inv: "data_inv d \<Longrightarrow> data_inv (before_search d)"
proof -
  assume d: "data_inv d"
  have one: "reach_inv (item_RemoveInvalidRefs i w)" if "reach_inv w" for i w
    using that RemoveInvalidRefs_inv board_ok_same [of w]
    by (auto simp: reach_inv_def same_board_def item_RemoveInvalidRefs_def upd_item_def)
  have "reach_inv (algo_RemoveInvalidRefs (cd_world d))"
    unfolding algo_RemoveInvalidRefs_def
    by (rule fold_invariant [where Q = "\<lambda>_. True" and P = reach_inv]) (use d one in \<open>simp_all add: data_inv_def\<close>)
  moreover have "anchors_inv (algo_RemoveInvalidRefs (cd_world d))"
    unfolding algo_RemoveInvalidRefs_def
    by (rule same_anchors_inv [OF same_anchors_fold]) (use d same_anchors_simple(11) in \<open>simp_all add: data_inv_def\<close>)
  ultimately show ?thesis
    using d idle_Clear(3) by (auto simp: before_search_def data_RemoveInvalidRefs_def data_inv_def)
qed

section \<open>Propagating nets\<close>

lemma SearchClusters_returns:
  assumes "cn_inv w" and "\<not> cn_list_dirty w"
  shows "\<exists>cs w'. SearchClusters g aMode w = Some (cs, w') \<and> unmarked w' = unmarked w"
proof -
  let ?b = "aMode \<noteq> CSM_PROPAGATE" and ?tys = "if aMode = CSM_PROPAGATE then withoutZones else withZones"
  let ?found = "filter (in_search ?b ?tys (- 1) None w) (cn_items w)"
  let ?w = "fold (SetVisited False) ?found w"
  have "set (sort (remdups ?found)) \<subseteq> search_items aMode w"
    by (auto simp: in_search_def search_items_def split: if_splits)
  moreover have "\<And>i n. i \<in> search_items aMode w \<Longrightarrow> hop ?b w i n \<Longrightarrow> n \<in> search_items aMode w"
    using search_closedD(1) [OF search_items_closed [OF assms(1)]] .
  moreover have "finite (search_items aMode w)" by (simp add: search_items_def)
  ultimately obtain cs w' where c: "clusters_loop ?b (sort (remdups ?found)) ?w = Some (cs, w')"
    using clusters_loop_returns [of "search_items aMode w" ?b w ?w] fold_SetVisited(1) by blast
  then have "unmarked w' = unmarked w" using clusters_loop_unmarked [OF c] fold_SetVisited(1) by simp
  then show ?thesis using c assms(2) by (simp add: SearchClusters_def SearchClusters_types_def Let_def)
qed

lemma propagated:
  assumes "nearby_ok g" and "reach_inv v" "anchors_inv v" and "searched g v = Some w1" and "nets_known w1"
  shows "\<exists>cs ms w. PropagateNets g v = Some (cs, ms, w) \<and> reach_inv w \<and> anchors_inv w \<and> \<not> cn_list_dirty w \<and> nets_known w \<and>
    (\<forall>n. dirty_net w1 n \<longrightarrow> dirty_net w n) \<and> cn_items w = cn_items w1 \<and> cn_anchor w = cn_anchor w1 \<and>
    (\<forall>i. ci_anchors (cn_item w i) = ci_anchors (cn_item w1 i)) \<and> touching w = touching w1"
proof -
  note inv = searched_inv [OF assms(1,2,4)]
  obtain cs w2 where s: "SearchClusters g CSM_PROPAGATE w1 = Some (cs, w2)" "unmarked w2 = unmarked w1"
    using SearchClusters_returns [OF inv(1,2)] by blast
  obtain ms w where p: "propagateConnections cs ([], w2) = (ms, w)" by fastforce
  have P: "PropagateNets g v = Some (cs, ms, w)" unfolding inv(4) using s(1) p by (simp add: PropagateNets_def)
  have m: "marks_grow w2 w" and a: "same_anchors w2 w"
    using propagate_marks [of w2 cs "[]"] propagate_anchors [of w2 cs "[]"] p by simp_all
  have w2: "nets_known w2 \<longleftrightarrow> nets_known w1" "dirty_net w2 = dirty_net w1" "cn_list_dirty w2 = cn_list_dirty w1" "cn_items w2 = cn_items w1"
    using same_world [OF s(2)] same_unmarked_items [OF s(2)] by (simp_all add: nets_known_def fun_eq_iff dirty_net_def)
  have "reach_inv w" using PropagateNets_inv [OF assms(1,2) P] .
  moreover have "anchors_inv w" using PropagateNets_anchors [OF assms(3) P] .
  ultimately show ?thesis
    using P m a w2 assms(5) inv(2) same_unmarked_items [OF s(2)] same_fields(2) [OF s(2)]
    by (auto simp: marks_grow_def same_anchors_def touching_def)
qed

section \<open>The nets\<close>

lemma base_nets:
  assumes "base = clear_dirty_nets w (resize_nets (length (cn_dirty_nets w)) nets)" and "\<forall>net \<in> set nets. idle net"
  shows "length (cn_dirty_nets w) < length base" "\<forall>net \<in> set base. idle net"
    "dirty_net w n \<Longrightarrow> \<exists>net. base ! n = rn_Clear net"
proof -
  let ?nets = "resize_nets (length (cn_dirty_nets w)) nets"
  have idle: "\<forall>net \<in> set ?nets. idle net"
    using assms(2) idle_Clear set_take_subset [of "length (cn_dirty_nets w)" nets] by (auto simp: resize_nets_def)
  have len: "length (cn_dirty_nets w) < length ?nets" by (auto simp: resize_nets_def)
  have nth: "base ! i = (if dirty_net w i then rn_Clear (?nets ! i) else ?nets ! i)" if "i < length ?nets" for i
    using that by (simp add: assms(1) clear_dirty_nets_def dirty_net_def nth_enumerate_eq)
  have l: "length base = length ?nets" by (simp add: assms(1) clear_dirty_nets_def)
  show "length (cn_dirty_nets w) < length base" using len l by simp
  show "\<forall>net \<in> set base. idle net"
  proof
    fix net assume "net \<in> set base"
    then obtain i where "i < length ?nets" "net = base ! i" using l by (auto simp: in_set_conv_nth)
    then show "idle net" using nth idle idle_Clear(1) by simp
  qed
  show "\<exists>net. base ! n = rn_Clear net" if "dirty_net w n"
  proof -
    have "n < length (cn_dirty_nets w)" using that by (simp add: dirty_net_def)
    then show ?thesis using nth [of n] len that by auto
  qed
qed

text \<open>The nets when the clusters were added: those that are to be updated are built of them.\<close>

definition filled :: "CN_WORLD \<Rightarrow> CN_CLUSTER list \<Rightarrow> nat \<Rightarrow> RN_NET list \<Rightarrow> CN_WORLD \<Rightarrow> bool" where
  "filled w cs k nets v \<longleftrightarrow> length (cn_dirty_nets w) < length nets \<and> same_nodes w v \<and> (\<forall>n. numbered w cs n k v) \<and>
     (\<forall>i < length nets. rn_dirty (nets ! i) \<longrightarrow> built w cs i (nets ! i)) \<and>
     (\<forall>n. dirty_net w n \<longrightarrow> rn_dirty (nets ! n) \<and> rn_rnEdges (nets ! n) = [])"

lemma clusters_added:
  assumes "anchors_inv w" and "found w cs" and "nets_known w" and "\<forall>net \<in> set nets0. idle net"
  shows "\<exists>nets f. fold_opt add_cluster (enumerate k cs) (clear_dirty_nets w (resize_nets (length (cn_dirty_nets w)) nets0), w) =
      Some (nets, with_clusters f w) \<and> filled w cs k nets (with_clusters f w)"
proof -
  define base where "base = clear_dirty_nets w (resize_nets (length (cn_dirty_nets w)) nets0)"
  note b = base_nets [OF base_def assms(4)]
  have origin: "0 \<le> cl_originNet c \<and> cl_originNet c < int (length (cn_dirty_nets w)) \<and> cl_originNet c < int (length base)"
    if c: "c \<in> set cs" for c
  proof -
    obtain i where i: "i \<in> set (cl_items c)" using foundD(7) [OF assms(2) c] by fastforce
    have "i \<in> set (cn_items w)" "cn_Net w i = cl_originNet c" "cn_Net w i > 0" using foundD(2) [OF assms(2) c i] by auto
    moreover from this(1) have "cn_Net w i < int (length (cn_dirty_nets w))" using assms(3) unfolding nets_known_def by blast
    ultimately show ?thesis using b(1) by simp
  qed
  have "\<forall>c \<in> set cs. 0 \<le> cl_originNet c \<and> cl_originNet c < int (length (cn_dirty_nets w)) \<and> cl_originNet c < int (length base)"
    using origin by blast
  from add_clusters [OF this found_distinct(1) [OF assms(1,2)], of k] obtain nets f where
    r: "fold_opt add_cluster (enumerate k cs) (base, w) = Some (nets, with_clusters f w)" "length nets = length base"
    "\<forall>n < length base. net_with (groups w n cs) (base ! n) (nets ! n)"
    "\<forall>i < length cs. \<forall>n. added_to w n (cs ! i) \<longrightarrow> (\<forall>a \<in> set (cluster_anchors w (cs ! i)). f a = Some (k + i))"
    by (elim exE conjE) (rule that)
  have net: "rn_dirty (nets ! i) = rn_dirty (base ! i)" "rn_dirty (base ! i) \<Longrightarrow> built w cs i (nets ! i)" if "i < length nets" for i
  proof -
    have n: "net_with (groups w i cs) (base ! i) (nets ! i)" "idle (base ! i)" using r(2,3) b(2) that by simp_all
    then show "rn_dirty (nets ! i) = rn_dirty (base ! i)" "rn_dirty (base ! i) \<Longrightarrow> built w cs i (nets ! i)"
      by (simp_all add: net_with_def idle_def built_def)
  qed
  have "rn_dirty (nets ! n) \<and> rn_rnEdges (nets ! n) = []" if d: "dirty_net w n" for n
  proof -
    have "n < length base" using d b(1) by (simp add: dirty_net_def)
    then have "net_with (groups w n cs) (base ! n) (nets ! n)" using r(3) by blast
    then show ?thesis using b(3) [OF d] by (auto simp: net_with_def rn_Clear_def)
  qed
  moreover have "numbered w cs n k (with_clusters f w)" for n
  proof -
    have f: "an_cluster (cn_anchor (with_clusters f w) a) = f a" for a by (simp add: with_clusters_def)
    show ?thesis using r(4) unfolding numbered_def f by blast
  qed
  ultimately have "filled w cs k nets (with_clusters f w)"
    using r(2) b(1) net by (auto simp: filled_def same_nodes_simple)
  then show ?thesis using r(1) unfolding base_def by blast
qed

section \<open>Updating the nets\<close>

definition nets_to_update :: "RN_NET list \<Rightarrow> nat list" where
  "nets_to_update nets = filter (\<lambda>i. rn_dirty (nets ! i) \<and> length (rn_nodes (nets ! i)) > 0) [1..<length nets]"

definition bounded :: "CN_WORLD \<Rightarrow> bool" where
  "bounded w \<longleftrightarrow> (\<forall>i \<in> set (cn_items w). \<forall>a \<in> set (ci_anchors (cn_item w i)). pos_bounded w a)"

text \<open>A net after the update: it has the lines \<open>es\<close> in the world \<open>u\<close>, of which the last ends are in \<open>x\<close>.\<close>

definition finished :: "CN_WORLD \<Rightarrow> CN_WORLD \<Rightarrow> RN_NET \<Rightarrow> RN_NET \<Rightarrow> bool" where
  "finished u x net net' \<longleftrightarrow> (\<exists>es es'. net' = net\<lparr> rn_rnEdges := es', rn_dirty := False \<rparr> \<and> lines_ok u net es \<and> list_all2 (near u x) es es')"

lemma nets_updated:
  assumes "delaunay_ok (pm_ratsnest pm)" and "norm_ok (pm_ratsnest pm)" and "anchors_inv w" and "\<not> cn_list_dirty w" and "found w cs"
    and "bounded w" and "filled w cs k (cd_nets d) (cd_world d)"
  shows "\<exists>nets u x. updateRatsnest pm d = Some (d\<lparr> cd_nets := nets, cd_world := x \<rparr>) \<and> length nets = length (cd_nets d) \<and>
    (\<exists>f. u = with_tags f (cd_world d)) \<and> anchors_grow u x \<and>
    (\<forall>i. if i \<in> set (nets_to_update (cd_nets d)) then finished u x (cd_nets d ! i) (nets ! i) else nets ! i = cd_nets d ! i)"
proof -
  let ?ds = "nets_to_update (cd_nets d)"
  note fill = assms(7) [unfolded filled_def]
  have ready: "\<forall>i \<in> set ?ds. i < length (cd_nets d) \<and> net_ready (cd_world d) (cd_nets d ! i)"
  proof
    fix i assume "i \<in> set ?ds"
    then have i: "i < length (cd_nets d)" "rn_dirty (cd_nets d ! i)" by (auto simp: nets_to_update_def)
    then have "built w cs i (cd_nets d ! i)" using fill by blast
    then show "i < length (cd_nets d) \<and> net_ready (cd_world d) (cd_nets d ! i)"
      using built_ready [OF assms(3-5) _ _ assms(6) [unfolded bounded_def]] fill i(1) by blast
  qed
  have dist: "distinct ?ds" by (simp add: nets_to_update_def)
  obtain nets1 f where r1: "fold_opt (on_net (UpdateNet (pm_ratsnest pm))) ?ds (cd_nets d, cd_world d) = Some (nets1, with_tags f (cd_world d))"
    "length nets1 = length (cd_nets d)"
    "\<forall>i. if i \<in> set ?ds then updated (cd_world d) (cd_nets d ! i) (nets1 ! i) else nets1 ! i = cd_nets d ! i"
    using update_nets [OF assms(1,2) dist ready] by blast
  let ?u = "with_tags f (cd_world d)"
  have "\<forall>i \<in> set ?ds. i < length nets1" using ready r1(2) by simp
  from optimise_nets [OF dist this, of "pm_hits pm" ?u] obtain nets x where
    r2: "fold_opt (on_net (\<lambda>net w. Some (OptimizeRNEdges (pm_hits pm) net w))) ?ds (nets1, ?u) = Some (nets, x)"
    "anchors_grow ?u x" "length nets = length nets1"
    "\<forall>i. if i \<in> set ?ds then optimised ?u x (nets1 ! i) (nets ! i) else nets ! i = nets1 ! i" by blast
  have "cd_nets d \<noteq> []" using fill by auto
  then have "updateRatsnest pm d = Some (d\<lparr> cd_nets := nets, cd_world := x \<rparr>)"
    using r1(1) r2(1) by (simp add: updateRatsnest_def nets_to_update_def)
  moreover have "if i \<in> set ?ds then finished ?u x (cd_nets d ! i) (nets ! i) else nets ! i = cd_nets d ! i" for i
  proof (cases "i \<in> set ?ds")
    case True
    then have "updated (cd_world d) (cd_nets d ! i) (nets1 ! i)" "optimised ?u x (nets1 ! i) (nets ! i)"
      using r1(3) r2(4) by (metis (full_types))+
    then obtain es es' where "nets1 ! i = (cd_nets d ! i)\<lparr> rn_rnEdges := es, rn_dirty := False \<rparr>" "lines_ok (cd_world d) (cd_nets d ! i) es"
      "nets ! i = (nets1 ! i)\<lparr> rn_rnEdges := es' \<rparr>" "list_all2 (near ?u x) (rn_rnEdges (nets1 ! i)) es'"
      by (auto simp: updated_def optimised_def)
    then have "finished ?u x (cd_nets d ! i) (nets ! i)"
      unfolding finished_def with_tags_ready by (intro exI [of _ es] exI [of _ es']) simp
    then show ?thesis using True by simp
  next
    case False
    then show ?thesis using r1(3) r2(4) by (metis (full_types))
  qed
  ultimately show ?thesis using r1(2) r2(2,3) by (intro exI [of _ nets] exI [of _ ?u] exI [of _ x]) auto
qed

section \<open>Recalculating\<close>

text \<open>The nodes of a net are the anchors of its items, and its lines complete what the board connects.\<close>

definition complete_net :: "CN_WORLD \<Rightarrow> nat \<Rightarrow> RN_NET \<Rightarrow> bool" where
  "complete_net w n net \<longleftrightarrow> distinct (rn_nodes net) \<and> set (rn_nodes net) = (\<Union>i \<in> net_items_of w n. set (node_anchors w i)) \<and>
     (spread w net \<longrightarrow> (\<forall>a \<in> set (rn_nodes net). \<forall>b \<in> set (rn_nodes net). \<forall>i j.
        an_item (cn_anchor w a) = Some i \<and> an_item (cn_anchor w b) = Some j \<longrightarrow> (i, j) \<in> net_linked w net))"

lemma same_nodes_net:
  assumes "same_nodes w x"
  shows "net_items_of x n = net_items_of w n" "node_anchors x = node_anchors w"
proof -
  have n: "cn_Net x = cn_Net w" "hop True x = hop True w" "counted_pad x = counted_pad w"
    using assms by (simp_all add: fun_eq_iff same_nodes_def cn_Net_def cn_parent_def hop_def counted_pad_def)
  have "island x = island w" using assms n by (simp add: fun_eq_iff island_def same_nodes_def)
  then show "net_items_of x n = net_items_of w n" using assms n by (simp add: net_items_of_def same_nodes_def)
  show "node_anchors x = node_anchors w" using assms by (simp add: fun_eq_iff node_anchors_def same_nodes_def)
qed

lemma built_complete:
  assumes "anchors_inv w" and "found w cs" and "built w cs n net" and "dirty_net w n" and "n > 0"
    and "same_nodes w u" and "numbered w cs n k u" and "same_nodes u x" and "rn_nodes net = [] \<and> net' = net \<or> finished u x net net'"
  shows "complete_net x n net'"
proof -
  have wx: "same_nodes w x" using assms(6,8) by (rule same_nodes_trans)
  have nodes: "rn_nodes net' = rn_nodes net" using assms(9) by (auto simp: finished_def)
  have "distinct (rn_nodes net)"
    using assms(3) found_distinct(2) [OF assms(1,2), of n] unfolding built_def by (metis mset_eq_imp_distinct_iff)
  moreover have "set (rn_nodes net) = (\<Union>i \<in> net_items_of w n. set (node_anchors w i))" by (rule built_nodes [OF assms(2-5)])
  moreover have "(i, j) \<in> net_linked x net'"
    if ab: "a \<in> set (rn_nodes net)" "b \<in> set (rn_nodes net)" and ij: "an_item (cn_anchor x a) = Some i" "an_item (cn_anchor x b) = Some j"
      and s: "spread x net'" for a b i j
  proof -
    from assms(9) ab(1) have "finished u x net net'" by auto
    then obtain es es' where e: "net' = net\<lparr> rn_rnEdges := es', rn_dirty := False \<rparr>" "lines_ok u net es" "list_all2 (near u x) es es'"
      by (auto simp: finished_def)
    have pos: "an_Pos x c = an_Pos u c" if "c \<in> set (rn_nodes net)" for c
    proof -
      have "c < cn_next_anchor u" using built_node [OF assms(1-3,6) that] by blast
      then show ?thesis using assms(8) by (simp add: an_Pos_def same_nodes_def)
    qed
    have "spread u net" using s pos by (auto simp: spread_def nodes)
    from net_links [OF assms(1-3,6,7) e(2) this e(3) assms(8) ab ij] show ?thesis by (simp add: net_linked_def e(1))
  qed
  ultimately show ?thesis unfolding complete_net_def nodes same_nodes_net [OF wx] by blast
qed

lemma same_core_more: "same_core w (with_clusters f w)" "same_core w (with_tags g w)" "anchors_grow w x \<Longrightarrow> same_core w x"
  by (auto simp: same_core_def same_board_def with_clusters_def with_tags_def anchors_grow_def)

lemma anchors_inv_nodes:
  assumes "anchors_inv w" and "same_nodes w v" and "cn_next_item v = cn_next_item w" and "\<not> cn_list_dirty w"
  shows "anchors_inv v"
  using assms by (fastforce simp: anchors_inv_def anchors_on_def same_nodes_def)

lemma filled_flags: "filled w cs k nets v \<Longrightarrow> filled w cs k nets (nets_ClearDirtyFlags v)"
  using same_nodes_trans [OF _ same_nodes_simple(3)] by (auto simp: filled_def numbered_def nets_ClearDirtyFlags_def)

lemma idle_finished:
  assumes "found w cs" and "filled w cs k nets v" and "length nets' = length nets"
    and "\<forall>i. if i \<in> set (nets_to_update nets) then finished u x (nets ! i) (nets' ! i) else nets' ! i = nets ! i"
  shows "\<forall>net \<in> set nets'. idle net"
proof
  fix net assume "net \<in> set nets'"
  then obtain i where i: "i < length nets" "net = nets' ! i" using assms(3) by (auto simp: in_set_conv_nth)
  show "idle net"
  proof (cases "i \<in> set (nets_to_update nets)")
    case True
    then have "finished u x (nets ! i) net" using assms(4) i(2) by metis
    then show ?thesis by (auto simp: finished_def idle_def)
  next
    case False
    then have net: "net = nets ! i" using assms(4) i(2) by metis
    show ?thesis
    proof (cases "rn_dirty (nets ! i)")
      case True
      then have b: "built w cs i (nets ! i)" using assms(2) i(1) by (simp add: filled_def)
      have "groups w i cs = [] \<or> rn_nodes (nets ! i) = []"
      proof (cases "i = 0")
        case True
        have "\<not> added_to w 0 c" if c: "c \<in> set cs" for c
        proof -
          obtain j where "j \<in> set (cl_items c)" using foundD(7) [OF assms(1) c] by fastforce
          from foundD(2) [OF assms(1) c this] show ?thesis by (auto simp: added_to_def)
        qed
        then show ?thesis using True by (auto simp: groups_def filter_empty_conv)
      next
        case ne: False
        then show ?thesis using False True i(1) by (auto simp: nets_to_update_def)
      qed
      then have c: "concat (groups w i cs) = []" using b by (auto simp: built_def)
      have "mset (rn_nodes (nets ! i)) = {#}" using b unfolding built_def c by simp
      moreover have "\<forall>g \<in> set (groups w i cs). star g = []" using c by (auto simp: star_def)
      ultimately have "rn_nodes (nets ! i) = []" "\<forall>g \<in> set (groups w i cs). star g = []" by simp_all
      then show ?thesis using b net by (simp add: idle_def built_def)
    qed (simp add: net idle_def)
  qed
qed

lemma Recalculate_effect:
  assumes "nearby_ok (pm_geometry pm)" and "delaunay_ok (pm_ratsnest pm)" and "norm_ok (pm_ratsnest pm)" and "data_inv d"
    and "searched (pm_geometry pm) (cd_world (before_search d)) = Some w1" and "nets_known w1" and "bounded w1"
  shows "\<exists>ms d'. RecalculateRatsnest pm d = Some (ms, d') \<and> data_inv d' \<and>
    cn_items (cd_world d') = cn_items w1 \<and> touching (cd_world d') = touching w1 \<and>
    (\<forall>n > 0. dirty_net w1 n \<longrightarrow> n < length (cd_nets d') \<and> complete_net (cd_world d') n (cd_nets d' ! n))"
proof -
  let ?g = "pm_geometry pm" and ?d = "before_search d"
  have d: "reach_inv (cd_world ?d)" "anchors_inv (cd_world ?d)" "\<not> cd_skipRatsnestUpdate ?d" "\<forall>net \<in> set (cd_nets ?d). idle net"
    using before_search_inv [OF assms(4)] by (simp_all add: data_inv_def)
  from propagated [OF assms(1) d(1,2) assms(5,6)] obtain cs0 ms w where w: "PropagateNets ?g (cd_world ?d) = Some (cs0, ms, w)"
    "reach_inv w" "anchors_inv w" "\<not> cn_list_dirty w" "nets_known w" "\<forall>n. dirty_net w1 n \<longrightarrow> dirty_net w n"
    "cn_items w = cn_items w1" "cn_anchor w = cn_anchor w1" "\<forall>i. ci_anchors (cn_item w i) = ci_anchors (cn_item w1 i)"
    "touching w = touching w1" by blast
  have "cn_inv w" using w(2) by (simp add: reach_inv_def)
  then obtain cs w3 where s: "SearchClusters ?g CSM_RATSNEST w = Some (cs, w3)" "unmarked w3 = unmarked w" "found w cs"
    using SearchClusters_ratsnest w(4) by blast
  have w3: "anchors_inv w3" "reach_inv w3" "\<not> cn_list_dirty w3" "found w3 cs"
    using same_anchors_inv [OF same_anchors_unmarked [OF s(2)] w(3)] same_core_reach [OF same_core_unmarked [OF s(2)] w(2)]
      same_world(6) [OF s(2)] w(4) found_unmarked [OF s(2,3)] by simp_all
  note same = same_world [OF s(2)] same_unmarked_items [OF s(2)]
  have known: "nets_known w3" "bounded w3" "\<forall>n. dirty_net w1 n \<longrightarrow> dirty_net w3 n"
    using w(5-9) assms(7) by (simp_all add: nets_known_def bounded_def pos_bounded_def an_Pos_def dirty_net_def same)
  let ?k = "cd_next_cluster ?d" and ?nets0 = "cd_nets ?d"
  from clusters_added [OF w3(1,4) known(1) d(4), of ?k] obtain nets f where a:
    "fold_opt add_cluster (enumerate ?k cs) (clear_dirty_nets w3 (resize_nets (length (cn_dirty_nets w3)) ?nets0), w3) =
      Some (nets, with_clusters f w3)" "filled w3 cs ?k nets (with_clusters f w3)" by blast
  let ?v = "nets_ClearDirtyFlags (with_clusters f w3)"
  define e where "e = ?d\<lparr> cd_connClusters := cs0, cd_ratsnestClusters := cs, cd_nets := nets, cd_world := ?v,
    cd_next_cluster := ?k + length cs \<rparr>"
  have fill: "filled w3 cs ?k (cd_nets e) (cd_world e)" using filled_flags [OF a(2)] by (simp add: e_def)
  from nets_updated [OF assms(2,3) w3(1,3,4) known(2) fill] obtain nets' u x where r:
    "updateRatsnest pm e = Some (e\<lparr> cd_nets := nets', cd_world := x \<rparr>)" "length nets' = length (cd_nets e)"
    "\<exists>g. u = with_tags g (cd_world e)" "anchors_grow u x"
    "\<forall>i. if i \<in> set (nets_to_update (cd_nets e)) then finished u x (cd_nets e ! i) (nets' ! i) else nets' ! i = cd_nets e ! i" by blast
  let ?d' = "e\<lparr> cd_nets := nets', cd_world := x \<rparr>"
  have R: "RecalculateRatsnest pm d = Some (ms, ?d')"
  proof -
    have p: "data_PropagateNets pm d = Some (ms, ?d\<lparr> cd_world := w, cd_connClusters := cs0 \<rparr>)"
      using w(1) by (simp add: data_PropagateNets_def Let_def)
    have clean: "before_search q = q" if "\<not> cn_list_dirty (cd_world q)" for q using that by (simp add: before_search_def)
    have b: "before_search (?d\<lparr> cd_world := w, cd_connClusters := cs0, cd_nets := nn \<rparr>) =
      ?d\<lparr> cd_world := w, cd_connClusters := cs0, cd_nets := nn \<rparr>" for nn by (rule clean) (simp add: w(4))
    have c: "GetClusters pm (?d\<lparr> cd_world := w, cd_connClusters := cs0, cd_nets := nn \<rparr>) =
      Some (?d\<lparr> cd_world := w3, cd_connClusters := cs0, cd_nets := nn, cd_ratsnestClusters := cs \<rparr>)" for nn
      using s(1) unfolding GetClusters_def b Let_def by simp
    show ?thesis
      using a(1) r(1) d(3) unfolding RecalculateRatsnest_def internalRecalculateRatsnest_def p
      by (simp add: c e_def same Let_def)
  qed
  obtain g where u: "u = with_tags g ?v" using r(3) by (auto simp: e_def)
  have nodes: "same_nodes w3 u" "same_nodes u x" "numbered w3 cs n ?k u" for n
    using same_nodes_trans [OF same_nodes_trans [OF same_nodes_simple(1) same_nodes_simple(3)] same_nodes_simple(2)] same_nodes_grow [OF r(4)]
      fill by (simp_all add: u e_def filled_def numbered_def with_tags_world)
  have core: "same_core w3 x"
    unfolding u by (rule same_core_trans [OF same_core_trans [OF same_core_trans [OF same_core_more(1) same_core_simple(6)] same_core_more(2)]
      same_core_more(3) [OF r(4) [unfolded u]]])
  have "data_inv ?d'"
  proof -
    have "cn_next_item x = cn_next_item w3" using core by (simp add: same_core_def)
    then have "anchors_inv x" by (rule anchors_inv_nodes [OF w3(1) same_nodes_trans [OF nodes(1,2)] _ w3(3)])
    moreover have "\<forall>net \<in> set nets'. idle net" by (rule idle_finished [OF w3(4) fill r(2,5)])
    ultimately show ?thesis using same_core_reach [OF core w3(2)] d(3) by (simp add: data_inv_def e_def)
  qed
  moreover have "n < length nets' \<and> complete_net x n (nets' ! n)" if n: "n > 0" "dirty_net w1 n" for n
  proof -
    have dn: "dirty_net w3 n" using known(3) n(2) by blast
    then have i: "n < length nets" "rn_dirty (nets ! n)" "built w3 cs n (nets ! n)"
      using fill by (auto simp: filled_def e_def dirty_net_def)
    have "rn_nodes (nets ! n) = [] \<and> nets' ! n = nets ! n \<or> finished u x (nets ! n) (nets' ! n)"
    proof (cases "n \<in> set (nets_to_update nets)")
      case True
      then show ?thesis using r(5) [rule_format, of n] by (simp add: e_def)
    next
      case False
      then have "rn_nodes (nets ! n) = []" using i(1,2) n(1) by (auto simp: nets_to_update_def)
      then show ?thesis using r(5) [rule_format, of n] False by (simp add: e_def)
    qed
    from built_complete [OF w3(1,4) i(3) dn n(1) nodes(1,3,2) this] show ?thesis using i(1) r(2) by (simp add: e_def)
  qed
  moreover have "cn_items x = cn_items w1" "touching x = touching w1"
    using core w(7,10) by (simp_all add: same_core_def touching_def same same_fields(2) [OF s(2)])
  ultimately show ?thesis using R by (intro exI [of _ ms] exI [of _ ?d']) simp
qed

section \<open>Reachable states\<close>

text \<open>
  Recalculating is possible when items and board agree: each net that an item has was marked, and the
  positions are in the range of coordinates.
\<close>

definition recalculable :: "CN_PARAMS \<Rightarrow> CN_DATA \<Rightarrow> CN_WORLD \<Rightarrow> bool" where
  "recalculable pm d w \<longleftrightarrow> searched (pm_geometry pm) (cd_world (before_search d)) = Some w \<and> nets_known w \<and> bounded w"

inductive data_reach :: "CN_PARAMS \<Rightarrow> CN_DATA \<Rightarrow> CN_DATA \<Rightarrow> bool" for pm d0 where
  data_start: "data_reach pm d0 d0"
| data_added: "data_reach pm d0 d \<Longrightarrow> data_Add p d = Some (b, d') \<Longrightarrow> data_reach pm d0 d'"
| data_removed: "data_reach pm d0 d \<Longrightarrow> data_Remove p d = (b, d') \<Longrightarrow> data_reach pm d0 d'"
| data_marked: "data_reach pm d0 d \<Longrightarrow> data_reach pm d0 (data_MarkItemNetAsDirty p d)"
| data_cleared: "data_reach pm d0 d \<Longrightarrow> data_reach pm d0 (ClearRatsnest d)"
| data_board: "data_reach pm d0 d \<Longrightarrow> same_board (cd_world d) ((cd_world d)\<lparr> cn_board := b \<rparr>) \<Longrightarrow>
    data_reach pm d0 (with_world ((cd_world d)\<lparr> cn_board := b \<rparr>) d)"
| data_recalculated: "data_reach pm d0 d \<Longrightarrow> recalculable pm d w \<Longrightarrow> RecalculateRatsnest pm d = Some (ms, d') \<Longrightarrow> data_reach pm d0 d'"

lemma with_world_inv: "data_inv d \<Longrightarrow> reach_inv w \<Longrightarrow> anchors_inv w \<Longrightarrow> data_inv (with_world w d)"
  by (simp add: data_inv_def with_world_def)

lemma mark_item_inv:
  assumes "data_inv d"
  shows "data_inv (data_MarkItemNetAsDirty p d)"
proof -
  let ?b = "cn_board (cd_world d) p"
  define v where "v = (if bi_type ?b = PCB_FOOTPRINT_T
    then fold (\<lambda>pad w. MarkNetAsDirty (bi_net (cn_board w pad)) w) (bi_pads ?b) (cd_world d) else cd_world d)"
  have "same_core (cd_world d) v" "same_anchors (cd_world d) v"
    unfolding v_def using same_core_fold [of "\<lambda>pad w. MarkNetAsDirty (bi_net (cn_board w pad)) w"]
      same_anchors_fold [of "\<lambda>pad w. MarkNetAsDirty (bi_net (cn_board w pad)) w"] same_core_simple(3) same_anchors_simple(2) by simp_all
  then have v: "reach_inv v" "anchors_inv v" using assms same_core_reach same_anchors_inv by (auto simp: data_inv_def)
  then have "reach_inv (if bi_connected ?b then MarkNetAsDirty (bi_net ?b) v else v)"
    "anchors_inv (if bi_connected ?b then MarkNetAsDirty (bi_net ?b) v else v)"
    using same_core_reach [OF same_core_simple(3)] same_anchors_inv [OF same_anchors_simple(2)] by simp_all
  then show ?thesis unfolding data_MarkItemNetAsDirty_def Let_def v_def [symmetric] by (rule with_world_inv [OF assms])
qed

lemma data_reach_inv:
  assumes "nearby_ok (pm_geometry pm)" and "delaunay_ok (pm_ratsnest pm)" and "norm_ok (pm_ratsnest pm)"
    and "data_reach pm d0 d" and "data_inv d0"
  shows "data_inv d"
  using assms(4)
proof (induction rule: data_reach.induct)
  case (data_added d p b d')
  then obtain c w where w: "algo_Add p (cd_world d) = Some (c, w)" "d' = with_world w d" by (auto simp: data_Add_def)
  show ?case
    unfolding w(2) using data_added.IH algo_Add_inv [of "cd_world d", OF _ w(1)] algo_Add_anchors [OF _ w(1)]
    by (intro with_world_inv) (simp_all add: data_inv_def)
next
  case (data_removed d p b d')
  then have "d' = with_world (snd (algo_Remove p (cd_world d))) d" by (simp add: data_Remove_def)
  then show ?case
    using data_removed.IH algo_Remove_inv [of "cd_world d" p] algo_Remove_anchors [of "cd_world d" p]
    by (simp add: with_world_inv data_inv_def with_world_def)
next
  case (data_marked d p)
  show ?case by (rule mark_item_inv [OF data_marked.IH])
next
  case (data_cleared d)
  then show ?case using idle_Clear(1) by (auto simp: data_inv_def ClearRatsnest_def)
next
  case (data_board d b)
  let ?w = "(cd_world d)\<lparr> cn_board := b \<rparr>"
  have "same_core (cd_world d) ?w" using data_board.hyps(2) by (simp add: same_core_def)
  then show ?case
    using data_board.IH same_core_reach same_anchors_inv [OF same_anchors_simple(8)] by (intro with_world_inv) (auto simp: data_inv_def)
next
  case (data_recalculated d w ms d')
  from data_recalculated.hyps(2) have "searched (pm_geometry pm) (cd_world (before_search d)) = Some w" "nets_known w" "bounded w"
    by (simp_all add: recalculable_def)
  from Recalculate_effect [OF assms(1-3) data_recalculated.IH this] show ?case using data_recalculated.hyps(3) by auto
qed (rule assms(5))

lemma CONNECTIVITY_DATA_make_inv:
  assumes "board_ok (CN_WORLD_make board enabled)"
  shows "data_inv (CONNECTIVITY_DATA_make board enabled)"
  using assms CN_WORLD_make_inv by (simp add: data_inv_def CONNECTIVITY_DATA_make_def reach_inv_def anchors_inv_def anchors_on_def CN_WORLD_make_def)

section \<open>Completeness of the ratsnest\<close>

text \<open>Three pads of one net that do not touch.\<close>

definition pads_board :: "nat \<Rightarrow> BOARD_CITEM" where
  "pads_board p = (demo_board 0)\<lparr> bi_shape_pos := (100 * int p, 0) \<rparr>"

definition pads_params :: CN_PARAMS where
  "pads_params = \<lparr> pm_geometry = demo_geometry\<lparr> g_collides := \<lambda>_ _ _. False \<rparr>, pm_ratsnest = demo_params,
     pm_hits = \<lparr> rg_HitTest = \<lambda>_ _ _. False, rg_HitTestFilledArea = \<lambda>_ _ _ _. False, rg_width = \<lambda>_. 0, rg_filled = \<lambda>_. True,
       rg_ClosestSegments = \<lambda>_ _. None \<rparr> \<rparr>"

definition pad_item :: "bool \<Rightarrow> nat \<Rightarrow> CN_ITEM" where
  "pad_item dirty p = (demo_item 0 [] [p] dirty False)\<lparr> ci_parent := p \<rparr>"

definition pads_state :: "bool \<Rightarrow> CN_WORLD" where
  "pads_state dirty = (CN_WORLD_make pads_board [1])
     \<lparr> cn_item := (\<lambda>i. if i < 3 then pad_item dirty i else CN_ITEM_make 0 False),
       cn_anchor := (\<lambda>a. \<lparr> an_pos = (if a < 3 then (100 * int a, 0) else (0, 0)), an_item = (if a < 3 then Some a else None), an_tag = - 1,
         an_noline = False, an_cluster = None \<rparr>),
       cn_next_item := 3, cn_next_anchor := 3, cn_items := [0, 1, 2], cn_index := [0, 1, 2], cn_list_dirty := dirty,
       cn_item_map := [0 \<mapsto> [0], 1 \<mapsto> [1], 2 \<mapsto> [2]], cn_dirty_nets := [True, True] \<rparr>"

lemma pads_Adds: "\<exists>w1 w2. algo_Add 0 (CN_WORLD_make pads_board [1]) = Some (True, w1) \<and> algo_Add 1 w1 = Some (True, w2) \<and>
   algo_Add 2 w2 = Some (True, pads_state True)"
  apply (simp add: demo_defs pads_board_def)
  by (auto simp add: pads_state_def pad_item_def demo_item_def CN_WORLD_make_def pads_board_def demo_board_def LAYER_RANGE_make_def CN_ITEM_make_def fun_eq_iff)

lemma pads_world:
  "cn_item (pads_state b) = (\<lambda>i. if i < 3 then pad_item b i else CN_ITEM_make 0 False)" "cn_items (pads_state b) = [0, 1, 2]"
  "cn_index (pads_state b) = [0, 1, 2]" "cn_list_dirty (pads_state b) = b" "cn_has_invalid (pads_state b) = False"
  "cn_parent (pads_state b) i = pads_board (ci_parent (cn_item (pads_state b) i))" "cn_dirty_nets (pads_state b) = [True, True]"
  by (simp_all add: pads_state_def cn_parent_def CN_WORLD_make_def)

lemma pads_RemoveInvalidRefs: "algo_RemoveInvalidRefs (pads_state b) = pads_state b"
proof -
  have "upd_item i f w = w" if "f (cn_item w i) = cn_item w i" for i f w
    using that by (simp add: upd_item_def)
  then have "item_RemoveInvalidRefs i (pads_state b) = pads_state b" for i
    unfolding item_RemoveInvalidRefs_def by (simp add: pads_world pad_item_def demo_item_def CN_ITEM_make_def)
  then show ?thesis by (simp add: algo_RemoveInvalidRefs_def pads_world)
qed

lemma pads_search: "searchConnections (pm_geometry pads_params) (pads_state True) = Some (pads_state False)"
proof -
  let ?w = "pads_state True" and ?g = "pm_geometry pads_params"
  have "visit ?g i c ?w = Some ?w" for i c
    by (simp add: visit_def Let_def pads_world pads_board_def demo_board_def island_layers(1)) (simp add: pads_params_def)
  then have s: "search_item ?g i ?w = Some ?w" for i
    by (simp add: search_item_def pads_params_def demo_geometry_def pads_world)
  have d: "filter (\<lambda>i. ci_dirty (cn_item ?w i)) (cn_items ?w) = [0, 1, 2]"
    by (simp add: pads_world pad_item_def demo_item_def)
  have "searchConnections ?g ?w = Some (list_ClearDirtyFlags ?w)"
    using s by (simp add: searchConnections_def pads_RemoveInvalidRefs RemoveInvalidItems_def pads_world(4,5) d)
  also have "list_ClearDirtyFlags ?w = pads_state False"
    unfolding list_ClearDirtyFlags_def pads_world(2)
    by (simp add: upd_item_def pads_state_def pad_item_def demo_item_def fun_eq_iff CN_WORLD_make_def)
  finally show ?thesis .
qed

definition pads_data :: CN_DATA where
  "pads_data = with_world (pads_state True) (CONNECTIVITY_DATA_make pads_board [1])"

lemma pads_ok: "nearby_ok (pm_geometry pads_params)" "pm_ratsnest pads_params = demo_params" "board_ok (CN_WORLD_make pads_board [1])"
  by (simp_all add: nearby_ok_def pads_params_def demo_geometry_def board_ok_def CN_WORLD_make_def pads_board_def demo_board_def)

lemma pads_reach: "data_reach pads_params (CONNECTIVITY_DATA_make pads_board [1]) pads_data"
proof -
  let ?d = "CONNECTIVITY_DATA_make pads_board [1]"
  obtain w1 w2 where w: "algo_Add 0 (CN_WORLD_make pads_board [1]) = Some (True, w1)" "algo_Add 1 w1 = Some (True, w2)"
    "algo_Add 2 w2 = Some (True, pads_state True)" using pads_Adds by blast
  have "data_Add 0 ?d = Some (True, with_world w1 ?d)" "data_Add 1 (with_world w1 ?d) = Some (True, with_world w2 ?d)"
    "data_Add 2 (with_world w2 ?d) = Some (True, pads_data)"
    using w by (simp_all add: data_Add_def CONNECTIVITY_DATA_make_def with_world_def pads_data_def)
  from data_added [OF data_added [OF data_added [OF data_start this(1)] this(2)] this(3)] show ?thesis .
qed

lemma pads_recalculable: "recalculable pads_params pads_data (pads_state False)"
proof -
  have "cd_world (before_search pads_data) = pads_state True"
    by (simp add: before_search_def data_RemoveInvalidRefs_def pads_data_def with_world_def pads_world pads_RemoveInvalidRefs)
  then have "searched (pm_geometry pads_params) (cd_world (before_search pads_data)) = Some (pads_state False)"
    by (simp add: searched_def pads_world pads_search)
  moreover have "nets_known (pads_state False)"
    by (simp add: nets_known_def pads_world cn_Net_def pads_board_def demo_board_def)
  moreover have "bounded (pads_state False)"
    by (simp add: bounded_def pads_world pad_item_def demo_item_def pos_bounded_def an_Pos_def pads_state_def)
  ultimately show ?thesis by (simp add: recalculable_def)
qed

text \<open>
  C2. In every state that is reached from an empty board by adding and removing items, marking nets, changing
  the board and recalculating, \<open>RecalculateRatsnest\<close> returns. It keeps the items and what they touch, and every net that was
  marked is complete: its nodes are the anchors of its items but isolated zone outlines, each once, and
  unless they all lie on one point the items of any two nodes are linked through items that touch and
  ratsnest lines, after the ends of lines were moved to zones.
\<close>

theorem RecalculateRatsnest_completes:
  assumes "nearby_ok (pm_geometry pm)" and "delaunay_ok (pm_ratsnest pm)" and "norm_ok (pm_ratsnest pm)"
    and "board_ok (CN_WORLD_make board enabled)" and "data_reach pm (CONNECTIVITY_DATA_make board enabled) d" and "recalculable pm d w"
  shows "\<exists>ms d'. RecalculateRatsnest pm d = Some (ms, d') \<and> cn_items (cd_world d') = cn_items w \<and> touching (cd_world d') = touching w \<and>
    (\<forall>n > 0. dirty_net w n \<longrightarrow> n < length (cd_nets d') \<and> complete_net (cd_world d') n (cd_nets d' ! n))"
proof -
  have "data_inv d" by (rule data_reach_inv [OF assms(1-3,5) CONNECTIVITY_DATA_make_inv [OF assms(4)]])
  from Recalculate_effect [OF assms(1-3) this] assms(6) show ?thesis unfolding recalculable_def by blast
qed

theorem RecalculateRatsnest_completes_witness:
  "\<exists>ms d'. RecalculateRatsnest pads_params pads_data = Some (ms, d') \<and> touching (cd_world d') = {} \<and>
     complete_net (cd_world d') 1 (cd_nets d' ! 1)"
proof -
  have "touching (pads_state False) = {}" by (auto simp: touching_def pads_world pad_item_def demo_item_def)
  moreover have "dirty_net (pads_state False) 1" by (simp add: dirty_net_def pads_world)
  moreover have "delaunay_ok (pm_ratsnest pads_params)" "norm_ok (pm_ratsnest pads_params)"
    unfolding pads_ok(2) by (rule demo_params_ok)+
  ultimately show ?thesis
    using RecalculateRatsnest_completes [OF pads_ok(1) _ _ pads_ok(3) pads_reach pads_recalculable] by force
qed

end
