(* ===== verification/StringUtils.thy ===== *)
theory StringUtils
  imports Richio
begin

text \<open>
  The string functions of \<^verbatim>\<open>common/string_utils.cpp\<close> and \<^verbatim>\<open>include/string_utils.h\<close>. A \<open>wxString\<close> is a list of
  code points, a C or standard string a list of bytes. What the code takes from the C library by locale
  (upper case, the decimal point) or from wxWidgets (UTF-8, regular expressions) is a parameter. The
  arithmetic of \<^verbatim>\<open>int\<close> is checked: \<open>None\<close> is an overflow, which C++ leaves undefined, or a null pointer.
\<close>

section \<open>Strings of code points\<close>

type_synonym wxUniChar = nat
type_synonym wxString = "wxUniChar list"

definition ch :: "char \<Rightarrow> wxUniChar" where
  "ch c = of_char c"

definition wxT :: "string \<Rightarrow> wxString" where
  "wxT s = map ch s"

lemma wxT_simps [simp]: "wxT [] = []" "wxT (c # s) = ch c # wxT s"
  by (simp_all add: wxT_def)

lemma ch_eq_iff [simp]: "ch c = ch d \<longleftrightarrow> c = d"
  by (simp add: ch_def)

text \<open>\<^verbatim>\<open>wxIsdigit\<close>: the decimal digits, in every locale.\<close>

definition wxIsdigit :: "wxUniChar \<Rightarrow> bool" where
  "wxIsdigit c \<longleftrightarrow> 48 \<le> c \<and> c \<le> 57"

text \<open>The characters before the first NUL, which is where a loop over a C string ends.\<close>

definition c_str :: "wxString \<Rightarrow> wxString" where
  "c_str s = takeWhile (\<lambda>c. c \<noteq> 0) s"

section \<open>Escaping\<close>

datatype ESCAPE_CONTEXT = CTX_NETNAME | CTX_LIBID | CTX_LEGACY_LIBID | CTX_IPC | CTX_QUOTED_STR | CTX_JS_STR
  | CTX_LINE | CTX_CSV | CTX_FILENAME | CTX_NO_SPACE

definition hex_digit :: "nat \<Rightarrow> wxUniChar" where
  "hex_digit d = (if d < 10 then 48 + d else 55 + d)"

fun hex_digits :: "nat \<Rightarrow> wxString" where
  "hex_digits n = (if n < 16 then [hex_digit n] else hex_digits (n div 16) @ [hex_digit (n mod 16)])"

text \<open>The format \<^verbatim>\<open>%4.4X\<close>.\<close>

definition hex4 :: "nat \<Rightarrow> wxString" where
  "hex4 n = replicate (4 - length (hex_digits n)) 48 @ hex_digits n"

definition is_eol :: "wxUniChar \<Rightarrow> bool" where
  "is_eol c \<longleftrightarrow> c = 10 \<or> c = 13"

definition escape_char :: "ESCAPE_CONTEXT \<Rightarrow> wxUniChar \<Rightarrow> wxString" where
  "escape_char aContext c =
     (if aContext = CTX_NETNAME
      then (if c = ch CHR ''/'' then wxT ''{slash}'' else if is_eol c then [] else [c])
      else if aContext = CTX_LIBID \<or> aContext = CTX_LEGACY_LIBID
      then (if c = ch CHR ''/'' \<and> aContext = CTX_LEGACY_LIBID then wxT ''{slash}''
            else if c = ch CHR 0x5C then wxT ''{backslash}''
            else if c = ch CHR ''<'' then wxT ''{lt}''
            else if c = ch CHR ''>'' then wxT ''{gt}''
            else if c = ch CHR '':'' then wxT ''{colon}''
            else if c = ch CHR 0x22 then wxT ''{dblquote}''
            else if is_eol c then [] else [c])
      else if aContext = CTX_IPC
      then (if c = ch CHR ''/'' then wxT ''{slash}''
            else if c = ch CHR '','' then wxT ''{comma}''
            else if c = ch CHR 0x22 then wxT ''{dblquote}'' else [c])
      else if aContext = CTX_QUOTED_STR
      then (if c = ch CHR 0x22 then wxT ''{dblquote}'' else [c])
      else if aContext = CTX_JS_STR
      then (if c \<ge> 0x7F \<or> c = ch CHR 0x27 \<or> c = ch CHR 0x5C \<or> c = ch CHR ''('' \<or> c = ch CHR '')''
            then ch CHR 0x5C # ch CHR ''u'' # hex4 c else [c])
      else if aContext = CTX_LINE
      then (if is_eol c then wxT ''{return}'' else [c])
      else if aContext = CTX_FILENAME
      then (if c = ch CHR ''/'' then wxT ''{slash}''
            else if c = ch CHR 0x5C then wxT ''{backslash}''
            else if c = ch CHR 0x22 then wxT ''{dblquote}''
            else if c = ch CHR ''<'' then wxT ''{lt}''
            else if c = ch CHR ''>'' then wxT ''{gt}''
            else if c = ch CHR ''|'' then wxT ''{bar}''
            else if c = ch CHR '':'' then wxT ''{colon}''
            else if c = 9 then wxT ''{tab}''
            else if is_eol c then wxT ''{return}'' else [c])
      else if aContext = CTX_NO_SPACE
      then (if c = ch CHR '' '' then wxT ''{space}'' else [c])
      else if aContext = CTX_CSV
      then (if c = ch CHR '','' then wxT ''{comma}'' else if is_eol c then wxT ''{return}'' else [c])
      else [c])"

definition EscapeString :: "wxString \<Rightarrow> ESCAPE_CONTEXT \<Rightarrow> wxString" where
  "EscapeString aSource aContext = concat (map (escape_char aContext) aSource)"

text \<open>
  What stands between a brace and the one that closes it, the rest behind it, the last character read, and
  whether the closing brace was found.
\<close>

fun scan_braces :: "nat \<Rightarrow> wxUniChar \<Rightarrow> wxString \<Rightarrow> wxString \<times> wxString \<times> wxUniChar \<times> bool" where
  "scan_braces depth c0 [] = ([], [], c0, False)"
| "scan_braces depth c0 (c # cs) =
     (let depth = (if c = ch CHR ''{'' then depth + 1 else if c = ch CHR ''}'' then depth - 1 else depth)
      in if depth = 0 then ([], cs, c, True)
         else case scan_braces depth c cs of (token, rest) \<Rightarrow> (c # token, rest))"

lemma scan_braces_length:
  "scan_braces depth c0 cs = (token, rest, l, t) \<Longrightarrow> length token + length rest \<le> length cs"
  by (induction depth c0 cs arbitrary: token rest l t rule: scan_braces.induct) (auto simp: Let_def split: if_splits prod.splits)

definition token_char :: "wxString \<Rightarrow> wxUniChar option" where
  "token_char token =
     (if token = wxT ''dblquote'' then Some (ch CHR 0x22)
      else if token = wxT ''quote'' then Some (ch CHR 0x27)
      else if token = wxT ''lt'' then Some (ch CHR ''<'')
      else if token = wxT ''gt'' then Some (ch CHR ''>'')
      else if token = wxT ''backslash'' then Some (ch CHR 0x5C)
      else if token = wxT ''slash'' then Some (ch CHR ''/'')
      else if token = wxT ''bar'' then Some (ch CHR ''|'')
      else if token = wxT ''comma'' then Some (ch CHR '','')
      else if token = wxT ''colon'' then Some (ch CHR '':'')
      else if token = wxT ''space'' then Some (ch CHR '' '')
      else if token = wxT ''dollar'' then Some (ch CHR ''$'')
      else if token = wxT ''tab'' then Some 9
      else if token = wxT ''return'' then Some 10
      else if token = wxT ''brace'' then Some (ch CHR ''{'')
      else None)"

definition starts_markup :: "wxUniChar \<Rightarrow> bool" where
  "starts_markup prev \<longleftrightarrow> prev = ch CHR ''$'' \<or> prev = ch CHR ''~'' \<or> prev = ch CHR ''^'' \<or> prev = ch CHR ''_''"

text \<open>The loop gets the character that it read last.\<close>

function (sequential) UnescapeString :: "wxString \<Rightarrow> wxString"
  and unescape_loop :: "wxUniChar \<Rightarrow> wxString \<Rightarrow> wxString" where
  "UnescapeString aSource = (if length aSource \<le> 2 then aSource else unescape_loop 0 aSource)"
| "unescape_loop prev [] = []"
| "unescape_loop prev (c # cs) =
     (if c = ch CHR ''{'' then
        (case scan_braces 1 c cs of (token, rest, l, terminated) \<Rightarrow>
           (if \<not> terminated then ch CHR ''{'' # UnescapeString token
            else if starts_markup prev then ch CHR ''{'' # UnescapeString token @ [ch CHR ''}'']
            else case token_char token of
                   Some x \<Rightarrow> [x]
                 | None \<Rightarrow> ch CHR ''{'' # UnescapeString token @ [ch CHR ''}''])
           @ unescape_loop l rest)
      else c # unescape_loop c cs)"
  by pat_completeness auto
termination
  by (relation "measure (case_sum (\<lambda>s. 2 * length s + 1) (\<lambda>(p, s). 2 * length s))")
    (auto dest!: sym [of "(_, _)" "scan_braces _ _ _"] scan_braces_length)

section \<open>Delimited text\<close>

text \<open>
  The bytes between two quotes without their escapes, and how many bytes were read; the list ends where the
  NUL is, which is read as well.
\<close>

fun read_delimited :: "bool \<Rightarrow> string \<Rightarrow> string \<times> nat" where
  "read_delimited inside [] = ([], 1)"
| "read_delimited inside (cc # src) =
     (if cc = QUOTE then
        (if inside then ([], 1)
         else case read_delimited True src of (utf8, n) \<Rightarrow> (utf8, n + 1))
      else if inside then
        (if cc = BACKSLASH then
           (case src of
              [] \<Rightarrow> ([], 2)
            | c # src' \<Rightarrow> (case read_delimited True src' of (utf8, n) \<Rightarrow>
                ((if c \<noteq> QUOTE \<and> c \<noteq> BACKSLASH then [BACKSLASH] else []) @ c # utf8, n + 2)))
         else case read_delimited True src of (utf8, n) \<Rightarrow> (cc # utf8, n + 1))
      else case read_delimited False src of (utf8, n) \<Rightarrow> (utf8, n + 1))"

definition ReadDelimitedText :: "(string \<Rightarrow> wxString) \<Rightarrow> string \<Rightarrow> wxString \<times> nat" where
  "ReadDelimitedText from_utf8 aSource = (case read_delimited False aSource of (utf8, n) \<Rightarrow> (from_utf8 utf8, n))"

text \<open>The same into a buffer; \<open>room\<close> is the space that is left before the last byte.\<close>

fun read_limited :: "nat \<Rightarrow> bool \<Rightarrow> string \<Rightarrow> string \<times> nat" where
  "read_limited room inside [] = ([], 1)"
| "read_limited room inside (cc # src) =
     (if room = 0 then ([], 1)
      else if cc = QUOTE then
        (if inside then ([], 1)
         else case read_limited room True src of (dest, n) \<Rightarrow> (dest, n + 1))
      else if inside then
        (if cc = BACKSLASH then
           (case src of
              [] \<Rightarrow> ([], 2)
            | c # src' \<Rightarrow>
                let esc = (if c \<noteq> QUOTE \<and> c \<noteq> BACKSLASH then [BACKSLASH] else []);
                    put = esc @ (if length esc < room then [c] else [])
                in case read_limited (room - length put) True src' of (dest, n) \<Rightarrow> (put @ dest, n + 2))
         else case read_limited (room - 1) True src of (dest, n) \<Rightarrow> (cc # dest, n + 1))
      else case read_limited room False src of (dest, n) \<Rightarrow> (dest, n + 1))"

text \<open>What is written to the buffer, with the NUL at its end, and how many bytes were read.\<close>

definition ReadDelimitedText_buf :: "string \<Rightarrow> int \<Rightarrow> string \<times> nat" where
  "ReadDelimitedText_buf aSource aDestSize =
     (if aDestSize \<le> 0 then ([], 0)
      else case read_limited (nat aDestSize - 1) False aSource of (dest, n) \<Rightarrow> (dest @ [NUL], n))"

text \<open>The new-lines are replaced in a copy of the string that is not used.\<close>

definition escape_byte :: "char \<Rightarrow> string" where
  "escape_byte c = (if c = QUOTE then [BACKSLASH, QUOTE] else if c = BACKSLASH then [BACKSLASH, BACKSLASH] else [c])"

definition EscapedUTF8 :: "(wxString \<Rightarrow> string) \<Rightarrow> wxString \<Rightarrow> string" where
  "EscapedUTF8 to_utf8 aString =
     (let utf8 = takeWhile (\<lambda>c. c \<noteq> NUL) (to_utf8 aString)
      in QUOTE # concat (map escape_byte utf8) @ [QUOTE])"

section \<open>HTML\<close>

definition EscapeHTML :: "wxString \<Rightarrow> wxString" where
  "EscapeHTML aString = concat (map (\<lambda>c.
     if c = ch CHR 0x22 then wxT ''&quot;''
     else if c = ch CHR 0x27 then wxT ''&apos;''
     else if c = ch CHR ''&'' then wxT ''&amp;''
     else if c = ch CHR ''<'' then wxT ''&lt;''
     else if c = ch CHR ''>'' then wxT ''&gt;''
     else [c]) aString)"

text \<open>
  A match of the pattern \<^verbatim>\<open>&#(\d*);\<close> is its start, its length and its digits; the value of the digits is
  \<open>None\<close> when there is no number that fits. The entities are replaced in a copy that is not used.
\<close>

partial_function (option) unescape_codes ::
    "(wxString \<Rightarrow> (nat \<times> nat \<times> wxString) option) \<Rightarrow> (wxString \<Rightarrow> nat option) \<Rightarrow> wxString \<Rightarrow> wxString \<Rightarrow> wxString option" where
  "unescape_codes regex to_ulong str result =
     (case regex str of
        None \<Rightarrow> Some (result @ str)
      | Some (start, len, code) \<Rightarrow>
          let codeVal = (case to_ulong code of None \<Rightarrow> 0 | Some v \<Rightarrow> v);
              result = result @ take start str @ (if codeVal \<noteq> 0 then [codeVal mod 2 ^ 32] else [])
          in unescape_codes regex to_ulong (drop (start + len) str) result)"

definition UnescapeHTML ::
    "(wxString \<Rightarrow> (nat \<times> nat \<times> wxString) option) \<Rightarrow> (wxString \<Rightarrow> nat option) \<Rightarrow> wxString \<Rightarrow> wxString option" where
  "UnescapeHTML regex to_ulong aString = unescape_codes regex to_ulong aString []"

section \<open>Notation\<close>

text \<open>The flag says whether an overbar is open; \<open>None\<close> is the early return of the old string.\<close>

fun convert_overbar :: "bool \<Rightarrow> wxString \<Rightarrow> wxString option" where
  "convert_overbar inOverbar [] = Some (if inOverbar then wxT ''}'' else [])"
| "convert_overbar inOverbar (c # cs) =
     (if c = ch CHR ''~'' then
        (case cs of
           d # ds \<Rightarrow>
             (if d = ch CHR ''~'' then
                (case ds of
                   e # es \<Rightarrow> if e = ch CHR ''{'' then map_option (\<lambda>r. wxT ''~~{}'' @ r) (convert_overbar inOverbar cs)
                            else map_option (\<lambda>r. wxT ''~'' @ r) (convert_overbar inOverbar ds)
                 | [] \<Rightarrow> map_option (\<lambda>r. wxT ''~'' @ r) (convert_overbar inOverbar ds))
              else if d = ch CHR ''{'' then None
              else map_option (\<lambda>r. (if inOverbar then wxT ''}'' else wxT ''~{'') @ r) (convert_overbar (\<not> inOverbar) cs))
         | [] \<Rightarrow> map_option (\<lambda>r. (if inOverbar then wxT ''}'' else wxT ''~{'') @ r) (convert_overbar (\<not> inOverbar) cs))
      else if (c = ch CHR '' '' \<or> c = ch CHR ''}'' \<or> c = ch CHR '')'') \<and> inOverbar
      then map_option (\<lambda>r. wxT ''}'' @ c # r) (convert_overbar False cs)
      else map_option (\<lambda>r. c # r) (convert_overbar inOverbar cs))"

definition ConvertToNewOverbarNotation :: "wxString \<Rightarrow> wxString" where
  "ConvertToNewOverbarNotation aOldStr =
     (if aOldStr = wxT ''~'' then aOldStr
      else case convert_overbar False aOldStr of None \<Rightarrow> aOldStr | Some newStr \<Rightarrow> newStr)"

definition smart_char :: "wxUniChar \<Rightarrow> wxUniChar" where
  "smart_char c =
     (if c = 0xB4 \<or> c = 0x2018 \<or> c = 0x2019 then ch CHR 0x27
      else if c = 0x201C \<or> c = 0x201D then ch CHR 0x22
      else if c = 0x2013 \<or> c = 0x2014 then ch CHR ''-''
      else c)"

definition ConvertSmartQuotesAndDashes :: "wxString \<Rightarrow> bool \<times> wxString" where
  "ConvertSmartQuotesAndDashes aString = (list_ex (\<lambda>c. smart_char c \<noteq> c) aString, map smart_char aString)"

end
