(* ===== verification/StringOps.thy ===== *)
theory StringOps
  imports StringUtils
begin

text \<open>
  Comparing, matching, splitting and cleaning strings: the rest of \<^verbatim>\<open>common/string_utils.cpp\<close> and
  \<^verbatim>\<open>include/string_utils.h\<close>.
\<close>

section \<open>Comparing\<close>

text \<open>
  The value of a run of digits, in an \<^verbatim>\<open>int\<close>, and what comes behind it; the code of the digit is added before the
  one of 0 is subtracted.
\<close>

fun read_number :: "int \<Rightarrow> wxString \<Rightarrow> (int \<times> wxString) option" where
  "read_number nb [] = Some (nb, [])"
| "read_number nb (c # cs) =
     (if wxIsdigit c
      then (let nb = nb * 10 + int c in if is_int32 nb then read_number (nb - 48) cs else None)
      else Some (nb, c # cs))"

lemma read_number_length: "read_number nb s = Some (n, r) \<Longrightarrow> length r \<le> length s"
  by (induction s arbitrary: nb) (fastforce simp: Let_def split: if_splits)+

text \<open>The comparison of two characters, 0 when they are equal.\<close>

definition char_cmp :: "(wxUniChar \<Rightarrow> wxUniChar) \<Rightarrow> bool \<Rightarrow> wxUniChar \<Rightarrow> wxUniChar \<Rightarrow> int" where
  "char_cmp wxToupper aIgnoreCase c1 c2 =
     (if aIgnoreCase
      then (if c1 \<noteq> c2
            then let uc1 = wxToupper c1; uc2 = wxToupper c2
                 in if uc1 \<noteq> uc2 then (if uc1 < uc2 then - 1 else 1) else 0
            else 0)
      else if c1 < c2 then - 1 else if c1 > c2 then 1 else 0)"

definition char_or_end :: "wxString \<Rightarrow> wxUniChar" where
  "char_or_end s = (case s of [] \<Rightarrow> 0 | c # _ \<Rightarrow> c)"

function (sequential) StrNumCmp :: "(wxUniChar \<Rightarrow> wxUniChar) \<Rightarrow> wxString \<Rightarrow> wxString \<Rightarrow> bool \<Rightarrow> int option" where
  "StrNumCmp wxToupper (c1 # str1) (c2 # str2) aIgnoreCase =
     (if wxIsdigit c1 \<and> wxIsdigit c2 then
        (case (read_number 0 (c1 # str1), read_number 0 (c2 # str2)) of
           (Some (nb1, rest1), Some (nb2, rest2)) \<Rightarrow>
             (if nb1 < nb2 then Some (- 1)
              else if nb1 > nb2 then Some 1
              else let r = char_cmp wxToupper aIgnoreCase (char_or_end rest1) (char_or_end rest2)
                   in if r \<noteq> 0 then Some r else StrNumCmp wxToupper (tl rest1) (tl rest2) aIgnoreCase)
         | _ \<Rightarrow> None)
      else let r = char_cmp wxToupper aIgnoreCase c1 c2
           in if r \<noteq> 0 then Some r else StrNumCmp wxToupper str1 str2 aIgnoreCase)"
| "StrNumCmp wxToupper [] (c2 # str2) aIgnoreCase = Some (- 1)"
| "StrNumCmp wxToupper (c1 # str1) [] aIgnoreCase = Some 1"
| "StrNumCmp wxToupper [] [] aIgnoreCase = Some 0"
  by pat_completeness auto
termination
  by (relation "measure (\<lambda>(u, s1, s2, i). length s1)")
    (auto simp: Let_def less_Suc_eq_le le_diff_conv split: if_splits dest!: read_number_length [OF sym])

section \<open>Wildcards\<close>

text \<open>
  The second loop: \<open>mp\<close> and \<open>cp\<close> are where the search goes on after a mismatch, behind the last star and
  behind the character where it was tried last; before the first star they are null pointers.
\<close>

function (sequential) wild_loop :: "wxString \<Rightarrow> wxString \<Rightarrow> (wxString \<times> wxString) option \<Rightarrow> (bool \<times> wxString) option" where
  "wild_loop wild [] mpcp = Some (False, wild)"
| "wild_loop wild (c # str) mpcp =
     (case wild of
        w # wild' \<Rightarrow>
          (if w = ch CHR ''*'' then (if wild' = [] then Some (True, []) else wild_loop wild' (c # str) (Some (wild', str)))
           else if w = c \<or> w = ch CHR ''?'' then wild_loop wild' str mpcp
           else (case mpcp of None \<Rightarrow> None | Some (mp, cp) \<Rightarrow> wild_loop mp cp (Some (mp, tl cp))))
      | [] \<Rightarrow> (case mpcp of None \<Rightarrow> None | Some (mp, cp) \<Rightarrow> wild_loop mp cp (Some (mp, tl cp))))"
  by pat_completeness auto
termination
proof -
  let ?cp = "\<lambda>m. case m of None \<Rightarrow> 0 | Some (mp, cp) \<Rightarrow> length cp + 1"
  let ?m = "\<lambda>(w, s, m). if s = [] then 0 else max (?cp m) (length s)"
  show ?thesis
    by (relation "measures [?m, \<lambda>(w, s, m). length w]") (auto simp: max_def split: list.splits option.splits)
qed

text \<open>The first loop goes to the first star; \<open>None\<close> is the early return.\<close>

fun wild_start :: "wxString \<Rightarrow> wxString \<Rightarrow> (wxString \<times> wxString) option" where
  "wild_start wild [] = Some (wild, [])"
| "wild_start [] (c # str) = None"
| "wild_start (w # wild) (c # str) =
     (if w = ch CHR ''*'' then Some (w # wild, c # str)
      else if w \<noteq> c \<and> w \<noteq> ch CHR ''?'' then None
      else wild_start wild str)"

definition WildCompareString :: "(wxUniChar \<Rightarrow> wxUniChar) \<Rightarrow> wxString \<Rightarrow> wxString \<Rightarrow> bool \<Rightarrow> bool option" where
  "WildCompareString wxToupper pattern string_to_tst case_sensitive =
     (let wild = c_str (if case_sensitive then pattern else map wxToupper pattern);
          str = c_str (if case_sensitive then string_to_tst else map wxToupper string_to_tst)
      in case wild_start wild str of
           None \<Rightarrow> Some False
         | Some (wild, str) \<Rightarrow>
             map_option (\<lambda>(found, wild). found \<or> dropWhile (\<lambda>w. w = ch CHR ''*'') wild = []) (wild_loop wild str None))"

section \<open>Numbers in strings\<close>

text \<open>From \<open>i\<close> downwards as long as the character before it satisfies \<open>P\<close>.\<close>

fun back_while :: "(wxUniChar \<Rightarrow> bool) \<Rightarrow> wxString \<Rightarrow> nat \<Rightarrow> nat" where
  "back_while P s 0 = 0"
| "back_while P s (Suc i) = (if P (s ! i) then back_while P s i else Suc i)"

definition is_separator :: "wxUniChar \<Rightarrow> bool" where
  "is_separator c \<longleftrightarrow> c = ch CHR ''.'' \<or> c = ch CHR '',''"

definition SplitString :: "wxString \<Rightarrow> wxString \<times> wxString \<times> wxString" where
  "SplitString strToSplit =
     (if length strToSplit = 0 then ([], [], [])
      else let position = back_while (\<lambda>c. \<not> wxIsdigit c) strToSplit (length strToSplit)
           in if position = 0 then (strToSplit, [], [])
              else let start = back_while (\<lambda>c. wxIsdigit c \<or> is_separator c) strToSplit position
                   in (take start strToSplit, take (position - start) (drop start strToSplit), drop position strToSplit))"

text \<open>The digits from the last one on.\<close>

fun trailing_loop :: "int \<Rightarrow> int \<Rightarrow> wxString \<Rightarrow> int option" where
  "trailing_loop number base [] = Some number"
| "trailing_loop number base (c # cs) =
     (if c < 48 \<or> c > 57 then Some number
      else let n = number + (int c - 48) * base; b = base * 10
           in if is_int32 ((int c - 48) * base) \<and> is_int32 n \<and> is_int32 b then trailing_loop n b cs else None)"

definition GetTrailingInt :: "wxString \<Rightarrow> int option" where
  "GetTrailingInt aStr = trailing_loop 0 1 (rev aStr)"

text \<open>\<^verbatim>\<open>Find\<close> answers - 1 when there is no separator, which becomes an \<^verbatim>\<open>unsigned\<close>.\<close>

definition wx_Find :: "wxUniChar \<Rightarrow> wxString \<Rightarrow> int" where
  "wx_Find c s = (if c \<in> set s then int (length (takeWhile (\<lambda>d. d \<noteq> c) s)) else - 1)"

function strip_zeros :: "nat \<Rightarrow> wxString \<Rightarrow> wxString" where
  "strip_zeros min_len s = (if length s > min_len \<and> last s = 48 then strip_zeros min_len (butlast s) else s)"
  by pat_completeness auto
termination by (relation "measure (\<lambda>(m, s). length s)") auto

declare strip_zeros.simps [simp del]

definition StripTrailingZeros :: "wxUniChar \<Rightarrow> nat \<Rightarrow> wxString \<Rightarrow> wxString" where
  "StripTrailingZeros sep aTrailingZeroAllowed aStringValue =
     (let sep_pos = uint32_of (wx_Find sep aStringValue)
      in if sep_pos > 0 then strip_zeros ((sep_pos + aTrailingZeroAllowed + 1) mod 2 ^ 32) aStringValue else aStringValue)"

record SEPARATORS =
  sp_ambiguous :: wxUniChar
  sp_thousands :: wxUniChar
  sp_thousandsFound :: bool
  sp_decimal :: wxUniChar
  sp_decimalFound :: bool
  sp_digits :: nat

text \<open>One character, with the ones before it in reverse; \<open>None\<close> is \<^verbatim>\<open>return false\<close>.\<close>

definition unknown_sep :: wxUniChar where "unknown_sep = ch CHR ''?''"

definition other_sep :: "wxUniChar \<Rightarrow> wxUniChar" where
  "other_sep c = (if c = ch CHR ''.'' then ch CHR '','' else ch CHR ''.'')"

definition seen_separator :: "wxUniChar \<Rightarrow> wxString \<Rightarrow> SEPARATORS \<Rightarrow> SEPARATORS option" where
  "seen_separator c before s =
     (if sp_decimal s \<noteq> unknown_sep \<or> sp_thousands s \<noteq> unknown_sep then
        (if c = sp_decimal s
         then (if sp_thousandsFound s then None else if sp_decimalFound s then None else Some (s\<lparr> sp_decimalFound := True \<rparr>))
         else if c = sp_thousands s
         then (if sp_digits s \<noteq> 3 then None else Some (s\<lparr> sp_thousandsFound := True \<rparr>))
         else Some s)
      else if sp_ambiguous s \<noteq> unknown_sep then
        (if c = sp_ambiguous s
         then Some (s\<lparr> sp_thousands := sp_ambiguous s, sp_thousandsFound := True, sp_decimal := other_sep c \<rparr>)
         else Some (s\<lparr> sp_decimal := sp_ambiguous s, sp_decimalFound := True, sp_thousands := c, sp_thousandsFound := True \<rparr>))
      else if before = [48] \<or> sp_digits s \<noteq> 3
      then Some (s\<lparr> sp_decimal := c, sp_decimalFound := True, sp_thousands := other_sep c \<rparr>)
      else Some (s\<lparr> sp_ambiguous := c \<rparr>))"

fun separators_loop :: "wxString \<Rightarrow> SEPARATORS \<Rightarrow> SEPARATORS option" where
  "separators_loop [] s = Some s"
| "separators_loop (c # before) s =
     (if wxIsdigit c then separators_loop before (s\<lparr> sp_digits := sp_digits s + 1 \<rparr>)
      else if is_separator c
      then Option.bind (seen_separator c before s) (\<lambda>s. separators_loop before (s\<lparr> sp_digits := 0 \<rparr>))
      else separators_loop before (s\<lparr> sp_digits := 0 \<rparr>))"

definition convertSeparators :: "wxUniChar \<Rightarrow> wxString \<Rightarrow> bool \<times> wxString" where
  "convertSeparators decimal_point value =
     (let value = filter (\<lambda>c. c \<noteq> ch CHR '' '') value
      in case separators_loop (rev value) \<lparr> sp_ambiguous = unknown_sep, sp_thousands = unknown_sep, sp_thousandsFound = False,
             sp_decimal = unknown_sep, sp_decimalFound = False, sp_digits = 0 \<rparr> of
           None \<Rightarrow> (False, value)
         | Some s \<Rightarrow>
             let (dec, thou) = (if sp_decimal s = unknown_sep \<and> sp_thousands s = unknown_sep
                                then (decimal_point, other_sep decimal_point) else (sp_decimal s, sp_thousands s))
             in (True, map (\<lambda>c. if c = dec then ch CHR ''.'' else c) (filter (\<lambda>c. c \<noteq> thou) value)))"

section \<open>File names\<close>

definition illegalFileNameChars :: string where
  "illegalFileNameChars = [BACKSLASH, CHR ''/'', CHR '':'', QUOTE, CHR ''<'', CHR ''>'', CHR ''|'']"

definition hex_lower :: "nat \<Rightarrow> wxUniChar" where
  "hex_lower d = (if d < 10 then 48 + d else 87 + d)"

text \<open>The format \<^verbatim>\<open>%%%02x\<close> of a byte.\<close>

definition percent_hex :: "nat \<Rightarrow> wxString" where
  "percent_hex n = [ch CHR ''%'', hex_lower (n div 16), hex_lower (n mod 16)]"

text \<open>\<^verbatim>\<open>strchr\<close> finds the NUL at the end of the list as well.\<close>

definition replace_illegal_byte :: "int \<Rightarrow> char \<Rightarrow> string" where
  "replace_illegal_byte aReplaceChar c =
     (if c \<in> set illegalFileNameChars \<or> c = NUL
      then (if aReplaceChar \<noteq> 0 then [char_of (nat (aReplaceChar mod 256))] else map char_of (percent_hex (of_char c)))
      else [c])"

definition ReplaceIllegalFileNameChars :: "string \<Rightarrow> int \<Rightarrow> bool \<times> string" where
  "ReplaceIllegalFileNameChars aName aReplaceChar =
     (let changed = list_ex (\<lambda>c. c \<in> set illegalFileNameChars \<or> c = NUL) aName;
          result = concat (map (replace_illegal_byte aReplaceChar) aName)
      in (changed, if changed then result else aName))"

definition GetIllegalFileNameWxChars :: wxString where
  "GetIllegalFileNameWxChars = wxT illegalFileNameChars"

definition replace_illegal_char :: "nat \<Rightarrow> wxUniChar \<Rightarrow> wxString" where
  "replace_illegal_char aReplaceChar c =
     (if c \<in> set GetIllegalFileNameWxChars then (if aReplaceChar \<noteq> 0 then [aReplaceChar] else percent_hex c) else [c])"

definition ReplaceIllegalFileNameChars_wx :: "wxString \<Rightarrow> nat \<Rightarrow> bool \<times> wxString" where
  "ReplaceIllegalFileNameChars_wx aName aReplaceChar =
     (let changed = list_ex (\<lambda>c. c \<in> set GetIllegalFileNameWxChars) aName;
          result = concat (map (replace_illegal_char aReplaceChar) aName)
      in (changed, if changed then result else aName))"

section \<open>Splitting\<close>

fun split_loop :: "wxUniChar \<Rightarrow> wxString \<Rightarrow> wxString \<Rightarrow> wxString list" where
  "split_loop aSplitter tmp [] = (if tmp = [] then [] else [tmp])"
| "split_loop aSplitter tmp (c # cs) =
     (if c = aSplitter then tmp # split_loop aSplitter [] cs else split_loop aSplitter (tmp @ [c]) cs)"

definition wxStringSplit :: "wxString \<Rightarrow> wxString list \<Rightarrow> wxUniChar \<Rightarrow> wxString list" where
  "wxStringSplit aText aStrings aSplitter = aStrings @ split_loop aSplitter [] aText"

text \<open>The text from \<open>last_pos\<close> on; the loop ends when the end of the string was found.\<close>

function split_tokens :: "string \<Rightarrow> string \<Rightarrow> string list" where
  "split_tokens aDelim s =
     (let len = length (takeWhile (\<lambda>c. c \<notin> set aDelim) s)
      in if len = length s then [s] else take len s # split_tokens aDelim (drop (len + 1) s))"
  by pat_completeness auto
termination
  by (relation "measure (\<lambda>(d, s). length s)") (auto, metis diff_less length_greater_0_conv list.size(3) takeWhile.simps(1) zero_less_Suc)

declare split_tokens.simps [simp del]

definition split_string :: "string \<Rightarrow> string \<Rightarrow> string list" where
  "split_string aStr aDelim = (if aStr = [] then [] else split_tokens aDelim aStr)"

definition AccumulateDescription :: "wxString \<Rightarrow> wxString \<Rightarrow> wxString" where
  "AccumulateDescription aDesc aItem = (if aDesc \<noteq> [] then aDesc @ wxT '', '' else aDesc) @ aItem"

definition TitleCaps :: "(wxString \<Rightarrow> wxString) \<Rightarrow> wxString \<Rightarrow> wxString" where
  "TitleCaps wxCapitalize aString =
     fold (\<lambda>word result. (if result \<noteq> [] then result @ wxT '' '' else result) @ wxCapitalize word)
       (wxStringSplit aString [] (ch CHR '' '')) []"

text \<open>Sorting from the rear: the loops over the reversed strings.\<close>

fun rsort_loop :: "wxString \<Rightarrow> wxString \<Rightarrow> bool" where
  "rsort_loop (a # xs) (b # bs) = (if a = b then rsort_loop xs bs else a < b)"
| "rsort_loop xs [] = False"
| "rsort_loop [] (b # bs) = True"

definition rsort_wxString :: "wxString \<Rightarrow> wxString \<Rightarrow> bool" where
  "rsort_wxString strA strB =
     (if strA = [] then strB \<noteq> [] else if strB = [] then False else rsort_loop (rev strA) (rev strB))"

section \<open>White space and formatting\<close>

definition is_space :: "wxUniChar \<Rightarrow> bool" where
  "is_space c \<longleftrightarrow> c = 32 \<or> 9 \<le> c \<and> c \<le> 13"

definition NoPrintableChars :: "wxString \<Rightarrow> bool" where
  "NoPrintableChars aString = (dropWhile is_space (rev (dropWhile is_space (rev aString))) = [])"

definition StrPurge :: "string option \<Rightarrow> string option" where
  "StrPurge text = map_option (\<lambda>s.
     let s = dropWhile (\<lambda>c. is_space (of_char c)) s in rev (dropWhile (\<lambda>c. is_space (of_char c)) (rev s))) text"

text \<open>
  The formatting that is open: the depth of braces at which an overbar and a super- or subscript
  started, - 1 when there is none.
\<close>

fun count_printable :: "int \<Rightarrow> int \<Rightarrow> int \<Rightarrow> wxString \<Rightarrow> nat" where
  "count_printable overbarDepth superSubDepth braceNesting [] = 0"
| "count_printable overbarDepth superSubDepth braceNesting (c # cs) =
     (if c = 9 then count_printable overbarDepth superSubDepth braceNesting cs
      else if (c = ch CHR ''^'' \<or> c = ch CHR ''_'') \<and> superSubDepth = - 1
      then (if cs \<noteq> [] \<and> hd cs = ch CHR ''{''
            then count_printable overbarDepth braceNesting (braceNesting + 1) (tl cs)
            else 1 + count_printable overbarDepth superSubDepth braceNesting cs)
      else if c = ch CHR ''~'' \<and> overbarDepth = - 1
      then (if cs \<noteq> [] \<and> hd cs = ch CHR ''{''
            then count_printable braceNesting superSubDepth (braceNesting + 1) (tl cs)
            else 1 + count_printable overbarDepth superSubDepth braceNesting cs)
      else if c = ch CHR ''{'' then 1 + count_printable overbarDepth superSubDepth (braceNesting + 1) cs
      else if c = ch CHR ''}''
      then (let braceNesting = (if braceNesting > 0 then braceNesting - 1 else braceNesting)
            in if braceNesting = superSubDepth then count_printable overbarDepth (- 1) braceNesting cs
               else if braceNesting = overbarDepth then count_printable (- 1) superSubDepth braceNesting cs
               else 1 + count_printable overbarDepth superSubDepth braceNesting cs)
      else 1 + count_printable overbarDepth superSubDepth braceNesting cs)"

definition PrintableCharCount :: "wxString \<Rightarrow> nat" where
  "PrintableCharCount aString = count_printable (- 1) (- 1) 0 aString"

section \<open>Lines of a file\<close>

text \<open>\<^verbatim>\<open>fgets\<close>: at most \<open>aSize - 1\<close> bytes, up to a new-line; \<open>None\<close> is the end of the file.\<close>

definition C_fgets :: "nat \<Rightarrow> string \<Rightarrow> (string \<times> string) option" where
  "C_fgets aSize file =
     (if file = [] then None
      else let len = (if NL \<in> set file then length (takeWhile (\<lambda>c. c \<noteq> NL) file) + 1 else length file);
               n = min len (aSize - 1)
           in Some (take n file, drop n file))"

definition line_start :: "string \<Rightarrow> char" where
  "line_start line = (case line of [] \<Rightarrow> NUL | c # _ \<Rightarrow> c)"

text \<open>The next line that is no comment and not empty, its number and what is left of the file.\<close>

partial_function (option) GetLine :: "nat \<Rightarrow> nat \<Rightarrow> string \<Rightarrow> (string option \<times> nat \<times> string) option" where
  "GetLine SizeLine LineNum file =
     (case C_fgets SizeLine file of
        None \<Rightarrow> Some (None, LineNum, file)
      | Some (line, file') \<Rightarrow>
          if line_start line \<in> {CHR ''#'', NL, CR, NUL} then GetLine SizeLine (LineNum + 1) file'
          else Some (Some (takeWhile (\<lambda>c. c \<noteq> NL \<and> c \<noteq> CR \<and> c \<noteq> NUL) line), LineNum + 1, file'))"

section \<open>Values with units\<close>

text \<open>
  Floating point numbers and what depends on the locale: \<open>vp_scale k\<close> multiplies by the constant \<^verbatim>\<open>1.0e\<close>\<open>k\<close>,
  \<open>vp_to_double\<close> parses a number or keeps the old one, \<open>vp_CmpNoCase\<close> and \<open>vp_lower\<close> compare regardless of case.
\<close>

record 'd VALUE_PARAMS =
  vp_zero :: 'd
  vp_scale :: "int \<Rightarrow> 'd \<Rightarrow> 'd"
  vp_less :: "'d \<Rightarrow> 'd \<Rightarrow> bool"
  vp_to_double :: "wxString \<Rightarrow> 'd \<Rightarrow> 'd"
  vp_lower :: "wxUniChar \<Rightarrow> wxUniChar"
  vp_CmpNoCase :: "wxString \<Rightarrow> wxString \<Rightarrow> int"
  vp_decimal_point :: wxUniChar

definition trim_right :: "wxString \<Rightarrow> wxString" where
  "trim_right s = rev (dropWhile is_space (rev s))"

definition unit_modifiers :: wxString where
  "unit_modifiers = wxT ''pnu'' @ [0xB5, 0x3BC] @ wxT ''mkKM''"

definition is_unit :: "(wxUniChar \<Rightarrow> wxUniChar) \<Rightarrow> wxString \<Rightarrow> bool" where
  "is_unit lower units \<longleftrightarrow> list_ex (\<lambda>u. map lower units = map lower (wxT u)) [''F'', ''hz'', ''W'', ''V'', ''A'', ''H'']"

definition modifier_exponent :: "wxUniChar \<Rightarrow> int" where
  "modifier_exponent m =
     (if m = ch CHR ''p'' then - 12
      else if m = ch CHR ''n'' then - 9
      else if m = ch CHR ''u'' \<or> m = 0xB5 \<or> m = 0x3BC then - 6
      else if m = ch CHR ''m'' then - 3
      else if m = ch CHR ''k'' \<or> m = ch CHR ''K'' then 3
      else if m = ch CHR ''M'' then 6
      else if m = ch CHR ''G'' then 9
      else 0)"

definition ApplyModifier :: "'d VALUE_PARAMS \<Rightarrow> 'd \<Rightarrow> wxString \<Rightarrow> bool \<times> 'd" where
  "ApplyModifier vp value aString =
     (if length aString = 0 then (False, value)
      else let (modifier, units) = (if hd aString \<in> set unit_modifiers then (hd aString, trim_right (tl aString))
                                    else (ch CHR '' '', trim_right aString))
           in if length units \<noteq> 0 \<and> \<not> is_unit (vp_lower vp) units then (False, value)
              else (True, if modifier_exponent modifier = 0 then value else vp_scale vp (modifier_exponent modifier) value))"

definition ValueStringCompare :: "'d VALUE_PARAMS \<Rightarrow> wxString \<Rightarrow> wxString \<Rightarrow> int" where
  "ValueStringCompare vp strFWord strSWord =
     (case (SplitString (UnescapeString strFWord), SplitString (UnescapeString strSWord)) of
        ((fBeg, fMid, fEnd), (sBeg, sMid, sEnd)) \<Rightarrow>
          let isEqual = vp_CmpNoCase vp fBeg sBeg
          in if isEqual > 0 then 1 else if isEqual < 0 then - 1
             else let first = vp_to_double vp (snd (convertSeparators (vp_decimal_point vp) fMid)) (vp_zero vp);
                      second = vp_to_double vp (snd (convertSeparators (vp_decimal_point vp) sMid)) (vp_zero vp);
                      (m1, first) = ApplyModifier vp first fEnd;
                      (m2, second) = ApplyModifier vp second sEnd
                  in if vp_less vp second first then 1
                     else if vp_less vp first second then - 1
                     else if \<not> (m1 \<or> m2) then vp_CmpNoCase vp fEnd sEnd
                     else 0)"

text \<open>
  Numbers as text: the formats \<^verbatim>\<open>%.16f\<close> and \<^verbatim>\<open>%.10g\<close> are given, and whether the value is small and not 0.
\<close>

definition FormatDouble2Str :: "bool \<Rightarrow> string \<Rightarrow> string \<Rightarrow> string" where
  "FormatDouble2Str small f16 g10 =
     (if small
      then let buf = rev (dropWhile (\<lambda>c. c = CHR ''0'') (rev f16))
           in if buf \<noteq> [] \<and> last buf = CHR ''.'' then butlast buf else buf
      else g10)"

text \<open>The first byte is never removed as a zero, a decimal mark is.\<close>

definition UIDouble2Str :: "bool \<Rightarrow> string \<Rightarrow> string \<Rightarrow> string" where
  "UIDouble2Str small f16 g10 =
     (if small
      then case f16 of
             [] \<Rightarrow> []
           | c # cs \<Rightarrow>
               let buf = c # rev (dropWhile (\<lambda>c. c = CHR ''0'') (rev cs))
               in if last buf = CHR ''.'' \<or> last buf = CHR '','' then butlast buf else buf
      else g10)"

text \<open>The conversions are tried in order; an empty result is a failed one.\<close>

definition From_UTF8 :: "(string \<Rightarrow> wxString) \<Rightarrow> (string \<Rightarrow> wxString) \<Rightarrow> (string \<Rightarrow> wxString) \<Rightarrow> string \<Rightarrow> wxString" where
  "From_UTF8 from_utf8 current_locale from_8bit cstring =
     (let line = from_utf8 cstring
      in if line = [] then (let line = current_locale cstring in if line = [] then from_8bit cstring else line) else line)"

end
