(* ===== verification/StringProps.thy ===== *)
theory StringProps
  imports StringOps "HOL-Library.Sublist" "HOL-Library.List_Lexorder" "HOL-Library.Product_Lexorder"
begin

text \<open>
  What the string functions of \<^verbatim>\<open>common/string_utils.cpp\<close> compute: matching with wildcards, and comparing
  with numbers.
\<close>

section \<open>Wildcards\<close>

text \<open>A star stands for any characters, a question mark for any one.\<close>

function glob :: "wxString \<Rightarrow> wxString \<Rightarrow> bool" where
  "glob [] s = (s = [])"
| "glob (w # p) s =
     (if w = ch CHR ''*'' then glob p s \<or> (case s of [] \<Rightarrow> False | c # s' \<Rightarrow> glob (w # p) s')
      else (case s of [] \<Rightarrow> False | c # s' \<Rightarrow> (w = c \<or> w = ch CHR ''?'') \<and> glob p s'))"
  by pat_completeness auto
termination by (relation "measure (\<lambda>(p, s). length p + length s)") auto

declare glob.simps [simp del]

lemma glob_nil [simp]: "glob [] s \<longleftrightarrow> s = []"
  by (simp add: glob.simps)

lemma glob_one: "w \<noteq> ch CHR ''*'' \<Longrightarrow> glob (w # p) s \<longleftrightarrow> s \<noteq> [] \<and> (w = hd s \<or> w = ch CHR ''?'') \<and> glob p (tl s)"
  by (subst glob.simps) (simp split: list.split)

lemma glob_star: "glob (ch CHR ''*'' # p) s \<longleftrightarrow> (\<exists>t. suffix t s \<and> glob p t)"
proof (induction s)
  case Nil
  then show ?case by (subst glob.simps) simp
next
  case (Cons c s)
  have "glob (ch CHR ''*'' # p) (c # s) \<longleftrightarrow> glob p (c # s) \<or> (\<exists>t. suffix t s \<and> glob p t)"
    by (subst glob.simps) (simp add: Cons)
  then show ?case by (auto simp: suffix_Cons)
qed

text \<open>Behind a part without stars.\<close>

lemma glob_append:
  assumes "ch CHR ''*'' \<notin> set pre" and "glob (pre @ p) s"
  shows "\<exists>m u. s = m @ u \<and> length m = length pre \<and> glob p u"
  using assms
proof (induction pre arbitrary: s)
  case (Cons w pre)
  then have s: "s \<noteq> []" "glob (pre @ p) (tl s)" by (auto simp: glob_one)
  from Cons.IH [OF _ s(2)] Cons.prems(1) obtain m u where "tl s = m @ u" "length m = length pre" "glob p u" by auto
  then show ?case using s(1) by (intro exI [of _ "hd s # m"] exI [of _ u]) (cases s, auto)
qed simp

lemma glob_stars: "glob p [] \<longleftrightarrow> dropWhile (\<lambda>w. w = ch CHR ''*'') p = []"
proof (induction p)
  case (Cons w p)
  then show ?case by (subst glob.simps) auto
qed simp

text \<open>Where the search stands: the part of the pattern since the last star was matched since the try began.\<close>

definition retry :: "wxString \<Rightarrow> wxString \<Rightarrow> wxString \<Rightarrow> wxString \<Rightarrow> bool" where
  "retry wild str mp cp \<longleftrightarrow> str = [] \<and> cp = [] \<and> wild = mp \<or>
     (\<exists>pre m c. mp = pre @ wild \<and> ch CHR ''*'' \<notin> set pre \<and> length pre = length m \<and> c # cp = m @ str)"

definition accepts :: "bool \<times> wxString \<Rightarrow> bool" where
  "accepts r \<longleftrightarrow> fst r \<or> dropWhile (\<lambda>w. w = ch CHR ''*'') (snd r) = []"

lemma retry_end:
  assumes "retry wild [] mp cp" and "suffix t cp" and "glob mp t"
  shows "glob wild []"
  using assms(1) unfolding retry_def
proof (elim disjE)
  assume "\<exists>pre m c. mp = pre @ wild \<and> ch CHR ''*'' \<notin> set pre \<and> length pre = length m \<and> c # cp = m @ []"
  then obtain pre m c where p: "mp = pre @ wild" "ch CHR ''*'' \<notin> set pre" "length pre = length m" "c # cp = m" by auto
  obtain m' u where "t = m' @ u" "length m' = length pre" using glob_append [OF p(2)] assms(3) p(1) by blast
  then have "length pre \<le> length cp" using suffix_length_le [OF assms(2)] by simp
  moreover have "length cp < length pre" using p(3,4) by auto
  ultimately show ?thesis by simp
qed (use assms(2,3) in auto)

lemma retry_star:
  assumes "retry (ch CHR ''*'' # p) str mp cp" and "suffix t cp" and "glob mp t"
  shows "glob (ch CHR ''*'' # p) str"
  using assms(1) unfolding retry_def
proof (elim disjE)
  assume "\<exists>pre m c. mp = pre @ ch CHR ''*'' # p \<and> ch CHR ''*'' \<notin> set pre \<and> length pre = length m \<and> c # cp = m @ str"
  then obtain pre m c where r: "mp = pre @ ch CHR ''*'' # p" "ch CHR ''*'' \<notin> set pre" "length pre = length m" "c # cp = m @ str" by blast
  obtain m' u where u: "t = m' @ u" "length m' = length pre" "glob (ch CHR ''*'' # p) u" using glob_append [OF r(2)] assms(3) r(1) by blast
  have "suffix t (m @ str)" using assms(2) r(4) by (metis suffix_ConsI)
  then obtain v where v: "m @ str = v @ m' @ u" using u(1) by (auto simp: suffix_def)
  have "str = drop (length m) (v @ m' @ u)" using v by (metis append_eq_conv_conj)
  then have "str = drop (length m) (v @ m') @ u" using u(2) r(3) by simp
  then have "suffix u str" by (simp add: suffix_def)
  then show ?thesis using u(3) unfolding glob_star using suffix_order.trans by blast
qed (use assms(2,3) in auto)

text \<open>The answer that the loop is to give in a state.\<close>

definition goal :: "wxString \<Rightarrow> wxString \<Rightarrow> (wxString \<times> wxString) option \<Rightarrow> bool" where
  "goal wild str mpcp \<longleftrightarrow> glob wild str \<or> (case mpcp of None \<Rightarrow> False | Some (mp, cp) \<Rightarrow> \<exists>t. suffix t cp \<and> glob mp t)"

definition state_ok :: "wxString \<Rightarrow> wxString \<Rightarrow> (wxString \<times> wxString) option \<Rightarrow> bool" where
  "state_ok wild str mpcp \<longleftrightarrow> (case mpcp of None \<Rightarrow> str = [] \<or> (\<exists>p. wild = ch CHR ''*'' # p) | Some (mp, cp) \<Rightarrow> retry wild str mp cp)"

lemma step_back:
  assumes "\<not> glob wild str"
  shows "state_ok mp cp (Some (mp, tl cp))" "goal mp cp (Some (mp, tl cp)) \<longleftrightarrow> goal wild str (Some (mp, cp))"
proof -
  show "state_ok mp cp (Some (mp, tl cp))" by (cases cp) (auto simp: state_ok_def retry_def)
  show "goal mp cp (Some (mp, tl cp)) \<longleftrightarrow> goal wild str (Some (mp, cp))"
    using assms by (cases cp) (auto simp: goal_def suffix_Cons)
qed

lemma step_match:
  assumes "state_ok (w # wild) (c # str) mpcp" and "w \<noteq> ch CHR ''*''" and "w = c \<or> w = ch CHR ''?''"
  shows "state_ok wild str mpcp" "goal wild str mpcp \<longleftrightarrow> goal (w # wild) (c # str) mpcp"
proof -
  show "state_ok wild str mpcp"
  proof (cases mpcp)
    case None
    then show ?thesis using assms(1,2) by (simp add: state_ok_def)
  next
    case (Some x)
    obtain mp cp where x: "x = (mp, cp)" by fastforce
    then have "retry (w # wild) (c # str) mp cp" using assms(1) Some by (simp add: state_ok_def)
    then obtain pre m d where "mp = pre @ w # wild" "ch CHR ''*'' \<notin> set pre" "length pre = length m" "d # cp = m @ c # str"
      unfolding retry_def by blast
    then have "retry wild str mp cp"
      using assms(2) unfolding retry_def by (intro disjI2 exI [of _ "pre @ [w]"] exI [of _ "m @ [c]"] exI [of _ d]) simp
    then show ?thesis using Some x by (simp add: state_ok_def)
  qed
  show "goal wild str mpcp \<longleftrightarrow> goal (w # wild) (c # str) mpcp"
    using assms(2,3) by (auto simp: goal_def glob_one)
qed

lemma step_star:
  assumes "state_ok (ch CHR ''*'' # wild) (c # str) mpcp"
  shows "state_ok wild (c # str) (Some (wild, str))"
    "goal wild (c # str) (Some (wild, str)) \<longleftrightarrow> goal (ch CHR ''*'' # wild) (c # str) mpcp"
proof -
  show "state_ok wild (c # str) (Some (wild, str))" by (auto simp: state_ok_def retry_def)
  have "goal wild (c # str) (Some (wild, str)) \<longleftrightarrow> glob (ch CHR ''*'' # wild) (c # str)"
    by (auto simp: goal_def glob_star suffix_Cons)
  also have "\<dots> \<longleftrightarrow> goal (ch CHR ''*'' # wild) (c # str) mpcp"
    using assms retry_star by (auto simp: goal_def state_ok_def split: option.splits)
  finally show "goal wild (c # str) (Some (wild, str)) \<longleftrightarrow> goal (ch CHR ''*'' # wild) (c # str) mpcp" .
qed

lemma wild_loop_glob:
  assumes "state_ok wild str mpcp"
  shows "\<exists>r. wild_loop wild str mpcp = Some r \<and> (accepts r \<longleftrightarrow> goal wild str mpcp)"
  using assms
proof (induction wild str mpcp rule: wild_loop.induct)
  case (1 wild mpcp)
  then show ?case using retry_end glob_stars by (auto simp: accepts_def goal_def state_ok_def split: option.splits)
next
  case (2 wild c str mpcp)
  show ?case
  proof (cases wild)
    case Nil
    then obtain mp cp where m: "mpcp = Some (mp, cp)" using 2(5) by (cases mpcp) (auto simp: state_ok_def)
    have "\<not> glob wild (c # str)" using Nil by simp
    note b = step_back [OF this, of mp cp]
    from 2(1) [OF Nil m refl b(1)] b(2) show ?thesis using Nil m by simp
  next
    case (Cons w wild')
    consider "w = ch CHR ''*''" "wild' = []" | "w = ch CHR ''*''" "wild' \<noteq> []" | "w \<noteq> ch CHR ''*''" "w = c \<or> w = ch CHR ''?''"
      | "w \<noteq> ch CHR ''*''" "\<not> (w = c \<or> w = ch CHR ''?'')" by blast
    then show ?thesis
    proof cases
      case 1
      then have "glob wild (c # str)" using Cons by (auto simp: glob_star intro: exI [of _ "[]"])
      then show ?thesis using 1 Cons by (simp add: accepts_def goal_def)
    next
      case star: 2
      note s = step_star [OF 2(5) [unfolded Cons star(1)]]
      from 2(2) [OF Cons star s(1)] s(2) show ?thesis using Cons star by simp
    next
      case 3
      note s = step_match [OF 2(5) [unfolded Cons] 3]
      from 2(3) [OF Cons 3 s(1)] s(2) show ?thesis using Cons 3 by simp
    next
      case 4
      obtain mp cp where m: "mpcp = Some (mp, cp)" using 2(5) 4(1) Cons by (cases mpcp) (auto simp: state_ok_def)
      have "\<not> glob wild (c # str)" using 4 Cons by (simp add: glob_one)
      note b = step_back [OF this, of mp cp]
      from 2(4) [OF Cons 4 m refl b(1)] b(2) show ?thesis using Cons 4 m by simp
    qed
  qed
qed

lemma wild_start_glob:
  "case wild_start wild str of None \<Rightarrow> \<not> glob wild str | Some (w, s) \<Rightarrow> state_ok w s None \<and> (glob w s \<longleftrightarrow> glob wild str)"
  by (induction wild str rule: wild_start.induct) (auto simp: state_ok_def glob_one split: option.splits)

text \<open>
  C35. The search with one point to go back to decides whether a string matches a pattern of stars and question
  marks: it always returns, never uses a null pointer, and its answer is that of the recursive definition,
  on the characters before a NUL, in upper case unless case matters.
\<close>

theorem WildCompareString_glob:
  "WildCompareString wxToupper pattern str case_sensitive =
     (let f = if case_sensitive then id else map wxToupper in Some (glob (c_str (f pattern)) (c_str (f str))))"
proof -
  have "(case wild_start wild str of None \<Rightarrow> Some False
      | Some (w, s) \<Rightarrow> map_option (\<lambda>(found, w). found \<or> dropWhile (\<lambda>w. w = ch CHR ''*'') w = []) (wild_loop w s None)) = Some (glob wild str)"
    for wild str
  proof (cases "wild_start wild str")
    case None
    then show ?thesis using wild_start_glob [of wild str] by simp
  next
    case (Some x)
    obtain w s where x: "x = (w, s)" by fastforce
    then have s: "state_ok w s None" "glob w s \<longleftrightarrow> glob wild str" using wild_start_glob [of wild str] Some by simp_all
    obtain r where "wild_loop w s None = Some r" "accepts r \<longleftrightarrow> goal w s None" using wild_loop_glob [OF s(1)] by blast
    then show ?thesis using Some x s(2) by (simp add: accepts_def goal_def case_prod_beta)
  qed
  then show ?thesis by (simp add: WildCompareString_def Let_def)
qed

section \<open>Comparing with numbers\<close>

definition digits_value :: "wxString \<Rightarrow> int" where
  "digits_value ds = foldl (\<lambda>n c. n * 10 + (int c - 48)) 0 ds"

text \<open>
  A string as a list of runs of digits and other characters, in a linear order: a character by its code, a
  run of digits where digits are, by its value.
\<close>

function str_key :: "(wxUniChar \<Rightarrow> wxUniChar) \<Rightarrow> wxString \<Rightarrow> (nat \<times> int) list" where
  "str_key f [] = []"
| "str_key f (c # cs) =
     (if wxIsdigit c then (48, digits_value (takeWhile wxIsdigit (c # cs))) # str_key f (dropWhile wxIsdigit cs)
      else (f c, 0) # str_key f cs)"
  by pat_completeness auto
termination by (relation "measure (\<lambda>(f, s). length s)") (auto simp: le_imp_less_Suc length_dropWhile_le)

text \<open>All numbers fit an \<^verbatim>\<open>int\<close>, with room for the code of 0, and there is no NUL.\<close>

definition comparable :: "wxString \<Rightarrow> bool" where
  "comparable s \<longleftrightarrow> 0 \<notin> set s \<and> (\<forall>x \<in> set (str_key id s). snd x + 48 < 2 ^ 31)"

definition upper_ok :: "(wxUniChar \<Rightarrow> wxUniChar) \<Rightarrow> bool" where
  "upper_ok u \<longleftrightarrow> (\<forall>c. wxIsdigit c \<longrightarrow> u c = c) \<and> (\<forall>c. wxIsdigit (u c) \<longrightarrow> wxIsdigit c) \<and> (\<forall>c. u c = 0 \<longleftrightarrow> c = 0)"

lemma read_number_value:
  assumes "0 \<le> nb" and "foldl (\<lambda>n c. n * 10 + (int c - 48)) nb (takeWhile wxIsdigit s) + 48 < 2 ^ 31"
  shows "read_number nb s = Some (foldl (\<lambda>n c. n * 10 + (int c - 48)) nb (takeWhile wxIsdigit s), dropWhile wxIsdigit s)"
  using assms
proof (induction s arbitrary: nb)
  case (Cons c cs)
  let ?f = "\<lambda>n c. n * 10 + (int c - 48)"
  have grow: "n \<le> foldl ?f n ds" if "0 \<le> n" "\<forall>d \<in> set ds. wxIsdigit d" for n ds
    using that
  proof (induction ds arbitrary: n)
    case (Cons d ds)
    then have "0 \<le> int d - 48" by (simp add: wxIsdigit_def)
    then have "n \<le> ?f n d" "0 \<le> ?f n d" using Cons.prems(1) by simp_all
    moreover have "?f n d \<le> foldl ?f (?f n d) ds" using Cons.IH [OF calculation(2)] Cons.prems(2) by simp
    ultimately show ?case by simp
  qed simp
  show ?case
  proof (cases "wxIsdigit c")
    case True
    then have n: "0 \<le> ?f nb c" using Cons.prems(1) by (simp add: wxIsdigit_def)
    have f: "foldl ?f (?f nb c) (takeWhile wxIsdigit cs) + 48 < 2 ^ 31" using Cons.prems(2) True by simp
    moreover have "?f nb c \<le> foldl ?f (?f nb c) (takeWhile wxIsdigit cs)" by (rule grow [OF n]) (auto dest: set_takeWhileD)
    ultimately have "is_int32 (nb * 10 + int c)" using n by (simp add: is_int32_def)
    then show ?thesis using Cons.IH [OF n f] True by (simp add: Let_def algebra_simps)
  qed simp
qed simp

definition sign_of :: "'a :: linorder \<Rightarrow> 'a \<Rightarrow> int" where
  "sign_of x y = (if x < y then - 1 else if x = y then 0 else 1)"

lemma sign_of_Cons: "sign_of (x # xs) (y # ys) = (if sign_of x y \<noteq> 0 then sign_of x y else sign_of xs ys)"
  by (auto simp: sign_of_def)

lemma sign_of_pair: "sign_of (a, b) (c, d) = (if sign_of a c \<noteq> 0 then sign_of a c else sign_of b d)"
  by (auto simp: sign_of_def)

lemma sign_of_Nil [simp]: "sign_of [] (y # ys) = - 1" "sign_of (x # xs) [] = 1" "sign_of x x = 0"
  by (simp_all add: sign_of_def)

lemma sign_of_0 [simp]: "sign_of x y = 0 \<longleftrightarrow> x = y"
  by (simp add: sign_of_def)

lemma char_cmp_sign: "char_cmp u i a b = sign_of ((if i then u else id) a) ((if i then u else id) b)"
  by (auto simp: char_cmp_def sign_of_def Let_def)

lemma comparable_Cons:
  assumes "comparable (c # cs)"
  shows "wxIsdigit c \<Longrightarrow> digits_value (takeWhile wxIsdigit (c # cs)) + 48 < 2 ^ 31" "wxIsdigit c \<Longrightarrow> comparable (dropWhile wxIsdigit cs)"
    "\<not> wxIsdigit c \<Longrightarrow> comparable cs" "c \<noteq> 0"
  using assms set_dropWhileD [of _ wxIsdigit cs] by (auto simp: comparable_def)

lemma comparable_number:
  assumes "comparable (c # cs)" and "wxIsdigit c"
  shows "read_number 0 (c # cs) = Some (digits_value (takeWhile wxIsdigit (c # cs)), dropWhile wxIsdigit cs)"
  using read_number_value [of 0 "c # cs"] comparable_Cons(1) [OF assms] assms(2) by (simp add: digits_value_def)

lemma upper_okD:
  assumes "upper_ok u"
  shows "wxIsdigit c \<Longrightarrow> u c = c" "wxIsdigit (u c) \<longleftrightarrow> wxIsdigit c" "u c = 0 \<longleftrightarrow> c = 0"
proof -
  note ok = assms [unfolded upper_ok_def]
  note a = conjunct1 [OF ok] and b = conjunct1 [OF conjunct2 [OF ok]] and z = conjunct2 [OF conjunct2 [OF ok]]
  show "wxIsdigit c \<Longrightarrow> u c = c" by (rule mp [OF spec [OF a]])
  then show "wxIsdigit (u c) \<longleftrightarrow> wxIsdigit c" using mp [OF spec [OF b]] by metis
  show "u c = 0 \<longleftrightarrow> c = 0" by (rule spec [OF z])
qed

lemma upper_digits:
  assumes "upper_ok u" and "\<not> (wxIsdigit c \<and> wxIsdigit d)"
  shows "sign_of (u c) (u d) = sign_of (if wxIsdigit c then 48 else u c) (if wxIsdigit d then 48 else u d)"
proof -
  have far: "sign_of x y = sign_of 48 y" "sign_of y x = sign_of y 48" if "wxIsdigit x" "\<not> wxIsdigit y" for x y
    using that by (auto simp: wxIsdigit_def sign_of_def)
  note u = upper_okD(1,2) [OF assms(1)]
  consider "wxIsdigit c" "\<not> wxIsdigit d" | "\<not> wxIsdigit c" "wxIsdigit d" | "\<not> wxIsdigit c" "\<not> wxIsdigit d" using assms(2) by blast
  then show ?thesis
  proof cases
    case 1
    then show ?thesis using far(1) [of c "u d"] u(1) [of c] u(2) [of d] by simp
  next
    case 2
    then show ?thesis using far(2) [of d "u c"] u(1) [of d] u(2) [of c] by simp
  qed simp
qed

text \<open>Where no run of digits starts, the heads of the keys are characters.\<close>

lemma key_rest:
  assumes "upper_ok u" and "comparable s" "comparable t" and "s = [] \<or> \<not> wxIsdigit (hd s)" "t = [] \<or> \<not> wxIsdigit (hd t)"
  shows "sign_of (str_key u s) (str_key u t) =
    (let r = sign_of (u (char_or_end s)) (u (char_or_end t)) in if r \<noteq> 0 then r else sign_of (str_key u (tl s)) (str_key u (tl t)))"
proof -
  have u0: "u 0 = 0" "\<And>c. u c = 0 \<longleftrightarrow> c = 0" using upper_okD(3) [OF assms(1)] by simp_all
  have pos: "0 < u c" if "comparable (c # cs)" for c cs using comparable_Cons(4) [OF that] u0(2) by (metis gr0I)
  show ?thesis
  proof (cases s; cases t)
    fix c cs d ds assume st: "s = c # cs" "t = d # ds"
    then show ?thesis using assms(4,5) by (simp add: char_or_end_def sign_of_Cons sign_of_pair Let_def)
  next
    fix d ds assume st: "s = []" "t = d # ds"
    then have "sign_of (u 0) (u d) = - 1" using pos assms(3) u0(1) by (simp add: sign_of_def)
    then show ?thesis using st assms(5) by (simp add: char_or_end_def)
  next
    fix c cs assume st: "s = c # cs" "t = []"
    then have "sign_of (u c) (u 0) = 1" using pos assms(2) u0(1) by (auto simp: sign_of_def)
    then show ?thesis using st assms(4) by (simp add: char_or_end_def)
  qed simp
qed

lemma key_heads:
  assumes "sign_of (if wxIsdigit c then 48 else f c) (if wxIsdigit d then 48 else f d) \<noteq> 0"
  shows "sign_of (str_key f (c # cs)) (str_key f (d # ds)) = sign_of (if wxIsdigit c then 48 else f c) (if wxIsdigit d then 48 else f d)"
  using assms by (cases "wxIsdigit c"; cases "wxIsdigit d") (simp_all add: sign_of_Cons sign_of_pair)

lemma StrNumCmp_sign:
  assumes "upper_ok (if i then u else id)" and "comparable s" "comparable t"
  shows "StrNumCmp u s t i = Some (sign_of (str_key (if i then u else id) s) (str_key (if i then u else id) t))"
  using assms
proof (induction u s t i rule: StrNumCmp.induct)
  case (1 u c cs d ds i)
  let ?f = "if i then u else id"
  show ?case
  proof (cases "wxIsdigit c \<and> wxIsdigit d")
    case True
    let ?m = "digits_value (takeWhile wxIsdigit (c # cs))" and ?n = "digits_value (takeWhile wxIsdigit (d # ds))"
      and ?r = "dropWhile wxIsdigit cs" and ?s = "dropWhile wxIsdigit ds"
    have r: "read_number 0 (c # cs) = Some (?m, ?r)" "read_number 0 (d # ds) = Some (?n, ?s)"
      using comparable_number 1(4,5) True by blast+
    have ok: "comparable ?r" "comparable ?s" using comparable_Cons(2) 1(4,5) True by blast+
    have hd: "?r = [] \<or> \<not> wxIsdigit (hd ?r)" "?s = [] \<or> \<not> wxIsdigit (hd ?s)" using hd_dropWhile by blast+
    have tl: "comparable (tl ?r)" "comparable (tl ?s)"
      using ok hd comparable_Cons(3) by (metis list.collapse list.sel(2))+
    note k = key_rest [OF 1(3) ok hd, folded char_cmp_sign]
    have step: "StrNumCmp u (c # cs) (d # ds) i = (if sign_of ?m ?n \<noteq> 0 then Some (sign_of ?m ?n)
        else let r = char_cmp u i (char_or_end ?r) (char_or_end ?s) in if r \<noteq> 0 then Some r else StrNumCmp u (tl ?r) (tl ?s) i)"
      using True r by (simp add: sign_of_def del: read_number.simps)
    have key: "sign_of (str_key ?f (c # cs)) (str_key ?f (d # ds)) =
        (if sign_of ?m ?n \<noteq> 0 then sign_of ?m ?n else sign_of (str_key ?f ?r) (str_key ?f ?s))"
      using True by (simp only: str_key.simps if_True conj_absorb sign_of_Cons sign_of_pair) simp
    show ?thesis
    proof (cases "?m = ?n \<and> char_cmp u i (char_or_end ?r) (char_or_end ?s) = 0")
      case same: True
      have "StrNumCmp u (tl ?r) (tl ?s) i = Some (sign_of (str_key ?f (tl ?r)) (str_key ?f (tl ?s)))"
        using 1(1) [OF True refl r(1) refl r(2) refl _ _ refl _ 1(3) tl] same by simp
      then show ?thesis unfolding step key k using same by (simp add: Let_def)
    next
      case False
      then show ?thesis unfolding step key k by (auto simp: Let_def)
    qed
  next
    case False
    have s: "sign_of (?f c) (?f d) = sign_of (if wxIsdigit c then 48 else ?f c) (if wxIsdigit d then 48 else ?f d)"
      by (rule upper_digits [OF 1(3) False])
    show ?thesis
    proof (cases "sign_of (?f c) (?f d) = 0")
      case True
      then have "?f c = ?f d" by simp
      then have nd: "\<not> wxIsdigit c" "\<not> wxIsdigit d"
        using False upper_okD(2) [OF 1(3), of c] upper_okD(2) [OF 1(3), of d] by (metis (no_types))+
      then show ?thesis
        using 1(2) [OF False refl _ 1(3) comparable_Cons(3) [OF 1(4) nd(1)] comparable_Cons(3) [OF 1(5) nd(2)]] True
        by (simp add: char_cmp_sign sign_of_Cons sign_of_pair Let_def)
    next
      case ne: False
      have "StrNumCmp u (c # cs) (d # ds) i = Some (sign_of (?f c) (?f d))"
        unfolding StrNumCmp.simps(1) if_not_P [OF False] Let_def char_cmp_sign using ne by simp
      moreover have "sign_of (str_key ?f (c # cs)) (str_key ?f (d # ds)) = sign_of (?f c) (?f d)"
        unfolding s by (rule key_heads) (use ne s in metis)
      ultimately show ?thesis by simp
    qed
  qed
qed auto

text \<open>
  C36. Comparing strings whose numbers fit an \<^verbatim>\<open>int\<close> is the order of their lists of characters and numbers, in
  which a run of digits counts by its value: so it is a total order, regardless of leading zeros, and of
  case when asked to.
\<close>

theorem StrNumCmp_orders:
  assumes "upper_ok (if i then u else id)" and "comparable s" and "comparable t"
  shows "StrNumCmp u s t i = Some (if str_key (if i then u else id) s < str_key (if i then u else id) t then - 1
    else if str_key (if i then u else id) s = str_key (if i then u else id) t then 0 else 1)"
  using StrNumCmp_sign [OF assms] unfolding sign_of_def .

theorem StrNumCmp_orders_witness:
  "StrNumCmp id (wxT ''R9b'') (wxT ''R010a'') False = Some (- 1) \<and> str_key id (wxT ''R9b'') < str_key id (wxT ''R010a'')"
proof -
  have "str_key id (wxT ''R9b'') = [(82, 0), (48, 9), (98, 0)]" "str_key id (wxT ''R010a'') = [(82, 0), (48, 10), (97, 0)]"
    by (simp_all add: wxIsdigit_def digits_value_def ch_def)
  moreover from this have "comparable (wxT ''R9b'')" "comparable (wxT ''R010a'')" by (simp_all add: comparable_def ch_def)
  moreover have "upper_ok (if False then id else id)" by (simp add: upper_ok_def)
  ultimately show ?thesis using StrNumCmp_orders [of False id "wxT ''R9b''" "wxT ''R010a''"] by simp
qed

end
