(* ===== verification/StringEscape.thy ===== *)
theory StringEscape
  imports StringProps
begin

text \<open>
  Escaping and unescaping (\<^verbatim>\<open>common/string_utils.cpp\<close>): what is read back, and what is not.
\<close>

section \<open>Escape sequences\<close>

text \<open>What is kept of a character: line ends are dropped, or all become new-lines.\<close>

definition kept_char :: "ESCAPE_CONTEXT \<Rightarrow> wxUniChar \<Rightarrow> wxString" where
  "kept_char aContext c =
     (if is_eol c \<and> aContext \<in> {CTX_NETNAME, CTX_LIBID, CTX_LEGACY_LIBID} then []
      else if is_eol c \<and> aContext \<in> {CTX_LINE, CTX_FILENAME, CTX_CSV} then [10] else [c])"

definition kept :: "ESCAPE_CONTEXT \<Rightarrow> wxString \<Rightarrow> wxString" where
  "kept aContext s = concat (map (kept_char aContext) s)"

definition escaped :: "ESCAPE_CONTEXT \<Rightarrow> wxUniChar \<Rightarrow> bool" where
  "escaped aContext c \<longleftrightarrow> escape_char aContext c \<noteq> [c]"

text \<open>No brace, and no character that is escaped stands behind one that starts markup.\<close>

definition unambiguous :: "ESCAPE_CONTEXT \<Rightarrow> wxString \<Rightarrow> bool" where
  "unambiguous aContext s \<longleftrightarrow> ch CHR ''{'' \<notin> set s \<and> successively (\<lambda>a b. starts_markup a \<longrightarrow> \<not> escaped aContext b) s"

lemma ch_code: "ch CHR ''{'' = 123" "ch CHR ''}'' = 125" "ch CHR ''/'' = 47" "ch CHR 0x5C = 92" "ch CHR ''<'' = 60" "ch CHR ''>'' = 62"
  "ch CHR '':'' = 58" "ch CHR 0x22 = 34" "ch CHR '','' = 44" "ch CHR ''|'' = 124" "ch CHR '' '' = 32"
  by (simp_all add: ch_def)

lemma escape_kept: "concat (map (escape_char aContext) (kept_char aContext c)) = escape_char aContext c"
  by (cases aContext) (auto simp: kept_char_def escape_char_def is_eol_def ch_code)

lemma EscapeString_kept: "EscapeString (kept aContext s) aContext = EscapeString s aContext"
proof (induction s)
  case (Cons c s)
  have "EscapeString (kept_char aContext c @ kept aContext s) aContext = escape_char aContext c @ EscapeString (kept aContext s) aContext"
    using escape_kept [of aContext c] by (simp add: EscapeString_def)
  then show ?case using Cons by (simp add: kept_def EscapeString_def)
qed (simp add: kept_def)

definition sequence :: "wxUniChar \<Rightarrow> wxString \<Rightarrow> bool" where
  "sequence c e \<longleftrightarrow> (\<exists>name. e = ch CHR ''{'' # name @ [ch CHR ''}''] \<and> ch CHR ''{'' \<notin> set name \<and> ch CHR ''}'' \<notin> set name \<and>
     name \<noteq> [] \<and> token_char name = Some c)"

lemma sequences:
  "sequence (ch CHR ''/'') (wxT ''{slash}'')" "sequence (ch CHR 0x5C) (wxT ''{backslash}'')" "sequence (ch CHR ''<'') (wxT ''{lt}'')"
  "sequence (ch CHR ''>'') (wxT ''{gt}'')" "sequence (ch CHR '':'') (wxT ''{colon}'')" "sequence (ch CHR 0x22) (wxT ''{dblquote}'')"
  "sequence (ch CHR '','') (wxT ''{comma}'')" "sequence 10 (wxT ''{return}'')" "sequence (ch CHR ''|'') (wxT ''{bar}'')"
  "sequence 9 (wxT ''{tab}'')" "sequence (ch CHR '' '') (wxT ''{space}'')"
proof -
  have one: "sequence c (wxT (CHR ''{'' # name @ ''}''))"
    if "CHR ''{'' \<notin> set name" "CHR ''}'' \<notin> set name" "name \<noteq> []" "token_char (wxT name) = Some c" for c name
    using that unfolding sequence_def by (intro exI [of _ "wxT name"]) (auto simp: wxT_def)
  show "sequence (ch CHR ''/'') (wxT ''{slash}'')" using one [of "''slash''"] by (simp add: token_char_def)
  show "sequence (ch CHR 0x5C) (wxT ''{backslash}'')" using one [of "''backslash''"] by (simp add: token_char_def)
  show "sequence (ch CHR ''<'') (wxT ''{lt}'')" using one [of "''lt''"] by (simp add: token_char_def)
  show "sequence (ch CHR ''>'') (wxT ''{gt}'')" using one [of "''gt''"] by (simp add: token_char_def)
  show "sequence (ch CHR '':'') (wxT ''{colon}'')" using one [of "''colon''"] by (simp add: token_char_def)
  show "sequence (ch CHR 0x22) (wxT ''{dblquote}'')" using one [of "''dblquote''"] by (simp add: token_char_def)
  show "sequence (ch CHR '','') (wxT ''{comma}'')" using one [of "''comma''"] by (simp add: token_char_def)
  show "sequence 10 (wxT ''{return}'')" using one [of "''return''"] by (simp add: token_char_def)
  show "sequence (ch CHR ''|'') (wxT ''{bar}'')" using one [of "''bar''"] by (simp add: token_char_def)
  show "sequence 9 (wxT ''{tab}'')" using one [of "''tab''"] by (simp add: token_char_def)
  show "sequence (ch CHR '' '') (wxT ''{space}'')" using one [of "''space''"] by (simp add: token_char_def)
qed

lemma escape_sequence:
  assumes "aContext \<noteq> CTX_JS_STR" and "c \<in> set (kept_char aContext d)"
  shows "escape_char aContext c = [c] \<or> sequence c (escape_char aContext c)"
  using assms sequences unfolding escape_char_def
  by (cases aContext) (auto simp: kept_char_def is_eol_def simp del: wxT_simps split: if_splits)

lemma scan_name:
  assumes "ch CHR ''{'' \<notin> set name" and "ch CHR ''}'' \<notin> set name"
  shows "scan_braces 1 c0 (name @ ch CHR ''}'' # rest) = (name, rest, ch CHR ''}'', True)"
  using assms by (induction name arbitrary: c0) auto

lemma unescape_sequence:
  assumes "sequence c e" and "\<not> starts_markup prev"
  shows "unescape_loop prev (e @ rest) = c # unescape_loop (ch CHR ''}'') rest"
proof -
  obtain name where n: "e = ch CHR ''{'' # name @ [ch CHR ''}'']" "ch CHR ''{'' \<notin> set name" "ch CHR ''}'' \<notin> set name"
    "token_char name = Some c" using assms(1) by (auto simp: sequence_def)
  have "scan_braces 1 (ch CHR ''{'') (name @ ch CHR ''}'' # rest) = (name, rest, ch CHR ''}'', True)"
    by (rule scan_name [OF n(2,3)])
  then show ?thesis using n(1,4) assms(2) by simp
qed

lemma unescape_escaped:
  assumes "aContext \<noteq> CTX_JS_STR" and "\<forall>c \<in> set t. escape_char aContext c = [c] \<or> sequence c (escape_char aContext c)"
    and "ch CHR ''{'' \<notin> set t" and "successively (\<lambda>a b. starts_markup a \<longrightarrow> \<not> escaped aContext b) (prev # t)"
  shows "unescape_loop prev (EscapeString t aContext) = t"
  using assms(2-4)
proof (induction t arbitrary: prev)
  case (Cons c t)
  have rest: "EscapeString (c # t) aContext = escape_char aContext c @ EscapeString t aContext" by (simp add: EscapeString_def)
  show ?case
  proof (cases "escape_char aContext c = [c]")
    case True
    have "unescape_loop c (EscapeString t aContext) = t" using Cons by simp
    then show ?thesis using True Cons.prems(2) rest by simp
  next
    case False
    then have s: "sequence c (escape_char aContext c)" "escaped aContext c" using Cons.prems(1) by (auto simp: escaped_def)
    then have p: "\<not> starts_markup prev" using Cons.prems(3) by simp
    have "\<not> starts_markup (ch CHR ''}'')" by (simp add: starts_markup_def)
    then have "successively (\<lambda>a b. starts_markup a \<longrightarrow> \<not> escaped aContext b) (ch CHR ''}'' # t)"
      using Cons.prems(3) by (cases t) simp_all
    then have "unescape_loop (ch CHR ''}'') (EscapeString t aContext) = t" using Cons.IH Cons.prems(1,2) by simp
    then show ?thesis using unescape_sequence [OF s(1) p] rest by simp
  qed
qed (simp add: EscapeString_def)

lemma escaped_short:
  assumes "\<forall>c \<in> set t. escape_char aContext c = [c] \<or> sequence c (escape_char aContext c)" and "length (EscapeString t aContext) \<le> 2"
  shows "EscapeString t aContext = t"
  using assms
proof (induction t)
  case (Cons c t)
  have rest: "EscapeString (c # t) aContext = escape_char aContext c @ EscapeString t aContext" by (simp add: EscapeString_def)
  have "length (escape_char aContext c) \<ge> 3" if "sequence c (escape_char aContext c)"
    using that by (auto simp: sequence_def Suc_le_eq)
  then have "escape_char aContext c = [c]" using Cons.prems rest by fastforce
  then show ?case using Cons rest by simp
qed (simp add: EscapeString_def)

lemma UnescapeString_Escape:
  assumes "aContext \<noteq> CTX_JS_STR" and "unambiguous aContext (kept aContext s)"
  shows "UnescapeString (EscapeString s aContext) = kept aContext s"
proof -
  let ?t = "kept aContext s"
  have seq: "\<forall>c \<in> set ?t. escape_char aContext c = [c] \<or> sequence c (escape_char aContext c)"
    using escape_sequence [OF assms(1)] by (auto simp: kept_def)
  have no: "ch CHR ''{'' \<notin> set ?t" using assms(2) by (simp add: unambiguous_def)
  have succ: "successively (\<lambda>a b. starts_markup a \<longrightarrow> \<not> escaped aContext b) (0 # ?t)"
    using assms(2) by (cases ?t) (simp_all add: unambiguous_def starts_markup_def ch_def)
  show ?thesis
  proof (cases "length (EscapeString ?t aContext) \<le> 2")
    case True
    then show ?thesis using escaped_short [OF seq True] by (simp add: EscapeString_kept)
  next
    case False
    then show ?thesis using unescape_escaped [OF assms(1) seq no succ] by (simp add: EscapeString_kept)
  qed
qed

text \<open>Behind a dollar sign a slash is not read back.\<close>

lemma UnescapeString_markup:
  "UnescapeString (EscapeString (wxT ''A$/B'') CTX_NETNAME) = wxT ''A${slash}B''"
  by code_simp

section \<open>Delimited text\<close>

lemma char_of_ch: "char_of (ch c) = c"
  by (simp add: ch_def)

lemma char_of_wxT: "map char_of (wxT s) = s"
  by (induction s) (simp_all add: char_of_ch)

lemma read_escaped:
  assumes "NUL \<notin> set bs"
  shows "read_delimited True (concat (map escape_byte bs) @ QUOTE # rest) = (bs, length (concat (map escape_byte bs)) + 1)"
  using assms by (induction bs) (auto simp: escape_byte_def)

lemma ReadDelimitedText_Escaped:
  assumes "from_utf8 (to_utf8 s) = s" and "NUL \<notin> set (to_utf8 s)"
  shows "ReadDelimitedText from_utf8 (EscapedUTF8 to_utf8 s @ rest) = (s, length (EscapedUTF8 to_utf8 s))"
proof -
  have "takeWhile (\<lambda>c. c \<noteq> NUL) (to_utf8 s) = to_utf8 s" using assms(2) by (intro takeWhile_eq_all_conv [THEN iffD2]) auto
  then have "EscapedUTF8 to_utf8 s = QUOTE # concat (map escape_byte (to_utf8 s)) @ [QUOTE]" by (simp only: EscapedUTF8_def Let_def)
  then show ?thesis
    using assms(1) read_escaped [OF assms(2), of rest] by (simp add: ReadDelimitedText_def)
qed

lemma EscapedUTF8_quoted:
  assumes "NUL \<notin> set (to_utf8 s)"
  shows "\<exists>body. EscapedUTF8 to_utf8 s = QUOTE # body @ [QUOTE] \<and> set (to_utf8 s) \<subseteq> set body"
proof -
  have "takeWhile (\<lambda>c. c \<noteq> NUL) (to_utf8 s) = to_utf8 s" using assms by (intro takeWhile_eq_all_conv [THEN iffD2]) auto
  then have "EscapedUTF8 to_utf8 s = QUOTE # concat (map escape_byte (to_utf8 s)) @ [QUOTE]"
    by (simp only: EscapedUTF8_def Let_def)
  moreover have "c \<in> set (escape_byte c)" for c by (simp add: escape_byte_def)
  then have "set (to_utf8 s) \<subseteq> set (concat (map escape_byte (to_utf8 s)))" by auto
  ultimately show ?thesis by blast
qed

text \<open>The buffer is never overrun, and it gets the text when this fits.\<close>

lemma read_limited_length: "read_limited room inside src = (dest, n) \<Longrightarrow> length dest \<le> room"
  by (induction room inside src arbitrary: dest n rule: read_limited.induct)
    (fastforce simp: Let_def split: if_splits prod.splits list.splits)+

lemma read_limited_fits:
  "length (fst (read_delimited inside src)) \<le> room \<Longrightarrow> fst (read_limited room inside src) = fst (read_delimited inside src)"
proof (induction inside src arbitrary: room rule: read_delimited.induct)
  case (2 inside cc src)
  show ?case
  proof (cases "room \<noteq> 0 \<and> cc = BACKSLASH \<and> inside \<and> src \<noteq> []")
    case True
    then obtain c src' where src: "src = c # src'" by (cases src) auto
    obtain utf8 n where r: "read_delimited True src' = (utf8, n)" by fastforce
    let ?esc = "if c \<noteq> QUOTE \<and> c \<noteq> BACKSLASH then [BACKSLASH] else []"
    have len: "length ?esc + 1 + length utf8 \<le> room" using 2(5) True src r by auto
    then have "fst (read_limited (room - (length ?esc + 1)) True src') = utf8"
      using 2(2) [of c src' "room - (length ?esc + 1)"] True src r by auto
    then show ?thesis using True src r len by (auto simp: Let_def split: prod.splits)
  next
    case False
    then show ?thesis
      using 2(1) [of room] 2(3) [of "room - 1"] 2(4) [of room] 2(5) by (auto simp: Let_def split: if_splits prod.splits list.splits)
  qed
qed simp

section \<open>Round trips\<close>

text \<open>
  C37. Unescaping an escaped string gives the string back, up to its line ends, in every context but that of
  JavaScript, unless it has an opening brace or a character to be escaped right behind one of the four that start
  markup (\<open>UnescapeString_markup\<close> is an example of what happens then).
\<close>

theorem UnescapeString_EscapeString:
  assumes "aContext \<noteq> CTX_JS_STR" and "unambiguous aContext (kept aContext s)"
  shows "UnescapeString (EscapeString s aContext) = kept aContext s"
  by (rule UnescapeString_Escape [OF assms])

theorem UnescapeString_EscapeString_witness:
  "UnescapeString (EscapeString (wxT ''C:/a|b'' @ [13]) CTX_FILENAME) = wxT ''C:/a|b'' @ [10] \<and>
   EscapeString (wxT ''C:/a|b'' @ [13]) CTX_FILENAME = wxT ''C{colon}{slash}a{bar}b{return}''"
proof -
  have "kept CTX_FILENAME (wxT ''C:/a|b'' @ [13]) = wxT ''C:/a|b'' @ [10]" "unambiguous CTX_FILENAME (wxT ''C:/a|b'' @ [10])"
    "EscapeString (wxT ''C:/a|b'' @ [13]) CTX_FILENAME = wxT ''C{colon}{slash}a{bar}b{return}''"
    by code_simp+
  then show ?thesis using UnescapeString_EscapeString [of CTX_FILENAME "wxT ''C:/a|b'' @ [13]"] by simp
qed

text \<open>
  C38. Reading delimited text undoes the quoting, when UTF-8 is read back and the text has no NUL: it returns the
  text and the length of what was quoted. The variant with a buffer never writes more bytes than it may, and it
  returns the text when there is room for it. The quoted text starts and ends with a double quote, which the
  reading needs; the comment in \<^verbatim>\<open>string_utils.h\<close> says that \<open>EscapedUTF8\<close> returns it without them. It has every
  byte of the text, new-lines among them, and they are read back; a comment in \<open>EscapedUTF8\<close> says that none
  are allowed, but it replaces them in a copy that it does not use.
\<close>

theorem ReadDelimitedText_EscapedUTF8:
  assumes "from_utf8 (to_utf8 s) = s" and "NUL \<notin> set (to_utf8 s)"
  shows "ReadDelimitedText from_utf8 (EscapedUTF8 to_utf8 s @ rest) = (s, length (EscapedUTF8 to_utf8 s)) \<and>
    (\<exists>body. EscapedUTF8 to_utf8 s = QUOTE # body @ [QUOTE] \<and> set (to_utf8 s) \<subseteq> set body) \<and>
    length (fst (ReadDelimitedText_buf src aDestSize)) \<le> nat aDestSize \<and>
    (int (length (to_utf8 s)) < aDestSize \<longrightarrow>
      fst (ReadDelimitedText_buf (EscapedUTF8 to_utf8 s @ rest) aDestSize) = to_utf8 s @ [NUL])"
proof (intro conjI impI)
  show "ReadDelimitedText from_utf8 (EscapedUTF8 to_utf8 s @ rest) = (s, length (EscapedUTF8 to_utf8 s))"
    by (rule ReadDelimitedText_Escaped [of from_utf8 to_utf8 s, OF assms])
  show "\<exists>body. EscapedUTF8 to_utf8 s = QUOTE # body @ [QUOTE] \<and> set (to_utf8 s) \<subseteq> set body"
    by (rule EscapedUTF8_quoted [of to_utf8 s, OF assms(2)])
  show "length (fst (ReadDelimitedText_buf src aDestSize)) \<le> nat aDestSize"
    using read_limited_length [of "nat aDestSize - 1" False src]
    by (cases "read_limited (nat aDestSize - 1) False src") (auto simp: ReadDelimitedText_buf_def)
next
  assume room: "int (length (to_utf8 s)) < aDestSize"
  have "takeWhile (\<lambda>c. c \<noteq> NUL) (to_utf8 s) = to_utf8 s" using assms(2) by (intro takeWhile_eq_all_conv [THEN iffD2]) auto
  then have e: "EscapedUTF8 to_utf8 s = QUOTE # concat (map escape_byte (to_utf8 s)) @ [QUOTE]" by (simp only: EscapedUTF8_def Let_def)
  have "fst (read_delimited False (EscapedUTF8 to_utf8 s @ rest)) = to_utf8 s"
    unfolding e using read_escaped [OF assms(2), of rest] by simp
  then have lim: "fst (read_limited (nat aDestSize - 1) False (EscapedUTF8 to_utf8 s @ rest)) = to_utf8 s"
    using read_limited_fits [of False "EscapedUTF8 to_utf8 s @ rest" "nat aDestSize - 1"] room by simp
  have "\<not> aDestSize \<le> 0" using room by simp
  then show "fst (ReadDelimitedText_buf (EscapedUTF8 to_utf8 s @ rest) aDestSize) = to_utf8 s @ [NUL]"
    using lim by (cases "read_limited (nat aDestSize - 1) False (EscapedUTF8 to_utf8 s @ rest)") (simp add: ReadDelimitedText_buf_def)
qed

theorem ReadDelimitedText_EscapedUTF8_witness:
  "ReadDelimitedText (wxT) (EscapedUTF8 (map char_of) (wxT ''a\"b'') @ ''...'') = (wxT ''a\"b'', 6) \<and>
   fst (ReadDelimitedText_buf (EscapedUTF8 (map char_of) (wxT ''a\"b'') @ ''...'') 4) = ''a\"b'' @ [NUL]"
proof -
  have "map char_of (wxT ''a\"b'') = ''a\"b''" by (rule char_of_wxT)
  moreover have "length (EscapedUTF8 (map char_of) (wxT ''a\"b'')) = 6" by code_simp
  ultimately show ?thesis
    using ReadDelimitedText_EscapedUTF8 [of wxT "map char_of" "wxT ''a\"b''" "''...''" "''''" 4] by simp
qed

end
