(* ===== verification/StringParts.thy ===== *)
theory StringParts
  imports StringEscape
begin

text \<open>
  Splitting, stripping and replacing (\<^verbatim>\<open>common/string_utils.cpp\<close>, \<^verbatim>\<open>include/string_utils.h\<close>), and what is
  wrong with some of it.
\<close>

section \<open>Splitting at numbers\<close>

lemma back_while_spec:
  assumes "back_while P s i = j"
  shows "j \<le> i" "j \<le> k \<Longrightarrow> k < i \<Longrightarrow> P (s ! k)" "0 < j \<Longrightarrow> \<not> P (s ! (j - 1))"
proof -
  have "j \<le> i \<and> (\<forall>k. j \<le> k \<and> k < i \<longrightarrow> P (s ! k)) \<and> (0 < j \<longrightarrow> \<not> P (s ! (j - 1)))"
    using assms by (induction i) (auto simp: less_Suc_eq split: if_splits)
  then show "j \<le> i" "j \<le> k \<Longrightarrow> k < i \<Longrightarrow> P (s ! k)" "0 < j \<Longrightarrow> \<not> P (s ! (j - 1))" by blast+
qed

lemma all_between:
  assumes "\<And>k. i \<le> k \<Longrightarrow> k < j \<Longrightarrow> P (s ! k)" and "j \<le> length s"
  shows "\<forall>c \<in> set (take (j - i) (drop i s)). P c"
proof
  fix c assume "c \<in> set (take (j - i) (drop i s))"
  then obtain k where "k < j - i" "i + k < length s" "c = s ! (i + k)" by (auto simp: in_set_conv_nth)
  then show "P c" using assms(1) [of "i + k"] by simp
qed

lemma SplitString_no_digit:
  assumes "\<forall>c \<in> set s. \<not> wxIsdigit c"
  shows "SplitString s = (s, [], [])"
proof -
  have "back_while (\<lambda>c. \<not> wxIsdigit c) s i = 0" if "i \<le> length s" for i
    using that assms by (induction i) (auto simp: Suc_le_eq)
  then show ?thesis by (simp add: SplitString_def)
qed

text \<open>The cuts of a string with a digit: \<open>q\<close> before its last number and \<open>p\<close> behind it.\<close>

lemma SplitString_cuts:
  assumes "c \<in> set s" and "wxIsdigit c"
  obtains q p where "SplitString s = (take q s, take (p - q) (drop q s), drop p s)" and "q < p" and "p \<le> length s"
    and "wxIsdigit (s ! (p - 1))" and "\<And>k. p \<le> k \<Longrightarrow> k < length s \<Longrightarrow> \<not> wxIsdigit (s ! k)"
    and "\<And>k. q \<le> k \<Longrightarrow> k < p \<Longrightarrow> wxIsdigit (s ! k) \<or> is_separator (s ! k)"
    and "0 < q \<Longrightarrow> \<not> (wxIsdigit (s ! (q - 1)) \<or> is_separator (s ! (q - 1)))"
proof -
  define p where "p = back_while (\<lambda>c. \<not> wxIsdigit c) s (length s)"
  define q where "q = back_while (\<lambda>c. wxIsdigit c \<or> is_separator c) s p"
  note pp = back_while_spec [OF p_def [symmetric]] and qq = back_while_spec [OF q_def [symmetric]]
  have "p \<noteq> 0"
  proof
    assume "p = 0"
    then have "\<forall>k < length s. \<not> wxIsdigit (s ! k)" using pp(2) by simp
    then show False using assms unfolding in_set_conv_nth by blast
  qed
  have dig: "wxIsdigit (s ! (p - 1))" by (rule notnotD [OF pp(3)]) (use \<open>p \<noteq> 0\<close> in simp)
  have "q \<noteq> p" using qq(3) dig \<open>p \<noteq> 0\<close> by blast
  then have "q < p" using qq(1) by simp
  have "length s \<noteq> 0" using assms(1) by auto
  then have "SplitString s = (take q s, take (p - q) (drop q s), drop p s)"
    unfolding SplitString_def Let_def p_def [symmetric] q_def [symmetric] using \<open>p \<noteq> 0\<close> by (simp only: if_False)
  then show thesis using \<open>q < p\<close> pp(1) dig pp(2) qq(2,3) by (rule that)
qed

text \<open>
  Splitting a string at its last number cuts it into three parts that make it up: the end has no digit, the
  middle consists of digits and separators and ends with a digit, and the beginning ends with neither. The
  middle is empty only when there is no digit at all.
\<close>

lemma SplitString_parts:
  assumes "SplitString s = (b, d, e)"
  shows "b @ d @ e = s \<and> (\<forall>c \<in> set e. \<not> wxIsdigit c) \<and> (\<forall>c \<in> set d. wxIsdigit c \<or> is_separator c) \<and>
    (if d = [] then \<forall>c \<in> set s. \<not> wxIsdigit c
     else wxIsdigit (last d) \<and> (b = [] \<or> \<not> (wxIsdigit (last b) \<or> is_separator (last b))))"
proof (cases "\<forall>c \<in> set s. \<not> wxIsdigit c")
  case True
  then show ?thesis using assms SplitString_no_digit [OF True] by simp
next
  case False
  then obtain c where c: "c \<in> set s" "wxIsdigit c" by blast
  obtain q p where cut: "SplitString s = (take q s, take (p - q) (drop q s), drop p s)" and lt: "q < p" "p \<le> length s"
    and dig: "wxIsdigit (s ! (p - 1))" and e: "\<And>k. p \<le> k \<Longrightarrow> k < length s \<Longrightarrow> \<not> wxIsdigit (s ! k)"
    and d: "\<And>k. q \<le> k \<Longrightarrow> k < p \<Longrightarrow> wxIsdigit (s ! k) \<or> is_separator (s ! k)"
    and b: "0 < q \<Longrightarrow> \<not> (wxIsdigit (s ! (q - 1)) \<or> is_separator (s ! (q - 1)))"
    by (rule SplitString_cuts [OF c], rule that)
  have parts: "b = take q s" "d = take (p - q) (drop q s)" "e = drop p s" using assms cut by simp_all
  have "b @ d = take p s" unfolding parts using lt(1) by (metis le_add_diff_inverse less_imp_le take_add)
  then have join: "b @ d @ e = s" unfolding parts by (metis append.assoc append_take_drop_id)
  have len: "length d = p - q" "length b = q" using parts lt by simp_all
  then have "d \<noteq> []" using lt(1) by auto
  then have "last d = s ! (p - 1)" using len lt by (simp add: last_conv_nth parts)
  moreover have "b = [] \<or> last b = s ! (q - 1) \<and> 0 < q" using len(2) lt by (cases "b = []") (auto simp: last_conv_nth parts)
  moreover have "\<forall>c \<in> set d. wxIsdigit c \<or> is_separator c"
    unfolding parts by (rule all_between [where P = "\<lambda>c. wxIsdigit c \<or> is_separator c"]) (rule d, assumption, assumption, rule lt(2))
  moreover have "\<forall>c \<in> set e. \<not> wxIsdigit c" unfolding parts using e by (auto simp: in_set_conv_nth)
  ultimately show ?thesis using join dig b \<open>d \<noteq> []\<close> by auto
qed

lemma SplitString_parts_witness:
  "SplitString (wxT ''R1,000k'') = (wxT ''R'', wxT ''1,000'', wxT ''k'') \<and> wxT ''R'' @ wxT ''1,000'' @ wxT ''k'' = wxT ''R1,000k''"
proof -
  have "SplitString (wxT ''R1,000k'') = (wxT ''R'', wxT ''1,000'', wxT ''k'')" by code_simp
  then show ?thesis using SplitString_parts by blast
qed

section \<open>Trailing zeros\<close>

lemma strip_zeros_spec:
  "strip_zeros m s = take m s @ rev (dropWhile (\<lambda>c. c = 48) (rev (drop m s)))"
proof (induction m s rule: strip_zeros.induct)
  case (1 m s)
  show ?case
  proof (cases "length s > m \<and> last s = 48")
    case True
    then have "s \<noteq> []" by auto
    then have s: "s = butlast s @ [48]" "m \<le> length (butlast s)" using True append_butlast_last_id [of s] by auto
    have "strip_zeros m s = strip_zeros m (butlast s)" using True by (subst strip_zeros.simps) simp
    also have "\<dots> = take m (butlast s) @ rev (dropWhile (\<lambda>c. c = 48) (rev (drop m (butlast s))))" using 1 True by simp
    also have "\<dots> = take m (butlast s @ [48]) @ rev (dropWhile (\<lambda>c. c = 48) (rev (drop m (butlast s @ [48]))))" using s(2) by simp
    finally show ?thesis using s(1) by simp
  next
    case False
    then have "strip_zeros m s = s" by (subst strip_zeros.simps) auto
    moreover have "rev (dropWhile (\<lambda>c. c = 48) (rev (drop m s))) = drop m s"
    proof (cases "length s > m")
      case True
      then obtain x xs where x: "rev (drop m s) = x # xs" by (cases "rev (drop m s)") auto
      then have "x = last (drop m s)" by (metis hd_rev list.sel(1))
      then have "x \<noteq> 48" using False True by (simp add: last_drop)
      then have "dropWhile (\<lambda>c. c = 48) (rev (drop m s)) = rev (drop m s)" unfolding x by simp
      then show ?thesis by simp
    qed simp
    ultimately show ?thesis by simp
  qed
qed

text \<open>
  Behind a decimal point at least \<open>n\<close> digits are kept. Without one zeros are stripped all the same, because the
  answer - 1 of the search wraps around: 100 becomes 1.
\<close>

lemma StripTrailingZeros_fraction:
  assumes "sep \<notin> set ip" and "ip \<noteq> []" and "length ip + n + 1 < 2 ^ 32"
  shows "StripTrailingZeros sep n (ip @ sep # frac) = ip @ sep # take n frac @ rev (dropWhile (\<lambda>c. c = 48) (rev (drop n frac)))"
proof -
  have "takeWhile (\<lambda>d. d \<noteq> sep) (ip @ sep # frac) = ip" using assms(1) by (induction ip) auto
  then have "wx_Find sep (ip @ sep # frac) = int (length ip)" by (simp add: wx_Find_def)
  moreover have "uint32_of (int (length ip)) = length ip" using assms(3) by (simp add: uint32_of_def flip: zmod_int)
  ultimately have "StripTrailingZeros sep n (ip @ sep # frac) = strip_zeros (length ip + n + 1) (ip @ sep # frac)"
    using assms(2,3) by (simp add: StripTrailingZeros_def)
  then show ?thesis by (simp add: strip_zeros_spec)
qed

lemma StripTrailingZeros_integer:
  assumes "sep \<notin> set s" and "n < 2 ^ 32"
  shows "StripTrailingZeros sep n s = take n s @ rev (dropWhile (\<lambda>c. c = 48) (rev (drop n s)))"
proof -
  have "uint32_of (wx_Find sep s) = 2 ^ 32 - 1" using assms(1) by (simp add: wx_Find_def uint32_of_def)
  moreover have "(2 ^ 32 - 1 + n + 1) mod 2 ^ 32 = n" using assms(2) by simp
  ultimately show ?thesis by (simp add: StripTrailingZeros_def strip_zeros_spec)
qed

lemma StripTrailingZeros_100: "StripTrailingZeros (ch CHR ''.'') 1 (wxT ''100'') = wxT ''1''"
  using StripTrailingZeros_integer [of "ch CHR ''.''" "wxT ''100''" 1] by (simp add: ch_def)

section \<open>Pieces\<close>

fun join_pieces :: "'a \<Rightarrow> 'a list list \<Rightarrow> 'a list" where
  "join_pieces d [] = []"
| "join_pieces d [x] = x"
| "join_pieces d (x # y # zs) = x @ d # join_pieces d (y # zs)"

lemma split_tokens_join: "join_pieces d (split_tokens [d] s) = s \<and> split_tokens [d] s \<noteq> [] \<and> (\<forall>x \<in> set (split_tokens [d] s). d \<notin> set x)"
proof (induction "length s" arbitrary: s rule: less_induct)
  case less
  let ?t = "takeWhile (\<lambda>c. c \<noteq> d) s" and ?l = "length (takeWhile (\<lambda>c. c \<noteq> d) s)"
  have no: "d \<notin> set ?t" by (auto dest: set_takeWhileD)
  show ?case
  proof (cases "?l = length s")
    case True
    then have "?t = s" by (metis takeWhile_eq_take take_all_iff order_refl)
    have "d \<notin> set s" using no unfolding \<open>?t = s\<close> .
    then show ?thesis using True by (subst (1 2 3) split_tokens.simps) simp
  next
    case False
    then have lt: "?l < length s" using length_takeWhile_le [of "\<lambda>c. c \<noteq> d" s] by linarith
    have "s = take ?l s @ s ! ?l # drop (?l + 1) s" using lt by (simp add: id_take_nth_drop)
    moreover have "s ! ?l = d" using nth_length_takeWhile [OF lt] by simp
    moreover have "take ?l s = ?t" by (metis takeWhile_eq_take)
    ultimately have s: "s = ?t @ d # drop (?l + 1) s" by simp
    have "length (drop (?l + 1) s) < length s" using lt by simp
    note IH = less.hyps [OF this]
    have st: "split_tokens [d] s = ?t # split_tokens [d] (drop (?l + 1) s)"
      using False \<open>take ?l s = ?t\<close> by (subst split_tokens.simps) simp
    obtain y zs where "split_tokens [d] (drop (?l + 1) s) = y # zs" using IH by (cases "split_tokens [d] (drop (?l + 1) s)") auto
    then show ?thesis using IH no s st by simp
  qed
qed

text \<open>The wxWidgets variant loses an empty piece at the end.\<close>

lemma split_loop_join:
  "join_pieces d (split_loop d tmp s) = tmp @ s \<or> join_pieces d (split_loop d tmp s) @ [d] = tmp @ s"
proof (induction d tmp s rule: split_loop.induct)
  case (2 d tmp c cs)
  show ?case
  proof (cases "c = d")
    case True
    then show ?thesis using 2(1) [OF True] by (cases "split_loop d [] cs") auto
  qed (use 2(2) in auto)
qed simp

section \<open>File names\<close>

lemma percent_hex_legal: "c \<in> set (map char_of (percent_hex (of_char a))) \<Longrightarrow> c \<notin> set illegalFileNameChars \<and> c \<noteq> NUL"
proof -
  have "list_all (\<lambda>d. char_of (hex_lower d) \<notin> set illegalFileNameChars \<and> (char_of (hex_lower d) :: char) \<noteq> NUL) [0..<16]"
    by code_simp
  then have h: "char_of (hex_lower d) \<notin> set illegalFileNameChars \<and> (char_of (hex_lower d) :: char) \<noteq> NUL" if "d < 16" for d
    using that by (simp add: list_all_iff)
  have "(of_char a :: nat) < 256" by (rule nat_of_char_less_256)
  then have "(of_char a :: nat) div 16 < 16" by (simp add: less_mult_imp_div_less)
  moreover have "(of_char a :: nat) mod 16 < 16" by simp
  ultimately show "c \<in> set (map char_of (percent_hex (of_char a))) \<Longrightarrow> c \<notin> set illegalFileNameChars \<and> c \<noteq> NUL"
    using h [of "of_char a div 16"] h [of "of_char a mod 16"] by (auto simp: percent_hex_def char_of_ch) (auto simp: illegalFileNameChars_def)
qed

lemma ReplaceIllegalFileNameChars_legal:
  assumes "ReplaceIllegalFileNameChars name r = (changed, name')"
    and "r \<noteq> 0 \<longrightarrow> char_of (nat (r mod 256)) \<notin> set illegalFileNameChars \<and> (char_of (nat (r mod 256)) :: char) \<noteq> NUL"
  shows "\<forall>c \<in> set name'. c \<notin> set illegalFileNameChars \<and> c \<noteq> NUL" "changed \<longleftrightarrow> name' \<noteq> name"
proof -
  let ?bad = "\<lambda>c. c \<in> set illegalFileNameChars \<or> c = NUL"
  have c: "changed \<longleftrightarrow> list_ex ?bad name" "name' = (if list_ex ?bad name then concat (map (replace_illegal_byte r) name) else name)"
    using assms(1) by (auto simp: ReplaceIllegalFileNameChars_def Let_def)
  have good: "\<not> ?bad c" if "c \<in> set (replace_illegal_byte r a)" for a c
    using that assms(2) percent_hex_legal [of c a] by (auto simp: replace_illegal_byte_def split: if_splits)
  show legal: "\<forall>c \<in> set name'. c \<notin> set illegalFileNameChars \<and> c \<noteq> NUL"
  proof (cases "list_ex ?bad name")
    case True
    then have "name' = concat (map (replace_illegal_byte r) name)" using c(2) by metis
    then show ?thesis using good by fastforce
  next
    case False
    then have "name' = name" using c(2) by metis
    then show ?thesis using False by (simp add: list_ex_iff)
  qed
  show "changed \<longleftrightarrow> name' \<noteq> name"
  proof
    assume changed
    then obtain x where "x \<in> set name" "?bad x" using c(1) unfolding list_ex_iff by blast
    then show "name' \<noteq> name" using legal by blast
  next
    assume "name' \<noteq> name"
    then show changed using c by metis
  qed
qed

section \<open>HTML\<close>

text \<open>Escaped text has no numeric reference, so nothing of it is unescaped: the entities are not.\<close>

definition no_reference :: "wxString \<Rightarrow> bool" where
  "no_reference s \<longleftrightarrow> successively (\<lambda>a b. \<not> (a = ch CHR ''&'' \<and> b = ch CHR ''#'')) s"

lemma EscapeHTML_no_reference: "no_reference (EscapeHTML s) \<and> (EscapeHTML s = [] \<or> last (EscapeHTML s) \<noteq> ch CHR ''&'')"
proof (induction s)
  case (Cons c s)
  have "no_reference (e @ EscapeHTML s)" if "no_reference e" "last e \<noteq> ch CHR ''&''" for e
    using that Cons by (auto simp: no_reference_def successively_append_iff)
  then show ?case
    using Cons by (auto simp: EscapeHTML_def no_reference_def)
qed (simp add: EscapeHTML_def no_reference_def)

lemma no_reference_drop:
  assumes "no_reference s"
  shows "take 2 (drop k s) \<noteq> wxT ''&#''"
proof
  assume "take 2 (drop k s) = wxT ''&#''"
  then have "s = take k s @ wxT ''&#'' @ drop 2 (drop k s)" by (metis append_take_drop_id)
  then have "no_reference (take k s @ wxT ''&#'' @ drop 2 (drop k s))" using assms by simp
  then show False by (simp add: no_reference_def successively_append_iff)
qed

lemma UnescapeHTML_Escape:
  assumes "\<And>str start len code. regex str = Some (start, len, code) \<Longrightarrow> take 2 (drop start str) = wxT ''&#''"
  shows "UnescapeHTML regex to_ulong (EscapeHTML s) = Some (EscapeHTML s)"
proof -
  have "regex (EscapeHTML s) = None"
    using assms no_reference_drop EscapeHTML_no_reference by (metis option.exhaust prod_cases3)
  then show ?thesis by (simp add: UnescapeHTML_def unescape_codes.simps)
qed

section \<open>Sorting from the rear\<close>

lemma rsort_reversed: "rsort_wxString a b \<longleftrightarrow> rev a < rev b"
proof -
  have "rsort_loop xs ys \<longleftrightarrow> xs < ys" for xs ys by (induction xs ys rule: rsort_loop.induct) auto
  moreover have "[] < xs \<longleftrightarrow> xs \<noteq> []" for xs :: wxString by (cases xs) auto
  ultimately show ?thesis by (auto simp: rsort_wxString_def)
qed

section \<open>Overbars\<close>

text \<open>Two tildes before a brace are meant to be kept apart from it, but the second one is looked at again.\<close>

lemma ConvertToNewOverbarNotation_tildes: "ConvertToNewOverbarNotation (wxT ''~A~ ~~{B'') = wxT ''~A~ ~~{B''"
  by code_simp

end
