(* ===== verification/KiMath.thy ===== *)
theory KiMath
  imports Complex_Main Prelude
begin

text \<open>
  Integer arithmetic of the geometry library: scaling by a fraction with a product of 128 bits, where the
  compiler has none by long multiplication and division (\<^verbatim>\<open>libs/kimath/src/math/util.cpp\<close>,
  \<^verbatim>\<open>include/math/util.h\<close>), and the integer square root of \<^verbatim>\<open>libs/kimath/src/geometry/seg.cpp\<close>. \<open>None\<close> is
  an overflow of a signed type, a division by 0, or a loop that does not end; a conversion to a shorter
  type wraps.
\<close>

section \<open>Widths\<close>

definition is_int64 :: "int \<Rightarrow> bool" where
  "is_int64 x \<longleftrightarrow> - (2 ^ 63) \<le> x \<and> x < 2 ^ 63"

definition int64_of :: "int \<Rightarrow> int" where
  "int64_of x = (x + 2 ^ 63) mod 2 ^ 64 - 2 ^ 63"

definition uint64_of :: "nat \<Rightarrow> nat" where
  "uint64_of n = n mod 2 ^ 64"

lemma int64_of_id: "is_int64 x \<Longrightarrow> int64_of x = x"
  by (simp add: is_int64_def int64_of_def)

lemma is_int32_64: "is_int32 x \<Longrightarrow> is_int64 x"
  by (simp add: is_int32_def is_int64_def)

lemma uint64_of_id: "n < 2 ^ 64 \<Longrightarrow> uint64_of n = n"
  by (simp add: uint64_of_def)

definition KiCheckedCast :: "int \<Rightarrow> int" where
  "KiCheckedCast v = (if v > 2 ^ 31 - 1 then 2 ^ 31 - 1 else if v < - (2 ^ 31) then - (2 ^ 31) else v)"

definition sign :: "int \<Rightarrow> int" where
  "sign val = of_bool (0 < val) - of_bool (val < 0)"

lemma sign_sgn: "sign val = sgn val"
  by (simp add: sign_def sgn_if)

section \<open>Scaling by a fraction\<close>

text \<open>\<^verbatim>\<open>/\<close> rounds towards 0; half of the denominator is added or subtracted to round to the nearest.\<close>

definition rescale_quotient :: "int \<Rightarrow> int \<Rightarrow> int" where
  "rescale_quotient numerator aDenominator =
     (if (numerator < 0) \<noteq> (aDenominator < 0) then (numerator - aDenominator sdiv 2) sdiv aDenominator
      else (numerator + aDenominator sdiv 2) sdiv aDenominator)"

definition rescale_int :: "int \<Rightarrow> int \<Rightarrow> int \<Rightarrow> int option" where
  "rescale_int aNumerator aValue aDenominator =
     (if aDenominator = 0 then None
      else let numerator = aNumerator * aValue in Some (int32_of (rescale_quotient numerator aDenominator)))"

definition rescale :: "int \<Rightarrow> int \<Rightarrow> int \<Rightarrow> int option" where
  "rescale aNumerator aValue aDenominator =
     (if aDenominator = 0 then None
      else let numerator = aNumerator * aValue in Some (int64_of (rescale_quotient numerator aDenominator)))"

text \<open>
  The variant for compilers without integers of 128 bits. The product is the pair \<open>(a1, a0)\<close>; one step of the division
  shifts it and the quotient \<open>t1\<close> by one bit.
\<close>

definition rescale_step :: "nat \<Rightarrow> nat \<Rightarrow> nat \<Rightarrow> nat \<times> nat \<Rightarrow> nat \<times> nat" where
  "rescale_step c a0 i s =
     (case s of (a1, t1) \<Rightarrow>
        let a1 = uint64_of (a1 + (a1 + (a0 div 2 ^ i) mod 2)); t1 = uint64_of (t1 + t1)
        in if c \<le> a1 then (a1 - c, uint64_of (t1 + 1)) else (a1, t1))"

primrec rescale_loop :: "nat \<Rightarrow> nat \<Rightarrow> nat \<Rightarrow> nat \<times> nat \<Rightarrow> nat \<times> nat" where
  "rescale_loop c a0 0 s = s"
| "rescale_loop c a0 (Suc i) s = rescale_loop c a0 i (rescale_step c a0 i s)"

definition INT_MAX :: nat where
  "INT_MAX = 2 ^ 31 - 1"

definition rescale_product :: "nat \<Rightarrow> nat \<Rightarrow> nat \<Rightarrow> nat \<times> nat \<times> nat" where
  "rescale_product a b r =
     (let a0 = a mod 2 ^ 32; a1 = a div 2 ^ 32; b0 = b mod 2 ^ 32; b1 = b div 2 ^ 32;
          t1 = uint64_of (a0 * b1 + a1 * b0);
          t1a = uint64_of (t1 * 2 ^ 32);
          lo = uint64_of (a0 * b0 + t1a);
          hi = uint64_of (a1 * b1 + t1 div 2 ^ 32 + (if lo < t1a then 1 else 0));
          lo' = uint64_of (lo + r);
          hi' = uint64_of (hi + (if lo' < r then 1 else 0))
      in (hi', lo', t1))"

definition rescale_portable :: "int \<Rightarrow> int \<Rightarrow> int \<Rightarrow> int option" where
  "rescale_portable aNumerator aValue aDenominator =
     (if \<not> (is_int64 \<bar>aNumerator\<bar> \<and> is_int64 \<bar>aValue\<bar> \<and> is_int64 \<bar>aDenominator\<bar>) then None
      else let sign = (if aNumerator < 0 then - 1 else 1) * (if aDenominator < 0 then - 1 else 1) * (if aValue < 0 then - 1 else 1);
               a = nat \<bar>aNumerator\<bar>; b = nat \<bar>aValue\<bar>; c = nat \<bar>aDenominator\<bar>;
               r = c div 2
           in if b \<le> INT_MAX \<and> c \<le> INT_MAX
              then (if c = 0 then None
                    else if a \<le> INT_MAX then Some (sign * int ((a * b + r) div c))
                    else let q = a div c * b + (a mod c * b + r) div c
                         in if is_int64 (int q) then Some (sign * int q) else None)
              else case rescale_product a b r of (a1, a0, t1) \<Rightarrow>
                     Some (int64_of (int (snd (rescale_loop c a0 64 (a1, t1))) * sign)))"

section \<open>The integer square root\<close>

partial_function (option) sqrt_helper :: "nat \<Rightarrow> nat \<Rightarrow> nat \<Rightarrow> nat option" where
  "sqrt_helper x lo hi =
     (if lo = hi then Some lo
      else let mid = (lo + hi + 1) div 2
           in if x div mid < mid then sqrt_helper x lo (mid - 1) else sqrt_helper x mid hi)"

definition ct_sqrt :: "nat \<Rightarrow> nat option" where
  "ct_sqrt x = sqrt_helper x 0 (x div 2 + 1)"

definition sqrt_max :: "int option" where
  "sqrt_max = map_option int (ct_sqrt (2 ^ 63 - 1))"

text \<open>\<open>r\<close> starts as the square root of the \<^verbatim>\<open>double\<close>, which is not exact.\<close>

partial_function (option) isqrt_up :: "int \<Rightarrow> int \<Rightarrow> int \<Rightarrow> int option" where
  "isqrt_up limit x r =
     (if r < limit
      then (if \<not> is_int64 (r * r) then None else if r * r < x then isqrt_up limit x (r + 1) else Some r)
      else Some r)"

partial_function (option) isqrt_down :: "int \<Rightarrow> int \<Rightarrow> int \<Rightarrow> int option" where
  "isqrt_down limit x r =
     (if r > limit then isqrt_down limit x (r - 1)
      else if \<not> is_int64 (r * r) then None
      else if r * r > x then isqrt_down limit x (r - 1)
      else Some r)"

definition isqrt :: "int \<Rightarrow> int \<Rightarrow> int option" where
  "isqrt double_sqrt x =
     Option.bind sqrt_max (\<lambda>limit. Option.bind (isqrt_up limit x double_sqrt) (isqrt_down limit x))"

section \<open>Rounding\<close>

text \<open>The quotient rounded to the nearest integer, halves away from 0.\<close>

definition round_div :: "int \<Rightarrow> int \<Rightarrow> int" where
  "round_div n d = sgn n * sgn d * ((\<bar>n\<bar> + \<bar>d\<bar> div 2) div \<bar>d\<bar>)"

lemma rescale_quotient_round:
  assumes "d \<noteq> 0"
  shows "rescale_quotient n d = round_div n d"
proof -
  have half: "d sdiv 2 = sgn d * (\<bar>d\<bar> div 2)" by (simp add: signed_divide_int_def)
  consider "n < 0" "d < 0" | "n < 0" "d > 0" | "n = 0" | "n > 0" "d < 0" | "n > 0" "d > 0" using assms by linarith
  then show ?thesis
  proof cases
    case 3
    have "(\<bar>d\<bar> div 2) div \<bar>d\<bar> = 0" using assms by (simp add: div_pos_pos_trivial)
    then show ?thesis using 3 assms half
      by (auto simp: rescale_quotient_def round_div_def signed_divide_int_def abs_mult sgn_if split: if_splits)
  qed (use half in \<open>auto simp: rescale_quotient_def round_div_def signed_divide_int_def sgn_if\<close>)
qed

lemma round_div_near:
  assumes "d \<noteq> 0"
  shows "2 * \<bar>round_div n d * d - n\<bar> \<le> \<bar>d\<bar>"
proof -
  define q where "q = (\<bar>n\<bar> + \<bar>d\<bar> div 2) div \<bar>d\<bar>"
  have "q * \<bar>d\<bar> + (\<bar>n\<bar> + \<bar>d\<bar> div 2) mod \<bar>d\<bar> = \<bar>n\<bar> + \<bar>d\<bar> div 2" unfolding q_def by simp
  moreover have "0 \<le> (\<bar>n\<bar> + \<bar>d\<bar> div 2) mod \<bar>d\<bar>" "(\<bar>n\<bar> + \<bar>d\<bar> div 2) mod \<bar>d\<bar> < \<bar>d\<bar>" using assms by simp_all
  moreover have "\<bar>d\<bar> div 2 * 2 \<le> \<bar>d\<bar>" "\<bar>d\<bar> \<le> \<bar>d\<bar> div 2 * 2 + 1" by simp_all
  moreover have "2 * \<bar>z - a\<bar> \<le> e" if "z + m = a + h" "0 \<le> m" "m < e" "h * 2 \<le> e" "e \<le> h * 2 + 1" for z m a h e :: int
    using that by (cases "0 \<le> z - a") simp_all
  ultimately have near: "2 * \<bar>q * \<bar>d\<bar> - \<bar>n\<bar>\<bar> \<le> \<bar>d\<bar>" by blast
  have "round_div n d * d = sgn n * (q * \<bar>d\<bar>)" unfolding round_div_def q_def [symmetric] using sgn_mult_abs [of d] abs_sgn [of d] by (simp only: ac_simps)
  moreover have "n = sgn n * \<bar>n\<bar>" by (simp add: sgn_mult_abs)
  ultimately have "round_div n d * d - n = sgn n * (q * \<bar>d\<bar> - \<bar>n\<bar>)" by (metis right_diff_distrib)
  then have "\<bar>round_div n d * d - n\<bar> = \<bar>sgn n\<bar> * \<bar>q * \<bar>d\<bar> - \<bar>n\<bar>\<bar>" by (simp only: abs_mult)
  also have "\<dots> \<le> 1 * \<bar>q * \<bar>d\<bar> - \<bar>n\<bar>\<bar>" by (rule mult_right_mono) (simp_all add: sgn_if)
  finally show ?thesis using near by linarith
qed

section \<open>Long division\<close>

lemma rescale_step:
  assumes "a1 < c" and "c < 2 ^ 63"
  shows "rescale_step c a0 i (a1, t1) =
    ((2 * a1 + (a0 div 2 ^ i) mod 2) mod c, (2 * t1 + (2 * a1 + (a0 div 2 ^ i) mod 2) div c) mod 2 ^ 64)"
proof -
  define x where "x = 2 * a1 + (a0 div 2 ^ i) mod 2"
  have "(a0 div 2 ^ i) mod 2 < 2" by simp
  then have x: "x < 2 * c" unfolding x_def using assms(1) by linarith
  then have u: "uint64_of (a1 + (a1 + (a0 div 2 ^ i) mod 2)) = x" using assms(2) by (simp add: uint64_of_def x_def algebra_simps)
  have step: "rescale_step c a0 i (a1, t1) = (if c \<le> x then (x - c, uint64_of (uint64_of (t1 + t1) + 1)) else (x, uint64_of (t1 + t1)))"
    by (simp only: rescale_step_def u Let_def prod.case)
  show ?thesis unfolding x_def [symmetric]
  proof (cases "c \<le> x")
    case True
    then have "x div c = 1" "x mod c = x - c" using x by (simp_all add: div_nat_eqI le_mod_geq)
    moreover have "uint64_of (uint64_of (t1 + t1) + 1) = (2 * t1 + 1) mod 2 ^ 64" unfolding uint64_of_def mult_2 by (rule mod_add_left_eq)
    ultimately show "rescale_step c a0 i (a1, t1) = (x mod c, (2 * t1 + x div c) mod 2 ^ 64)" using True step by simp
  next
    case False
    then show "rescale_step c a0 i (a1, t1) = (x mod c, (2 * t1 + x div c) mod 2 ^ 64)" using step by (simp add: uint64_of_def mult_2)
  qed
qed

lemma rescale_loop:
  assumes "a1 < c" and "c < 2 ^ 63"
  shows "rescale_loop c a0 i (a1, t1) =
    ((a1 * 2 ^ i + a0 mod 2 ^ i) mod c, if i = 0 then t1 else (t1 * 2 ^ i + (a1 * 2 ^ i + a0 mod 2 ^ i) div c) mod 2 ^ 64)"
  using assms(1)
proof (induction i arbitrary: a1 t1)
  case (Suc i)
  define x where "x = 2 * a1 + (a0 div 2 ^ i) mod 2"
  define y where "y = (x mod c) * 2 ^ i + a0 mod 2 ^ i"
  have "a0 mod 2 ^ Suc i = (a0 div 2 ^ i) mod 2 * 2 ^ i + a0 mod 2 ^ i" 
    using mod_mult2_eq [of a0 "2 ^ i" 2] by (simp add: mult.commute)
  then have "a1 * 2 ^ Suc i + a0 mod 2 ^ Suc i = x * 2 ^ i + a0 mod 2 ^ i" by (simp add: x_def algebra_simps)
  also have "\<dots> = (x div c * c + x mod c) * 2 ^ i + a0 mod 2 ^ i" by simp
  also have "\<dots> = y + x div c * 2 ^ i * c" unfolding y_def by (simp only: algebra_simps)
  finally have e: "a1 * 2 ^ Suc i + a0 mod 2 ^ Suc i = y + x div c * 2 ^ i * c" .
  have c: "0 < c" "x mod c < c" using Suc.prems by simp_all
  have d: "(a1 * 2 ^ Suc i + a0 mod 2 ^ Suc i) div c = x div c * 2 ^ i + y div c" "(a1 * 2 ^ Suc i + a0 mod 2 ^ Suc i) mod c = y mod c"
    unfolding e using c(1) by simp_all
  have step: "rescale_loop c a0 (Suc i) (a1, t1) = rescale_loop c a0 i (x mod c, (2 * t1 + x div c) mod 2 ^ 64)"
    using rescale_step [OF Suc.prems assms(2)] by (simp add: x_def)
  have "((2 * t1 + x div c) mod 2 ^ 64 * 2 ^ i + y div c) mod 2 ^ 64 = ((2 * t1 + x div c) * 2 ^ i + y div c) mod 2 ^ 64"
    by (metis mod_add_left_eq mod_mult_left_eq)
  moreover have "(2 * t1 + x div c) * 2 ^ i + y div c = t1 * 2 ^ Suc i + (x div c * 2 ^ i + y div c)" by (simp add: algebra_simps)
  ultimately have t: "((2 * t1 + x div c) mod 2 ^ 64 * 2 ^ i + y div c) mod 2 ^ 64 = (t1 * 2 ^ Suc i + (x div c * 2 ^ i + y div c)) mod 2 ^ 64"
    by simp
  have "i = 0 \<Longrightarrow> y div c = 0" using c by (simp add: y_def)
  then show ?case unfolding step Suc.IH [OF c(2), folded y_def] d using t by (cases "i = 0") simp_all
qed simp

lemma rescale_loop_64:
  assumes "a1 < c" and "c < 2 ^ 63" and "a0 < 2 ^ 64"
  shows "snd (rescale_loop c a0 64 (a1, t1)) = ((a1 * 2 ^ 64 + a0) div c) mod 2 ^ 64"
proof -
  have "a0 mod 2 ^ 64 = a0" using assms(3) by simp
  then show ?thesis unfolding rescale_loop [OF assms(1,2)] by (simp del: power_numeral)
qed

text \<open>The carry of an addition of words.\<close>

lemma uint64_carry:
  assumes "x < 2 ^ 64" and "y < 2 ^ 64"
  shows "uint64_of (x + y) + (if uint64_of (x + y) < y then 1 else 0) * 2 ^ 64 = x + y"
proof (cases "x + y < 2 ^ 64")
  case True
  then show ?thesis by (simp add: uint64_of_def)
next
  case False
  then have "uint64_of (x + y) = x + y - 2 ^ 64" using assms by (simp add: uint64_of_def le_mod_geq)
  then show ?thesis using False assms by simp
qed

lemma rescale_product:
  assumes "a < 2 ^ 63" and "b < 2 ^ 63" and "r < 2 ^ 63"
  obtains hi lo t where "rescale_product a b r = (hi, lo, t)" and "hi * 2 ^ 64 + lo = a * b + r" and "lo < 2 ^ 64"
proof -
  define B :: nat where "B = 2 ^ 32"
  have BB: "2 ^ 64 = B * B" by (simp add: B_def)
  define a0 a1 b0 b1 where d: "a0 = a mod B" "a1 = a div B" "b0 = b mod B" "b1 = b div B"
  have ab: "a = a1 * B + a0" "b = b1 * B + b0" by (simp_all add: d)
  have hi: "a1 < 2 ^ 31" "b1 < 2 ^ 31" using assms by (simp_all add: d B_def less_mult_imp_div_less)
  have lo: "a0 < 2 ^ 32" "b0 < 2 ^ 32" by (simp_all add: d B_def)
  have prod: "x * y < 2 ^ (m + n)" if "x < 2 ^ m" "y < 2 ^ n" for x y m n :: nat
    using that by (simp add: power_add mult_strict_mono)
  define t where "t = a0 * b1 + a1 * b0"
  define th tl where td: "th = t div B" "tl = t mod B"
  have t: "t < 2 ^ 64" using prod [OF lo(1) hi(2)] prod [OF hi(1) lo(2)] by (simp add: t_def)
  have th: "th < 2 ^ 32" using t by (simp add: td B_def less_mult_imp_div_less)
  have teq: "t = th * B + tl" by (simp add: td)
  have ta: "uint64_of (t * B) = tl * B" unfolding uint64_of_def BB td by (rule mod_mult_mult2)
  have "tl < B" by (simp add: td B_def)
  then have tl: "tl * B < 2 ^ 64" unfolding BB by (intro mult_strict_right_mono) (simp_all add: B_def)
  define l where "l = uint64_of (a0 * b0 + tl * B)"
  define h where "h = a1 * b1 + th + (if l < tl * B then 1 else 0)"
  have l: "l + (if l < tl * B then 1 else 0) * 2 ^ 64 = a0 * b0 + tl * B" unfolding l_def
    by (rule uint64_carry) (use prod [OF lo] tl in simp_all)
  have hb: "h < 2 ^ 63" using prod [OF hi] th by (simp add: h_def)
  define l' where "l' = uint64_of (l + r)"
  define h' where "h' = h + (if l' < r then 1 else 0)"
  have "l < 2 ^ 64" by (simp add: l_def uint64_of_def)
  then have l': "l' + (if l' < r then 1 else 0) * 2 ^ 64 = l + r" unfolding l'_def by (rule uint64_carry) (use assms(3) in simp)
  have "h' < 2 ^ 64" using hb by (simp add: h'_def)
  then have h': "uint64_of (h + (if l' < r then 1 else 0)) = h'" unfolding h'_def by (rule uint64_of_id)
  have h: "uint64_of (a1 * b1 + th + (if l < tl * B then 1 else 0)) = h" unfolding h_def [symmetric] by (rule uint64_of_id) (use hb in simp)
  have eq: "rescale_product a b r = (h', l', t)"
    unfolding rescale_product_def Let_def B_def [symmetric] d [symmetric] t_def [symmetric] uint64_of_id [OF t] td(1) [symmetric]
      ta l_def [symmetric] h l'_def [symmetric] h' ..
  have "h' * 2 ^ 64 + l' = h * 2 ^ 64 + (l + r)" unfolding h'_def l' [symmetric] by simp
  also have "\<dots> = (a1 * b1 + th) * 2 ^ 64 + (a0 * b0 + tl * B) + r" unfolding h_def l [symmetric] by simp
  also have "\<dots> = a1 * b1 * (B * B) + t * B + a0 * b0 + r" unfolding BB teq by (simp add: algebra_simps)
  also have "\<dots> = a * b + r" unfolding ab t_def by (simp add: algebra_simps)
  finally show thesis using that [OF eq] by (simp add: l'_def uint64_of_def)
qed

lemma round_div_sign:
  assumes "d \<noteq> 0"
  shows "round_div (n * v) d = (if n < 0 then - 1 else 1) * (if d < 0 then - 1 else 1) * (if v < 0 then - 1 else 1) *
    int ((nat \<bar>n\<bar> * nat \<bar>v\<bar> + nat \<bar>d\<bar> div 2) div nat \<bar>d\<bar>)"
proof -
  let ?q = "(nat \<bar>n\<bar> * nat \<bar>v\<bar> + nat \<bar>d\<bar> div 2) div nat \<bar>d\<bar>"
  have q: "(\<bar>n * v\<bar> + \<bar>d\<bar> div 2) div \<bar>d\<bar> = int ?q" by (simp add: zdiv_int abs_mult)
  show ?thesis
  proof (cases "n = 0 \<or> v = 0")
    case True
    have "nat \<bar>d\<bar> div 2 < nat \<bar>d\<bar>" using assms by simp
    then have "?q = 0" using True by auto
    then show ?thesis using True by (auto simp: round_div_def)
  next
    case False
    have sg: "sgn x = (if x < 0 then - 1 else 1)" if "x \<noteq> 0" for x :: int using that by (simp add: sgn_if)
    have "n \<noteq> 0" "v \<noteq> 0" using False by simp_all
    then show ?thesis unfolding round_div_def q sgn_mult by (simp only: sg [OF \<open>n \<noteq> 0\<close>] sg [OF \<open>v \<noteq> 0\<close>] sg [OF assms] mult_ac)
  qed
qed

lemma rescale_portable_round:
  assumes "is_int64 \<bar>n\<bar>" "is_int64 \<bar>v\<bar>" "is_int64 \<bar>d\<bar>" "d \<noteq> 0" and "is_int64 \<bar>round_div (n * v) d\<bar>"
  shows "rescale_portable n v d = Some (round_div (n * v) d)"
proof -
  define a b c where abc: "a = nat \<bar>n\<bar>" "b = nat \<bar>v\<bar>" "c = nat \<bar>d\<bar>"
  define s :: int where "s = (if n < 0 then - 1 else 1) * (if d < 0 then - 1 else 1) * (if v < 0 then - 1 else 1)"
  define q where "q = (a * b + c div 2) div c"
  have r: "round_div (n * v) d = s * int q" using round_div_sign [OF assms(4)] by (simp add: s_def q_def abc)
  have s: "\<bar>s\<bar> = 1" by (simp add: s_def)
  then have q: "is_int64 (int q)" using assms(5) by (simp add: r abs_mult)
  have lt: "a < 2 ^ 63" "b < 2 ^ 63" "c < 2 ^ 63" using assms(1-3) by (simp_all add: abc is_int64_def nat_less_iff)
  have c: "c \<noteq> 0" using assms(4) by (simp add: abc)
  have split: "a div c * b + (a mod c * b + c div 2) div c = q"
  proof -
    have "a * b = (a div c * c + a mod c) * b" by simp
    also have "\<dots> = a mod c * b + a div c * b * c" by (simp only: algebra_simps)
    finally have "a * b + c div 2 = (a mod c * b + c div 2) + a div c * b * c" by simp
    then show ?thesis unfolding q_def using c by (simp only: div_mult_self1 not_False_eq_True)
  qed
  obtain hi lo t where p: "rescale_product a b (c div 2) = (hi, lo, t)" "hi * 2 ^ 64 + lo = a * b + c div 2" "lo < 2 ^ 64"
    by (rule rescale_product [of a b "c div 2"]) (use lt in simp_all)
  have "q < 2 ^ 64" using q by (simp add: is_int64_def)
  then have "hi * 2 ^ 64 + lo < 2 ^ 64 * c" unfolding p(2) q_def using c by (simp add: div_less_iff_less_mult)
  then have "hi < c" by simp
  then have "snd (rescale_loop c lo 64 (hi, t)) = ((hi * 2 ^ 64 + lo) div c) mod 2 ^ 64" by (rule rescale_loop_64 [OF _ lt(3) p(3)])
  also have "\<dots> = q" unfolding p(2) q_def [symmetric] by (rule mod_less) (rule \<open>q < 2 ^ 64\<close>)
  finally have loop: "snd (rescale_loop c lo 64 (hi, t)) = q" .
  have "is_int64 (int q * s)" using assms(5) s r by (simp add: is_int64_def abs_mult) (auto simp: s_def split: if_splits)
  then have "int64_of (int q * s) = s * int q" by (simp add: int64_of_id mult.commute)
  then show ?thesis
    unfolding r rescale_portable_def Let_def abc [symmetric] s_def [symmetric]
    using assms(1-3) c split q loop by (simp add: p(1) flip: q_def)
qed

lemma rescale_round:
  assumes "d \<noteq> 0" and "is_int64 (round_div (n * v) d)"
  shows "rescale n v d = Some (round_div (n * v) d)"
  using assms by (simp add: rescale_def rescale_quotient_round int64_of_id)

section \<open>Square roots\<close>

lemma sqrt_helper:
  assumes "lo \<le> hi" and "lo * lo \<le> x" and "x < (hi + 1) * (hi + 1)"
  shows "\<exists>r. sqrt_helper x lo hi = Some r \<and> r * r \<le> x \<and> x < (r + 1) * (r + 1)"
  using assms
proof (induction "hi - lo" arbitrary: lo hi rule: less_induct)
  case less
  show ?case
  proof (cases "lo = hi")
    case False
    define mid where "mid = (lo + hi + 1) div 2"
    have m: "lo < mid" "mid \<le> hi" using False less.prems(1) by (simp_all add: mid_def)
    have iff: "x div mid < mid \<longleftrightarrow> x < mid * mid" using m(1) by (simp add: div_less_iff_less_mult)
    show ?thesis
    proof (cases "x div mid < mid")
      case True
      then have "\<exists>r. sqrt_helper x lo (mid - 1) = Some r \<and> r * r \<le> x \<and> x < (r + 1) * (r + 1)"
        using m less.prems iff by (intro less.hyps) auto
      then show ?thesis by (subst sqrt_helper.simps) (simp only: Let_def mid_def [symmetric] False True if_True if_False)
    next
      case f: False
      then have "\<exists>r. sqrt_helper x mid hi = Some r \<and> r * r \<le> x \<and> x < (r + 1) * (r + 1)"
        using m less.prems iff by (intro less.hyps) auto
      then show ?thesis by (subst sqrt_helper.simps) (simp only: Let_def mid_def [symmetric] False f if_True if_False)
    qed
  qed (use less.prems in \<open>auto simp: sqrt_helper.simps\<close>)
qed

lemma ct_sqrt: "\<exists>r. ct_sqrt x = Some r \<and> r * r \<le> x \<and> x < (r + 1) * (r + 1)"
  unfolding ct_sqrt_def
proof (rule sqrt_helper)
  have "x < 2 * (x div 2 + 1)" by simp
  also have "\<dots> \<le> (x div 2 + 1 + 1) * (x div 2 + 1 + 1)" by simp
  finally show "x < (x div 2 + 1 + 1) * (x div 2 + 1 + 1)" .
qed simp_all

lemma sqrt_max: "\<exists>m. sqrt_max = Some m \<and> 0 \<le> m \<and> m * m < 2 ^ 63 \<and> 2 ^ 63 \<le> (m + 1) * (m + 1)"
proof -
  obtain r where "ct_sqrt (2 ^ 63 - 1) = Some r" and r: "r * r \<le> 2 ^ 63 - 1" "2 ^ 63 - 1 < (r + 1) * (r + 1)" using ct_sqrt by blast
  then have "sqrt_max = Some (int r)" by (simp add: sqrt_max_def)
  moreover have "int (r * r) < int (2 ^ 63)" "int (2 ^ 63) \<le> int ((r + 1) * (r + 1))" using r by (simp_all only: of_nat_less_iff of_nat_le_iff) simp_all
  ultimately show ?thesis by (intro exI [of _ "int r"]) (simp add: algebra_simps)
qed

lemma square_le_square: "0 \<le> a \<Longrightarrow> a \<le> b \<Longrightarrow> a * a \<le> b * b" for a b :: int
  by (simp add: mult_mono)

lemma isqrt_up:
  assumes "0 \<le> r" and "m * m < 2 ^ 63"
  shows "\<exists>r'. isqrt_up m x r = Some r' \<and> 0 \<le> r' \<and> (m \<le> r' \<or> x \<le> r' * r')"
  using assms(1)
proof (induction "nat (m - r)" arbitrary: r rule: less_induct)
  case less
  show ?case
  proof (cases "r < m")
    case True
    have "r * r \<le> m * m" using less.prems True by (intro square_le_square) simp_all
    then have i: "is_int64 (r * r)" using assms(2) by (simp add: is_int64_def) (smt (verit) zero_le_square)
    show ?thesis
    proof (cases "r * r < x")
      case lt: True
      have "\<exists>r'. isqrt_up m x (r + 1) = Some r' \<and> 0 \<le> r' \<and> (m \<le> r' \<or> x \<le> r' * r')"
        using True less.prems by (intro less.hyps) simp_all
      then show ?thesis using True i lt by (subst isqrt_up.simps) simp
    qed (use True i less.prems in \<open>subst isqrt_up.simps, simp\<close>)
  qed (use less.prems in \<open>subst isqrt_up.simps, simp\<close>)
qed

lemma isqrt_down:
  assumes "0 \<le> r" and "x < (r + 1) * (r + 1)" and "0 \<le> x" and "x < 2 ^ 63" and "m * m < 2 ^ 63" and "2 ^ 63 \<le> (m + 1) * (m + 1)" and "0 \<le> m"
  shows "\<exists>r'. isqrt_down m x r = Some r' \<and> 0 \<le> r' \<and> r' * r' \<le> x \<and> x < (r' + 1) * (r' + 1)"
  using assms(1,2)
proof (induction "nat r" arbitrary: r rule: less_induct)
  case less
  have down: "\<exists>r'. isqrt_down m x (r - 1) = Some r' \<and> 0 \<le> r' \<and> r' * r' \<le> x \<and> x < (r' + 1) * (r' + 1)" if "x < r * r"
  proof -
    have "r \<noteq> 0" using that assms(3) by auto
    then show ?thesis using less.prems that by (intro less.hyps) simp_all
  qed
  show ?case
  proof (cases "m < r")
    case True
    have "(m + 1) * (m + 1) \<le> r * r" using True assms(7) by (intro square_le_square) simp_all
    then have "x < r * r" using assms(4,6) by linarith
    then show ?thesis using down True by (subst isqrt_down.simps) simp
  next
    case False
    have "r * r \<le> m * m" using less.prems False by (intro square_le_square) simp_all
    then have i: "is_int64 (r * r)" using assms(5) by (simp add: is_int64_def) (smt (verit) zero_le_square)
    show ?thesis
    proof (cases "x < r * r")
      case True
      then show ?thesis using down False i by (subst isqrt_down.simps) simp
    next
      case le: False
      then show ?thesis using False i less.prems by (subst isqrt_down.simps) simp
    qed
  qed
qed

section \<open>Both routines\<close>

text \<open>
  C39. Without integers of 128 bits the long multiplication and division compute the same as with them: for all
  64-bit arguments whose quotient fits, both variants return the quotient rounded to the nearest integer.
\<close>

theorem rescale_portable_equals:
  assumes "is_int64 \<bar>n\<bar>" and "is_int64 \<bar>v\<bar>" and "is_int64 \<bar>d\<bar>" and "d \<noteq> 0" and "is_int64 \<bar>round_div (n * v) d\<bar>"
  shows "rescale_portable n v d = rescale n v d \<and> rescale n v d = Some (round_div (n * v) d) \<and>
    2 * \<bar>round_div (n * v) d * d - n * v\<bar> \<le> \<bar>d\<bar>"
proof -
  have "is_int64 (round_div (n * v) d)" using assms(5) by (simp add: is_int64_def abs_if split: if_splits)
  then show ?thesis using rescale_portable_round [OF assms] rescale_round [OF assms(4)] round_div_near [OF assms(4)] by simp
qed

theorem rescale_portable_equals_witness:
  "rescale_portable (- 7) (3 * 2 ^ 40) (2 ^ 41) = rescale (- 7) (3 * 2 ^ 40) (2 ^ 41) \<and>
   rescale (- 7) (3 * 2 ^ 40) (2 ^ 41) = Some (- 11)"
proof -
  have "round_div (- 7 * (3 * 2 ^ 40)) (2 ^ 41) = - 11" by (simp add: round_div_def)
  then show ?thesis using rescale_portable_equals [of "- 7" "3 * 2 ^ 40" "2 ^ 41"] by (simp add: is_int64_def)
qed

text \<open>
  C40. The integer square root ends and is the exact one for every 64-bit number, whatever the first guess of the
  floating-point unit, and no product in its loops overflows.
\<close>

theorem isqrt_floor:
  assumes "0 \<le> double_sqrt" and "0 \<le> x" and "x < 2 ^ 63"
  shows "isqrt double_sqrt x = Some \<lfloor>sqrt (real_of_int x)\<rfloor>"
proof -
  obtain m where m: "sqrt_max = Some m" "0 \<le> m" "m * m < 2 ^ 63" "2 ^ 63 \<le> (m + 1) * (m + 1)" using sqrt_max by blast
  obtain r where r: "isqrt_up m x double_sqrt = Some r" "0 \<le> r" "m \<le> r \<or> x \<le> r * r" using isqrt_up [OF assms(1) m(3)] by blast
  have "x < (r + 1) * (r + 1)"
  proof (cases "m \<le> r")
    case True
    then have "(m + 1) * (m + 1) \<le> (r + 1) * (r + 1)" using m(2) by (intro square_le_square) simp_all
    then show ?thesis using m(4) assms(3) by linarith
  next
    case False
    then have "x \<le> r * r" using r(3) by simp
    then show ?thesis using r(2) by (simp add: algebra_simps)
  qed
  then obtain q where q: "isqrt_down m x r = Some q" "0 \<le> q" "q * q \<le> x" "x < (q + 1) * (q + 1)"
    using isqrt_down [OF r(2) _ assms(2,3) m(3,4,2)] by blast
  have "real_of_int (q * q) \<le> real_of_int x" "real_of_int x < real_of_int ((q + 1) * (q + 1))" using q(3,4) by (simp_all only: of_int_le_iff of_int_less_iff)
  then have "real_of_int q \<le> sqrt (real_of_int x)" "sqrt (real_of_int x) < real_of_int q + 1"
    using q(2) assms(2) by (auto simp: power2_eq_square intro!: real_le_rsqrt real_less_lsqrt)
  then have "\<lfloor>sqrt (real_of_int x)\<rfloor> = q" by (simp add: floor_eq_iff)
  then show ?thesis by (simp only: isqrt_def m(1) r(1) q(1) Option.bind.simps)
qed

theorem isqrt_floor_witness: "isqrt 9 40 = Some 6"
proof -
  have "\<lfloor>sqrt 40\<rfloor> = 6" by (simp add: floor_eq_iff real_le_rsqrt real_less_lsqrt)
  then show ?thesis using isqrt_floor [of 9 40] by simp
qed

end
