(* ===== verification/Spec2Isabelle.thy ===== *)
theory Spec2Isabelle
  imports LSet GalSet PnsCommit Prettify CnRatsnest StringParts KiMath
begin

text \<open>
  A model of six parts of KiCad's core: the layers of a board, the world of the push-and-shove
  router, the connectivity of a board with its ratsnest, the reading and writing of s-expression files,
  the string functions that the rest of the program shares, and the integer arithmetic below the geometry.

  \<^bold>\<open>The parts and how they interact.\<close>
  \<^item> Layers. A layer is a number on one line that six enumerations share (\<^verbatim>\<open>include/layer_ids.h\<close>,
    \<^verbatim>\<open>common/layer_id.cpp\<close>). A set of board layers, \<open>LSET\<close>, is a growing bit set (\<open>BASE_SET\<close>), a set of
    virtual layers, \<open>GAL_SET\<close>, one of fixed size (\<^verbatim>\<open>include/base_set.h\<close>, \<^verbatim>\<open>common/lset.cpp\<close>).
  \<^item> Router. Tracks, vias and pads lie on ranges of layers (\<open>LAYER_RANGE\<close>). A \<open>NODE\<close> keeps them in an
    index and in joints, the points where they meet; branches of a root node record a change that
    may be dropped or committed (\<^verbatim>\<open>pcbnew/router/pns_*.h\<close> and \<^verbatim>\<open>.cpp\<close>). Index and joints change together
    in every operation of the node.
  \<^item> Connectivity. \<open>CN_CONNECTIVITY_ALGO\<close> keeps an item for each pad, track, via, shape and zone outline
    of the board, finds which items touch, groups them into clusters and propagates nets along them
    (\<^verbatim>\<open>pcbnew/connectivity\<close>). The clusters of a net become nodes and board edges of an \<open>RN_NET\<close>, whose
    ratsnest is a spanning tree over a triangulation (\<^verbatim>\<open>pcbnew/ratsnest\<close>). \<open>CONNECTIVITY_DATA\<close> holds both for a
    board, recalculates the nets that changed and answers what is connected.
  \<^item> Files. \<open>OUTPUTFORMATTER\<close> quotes strings, \<open>Prettify\<close> lays out a finished text, a \<open>LINE_READER\<close> hands out the
    lines of a text or of a file, and \<open>DSNLEXER\<close> makes tokens of them (\<^verbatim>\<open>common/richio.cpp\<close>,
    \<^verbatim>\<open>common/io/kicad/kicad_io_utils.cpp\<close>, \<^verbatim>\<open>common/dsnlexer.cpp\<close>).
  \<^item> Strings. Escaping and quoting of names, matching with wildcards, comparing names and values that have
    numbers in them, splitting, stripping, file names (\<^verbatim>\<open>common/string_utils.cpp\<close>, \<^verbatim>\<open>include/string_utils.h\<close>).
    They call no other part; they share the bytes and the quotes of the file readers.
  \<^item> Arithmetic. The geometry library scales coordinates by fractions with a product of 128 bits and takes integer
    square roots (\<^verbatim>\<open>libs/kimath\<close>). No other part of the model calls it.

  \<^bold>\<open>Theories and sources.\<close>
  \<^item> \<open>Prelude\<close>: machine integers, loops that may fail, list lemmas, collections of rules.
  \<^item> \<open>LayerEnums\<close>, \<open>LayerIds\<close>: the enumerations with their values; index arithmetic, predicates,
    \<open>LayerName\<close>, \<open>FlipLayer\<close>. The lemmas give the range of every predicate and show that a flip exchanges
    the sides of the board.
  \<^item> \<open>BaseSet\<close>, \<open>LSet\<close>, \<open>GalSet\<close>: the sets. A bit set stands for the set of positions that test true; each
    operation is shown to be the set operation of its name; the masks of the code are intervals
    of layers; \<open>Seq\<close>, \<open>FmtHex\<close> and \<open>ParseHex\<close> are inverse; \<open>bit_container\<close> is the interface that the sets
    give to a construction from an array.
  \<^item> \<open>LayerRange\<close>: \<^verbatim>\<open>pns_layerset.h\<close>. A range stands for the set of layers that it covers.
  \<^item> \<open>PnsItem\<close>, \<open>PnsJoint\<close>, \<open>PnsJointMap\<close>, \<open>PnsIndex\<close>: \<^verbatim>\<open>pns_item.*\<close>, \<^verbatim>\<open>pns_itemset.*\<close>, \<^verbatim>\<open>pns_joint.h\<close>, the member
    \<open>m_joints\<close> of \<^verbatim>\<open>pns_node.h\<close>, \<^verbatim>\<open>pns_index.*\<close>. Items live in a store and are referred to by address. The joint
    map is shown to be a set of links per tag, the index a set of items (\<open>item_container\<close>).
  \<^item> \<open>PnsNode\<close>: \<^verbatim>\<open>pns_node.cpp\<close>. The state is a \<open>WORLD\<close>: the store, the nodes that are alive, the items that
    have been deleted. Each operation of a node is a function from worlds to worlds; the lemmas give its
    effect on index, joints and the rest of the world.
  \<^item> \<open>PnsNodeInv\<close>: the reachable states of a root node (\<open>root_reach\<close>), where the joints agree with the index.
    The node owns its items; a hole may be owned by its via or pad instead, since a branch that removes these
    gives the hole to them. \<open>PnsTree\<close>: the tree of branches and its release. \<open>PnsBranch\<close>: what a branch sees,
    and that what branches do are steps of the root (\<open>branch_Remove_reach\<close> and the lemmas beside it).
    \<open>PnsCommit\<close>: a commit makes the root what the branch sees, in a reachable state again.
  \<^item> \<open>CnItems\<close>, \<open>CnAlgo\<close>: \<^verbatim>\<open>connectivity_items.*\<close> and \<^verbatim>\<open>connectivity_algo.*\<close>. The state is a \<open>CN_WORLD\<close>: stores of
    board items, connectivity items and anchors, the list and index of the items, the map from board
    items to their items, the nets that changed. What collides with what is a parameter, \<open>CN_GEOMETRY\<close>.
    \<open>CnClusters\<close>: a search from a root finds its component. \<open>CnPropagate\<close>: the invariant, what the search for
    propagation makes of zones that are still marked (\<open>live_comps\<close>), the nets of a cluster and the effect of
    propagating them. \<open>CnReach\<close>: the operations as steps, each keeps the
    invariant. \<open>CnProps\<close>: what holds in all reachable states. \<open>CnBuild\<close>, \<open>CnIslands\<close>: building the connectivity
    of a whole board, and the islands of its zones.
  \<^item> \<open>DisjointSet\<close>, \<open>SpanningForest\<close>: union-find with path compression, and spanning forests of edge lists with
    their least weight. \<open>Ratsnest\<close>: \<^verbatim>\<open>ratsnest_data.*\<close>. \<open>RatsnestNearest\<close>: the sweep for the nearest pair.
    \<open>RatsnestTree\<close>: the spanning tree, and that the lines of a net connect it. \<open>RatsnestOpt\<close>: the ends of the lines
    at zones, and dangling anchors.
  \<^item> \<open>CnData\<close>, \<open>CnQuery\<close>: \<^verbatim>\<open>connectivity_data.*\<close>. A \<open>CN_DATA\<close> is a \<open>CN_WORLD\<close> with the nets and the lines of moving
    items; the first theory has the operations that change it, the second one the questions.
    \<open>CnQueryProps\<close>: the answer to what is connected to a board item.
  \<^item> \<open>CnAnchors\<close>, \<open>CnNodes\<close>, \<open>CnRecalc\<close>, \<open>CnLines\<close>, \<open>CnFound\<close>, \<open>CnRatsnest\<close>: lemmas on one recalculation, from the items
    to the finished lines. Anchors belong to their items; the fold over the clusters gives each net its nodes
    and stars of board edges; an update returns with lines that span the net; moving their ends keeps
    what they connect; the clusters are the components of the items within a net. Together: in every reachable
    state (\<open>data_reach\<close>) a recalculation returns and completes every net that was marked.
  \<^item> \<open>Richio\<close>: line readers and quoting. A text is a list of bytes, an exception a value of \<open>RICH_ERROR\<close>;
    no reader writes past its buffer.
  \<^item> \<open>DsnLexer\<close>: the lexer in both of its modes, as functions on the rest of the current line. \<open>DsnRoundtrip\<close>:
    reading ends, the numbers of the lexer have a grammar, and a written text is read back token by
    token. \<open>Prettify\<close>: the layout loop, which keeps the tokens.
  \<^item> \<open>StringUtils\<close>, \<open>StringOps\<close>: the functions on strings. A \<open>wxString\<close> is a list of code points, a string of the C
    library a list of bytes. Upper case, UTF-8, the decimal point, regular expressions, and the formats
    and the arithmetic of \<^verbatim>\<open>double\<close> are parameters. \<open>StringProps\<close>: matching decides a recursive definition, and comparing is the
    order of lists of characters and values. \<open>StringEscape\<close>: what is read back of escaped and quoted text.
    \<open>StringParts\<close>: splitting, stripping and replacing, with examples where the code does not do what it says.
  \<^item> \<open>KiMath\<close>: \<^verbatim>\<open>include/math/util.h\<close>, \<^verbatim>\<open>src/math/util.cpp\<close> and the root of \<^verbatim>\<open>src/geometry/seg.cpp\<close>. The long multiplication
    and division of the portable variant of \<open>rescale\<close> is shown to agree with the one of 128 bits; the square
    root is exact whatever the first guess, which comes from a \<^verbatim>\<open>double\<close> and is a parameter.

  \<^bold>\<open>Failure.\<close> \<open>None\<close> is a failed assertion, a null pointer, an access out of bounds or, in a few places that
  say so, an exception; the file reader and the lexer return their errors as values of a sum.

  \<^bold>\<open>Fuel.\<close> Loops whose end depends on the state take a bound. \<open>releaseChildren\<close> recurses over the branches:
  the depth of the tree is enough, and in a well-formed tree it is at most the number of nodes.
  \<open>lex_all\<close> and \<open>comment_loop\<close> read tokens: one more than the number of unread bytes is enough, because
  every token but the end consumes one. The search over a cluster and the walks of union-find are partial
  functions that are shown to return. The loops of \<open>isqrt\<close> are partial
  functions that are shown to return as well. The loop of \<open>UnescapeHTML\<close> ends where
  the pattern no longer matches, \<open>GetLine\<close> at the end of the file: both are partial functions. All other
  recursions are total functions.

  \<^bold>\<open>Not modelled.\<close> Collision and shape queries of the router, its line assembly, optimizer and placers: they
  rest on the geometry library and its R-tree; so do the collisions that connect items, and the
  triangulation and floating-point lengths of the ratsnest, which are parameters with the behaviour that
  is relied on as named hypotheses. Threads: loops that the code spreads over a pool run in order. The conversion of numbers to \<^verbatim>\<open>double\<close>, printf formats, the
  opening and closing of files. The parsers of the file formats, which call the lexer with a generated
  table of keywords. Dialogs, tools, canvases, plotters and viewers, scripting, the schematic editor
  and the simulator, the clock, and regular expressions that replace text: most of their code is calls into wxWidgets, OpenGL or ngspice. Third-party
  libraries, fonts and bitmaps.
\<close>

end
